(* ===== verification/Prelude.thy ===== *)
theory Prelude
  imports Main "HOL-Library.Word" "HOL-Library.Signed_Division"
begin

text \<open>
  Shared vocabulary of the development: the machine integers of the x86-64 target, the result
  type of operations that may stop, little-endian loads and stores on a flat byte memory, the
  truncating division of C, and the generic lemmas every component uses.

  A C operation is a function from a state to a result.  It returns \<open>Ok\<close> a value, or
  \<open>Stop\<close>s for one of the reasons of \<open>halt\<close>: an access outside the array it is defined on
  (undefined behaviour in C) or a trapping division, a wait for a key that is never pressed, a
  loop whose state repeats for ever, or the recursion budget of a definition (each definition
  with a budget has a lemma that the budget it is given is never used up).
\<close>

unbundle bit_operations_syntax

type_synonym u8 = "8 word"
type_synonym u16 = "16 word"
type_synonym u32 = "32 word"
type_synonym u64 = "64 word"
type_synonym mem = "nat \<Rightarrow> u8"

named_theorems res_simps \<open>rewriting of results and of the sequencing operator\<close>
named_theorems mem_simps \<open>loads after stores\<close>

datatype halt = Fault | Blocked | Diverge | NoFuel

datatype 'a res = Ok 'a | Stop halt

definition bnd :: "'a res \<Rightarrow> ('a \<Rightarrow> 'b res) \<Rightarrow> 'b res" where
  "bnd m f = (case m of Ok a \<Rightarrow> f a | Stop h \<Rightarrow> Stop h)"

definition returns :: "'a res \<Rightarrow> bool" where
  "returns m = (case m of Ok a \<Rightarrow> True | Stop h \<Rightarrow> False)"

text \<open>Characters of the source as bytes, and string constants as byte lists.\<close>

abbreviation ch :: "char \<Rightarrow> u8" where
  "ch c \<equiv> of_char c"

abbreviation str :: "string \<Rightarrow> u8 list" where
  "str xs \<equiv> map of_char xs"

text \<open>C division of signed 64-bit integers truncates towards zero.\<close>

definition s64_div :: "u64 \<Rightarrow> u64 \<Rightarrow> u64" where
  "s64_div a b = word_of_int (sint a sdiv sint b)"

definition s64_mod :: "u64 \<Rightarrow> u64 \<Rightarrow> u64" where
  "s64_mod a b = word_of_int (sint a smod sint b)"

text \<open>Little-endian multi-byte values in a byte memory.\<close>

primrec le_bytes :: "nat \<Rightarrow> u64 \<Rightarrow> u8 list" where
  "le_bytes 0 w = []"
| "le_bytes (Suc n) w = ucast w # le_bytes n (drop_bit 8 w)"

primrec le_word :: "u8 list \<Rightarrow> u64" where
  "le_word [] = 0"
| "le_word (b # bs) = ucast b OR push_bit 8 (le_word bs)"

definition load_bytes :: "mem \<Rightarrow> nat \<Rightarrow> nat \<Rightarrow> u8 list" where
  "load_bytes m p n = map m [p ..< p + n]"

fun store_bytes :: "mem \<Rightarrow> nat \<Rightarrow> u8 list \<Rightarrow> mem" where
  "store_bytes m p [] = m"
| "store_bytes m p (b # bs) = store_bytes (m(p := b)) (Suc p) bs"

subsection \<open>Results\<close>

lemma bnd_Ok [simp, res_simps]: "bnd (Ok a) f = f a"
  by (simp add: bnd_def)

lemma bnd_Stop [simp, res_simps]: "bnd (Stop h) f = Stop h"
  by (simp add: bnd_def)

lemma bnd_eq_Ok [res_simps]: "bnd m f = Ok b \<longleftrightarrow> (\<exists>a. m = Ok a \<and> f a = Ok b)"
  by (cases m) auto

lemma bnd_eq_Stop [res_simps]:
  "bnd m f = Stop h \<longleftrightarrow> m = Stop h \<or> (\<exists>a. m = Ok a \<and> f a = Stop h)"
  by (cases m) auto

lemma bnd_cong [fundef_cong]:
  "m = m' \<Longrightarrow> (\<And>a. m' = Ok a \<Longrightarrow> f a = f' a) \<Longrightarrow> bnd m f = bnd m' f'"
  by (cases m') auto

lemma bnd_assoc: "bnd (bnd m f) g = bnd m (\<lambda>a. bnd (f a) g)"
  by (cases m) auto

lemma returns_Ok [simp]: "returns (Ok a)"
  by (simp add: returns_def)

lemma returns_Stop [simp]: "\<not> returns (Stop h)"
  by (simp add: returns_def)

lemma returns_iff: "returns m \<longleftrightarrow> (\<exists>a. m = Ok a)"
  by (cases m) auto

subsection \<open>Bytes of words\<close>

lemma length_le_bytes [simp]: "length (le_bytes n w) = n"
  by (induction n arbitrary: w) auto

lemma le_word_le_bytes: "le_word (le_bytes n w) = take_bit (8 * n) w"
proof (induction n arbitrary: w)
  case 0
  then show ?case by simp
next
  case (Suc n)
  show ?case
    by (rule bit_word_eqI)
      (auto simp: Suc.IH bit_simps)
qed

lemma le_word_le_bytes_8 [simp]: "le_word (le_bytes 8 w) = w"
  by (simp add: le_word_le_bytes take_bit_word_eq_self)

lemma le_word_le_bytes_4 [simp]: "le_word (le_bytes 4 (ucast (x :: u32))) = ucast x"
  by (rule bit_word_eqI) (auto simp: le_word_le_bytes bit_simps dest: bit_imp_le_length)

lemma ucast_u8_u16_u8 [simp]: "(ucast (ucast (c :: u8) :: u16) :: u8) = c"
  by (rule bit_word_eqI) (auto simp: bit_simps)

lemma ucast_u8_u16_0 [simp]: "(ucast (c :: u8) :: u16) = 0 \<longleftrightarrow> c = 0"
  by (metis ucast_u8_u16_u8 unsigned_0)

lemma ucast_u8_u32_u16 [simp]: "(ucast (ucast (c :: u8) :: u32) :: u16) = ucast c"
  by (rule bit_word_eqI) (auto simp: bit_simps dest: bit_imp_le_length)

lemma unat_u8_Suc:
  assumes "(l :: u8) \<noteq> 255"
  shows "unat (l + 1) = Suc (unat l)"
proof -
  have "1 + l \<noteq> 0"
  proof
    assume "1 + l = 0"
    then have "l = - 1" by (metis add.commute eq_neg_iff_add_eq_0)
    with assms show False by simp
  qed
  then show ?thesis by (simp add: unatSuc add.commute)
qed

lemma unat_u8_less: "unat (l :: u8) < 256"
proof -
  have "unat l < 2 ^ LENGTH(8)" by (rule unsigned_less)
  then show ?thesis by simp
qed

lemma unat_ucast_u8_u32: "unat (ucast (l :: u8) :: u32) = unat l"
  using unat_u8_less[of l] by (simp add: unsigned_ucast_eq take_bit_nat_eq_self)

lemma unat_sub_ucast_u32_u8:
  assumes "unat (n :: u32) \<le> unat (l :: u8)"
  shows "unat (l - ucast n) = unat l - unat n"
proof -
  have n: "unat (ucast n :: u8) = unat n"
    using assms unat_u8_less[of l]
    by (simp add: unsigned_ucast_eq take_bit_nat_eq_self)
  with assms show ?thesis by (simp add: unat_sub word_le_nat_alt)
qed

subsection \<open>Signed 64-bit values\<close>

lemma sint_word_of_int_id:
  "- (2 ^ 63) \<le> k \<Longrightarrow> k < 2 ^ 63 \<Longrightarrow> sint (word_of_int k :: u64) = k"
  by (simp add: sint_sbintrunc' signed_take_bit_int_eq_self)

lemma sint_bounds: "- (2 ^ 63) \<le> sint (a :: u64)" "sint (a :: u64) < 2 ^ 63"
  using sint_greater_eq[of a] sint_less[of a] by simp_all

lemma sint_s64_div_10: "sint (s64_div a 10) = sint a sdiv 10"
proof -
  have "\<bar>sint a sdiv 10\<bar> = \<bar>sint a\<bar> div 10"
    by (simp add: signed_divide_int_def abs_mult sgn_if)
  then have "- (2 ^ 63) \<le> sint a sdiv 10" "sint a sdiv 10 < 2 ^ 63"
    using sint_bounds[of a] by linarith+
  then have "sint (word_of_int (sint a sdiv 10) :: u64) = sint a sdiv 10"
    by (rule sint_word_of_int_id)
  then show ?thesis by (simp add: s64_div_def)
qed

lemma sint_s64_div_10_nonneg: "0 \<le> sint a \<Longrightarrow> sint (s64_div a 10) = sint a div 10"
  by (cases "sint a = 0") (auto simp: sint_s64_div_10 signed_divide_int_def)

lemma sint_s64_div_10_neg: "sint a < 0 \<Longrightarrow> sint (s64_div a 10) \<le> 0"
  by (simp add: sint_s64_div_10 signed_divide_int_def)

lemma s64_mod_10_nonneg: "0 \<le> sint a \<Longrightarrow> s64_mod a 10 = word_of_int (sint a mod 10)"
  by (cases "sint a = 0") (auto simp: s64_mod_def signed_modulo_int_def)

subsection \<open>Loads after stores\<close>

lemma store_bytes_apply:
  "store_bytes m p bs q = (if p \<le> q \<and> q < p + length bs then bs ! (q - p) else m q)"
proof (induction m p bs rule: store_bytes.induct)
  case (1 m p)
  then show ?case by auto
next
  case (2 m p b bs)
  then show ?case by (auto simp: nth_Cons' simp flip: fun_upd_def)
qed

lemma store_bytes_other [mem_simps]:
  "q < p \<or> p + length bs \<le> q \<Longrightarrow> store_bytes m p bs q = m q"
  by (auto simp: store_bytes_apply)

lemma length_load_bytes [simp]: "length (load_bytes m p n) = n"
  by (simp add: load_bytes_def)

lemma nth_load_bytes [simp]: "i < n \<Longrightarrow> load_bytes m p n ! i = m (p + i)"
  by (simp add: load_bytes_def)

lemma load_store_same [mem_simps]: "n = length bs \<Longrightarrow> load_bytes (store_bytes m p bs) p n = bs"
  by (rule nth_equalityI) (auto simp: store_bytes_apply)

lemma load_store_other [mem_simps]:
  "p + n \<le> q \<or> q + length bs \<le> p \<Longrightarrow> load_bytes (store_bytes m q bs) p n = load_bytes m p n"
  by (rule nth_equalityI) (auto simp: store_bytes_apply)

lemma load_bytes_eqI: "(\<And>i. i < n \<Longrightarrow> m (p + i) = m' (q + i)) \<Longrightarrow> load_bytes m p n = load_bytes m' q n"
  by (rule nth_equalityI) auto

lemma load_bytes_append: "load_bytes m p (a + b) = load_bytes m p a @ load_bytes m (p + a) b"
  by (rule nth_equalityI) (auto simp: nth_append)

end
