(* ===== verification/Console.thy ===== *)
theory Console
  imports Prelude
begin

text \<open>
  The console of the port (\<open>src/ub_util.c\<close>): single characters in and out over the firmware's
  text protocols, and the character and string helpers on top of them.  The firmware is not part
  of the repository; what the model records of it is the text handed to
  \<open>ConOut->OutputString\<close>, in order, and the sequence of key codes that \<open>ReadKeyStroke\<close> will
  deliver.  \<open>WaitForEvent\<close> blocks while there is no key.
\<close>

record console =
  keys :: "u16 list"
  con_out :: "u16 list"

text \<open>\<open>OutputString\<close> takes a NUL-terminated string.\<close>

definition OutputString :: "u16 list \<Rightarrow> 'a console_scheme \<Rightarrow> 'a console_scheme" where
  "OutputString w s = s\<lparr>con_out := con_out s @ takeWhile (\<lambda>c. c \<noteq> 0) w\<rparr>"

definition ub_backspace :: "'a console_scheme \<Rightarrow> 'a console_scheme" where
  "ub_backspace s = OutputString [8, 32, 8, 0] s"

definition ub_inchar :: "'a console_scheme \<Rightarrow> (u32 \<times> 'a console_scheme) res" where
  "ub_inchar s = (case keys s of
      [] \<Rightarrow> Stop Blocked
    | k # ks \<Rightarrow> Ok (ucast k, s\<lparr>keys := ks\<rparr>))"

definition ub_putchar :: "u32 \<Rightarrow> 'a console_scheme \<Rightarrow> 'a console_scheme" where
  "ub_putchar character s = OutputString [ucast character, 0] s"

definition ub_outchar :: "u8 \<Rightarrow> 'a console_scheme \<Rightarrow> 'a console_scheme" where
  "ub_outchar c s =
     (let s = (if c = 10 then ub_putchar 13 s else s)
      in ub_putchar (ucast c) s)"

definition ub_breakcheck :: u8 where
  "ub_breakcheck = 0"

text \<open>String output: the argument is the text before the terminating NUL.\<close>

fun ub_puts :: "u8 list \<Rightarrow> 'a console_scheme \<Rightarrow> 'a console_scheme" where
  "ub_puts [] s = s"
| "ub_puts (c # cs) s = ub_puts cs (ub_outchar c s)"

fun ub_putsW :: "u16 list \<Rightarrow> 'a console_scheme \<Rightarrow> 'a console_scheme" where
  "ub_putsW [] s = s"
| "ub_putsW (c # cs) s = ub_putsW cs (ub_outchar (ucast c) s)"

text \<open>
  \<open>cmd_Files\<close> lists the root directory.  The firmware's answers are its argument: the statuses of
  \<open>LocateProtocol\<close>, \<open>OpenVolume\<close> and \<open>Close\<close>, and the file names that \<open>Read\<close> delivers before it
  returns a size of 0 at the end of the directory.  After a failed \<open>LocateProtocol\<close> the code goes
  on with an interface pointer that was never set.
\<close>

record efi_files =
  locate_status :: u64
  open_status :: u64
  dir_entries :: "u16 list list"
  close_status :: u64

fun files_loop :: "u16 list list \<Rightarrow> 'a console_scheme \<Rightarrow> 'a console_scheme" where
  "files_loop [] s = ub_puts [13, 10] (ub_puts (str ''status: root->Read: '') s)"
| "files_loop (FileName # rest) s =
     (let s = ub_puts [13, 10] (ub_puts (str ''status: root->Read: '') s);
          s = ub_puts [13, 10] (ub_puts (str ''after buf_size: '') s);
          s = ub_puts (str ''FileName: '') s;
          s = ub_putsW FileName s;
          s = ub_puts [13, 10] s
      in files_loop rest s)"

definition cmd_Files :: "efi_files \<Rightarrow> 'a console_scheme \<Rightarrow> 'a console_scheme res" where
  "cmd_Files fw s =
     (if locate_status fw \<noteq> 0
      then Stop Fault
      else let s = ub_puts (str ''OK: SystemTable->BootServices->LocateProtocol'' @ [13, 10]) s
        in if open_status fw \<noteq> 0
           then Ok (ub_puts (str ''error: sfsp->OpenVolume'' @ [13, 10]) s)
           else let s = ub_puts [13, 10] (ub_puts (str ''before buf_size: '') s);
                    s = ub_puts [13, 10] (ub_puts (str ''sizeof EFI_FILE_INFO: '') s);
                    s = files_loop (dir_entries fw) s
             in Ok (if close_status fw \<noteq> 0 then ub_puts (str ''root->Close'' @ [13, 10]) s else s))"

text \<open>\<open>ub_c2u\<close> widens a NUL-terminated string; it returns the characters stored and the count.\<close>

fun ub_c2u :: "u8 list \<Rightarrow> nat \<Rightarrow> u16 list \<times> nat" where
  "ub_c2u s 0 = ([], 0)"
| "ub_c2u [] (Suc n) = ([0], 0)"
| "ub_c2u (c # cs) (Suc n) =
     (if c = 0 then ([0], 0)
      else let (ws, count) = ub_c2u cs n in (scast c # ws, Suc count))"

subsection \<open>What one character shows on the console\<close>

definition shown :: "u8 \<Rightarrow> u16 list" where
  "shown c = (if c = 0 then [] else if c = 10 then [13, 10] else [ucast c])"

lemma ub_outchar_shown: "ub_outchar c s = s\<lparr>con_out := con_out s @ shown c\<rparr>"
  by (simp add: ub_outchar_def ub_putchar_def OutputString_def shown_def Let_def)

end
