(* ===== verification/Basic_State.thy ===== *)
theory Basic_State
  imports Console
begin

text \<open>
  The state of the TinyBASIC interpreter (\<open>src/basic.c\<close>): its static variables, the 64 KiB
  array \<open>program\<close> that holds the program text, the line buffer, the variables and the stack,
  and the keyword tables.

  A pointer into \<open>program\<close> is its offset; \<open>current_line\<close> may also be NULL (\<open>None\<close>).  Frames
  of the BASIC stack live inside \<open>program\<close>, so the pointers they hold are stored as bytes:
  \<open>program_base\<close> is the address the loader gave the array, and a pointer read back from a frame
  that has been overwritten is an arbitrary offset.  Every access outside \<open>program\<close> is a
  \<open>Fault\<close>.  The console is the parent record.
\<close>

definition kRamSize :: nat where "kRamSize = 64 * 1024"

definition sizeof_LINENUM :: nat where "sizeof_LINENUM = 4"

definition VAR_SIZE :: nat where "VAR_SIZE = 8"

definition sizeof_for_frame :: nat where "sizeof_for_frame = 32"

definition sizeof_gosub_frame :: nat where "sizeof_gosub_frame = 24"

definition STACK_SIZE :: nat where "STACK_SIZE = sizeof_for_frame * 64"

definition MAX_UINT :: u64 where "MAX_UINT = 0xFFFFFFFFFFFFFFFF"

definition LINENUM_END :: u32 where "LINENUM_END = 0xFFFFFFFF"

lemmas basic_consts = kRamSize_def sizeof_LINENUM_def VAR_SIZE_def sizeof_for_frame_def
  sizeof_gosub_frame_def STACK_SIZE_def MAX_UINT_def LINENUM_END_def

abbreviation CR_char :: u8 where "CR_char \<equiv> 13"
abbreviation NL :: u8 where "NL \<equiv> 10"
abbreviation TAB :: u8 where "TAB \<equiv> 9"
abbreviation BELL :: u8 where "BELL \<equiv> 8"
abbreviation SPACE :: u8 where "SPACE \<equiv> 32"
abbreviation SQUOTE :: u8 where "SQUOTE \<equiv> 39"
abbreviation DQUOTE :: u8 where "DQUOTE \<equiv> 34"
abbreviation CTRLH :: u8 where "CTRLH \<equiv> 8"

abbreviation STACK_GOSUB_FLAG :: u8 where "STACK_GOSUB_FLAG \<equiv> ch (CHR ''G'')"
abbreviation STACK_FOR_FLAG :: u8 where "STACK_FOR_FLAG \<equiv> ch (CHR ''F'')"

record basic = console +
  program :: mem
  program_base :: u64
  txtpos :: nat
  list_line :: nat
  tmptxtpos :: nat
  expression_error :: bool
  tempsp :: nat
  stack_limit :: nat
  program_start :: nat
  program_end :: nat
  variables_begin :: nat
  current_line :: "nat option"
  sp :: nat
  table_index :: nat
  linenum :: u32
  runAfterLoad :: bool
  triggerRun :: bool

subsection \<open>Keyword tables\<close>

definition keywords_tab :: "u8 list list" where
  "keywords_tab = map str [''LIST'', ''LOAD'', ''NEW'', ''RUN'', ''SAVE'', ''NEXT'', ''LET'', ''IF'',
     ''GOTO'', ''GOSUB'', ''RETURN'', ''REM'', ''FOR'', ''INPUT'', ''PRINT'', ''POKE'', ''STOP'',
     ''BYE'', ''FILES'', ''MEM'', ''?'', [CHR 0x22], ''DELAY'', ''END'', ''RSEED'', ''CHAIN'',
     ''USER'']"

datatype keyword = KW_LIST | KW_LOAD | KW_NEW | KW_RUN | KW_SAVE | KW_NEXT | KW_LET | KW_IF
  | KW_GOTO | KW_GOSUB | KW_RETURN | KW_REM | KW_FOR | KW_INPUT | KW_PRINT | KW_POKE | KW_STOP
  | KW_BYE | KW_FILES | KW_MEM | KW_QMARK | KW_QUOTE | KW_DELAY | KW_END | KW_RSEED | KW_CHAIN
  | KW_USER | KW_DEFAULT

definition kw_enum :: "keyword list" where
  "kw_enum = [KW_LIST, KW_LOAD, KW_NEW, KW_RUN, KW_SAVE, KW_NEXT, KW_LET, KW_IF, KW_GOTO, KW_GOSUB,
     KW_RETURN, KW_REM, KW_FOR, KW_INPUT, KW_PRINT, KW_POKE, KW_STOP, KW_BYE, KW_FILES, KW_MEM,
     KW_QMARK, KW_QUOTE, KW_DELAY, KW_END, KW_RSEED, KW_CHAIN, KW_USER, KW_DEFAULT]"

definition func_tab :: "u8 list list" where
  "func_tab = map str [''PEEK'', ''ABS'', ''AREAD'', ''DREAD'', ''RND'', ''PUTC'', ''GETC'']"

definition FUNC_PEEK :: nat where "FUNC_PEEK = 0"
definition FUNC_ABS :: nat where "FUNC_ABS = 1"
definition FUNC_AREAD :: nat where "FUNC_AREAD = 2"
definition FUNC_DREAD :: nat where "FUNC_DREAD = 3"
definition FUNC_RND :: nat where "FUNC_RND = 4"
definition FUNC_PUTC :: nat where "FUNC_PUTC = 5"
definition FUNC_GETC :: nat where "FUNC_GETC = 6"
definition FUNC_UNKNOWN :: nat where "FUNC_UNKNOWN = 7"

lemmas func_consts = FUNC_PEEK_def FUNC_ABS_def FUNC_AREAD_def FUNC_DREAD_def FUNC_RND_def
  FUNC_PUTC_def FUNC_GETC_def FUNC_UNKNOWN_def

definition to_tab :: "u8 list list" where "to_tab = [str ''TO'']"

definition step_tab :: "u8 list list" where "step_tab = [str ''STEP'']"

definition relop_tab :: "u8 list list" where
  "relop_tab = map str [''>='', ''<>'', ''>'', ''='', ''<='', ''<'', ''!='']"

definition RELOP_GE :: nat where "RELOP_GE = 0"
definition RELOP_NE :: nat where "RELOP_NE = 1"
definition RELOP_GT :: nat where "RELOP_GT = 2"
definition RELOP_EQ :: nat where "RELOP_EQ = 3"
definition RELOP_LE :: nat where "RELOP_LE = 4"
definition RELOP_LT :: nat where "RELOP_LT = 5"
definition RELOP_NE_BANG :: nat where "RELOP_NE_BANG = 6"
definition RELOP_UNKNOWN :: nat where "RELOP_UNKNOWN = 7"

lemmas relop_consts = RELOP_GE_def RELOP_NE_def RELOP_GT_def RELOP_EQ_def RELOP_LE_def
  RELOP_LT_def RELOP_NE_BANG_def RELOP_UNKNOWN_def

subsection \<open>Access to the program array\<close>

definition rd :: "nat \<Rightarrow> basic \<Rightarrow> u8 res" where
  "rd p s = (if p < kRamSize then Ok (program s p) else Stop Fault)"

definition wr :: "nat \<Rightarrow> u8 \<Rightarrow> basic \<Rightarrow> basic res" where
  "wr p b s = (if p < kRamSize then Ok (s\<lparr>program := (program s)(p := b)\<rparr>) else Stop Fault)"

text \<open>Reads and writes through a casted pointer: \<open>n\<close> bytes, little-endian.\<close>

definition ld :: "nat \<Rightarrow> nat \<Rightarrow> basic \<Rightarrow> u64 res" where
  "ld n p s = (if p + n \<le> kRamSize then Ok (le_word (load_bytes (program s) p n)) else Stop Fault)"

definition st :: "nat \<Rightarrow> nat \<Rightarrow> u64 \<Rightarrow> basic \<Rightarrow> basic res" where
  "st n p w s = (if p + n \<le> kRamSize
     then Ok (s\<lparr>program := store_bytes (program s) p (le_bytes n w)\<rparr>) else Stop Fault)"

definition ld_LINENUM :: "nat \<Rightarrow> basic \<Rightarrow> u32 res" where
  "ld_LINENUM p s = bnd (ld sizeof_LINENUM p s) (\<lambda>w. Ok (ucast w))"

definition st_LINENUM :: "nat \<Rightarrow> u32 \<Rightarrow> basic \<Rightarrow> basic res" where
  "st_LINENUM p n s = st sizeof_LINENUM p (ucast n) s"

text \<open>The address of \<open>((S_INT *)variables_begin)[c - 'A']\<close>; a character below the letters is in front of
  the variables.\<close>

definition var_addr :: "u8 \<Rightarrow> basic \<Rightarrow> nat" where
  "var_addr c s = variables_begin s + VAR_SIZE * unat c - VAR_SIZE * 65"

definition ld_var :: "u8 \<Rightarrow> basic \<Rightarrow> u64 res" where
  "ld_var c s = ld VAR_SIZE (var_addr c s) s"

definition st_var :: "u8 \<Rightarrow> u64 \<Rightarrow> basic \<Rightarrow> basic res" where
  "st_var c v s = st VAR_SIZE (var_addr c s) v s"

text \<open>Pointers as they are stored in a frame.\<close>

definition enc_ptr :: "nat option \<Rightarrow> basic \<Rightarrow> u64" where
  "enc_ptr p s = (case p of None \<Rightarrow> 0 | Some q \<Rightarrow> program_base s + of_nat q)"

definition dec_off :: "u64 \<Rightarrow> basic \<Rightarrow> nat" where
  "dec_off w s = unat (w - program_base s)"

definition dec_ptr :: "u64 \<Rightarrow> basic \<Rightarrow> nat option" where
  "dec_ptr w s = (if w = 0 then None else Some (dec_off w s))"

definition is_letter :: "u8 \<Rightarrow> bool" where
  "is_letter c \<longleftrightarrow> \<not> (c < ch (CHR ''A'') \<or> ch (CHR ''Z'') < c)"

lemma var_addr_letter:
  assumes "is_letter c"
  shows "var_addr c s = variables_begin s + VAR_SIZE * (unat c - 65)" "variables_begin s \<le> var_addr c s"
proof -
  have "65 \<le> unat c" using assms by (auto simp: is_letter_def word_less_nat_alt not_less)
  then show "var_addr c s = variables_begin s + VAR_SIZE * (unat c - 65)" "variables_begin s \<le> var_addr c s"
    by (simp_all add: var_addr_def VAR_SIZE_def)
qed

end
