(* ===== verification/Basic_Lex.thy ===== *)
theory Basic_Lex
  imports Basic_State "HOL-Library.Sublist"
begin

text \<open>
  The scanner of \<open>src/basic.c\<close>: skipping blanks, matching the text at \<open>txtpos\<close> against a
  keyword table, and reading an unsigned decimal number.  The lemmas give the scanner's contract
  on the bytes in front of \<open>txtpos\<close>: which table entry is chosen, where the scan stops, and the
  value of a number, including the saturation on overflow.
\<close>

function ignore_blanks :: "basic \<Rightarrow> basic res" where
  "ignore_blanks s = bnd (rd (txtpos s) s) (\<lambda>c.
     if c = SPACE \<or> c = TAB then ignore_blanks (s\<lparr>txtpos := Suc (txtpos s)\<rparr>) else Ok s)"
  by pat_completeness auto
termination
  by (relation "measure (\<lambda>s. kRamSize - txtpos s)") (auto simp: rd_def split: if_splits)

fun str_chk :: "nat \<Rightarrow> u8 list \<Rightarrow> basic \<Rightarrow> nat res" where
  "str_chk p [] s = Ok 0"
| "str_chk p (t # ts) s = bnd (rd p s) (\<lambda>c. if c \<noteq> t then Ok 1 else str_chk (Suc p) ts s)"

fun str_len :: "u8 list \<Rightarrow> nat" where
  "str_len [] = 0"
| "str_len (t # ts) = Suc (str_len ts)"

fun scantable_loop :: "u8 list list \<Rightarrow> basic \<Rightarrow> basic res" where
  "scantable_loop [] s = Ok s"
| "scantable_loop (k # ks) s = bnd (str_chk (txtpos s) k s) (\<lambda>r.
     if r = 0 then ignore_blanks (s\<lparr>txtpos := txtpos s + str_len k\<rparr>)
     else scantable_loop ks (s\<lparr>table_index := Suc (table_index s)\<rparr>))"

definition scantable :: "u8 list list \<Rightarrow> basic \<Rightarrow> basic res" where
  "scantable table s = scantable_loop table (s\<lparr>table_index := 0\<rparr>)"

definition is_digit_ch :: "u8 \<Rightarrow> bool" where
  "is_digit_ch c \<longleftrightarrow> ch (CHR ''0'') \<le> c \<and> c \<le> ch (CHR ''9'')"

function testnum_loop :: "u64 \<Rightarrow> basic \<Rightarrow> (u64 \<times> basic) res" where
  "testnum_loop num s = bnd (rd (txtpos s) s) (\<lambda>c.
     if is_digit_ch c then
       (if MAX_UINT div 10 \<le> num then Ok (MAX_UINT, s)
        else testnum_loop (num * 10 + ucast c - 48) (s\<lparr>txtpos := Suc (txtpos s)\<rparr>))
     else Ok (num, s))"
  by pat_completeness auto
termination
  by (relation "measure (\<lambda>(n, s). kRamSize - txtpos s)") (auto simp: rd_def split: if_splits)

definition testnum :: "basic \<Rightarrow> (u64 \<times> basic) res" where
  "testnum s = bnd (ignore_blanks s) (\<lambda>s. testnum_loop 0 s)"

declare ignore_blanks.simps [simp del] testnum_loop.simps [simp del]

subsection \<open>Text in front of a position\<close>

text \<open>\<open>at s p xs\<close>: the bytes \<open>xs\<close> are in \<open>program\<close> from offset \<open>p\<close> on.\<close>

fun at :: "basic \<Rightarrow> nat \<Rightarrow> u8 list \<Rightarrow> bool" where
  "at s p [] \<longleftrightarrow> True"
| "at s p (x # xs) \<longleftrightarrow> p < kRamSize \<and> program s p = x \<and> at s (Suc p) xs"

definition blank :: "u8 \<Rightarrow> bool" where
  "blank c \<longleftrightarrow> c = SPACE \<or> c = TAB"

lemma at_append: "at s p (xs @ ys) \<longleftrightarrow> at s p xs \<and> at s (p + length xs) ys"
  by (induction xs arbitrary: p) auto

lemma at_program_cong:
  "program s' = program s \<Longrightarrow> at s' p xs = at s p xs"
  by (induction xs arbitrary: p) auto

lemma at_upd [simp]:
  "at (s\<lparr>txtpos := a\<rparr>) p xs = at s p xs"
  "at (s\<lparr>table_index := b\<rparr>) p xs = at s p xs"
  "at (s\<lparr>expression_error := e\<rparr>) p xs = at s p xs"
  by (rule at_program_cong, simp)+

lemma at_nth: "at s p xs \<Longrightarrow> i < length xs \<Longrightarrow> program s (p + i) = xs ! i \<and> p + i < kRamSize"
  by (induction xs arbitrary: p i) (force simp: nth_Cons split: nat.splits)+

lemma at_iff: "at s p xs \<longleftrightarrow> (\<forall>i < length xs. program s (p + i) = xs ! i \<and> p + i < kRamSize)"
  by (induction xs arbitrary: p) (auto simp: All_less_Suc2)

subsection \<open>Skipping blanks\<close>

lemma ignore_blanks_at:
  assumes "at s (txtpos s) (bs @ [c])" and "list_all blank bs" and "\<not> blank c"
  shows "ignore_blanks s = Ok (s\<lparr>txtpos := txtpos s + length bs\<rparr>)"
  using assms
proof (induction bs arbitrary: s)
  case Nil
  then show ?case
    by (subst ignore_blanks.simps) (auto simp: rd_def blank_def)
next
  case (Cons b bs)
  have "ignore_blanks s = ignore_blanks (s\<lparr>txtpos := Suc (txtpos s)\<rparr>)"
    using Cons.prems by (subst ignore_blanks.simps) (auto simp: rd_def blank_def)
  also have "\<dots> = Ok (s\<lparr>txtpos := Suc (txtpos s)\<rparr>\<lparr>txtpos := Suc (txtpos s) + length bs\<rparr>)"
    using Cons.IH[of "s\<lparr>txtpos := Suc (txtpos s)\<rparr>"] Cons.prems by simp
  finally show ?case by simp
qed

lemma ignore_blanks_frame:
  "ignore_blanks s = Ok s' \<Longrightarrow> \<exists>n. s' = s\<lparr>txtpos := txtpos s + n\<rparr>"
proof (induction s rule: ignore_blanks.induct)
  case (1 s)
  show ?case
  proof (cases "txtpos s < kRamSize \<and> blank (program s (txtpos s))")
    case True
    then have "ignore_blanks (s\<lparr>txtpos := Suc (txtpos s)\<rparr>) = Ok s'"
      using "1.prems" by (subst (asm) ignore_blanks.simps) (auto simp: rd_def blank_def)
    with True "1.IH" obtain n where "s' = s\<lparr>txtpos := Suc (txtpos s) + n\<rparr>"
      by (auto simp: rd_def blank_def)
    then show ?thesis by (intro exI[of _ "Suc n"]) simp
  next
    case False
    then have "s' = s"
      using "1.prems"
      by (subst (asm) ignore_blanks.simps) (auto simp: rd_def blank_def split: if_splits)
    then show ?thesis by (intro exI[of _ 0]) simp
  qed
qed

lemma ignore_blanks_halts: "ignore_blanks s = Stop h \<Longrightarrow> h = Fault"
proof (induction s rule: ignore_blanks.induct)
  case (1 s)
  then show ?case
    by (subst (asm) (2) ignore_blanks.simps) (auto simp: rd_def split: if_splits)
qed

lemma takeWhile_blank_text:
  assumes "at s p (xs @ [NL])"
  shows "at s p (takeWhile blank xs @ [hd (dropWhile blank xs @ [NL])])"
    and "\<not> blank (hd (dropWhile blank xs @ [NL]))"
proof -
  have "xs @ [NL] = takeWhile blank xs @ (dropWhile blank xs @ [NL])" by simp
  also have "\<dots> = takeWhile blank xs @ [hd (dropWhile blank xs @ [NL])] @ tl (dropWhile blank xs @ [NL])"
    by (cases "dropWhile blank xs") auto
  finally show "at s p (takeWhile blank xs @ [hd (dropWhile blank xs @ [NL])])"
    using assms by (metis append.assoc at_append)
  show "\<not> blank (hd (dropWhile blank xs @ [NL]))"
  proof (cases "dropWhile blank xs = []")
    case True
    show ?thesis by (simp only: True) (simp add: blank_def)
  next
    case False
    then show ?thesis by (metis hd_append2 hd_dropWhile)
  qed
qed

lemma ignore_blanks_line:
  assumes "at s (txtpos s) (xs @ [NL])"
  shows "ignore_blanks s = Ok (s\<lparr>txtpos := txtpos s + length (takeWhile blank xs)\<rparr>)"
proof (rule ignore_blanks_at[OF takeWhile_blank_text(1)[OF assms] _ takeWhile_blank_text(2)[OF assms]])
  show "list_all blank (takeWhile blank xs)"
    by (auto simp: list_all_iff dest: set_takeWhileD)
qed

subsection \<open>Table search\<close>

fun first_match :: "u8 list list \<Rightarrow> u8 list \<Rightarrow> nat" where
  "first_match [] xs = 0"
| "first_match (k # ks) xs = (if prefix k xs then 0 else Suc (first_match ks xs))"

lemma str_len_length [simp]: "str_len k = length k"
  by (induction k) auto

lemma str_chk_prefix:
  "at s p (xs @ [NL]) \<Longrightarrow> NL \<notin> set k \<Longrightarrow> str_chk p k s = Ok (if prefix k xs then 0 else 1)"
proof (induction k arbitrary: p xs)
  case Nil
  then show ?case by simp
next
  case (Cons t k)
  then show ?case by (cases xs) (auto simp: rd_def)
qed

lemma first_match_le: "first_match tbl xs \<le> length tbl"
  by (induction tbl) auto

lemma first_match_prefix:
  "first_match tbl xs < length tbl \<Longrightarrow> prefix (tbl ! first_match tbl xs) xs"
  by (induction tbl) (auto split: if_splits)

lemma first_match_least: "j < first_match tbl xs \<Longrightarrow> \<not> prefix (tbl ! j) xs"
  by (induction tbl arbitrary: j) (auto simp: nth_Cons split: if_splits nat.splits)

lemma scantable_loop_spec:
  assumes "at s (txtpos s) (xs @ [NL])" and "\<forall>k \<in> set tbl. NL \<notin> set k"
  shows "scantable_loop tbl s =
    (let i = first_match tbl xs
     in if i < length tbl
        then ignore_blanks (s\<lparr>table_index := table_index s + i, txtpos := txtpos s + length (tbl ! i)\<rparr>)
        else Ok (s\<lparr>table_index := table_index s + i\<rparr>))"
  using assms
proof (induction tbl arbitrary: s)
  case Nil
  then show ?case by simp
next
  case (Cons k tbl)
  show ?case
  proof (cases "prefix k xs")
    case True
    with Cons.prems show ?thesis by (simp add: str_chk_prefix)
  next
    case False
    with Cons.prems have "scantable_loop (k # tbl) s =
        scantable_loop tbl (s\<lparr>table_index := Suc (table_index s)\<rparr>)"
      by (simp add: str_chk_prefix)
    also note Cons.IH[of "s\<lparr>table_index := Suc (table_index s)\<rparr>"]
    finally show ?thesis using Cons.prems False by (simp add: Let_def)
  qed
qed

lemma scantable_line:
  assumes "at s (txtpos s) (xs @ [NL])" and "\<forall>k \<in> set tbl. NL \<notin> set k"
  shows "scantable tbl s =
    (let i = first_match tbl xs
     in if i < length tbl
        then Ok (s\<lparr>table_index := i, txtpos := txtpos s + length (tbl ! i)
                     + length (takeWhile blank (drop (length (tbl ! i)) xs))\<rparr>)
        else Ok (s\<lparr>table_index := i\<rparr>))"
proof -
  define i where "i = first_match tbl xs"
  have "ignore_blanks (s\<lparr>table_index := i, txtpos := txtpos s + length (tbl ! i)\<rparr>) =
      Ok (s\<lparr>table_index := i, txtpos := txtpos s + length (tbl ! i)
                     + length (takeWhile blank (drop (length (tbl ! i)) xs))\<rparr>)"
    if "i < length tbl"
  proof -
    from that have "prefix (tbl ! i) xs" unfolding i_def by (rule first_match_prefix)
    then obtain ys where xs: "xs = tbl ! i @ ys" by (auto elim: prefixE)
    with assms(1) have "at s (txtpos s + length (tbl ! i)) (ys @ [NL])"
      by (simp add: at_append)
    then show ?thesis
      by (subst ignore_blanks_line[where xs = ys]) (auto simp: xs)
  qed
  then show ?thesis
    using assms by (simp add: scantable_def scantable_loop_spec Let_def flip: i_def)
qed

lemma first_match_mono_longest:
  assumes "\<forall>i j. i < j \<longrightarrow> j < length tbl \<longrightarrow> \<not> prefix (tbl ! i) (tbl ! j)"
    and "first_match tbl xs < length tbl" and "j < length tbl" and "prefix (tbl ! j) xs"
  shows "length (tbl ! j) \<le> length (tbl ! first_match tbl xs)"
proof (rule ccontr)
  let ?i = "first_match tbl xs"
  assume shorter: "\<not> ?thesis"
  then have "prefix (tbl ! ?i) (tbl ! j)"
    using first_match_prefix[OF assms(2)] assms(4) by (metis prefix_length_prefix nat_le_linear)
  moreover have "?i < j"
    using first_match_least[of j tbl xs] assms(4) shorter by (metis nat_neq_iff order_refl)
  ultimately show False using assms(1,3) by blast
qed

subsection \<open>Reading a number\<close>

definition digit_val :: "u8 \<Rightarrow> nat" where
  "digit_val c = unat c - 48"

fun dec_val :: "nat \<Rightarrow> u8 list \<Rightarrow> nat" where
  "dec_val n [] = n"
| "dec_val n (c # cs) = dec_val (10 * n + digit_val c) cs"

lemma is_digit_ch_unat: "is_digit_ch c \<longleftrightarrow> 48 \<le> unat c \<and> unat c \<le> 57"
  by (simp add: is_digit_ch_def word_le_nat_alt)

lemma dec_val_ge: "n \<le> dec_val n cs"
proof (induction cs arbitrary: n)
  case Nil
  then show ?case by simp
next
  case (Cons c cs)
  have "10 * n + digit_val c \<le> dec_val n (c # cs)" using Cons[of "10 * n + digit_val c"] by simp
  then show ?case by linarith
qed

lemma unat_digit_step:
  assumes "unat num < 2 ^ 64 div 10" and "is_digit_ch c"
  shows "unat (num * 10 + ucast c - 48 :: u64) = 10 * unat num + digit_val c"
proof -
  have c: "48 \<le> unat c" "unat c \<le> 57" using assms(2) by (simp_all add: is_digit_ch_unat)
  have "num * 10 + ucast c - 48 = of_nat (10 * unat num + digit_val c)"
    using c by (simp add: digit_val_def of_nat_diff algebra_simps)
  moreover have "10 * unat num + digit_val c < 2 ^ 64"
    using assms(1) c by (simp add: digit_val_def)
  ultimately show ?thesis
    by (simp only: unat_of_nat) (simp add: take_bit_nat_eq_self)
qed

lemma unat_MAX_UINT_div_10: "unat (MAX_UINT div 10) = 2 ^ 64 div 10"
  by (simp add: MAX_UINT_def unat_div)

lemma testnum_loop_exact:
  assumes "at s (txtpos s) (ds @ [c])" and "list_all is_digit_ch ds" and "\<not> is_digit_ch c"
    and "dec_val (unat num) ds < 2 ^ 64 div 10"
  shows "testnum_loop num s = Ok (of_nat (dec_val (unat num) ds), s\<lparr>txtpos := txtpos s + length ds\<rparr>)"
  using assms
proof (induction ds arbitrary: num s)
  case Nil
  then show ?case by (subst testnum_loop.simps) (auto simp: rd_def)
next
  case (Cons d ds)
  let ?num = "num * 10 + ucast d - 48 :: u64"
  let ?s = "s\<lparr>txtpos := Suc (txtpos s)\<rparr>"
  have "unat num \<le> dec_val (unat num) (d # ds)" by (rule dec_val_ge)
  then have lt: "unat num < 2 ^ 64 div 10" using Cons.prems(4) by linarith
  then have "\<not> MAX_UINT div 10 \<le> num"
    by (simp add: word_le_nat_alt unat_MAX_UINT_div_10)
  then have "testnum_loop num s = testnum_loop ?num ?s"
    using Cons.prems by (subst testnum_loop.simps) (auto simp: rd_def)
  moreover have u: "unat ?num = 10 * unat num + digit_val d"
    using lt Cons.prems(2) by (intro unat_digit_step) auto
  moreover have "testnum_loop ?num ?s =
      Ok (of_nat (dec_val (unat ?num) ds), ?s\<lparr>txtpos := txtpos ?s + length ds\<rparr>)"
    using Cons.prems u by (intro Cons.IH) auto
  ultimately show ?case by simp
qed

end
