(* ===== verification/Basic_Print.thy ===== *)
theory Basic_Print
  imports Basic_Lex
begin

text \<open>
  Output routines of \<open>src/basic.c\<close>: numbers are converted on the BASIC stack (\<open>pushb\<close> and
  \<open>popb\<close> work below \<open>sp\<close> inside \<open>program\<close>), messages, quoted strings and program lines go to
  the console character by character.  The main result is that \<open>printnum\<close> prints the decimal
  representation of its argument, leaves \<open>sp\<close> where it was and touches only the bytes just
  below it.
\<close>

definition pushb :: "u8 \<Rightarrow> basic \<Rightarrow> basic res" where
  "pushb b s = (if sp s = 0 then Stop Fault
     else (let s = s\<lparr>sp := sp s - 1\<rparr> in wr (sp s) b s))"

definition popb :: "basic \<Rightarrow> (u8 \<times> basic) res" where
  "popb s = bnd (rd (sp s) s) (\<lambda>b. Ok (b, s\<lparr>sp := Suc (sp s)\<rparr>))"

definition line_terminator :: "basic \<Rightarrow> basic" where
  "line_terminator s = ub_outchar CR_char (ub_outchar NL s)"

text \<open>The digit loops of \<open>printnum\<close> (signed) and \<open>printUnum\<close> (unsigned), and the loop that
  pops the digits again.\<close>

function printnum_push :: "u64 \<Rightarrow> nat \<Rightarrow> basic \<Rightarrow> (nat \<times> basic) res" where
  "printnum_push num digits s =
     bnd (pushb (ucast (s64_mod num 10 + 48)) s) (\<lambda>s.
       let num = s64_div num 10; digits = Suc digits
       in if 0 <s num then printnum_push num digits s else Ok (digits, s))"
  by pat_completeness auto
termination
proof (relation "measure (\<lambda>(num, d, s). nat (sint num))", goal_cases)
  case 1
  show ?case by simp
next
  case (2 num digits s a num' digits')
  have pos: "0 < sint (s64_div num 10)" using 2 by (simp add: word_sless_alt)
  then have "0 \<le> sint num" using sint_s64_div_10_neg[of num] by linarith
  moreover from this pos have "0 < sint num div 10" by (simp add: sint_s64_div_10_nonneg)
  then have "0 < sint num" "sint num div 10 < sint num" by linarith+
  ultimately show ?case using 2 by (simp add: sint_s64_div_10_nonneg)
qed

fun print_pop :: "nat \<Rightarrow> basic \<Rightarrow> basic res" where
  "print_pop 0 s = Ok s"
| "print_pop (Suc digits) s = bnd (popb s) (\<lambda>(b, s). print_pop digits (ub_outchar b s))"

definition printnum :: "u64 \<Rightarrow> basic \<Rightarrow> basic res" where
  "printnum num s =
     (let (num, s) = (if num <s 0 then (- num, ub_outchar (ch (CHR ''-'')) s) else (num, s))
      in bnd (printnum_push num 0 s) (\<lambda>(digits, s). print_pop digits s))"

function printUnum_push :: "u32 \<Rightarrow> nat \<Rightarrow> basic \<Rightarrow> (nat \<times> basic) res" where
  "printUnum_push num digits s =
     bnd (pushb (ucast (num mod 10 + 48)) s) (\<lambda>s.
       let num = num div 10; digits = Suc digits
       in if 0 < num then printUnum_push num digits s else Ok (digits, s))"
  by pat_completeness auto
termination
  by (relation "measure (\<lambda>(num, d, s). unat num)")
    (auto simp: unat_div word_less_nat_alt)

definition printUnum :: "u32 \<Rightarrow> basic \<Rightarrow> basic res" where
  "printUnum num s = bnd (printUnum_push num 0 s) (\<lambda>(digits, s). print_pop digits s)"

text \<open>A quoted string: first the closing delimiter is looked for, then the text is printed.\<close>

function pqs_closed :: "u8 \<Rightarrow> nat \<Rightarrow> basic \<Rightarrow> bool res" where
  "pqs_closed delim p s = bnd (rd p s) (\<lambda>c.
     if c = delim then Ok True else if c = NL then Ok False else pqs_closed delim (Suc p) s)"
  by pat_completeness auto
termination
  by (relation "measure (\<lambda>(d, p, s). kRamSize - p)") (auto simp: rd_def split: if_splits)

function pqs_print :: "u8 \<Rightarrow> basic \<Rightarrow> basic res" where
  "pqs_print delim s = bnd (rd (txtpos s) s) (\<lambda>c.
     if c = delim then Ok s
     else pqs_print delim ((ub_outchar c s)\<lparr>txtpos := Suc (txtpos s)\<rparr>))"
  by pat_completeness auto
termination
  by (relation "measure (\<lambda>(d, s). kRamSize - txtpos s)") (auto simp: rd_def split: if_splits)

definition print_quoted_string :: "basic \<Rightarrow> (bool \<times> basic) res" where
  "print_quoted_string s = bnd (rd (txtpos s) s) (\<lambda>delim.
     if delim \<noteq> DQUOTE \<and> delim \<noteq> SQUOTE then Ok (False, s)
     else let s = s\<lparr>txtpos := Suc (txtpos s)\<rparr>
       in bnd (pqs_closed delim (txtpos s) s) (\<lambda>closed.
            if \<not> closed then Ok (False, s)
            else bnd (pqs_print delim s) (\<lambda>s. Ok (True, s\<lparr>txtpos := Suc (txtpos s)\<rparr>))))"

fun printmsgNoNL :: "u8 list \<Rightarrow> basic \<Rightarrow> basic" where
  "printmsgNoNL [] s = s"
| "printmsgNoNL (c # cs) s = printmsgNoNL cs (ub_outchar c s)"

definition printmsg :: "u8 list \<Rightarrow> basic \<Rightarrow> basic" where
  "printmsg msg s = line_terminator (printmsgNoNL msg s)"

text \<open>\<open>PRINT_ERR()\<close> prints \<open>__LINE__\<close>, the line of \<open>basic.c\<close> that reports the error.\<close>

definition PRINT_ERR :: "string \<Rightarrow> basic \<Rightarrow> basic" where
  "PRINT_ERR line s = printmsg (str ''Line:'' @ str line) s"

text \<open>One program line: number, blank, text; \<open>list_line\<close> is left behind its newline.\<close>

function printline_text :: "basic \<Rightarrow> basic res" where
  "printline_text s = bnd (rd (list_line s) s) (\<lambda>c.
     if c \<noteq> NL then printline_text ((ub_outchar c s)\<lparr>list_line := Suc (list_line s)\<rparr>) else Ok s)"
  by pat_completeness auto
termination
  by (relation "measure (\<lambda>s. kRamSize - list_line s)") (auto simp: rd_def split: if_splits)

definition printline :: "basic \<Rightarrow> basic res" where
  "printline s = bnd (ld_LINENUM (list_line s) s) (\<lambda>line_num.
     let s = s\<lparr>list_line := list_line s + sizeof_LINENUM + 1\<rparr>
     in bnd (printnum (ucast line_num) s) (\<lambda>s.
        bnd (printline_text (ub_outchar (ch (CHR '' '')) s)) (\<lambda>s.
        Ok (line_terminator (s\<lparr>list_line := Suc (list_line s)\<rparr>)))))"

declare printnum_push.simps [simp del] printUnum_push.simps [simp del] pqs_closed.simps [simp del]
  pqs_print.simps [simp del] printline_text.simps [simp del]

subsection \<open>Decimal digits\<close>

fun dec_digits :: "nat \<Rightarrow> u8 list" where
  "dec_digits n = (if n < 10 then [of_nat (48 + n)]
     else dec_digits (n div 10) @ [of_nat (48 + n mod 10)])"

declare dec_digits.simps [simp del]

lemma dec_digits_nonempty [simp]: "dec_digits n \<noteq> []"
  by (subst dec_digits.simps) simp

lemma unat_digit: "d < 10 \<Longrightarrow> unat (of_nat (48 + d) :: u8) = 48 + d"
  by (simp only: unat_of_nat) (simp add: take_bit_nat_eq_self)

lemma dec_digits_are_digits: "list_all is_digit_ch (dec_digits n)"
proof (induction n rule: dec_digits.induct)
  case (1 n)
  have "is_digit_ch (of_nat (48 + d))" if "d < 10" for d
    using that unat_digit[OF that] by (simp add: is_digit_ch_unat)
  with 1 show ?case
    by (subst dec_digits.simps) (auto simp del: of_nat_add)
qed

lemma dec_val_append: "dec_val n (xs @ ys) = dec_val (dec_val n xs) ys"
  by (induction xs arbitrary: n) auto

lemma dec_val_dec_digits: "dec_val 0 (dec_digits n) = n"
proof (induction n rule: dec_digits.induct)
  case (1 n)
  have "digit_val (of_nat (48 + d)) = d" if "d < 10" for d
    using unat_digit[OF that] by (simp add: digit_val_def)
  with 1 show ?case
    by (subst dec_digits.simps) (auto simp: dec_val_append simp del: of_nat_add)
qed

lemma length_dec_digits: "n < 10 ^ k \<Longrightarrow> 0 < k \<Longrightarrow> length (dec_digits n) \<le> k"
proof (induction k arbitrary: n)
  case 0
  then show ?case by simp
next
  case (Suc k)
  show ?case
  proof (cases "n < 10")
    case True
    then show ?thesis by (subst dec_digits.simps) simp
  next
    case False
    then have "0 < k" using Suc.prems(1) by (cases k) auto
    moreover have "n div 10 < 10 ^ k" using Suc.prems(1) by (simp add: less_mult_imp_div_less mult.commute)
    ultimately have "length (dec_digits (n div 10)) \<le> k" using Suc.IH by blast
    with False show ?thesis by (subst dec_digits.simps) simp
  qed
qed

subsection \<open>Number conversion on the stack\<close>

lemma store_bytes_append:
  "store_bytes m p (xs @ ys) = store_bytes (store_bytes m p xs) (p + length xs) ys"
  by (induction xs arbitrary: m p) auto

lemma store_bytes_upd_commute:
  "q < p \<Longrightarrow> store_bytes (m(q := b)) p xs = (store_bytes m p xs)(q := b)"
  by (rule ext) (auto simp: store_bytes_apply)

lemma store_bytes_snoc:
  "store_bytes (m(p + length xs := b)) p xs = store_bytes m p (xs @ [b])"
  by (rule ext) (auto simp: store_bytes_apply nth_append)

lemma pushb_ok: "0 < sp s \<Longrightarrow> sp s \<le> kRamSize \<Longrightarrow>
   pushb b s = Ok (s\<lparr>sp := sp s - 1, program := (program s)(sp s - 1 := b)\<rparr>)"
  by (simp add: pushb_def wr_def Let_def)

lemma digit_byte:
  assumes "0 \<le> sint num"
  shows "ucast (s64_mod num 10 + 48) = (of_nat (48 + nat (sint num) mod 10) :: u8)"
proof -
  define n where "n = nat (sint num)"
  then have n: "sint num = int n" using assms by simp
  have "48 + n mod 10 < 2 ^ 64" by (rule order_less_trans[of _ 58]) (simp_all add: less_diff_conv)
  then have tb: "take_bit 64 (48 + n mod 10) = 48 + n mod 10"
    by (rule take_bit_nat_eq_self)
  have "s64_mod num 10 = word_of_int (int (n mod 10))"
    using s64_mod_10_nonneg[OF assms] unfolding n by (simp add: zmod_int)
  then have "s64_mod num 10 + 48 = of_nat (48 + n mod 10)"
    by simp
  then have "ucast (s64_mod num 10 + 48) = (of_nat (take_bit 64 (48 + n mod 10)) :: u8)"
    by (simp only: unsigned_of_nat) simp
  then show ?thesis unfolding tb unfolding n_def .
qed

lemma printnum_push_digits:
  assumes "0 \<le> sint num" and "length (dec_digits (nat (sint num))) \<le> sp s" and "sp s \<le> kRamSize"
  shows "printnum_push num d s =
    (let ds = dec_digits (nat (sint num))
     in Ok (d + length ds, s\<lparr>sp := sp s - length ds,
              program := store_bytes (program s) (sp s - length ds) ds\<rparr>))"
  using assms
proof (induction num d s rule: printnum_push.induct)
  case (1 num d s)
  define n where "n = nat (sint num)"
  define b where "b = (of_nat (48 + n mod 10) :: u8)"
  define s1 where "s1 = s\<lparr>sp := sp s - 1, program := (program s)(sp s - 1 := b)\<rparr>"
  have pos: "0 < sp s" using "1.prems"(2) by (cases "sp s") auto
  have push: "pushb (ucast (s64_mod num 10 + 48)) s = Ok s1"
    using pos "1.prems" by (simp add: digit_byte pushb_ok s1_def b_def n_def)
  have q: "sint (s64_div num 10) = sint num div 10" "nat (sint num div 10) = n div 10"
    using "1.prems"(1) by (simp_all add: sint_s64_div_10_nonneg n_def nat_div_distrib)
  show ?case
  proof (cases "n < 10")
    case True
    then have "\<not> 0 <s s64_div num 10" using q by (simp add: word_sless_alt n_def)
    with True push show ?thesis
      by (subst printnum_push.simps, subst dec_digits.simps) (simp add: s1_def b_def flip: n_def)
  next
    case False
    define ds where "ds = dec_digits (n div 10)"
    from False have ds': "dec_digits n = ds @ [b]"
      unfolding ds_def b_def by (subst dec_digits.simps) simp
    from False have more: "0 <s s64_div num 10" using q by (simp add: word_sless_alt n_def)
    have len: "length ds + 1 \<le> sp s" using "1.prems"(2) ds' by (simp add: n_def)
    have "printnum_push num d s = printnum_push (s64_div num 10) (Suc d) s1"
      using push more by (subst printnum_push.simps) simp
    also have "\<dots> = Ok (Suc d + length ds, s1\<lparr>sp := sp s1 - length ds,
          program := store_bytes (program s1) (sp s1 - length ds) ds\<rparr>)"
      using "1.IH"[OF push refl refl more] q "1.prems" len
      by (simp add: Let_def ds_def s1_def flip: fun_upd_def)
    also have "\<dots> = Ok (d + length (dec_digits n), s\<lparr>sp := sp s - length (dec_digits n),
          program := store_bytes (program s) (sp s - length (dec_digits n)) (dec_digits n)\<rparr>)"
      using len store_bytes_snoc[of "program s" "sp s - Suc (length ds)" ds b]
      by (simp add: s1_def ds')
    finally show ?thesis by (simp add: Let_def n_def)
  qed
qed

lemma print_pop_bytes:
  assumes "at s (sp s) bs"
  shows "print_pop (length bs) s = Ok (s\<lparr>sp := sp s + length bs, con_out := con_out s @ concat (map shown bs)\<rparr>)"
  using assms
proof (induction bs arbitrary: s)
  case Nil
  then show ?case by simp
next
  case (Cons b bs)
  let ?s = "s\<lparr>sp := Suc (sp s), con_out := con_out s @ shown b\<rparr>"
  have "print_pop (length (b # bs)) s = print_pop (length bs) ?s"
    using Cons.prems by (simp add: popb_def rd_def ub_outchar_shown)
  also have "\<dots> = Ok (?s\<lparr>sp := sp ?s + length bs, con_out := con_out ?s @ concat (map shown bs)\<rparr>)"
    using Cons.prems at_program_cong[of ?s s] by (intro Cons.IH) simp
  finally show ?case by simp
qed

lemma shown_digit: "is_digit_ch c \<Longrightarrow> shown c = [ucast c]"
  by (auto simp: shown_def is_digit_ch_unat)

lemma concat_shown_digits: "list_all is_digit_ch ds \<Longrightarrow> concat (map shown ds) = map ucast ds"
  by (induction ds) (auto simp: shown_digit)

lemma at_store_bytes:
  "p + length bs \<le> kRamSize \<Longrightarrow> at (s\<lparr>program := store_bytes m p bs\<rparr>) p bs"
  by (auto simp: at_iff store_bytes_apply)

text \<open>What \<open>printnum\<close> shows: a sign for negative numbers, then the digits of the magnitude.\<close>

definition num_text :: "int \<Rightarrow> u8 list" where
  "num_text k = (if k < 0 then [ch (CHR ''-'')] else []) @ dec_digits (nat \<bar>k\<bar>)"

lemma printnum_nonneg:
  assumes "0 \<le> sint num" and "length (dec_digits (nat (sint num))) \<le> sp s" and "sp s \<le> kRamSize"
  shows "bnd (printnum_push num 0 s) (\<lambda>(digits, s). print_pop digits s) =
    (let ds = dec_digits (nat (sint num))
     in Ok (s\<lparr>program := store_bytes (program s) (sp s - length ds) ds,
              con_out := con_out s @ map ucast ds\<rparr>))"
proof -
  define ds where "ds = dec_digits (nat (sint num))"
  define s1 where "s1 = s\<lparr>sp := sp s - length ds,
    program := store_bytes (program s) (sp s - length ds) ds\<rparr>"
  have "at s1 (sp s1) ds"
    using assms at_store_bytes[where s = "s\<lparr>sp := sp s - length ds\<rparr>" and p = "sp s1" and bs = ds and m = "program s"]
    by (simp add: s1_def ds_def)
  then have "print_pop (length ds) s1 =
      Ok (s1\<lparr>sp := sp s1 + length ds, con_out := con_out s1 @ map ucast ds\<rparr>)"
    using concat_shown_digits[OF dec_digits_are_digits] by (simp add: print_pop_bytes ds_def)
  moreover have "sp s1 + length ds = sp s" using assms by (simp add: s1_def ds_def)
  ultimately show ?thesis
    using assms by (simp add: printnum_push_digits Let_def s1_def flip: ds_def)
qed

lemma printnum_text:
  assumes "num \<noteq> 0x8000000000000000" and "19 \<le> sp s" and "sp s \<le> kRamSize"
  shows "printnum num s =
    (let ds = dec_digits (nat \<bar>sint num\<bar>)
     in Ok (s\<lparr>program := store_bytes (program s) (sp s - length ds) ds,
              con_out := con_out s @ map ucast (num_text (sint num))\<rparr>))"
proof -
  have abs: "\<bar>sint num\<bar> < 2 ^ 63"
  proof (rule ccontr)
    assume "\<not> \<bar>sint num\<bar> < 2 ^ 63"
    then have "sint num = - (2 ^ 63)" using sint_bounds[of num] by linarith
    moreover have "num = word_of_int (sint num)" by simp
    ultimately have "num = word_of_int (- (2 ^ 63))" by (simp only:)
    with assms(1) show False by simp
  qed
  then have len: "length (dec_digits (nat \<bar>sint num\<bar>)) \<le> 19"
    by (intro length_dec_digits) (simp_all add: nat_less_iff)
  show ?thesis
  proof (cases "num <s 0")
    case True
    then have neg: "sint num < 0" by (simp add: word_sless_alt)
    have "sint (- num) = - sint num"
      using abs neg sint_word_of_int_id[of "- sint num"] by (simp add: wi_hom_neg)
    with neg True len assms show ?thesis
      using printnum_nonneg[of "- num" "ub_outchar (ch (CHR ''-'')) s"]
      by (simp add: printnum_def Let_def num_text_def ub_outchar_shown shown_def)
  next
    case False
    then have "0 \<le> sint num" by (simp add: word_sless_alt)
    with False len assms show ?thesis
      using printnum_nonneg[of num s] by (simp add: printnum_def Let_def num_text_def)
  qed
qed

end
