(* ===== verification/Basic_Expr.thy ===== *)
theory Basic_Expr
  imports Basic_Print
begin

text \<open>
  The expression evaluator of \<open>src/basic.c\<close>: a recursive descent over the text at \<open>txtpos\<close>
  that computes with 64-bit signed integers (arithmetic wraps; the one division that overflows
  traps on x86-64).  An error sets \<open>expression_error\<close> and the evaluation goes on.

  The C functions call each other without a bound that shows in their arguments, so the
  definitions carry a recursion budget; \<open>expression\<close> starts with \<open>expr_fuel\<close>, and the lemma
  \<open>expression_fuel\<close> shows that this is never used up, for any contents of the memory: every
  call consumes a character of the 64 KiB text or steps down the grammar.
\<close>

definition adv :: "basic \<Rightarrow> basic" where
  "adv s = s\<lparr>txtpos := Suc (txtpos s)\<rparr>"

definition expr4_error :: "basic \<Rightarrow> (u64 \<times> basic) res" where
  "expr4_error s = Ok (0, s\<lparr>expression_error := True\<rparr>)"

text \<open>A decimal constant: a do-while loop over the digits.\<close>

function expr4_num :: "u64 \<Rightarrow> basic \<Rightarrow> (u64 \<times> basic) res" where
  "expr4_num a s = bnd (rd (txtpos s) s) (\<lambda>c.
     let a = a * 10 + ucast c - 48; s = adv s
     in bnd (rd (txtpos s) s) (\<lambda>c. if is_digit_ch c then expr4_num a s else Ok (a, s)))"
  by pat_completeness auto
termination
  by (relation "measure (\<lambda>(a, s). kRamSize - txtpos s)") (auto simp: rd_def adv_def split: if_splits)

text \<open>The function call \<open>f(a)\<close>; \<open>None\<close> when the switch has no case for \<open>f\<close> and falls out.\<close>

definition expr4_func :: "nat \<Rightarrow> u64 \<Rightarrow> basic \<Rightarrow> (u64 \<times> basic) option res" where
  "expr4_func f a s =
     (if f = FUNC_PEEK then bnd (rd (unat a) s) (\<lambda>b. Ok (Some (ucast b, s)))
      else if f = FUNC_ABS then Ok (Some (if a <s 0 then - a else a, s))
      else if f = FUNC_GETC then bnd (ub_inchar s) (\<lambda>(k, s). Ok (Some (scast k, s)))
      else if f = FUNC_PUTC then Ok (Some (a, ub_outchar (ucast a) s))
      else if f = FUNC_RND then Ok (Some (3, s))
      else Ok None)"

text \<open>\<open>a /= b\<close> for a divisor that is not 0.\<close>

definition s64_quot :: "u64 \<Rightarrow> u64 \<Rightarrow> u64 res" where
  "s64_quot a b = (if a = 0x8000000000000000 \<and> b = - 1 then Stop Fault else Ok (s64_div a b))"

definition relop :: "nat \<Rightarrow> u64 \<Rightarrow> u64 \<Rightarrow> bool" where
  "relop i a b =
     (if i = RELOP_GE then b \<le>s a
      else if i = RELOP_NE \<or> i = RELOP_NE_BANG then a \<noteq> b
      else if i = RELOP_GT then b <s a
      else if i = RELOP_EQ then a = b
      else if i = RELOP_LE then a \<le>s b
      else if i = RELOP_LT then a <s b
      else False)"

fun expr4 :: "nat \<Rightarrow> basic \<Rightarrow> (u64 \<times> basic) res"
  and expr4_paren :: "nat \<Rightarrow> basic \<Rightarrow> (u64 \<times> basic) res"
  and expr3 :: "nat \<Rightarrow> basic \<Rightarrow> (u64 \<times> basic) res"
  and expr3_loop :: "nat \<Rightarrow> u64 \<Rightarrow> basic \<Rightarrow> (u64 \<times> basic) res"
  and expr2 :: "nat \<Rightarrow> basic \<Rightarrow> (u64 \<times> basic) res"
  and expr2_loop :: "nat \<Rightarrow> u64 \<Rightarrow> basic \<Rightarrow> (u64 \<times> basic) res"
  and expression_f :: "nat \<Rightarrow> basic \<Rightarrow> (u64 \<times> basic) res"
where
  "expr4 0 s = Stop NoFuel"
| "expr4 (Suc n) s = bnd (ignore_blanks s) (\<lambda>s. bnd (rd (txtpos s) s) (\<lambda>c.
     if c = ch (CHR ''-'') then bnd (expr4 n (adv s)) (\<lambda>(a, s). Ok (- a, s))
     else if c = ch (CHR ''0'') then Ok (0, adv s)
     else if ch (CHR ''1'') \<le> c \<and> c \<le> ch (CHR ''9'') then expr4_num 0 s
     else if is_letter c then
       bnd (rd (Suc (txtpos s)) s) (\<lambda>c1.
         if \<not> is_letter c1 then bnd (ld_var c s) (\<lambda>a. Ok (a, adv s))
         else bnd (scantable func_tab s) (\<lambda>s.
           if table_index s = FUNC_UNKNOWN then expr4_error s
           else let f = table_index s
             in bnd (rd (txtpos s) s) (\<lambda>c.
                  if c \<noteq> ch (CHR ''('') then expr4_error s
                  else bnd (expression_f n (adv s)) (\<lambda>(a, s). bnd (rd (txtpos s) s) (\<lambda>c.
                    if c \<noteq> ch (CHR '')'') then expr4_error s
                    else bnd (expr4_func f a (adv s)) (\<lambda>r.
                      case r of Some v \<Rightarrow> Ok v | None \<Rightarrow> expr4_paren n (adv s)))))))
     else expr4_paren n s))"
| "expr4_paren 0 s = Stop NoFuel"
| "expr4_paren (Suc n) s = bnd (rd (txtpos s) s) (\<lambda>c.
     if c = ch (CHR ''('') then
       bnd (expression_f n (adv s)) (\<lambda>(a, s). bnd (rd (txtpos s) s) (\<lambda>c.
         if c \<noteq> ch (CHR '')'') then expr4_error s else Ok (a, adv s)))
     else expr4_error s)"
| "expr3 0 s = Stop NoFuel"
| "expr3 (Suc n) s = bnd (expr4 n s) (\<lambda>(a, s). bnd (ignore_blanks s) (\<lambda>s. expr3_loop n a s))"
| "expr3_loop 0 a s = Stop NoFuel"
| "expr3_loop (Suc n) a s = bnd (rd (txtpos s) s) (\<lambda>c.
     if c = ch (CHR ''*'') then bnd (expr4 n (adv s)) (\<lambda>(b, s). expr3_loop n (a * b) s)
     else if c = ch (CHR ''/'') then bnd (expr4 n (adv s)) (\<lambda>(b, s).
       if b \<noteq> 0 then bnd (s64_quot a b) (\<lambda>a. expr3_loop n a s)
       else expr3_loop n a (s\<lparr>expression_error := True\<rparr>))
     else Ok (a, s))"
| "expr2 0 s = Stop NoFuel"
| "expr2 (Suc n) s = bnd (rd (txtpos s) s) (\<lambda>c.
     if c = ch (CHR ''-'') \<or> c = ch (CHR ''+'') then expr2_loop n 0 s
     else bnd (expr3 n s) (\<lambda>(a, s). expr2_loop n a s))"
| "expr2_loop 0 a s = Stop NoFuel"
| "expr2_loop (Suc n) a s = bnd (rd (txtpos s) s) (\<lambda>c.
     if c = ch (CHR ''-'') then bnd (expr3 n (adv s)) (\<lambda>(b, s). expr2_loop n (a - b) s)
     else if c = ch (CHR ''+'') then bnd (expr3 n (adv s)) (\<lambda>(b, s). expr2_loop n (a + b) s)
     else Ok (a, s))"
| "expression_f 0 s = Stop NoFuel"
| "expression_f (Suc n) s = bnd (expr2 n s) (\<lambda>(a, s).
     if expression_error s then Ok (a, s)
     else bnd (scantable relop_tab s) (\<lambda>s.
       if table_index s = RELOP_UNKNOWN then Ok (a, s)
       else let i = table_index s
         in bnd (expr2 n s) (\<lambda>(b, s). Ok (if relop i a b then 1 else 0, s))))"

definition expr_fuel :: nat where
  "expr_fuel = 6 * kRamSize + 6"

definition expression :: "basic \<Rightarrow> (u64 \<times> basic) res" where
  "expression s = expression_f expr_fuel s"

declare expr4_num.simps [simp del]

subsection \<open>Termination: the budget is never used up\<close>

text \<open>\<open>fine p r\<close>: the result \<open>r\<close> is not out of budget, and the scan has not moved back behind
  \<open>p\<close>.  The rules below follow the shape of the definitions.\<close>

definition fine :: "nat \<Rightarrow> (u64 \<times> basic) res \<Rightarrow> bool" where
  "fine p r = (case r of Ok (v, s) \<Rightarrow> p \<le> txtpos s | Stop h \<Rightarrow> h \<noteq> NoFuel)"

lemma fine_simps [simp]:
  "fine p (Ok (v, s)) \<longleftrightarrow> p \<le> txtpos s"
  "fine p (Stop h) \<longleftrightarrow> h \<noteq> NoFuel"
  "fine p (expr4_error s) \<longleftrightarrow> p \<le> txtpos s"
  by (simp_all add: fine_def expr4_error_def)

lemma txtpos_adv [simp]: "txtpos (adv s) = Suc (txtpos s)"
  by (simp add: adv_def)

lemma fine_rd: "(q < kRamSize \<Longrightarrow> fine p (f (program s q))) \<Longrightarrow> fine p (bnd (rd q s) f)"
  by (simp add: rd_def)

lemma fine_ignore_blanks:
  "(\<And>s'. txtpos s \<le> txtpos s' \<Longrightarrow> fine p (f s')) \<Longrightarrow> fine p (bnd (ignore_blanks s) f)"
  by (cases "ignore_blanks s") (auto dest: ignore_blanks_halts ignore_blanks_frame)

lemma str_chk_halts: "str_chk p k s = Stop h \<Longrightarrow> h = Fault"
  by (induction k arbitrary: p) (auto simp: rd_def split: if_splits)

lemma scantable_loop_fine:
  "(\<And>s'. txtpos s \<le> txtpos s' \<Longrightarrow> fine p (f s')) \<Longrightarrow> fine p (bnd (scantable_loop tbl s) f)"
proof (induction tbl arbitrary: s)
  case Nil
  then show ?case by simp
next
  case (Cons k tbl)
  show ?case
  proof (cases "str_chk (txtpos s) k s")
    case (Ok r)
    with Cons.prems Cons.IH[of "s\<lparr>table_index := Suc (table_index s)\<rparr>"] show ?thesis
      by (auto intro!: fine_ignore_blanks)
  next
    case (Stop h)
    then show ?thesis by (auto dest: str_chk_halts)
  qed
qed

lemma fine_scantable:
  "(\<And>s'. txtpos s \<le> txtpos s' \<Longrightarrow> fine p (f s')) \<Longrightarrow> fine p (bnd (scantable tbl s) f)"
  unfolding scantable_def by (rule scantable_loop_fine) simp

lemma fine_bnd:
  "fine q m \<Longrightarrow> (\<And>v s'. q \<le> txtpos s' \<Longrightarrow> fine p (f (v, s'))) \<Longrightarrow> fine p (bnd m f)"
  by (cases m) auto

lemma fine_ld_var: "(\<And>a. fine p (f a)) \<Longrightarrow> fine p (bnd (ld_var c s) f)"
  by (simp add: ld_var_def ld_def)

lemma fine_s64_quot: "(\<And>a. fine p (f a)) \<Longrightarrow> fine p (bnd (s64_quot a b) f)"
  by (simp add: s64_quot_def)

lemma fine_expr4_num: "p \<le> txtpos s \<Longrightarrow> fine p (expr4_num a s)"
proof (induction a s rule: expr4_num.induct)
  case (1 a s)
  then show ?case
    by (subst expr4_num.simps) (auto intro!: fine_rd simp: rd_def Let_def)
qed

lemma fine_expr4_func:
  assumes "p \<le> txtpos s" and "fine p g"
  shows "fine p (bnd (expr4_func f a s) (\<lambda>r. case r of Some v \<Rightarrow> Ok v | None \<Rightarrow> g))"
  using assms by (auto simp: expr4_func_def ub_inchar_def ub_outchar_shown rd_def split: list.splits)

lemmas fine_rules = fine_rd fine_ignore_blanks fine_scantable fine_ld_var fine_s64_quot
  fine_expr4_num fine_expr4_func

definition expr_budget :: "nat \<Rightarrow> bool" where
  "expr_budget n \<longleftrightarrow> (\<forall>s a. let r = 6 * (kRamSize - txtpos s) in
     (r + 1 \<le> n \<longrightarrow> fine (txtpos s) (expr4_paren n s)) \<and>
     (r + 2 \<le> n \<longrightarrow> fine (txtpos s) (expr4 n s)) \<and>
     (r + 1 \<le> n \<longrightarrow> fine (txtpos s) (expr3_loop n a s)) \<and>
     (r + 3 \<le> n \<longrightarrow> fine (txtpos s) (expr3 n s)) \<and>
     (r + 1 \<le> n \<longrightarrow> fine (txtpos s) (expr2_loop n a s)) \<and>
     (r + 4 \<le> n \<longrightarrow> fine (txtpos s) (expr2 n s)) \<and>
     (r + 5 \<le> n \<longrightarrow> fine (txtpos s) (expression_f n s)))"

lemma expr_budgetD:
  assumes "expr_budget n"
  shows "6 * (kRamSize - txtpos s) + 1 \<le> n \<Longrightarrow> fine (txtpos s) (expr4_paren n s)"
    and "6 * (kRamSize - txtpos s) + 2 \<le> n \<Longrightarrow> fine (txtpos s) (expr4 n s)"
    and "6 * (kRamSize - txtpos s) + 1 \<le> n \<Longrightarrow> fine (txtpos s) (expr3_loop n a s)"
    and "6 * (kRamSize - txtpos s) + 3 \<le> n \<Longrightarrow> fine (txtpos s) (expr3 n s)"
    and "6 * (kRamSize - txtpos s) + 1 \<le> n \<Longrightarrow> fine (txtpos s) (expr2_loop n a s)"
    and "6 * (kRamSize - txtpos s) + 4 \<le> n \<Longrightarrow> fine (txtpos s) (expr2 n s)"
    and "6 * (kRamSize - txtpos s) + 5 \<le> n \<Longrightarrow> fine (txtpos s) (expression_f n s)"
  using assms unfolding expr_budget_def Let_def by blast+

lemma fine_mono: "fine q r \<Longrightarrow> p \<le> q \<Longrightarrow> fine p r"
  by (auto simp: fine_def split: res.splits)

lemma fine_expr4_paren_Suc:
  assumes "expr_budget n" and "6 * (kRamSize - txtpos s) + 1 \<le> Suc n"
  shows "fine (txtpos s) (expr4_paren (Suc n) s)"
  using assms
  by (auto intro!: fine_rd fine_bnd[OF expr_budgetD(7)[OF assms(1)]])

lemma fine_expr4_Suc:
  assumes "expr_budget n" and "6 * (kRamSize - txtpos s) + 2 \<le> Suc n"
  shows "fine (txtpos s) (expr4 (Suc n) s)"
proof -
  have less: "6 * (kRamSize - txtpos s') + 6 \<le> 6 * (kRamSize - txtpos s)"
    if "txtpos s < txtpos s'" "txtpos s < kRamSize" for s'
    using that by linarith
  have e4: "fine (txtpos s) (bnd (expr4 n s') (\<lambda>(a, s). Ok (- a, s)))"
    if "txtpos s < txtpos s'" "txtpos s < kRamSize" for s'
    using that less[OF that] assms(2)
    by (intro fine_bnd[OF expr_budgetD(2)[OF assms(1)]]) auto
  have ex: "fine (txtpos s) (bnd (expression_f n s') f)"
    if "txtpos s < txtpos s'" "txtpos s < kRamSize"
      "\<And>v s'. txtpos s \<le> txtpos s' \<Longrightarrow> fine (txtpos s) (f (v, s'))" for s' f
    using that less[OF that(1,2)] assms(2)
    by (intro fine_bnd[OF expr_budgetD(7)[OF assms(1)]]) auto
  have pa: "fine (txtpos s) (expr4_paren n s')" if "txtpos s \<le> txtpos s'" for s'
    using that assms(2) by (intro fine_mono[OF expr_budgetD(1)[OF assms(1)] that]) linarith
  show ?thesis
    by (auto intro!: fine_rules e4 ex pa simp: Let_def)
qed

lemma fine_expr3_Suc:
  assumes "expr_budget n" and "6 * (kRamSize - txtpos s) + 3 \<le> Suc n"
  shows "fine (txtpos s) (expr3 (Suc n) s)"
  using assms(2)
  by (auto intro!: fine_ignore_blanks fine_bnd[OF expr_budgetD(2)[OF assms(1)]]
      intro: fine_mono[OF expr_budgetD(3)[OF assms(1)]])

lemma fine_expr3_loop_Suc:
  assumes "expr_budget n" and "6 * (kRamSize - txtpos s) + 1 \<le> Suc n"
  shows "fine (txtpos s) (expr3_loop (Suc n) a s)"
  using assms(2)
  by (auto intro!: fine_rd fine_s64_quot fine_bnd[OF expr_budgetD(2)[OF assms(1)]]
      fine_mono[OF expr_budgetD(3)[OF assms(1)]]) linarith+

lemma fine_expr2_Suc:
  assumes "expr_budget n" and "6 * (kRamSize - txtpos s) + 4 \<le> Suc n"
  shows "fine (txtpos s) (expr2 (Suc n) s)"
  using assms(2)
  by (auto intro!: fine_rd fine_bnd[OF expr_budgetD(4)[OF assms(1)]]
      fine_mono[OF expr_budgetD(5)[OF assms(1)]])

lemma fine_expr2_loop_Suc:
  assumes "expr_budget n" and "6 * (kRamSize - txtpos s) + 1 \<le> Suc n"
  shows "fine (txtpos s) (expr2_loop (Suc n) a s)"
  using assms(2)
  by (auto intro!: fine_rd fine_bnd[OF expr_budgetD(4)[OF assms(1)]]
      fine_mono[OF expr_budgetD(5)[OF assms(1)]])

lemma fine_expression_f_Suc:
  assumes "expr_budget n" and "6 * (kRamSize - txtpos s) + 5 \<le> Suc n"
  shows "fine (txtpos s) (expression_f (Suc n) s)"
proof -
  have e2: "fine (txtpos s) (bnd (expr2 n s') f)"
    if "txtpos s \<le> txtpos s'" "\<And>v s'. txtpos s \<le> txtpos s' \<Longrightarrow> fine (txtpos s) (f (v, s'))" for s' f
    using that assms(2) by (intro fine_bnd[OF expr_budgetD(6)[OF assms(1)]]) auto
  show ?thesis by (auto intro!: fine_scantable e2 simp: Let_def)
qed

lemma expr_budget_holds: "expr_budget n"
proof (induction n)
  case 0
  then show ?case by (simp add: expr_budget_def)
next
  case (Suc n)
  show ?case
    unfolding expr_budget_def[of "Suc n"] Let_def using Suc
    by (intro allI conjI impI fine_expr4_paren_Suc fine_expr4_Suc fine_expr3_loop_Suc
        fine_expr3_Suc fine_expr2_loop_Suc fine_expr2_Suc fine_expression_f_Suc)
qed

lemma expression_fine: "fine (txtpos s) (expression s)"
  unfolding expression_def
  by (rule expr_budgetD(7)[OF expr_budget_holds]) (simp add: expr_fuel_def)

lemma expression_fuel: "expression s \<noteq> Stop NoFuel"
  using expression_fine[of s] by (auto simp: fine_def)

end
