(* ===== verification/Basic_Grammar.thy ===== *)
theory Basic_Grammar
  imports Basic_Expr
begin

text \<open>
  The expression language as a grammar with a value, independent of the evaluator's control flow,
  and the proof that \<open>expression\<close> computes that value: for every expression of the grammar, when
  its text is in front of \<open>txtpos\<close>, the evaluator returns the value of the expression and stops
  behind the text.  The value is \<open>None\<close> where the program reports an error (division by 0) or
  leaves the array (PEEK, the trapping division).
\<close>

datatype fn = FAbs | FRnd | FPeek

datatype rop = Ge | Ne | Gt | Eq | Le | Lt | NeBang

datatype fac = Num nat | Var u8 | Neg fac | Par exp | Fn fn exp
  and trm = Trm fac mops
  and mops = MNil | MMul fac mops | MDiv fac mops
  and sm = Sm trm sops | Sg sops
  and sops = SNil | SAdd trm sops | SSub trm sops
  and exp = Ex sm | Rel rop sm sm

subsection \<open>Text\<close>

fun fn_text :: "fn \<Rightarrow> u8 list" where
  "fn_text FAbs = str ''ABS''"
| "fn_text FRnd = str ''RND''"
| "fn_text FPeek = str ''PEEK''"

fun rop_text :: "rop \<Rightarrow> u8 list" where
  "rop_text Ge = str ''>=''"
| "rop_text Ne = str ''<>''"
| "rop_text Gt = str ''>''"
| "rop_text Eq = str ''=''"
| "rop_text Le = str ''<=''"
| "rop_text Lt = str ''<''"
| "rop_text NeBang = str ''!=''"

primrec fac_text :: "fac \<Rightarrow> u8 list" and trm_text :: "trm \<Rightarrow> u8 list"
  and mops_text :: "mops \<Rightarrow> u8 list" and sm_text :: "sm \<Rightarrow> u8 list"
  and sops_text :: "sops \<Rightarrow> u8 list" and exp_text :: "exp \<Rightarrow> u8 list" where
  "fac_text (Num n) = dec_digits n"
| "fac_text (Var c) = [c]"
| "fac_text (Neg f) = ch (CHR ''-'') # fac_text f"
| "fac_text (Par e) = ch (CHR ''('') # exp_text e @ [ch (CHR '')'')]"
| "fac_text (Fn g e) = fn_text g @ ch (CHR ''('') # exp_text e @ [ch (CHR '')'')]"
| "trm_text (Trm f r) = fac_text f @ mops_text r"
| "mops_text MNil = []"
| "mops_text (MMul f r) = ch (CHR ''*'') # fac_text f @ mops_text r"
| "mops_text (MDiv f r) = ch (CHR ''/'') # fac_text f @ mops_text r"
| "sm_text (Sm t r) = trm_text t @ sops_text r"
| "sm_text (Sg r) = sops_text r"
| "sops_text SNil = []"
| "sops_text (SAdd t r) = ch (CHR ''+'') # trm_text t @ sops_text r"
| "sops_text (SSub t r) = ch (CHR ''-'') # trm_text t @ sops_text r"
| "exp_text (Ex a) = sm_text a"
| "exp_text (Rel r a b) = sm_text a @ rop_text r @ sm_text b"

text \<open>A sum with a leading sign starts from 0; a first factor does not start with a sign.\<close>

fun signed_fac :: "fac \<Rightarrow> bool" where
  "signed_fac (Neg f) = True"
| "signed_fac f = False"

primrec fac_wf :: "fac \<Rightarrow> bool" and trm_wf :: "trm \<Rightarrow> bool" and mops_wf :: "mops \<Rightarrow> bool"
  and sm_wf :: "sm \<Rightarrow> bool" and sops_wf :: "sops \<Rightarrow> bool" and exp_wf :: "exp \<Rightarrow> bool" where
  "fac_wf (Num n) = True"
| "fac_wf (Var c) = is_letter c"
| "fac_wf (Neg f) = fac_wf f"
| "fac_wf (Par e) = exp_wf e"
| "fac_wf (Fn g e) = exp_wf e"
| "trm_wf (Trm f r) = (fac_wf f \<and> mops_wf r)"
| "mops_wf MNil = True"
| "mops_wf (MMul f r) = (fac_wf f \<and> mops_wf r)"
| "mops_wf (MDiv f r) = (fac_wf f \<and> mops_wf r)"
| "sm_wf (Sm t r) = ((case t of Trm f _ \<Rightarrow> \<not> signed_fac f) \<and> trm_wf t \<and> sops_wf r)"
| "sm_wf (Sg r) = (r \<noteq> SNil \<and> sops_wf r)"
| "sops_wf SNil = True"
| "sops_wf (SAdd t r) = (trm_wf t \<and> sops_wf r)"
| "sops_wf (SSub t r) = (trm_wf t \<and> sops_wf r)"
| "exp_wf (Ex a) = sm_wf a"
| "exp_wf (Rel r a b) = (sm_wf a \<and> sm_wf b)"

subsection \<open>Value\<close>

definition var_val :: "mem \<Rightarrow> nat \<Rightarrow> u8 \<Rightarrow> u64" where
  "var_val m vb c = le_word (load_bytes m (vb + 8 * (unat c - 65)) 8)"

fun fn_val :: "mem \<Rightarrow> fn \<Rightarrow> u64 \<Rightarrow> u64 option" where
  "fn_val m FAbs a = Some (if a <s 0 then - a else a)"
| "fn_val m FRnd a = Some 3"
| "fn_val m FPeek a = (if unat a < kRamSize then Some (ucast (m (unat a))) else None)"

definition div_val :: "u64 \<Rightarrow> u64 \<Rightarrow> u64 option" where
  "div_val a b = (if b = 0 \<or> (a = 0x8000000000000000 \<and> b = - 1) then None else Some (s64_div a b))"

fun rop_val :: "rop \<Rightarrow> u64 \<Rightarrow> u64 \<Rightarrow> bool" where
  "rop_val Ge a b \<longleftrightarrow> sint a \<ge> sint b"
| "rop_val Ne a b \<longleftrightarrow> a \<noteq> b"
| "rop_val Gt a b \<longleftrightarrow> sint a > sint b"
| "rop_val Eq a b \<longleftrightarrow> a = b"
| "rop_val Le a b \<longleftrightarrow> sint a \<le> sint b"
| "rop_val Lt a b \<longleftrightarrow> sint a < sint b"
| "rop_val NeBang a b \<longleftrightarrow> a \<noteq> b"

primrec fac_val :: "mem \<Rightarrow> nat \<Rightarrow> fac \<Rightarrow> u64 option"
  and trm_val :: "mem \<Rightarrow> nat \<Rightarrow> trm \<Rightarrow> u64 option"
  and mops_val :: "mem \<Rightarrow> nat \<Rightarrow> mops \<Rightarrow> u64 \<Rightarrow> u64 option"
  and sm_val :: "mem \<Rightarrow> nat \<Rightarrow> sm \<Rightarrow> u64 option"
  and sops_val :: "mem \<Rightarrow> nat \<Rightarrow> sops \<Rightarrow> u64 \<Rightarrow> u64 option"
  and exp_val :: "mem \<Rightarrow> nat \<Rightarrow> exp \<Rightarrow> u64 option" where
  "fac_val m vb (Num n) = Some (of_nat n)"
| "fac_val m vb (Var c) = Some (var_val m vb c)"
| "fac_val m vb (Neg f) = map_option uminus (fac_val m vb f)"
| "fac_val m vb (Par e) = exp_val m vb e"
| "fac_val m vb (Fn g e) = Option.bind (exp_val m vb e) (fn_val m g)"
| "trm_val m vb (Trm f r) = Option.bind (fac_val m vb f) (mops_val m vb r)"
| "mops_val m vb MNil = (\<lambda>a. Some a)"
| "mops_val m vb (MMul f r) = (\<lambda>a. Option.bind (fac_val m vb f) (\<lambda>b. mops_val m vb r (a * b)))"
| "mops_val m vb (MDiv f r) = (\<lambda>a. Option.bind (fac_val m vb f) (\<lambda>b.
     Option.bind (div_val a b) (mops_val m vb r)))"
| "sm_val m vb (Sm t r) = Option.bind (trm_val m vb t) (sops_val m vb r)"
| "sm_val m vb (Sg r) = sops_val m vb r 0"
| "sops_val m vb SNil = (\<lambda>a. Some a)"
| "sops_val m vb (SAdd t r) = (\<lambda>a. Option.bind (trm_val m vb t) (\<lambda>b. sops_val m vb r (a + b)))"
| "sops_val m vb (SSub t r) = (\<lambda>a. Option.bind (trm_val m vb t) (\<lambda>b. sops_val m vb r (a - b)))"
| "exp_val m vb (Ex a) = sm_val m vb a"
| "exp_val m vb (Rel r a b) = Option.bind (sm_val m vb a) (\<lambda>x. Option.bind (sm_val m vb b) (\<lambda>y.
     Some (if rop_val r x y then 1 else 0)))"

subsection \<open>What the evaluator sees behind a phrase\<close>

text \<open>Does the phrase end with a variable?  A letter behind it would make it a function name.\<close>

fun fac_open :: "fac \<Rightarrow> bool" where
  "fac_open (Var c) = True"
| "fac_open (Neg f) = fac_open f"
| "fac_open f = False"

fun mops_open :: "bool \<Rightarrow> mops \<Rightarrow> bool" where
  "mops_open b MNil = b"
| "mops_open b (MMul f r) = mops_open (fac_open f) r"
| "mops_open b (MDiv f r) = mops_open (fac_open f) r"

fun trm_open :: "trm \<Rightarrow> bool" where
  "trm_open (Trm f r) = mops_open (fac_open f) r"

fun sops_open :: "bool \<Rightarrow> sops \<Rightarrow> bool" where
  "sops_open b SNil = b"
| "sops_open b (SAdd t r) = sops_open (trm_open t) r"
| "sops_open b (SSub t r) = sops_open (trm_open t) r"

fun sm_open :: "sm \<Rightarrow> bool" where
  "sm_open (Sm t r) = sops_open (trm_open t) r"
| "sm_open (Sg r) = sops_open False r"

fun exp_open :: "exp \<Rightarrow> bool" where
  "exp_open (Ex a) = sm_open a"
| "exp_open (Rel r a b) = sm_open b"

definition follow_f :: "bool \<Rightarrow> u8 \<Rightarrow> bool" where
  "follow_f b c \<longleftrightarrow> \<not> is_digit_ch c \<and> \<not> (b \<and> is_letter c)"

definition follow_m :: "bool \<Rightarrow> u8 \<Rightarrow> bool" where
  "follow_m b c \<longleftrightarrow> follow_f b c \<and> c \<noteq> ch (CHR ''*'') \<and> c \<noteq> ch (CHR ''/'')"

definition follow_t :: "bool \<Rightarrow> u8 \<Rightarrow> bool" where
  "follow_t b c \<longleftrightarrow> follow_m b c \<and> \<not> blank c"

definition follow_s :: "bool \<Rightarrow> u8 \<Rightarrow> bool" where
  "follow_s b c \<longleftrightarrow> follow_t b c \<and> c \<noteq> ch (CHR ''+'') \<and> c \<noteq> ch (CHR ''-'')"

definition follow_e :: "bool \<Rightarrow> u8 \<Rightarrow> bool" where
  "follow_e b c \<longleftrightarrow> follow_s b c \<and> c \<noteq> ch (CHR ''<'') \<and> c \<noteq> ch (CHR ''>'') \<and> c \<noteq> ch (CHR ''='')
     \<and> c \<noteq> ch (CHR ''!'')"

lemmas follow_defs = follow_f_def follow_m_def follow_t_def follow_s_def follow_e_def is_digit_ch_def
  is_letter_def blank_def

definition ready :: "basic \<Rightarrow> bool" where
  "ready s \<longleftrightarrow> \<not> expression_error s \<and> variables_begin s + 208 \<le> kRamSize"

lemma ready_upd [simp]: "ready (s\<lparr>txtpos := p\<rparr>) = ready s" "ready (s\<lparr>table_index := i\<rparr>) = ready s"
  by (simp_all add: ready_def)

text \<open>\<open>yields r v s k\<close>: the result is \<open>v\<close>, and the scan has moved \<open>k\<close> bytes from \<open>s\<close>.\<close>

definition yields :: "(u64 \<times> basic) res \<Rightarrow> u64 \<Rightarrow> basic \<Rightarrow> nat \<Rightarrow> bool" where
  "yields r v s k \<longleftrightarrow> (\<exists>i. r = Ok (v, s\<lparr>txtpos := txtpos s + k, table_index := i\<rparr>))"

lemma upd_id [simp]: "s\<lparr>txtpos := txtpos s, table_index := table_index s\<rparr> = s"
  by (cases s) simp

lemma yieldsI: "yields (Ok (v, s\<lparr>txtpos := txtpos s + k, table_index := i\<rparr>)) v s k"
  unfolding yields_def by blast

lemma yields_here: "yields (Ok (v, s)) v s 0"
  using yieldsI[where v = v and s = s and k = 0 and i = "table_index s"] by simp

lemma yields_adv: "yields (Ok (v, adv s)) v s 1"
  using yieldsI[where v = v and s = s and k = 1 and i = "table_index s"] by (simp add: adv_def)

lemma yields_bnd:
  assumes "yields r v s j"
    and "\<And>i s'. s' = s\<lparr>txtpos := txtpos s + j, table_index := i\<rparr> \<Longrightarrow> yields (f (v, s')) w s' k"
    and "l = j + k"
  shows "yields (bnd r f) w s l"
proof -
  from assms(1) obtain i where r: "r = Ok (v, s\<lparr>txtpos := txtpos s + j, table_index := i\<rparr>)"
    unfolding yields_def by blast
  obtain i' where "f (v, s\<lparr>txtpos := txtpos s + j, table_index := i\<rparr>) =
      Ok (w, s\<lparr>txtpos := txtpos s + (j + k), table_index := i'\<rparr>)"
    using assms(2)[OF refl, of i] unfolding yields_def by (auto simp: add.assoc)
  with r assms(3) show ?thesis unfolding yields_def by auto
qed

lemma yields_step:
  assumes "yields r w (s\<lparr>txtpos := txtpos s + j, table_index := i\<rparr>) k" and "l = j + k"
  shows "yields r w s l"
  using assms unfolding yields_def by (auto simp: add.assoc)

lemma yields_step_adv: "yields r w (adv s) k \<Longrightarrow> yields r w s (Suc k)"
  using yields_step[where s = s and j = 1 and i = "table_index s"] by (simp add: adv_def)

lemma at_adv [simp]: "at (adv s) p xs = at s p xs"
  by (simp add: adv_def)

lemma adv_fields [simp]:
  "program (adv s) = program s" "variables_begin (adv s) = variables_begin s"
  "expression_error (adv s) = expression_error s" "ready (adv s) = ready s"
  by (simp_all add: adv_def)

lemma ignore_blanks_id: "at s (txtpos s) [c] \<Longrightarrow> \<not> blank c \<Longrightarrow> ignore_blanks s = Ok s"
  using ignore_blanks_at[of s "[]" c] by simp

lemma at_hd: "at s p (xs @ [c]) \<Longrightarrow> at s p [hd (xs @ [c])]"
  by (cases xs) auto

lemma hd_mops: "hd (mops_text r @ [c]) = (case r of MNil \<Rightarrow> c | MMul _ _ \<Rightarrow> 42 | MDiv _ _ \<Rightarrow> 47)"
  by (cases r) auto

lemma hd_sops: "hd (sops_text r @ [c]) = (case r of SNil \<Rightarrow> c | SAdd _ _ \<Rightarrow> 43 | SSub _ _ \<Rightarrow> 45)"
  by (cases r) auto

lemma follow_mops: "follow_m (mops_open b r) c \<Longrightarrow> follow_f b (hd (mops_text r @ [c]))"
  by (cases r) (auto simp: follow_defs)

lemma mops_open_weak: "follow_m (mops_open b r) c \<Longrightarrow> follow_m (mops_open False r) c"
  by (cases r) (auto simp: follow_defs)

lemma follow_sops: "follow_s (sops_open b r) c \<Longrightarrow> follow_t b (hd (sops_text r @ [c]))"
  by (cases r) (auto simp: follow_defs)

lemma sops_open_weak: "follow_s (sops_open b r) c \<Longrightarrow> follow_s (sops_open False r) c"
  by (cases r) (auto simp: follow_defs)

subsection \<open>Constants\<close>

lemma of_nat_digit_step:
  "is_digit_ch d \<Longrightarrow> (of_nat n * 10 + ucast d - 48 :: u64) = of_nat (10 * n + digit_val d)"
  by (simp add: is_digit_ch_unat digit_val_def of_nat_diff algebra_simps)

lemma expr4_num_digits:
  assumes "at s (txtpos s) (ds @ [c])" and "list_all is_digit_ch ds" and "ds \<noteq> []"
    and "\<not> is_digit_ch c"
  shows "expr4_num (of_nat n) s = Ok (of_nat (dec_val n ds), s\<lparr>txtpos := txtpos s + length ds\<rparr>)"
  using assms
proof (induction ds arbitrary: n s)
  case Nil
  then show ?case by simp
next
  case (Cons d ds)
  have d: "rd (txtpos s) s = Ok d" "is_digit_ch d" using Cons.prems by (auto simp: rd_def)
  have next_ch: "at s (Suc (txtpos s)) [hd (ds @ [c])]" using Cons.prems(1) by (intro at_hd) simp
  show ?case
  proof (cases "ds = []")
    case True
    with Cons.prems d show ?thesis
      by (subst expr4_num.simps) (simp add: rd_def adv_def of_nat_digit_step Let_def del: of_nat_add)
  next
    case False
    then have "is_digit_ch (hd (ds @ [c]))" using Cons.prems(2) by (cases ds) auto
    with d next_ch have "expr4_num (of_nat n) s = expr4_num (of_nat (10 * n + digit_val d)) (adv s)"
      by (subst expr4_num.simps) (simp add: rd_def adv_def of_nat_digit_step Let_def del: of_nat_add)
    also have "\<dots> = Ok (of_nat (dec_val (10 * n + digit_val d) ds), (adv s)\<lparr>txtpos := txtpos (adv s) + length ds\<rparr>)"
      using Cons.prems False by (intro Cons.IH) auto
    finally show ?thesis by (simp add: adv_def)
  qed
qed

subsection \<open>The evaluator on each phrase\<close>

definition fac_ok :: "fac \<Rightarrow> bool" where
  "fac_ok f \<longleftrightarrow> (\<forall>s n c v. fac_wf f \<longrightarrow> at s (txtpos s) (fac_text f @ [c]) \<longrightarrow> follow_f (fac_open f) c \<longrightarrow> ready s \<longrightarrow>
     fac_val (program s) (variables_begin s) f = Some v \<longrightarrow> 6 * length (fac_text f) + 2 \<le> n \<longrightarrow>
     yields (expr4 n s) v s (length (fac_text f)))"

definition trm_ok :: "trm \<Rightarrow> bool" where
  "trm_ok t \<longleftrightarrow> (\<forall>s n c v. trm_wf t \<longrightarrow> at s (txtpos s) (trm_text t @ [c]) \<longrightarrow> follow_t (trm_open t) c \<longrightarrow> ready s \<longrightarrow>
     trm_val (program s) (variables_begin s) t = Some v \<longrightarrow> 6 * length (trm_text t) + 3 \<le> n \<longrightarrow>
     yields (expr3 n s) v s (length (trm_text t)))"

definition mops_ok :: "mops \<Rightarrow> bool" where
  "mops_ok r \<longleftrightarrow> (\<forall>s n c a v. mops_wf r \<longrightarrow> at s (txtpos s) (mops_text r @ [c]) \<longrightarrow> follow_m (mops_open False r) c \<longrightarrow> ready s \<longrightarrow>
     mops_val (program s) (variables_begin s) r a = Some v \<longrightarrow> 6 * length (mops_text r) + 1 \<le> n \<longrightarrow>
     yields (expr3_loop n a s) v s (length (mops_text r)))"

definition sm_ok :: "sm \<Rightarrow> bool" where
  "sm_ok a \<longleftrightarrow> (\<forall>s n c v. sm_wf a \<longrightarrow> at s (txtpos s) (sm_text a @ [c]) \<longrightarrow> follow_s (sm_open a) c \<longrightarrow> ready s \<longrightarrow>
     sm_val (program s) (variables_begin s) a = Some v \<longrightarrow> 6 * length (sm_text a) + 4 \<le> n \<longrightarrow>
     yields (expr2 n s) v s (length (sm_text a)))"

definition sops_ok :: "sops \<Rightarrow> bool" where
  "sops_ok r \<longleftrightarrow> (\<forall>s n c a v. sops_wf r \<longrightarrow> at s (txtpos s) (sops_text r @ [c]) \<longrightarrow> follow_s (sops_open False r) c \<longrightarrow> ready s \<longrightarrow>
     sops_val (program s) (variables_begin s) r a = Some v \<longrightarrow> 6 * length (sops_text r) + 1 \<le> n \<longrightarrow>
     yields (expr2_loop n a s) v s (length (sops_text r)))"

definition exp_ok :: "exp \<Rightarrow> bool" where
  "exp_ok e \<longleftrightarrow> (\<forall>s n c v. exp_wf e \<longrightarrow> at s (txtpos s) (exp_text e @ [c]) \<longrightarrow> follow_e (exp_open e) c \<longrightarrow> ready s \<longrightarrow>
     exp_val (program s) (variables_begin s) e = Some v \<longrightarrow> 6 * length (exp_text e) + 5 \<le> n \<longrightarrow>
     yields (expression_f n s) v s (length (exp_text e)))"

lemma fac_okD:
  "fac_ok f \<Longrightarrow> fac_wf f \<Longrightarrow> at s (txtpos s) (fac_text f @ [c]) \<Longrightarrow> follow_f (fac_open f) c \<Longrightarrow> ready s \<Longrightarrow>
   fac_val (program s) (variables_begin s) f = Some v \<Longrightarrow> 6 * length (fac_text f) + 2 \<le> n \<Longrightarrow>
   yields (expr4 n s) v s (length (fac_text f))"
  unfolding fac_ok_def by blast

lemma mops_okD:
  "mops_ok r \<Longrightarrow> mops_wf r \<Longrightarrow> at s (txtpos s) (mops_text r @ [c]) \<Longrightarrow> follow_m (mops_open False r) c \<Longrightarrow> ready s \<Longrightarrow>
   mops_val (program s) (variables_begin s) r a = Some v \<Longrightarrow> 6 * length (mops_text r) + 1 \<le> n \<Longrightarrow>
   yields (expr3_loop n a s) v s (length (mops_text r))"
  unfolding mops_ok_def by blast

lemma trm_okD:
  "trm_ok t \<Longrightarrow> trm_wf t \<Longrightarrow> at s (txtpos s) (trm_text t @ [c]) \<Longrightarrow> follow_t (trm_open t) c \<Longrightarrow> ready s \<Longrightarrow>
   trm_val (program s) (variables_begin s) t = Some v \<Longrightarrow> 6 * length (trm_text t) + 3 \<le> n \<Longrightarrow>
   yields (expr3 n s) v s (length (trm_text t))"
  unfolding trm_ok_def by blast

lemma sops_okD:
  "sops_ok r \<Longrightarrow> sops_wf r \<Longrightarrow> at s (txtpos s) (sops_text r @ [c]) \<Longrightarrow> follow_s (sops_open False r) c \<Longrightarrow> ready s \<Longrightarrow>
   sops_val (program s) (variables_begin s) r a = Some v \<Longrightarrow> 6 * length (sops_text r) + 1 \<le> n \<Longrightarrow>
   yields (expr2_loop n a s) v s (length (sops_text r))"
  unfolding sops_ok_def by blast

lemma sm_okD:
  "sm_ok a \<Longrightarrow> sm_wf a \<Longrightarrow> at s (txtpos s) (sm_text a @ [c]) \<Longrightarrow> follow_s (sm_open a) c \<Longrightarrow> ready s \<Longrightarrow>
   sm_val (program s) (variables_begin s) a = Some v \<Longrightarrow> 6 * length (sm_text a) + 4 \<le> n \<Longrightarrow>
   yields (expr2 n s) v s (length (sm_text a))"
  unfolding sm_ok_def by blast

lemma exp_okD:
  "exp_ok e \<Longrightarrow> exp_wf e \<Longrightarrow> at s (txtpos s) (exp_text e @ [c]) \<Longrightarrow> follow_e (exp_open e) c \<Longrightarrow> ready s \<Longrightarrow>
   exp_val (program s) (variables_begin s) e = Some v \<Longrightarrow> 6 * length (exp_text e) + 5 \<le> n \<Longrightarrow>
   yields (expression_f n s) v s (length (exp_text e))"
  unfolding exp_ok_def by blast

lemma fac_text_nonempty [simp]: "fac_text f \<noteq> []"
  by (cases f) auto

lemma fuel_SucE: "k + 1 \<le> n \<Longrightarrow> (\<And>m. n = Suc m \<Longrightarrow> k \<le> m \<Longrightarrow> P) \<Longrightarrow> P"
  by (cases n) auto

lemma mops_ok_Nil: "mops_ok MNil"
  unfolding mops_ok_def
  by (auto simp: rd_def follow_m_def intro: yields_here elim!: fuel_SucE[of 0, simplified])

lemma mops_tail:
  assumes "fac_ok f" and "mops_ok r" and "fac_wf f" and "mops_wf r"
    and tx: "at s (Suc (txtpos s)) (fac_text f @ mops_text r @ [c])" and c: "follow_m (mops_open (fac_open f) r) c"
    and s: "ready s" and b: "fac_val (program s) (variables_begin s) f = Some b"
    and v: "mops_val (program s) (variables_begin s) r a = Some v"
    and n: "6 * (length (fac_text f) + length (mops_text r)) + 6 \<le> m"
    and k: "\<And>s'. k (b, s') = expr3_loop m a s'"
  shows "yields (bnd (expr4 m (adv s)) k) v s (Suc (length (fac_text f) + length (mops_text r)))"
proof (rule yields_step_adv, rule yields_bnd)
  have t1: "at (adv s) (txtpos (adv s)) (fac_text f @ [hd (mops_text r @ [c])])"
    using tx at_hd[of s "Suc (txtpos s) + length (fac_text f)" "mops_text r" c]
    by (simp add: at_append)
  then show "yields (expr4 m (adv s)) b (adv s) (length (fac_text f))"
    using assms follow_mops[OF c] by (intro fac_okD) auto
  fix i s'
  assume s': "s' = adv s\<lparr>txtpos := txtpos (adv s) + length (fac_text f), table_index := i\<rparr>"
  have "yields (expr3_loop m a s') v s' (length (mops_text r))"
    using assms mops_open_weak[OF c] by (intro mops_okD) (auto simp: s' at_append)
  then show "yields (k (b, s')) v s' (length (mops_text r))"
    by (simp add: k)
qed simp

lemma mops_ok_Mul:
  assumes "fac_ok f" and "mops_ok r"
  shows "mops_ok (MMul f r)"
  unfolding mops_ok_def
proof (intro allI impI)
  fix s n c a v
  assume wf: "mops_wf (MMul f r)" and tx: "at s (txtpos s) (mops_text (MMul f r) @ [c])"
    and c: "follow_m (mops_open False (MMul f r)) c" and s: "ready s"
    and v: "mops_val (program s) (variables_begin s) (MMul f r) a = Some v"
    and n: "6 * length (mops_text (MMul f r)) + 1 \<le> n"
  from v obtain b where b: "fac_val (program s) (variables_begin s) f = Some b"
    and rest: "mops_val (program s) (variables_begin s) r (a * b) = Some v"
    by (auto simp: bind_eq_Some_conv)
  obtain m where m: "n = Suc m" using n by (cases n) auto
  have "yields (bnd (expr4 m (adv s)) (\<lambda>(b, s). expr3_loop m (a * b) s)) v s
      (Suc (length (fac_text f) + length (mops_text r)))"
    using wf tx n m c by (intro mops_tail[OF assms _ _ _ c[unfolded mops_open.simps] s b rest]) auto
  then show "yields (expr3_loop n a s) v s (length (mops_text (MMul f r)))"
    using tx by (simp add: m rd_def)
qed

lemma div_val_quot: "div_val a b = Some q \<Longrightarrow> b \<noteq> 0 \<and> s64_quot a b = Ok q"
  by (auto simp: div_val_def s64_quot_def split: if_splits)

lemma mops_ok_Div:
  assumes "fac_ok f" and "mops_ok r"
  shows "mops_ok (MDiv f r)"
  unfolding mops_ok_def
proof (intro allI impI)
  fix s n c a v
  assume wf: "mops_wf (MDiv f r)" and tx: "at s (txtpos s) (mops_text (MDiv f r) @ [c])"
    and c: "follow_m (mops_open False (MDiv f r)) c" and s: "ready s"
    and v: "mops_val (program s) (variables_begin s) (MDiv f r) a = Some v"
    and n: "6 * length (mops_text (MDiv f r)) + 1 \<le> n"
  from v obtain b q where b: "fac_val (program s) (variables_begin s) f = Some b"
    and q: "div_val a b = Some q"
    and rest: "mops_val (program s) (variables_begin s) r q = Some v"
    by (auto simp: bind_eq_Some_conv)
  obtain m where m: "n = Suc m" using n by (cases n) auto
  have "yields (bnd (expr4 m (adv s)) (\<lambda>(b, s). if b \<noteq> 0
        then bnd (s64_quot a b) (\<lambda>a. expr3_loop m a s)
        else expr3_loop m a (s\<lparr>expression_error := True\<rparr>))) v s
      (Suc (length (fac_text f) + length (mops_text r)))"
    using wf tx n m c div_val_quot[OF q] by (intro mops_tail[OF assms _ _ _ c[unfolded mops_open.simps] s b rest]) auto
  then show "yields (expr3_loop n a s) v s (length (mops_text (MDiv f r)))"
    using tx by (simp add: m rd_def)
qed

text \<open>A product may even be followed by a blank, unless it is a single factor.\<close>

lemma trm_yields:
  assumes "fac_ok f" and "mops_ok r"
    and wf: "trm_wf (Trm f r)" and tx: "at s (txtpos s) (trm_text (Trm f r) @ [c])"
    and cm: "follow_m (trm_open (Trm f r)) c" and nb: "\<not> blank (hd (mops_text r @ [c]))" and s: "ready s"
    and v: "trm_val (program s) (variables_begin s) (Trm f r) = Some v"
    and n: "6 * length (trm_text (Trm f r)) + 3 \<le> n"
  shows "yields (expr3 n s) v s (length (trm_text (Trm f r)))"
proof -
  from v obtain b where b: "fac_val (program s) (variables_begin s) f = Some b"
    and rest: "mops_val (program s) (variables_begin s) r b = Some v"
    by (auto simp: bind_eq_Some_conv)
  obtain m where m: "n = Suc m" using n by (cases n) auto
  have nxt: "at s (txtpos s + length (fac_text f)) [hd (mops_text r @ [c])]"
    using tx by (intro at_hd) (simp add: at_append)
  show ?thesis
    unfolding m expr3.simps
  proof (rule yields_bnd)
    show "yields (expr4 m s) b s (length (fac_text f))"
      using tx nxt wf s b n m follow_mops[OF cm[unfolded trm_open.simps]]
      by (intro fac_okD[OF assms(1)]) (auto simp: at_append)
    fix i s'
    assume s': "s' = s\<lparr>txtpos := txtpos s + length (fac_text f), table_index := i\<rparr>"
    have "ignore_blanks s' = Ok s'"
      using nxt nb by (intro ignore_blanks_id) (auto simp: s')
    moreover have "yields (expr3_loop m b s') v s' (length (mops_text r))"
      using wf tx mops_open_weak[OF cm[unfolded trm_open.simps]] s rest n m by (intro mops_okD[OF assms(2)]) (auto simp: s' at_append)
    ultimately show "yields (case (b, s') of (a, s) \<Rightarrow> bnd (ignore_blanks s) (expr3_loop m a)) v s'
        (length (mops_text r))"
      by simp
  qed simp
qed

lemma trm_ok_Trm:
  assumes "fac_ok f" and "mops_ok r"
  shows "trm_ok (Trm f r)"
  unfolding trm_ok_def
proof (intro allI impI)
  fix s n c v
  assume wf: "trm_wf (Trm f r)" "at s (txtpos s) (trm_text (Trm f r) @ [c])"
    and c: "follow_t (trm_open (Trm f r)) c" and v: "ready s"
    "trm_val (program s) (variables_begin s) (Trm f r) = Some v" "6 * length (trm_text (Trm f r)) + 3 \<le> n"
  have "follow_m (trm_open (Trm f r)) c" "\<not> blank (hd (mops_text r @ [c]))"
    using c by (auto simp: follow_t_def hd_mops blank_def split: mops.split)
  from trm_yields[OF assms wf this v] show "yields (expr3 n s) v s (length (trm_text (Trm f r)))" .
qed

lemma sops_ok_Nil: "sops_ok SNil"
  unfolding sops_ok_def
  by (auto simp: rd_def follow_s_def intro: yields_here elim!: fuel_SucE[of 0, simplified])

lemma sops_tail:
  assumes "trm_ok t" and "sops_ok r" and "trm_wf t" and "sops_wf r"
    and tx: "at s (Suc (txtpos s)) (trm_text t @ sops_text r @ [c])" and c: "follow_s (sops_open (trm_open t) r) c"
    and s: "ready s" and b: "trm_val (program s) (variables_begin s) t = Some b"
    and v: "sops_val (program s) (variables_begin s) r a = Some v"
    and n: "6 * (length (trm_text t) + length (sops_text r)) + 6 \<le> m"
    and k: "\<And>s'. k (b, s') = expr2_loop m a s'"
  shows "yields (bnd (expr3 m (adv s)) k) v s (Suc (length (trm_text t) + length (sops_text r)))"
proof (rule yields_step_adv, rule yields_bnd)
  have t1: "at (adv s) (txtpos (adv s)) (trm_text t @ [hd (sops_text r @ [c])])"
    using tx at_hd[of s "Suc (txtpos s) + length (trm_text t)" "sops_text r" c]
    by (simp add: at_append)
  then show "yields (expr3 m (adv s)) b (adv s) (length (trm_text t))"
    using assms follow_sops[OF c] by (intro trm_okD) auto
  fix i s'
  assume s': "s' = adv s\<lparr>txtpos := txtpos (adv s) + length (trm_text t), table_index := i\<rparr>"
  have "yields (expr2_loop m a s') v s' (length (sops_text r))"
    using assms sops_open_weak[OF c] by (intro sops_okD) (auto simp: s' at_append)
  then show "yields (k (b, s')) v s' (length (sops_text r))"
    by (simp add: k)
qed simp

lemma sops_ok_Add:
  assumes "trm_ok t" and "sops_ok r"
  shows "sops_ok (SAdd t r)"
  unfolding sops_ok_def
proof (intro allI impI)
  fix s n c a v
  assume wf: "sops_wf (SAdd t r)" and tx: "at s (txtpos s) (sops_text (SAdd t r) @ [c])"
    and c: "follow_s (sops_open False (SAdd t r)) c" and s: "ready s"
    and v: "sops_val (program s) (variables_begin s) (SAdd t r) a = Some v"
    and n: "6 * length (sops_text (SAdd t r)) + 1 \<le> n"
  from v obtain b where b: "trm_val (program s) (variables_begin s) t = Some b"
    and rest: "sops_val (program s) (variables_begin s) r (a + b) = Some v"
    by (auto simp: bind_eq_Some_conv)
  obtain m where m: "n = Suc m" using n by (cases n) auto
  have "yields (bnd (expr3 m (adv s)) (\<lambda>(b, s). expr2_loop m (a + b) s)) v s
      (Suc (length (trm_text t) + length (sops_text r)))"
    using wf tx n m c by (intro sops_tail[OF assms _ _ _ c[unfolded sops_open.simps] s b rest]) auto
  then show "yields (expr2_loop n a s) v s (length (sops_text (SAdd t r)))"
    using tx by (simp add: m rd_def)
qed

lemma sops_ok_Sub:
  assumes "trm_ok t" and "sops_ok r"
  shows "sops_ok (SSub t r)"
  unfolding sops_ok_def
proof (intro allI impI)
  fix s n c a v
  assume wf: "sops_wf (SSub t r)" and tx: "at s (txtpos s) (sops_text (SSub t r) @ [c])"
    and c: "follow_s (sops_open False (SSub t r)) c" and s: "ready s"
    and v: "sops_val (program s) (variables_begin s) (SSub t r) a = Some v"
    and n: "6 * length (sops_text (SSub t r)) + 1 \<le> n"
  from v obtain b where b: "trm_val (program s) (variables_begin s) t = Some b"
    and rest: "sops_val (program s) (variables_begin s) r (a - b) = Some v"
    by (auto simp: bind_eq_Some_conv)
  obtain m where m: "n = Suc m" using n by (cases n) auto
  have "yields (bnd (expr3 m (adv s)) (\<lambda>(b, s). expr2_loop m (a - b) s)) v s
      (Suc (length (trm_text t) + length (sops_text r)))"
    using wf tx n m c by (intro sops_tail[OF assms _ _ _ c[unfolded sops_open.simps] s b rest]) auto
  then show "yields (expr2_loop n a s) v s (length (sops_text (SSub t r)))"
    using tx by (simp add: m rd_def)
qed

text \<open>The first character of a phrase.\<close>

definition start_ch :: "u8 \<Rightarrow> bool" where
  "start_ch c \<longleftrightarrow> is_digit_ch c \<or> is_letter c \<or> c = ch (CHR ''('')"

lemma start_fac: "fac_wf f \<Longrightarrow> \<not> signed_fac f \<Longrightarrow> start_ch (hd (fac_text f))"
proof (cases f)
  case (Num n)
  then show ?thesis
    using dec_digits_are_digits[of n] dec_digits_nonempty[of n]
    by (cases "dec_digits n") (auto simp: start_ch_def)
next
  case (Fn g e)
  then show ?thesis by (cases g) (auto simp: start_ch_def is_letter_def)
qed (auto simp: start_ch_def)

lemma start_ch_facts:
  "start_ch c \<Longrightarrow> c \<noteq> 43 \<and> c \<noteq> 45 \<and> c \<noteq> 61 \<and> c \<noteq> 62 \<and> c \<noteq> 32 \<and> c \<noteq> 9"
  by (auto simp: start_ch_def is_digit_ch_def is_letter_def)

lemma start_trm: "trm_wf (Trm f r) \<Longrightarrow> \<not> signed_fac f \<Longrightarrow> start_ch (hd (trm_text (Trm f r)))"
  using start_fac[of f] by simp

lemma sm_ok_Sm:
  assumes "trm_ok t" and "sops_ok r"
  shows "sm_ok (Sm t r)"
  unfolding sm_ok_def
proof (intro allI impI)
  fix s n c v
  assume wf: "sm_wf (Sm t r)" and tx: "at s (txtpos s) (sm_text (Sm t r) @ [c])"
    and c: "follow_s (sm_open (Sm t r)) c" and s: "ready s"
    and v: "sm_val (program s) (variables_begin s) (Sm t r) = Some v"
    and n: "6 * length (sm_text (Sm t r)) + 4 \<le> n"
  from v obtain b where b: "trm_val (program s) (variables_begin s) t = Some b"
    and rest: "sops_val (program s) (variables_begin s) r b = Some v"
    by (auto simp: bind_eq_Some_conv)
  obtain m where m: "n = Suc m" using n by (cases n) auto
  have start: "start_ch (hd (trm_text t))" and ne: "trm_text t \<noteq> []"
    using wf start_trm by (cases t; auto)+
  then have here: "rd (txtpos s) s = Ok (hd (trm_text t))"
    using tx by (cases "trm_text t") (auto simp: rd_def)
  have nxt: "at s (txtpos s + length (trm_text t)) [hd (sops_text r @ [c])]"
    using tx by (intro at_hd) (simp add: at_append)
  have "yields (bnd (expr3 m s) (\<lambda>(a, s). expr2_loop m a s)) v s (length (sm_text (Sm t r)))"
  proof (rule yields_bnd)
    show "yields (expr3 m s) b s (length (trm_text t))"
      using tx nxt wf s b n m follow_sops[OF c[unfolded sm_open.simps]]
      by (intro trm_okD[OF assms(1)]) (auto simp: at_append)
    fix i s'
    assume s': "s' = s\<lparr>txtpos := txtpos s + length (trm_text t), table_index := i\<rparr>"
    have "yields (expr2_loop m b s') v s' (length (sops_text r))"
      using wf tx sops_open_weak[OF c[unfolded sm_open.simps]] s rest n m by (intro sops_okD[OF assms(2)]) (auto simp: s' at_append)
    then show "yields (case (b, s') of (a, s) \<Rightarrow> expr2_loop m a s) v s' (length (sops_text r))"
      by simp
  qed simp
  then show "yields (expr2 n s) v s (length (sm_text (Sm t r)))"
    using here start_ch_facts[OF start] by (simp add: m)
qed

lemma sm_ok_Sg:
  assumes "sops_ok r"
  shows "sm_ok (Sg r)"
  unfolding sm_ok_def
proof (intro allI impI)
  fix s n c v
  assume wf: "sm_wf (Sg r)" and tx: "at s (txtpos s) (sm_text (Sg r) @ [c])"
    and c: "follow_s (sm_open (Sg r)) c" and s: "ready s"
    and v: "sm_val (program s) (variables_begin s) (Sg r) = Some v"
    and n: "6 * length (sm_text (Sg r)) + 4 \<le> n"
  obtain m where m: "n = Suc m" using n by (cases n) auto
  have "rd (txtpos s) s = Ok 43 \<or> rd (txtpos s) s = Ok 45"
    using wf tx by (cases r) (auto simp: rd_def)
  moreover have "yields (expr2_loop m 0 s) v s (length (sops_text r))"
    using wf tx c s v n m by (intro sops_okD[OF assms]) auto
  ultimately show "yields (expr2 n s) v s (length (sm_text (Sg r)))"
    by (auto simp: m)
qed

subsection \<open>Comparisons\<close>

lemma scantable_relop_none:
  assumes "at s (txtpos s) [c]" and "follow_e b c"
  shows "scantable relop_tab s = Ok (s\<lparr>table_index := RELOP_UNKNOWN\<rparr>)"
  using assms by (simp add: scantable_def relop_tab_def rd_def follow_e_def RELOP_UNKNOWN_def)

fun rop_index :: "rop \<Rightarrow> nat" where
  "rop_index Ge = RELOP_GE"
| "rop_index Ne = RELOP_NE"
| "rop_index Gt = RELOP_GT"
| "rop_index Eq = RELOP_EQ"
| "rop_index Le = RELOP_LE"
| "rop_index Lt = RELOP_LT"
| "rop_index NeBang = RELOP_NE_BANG"

lemma relop_rop_val: "relop (rop_index r) a b = rop_val r a b"
  by (cases r) (auto simp: relop_def relop_consts word_sle_eq word_sless_alt)

lemma rop_index_known: "rop_index r \<noteq> RELOP_UNKNOWN"
  by (cases r) (auto simp: relop_consts)

lemma scantable_relop:
  assumes "at s (txtpos s) (rop_text r @ [c])" and "c \<noteq> 61 \<and> c \<noteq> 62 \<and> c \<noteq> 32 \<and> c \<noteq> 9"
  shows "scantable relop_tab s =
    Ok (s\<lparr>txtpos := txtpos s + length (rop_text r), table_index := rop_index r\<rparr>)"
proof -
  have ib: "ignore_blanks (s\<lparr>table_index := i, txtpos := txtpos s + length (rop_text r)\<rparr>) =
      Ok (s\<lparr>txtpos := txtpos s + length (rop_text r), table_index := i\<rparr>)" for i
    using assms ignore_blanks_id[of "s\<lparr>table_index := i, txtpos := txtpos s + length (rop_text r)\<rparr>" c]
    by (simp add: at_append blank_def)
  show ?thesis
    using assms ib by (cases r) (auto simp: scantable_def relop_tab_def rd_def relop_consts)
qed

lemma follow_rop: "follow_s b (hd (rop_text r @ xs))"
  by (cases r) (auto simp: follow_defs)

lemma start_sm:
  assumes "sm_wf a"
  shows "sm_text a \<noteq> []" and "hd (sm_text a) \<noteq> 61 \<and> hd (sm_text a) \<noteq> 62 \<and> hd (sm_text a) \<noteq> 32 \<and> hd (sm_text a) \<noteq> 9"
proof -
  have "sm_text a \<noteq> [] \<and> (start_ch (hd (sm_text a)) \<or> hd (sm_text a) = 43 \<or> hd (sm_text a) = 45)"
  proof (cases a)
    case (Sm t r)
    moreover obtain f q where "t = Trm f q" by (cases t)
    ultimately show ?thesis using assms start_fac[of f] by simp
  next
    case (Sg r)
    then show ?thesis using assms by (cases r) auto
  qed
  then show "sm_text a \<noteq> []" and "hd (sm_text a) \<noteq> 61 \<and> hd (sm_text a) \<noteq> 62 \<and> hd (sm_text a) \<noteq> 32 \<and> hd (sm_text a) \<noteq> 9"
    using start_ch_facts[of "hd (sm_text a)"] by auto
qed

lemma exp_ok_Ex:
  assumes "sm_ok a"
  shows "exp_ok (Ex a)"
  unfolding exp_ok_def
proof (intro allI impI)
  fix s n c v
  assume wf: "exp_wf (Ex a)" and tx: "at s (txtpos s) (exp_text (Ex a) @ [c])"
    and c: "follow_e (exp_open (Ex a)) c" and s: "ready s"
    and v: "exp_val (program s) (variables_begin s) (Ex a) = Some v"
    and n: "6 * length (exp_text (Ex a)) + 5 \<le> n"
  obtain m where m: "n = Suc m" using n by (cases n) auto
  show "yields (expression_f n s) v s (length (exp_text (Ex a)))"
    unfolding m expression_f.simps
  proof (rule yields_bnd)
    show "yields (expr2 m s) v s (length (sm_text a))"
      using wf tx c s v n m by (intro sm_okD[OF assms]) (auto simp: follow_e_def)
    fix i s'
    assume s': "s' = s\<lparr>txtpos := txtpos s + length (sm_text a), table_index := i\<rparr>"
    have "scantable relop_tab s' = Ok (s'\<lparr>table_index := RELOP_UNKNOWN\<rparr>)"
      using tx c by (intro scantable_relop_none) (auto simp: s' at_append)
    moreover have "\<not> expression_error s'" using s by (simp add: s' ready_def)
    ultimately show "yields (case (v, s') of (a, s) \<Rightarrow> if expression_error s then Ok (a, s)
        else bnd (scantable relop_tab s) (\<lambda>s. if table_index s = RELOP_UNKNOWN then Ok (a, s)
          else let i = table_index s
            in bnd (expr2 m s) (\<lambda>(b, s). Ok (if relop i a b then 1 else 0, s)))) v s' 0"
      using yieldsI[where v = v and s = s' and k = 0 and i = RELOP_UNKNOWN] by (simp add: s')
  qed simp
qed

lemma exp_ok_Rel:
  assumes "sm_ok a" and "sm_ok b"
  shows "exp_ok (Rel r a b)"
  unfolding exp_ok_def
proof (intro allI impI)
  fix s n c v
  assume wf: "exp_wf (Rel r a b)" and tx: "at s (txtpos s) (exp_text (Rel r a b) @ [c])"
    and c: "follow_e (exp_open (Rel r a b)) c" and s: "ready s"
    and v: "exp_val (program s) (variables_begin s) (Rel r a b) = Some v"
    and n: "6 * length (exp_text (Rel r a b)) + 5 \<le> n"
  from v obtain x y where x: "sm_val (program s) (variables_begin s) a = Some x"
    and y: "sm_val (program s) (variables_begin s) b = Some y"
    and vxy: "v = (if rop_val r x y then 1 else 0)"
    by (auto simp: bind_eq_Some_conv)
  obtain m where m: "n = Suc m" using n by (cases n) auto
  let ?c1 = "hd (rop_text r @ sm_text b @ [c])"
  let ?c2 = "hd (sm_text b @ [c])"
  have c1: "at s (txtpos s + length (sm_text a)) [?c1]"
    using tx at_hd[of s "txtpos s + length (sm_text a)" "rop_text r @ sm_text b" c]
    by (simp add: at_append)
  have c2: "at s (txtpos s + length (sm_text a)) (rop_text r @ [?c2])"
    using tx at_hd[of s "txtpos s + length (sm_text a) + length (rop_text r)" "sm_text b" c]
    by (simp add: at_append add.assoc)
  show "yields (expression_f n s) v s (length (exp_text (Rel r a b)))"
    unfolding m expression_f.simps
  proof (rule yields_bnd)
    show "yields (expr2 m s) x s (length (sm_text a))"
      using wf tx c1 s x n m follow_rop
      by (intro sm_okD[OF assms(1)]) (auto simp: at_append)
    fix i s'
    assume s': "s' = s\<lparr>txtpos := txtpos s + length (sm_text a), table_index := i\<rparr>"
    define s2 where "s2 = s'\<lparr>txtpos := txtpos s' + length (rop_text r), table_index := rop_index r\<rparr>"
    have scan: "scantable relop_tab s' = Ok s2"
      unfolding s2_def using c2 start_sm[of b] wf by (intro scantable_relop[of _ _ ?c2]) (auto simp: s')
    have "yields (expr2 m s2) y s2 (length (sm_text b))"
      using wf tx c s y n m
      by (intro sm_okD[OF assms(2)]) (auto simp: s2_def s' at_append add.assoc follow_e_def)
    then have "yields (bnd (expr2 m s2) (\<lambda>(b, s). Ok (if relop (rop_index r) x b then 1 else 0, s))) v s2
        (length (sm_text b))"
      by (rule yields_bnd[where k = 0]) (auto simp: relop_rop_val vxy intro: yields_here)
    then show "yields (case (x, s') of (a, s) \<Rightarrow> if expression_error s then Ok (a, s)
        else bnd (scantable relop_tab s) (\<lambda>s. if table_index s = RELOP_UNKNOWN then Ok (a, s)
          else let i = table_index s
            in bnd (expr2 m s) (\<lambda>(b, s). Ok (if relop i a b then 1 else 0, s)))) v s'
        (length (rop_text r) + length (sm_text b))"
      using scan s rop_index_known[of r]
        yields_step[where s = s' and j = "length (rop_text r)" and i = "rop_index r"]
      by (simp add: s2_def ready_def s')
  qed simp
qed

subsection \<open>Factors\<close>

lemma hd_dec_digits: "0 < n \<Longrightarrow> 49 \<le> unat (hd (dec_digits n)) \<and> unat (hd (dec_digits n)) \<le> 57"
proof (induction n rule: dec_digits.induct)
  case (1 n)
  show ?case
  proof (cases "n < 10")
    case True
    with "1.prems" unat_digit[OF True] show ?thesis by (subst (1 2) dec_digits.simps) simp
  next
    case False
    then have "hd (dec_digits n) = hd (dec_digits (n div 10))"
      by (subst dec_digits.simps) (simp del: of_nat_add)
    with 1 False show ?thesis by simp
  qed
qed

lemma fac_ok_Num: "fac_ok (Num k)"
  unfolding fac_ok_def
proof (intro allI impI)
  fix s n c v
  assume tx: "at s (txtpos s) (fac_text (Num k) @ [c])" and c: "follow_f (fac_open (Num k)) c"
    and v: "fac_val (program s) (variables_begin s) (Num k) = Some v"
    and n: "6 * length (fac_text (Num k)) + 2 \<le> n"
  obtain m where m: "n = Suc m" using n by (cases n) auto
  let ?d = "hd (dec_digits k)"
  have d: "at s (txtpos s) [?d]" using tx by (cases "dec_digits k") auto
  have dig: "is_digit_ch ?d"
    using dec_digits_are_digits[of k] dec_digits_nonempty[of k] by (cases "dec_digits k") auto
  then have "ignore_blanks s = Ok s"
    using d by (intro ignore_blanks_id) (auto simp: is_digit_ch_def blank_def)
  moreover have "rd (txtpos s) s = Ok ?d" using d by (simp add: rd_def)
  moreover have "yields (expr4_num 0 s) v s (length (dec_digits k))"
    using expr4_num_digits[of s "dec_digits k" c 0] tx c v dec_digits_are_digits[of k]
      yieldsI[where s = s and k = "length (dec_digits k)" and i = "table_index s"]
    by (simp add: dec_val_dec_digits follow_f_def yields_def)
  moreover have "dec_digits 0 = [48]" by (subst dec_digits.simps) simp
  moreover have "?d \<noteq> 45" using dig by (auto simp: is_digit_ch_def)
  moreover have "0 < k \<Longrightarrow> ?d \<noteq> 48 \<and> 49 \<le> ?d \<and> ?d \<le> 57"
    using hd_dec_digits[of k] by (auto simp: word_le_nat_alt)
  ultimately show "yields (expr4 n s) v s (length (fac_text (Num k)))"
    using v yields_adv[of 0 s] by (cases "k = 0") (simp_all add: m)
qed

lemma fac_ok_Var: "fac_ok (Var x)"
  unfolding fac_ok_def
proof (intro allI impI)
  fix s n c v
  assume wf: "fac_wf (Var x)" and tx: "at s (txtpos s) (fac_text (Var x) @ [c])" and c: "follow_f (fac_open (Var x)) c"
    and s: "ready s" and v: "fac_val (program s) (variables_begin s) (Var x) = Some v"
    and n: "6 * length (fac_text (Var x)) + 2 \<le> n"
  obtain m where m: "n = Suc m" using n by (cases n) auto
  have "ignore_blanks s = Ok s"
    using tx wf by (intro ignore_blanks_id[of _ x]) (auto simp: is_letter_def blank_def)
  moreover have "ld_var x s = Ok v"
  proof -
    have "unat x - 65 \<le> 25" using wf by (auto simp: is_letter_def word_less_nat_alt not_less)
    then have "variables_begin s + 8 * (unat x - 65) + 8 \<le> kRamSize"
      using s by (simp add: ready_def)
    then show ?thesis
      using v wf by (simp add: ld_var_def ld_def var_addr_letter VAR_SIZE_def var_val_def)
  qed
  moreover have "x \<noteq> 45 \<and> x \<noteq> 48 \<and> \<not> (49 \<le> x \<and> x \<le> 57)"
    using wf by (auto simp: is_letter_def word_less_nat_alt word_le_nat_alt not_less)
  ultimately show "yields (expr4 n s) v s (length (fac_text (Var x)))"
    using tx wf c yields_adv[of v s] by (auto simp: m rd_def follow_f_def)
qed

lemma fac_ok_Neg:
  assumes "fac_ok f"
  shows "fac_ok (Neg f)"
  unfolding fac_ok_def
proof (intro allI impI)
  fix s n c v
  assume wf: "fac_wf (Neg f)" and tx: "at s (txtpos s) (fac_text (Neg f) @ [c])" and c: "follow_f (fac_open (Neg f)) c"
    and s: "ready s" and v: "fac_val (program s) (variables_begin s) (Neg f) = Some v"
    and n: "6 * length (fac_text (Neg f)) + 2 \<le> n"
  obtain m where m: "n = Suc m" using n by (cases n) auto
  from v obtain b where b: "fac_val (program s) (variables_begin s) f = Some b" "v = - b" by auto
  have "ignore_blanks s = Ok s"
    using tx by (intro ignore_blanks_id[of _ 45]) (auto simp: blank_def)
  moreover have "yields (expr4 m (adv s)) b (adv s) (length (fac_text f))"
    using wf tx c s b n m by (intro fac_okD[OF assms]) auto
  then have "yields (bnd (expr4 m (adv s)) (\<lambda>(a, s). Ok (- a, s))) v (adv s) (length (fac_text f))"
    by (rule yields_bnd[where k = 0]) (auto simp: b(2) intro: yields_here)
  ultimately show "yields (expr4 n s) v s (length (fac_text (Neg f)))"
    using tx yields_step_adv by (simp add: m rd_def)
qed

lemma paren_yields:
  assumes "exp_ok e" and "exp_wf e"
    and tx: "at s (Suc (txtpos s)) (exp_text e @ [ch (CHR '')'')])" and s: "ready s"
    and v: "exp_val (program s) (variables_begin s) e = Some a"
    and n: "6 * length (exp_text e) + 5 \<le> m"
    and k: "\<And>s'. program s' = program s \<Longrightarrow> yields (k a s') v s' 1"
  shows "yields (bnd (expression_f m (adv s)) (\<lambda>(a, s). bnd (rd (txtpos s) s) (\<lambda>c.
      if c \<noteq> ch (CHR '')'') then expr4_error s else k a s))) v s (length (exp_text e) + 2)"
proof -
  have "yields (bnd (expression_f m (adv s)) (\<lambda>(a, s). bnd (rd (txtpos s) s) (\<lambda>c.
      if c \<noteq> ch (CHR '')'') then expr4_error s else k a s))) v (adv s) (length (exp_text e) + 1)"
  proof (rule yields_bnd)
    show "yields (expression_f m (adv s)) a (adv s) (length (exp_text e))"
      using assms by (intro exp_okD) (auto simp: follow_defs)
    fix i s'
    assume s': "s' = adv s\<lparr>txtpos := txtpos (adv s) + length (exp_text e), table_index := i\<rparr>"
    have "rd (txtpos s') s' = Ok 41" using tx by (simp add: s' rd_def at_append)
    moreover have "yields (k a s') v s' 1" by (rule k) (simp add: s')
    ultimately show "yields (case (a, s') of (a, s) \<Rightarrow> bnd (rd (txtpos s) s) (\<lambda>c.
      if c \<noteq> ch (CHR '')'') then expr4_error s else k a s)) v s' 1"
      by simp
  qed simp
  then show ?thesis using yields_step_adv by simp
qed

lemma fac_ok_Par:
  assumes "exp_ok e"
  shows "fac_ok (Par e)"
  unfolding fac_ok_def
proof (intro allI impI)
  fix s n c v
  assume wf: "fac_wf (Par e)" and tx: "at s (txtpos s) (fac_text (Par e) @ [c])"
    and s: "ready s" and v: "fac_val (program s) (variables_begin s) (Par e) = Some v"
    and n: "6 * length (fac_text (Par e)) + 2 \<le> n"
  obtain m where m: "n = Suc (Suc m)" using n by (cases n; cases "n - 1") auto
  have "ignore_blanks s = Ok s"
    using tx by (intro ignore_blanks_id[of _ 40]) (auto simp: blank_def)
  moreover have "yields (bnd (expression_f m (adv s)) (\<lambda>(a, s). bnd (rd (txtpos s) s) (\<lambda>c.
      if c \<noteq> ch (CHR '')'') then expr4_error s else Ok (a, adv s)))) v s
      (length (exp_text e) + 2)"
    using wf tx s v n m by (intro paren_yields[OF assms]) (auto simp: at_append intro: yields_adv[simplified])
  ultimately show "yields (expr4 n s) v s (length (fac_text (Par e)))"
    using tx by (simp add: m rd_def is_letter_def)
qed

fun fn_index :: "fn \<Rightarrow> nat" where
  "fn_index FAbs = FUNC_ABS"
| "fn_index FRnd = FUNC_RND"
| "fn_index FPeek = FUNC_PEEK"

lemma scantable_fn:
  assumes "at s (txtpos s) (fn_text g @ [ch (CHR ''('')])"
  shows "scantable func_tab s =
    Ok (s\<lparr>txtpos := txtpos s + length (fn_text g), table_index := fn_index g\<rparr>)"
proof -
  have ib: "ignore_blanks (s\<lparr>table_index := i, txtpos := txtpos s + length (fn_text g)\<rparr>) =
      Ok (s\<lparr>txtpos := txtpos s + length (fn_text g), table_index := i\<rparr>)" for i
    using assms ignore_blanks_id[of "s\<lparr>table_index := i, txtpos := txtpos s + length (fn_text g)\<rparr>" 40]
    by (simp add: at_append blank_def)
  show ?thesis
    using assms ib by (cases g) (auto simp: scantable_def func_tab_def rd_def func_consts)
qed

lemma expr4_func_val:
  "fn_val (program s) g a = Some v \<Longrightarrow> expr4_func (fn_index g) a s = Ok (Some (v, s))"
  by (cases g) (auto simp: expr4_func_def func_consts rd_def split: if_splits)

lemma fn_text_letters:
  obtains x y zs where "fn_text g = x # y # zs" "is_letter x" "is_letter y"
    "x \<noteq> 45 \<and> x \<noteq> 48 \<and> \<not> (49 \<le> x \<and> x \<le> 57) \<and> \<not> blank x"
  by (cases g) (auto simp: is_letter_def blank_def)

lemma fac_ok_Fn:
  assumes "exp_ok e"
  shows "fac_ok (Fn g e)"
  unfolding fac_ok_def
proof (intro allI impI)
  fix s n c v
  assume wf: "fac_wf (Fn g e)" and tx: "at s (txtpos s) (fac_text (Fn g e) @ [c])"
    and s: "ready s" and v: "fac_val (program s) (variables_begin s) (Fn g e) = Some v"
    and n: "6 * length (fac_text (Fn g e)) + 2 \<le> n"
  obtain m where m: "n = Suc m" using n by (cases n) auto
  from v obtain a where a: "exp_val (program s) (variables_begin s) e = Some a"
    "fn_val (program s) g a = Some v" by (auto simp: bind_eq_Some_conv)
  obtain x y zs where g: "fn_text g = x # y # zs" "is_letter x" "is_letter y"
    "x \<noteq> 45 \<and> x \<noteq> 48 \<and> \<not> (49 \<le> x \<and> x \<le> 57) \<and> \<not> blank x" by (rule fn_text_letters)
  define s1 where "s1 = s\<lparr>txtpos := txtpos s + length (fn_text g), table_index := fn_index g\<rparr>"
  have ib: "ignore_blanks s = Ok s" using tx g by (intro ignore_blanks_id[of _ x]) auto
  have scan: "scantable func_tab s = Ok s1"
    unfolding s1_def using tx by (intro scantable_fn) (simp add: at_append)
  have open_paren: "rd (txtpos s1) s1 = Ok 40" using tx by (simp add: s1_def rd_def at_append)
  let ?k = "\<lambda>a s. bnd (expr4_func (fn_index g) a (adv s)) (\<lambda>r.
      case r of Some v \<Rightarrow> Ok v | None \<Rightarrow> expr4_paren m (adv s))"
  have "yields (bnd (expression_f m (adv s1)) (\<lambda>(a, s). bnd (rd (txtpos s) s) (\<lambda>c.
      if c \<noteq> ch (CHR '')'') then expr4_error s else ?k a s))) v s1 (length (exp_text e) + 2)"
  proof (rule paren_yields[OF assms])
    show "yields (?k a s') v s' 1" if "program s' = program s1" for s'
      using expr4_func_val[of "adv s'" g a v] a(2) that yields_adv[of v s'] by (simp add: s1_def)
  qed (use wf tx s a n m in \<open>auto simp: s1_def at_append\<close>)
  then have "yields (bnd (expression_f m (adv s1)) (\<lambda>(a, s). bnd (rd (txtpos s) s) (\<lambda>c.
      if c \<noteq> ch (CHR '')'') then expr4_error s else ?k a s))) v s (length (fac_text (Fn g e)))"
    unfolding s1_def by (rule yields_step) simp
  moreover have "table_index s1 = fn_index g" "fn_index g \<noteq> FUNC_UNKNOWN"
    by (simp_all add: s1_def) (cases g; simp add: func_consts)
  moreover have "rd (txtpos s) s = Ok x" "rd (Suc (txtpos s)) s = Ok y"
    using tx g by (auto simp: rd_def)
  ultimately show "yields (expr4 n s) v s (length (fac_text (Fn g e)))"
    using ib scan open_paren g by (auto simp: m)
qed

subsection \<open>All phrases\<close>

lemma grammar_ok:
  "fac_ok f" "trm_ok t" "mops_ok mr" "sm_ok a" "sops_ok sr" "exp_ok e"
  by (induction f and t and mr and a and sr and e)
    (auto intro: fac_ok_Num fac_ok_Var fac_ok_Neg fac_ok_Par fac_ok_Fn trm_ok_Trm
      mops_ok_Nil mops_ok_Mul mops_ok_Div sm_ok_Sm sm_ok_Sg sops_ok_Nil sops_ok_Add sops_ok_Sub
      exp_ok_Ex exp_ok_Rel)

lemma at_bound: "at s p xs \<Longrightarrow> xs \<noteq> [] \<Longrightarrow> p + length xs \<le> kRamSize"
  using at_nth[of s p xs "length xs - 1"] by (cases xs) auto

lemma expression_yields:
  assumes "exp_wf e" and "at s (txtpos s) (exp_text e @ [c])" and "follow_e (exp_open e) c" and "ready s"
    and "exp_val (program s) (variables_begin s) e = Some v"
  shows "yields (expression s) v s (length (exp_text e))"
  unfolding expression_def
  using assms at_bound[OF assms(2)] by (intro exp_okD grammar_ok) (auto simp: expr_fuel_def)

end
