(* ===== verification/Basic_Edit.thy ===== *)
theory Basic_Edit
  imports Basic_Print
begin

text \<open>
  The line editor of \<open>src/basic.c\<close>: reading a line from the console into the buffer behind the
  program, folding it to upper case outside quotes, moving it to the top of the program memory,
  and merging a numbered line into the program.

  A program line is stored as its number (4 bytes), its total length (1 byte) and its text up to
  and including a newline.  \<open>findline\<close> walks these records; a record of length 0 makes the C loop
  spin for ever, which the model reports as \<open>Diverge\<close>.
\<close>

lemma ub_inchar_keys: "ub_inchar s = Ok (k, s') \<Longrightarrow> length (keys s') < length (keys s)"
  by (auto simp: ub_inchar_def split: list.splits)

function getln_loop :: "basic \<Rightarrow> basic res" where
  "getln_loop s = bnd (ub_inchar s) (\<lambda>(got, s).
     let c = ucast got :: u8
     in if c = NL \<or> c = CR_char then (let s = line_terminator s in wr (txtpos s) NL s)
        else if c = CTRLH then
          (if txtpos s = program_end s then getln_loop s
           else if txtpos s = 0 then Stop Fault
           else getln_loop (ub_backspace (s\<lparr>txtpos := txtpos s - 1\<rparr>)))
        else if txtpos s = variables_begin s - 2 then getln_loop (ub_outchar BELL s)
        else bnd (wr (txtpos s) c s) (\<lambda>s.
               getln_loop (ub_outchar c (s\<lparr>txtpos := Suc (txtpos s)\<rparr>))))"
  by pat_completeness auto
termination
  by (relation "measure (\<lambda>s. length (keys s))")
    (auto dest: ub_inchar_keys
      simp: ub_backspace_def OutputString_def ub_outchar_shown wr_def split: if_splits)

definition getln :: "u8 \<Rightarrow> basic \<Rightarrow> basic res" where
  "getln prompt s =
     (let s = ub_outchar prompt s
      in getln_loop (s\<lparr>txtpos := program_end s + sizeof_LINENUM\<rparr>))"

function findline_loop :: "nat \<Rightarrow> basic \<Rightarrow> nat res" where
  "findline_loop line s =
     (if line = program_end s then Ok line
      else bnd (ld_LINENUM line s) (\<lambda>n.
        if linenum s \<le> n then Ok line
        else bnd (rd (line + sizeof_LINENUM) s) (\<lambda>l.
          if l = 0 then Stop Diverge else findline_loop (line + unat l) s)))"
  by pat_completeness auto
termination
  by (relation "measure (\<lambda>(line, s). kRamSize - line)")
    (auto simp: rd_def unat_gt_0 intro!: diff_less_mono2 split: if_splits)

definition findline :: "basic \<Rightarrow> nat res" where
  "findline s = findline_loop (program_start s) s"

function toUppercase_loop :: "nat \<Rightarrow> u8 \<Rightarrow> basic \<Rightarrow> basic res" where
  "toUppercase_loop p quote s = bnd (rd p s) (\<lambda>c.
     if c = NL then Ok s
     else if c = quote then toUppercase_loop (Suc p) 0 s
     else if c = DQUOTE \<or> c = SQUOTE then toUppercase_loop (Suc p) c s
     else if quote = 0 \<and> ch (CHR ''a'') \<le> c \<and> c \<le> ch (CHR ''z'')
     then bnd (wr p (c + ch (CHR ''A'') - ch (CHR ''a'')) s) (\<lambda>s. toUppercase_loop (Suc p) quote s)
     else toUppercase_loop (Suc p) quote s)"
  by pat_completeness auto
termination
  by (relation "measure (\<lambda>(p, q, s). kRamSize - p)") (auto simp: rd_def split: if_splits)

definition toUppercaseBuffer :: "basic \<Rightarrow> basic res" where
  "toUppercaseBuffer s = toUppercase_loop (program_end s + sizeof_LINENUM) 0 s"

text \<open>The freshly entered line: find its end, then move it to the end of the program memory.\<close>

function find_eol :: "basic \<Rightarrow> basic res" where
  "find_eol s = bnd (rd (txtpos s) s) (\<lambda>c.
     if c \<noteq> NL then find_eol (s\<lparr>txtpos := Suc (txtpos s)\<rparr>) else Ok s)"
  by pat_completeness auto
termination
  by (relation "measure (\<lambda>s. kRamSize - txtpos s)") (auto simp: rd_def split: if_splits)

function shift_line :: "nat \<Rightarrow> basic \<Rightarrow> basic res" where
  "shift_line dest s = bnd (rd (txtpos s) s) (\<lambda>c. bnd (wr dest c s) (\<lambda>s.
     if txtpos s = program_end s + sizeof_LINENUM then Ok (s\<lparr>txtpos := dest\<rparr>)
     else if dest = 0 \<or> txtpos s = 0 then Stop Fault
     else shift_line (dest - 1) (s\<lparr>txtpos := txtpos s - 1\<rparr>)))"
  by pat_completeness auto
termination
  by (relation "measure (\<lambda>(d, s). d)") auto

definition move_to_top :: "basic \<Rightarrow> basic res" where
  "move_to_top s = bnd (find_eol (s\<lparr>txtpos := program_end s + sizeof_LINENUM\<rparr>)) (\<lambda>s.
     if variables_begin s = 0 then Stop Fault else shift_line (variables_begin s - 1) s)"

text \<open>The length of the line is counted in an \<open>unsigned char\<close>: without a newline among the next
  256 bytes the counter comes round and the loop never ends.\<close>

function linelen_loop :: "u8 \<Rightarrow> basic \<Rightarrow> u8 res" where
  "linelen_loop linelen s = bnd (rd (txtpos s + unat linelen) s) (\<lambda>c.
     if c \<noteq> NL then (if linelen = 255 then Stop Diverge else linelen_loop (linelen + 1) s)
     else Ok linelen)"
  by pat_completeness auto
termination
proof (relation "measure (\<lambda>(l, s). 255 - unat l)", goal_cases)
  case 1
  show ?case by simp
next
  case (2 l s c)
  then have "unat (l + 1) = Suc (unat l)" by (simp add: unat_u8_Suc)
  with unat_u8_less[of "l + 1"] show ?case by simp
qed

text \<open>Merging: remove a line with the same number, then make room and copy the new line in.\<close>

fun copy_down :: "nat \<Rightarrow> nat \<Rightarrow> nat \<Rightarrow> basic \<Rightarrow> (nat \<times> basic) res" where
  "copy_down 0 from dest s = Ok (dest, s)"
| "copy_down (Suc tomove) from dest s = bnd (rd from s) (\<lambda>c. bnd (wr dest c s) (\<lambda>s.
     copy_down tomove (Suc from) (Suc dest) s))"

definition remove_line :: "nat \<Rightarrow> basic \<Rightarrow> basic res" where
  "remove_line start s = bnd (rd (start + sizeof_LINENUM) s) (\<lambda>l.
     let from = start + unat l;
         tomove = (of_nat (program_end s) - of_nat from :: u32)
     in bnd (copy_down (unat tomove) from start s) (\<lambda>(dest, s). Ok (s\<lparr>program_end := dest\<rparr>)))"

fun copy_up :: "nat \<Rightarrow> nat \<Rightarrow> nat \<Rightarrow> basic \<Rightarrow> basic res" where
  "copy_up 0 from dest s = Ok s"
| "copy_up (Suc tomove) from dest s =
     (if from = 0 \<or> dest = 0 then Stop Fault
      else bnd (rd (from - 1) s) (\<lambda>c. bnd (wr (dest - 1) c s) (\<lambda>s.
             copy_up tomove (from - 1) (dest - 1) s)))"

fun copy_in :: "nat \<Rightarrow> nat \<Rightarrow> basic \<Rightarrow> (nat \<times> basic) res" where
  "copy_in 0 start s = Ok (start, s)"
| "copy_in (Suc n) start s = bnd (rd (txtpos s) s) (\<lambda>c. bnd (wr start c s) (\<lambda>s.
     copy_in n (Suc start) (s\<lparr>txtpos := Suc (txtpos s)\<rparr>)))"

text \<open>With no space at all between program and line the C loop would repeat unchanged.\<close>

definition space_to_make :: "u8 \<Rightarrow> basic \<Rightarrow> u32" where
  "space_to_make linelen s =
     (let space = (of_nat (txtpos s) - of_nat (program_end s) :: u32)
      in if ucast linelen < space then ucast linelen else space)"

function insert_loop :: "u8 \<Rightarrow> nat \<Rightarrow> basic \<Rightarrow> basic res" where
  "insert_loop linelen start s =
     (if linelen = 0 then Ok s
      else let space = space_to_make linelen s;
               newEnd = program_end s + unat space;
               tomove = (of_nat (program_end s) - of_nat start :: u32)
           in bnd (copy_up (unat tomove) (program_end s) newEnd s) (\<lambda>s.
                if space = 0 then Stop Diverge
                else bnd (copy_in (unat space) start s) (\<lambda>(start, s).
                       insert_loop (linelen - ucast space) start (s\<lparr>program_end := newEnd\<rparr>))))"
  by pat_completeness auto
termination
proof (relation "measure (\<lambda>(l, p, s). unat l)", goal_cases)
  case 1
  show ?case by simp
next
  case (2 l start s space newEnd tomove s1 p start' s2)
  then have le: "unat space \<le> unat l"
    by (auto simp: space_to_make_def Let_def word_less_nat_alt unat_ucast_u8_u32 not_less)
  moreover have "0 < unat space" using 2 by (simp add: unat_gt_0)
  ultimately have "unat l - unat space < unat l" by linarith
  then show ?case using le by (simp add: unat_sub_ucast_u32_u8)
qed

text \<open>A numbered line, from the count of its length to the insertion.\<close>

definition store_line :: "basic \<Rightarrow> basic res" where
  "store_line s = bnd (linelen_loop 0 s) (\<lambda>linelen.
     let linelen = linelen + 1;
         linelen = linelen + (of_nat sizeof_LINENUM + 1)
     in if txtpos s < sizeof_LINENUM + 1 then Stop Fault
        else let s = s\<lparr>txtpos := txtpos s - (sizeof_LINENUM + 1)\<rparr>
     in bnd (st_LINENUM (txtpos s) (linenum s) s) (\<lambda>s.
        bnd (wr (txtpos s + sizeof_LINENUM) linelen s) (\<lambda>s.
        bnd (findline s) (\<lambda>start.
        bnd (if start = program_end s then Ok s
             else bnd (ld_LINENUM start s) (\<lambda>n. if n = linenum s then remove_line start s else Ok s))
          (\<lambda>s.
        bnd (rd (txtpos s + sizeof_LINENUM + 1) s) (\<lambda>c.
          if c = NL then Ok s else insert_loop linelen start s))))))"

declare getln_loop.simps [simp del] findline_loop.simps [simp del] toUppercase_loop.simps [simp del]
  find_eol.simps [simp del] shift_line.simps [simp del] linelen_loop.simps [simp del]
  insert_loop.simps [simp del]

end
