(* ===== verification/Basic_Exec.thy ===== *)
theory Basic_Exec
  imports Basic_Edit Basic_Expr
begin

text \<open>
  \<open>basic_main\<close> of \<open>src/basic.c\<close> as a machine whose control state is the C label it is at.  Each
  label is one definition that runs to the next \<open>goto\<close>; \<open>step\<close> dispatches on the label and
  \<open>run\<close> iterates it.  The numbers given to \<open>PRINT_ERR\<close> are the source lines that print them.
\<close>

datatype label = L_warmstart | L_prompt | L_unimplemented | L_qhow | L_qwhat | L_qsorry
  | L_run_next_statement | L_direct | L_interperateAtTxtpos | L_execnextline | L_execline
  | L_input | L_inputagain u8 | L_forloop | L_gosub | L_next | L_gosub_return | L_assignment
  | L_poke | L_list | L_print | L_print_loop | L_mem | L_files | L_user | L_chain | L_load
  | L_save | L_rseed | L_return

type_synonym jump = "(label \<times> basic) res"

definition okmsg :: "u8 list" where "okmsg = str ''OK''"
definition whatmsg :: "u8 list" where "whatmsg = str ''What? ''"
definition howmsg :: "u8 list" where "howmsg = str ''How?''"
definition sorrymsg :: "u8 list" where "sorrymsg = str ''Sorry!''"
definition memorymsg :: "u8 list" where "memorymsg = str '' bytes free.''"
definition breakmsg :: "u8 list" where "breakmsg = str ''break!''"
definition unimplimentedmsg :: "u8 list" where "unimplimentedmsg = str ''Unimplemented''"

text \<open>An error report followed by a jump.\<close>

definition fail :: "string \<Rightarrow> label \<Rightarrow> basic \<Rightarrow> jump" where
  "fail line l s = Ok (l, PRINT_ERR line s)"

definition eval_expr :: "basic \<Rightarrow> (u64 \<times> basic) res" where
  "eval_expr s = expression (s\<lparr>expression_error := False\<rparr>)"

subsection \<open>Start and prompt\<close>

definition basic_init :: "basic \<Rightarrow> basic res" where
  "basic_init s =
     (let s = s\<lparr>program_start := 0\<rparr>;
          s = s\<lparr>program_end := program_start s\<rparr>;
          s = s\<lparr>sp := kRamSize\<rparr>;
          s = s\<lparr>stack_limit := kRamSize - STACK_SIZE\<rparr>;
          s = s\<lparr>variables_begin := stack_limit s - 27 * VAR_SIZE\<rparr>
      in bnd (printnum (of_nat (variables_begin s) - of_nat (program_end s)) s) (\<lambda>s.
           Ok (printmsg memorymsg s)))"

definition l_warmstart :: "basic \<Rightarrow> jump" where
  "l_warmstart s =
     (let s = s\<lparr>current_line := None\<rparr>;
          s = s\<lparr>sp := kRamSize\<rparr>
      in Ok (L_prompt, printmsg okmsg s))"

definition l_prompt :: "basic \<Rightarrow> jump" where
  "l_prompt s =
     (if triggerRun s
      then Ok (L_execline, s\<lparr>triggerRun := False, current_line := Some (program_start s)\<rparr>)
      else bnd (getln (ch (CHR ''>'')) s) (\<lambda>s.
           bnd (toUppercaseBuffer s) (\<lambda>s.
           bnd (move_to_top s) (\<lambda>s.
           bnd (testnum s) (\<lambda>(n, s).
           let s = s\<lparr>linenum := ucast n\<rparr>
           in bnd (ignore_blanks s) (\<lambda>s.
              if linenum s = 0 then Ok (L_direct, s)
              else if linenum s = LINENUM_END then fail ''896'' L_qhow s
              else bnd (store_line s) (\<lambda>s. Ok (L_prompt, s))))))))"

definition l_unimplemented :: "basic \<Rightarrow> jump" where
  "l_unimplemented s = Ok (L_prompt, printmsg unimplimentedmsg s)"

definition l_qhow :: "basic \<Rightarrow> jump" where
  "l_qhow s = Ok (L_prompt, printmsg howmsg s)"

text \<open>The offending position is shown as a caret by patching the program text for a moment.\<close>

definition l_qwhat :: "basic \<Rightarrow> jump" where
  "l_qwhat s =
     (let s = printmsgNoNL whatmsg s
      in bnd (case current_line s of
                None \<Rightarrow> Ok s
              | Some cl \<Rightarrow>
                  bnd (rd (txtpos s) s) (\<lambda>tmp.
                  bnd (if tmp \<noteq> NL then wr (txtpos s) (ch (CHR ''^'')) s else Ok s) (\<lambda>s.
                  bnd (printline (s\<lparr>list_line := cl\<rparr>)) (\<lambda>s.
                  wr (txtpos s) tmp s))))
           (\<lambda>s. Ok (L_prompt, line_terminator s)))"

definition l_qsorry :: "basic \<Rightarrow> jump" where
  "l_qsorry s = Ok (L_warmstart, printmsg sorrymsg s)"

function skip_colons :: "basic \<Rightarrow> basic res" where
  "skip_colons s = bnd (rd (txtpos s) s) (\<lambda>c.
     if c = ch (CHR '':'') then skip_colons (s\<lparr>txtpos := Suc (txtpos s)\<rparr>) else Ok s)"
  by pat_completeness auto
termination
  by (relation "measure (\<lambda>s. kRamSize - txtpos s)") (auto simp: rd_def split: if_splits)

definition l_run_next_statement :: "basic \<Rightarrow> jump" where
  "l_run_next_statement s = bnd (skip_colons s) (\<lambda>s. bnd (ignore_blanks s) (\<lambda>s.
     bnd (rd (txtpos s) s) (\<lambda>c.
       if c = NL then Ok (L_execnextline, s) else Ok (L_interperateAtTxtpos, s))))"

definition l_direct :: "basic \<Rightarrow> jump" where
  "l_direct s =
     (let s = s\<lparr>txtpos := program_end s + sizeof_LINENUM\<rparr>
      in bnd (rd (txtpos s) s) (\<lambda>c.
           if c = NL then Ok (L_prompt, s) else Ok (L_interperateAtTxtpos, s)))"

subsection \<open>The statement dispatcher\<close>

text \<open>A test on \<open>*txtpos\<close> that is only made when no expression error is pending.\<close>

definition bad_end :: "(u8 \<Rightarrow> bool) \<Rightarrow> basic \<Rightarrow> bool res" where
  "bad_end bad s = (if expression_error s then Ok True else bnd (rd (txtpos s) s) (\<lambda>c. Ok (bad c)))"

definition kw_if :: "basic \<Rightarrow> jump" where
  "kw_if s = bnd (eval_expr s) (\<lambda>(val, s). bnd (bad_end (\<lambda>c. c = NL) s) (\<lambda>bad.
     if bad then fail ''1080'' L_qhow s
     else if val \<noteq> 0 then Ok (L_interperateAtTxtpos, s)
     else Ok (L_execnextline, s)))"

definition kw_goto :: "basic \<Rightarrow> jump" where
  "kw_goto s = bnd (eval_expr s) (\<lambda>(val, s).
     let s = s\<lparr>linenum := ucast val\<rparr>
     in bnd (bad_end (\<lambda>c. c \<noteq> NL) s) (\<lambda>bad.
          if bad then fail ''1092'' L_qhow s
          else bnd (findline s) (\<lambda>l. Ok (L_execline, s\<lparr>current_line := Some l\<rparr>))))"

definition l_interperateAtTxtpos :: "basic \<Rightarrow> jump" where
  "l_interperateAtTxtpos s =
     (if ub_breakcheck \<noteq> 0 then Ok (L_warmstart, printmsg breakmsg s)
      else bnd (scantable keywords_tab s) (\<lambda>s.
        case kw_enum ! table_index s of
          KW_DELAY \<Rightarrow> Ok (L_unimplemented, s)
        | KW_FILES \<Rightarrow> Ok (L_files, s)
        | KW_LIST \<Rightarrow> Ok (L_list, s)
        | KW_CHAIN \<Rightarrow> Ok (L_chain, s)
        | KW_USER \<Rightarrow> Ok (L_user, s)
        | KW_LOAD \<Rightarrow> Ok (L_load, s)
        | KW_MEM \<Rightarrow> Ok (L_mem, s)
        | KW_NEW \<Rightarrow> bnd (rd (txtpos s) s) (\<lambda>c.
            if c \<noteq> NL then fail ''1060'' L_qwhat s
            else Ok (L_prompt, s\<lparr>program_end := program_start s\<rparr>))
        | KW_RUN \<Rightarrow> Ok (L_execline, s\<lparr>current_line := Some (program_start s)\<rparr>)
        | KW_SAVE \<Rightarrow> Ok (L_save, s)
        | KW_NEXT \<Rightarrow> Ok (L_next, s)
        | KW_LET \<Rightarrow> Ok (L_assignment, s)
        | KW_IF \<Rightarrow> kw_if s
        | KW_GOTO \<Rightarrow> kw_goto s
        | KW_GOSUB \<Rightarrow> Ok (L_gosub, s)
        | KW_RETURN \<Rightarrow> Ok (L_gosub_return, s)
        | KW_REM \<Rightarrow> Ok (L_execnextline, s)
        | KW_QUOTE \<Rightarrow> Ok (L_execnextline, s)
        | KW_FOR \<Rightarrow> Ok (L_forloop, s)
        | KW_INPUT \<Rightarrow> Ok (L_input, s)
        | KW_PRINT \<Rightarrow> Ok (L_print, s)
        | KW_QMARK \<Rightarrow> Ok (L_print, s)
        | KW_POKE \<Rightarrow> Ok (L_poke, s)
        | KW_END \<Rightarrow> bnd (rd (txtpos s) s) (\<lambda>c.
            if c \<noteq> NL then fail ''1118'' L_qwhat s
            else Ok (L_execline, s\<lparr>current_line := Some (program_end s)\<rparr>))
        | KW_STOP \<Rightarrow> bnd (rd (txtpos s) s) (\<lambda>c.
            if c \<noteq> NL then fail ''1118'' L_qwhat s
            else Ok (L_execline, s\<lparr>current_line := Some (program_end s)\<rparr>))
        | KW_BYE \<Rightarrow> Ok (L_return, s)
        | KW_RSEED \<Rightarrow> Ok (L_rseed, s)
        | KW_DEFAULT \<Rightarrow> Ok (L_assignment, s)))"

definition l_execnextline :: "basic \<Rightarrow> jump" where
  "l_execnextline s = (case current_line s of
      None \<Rightarrow> Ok (L_prompt, s)
    | Some cl \<Rightarrow> bnd (rd (cl + sizeof_LINENUM) s) (\<lambda>l.
        Ok (L_execline, s\<lparr>current_line := Some (cl + unat l)\<rparr>)))"

definition l_execline :: "basic \<Rightarrow> jump" where
  "l_execline s =
     (if current_line s = Some (program_end s) then Ok (L_warmstart, s)
      else case current_line s of
        None \<Rightarrow> Stop Fault
      | Some cl \<Rightarrow> Ok (L_interperateAtTxtpos, s\<lparr>txtpos := cl + sizeof_LINENUM + 1\<rparr>))"

subsection \<open>INPUT, FOR and GOSUB\<close>

text \<open>A letter at \<open>txtpos\<close> is taken as the variable, with the blanks behind it.\<close>

definition l_input :: "basic \<Rightarrow> jump" where
  "l_input s = bnd (ignore_blanks s) (\<lambda>s. bnd (rd (txtpos s) s) (\<lambda>var.
     if \<not> is_letter var then fail ''1152'' L_qwhat s
     else bnd (ignore_blanks (adv s)) (\<lambda>s. bnd (rd (txtpos s) s) (\<lambda>c.
       if c \<noteq> NL \<and> c \<noteq> ch (CHR '':'') then fail ''1159'' L_qwhat s
       else Ok (L_inputagain var, s)))))"

definition l_inputagain :: "u8 \<Rightarrow> basic \<Rightarrow> jump" where
  "l_inputagain var s =
     (let s = s\<lparr>tmptxtpos := txtpos s\<rparr>
      in bnd (getln (ch (CHR ''?'')) s) (\<lambda>s.
         bnd (toUppercaseBuffer s) (\<lambda>s.
         bnd (ignore_blanks (s\<lparr>txtpos := program_end s + sizeof_LINENUM\<rparr>)) (\<lambda>s.
         bnd (eval_expr s) (\<lambda>(value, s).
           if expression_error s then Ok (L_inputagain var, s)
           else bnd (st_var var value s) (\<lambda>s.
             Ok (L_run_next_statement, s\<lparr>txtpos := tmptxtpos s\<rparr>)))))))"

definition push_for :: "u8 \<Rightarrow> u64 \<Rightarrow> u64 \<Rightarrow> u64 \<Rightarrow> basic \<Rightarrow> jump" where
  "push_for var initial terminal step s =
     (if sp s + sizeof_for_frame < stack_limit s then Ok (L_qsorry, s)
      else if sp s < sizeof_for_frame then Stop Fault
      else let s = s\<lparr>sp := sp s - sizeof_for_frame\<rparr>; f = sp s
        in bnd (st_var var initial s) (\<lambda>s.
           bnd (wr f STACK_FOR_FLAG s) (\<lambda>s.
           bnd (wr (f + 1) var s) (\<lambda>s.
           bnd (st 4 (f + 4) terminal s) (\<lambda>s.
           bnd (st 4 (f + 8) step s) (\<lambda>s.
           bnd (st 8 (f + 24) (enc_ptr (Some (txtpos s)) s) s) (\<lambda>s.
           bnd (st 8 (f + 16) (enc_ptr (current_line s) s) s) (\<lambda>s.
           Ok (L_run_next_statement, s)))))))))"

definition for_step :: "basic \<Rightarrow> (u64 \<times> basic) res" where
  "for_step s = (if table_index s = 0 then expression s else Ok (1, s))"

definition for_rest :: "u8 \<Rightarrow> u64 \<Rightarrow> basic \<Rightarrow> jump" where
  "for_rest var initial s =
     bnd (expression s) (\<lambda>(terminal, s).
       if expression_error s then fail ''1211'' L_qwhat s
       else bnd (scantable step_tab s) (\<lambda>s.
            bnd (for_step s) (\<lambda>(step, s).
              if expression_error s then fail ''1219'' L_qwhat s
              else bnd (ignore_blanks s) (\<lambda>s. bnd (rd (txtpos s) s) (\<lambda>c.
                if c \<noteq> NL \<and> c \<noteq> ch (CHR '':'') then fail ''1226'' L_qwhat s
                else if c = NL then push_for var initial terminal step s
                else fail ''1248'' L_qhow s)))))"

definition l_forloop :: "basic \<Rightarrow> jump" where
  "l_forloop s = bnd (ignore_blanks s) (\<lambda>s. bnd (rd (txtpos s) s) (\<lambda>var.
     if \<not> is_letter var then fail ''1183'' L_qwhat s
     else bnd (ignore_blanks (adv s)) (\<lambda>s. bnd (rd (txtpos s) s) (\<lambda>c.
       if c \<noteq> ch (CHR ''='') then fail ''1190'' L_qwhat s
       else bnd (ignore_blanks (adv s)) (\<lambda>s.
            bnd (eval_expr s) (\<lambda>(initial, s).
              if expression_error s then fail ''1199'' L_qwhat s
              else bnd (scantable to_tab s) (\<lambda>s.
                if table_index s \<noteq> 0 then fail ''1205'' L_qwhat s
                else for_rest var initial s)))))))"

definition l_gosub :: "basic \<Rightarrow> jump" where
  "l_gosub s = bnd (eval_expr s) (\<lambda>(val, s).
     let s = s\<lparr>linenum := ucast val\<rparr>
     in bnd (bad_end (\<lambda>c. c \<noteq> NL) s) (\<lambda>bad.
          if bad then fail ''1267'' L_qhow s
          else if sp s + sizeof_gosub_frame < stack_limit s then Ok (L_qsorry, s)
          else if sp s < sizeof_gosub_frame then Stop Fault
          else let s = s\<lparr>sp := sp s - sizeof_gosub_frame\<rparr>; f = sp s
            in bnd (wr f STACK_GOSUB_FLAG s) (\<lambda>s.
               bnd (st 8 (f + 16) (enc_ptr (Some (txtpos s)) s) s) (\<lambda>s.
               bnd (st 8 (f + 8) (enc_ptr (current_line s) s) s) (\<lambda>s.
               bnd (findline s) (\<lambda>l. Ok (L_execline, s\<lparr>current_line := Some l\<rparr>)))))))"

subsection \<open>NEXT and RETURN\<close>

definition l_next :: "basic \<Rightarrow> jump" where
  "l_next s = bnd (ignore_blanks s) (\<lambda>s. bnd (rd (txtpos s) s) (\<lambda>c.
     if \<not> is_letter c then fail ''1274'' L_qhow s
     else bnd (ignore_blanks (adv s)) (\<lambda>s. bnd (rd (txtpos s) s) (\<lambda>c.
       if c \<noteq> ch (CHR '':'') \<and> c \<noteq> NL then fail ''1280'' L_qwhat s
       else Ok (L_gosub_return, s)))))"

text \<open>The frame that \<open>tempsp\<close> points to: what NEXT does with a matching FOR frame.\<close>

definition next_frame :: "u8 \<Rightarrow> basic \<Rightarrow> jump" where
  "next_frame var s =
     bnd (ld 4 (tempsp s + 8) s) (\<lambda>step.
     bnd (ld_var var s) (\<lambda>v.
     bnd (st_var var (v + scast (ucast step :: u32)) s) (\<lambda>s.
     bnd (ld 4 (tempsp s + 8) s) (\<lambda>step.
     bnd (ld_var var s) (\<lambda>v.
     bnd (ld 4 (tempsp s + 4) s) (\<lambda>terminal.
       let step = scast (ucast step :: u32) :: u64;
           terminal = scast (ucast terminal :: u32) :: u64
       in if (0 <s step \<and> v \<le>s terminal) \<or> (step <s 0 \<and> terminal \<le>s v)
          then bnd (ld 8 (tempsp s + 24) s) (\<lambda>tp. bnd (ld 8 (tempsp s + 16) s) (\<lambda>cl.
                 Ok (L_run_next_statement,
                     s\<lparr>txtpos := dec_off tp s, current_line := dec_ptr cl s\<rparr>)))
          else Ok (L_run_next_statement, s\<lparr>sp := tempsp s + sizeof_for_frame\<rparr>)))))))"

text \<open>RETURN drops one GOSUB frame from \<open>sp\<close>, wherever the matching frame was found.\<close>

definition return_frame :: "basic \<Rightarrow> jump" where
  "return_frame s =
     bnd (ld 8 (tempsp s + 8) s) (\<lambda>cl. bnd (ld 8 (tempsp s + 16) s) (\<lambda>tp.
       Ok (L_run_next_statement,
           s\<lparr>current_line := dec_ptr cl s, txtpos := dec_off tp s, sp := sp s + sizeof_gosub_frame\<rparr>)))"

text \<open>Does the FOR frame at \<open>tempsp\<close> belong to the variable in front of \<open>txtpos\<close>?\<close>

definition for_frame_var :: "basic \<Rightarrow> u8 option res" where
  "for_frame_var s =
     (if table_index s = 5
      then if txtpos s = 0 then Stop Fault
           else bnd (rd (txtpos s - 1) s) (\<lambda>c. bnd (rd (tempsp s + 1) s) (\<lambda>v.
             Ok (if (ucast c :: u32) = scast v then Some c else None)))
      else Ok None)"

function walk_frames :: "basic \<Rightarrow> jump" where
  "walk_frames s =
     (if tempsp s < kRamSize - 1
      then bnd (rd (tempsp s) s) (\<lambda>flag.
        if flag = STACK_GOSUB_FLAG
        then if table_index s = 10 then return_frame s
             else walk_frames (s\<lparr>tempsp := tempsp s + sizeof_gosub_frame\<rparr>)
        else if flag = STACK_FOR_FLAG
        then bnd (for_frame_var s) (\<lambda>m. case m of
               Some var \<Rightarrow> next_frame var s
             | None \<Rightarrow> walk_frames (s\<lparr>tempsp := tempsp s + sizeof_for_frame\<rparr>))
        else Ok (L_warmstart, s))
      else fail ''1329'' L_qhow s)"
  by pat_completeness auto
termination
  by (relation "measure (\<lambda>s. kRamSize - tempsp s)")
    (auto simp: sizeof_gosub_frame_def sizeof_for_frame_def)

definition l_gosub_return :: "basic \<Rightarrow> jump" where
  "l_gosub_return s = walk_frames (s\<lparr>tempsp := sp s\<rparr>)"

subsection \<open>Assignment, POKE, LIST and PRINT\<close>

definition is_end :: "u8 \<Rightarrow> bool" where
  "is_end c \<longleftrightarrow> c = NL \<or> c = ch (CHR '':'')"

definition l_assignment :: "basic \<Rightarrow> jump" where
  "l_assignment s = bnd (rd (txtpos s) s) (\<lambda>var.
     if \<not> is_letter var then fail ''1337'' L_qhow s
     else bnd (ignore_blanks (adv s)) (\<lambda>s. bnd (rd (txtpos s) s) (\<lambda>c.
       if c \<noteq> ch (CHR ''='') then fail ''1346'' L_qwhat s
       else bnd (ignore_blanks (adv s)) (\<lambda>s.
            bnd (eval_expr s) (\<lambda>(value, s).
              if expression_error s then fail ''1354'' L_qwhat s
              else bnd (rd (txtpos s) s) (\<lambda>c.
                if \<not> is_end c then fail ''1359'' L_qwhat s
                else bnd (st_var var value s) (\<lambda>s. Ok (L_run_next_statement, s))))))))"

definition l_poke :: "basic \<Rightarrow> jump" where
  "l_poke s = bnd (eval_expr s) (\<lambda>(address, s).
     if expression_error s then fail ''1375'' L_qwhat s
     else bnd (ignore_blanks s) (\<lambda>s. bnd (rd (txtpos s) s) (\<lambda>c.
       if c \<noteq> ch (CHR '','') then fail ''1384'' L_qwhat s
       else bnd (ignore_blanks (adv s)) (\<lambda>s.
            bnd (eval_expr s) (\<lambda>(value, s).
              if expression_error s then fail ''1394'' L_qwhat s
              else bnd (wr (unat address) (ucast value) s) (\<lambda>s.
                   bnd (rd (txtpos s) s) (\<lambda>c.
                     if \<not> is_end c then fail ''1403'' L_qwhat s
                     else Ok (L_run_next_statement, s))))))))"

lemma printline_text_list_line:
  "printline_text s = Ok s' \<Longrightarrow> list_line s \<le> list_line s' \<and> list_line s' < kRamSize"
proof (induction s rule: printline_text.induct)
  case (1 s)
  then show ?case
    by (subst (asm) (2) printline_text.simps)
      (auto simp: rd_def ub_outchar_shown split: if_splits)
qed

lemma print_pop_list_line: "print_pop n s = Ok s' \<Longrightarrow> list_line s' = list_line s"
  by (induction n arbitrary: s) (auto simp: res_simps popb_def ub_outchar_shown)

lemma printnum_push_list_line: "printnum_push num d s = Ok (d', s') \<Longrightarrow> list_line s' = list_line s"
proof (induction num d s rule: printnum_push.induct)
  case (1 num d s)
  then show ?case
    by (subst (asm) (2) printnum_push.simps)
      (auto simp: res_simps Let_def pushb_def wr_def split: if_splits)
qed

lemma printline_list_line:
  assumes "printline s = Ok s'"
  shows "list_line s < list_line s'" and "list_line s < kRamSize"
proof -
  from assms obtain s1 s2 and line_num :: u32 where
      s1: "printnum (ucast line_num) (s\<lparr>list_line := list_line s + sizeof_LINENUM + 1\<rparr>) = Ok s1"
    and s2: "printline_text (ub_outchar (ch (CHR '' '')) s1) = Ok s2"
    and s': "s' = line_terminator (s2\<lparr>list_line := Suc (list_line s2)\<rparr>)"
    by (auto simp: printline_def res_simps Let_def)
  have "list_line s1 = list_line s + sizeof_LINENUM + 1"
    using s1 by (auto simp: printnum_def res_simps Let_def ub_outchar_shown split: if_splits
        dest!: print_pop_list_line printnum_push_list_line)
  with printline_text_list_line[OF s2] s'
  show "list_line s < list_line s'" "list_line s < kRamSize"
    by (auto simp: ub_outchar_shown line_terminator_def)
qed

function list_loop :: "basic \<Rightarrow> basic res" where
  "list_loop s = (if list_line s = program_end s then Ok s else bnd (printline s) list_loop)"
  by pat_completeness auto
termination
  by (relation "measure (\<lambda>s. kRamSize - list_line s)")
    (auto dest: printline_list_line intro: diff_less_mono2)

definition l_list :: "basic \<Rightarrow> jump" where
  "l_list s = bnd (testnum s) (\<lambda>(n, s).
     let s = s\<lparr>linenum := ucast n\<rparr>
     in bnd (rd (txtpos s) s) (\<lambda>c.
          if c \<noteq> NL then fail ''1414'' L_qwhat s
          else bnd (findline s) (\<lambda>l.
               bnd (list_loop (s\<lparr>list_line := l\<rparr>)) (\<lambda>s. Ok (L_warmstart, s)))))"

definition l_print :: "basic \<Rightarrow> jump" where
  "l_print s = bnd (rd (txtpos s) s) (\<lambda>c.
     if c = ch (CHR '':'') then Ok (L_run_next_statement, adv (line_terminator s))
     else if c = NL then Ok (L_execnextline, s)
     else Ok (L_print_loop, s))"

text \<open>What follows one item: a comma goes on, \<open>;\<close> before the end suppresses the newline.\<close>

definition print_sep :: "basic \<Rightarrow> jump" where
  "print_sep s = bnd (rd (txtpos s) s) (\<lambda>c.
     if c = ch (CHR '','') then Ok (L_print_loop, adv s)
     else bnd (if c = ch (CHR '';'') then bnd (rd (Suc (txtpos s)) s) (\<lambda>d. Ok (is_end d)) else Ok False)
       (\<lambda>semi.
         if semi then Ok (L_run_next_statement, adv s)
         else if is_end c then Ok (L_run_next_statement, line_terminator s)
         else fail ''1463'' L_qwhat s))"

definition l_print_loop :: "basic \<Rightarrow> jump" where
  "l_print_loop s = bnd (ignore_blanks s) (\<lambda>s. bnd (print_quoted_string s) (\<lambda>(quoted, s).
     if quoted then print_sep s
     else bnd (rd (txtpos s) s) (\<lambda>c.
       if c = DQUOTE \<or> c = SQUOTE then fail ''1440'' L_qwhat s
       else bnd (eval_expr s) (\<lambda>(e, s).
         if expression_error s then fail ''1447'' L_qwhat s
         else bnd (printnum e s) print_sep))))"

definition l_mem :: "basic \<Rightarrow> jump" where
  "l_mem s = bnd (printnum (of_nat (variables_begin s) - of_nat (program_end s)) s) (\<lambda>s.
     Ok (L_run_next_statement, printmsg memorymsg s))"

subsection \<open>Commands outside the interpreter proper\<close>

text \<open>\<open>cmd_Files\<close> is modelled with the console; the text \<open>cmd_User\<close> prints (a stress test of
  \<open>malloc\<close>, in \<open>ub_test.c\<close>) is a parameter.\<close>

record basic_env =
  files_fw :: efi_files
  user_text :: "u8 list"

definition l_files :: "basic_env \<Rightarrow> basic \<Rightarrow> jump" where
  "l_files env s = bnd (cmd_Files (files_fw env) s) (\<lambda>s. Ok (L_warmstart, s))"

definition l_user :: "basic_env \<Rightarrow> basic \<Rightarrow> jump" where
  "l_user env s = Ok (L_warmstart, ub_puts (user_text env) s)"

definition l_load :: "basic \<Rightarrow> jump" where
  "l_load s = Ok (L_unimplemented, s\<lparr>program_end := program_start s\<rparr>)"

definition l_chain :: "basic \<Rightarrow> jump" where
  "l_chain s = l_load (s\<lparr>runAfterLoad := True\<rparr>)"

definition isValidFnChar :: "u8 \<Rightarrow> bool" where
  "isValidFnChar c \<longleftrightarrow>
     (ch (CHR ''0'') \<le> c \<and> c \<le> ch (CHR ''9'')) \<or>
     (ch (CHR ''A'') \<le> c \<and> c \<le> ch (CHR ''Z'')) \<or>
     (ch (CHR ''a'') \<le> c \<and> c \<le> ch (CHR ''z'')) \<or>
     c = ch (CHR ''_'') \<or> c = ch (CHR ''+'') \<or> c = ch (CHR ''.'') \<or> c = ch (CHR ''~'')"

function skip_fn :: "bool \<Rightarrow> basic \<Rightarrow> basic res" where
  "skip_fn valid s = bnd (rd (txtpos s) s) (\<lambda>c.
     if isValidFnChar c = valid then skip_fn valid (adv s) else Ok s)"
  by pat_completeness auto
termination
  by (relation "measure (\<lambda>(v, s). kRamSize - txtpos s)") (auto simp: rd_def split: if_splits)

text \<open>The name is terminated in place: the byte behind it is overwritten with 0.\<close>

definition filenameWord :: "basic \<Rightarrow> (nat \<times> basic) res" where
  "filenameWord s = bnd (skip_fn False (s\<lparr>expression_error := False\<rparr>)) (\<lambda>s.
     let ret = txtpos s
     in bnd (rd ret s) (\<lambda>c.
          if c = 0 then Ok (ret, s\<lparr>expression_error := True\<rparr>)
          else bnd (skip_fn True (adv s)) (\<lambda>s.
               bnd (if txtpos s \<noteq> ret then wr (txtpos s) 0 s else Ok s) (\<lambda>s.
               bnd (rd ret s) (\<lambda>c.
                 Ok (ret, if c = 0 then s\<lparr>expression_error := True\<rparr> else s))))))"

definition l_save :: "basic \<Rightarrow> jump" where
  "l_save s = bnd (filenameWord (s\<lparr>expression_error := False\<rparr>)) (\<lambda>(filename, s).
     if expression_error s then fail ''1519'' L_qwhat s else Ok (L_warmstart, s))"

definition l_rseed :: "basic \<Rightarrow> jump" where
  "l_rseed s = bnd (eval_expr s) (\<lambda>(value, s).
     if expression_error s then fail ''1539'' L_qwhat s else Ok (L_run_next_statement, s))"

subsection \<open>The machine\<close>

fun step :: "basic_env \<Rightarrow> label \<Rightarrow> basic \<Rightarrow> jump" where
  "step env L_warmstart s = l_warmstart s"
| "step env L_prompt s = l_prompt s"
| "step env L_unimplemented s = l_unimplemented s"
| "step env L_qhow s = l_qhow s"
| "step env L_qwhat s = l_qwhat s"
| "step env L_qsorry s = l_qsorry s"
| "step env L_run_next_statement s = l_run_next_statement s"
| "step env L_direct s = l_direct s"
| "step env L_interperateAtTxtpos s = l_interperateAtTxtpos s"
| "step env L_execnextline s = l_execnextline s"
| "step env L_execline s = l_execline s"
| "step env L_input s = l_input s"
| "step env (L_inputagain var) s = l_inputagain var s"
| "step env L_forloop s = l_forloop s"
| "step env L_gosub s = l_gosub s"
| "step env L_next s = l_next s"
| "step env L_gosub_return s = l_gosub_return s"
| "step env L_assignment s = l_assignment s"
| "step env L_poke s = l_poke s"
| "step env L_list s = l_list s"
| "step env L_print s = l_print s"
| "step env L_print_loop s = l_print_loop s"
| "step env L_mem s = l_mem s"
| "step env L_files s = l_files env s"
| "step env L_user s = l_user env s"
| "step env L_chain s = l_chain s"
| "step env L_load s = l_load s"
| "step env L_save s = l_save s"
| "step env L_rseed s = l_rseed s"
| "step env L_return s = Ok (L_return, s)"

fun run :: "basic_env \<Rightarrow> nat \<Rightarrow> label \<times> basic \<Rightarrow> jump" where
  "run env 0 ls = Ok ls"
| "run env (Suc n) (l, s) = bnd (step env l s) (run env n)"

inductive exec :: "basic_env \<Rightarrow> label \<times> basic \<Rightarrow> label \<times> basic \<Rightarrow> bool" for env where
  exec_refl: "exec env ls ls"
| exec_step: "exec env ls (l, s) \<Longrightarrow> step env l s = Ok ls' \<Longrightarrow> exec env ls ls'"

text \<open>\<open>basic_main\<close> starts at \<open>warmstart\<close> behind the initialisation.\<close>

definition basic_main :: "basic_env \<Rightarrow> nat \<Rightarrow> basic \<Rightarrow> jump" where
  "basic_main env n s = bnd (basic_init s) (\<lambda>s. run env n (L_warmstart, s))"

text \<open>The static storage at load time, with the keys that will be pressed.\<close>

definition boot :: "u64 \<Rightarrow> u16 list \<Rightarrow> basic" where
  "boot base ks = \<lparr>keys = ks, con_out = [], program = (\<lambda>_. 0), program_base = base, txtpos = 0,
     list_line = 0, tmptxtpos = 0, expression_error = False, tempsp = 0, stack_limit = 0,
     program_start = 0, program_end = 0, variables_begin = 0, current_line = None, sp = 0,
     table_index = 0, linenum = 0, runAfterLoad = False, triggerRun = False\<rparr>"

declare skip_colons.simps [simp del] walk_frames.simps [simp del] list_loop.simps [simp del]
  skip_fn.simps [simp del]

end
