(* ===== verification/Basic_Frame.thy ===== *)
theory Basic_Frame
  imports Basic_Exec
begin

text \<open>
  What the operations of the interpreter leave alone.  A view is a function of the state; the
  locales say which fields a view does not look at, and their lemmas that the operations which
  only write such fields keep it.  \<open>scan_view\<close> covers the scanner and the expression evaluator,
  \<open>layout_view\<close> the whole machine.
\<close>

subsection \<open>Conditions on results\<close>

definition post :: "('a \<Rightarrow> bool) \<Rightarrow> 'a res \<Rightarrow> bool" where
  "post Q r = (case r of Ok a \<Rightarrow> Q a | Stop h \<Rightarrow> True)"

lemma post_Ok [simp]: "post Q (Ok a) = Q a"
  by (simp add: post_def)

lemma post_Stop [simp]: "post Q (Stop h)"
  by (simp add: post_def)

lemma postD: "post Q r \<Longrightarrow> r = Ok a \<Longrightarrow> Q a"
  by simp

lemma postI: "(\<And>a. r = Ok a \<Longrightarrow> Q a) \<Longrightarrow> post Q r"
  by (cases r) auto

lemma post_bnd: "post P m \<Longrightarrow> (\<And>a. P a \<Longrightarrow> post Q (f a)) \<Longrightarrow> post Q (bnd m f)"
  by (cases m) auto

lemma post_rd: "(\<And>c. p < kRamSize \<Longrightarrow> post Q (f c)) \<Longrightarrow> post Q (bnd (rd p s) f)"
  by (simp add: rd_def)

lemma post_ld: "(\<And>c. post Q (f c)) \<Longrightarrow> post Q (bnd (ld n p s) f)"
  by (simp add: ld_def)

lemma post_ld_var: "(\<And>c. post Q (f c)) \<Longrightarrow> post Q (bnd (ld_var v s) f)"
  by (simp add: ld_var_def post_ld)

lemma post_any: "(\<And>c. post Q (f c)) \<Longrightarrow> post Q (bnd m f)"
  by (cases m) auto

lemma post_quot: "(\<And>c. post Q (f c)) \<Longrightarrow> post Q (bnd (s64_quot a b) f)"
  by (rule post_any)

lemmas post_reads = post_rd post_ld post_ld_var

text \<open>\<open>keeps view V\<close>: the view of a state is \<open>V\<close>; \<open>keeps2\<close> the same of the state in a pair.\<close>

definition keeps :: "(basic \<Rightarrow> 'k) \<Rightarrow> 'k \<Rightarrow> basic \<Rightarrow> bool" where
  "keeps view V s \<longleftrightarrow> view s = V"

definition keeps2 :: "(basic \<Rightarrow> 'k) \<Rightarrow> 'k \<Rightarrow> 'a \<times> basic \<Rightarrow> bool" where
  "keeps2 view V x \<longleftrightarrow> keeps view V (snd x)"

lemma keeps2_pair [simp]:
  "keeps2 view V (a, s) \<longleftrightarrow> keeps view V s"
  by (simp add: keeps2_def)

lemma post_bndS: "post (keeps view V) m \<Longrightarrow> (\<And>s. keeps view V s \<Longrightarrow> post Q (f s)) \<Longrightarrow> post Q (bnd m f)"
  by (cases m) auto

lemma post_bndV: "post (keeps2 view V) m \<Longrightarrow> (\<And>a s. keeps view V s \<Longrightarrow> post Q (f (a, s))) \<Longrightarrow> post Q (bnd m f)"
  by (cases m) (auto simp: keeps2_def)

lemma post_bnd_eq: "post P m \<Longrightarrow> (\<And>a. m = Ok a \<Longrightarrow> P a \<Longrightarrow> post Q (f a)) \<Longrightarrow> post Q (bnd m f)"
  by (cases m) auto

subsection \<open>The scanner and the expression evaluator\<close>

locale scan_view =
  fixes view :: "basic \<Rightarrow> 'k"
  assumes view_txtpos: "view (s\<lparr>txtpos := p\<rparr>) = view s"
    and view_table_index: "view (s\<lparr>table_index := i\<rparr>) = view s"
    and view_expression_error: "view (s\<lparr>expression_error := e\<rparr>) = view s"
    and view_keys: "view (s\<lparr>keys := ks\<rparr>) = view s"
    and view_con_out: "view (s\<lparr>con_out := ws\<rparr>) = view s"
begin

lemma keeps_scan [simp]:
  "keeps view V (s\<lparr>txtpos := p\<rparr>) = keeps view V s" "keeps view V (s\<lparr>table_index := i\<rparr>) = keeps view V s"
  "keeps view V (s\<lparr>expression_error := e\<rparr>) = keeps view V s" "keeps view V (s\<lparr>keys := ks\<rparr>) = keeps view V s"
  "keeps view V (s\<lparr>con_out := ws\<rparr>) = keeps view V s"
  by (simp_all add: keeps_def view_txtpos view_table_index view_expression_error view_keys view_con_out)

lemma view_adv [simp]: "keeps view V (adv s) = keeps view V s"
  by (simp add: adv_def)

lemma view_outchar [simp]: "keeps view V (ub_outchar c s) = keeps view V s"
  by (simp add: ub_outchar_shown)

lemma view_ignore_blanks: "keeps view V s \<Longrightarrow> post (keeps view V) (ignore_blanks s)"
  by (rule postI) (auto dest: ignore_blanks_frame)

lemma view_scantable_loop: "keeps view V s \<Longrightarrow> post (keeps view V) (scantable_loop tbl s)"
proof (induction tbl arbitrary: s V)
  case Nil
  then show ?case by simp
next
  case (Cons k tbl)
  then show ?case by (auto intro!: post_any view_ignore_blanks)
qed

lemma view_scantable: "keeps view V s \<Longrightarrow> post (keeps view V) (scantable tbl s)"
  by (simp add: scantable_def view_scantable_loop)

lemma view_testnum_loop: "keeps view V s \<Longrightarrow> post (keeps2 view V) (testnum_loop n s)"
proof (induction n s rule: testnum_loop.induct)
  case (1 n s)
  then show ?case by (subst testnum_loop.simps) (auto simp: rd_def)
qed

lemma view_testnum: "keeps view V s \<Longrightarrow> post (keeps2 view V) (testnum s)"
  unfolding testnum_def by (intro post_bndS[OF view_ignore_blanks] view_testnum_loop)

lemma view_expr4_num: "keeps view V s \<Longrightarrow> post (keeps2 view V) (expr4_num a s)"
proof (induction a s rule: expr4_num.induct)
  case (1 a s)
  then show ?case by (subst expr4_num.simps) (auto simp: rd_def Let_def)
qed

lemma view_expr4_func:
  assumes "keeps view V s" and "post (keeps2 view V) g"
  shows "post (keeps2 view V) (bnd (expr4_func f a s) (\<lambda>r. case r of Some v \<Rightarrow> Ok v | None \<Rightarrow> g))"
  using assms by (auto simp: expr4_func_def ub_inchar_def rd_def split: list.splits)

lemma view_expr:
  "keeps view V s \<Longrightarrow> post (keeps2 view V) (expr4 n s)" "keeps view V s \<Longrightarrow> post (keeps2 view V) (expr4_paren n s)"
  "keeps view V s \<Longrightarrow> post (keeps2 view V) (expr3 n s)" "keeps view V s \<Longrightarrow> post (keeps2 view V) (expr3_loop n a s)"
  "keeps view V s \<Longrightarrow> post (keeps2 view V) (expr2 n s)" "keeps view V s \<Longrightarrow> post (keeps2 view V) (expr2_loop n a s)"
  "keeps view V s \<Longrightarrow> post (keeps2 view V) (expression_f n s)"
proof (induction n arbitrary: s a V)
  case 0
  { case 1 show ?case by simp next case 2 show ?case by simp next case 3 show ?case by simp
  next case 4 show ?case by simp next case 5 show ?case by simp next case 6 show ?case by simp
  next case 7 show ?case by simp }
next
  case (Suc n)
  note IH = Suc.IH
  {
    case 1
    then show ?case
      by (auto intro!: post_reads post_bndS[OF view_ignore_blanks] post_bndS[OF view_scantable] post_bndV[OF IH(1)]
          post_bndV[OF IH(7)] view_expr4_num view_expr4_func IH(2) simp: Let_def expr4_error_def)
  next
    case 2
    then show ?case by (auto intro!: post_rd post_bndV[OF IH(7)] simp: expr4_error_def)
  next
    case 3
    then show ?case by (auto intro!: post_bndV[OF IH(1)] post_bndS[OF view_ignore_blanks] IH(4))
  next
    case 4
    then show ?case by (auto intro!: post_rd post_quot post_bndV[OF IH(1)] IH(4))
  next
    case 5
    then show ?case by (auto intro!: post_rd post_bndV[OF IH(3)] IH(6))
  next
    case 6
    then show ?case by (auto intro!: post_rd post_bndV[OF IH(3)] IH(6))
  next
    case 7
    then show ?case by (auto intro!: post_bndV[OF IH(5)] post_bndS[OF view_scantable] simp: Let_def)
  }
qed

lemma view_expression: "keeps view V s \<Longrightarrow> post (keeps2 view V) (expression s)"
  by (simp add: expression_def view_expr(7))

lemma view_eval_expr: "keeps view V s \<Longrightarrow> post (keeps2 view V) (eval_expr s)"
  by (simp add: eval_expr_def view_expression)

lemma view_line_terminator [simp]: "keeps view V (line_terminator s) = keeps view V s"
  by (simp add: line_terminator_def)

lemma view_printmsgNoNL [simp]: "keeps view V (printmsgNoNL msg s) = keeps view V s"
  by (induction msg arbitrary: s) auto

lemma view_printmsg [simp]: "keeps view V (printmsg msg s) = keeps view V s"
  by (simp add: printmsg_def)

lemma view_PRINT_ERR [simp]: "keeps view V (PRINT_ERR line s) = keeps view V s"
  by (simp add: PRINT_ERR_def)

lemma view_fail: "keeps view V s \<Longrightarrow> post (keeps2 view V) (fail line l s)"
  by (simp add: fail_def)

end

subsection \<open>The whole machine\<close>

lemma post_findline: "(\<And>l. post Q (f l)) \<Longrightarrow> post Q (bnd (findline s) f)"
  by (rule post_any)

lemma post_bad_end: "(\<And>b. post Q (f b)) \<Longrightarrow> post Q (bnd (bad_end bad s) f)"
  by (rule post_any)

locale layout_view = scan_view +
  assumes view_program: "view (s\<lparr>program := m\<rparr>) = view s"
    and view_sp: "view (s\<lparr>sp := p\<rparr>) = view s"
    and view_tempsp: "view (s\<lparr>tempsp := p\<rparr>) = view s"
    and view_current_line: "view (s\<lparr>current_line := cl\<rparr>) = view s"
    and view_list_line: "view (s\<lparr>list_line := p\<rparr>) = view s"
    and view_tmptxtpos: "view (s\<lparr>tmptxtpos := p\<rparr>) = view s"
    and view_linenum: "view (s\<lparr>linenum := n\<rparr>) = view s"
    and view_program_end: "view (s\<lparr>program_end := p\<rparr>) = view s"
    and view_runAfterLoad: "view (s\<lparr>runAfterLoad := b\<rparr>) = view s"
    and view_triggerRun: "view (s\<lparr>triggerRun := b\<rparr>) = view s"
begin

lemma keeps_layout [simp]:
  "keeps view V (s\<lparr>program := m\<rparr>) = keeps view V s" "keeps view V (s\<lparr>sp := p\<rparr>) = keeps view V s"
  "keeps view V (s\<lparr>tempsp := p\<rparr>) = keeps view V s" "keeps view V (s\<lparr>current_line := cl\<rparr>) = keeps view V s"
  "keeps view V (s\<lparr>list_line := p\<rparr>) = keeps view V s" "keeps view V (s\<lparr>tmptxtpos := p\<rparr>) = keeps view V s"
  "keeps view V (s\<lparr>linenum := n\<rparr>) = keeps view V s" "keeps view V (s\<lparr>program_end := p\<rparr>) = keeps view V s"
  "keeps view V (s\<lparr>runAfterLoad := b\<rparr>) = keeps view V s" "keeps view V (s\<lparr>triggerRun := b\<rparr>) = keeps view V s"
  by (simp_all add: keeps_def view_program view_sp view_tempsp view_current_line view_list_line view_tmptxtpos
      view_linenum view_program_end view_runAfterLoad view_triggerRun)

lemma view_wr: "keeps view V s \<Longrightarrow> post (keeps view V) (wr p b s)"
  by (simp add: wr_def)

lemma view_st: "keeps view V s \<Longrightarrow> post (keeps view V) (st n p w s)"
  by (simp add: st_def)

lemma view_st_var: "keeps view V s \<Longrightarrow> post (keeps view V) (st_var c w s)"
  by (simp add: st_var_def view_st)

lemmas view_writes = post_bndS[OF view_wr] post_bndS[OF view_st] post_bndS[OF view_st_var]

lemma view_backspace [simp]: "keeps view V (ub_backspace s) = keeps view V s"
  by (simp add: ub_backspace_def OutputString_def)

lemma view_ub_puts [simp]: "keeps view V (ub_puts cs s) = keeps view V s"
  by (induction cs arbitrary: s) auto

lemma view_ub_putsW [simp]: "keeps view V (ub_putsW cs s) = keeps view V s"
  by (induction cs arbitrary: s) auto

lemma view_files_loop [simp]: "keeps view V (files_loop fs s) = keeps view V s"
  by (induction fs arbitrary: s) (auto simp: Let_def)

lemma view_cmd_Files: "keeps view V s \<Longrightarrow> post (keeps view V) (cmd_Files fw s)"
  by (simp add: cmd_Files_def Let_def)

lemma view_pushb: "keeps view V s \<Longrightarrow> post (keeps view V) (pushb b s)"
  by (simp add: pushb_def Let_def view_wr)

lemma view_print_pop: "keeps view V s \<Longrightarrow> post (keeps view V) (print_pop n s)"
  by (induction n arbitrary: s) (auto simp: popb_def rd_def)

lemma view_printnum_push: "keeps view V s \<Longrightarrow> post (keeps2 view V) (printnum_push num d s)"
proof (induction num d s rule: printnum_push.induct)
  case (1 num d s)
  show ?case
    by (subst printnum_push.simps) (auto intro!: post_bnd_eq[OF view_pushb[OF 1(2)]] 1(1) simp: Let_def)
qed

lemma view_printnum: "keeps view V s \<Longrightarrow> post (keeps view V) (printnum num s)"
  by (auto simp: printnum_def Let_def intro!: post_bndV[OF view_printnum_push] view_print_pop)

lemma view_printline_text: "keeps view V s \<Longrightarrow> post (keeps view V) (printline_text s)"
proof (induction s rule: printline_text.induct)
  case (1 s)
  then show ?case by (subst printline_text.simps) (auto simp: rd_def)
qed

lemma view_printline: "keeps view V s \<Longrightarrow> post (keeps view V) (printline s)"
  by (auto simp: printline_def Let_def intro!: post_any[of _ _ "ld_LINENUM _ _"] post_bndS[OF view_printnum]
      post_bndS[OF view_printline_text])

lemma view_list_loop: "keeps view V s \<Longrightarrow> post (keeps view V) (list_loop s)"
proof (induction s rule: list_loop.induct)
  case (1 s)
  then show ?case by (subst list_loop.simps) (auto intro!: post_bnd_eq[OF view_printline])
qed

lemma view_pqs_print: "keeps view V s \<Longrightarrow> post (keeps view V) (pqs_print d s)"
proof (induction d s rule: pqs_print.induct)
  case (1 d s)
  then show ?case by (subst pqs_print.simps) (auto simp: rd_def)
qed

lemma view_print_quoted_string: "keeps view V s \<Longrightarrow> post (keeps2 view V) (print_quoted_string s)"
  by (auto simp: print_quoted_string_def Let_def intro!: post_rd post_any[of _ _ "pqs_closed _ _ _"]
      post_bndS[OF view_pqs_print])

subsubsection \<open>Line entry\<close>

lemma view_getln_loop: "keeps view V s \<Longrightarrow> post (keeps view V) (getln_loop s)"
proof (induction "keys s" arbitrary: s)
  case Nil
  then show ?case by (subst getln_loop.simps) (simp add: ub_inchar_def)
next
  case (Cons k ks)
  have IH: "post (keeps view V) (getln_loop s')" if "keys s' = ks" "keeps view V s'" for s'
    using Cons.hyps(1)[of s'] that by simp
  show ?case
    using Cons.hyps(2)[symmetric] Cons.prems
    by (subst getln_loop.simps)
      (auto simp: ub_inchar_def wr_def Let_def ub_backspace_def OutputString_def ub_outchar_shown intro!: IH)
qed

lemma view_getln: "keeps view V s \<Longrightarrow> post (keeps view V) (getln c s)"
  by (simp add: getln_def Let_def view_getln_loop)

lemma view_toUppercase_loop: "keeps view V s \<Longrightarrow> post (keeps view V) (toUppercase_loop p q s)"
proof (induction p q s rule: toUppercase_loop.induct)
  case (1 p q s)
  then show ?case by (subst toUppercase_loop.simps) (auto simp: rd_def wr_def)
qed

lemma view_toUppercaseBuffer: "keeps view V s \<Longrightarrow> post (keeps view V) (toUppercaseBuffer s)"
  by (simp add: toUppercaseBuffer_def view_toUppercase_loop)

lemma view_find_eol: "keeps view V s \<Longrightarrow> post (keeps view V) (find_eol s)"
proof (induction s rule: find_eol.induct)
  case (1 s)
  then show ?case by (subst find_eol.simps) (auto simp: rd_def)
qed

lemma view_shift_line: "keeps view V s \<Longrightarrow> post (keeps view V) (shift_line d s)"
proof (induction d s rule: shift_line.induct)
  case (1 d s)
  then show ?case
    using 1(1)[of "program s (txtpos s)" "s\<lparr>program := (program s)(d := program s (txtpos s))\<rparr>"]
    by (subst shift_line.simps) (auto simp: rd_def wr_def)
qed

lemma view_move_to_top: "keeps view V s \<Longrightarrow> post (keeps view V) (move_to_top s)"
  by (auto simp: move_to_top_def intro!: post_bndS[OF view_find_eol] view_shift_line)

lemma view_copy_down: "keeps view V s \<Longrightarrow> post (keeps2 view V) (copy_down n a b s)"
  by (induction n arbitrary: a b s) (auto intro!: post_rd view_writes)

lemma view_copy_up: "keeps view V s \<Longrightarrow> post (keeps view V) (copy_up n a b s)"
  by (induction n arbitrary: a b s) (auto intro!: post_rd view_writes)

lemma view_copy_in: "keeps view V s \<Longrightarrow> post (keeps2 view V) (copy_in n a s)"
  by (induction n arbitrary: a s) (auto intro!: post_rd view_writes)

lemma view_remove_line: "keeps view V s \<Longrightarrow> post (keeps view V) (remove_line p s)"
  by (auto simp: remove_line_def Let_def intro!: post_rd post_bndV[OF view_copy_down])

lemma view_insert_loop: "keeps view V s \<Longrightarrow> post (keeps view V) (insert_loop l p s)"
proof (induction l p s rule: insert_loop.induct)
  case (1 l p s)
  show ?case
    by (subst insert_loop.simps)
      (auto intro!: post_bnd_eq[OF view_copy_up[OF 1(2)]] post_bnd_eq[OF view_copy_in] 1 simp: Let_def)
qed

lemma view_store_line: "keeps view V s \<Longrightarrow> post (keeps view V) (store_line s)"
  unfolding store_line_def Let_def st_LINENUM_def
  by (auto intro!: post_any[of _ _ "linelen_loop _ _"] view_writes post_findline post_rd view_insert_loop
      post_bndS[of view V "if _ then _ else _"] view_remove_line post_any[of _ _ "ld_LINENUM _ _"])

subsubsection \<open>The labels\<close>

lemma view_skip_colons: "keeps view V s \<Longrightarrow> post (keeps view V) (skip_colons s)"
proof (induction s rule: skip_colons.induct)
  case (1 s)
  then show ?case by (subst skip_colons.simps) (auto simp: rd_def)
qed

lemma view_skip_fn: "keeps view V s \<Longrightarrow> post (keeps view V) (skip_fn v s)"
proof (induction v s rule: skip_fn.induct)
  case (1 v s)
  then show ?case by (subst skip_fn.simps) (auto simp: rd_def)
qed

lemma view_filenameWord: "keeps view V s \<Longrightarrow> post (keeps2 view V) (filenameWord s)"
  by (auto simp: filenameWord_def Let_def intro!: post_bndS[OF view_skip_fn] post_rd view_writes)

lemmas view_ops = post_reads post_findline post_bad_end post_bndS[OF view_ignore_blanks] post_bndS[OF view_scantable]
  post_bndV[OF view_testnum] post_bndV[OF view_eval_expr] post_bndV[OF view_expression] view_writes view_fail
  post_bndS[OF view_getln] post_bndS[OF view_toUppercaseBuffer] post_bndS[OF view_printnum]

lemma view_prompt: "keeps view V s \<Longrightarrow> post (keeps2 view V) (l_prompt s)"
  by (auto simp: l_prompt_def Let_def intro!: view_ops post_bndS[OF view_move_to_top] post_bndS[OF view_store_line])

lemma view_qwhat: "keeps view V s \<Longrightarrow> post (keeps2 view V) (l_qwhat s)"
  unfolding l_qwhat_def Let_def
  by (cases "current_line (printmsgNoNL whatmsg s)")
    (auto intro!: post_bndS[of view V "bnd _ _"] view_ops post_bndS[OF view_printline] view_wr
      post_bndS[of view V "if _ then _ else _"])

lemma view_kw_if: "keeps view V s \<Longrightarrow> post (keeps2 view V) (kw_if s)"
  by (auto simp: kw_if_def intro!: view_ops)

lemma view_kw_goto: "keeps view V s \<Longrightarrow> post (keeps2 view V) (kw_goto s)"
  by (auto simp: kw_goto_def Let_def intro!: view_ops)

lemma view_interperate: "keeps view V s \<Longrightarrow> post (keeps2 view V) (l_interperateAtTxtpos s)"
  by (auto simp: l_interperateAtTxtpos_def ub_breakcheck_def intro!: view_ops view_kw_if view_kw_goto split: keyword.splits)

lemma view_push_for: "keeps view V s \<Longrightarrow> post (keeps2 view V) (push_for v i t c s)"
  by (auto simp: push_for_def Let_def intro!: view_ops)

lemma view_for_step: "keeps view V s \<Longrightarrow> post (keeps2 view V) (for_step s)"
  by (auto simp: for_step_def intro!: view_expression)

lemma view_for_rest: "keeps view V s \<Longrightarrow> post (keeps2 view V) (for_rest v i s)"
  by (auto simp: for_rest_def intro!: view_ops post_bndV[OF view_for_step] view_push_for)

lemma view_next_frame: "keeps view V s \<Longrightarrow> post (keeps2 view V) (next_frame v s)"
  by (auto simp: next_frame_def Let_def intro!: view_ops)

lemma view_return_frame: "keeps view V s \<Longrightarrow> post (keeps2 view V) (return_frame s)"
  by (auto simp: return_frame_def intro!: view_ops)

lemma view_walk_frames: "keeps view V s \<Longrightarrow> post (keeps2 view V) (walk_frames s)"
proof (induction s rule: walk_frames.induct)
  case (1 s)
  show ?case
    by (subst walk_frames.simps) (cases "rd (tempsp s) s"; cases "for_frame_var s"; auto simp: 1 view_return_frame
        view_next_frame view_fail split: option.splits)
qed

lemma view_print_sep: "keeps view V s \<Longrightarrow> post (keeps2 view V) (print_sep s)"
  by (auto simp: print_sep_def bnd_assoc intro!: view_ops)

lemma view_print_loop: "keeps view V s \<Longrightarrow> post (keeps2 view V) (l_print_loop s)"
  by (auto simp: l_print_loop_def intro!: view_ops post_bndV[OF view_print_quoted_string] view_print_sep)

lemma view_execline: "keeps view V s \<Longrightarrow> post (keeps2 view V) (l_execline s)"
  by (auto simp: l_execline_def split: option.splits)

lemma view_execnextline: "keeps view V s \<Longrightarrow> post (keeps2 view V) (l_execnextline s)"
  by (auto simp: l_execnextline_def intro!: post_rd split: option.splits)

lemma view_step: "keeps view V s \<Longrightarrow> post (keeps2 view V) (step env l s)"
  by (cases l)
    (auto simp: l_warmstart_def l_unimplemented_def l_qhow_def l_qsorry_def l_run_next_statement_def l_direct_def
      l_input_def l_inputagain_def l_forloop_def l_gosub_def l_next_def l_gosub_return_def l_assignment_def l_poke_def
      l_list_def l_print_def l_mem_def l_files_def l_user_def l_chain_def l_load_def l_save_def l_rseed_def Let_def
      intro!: view_ops view_prompt view_qwhat view_interperate view_execline view_execnextline view_for_rest
        view_walk_frames view_print_loop post_bndS[OF view_skip_colons] post_bndV[OF view_filenameWord]
        post_bndS[OF view_cmd_Files] post_bndS[OF view_list_loop])

lemma view_exec: "exec env ls ls' \<Longrightarrow> view (snd ls') = view (snd ls)"
proof (induction rule: exec.induct)
  case (exec_step ls l s ls')
  have "post (keeps2 view (view s)) (step env l s)" by (rule view_step) (simp add: keeps_def)
  then show ?case using exec_step by (simp add: keeps2_def keeps_def)
qed simp

end

subsection \<open>Views of the interpreter\<close>

text \<open>Where the parts of memory lie.\<close>

definition layout :: "basic \<Rightarrow> u64 \<times> nat \<times> nat \<times> nat" where
  "layout s = (program_base s, program_start s, stack_limit s, variables_begin s)"

text \<open>Everything that the scanner and the evaluator do not touch.\<close>

definition still :: "basic \<Rightarrow> basic" where
  "still s = s\<lparr>txtpos := 0, table_index := 0, expression_error := False, keys := [], con_out := []\<rparr>"

interpretation layout: layout_view layout
  by unfold_locales (simp_all add: layout_def)

interpretation still: scan_view still
  by unfold_locales (simp_all add: still_def)

lemma still_fields:
  assumes "still s' = still s"
  shows "program s' = program s" "sp s' = sp s" "current_line s' = current_line s" "program_base s' = program_base s"
    "variables_begin s' = variables_begin s" "stack_limit s' = stack_limit s" "program_end s' = program_end s"
    "program_start s' = program_start s" "tempsp s' = tempsp s" "tmptxtpos s' = tmptxtpos s"
  using assms by (cases s; cases s'; simp add: still_def)+

lemma eval_expr_still: "eval_expr s = Ok (v, s') \<Longrightarrow> still s' = still s"
  using still.view_eval_expr[of "still s" s] by (simp add: keeps_def)

lemma scantable_still: "scantable tbl s = Ok s' \<Longrightarrow> still s' = still s"
  using still.view_scantable[of "still s" s tbl] by (simp add: keeps_def)

lemma ignore_blanks_still: "ignore_blanks s = Ok s' \<Longrightarrow> still s' = still s"
  using still.view_ignore_blanks[of "still s" s] by (simp add: keeps_def)

lemma expression_still: "expression s = Ok (v, s') \<Longrightarrow> still s' = still s"
  using still.view_expression[of "still s" s] by (simp add: keeps_def)

end
