(* ===== verification/Basic_Control.thy ===== *)
theory Basic_Control
  imports Basic_Frame
begin

text \<open>
  The control stack of the interpreter.  FOR and GOSUB push frames below \<open>sp\<close> inside \<open>program\<close>,
  NEXT and RETURN walk up from \<open>sp\<close> looking for theirs.  The abstract stack is a list of frames,
  topmost first; \<open>stack s p fs\<close> says that the bytes from \<open>p\<close> to the end of memory are the frames
  \<open>fs\<close>.
\<close>

datatype frame = For u8 u32 u32 nat "nat option" | Gosub nat "nat option"

fun frame_size :: "frame \<Rightarrow> nat" where
  "frame_size (For v t c tp cl) = sizeof_for_frame"
| "frame_size (Gosub tp cl) = sizeof_gosub_frame"

definition text_ptr :: "nat option \<Rightarrow> bool" where
  "text_ptr p \<longleftrightarrow> (case p of None \<Rightarrow> True | Some q \<Rightarrow> q \<le> kRamSize)"

fun frame_at :: "basic \<Rightarrow> nat \<Rightarrow> frame \<Rightarrow> bool" where
  "frame_at s p (For v t c tp cl) \<longleftrightarrow> program s p = STACK_FOR_FLAG \<and> program s (p + 1) = v \<and>
     ld 4 (p + 4) s = Ok (ucast t) \<and> ld 4 (p + 8) s = Ok (ucast c) \<and> ld 8 (p + 24) s = Ok (enc_ptr (Some tp) s) \<and>
     ld 8 (p + 16) s = Ok (enc_ptr cl s) \<and> text_ptr (Some tp) \<and> text_ptr cl"
| "frame_at s p (Gosub tp cl) \<longleftrightarrow> program s p = STACK_GOSUB_FLAG \<and> ld 8 (p + 16) s = Ok (enc_ptr (Some tp) s) \<and>
     ld 8 (p + 8) s = Ok (enc_ptr cl s) \<and> text_ptr (Some tp) \<and> text_ptr cl"

fun stack :: "basic \<Rightarrow> nat \<Rightarrow> frame list \<Rightarrow> bool" where
  "stack s p [] \<longleftrightarrow> p = kRamSize"
| "stack s p (f # fs) \<longleftrightarrow> frame_at s p f \<and> stack s (p + frame_size f) fs"

subsection \<open>Pointers in frames\<close>

text \<open>The array does not start at address 0 and does not wrap round the address space.\<close>

definition base_ok :: "basic \<Rightarrow> bool" where
  "base_ok s \<longleftrightarrow> program_base s \<noteq> 0 \<and> unat (program_base s) + kRamSize < 2 ^ 64"

lemma dec_off_enc: "text_ptr (Some q) \<Longrightarrow> dec_off (enc_ptr (Some q) s) s = q"
  by (simp add: dec_off_def enc_ptr_def text_ptr_def kRamSize_def unat_of_nat take_bit_nat_eq_self)

lemma dec_ptr_enc:
  assumes "base_ok s" and "text_ptr p"
  shows "dec_ptr (enc_ptr p s) s = p"
proof (cases p)
  case None
  then show ?thesis by (simp add: dec_ptr_def enc_ptr_def)
next
  case (Some q)
  have q: "unat (of_nat q :: u64) = q"
    using assms(2) Some by (simp add: text_ptr_def kRamSize_def unat_of_nat take_bit_nat_eq_self)
  have "unat (program_base s + of_nat q) = unat (program_base s) + q"
    using assms q by (subst unat_add_lem[THEN iffD1]) (auto simp: base_ok_def text_ptr_def Some)
  moreover have "0 < unat (program_base s)" using assms(1) by (simp add: base_ok_def unat_gt_0)
  ultimately have "program_base s + of_nat q \<noteq> 0" by (metis add_gr_0 less_numeral_extra(3) unat_0)
  then show ?thesis using dec_off_enc[of q s] assms(2) by (simp add: Some dec_ptr_def enc_ptr_def)
qed

subsection \<open>Frames in memory\<close>

lemma ld_bound: "ld n p s = Ok w \<Longrightarrow> p + n \<le> kRamSize"
  by (simp add: ld_def split: if_splits)

lemma ld_cong: "(\<And>i. i < n \<Longrightarrow> program s' (p + i) = program s (p + i)) \<Longrightarrow> ld n p s' = ld n p s"
  by (simp add: ld_def load_bytes_eqI[of n "program s'" p "program s" p])

lemma frame_at_bound: "frame_at s p f \<Longrightarrow> p + frame_size f \<le> kRamSize"
  by (cases f) (auto dest: ld_bound simp: sizeof_for_frame_def sizeof_gosub_frame_def)

lemma frame_at_cong:
  assumes "\<And>q. p \<le> q \<Longrightarrow> q < p + frame_size f \<Longrightarrow> program s' q = program s q" and "program_base s' = program_base s"
  shows "frame_at s' p f = frame_at s p f"
proof -
  have e: "enc_ptr a s' = enc_ptr a s" for a using assms(2) by (cases a) (simp_all add: enc_ptr_def)
  have l: "ld n (p + k) s' = ld n (p + k) s" if "k + n \<le> frame_size f" for n k
    using that assms(1) by (intro ld_cong) (simp add: add.assoc)
  show ?thesis
    using l assms(1)[of p] assms(1)[of "p + 1"] by (cases f) (simp_all add: e sizeof_for_frame_def sizeof_gosub_frame_def)
qed

lemma stack_cong:
  assumes "\<And>q. p \<le> q \<Longrightarrow> program s' q = program s q" and "program_base s' = program_base s"
  shows "stack s' p fs = stack s p fs"
  using assms(1)
proof (induction fs arbitrary: p)
  case (Cons f fs)
  then show ?case using frame_at_cong[of p f s' s] assms(2) by simp
qed simp

lemma stack_bound: "stack s p fs \<Longrightarrow> p \<le> kRamSize"
  by (cases fs) (auto dest: frame_at_bound)

lemma stack_split: "stack s p (fs @ gs) \<Longrightarrow> stack s (p + sum_list (map frame_size fs)) gs"
  by (induction fs arbitrary: p) (auto simp flip: add.assoc)

lemma ld_st_same: "n \<le> 8 \<Longrightarrow> st n p w s = Ok s' \<Longrightarrow> ld n p s' = Ok (take_bit (8 * n) w)"
  by (auto simp: st_def ld_def mem_simps le_word_le_bytes split: if_splits)

lemma ld_st_other:
  "st n p w s = Ok s' \<Longrightarrow> q + k \<le> p \<or> p + n \<le> q \<Longrightarrow> ld k q s' = ld k q s"
  by (auto simp: st_def ld_def mem_simps split: if_splits)

lemma le_word_le_bytes_4_cast: "le_word (le_bytes 4 w) = ucast (ucast w :: u32)"
  by (rule bit_word_eqI) (auto simp: le_word_le_bytes bit_simps dest: bit_imp_le_length)

lemma enc_ptr_sp [simp]: "enc_ptr p (s\<lparr>sp := a\<rparr>) = enc_ptr p s" "enc_ptr p (s\<lparr>program := m\<rparr>) = enc_ptr p s"
  "enc_ptr p (s\<lparr>linenum := n\<rparr>) = enc_ptr p s" "enc_ptr p (s\<lparr>current_line := cl\<rparr>) = enc_ptr p s"
  by (simp_all add: enc_ptr_def split: option.splits)

lemma is_letter_unat: "is_letter c \<longleftrightarrow> 65 \<le> unat c \<and> unat c \<le> 90"
  by (simp add: is_letter_def word_less_nat_alt not_less)

text \<open>The variables lie in front of the stack.\<close>

definition vars_below :: "nat \<Rightarrow> basic \<Rightarrow> bool" where
  "vars_below p s \<longleftrightarrow> variables_begin s + 26 * VAR_SIZE \<le> p \<and> p \<le> kRamSize"

lemma var_addr_below: "is_letter c \<Longrightarrow> vars_below p s \<Longrightarrow> var_addr c s + 8 \<le> p"
  by (auto simp: is_letter_unat vars_below_def var_addr_def VAR_SIZE_def)

subsection \<open>Pushing\<close>

lemma push_for_writes:
  assumes st: "stack s (sp s) fs" and v: "is_letter v" and room: "vars_below (sp s - sizeof_for_frame) s"
    and sp: "sizeof_for_frame \<le> sp s" "stack_limit s \<le> sp s" and ptrs: "text_ptr (Some (txtpos s))" "text_ptr (current_line s)"
  shows "\<exists>m. push_for v i t c s = Ok (L_run_next_statement, s\<lparr>sp := sp s - sizeof_for_frame, program := m\<rparr>) \<and>
    stack (s\<lparr>sp := sp s - sizeof_for_frame, program := m\<rparr>) (sp s - sizeof_for_frame)
      (For v (ucast t) (ucast c) (txtpos s) (current_line s) # fs) \<and>
    (\<forall>q < sp s - sizeof_for_frame. m q = store_bytes (program s) (var_addr v s) (le_bytes 8 i) q)"
proof -
  define f where "f = sp s - sizeof_for_frame"
  have f: "f + 32 = sp s" "sp s \<le> kRamSize" using sp stack_bound[OF st] by (auto simp: f_def sizeof_for_frame_def)
  have va: "var_addr v s + 8 \<le> f" using v room by (simp add: f_def var_addr_below)
  let ?m0 = "store_bytes (program s) (var_addr v s) (le_bytes 8 i)"
  define m where "m = store_bytes (store_bytes (store_bytes (store_bytes (?m0(f := STACK_FOR_FLAG, f + 1 := v))
      (f + 4) (le_bytes 4 t)) (f + 8) (le_bytes 4 c)) (f + 24) (le_bytes 8 (enc_ptr (Some (txtpos s)) s)))
      (f + 16) (le_bytes 8 (enc_ptr (current_line s) s))"
  let ?s = "s\<lparr>sp := f, program := m\<rparr>"
  have "push_for v i t c s = Ok (L_run_next_statement, ?s)"
    using f(2) va sp(2) by (simp add: push_for_def Let_def st_var_def st_def wr_def m_def var_addr_def VAR_SIZE_def
        sizeof_for_frame_def flip: f(1))
  moreover have "program ?s q = program s q" if "f + 32 \<le> q" for q
    using that va by (simp add: m_def store_bytes_apply)
  then have "stack ?s (f + 32) fs" using st f by (subst stack_cong[where s = s]) simp_all
  moreover have "frame_at ?s f (For v (ucast t) (ucast c) (txtpos s) (current_line s))"
    using f va ptrs by (simp add: ld_def m_def mem_simps le_word_le_bytes_4_cast)
  moreover have "m q = ?m0 q" if "q < f" for q using that by (simp add: m_def store_bytes_apply)
  ultimately show ?thesis by (auto simp: f_def sizeof_for_frame_def)
qed

lemma push_for_pushes:
  assumes st: "stack s (sp s) fs" and v: "is_letter v" and room: "vars_below (sp s - sizeof_for_frame) s"
    and sp: "sizeof_for_frame \<le> sp s" "stack_limit s \<le> sp s" and ptrs: "text_ptr (Some (txtpos s))" "text_ptr (current_line s)"
  shows "\<exists>m. push_for v i t c s = Ok (L_run_next_statement, s\<lparr>sp := sp s - sizeof_for_frame, program := m\<rparr>) \<and>
    stack (s\<lparr>sp := sp s - sizeof_for_frame, program := m\<rparr>) (sp s - sizeof_for_frame)
      (For v (ucast t) (ucast c) (txtpos s) (current_line s) # fs) \<and>
    load_bytes m (var_addr v s) 8 = le_bytes 8 i \<and> (\<forall>q < var_addr v s. m q = program s q)"
proof -
  note va = var_addr_below[OF v room]
  obtain m where m: "push_for v i t c s = Ok (L_run_next_statement, s\<lparr>sp := sp s - sizeof_for_frame, program := m\<rparr>)"
      "stack (s\<lparr>sp := sp s - sizeof_for_frame, program := m\<rparr>) (sp s - sizeof_for_frame)
        (For v (ucast t) (ucast c) (txtpos s) (current_line s) # fs)"
      "\<forall>q < sp s - sizeof_for_frame. m q = store_bytes (program s) (var_addr v s) (le_bytes 8 i) q"
    using push_for_writes[OF assms] by blast
  have "load_bytes m (var_addr v s) 8 = le_bytes 8 i"
    using va m(3) by (intro nth_equalityI) (auto simp: store_bytes_apply)
  moreover have "m q = program s q" if "q < var_addr v s" for q using that va m(3) by (simp add: store_bytes_apply)
  ultimately show ?thesis using m(1,2) by blast
qed

lemma gosub_pushes:
  assumes g: "l_gosub s = Ok (L_execline, s1)" and st: "stack s (sp s) fs" and cl: "text_ptr (current_line s)"
  shows "sp s1 + sizeof_gosub_frame = sp s" and "program_base s1 = program_base s"
    and "stack s1 (sp s1) (Gosub (txtpos s1) (current_line s) # fs)"
    and "\<And>q. q < sp s1 \<Longrightarrow> program s1 q = program s q"
proof -
  obtain v sa where e: "eval_expr s = Ok (v, sa)" using g by (auto simp: l_gosub_def res_simps)
  note sa = still_fields[OF eval_expr_still[OF e]]
  define f where "f = sp s - sizeof_gosub_frame"
  define m where "m = store_bytes (store_bytes ((program s)(f := STACK_GOSUB_FLAG)) (f + 16)
      (le_bytes 8 (enc_ptr (Some (txtpos sa)) sa))) (f + 8) (le_bytes 8 (enc_ptr (current_line sa) sa))"
  obtain l where s1: "s1 = sa\<lparr>linenum := ucast v, sp := f, program := m, current_line := Some l\<rparr>"
    and t: "txtpos sa < kRamSize" and f24: "sizeof_gosub_frame \<le> sp s"
    using g by (auto simp: l_gosub_def e res_simps Let_def fail_def bad_end_def rd_def wr_def st_def sa m_def f_def
        split: if_splits)
  have f: "f + 24 = sp s" "sp s \<le> kRamSize" using f24 stack_bound[OF st] by (auto simp: f_def sizeof_gosub_frame_def)
  show "sp s1 + sizeof_gosub_frame = sp s" "program_base s1 = program_base s"
    using f by (simp_all add: s1 sa sizeof_gosub_frame_def)
  show "program s1 q = program s q" if "q < sp s1" for q using that by (simp add: s1 m_def store_bytes_apply)
  have "program s1 q = program s q" if "f + 24 \<le> q" for q using that by (simp add: s1 m_def store_bytes_apply)
  then have "stack s1 (f + 24) fs" using st f(1) by (subst stack_cong[where s = s]) (simp_all add: s1 sa)
  moreover have "frame_at s1 f (Gosub (txtpos sa) (current_line s))"
    using f t cl by (simp add: s1 ld_def m_def mem_simps sa text_ptr_def enc_ptr_def split: option.splits)
  ultimately show "stack s1 (sp s1) (Gosub (txtpos s1) (current_line s) # fs)"
    by (simp add: s1 sizeof_gosub_frame_def)
qed

subsection \<open>Walking the stack\<close>

text \<open>The frame NEXT or RETURN looks for, told apart by the keyword that was read last.\<close>

fun wants :: "basic \<Rightarrow> frame \<Rightarrow> bool" where
  "wants s (For v t c tp cl) \<longleftrightarrow> table_index s = 5 \<and> program s (txtpos s - 1) = v"
| "wants s (Gosub tp cl) \<longleftrightarrow> table_index s = 10"

text \<open>The cursor stands right behind the variable of a NEXT.\<close>

definition behind_letter :: "basic \<Rightarrow> bool" where
  "behind_letter s \<longleftrightarrow> 0 < txtpos s \<and> txtpos s \<le> kRamSize \<and> is_letter (program s (txtpos s - 1))"

definition behind_ascii :: "basic \<Rightarrow> bool" where
  "behind_ascii s \<longleftrightarrow> 0 < txtpos s \<and> txtpos s \<le> kRamSize \<and> unat (program s (txtpos s - 1)) < 128"

lemma behind_letter_ascii: "behind_letter s \<Longrightarrow> behind_ascii s"
  by (auto simp: behind_letter_def behind_ascii_def is_letter_unat)

lemma same_char: "unat c < 128 \<Longrightarrow> ((ucast c :: u32) = scast (v :: u8)) \<longleftrightarrow> c = v"
proof
  assume "(ucast c :: u32) = scast v"
  then have "(ucast (ucast c :: u32) :: u8) = ucast (scast v :: u32)" by simp
  moreover have "(ucast (ucast c :: u32) :: u8) = c" by (rule bit_word_eqI) (auto simp: bit_simps)
  moreover have "(ucast (scast v :: u32) :: u8) = v" by (rule bit_word_eqI) (auto simp: bit_simps)
  ultimately show "c = v" by simp
next
  assume c: "unat c < 128" and "c = v"
  have "\<not> bit (unat c) 7" using c by (simp add: bit_iff_odd)
  then have "\<not> bit c 7" by (simp add: bit_unsigned_iff)
  then have "n < 7" if "bit c n" for n using bit_imp_le_length[OF that] that by (cases "n = 7") simp_all
  then show "(ucast c :: u32) = scast v" unfolding \<open>c = v\<close>[symmetric]
    by (intro bit_word_eqI) (auto simp: bit_simps min_def dest: leD)
qed

lemma for_frame_var_at:
  assumes "frame_at s (tempsp s) (For v t c tp cl)" and "table_index s = 5 \<longrightarrow> behind_ascii s"
  shows "for_frame_var s = Ok (if wants s (For v t c tp cl) then Some v else None)"
proof -
  have "tempsp s + 1 < kRamSize" using assms(1) by (auto dest: ld_bound)
  then show ?thesis using assms by (auto simp: for_frame_var_def rd_def behind_ascii_def same_char)
qed

lemma walk_skip:
  assumes "stack s (tempsp s) (hs @ gs)" and "list_all (\<lambda>h. \<not> wants s h) hs" and "table_index s = 5 \<longrightarrow> behind_ascii s"
  shows "walk_frames s = walk_frames (s\<lparr>tempsp := tempsp s + sum_list (map frame_size hs)\<rparr>)"
  using assms
proof (induction hs arbitrary: s)
  case Nil
  then show ?case by simp
next
  case (Cons h hs)
  let ?s = "s\<lparr>tempsp := tempsp s + frame_size h\<rparr>"
  have w: "wants ?s = wants s" by (intro ext) (case_tac x, simp_all)
  have h: "frame_at s (tempsp s) h" using Cons.prems(1) by simp
  have "tempsp s < kRamSize - 1"
    using frame_at_bound[OF h] by (cases h) (simp_all add: sizeof_for_frame_def sizeof_gosub_frame_def)
  then have "walk_frames s = walk_frames ?s"
    using h Cons.prems(2,3) for_frame_var_at[of s]
    by (subst walk_frames.simps) (cases h; auto simp: rd_def)
  also have "\<dots> = walk_frames (s\<lparr>tempsp := tempsp s + sum_list (map frame_size (h # hs))\<rparr>)"
    using Cons.prems Cons.IH[of ?s] by (simp add: w behind_ascii_def add.assoc stack_cong[of _ ?s s])
  finally show ?case .
qed

lemma wants_cong:
  "table_index s' = table_index s \<Longrightarrow> txtpos s' = txtpos s \<Longrightarrow> program s' = program s \<Longrightarrow> wants s' h = wants s h"
  by (cases h) simp_all

lemma walk_to:
  assumes "stack s (sp s) (hs @ gs)" and "list_all (\<lambda>h. \<not> wants s h) hs" and "table_index s = 5 \<longrightarrow> behind_ascii s"
  shows "l_gosub_return s = walk_frames (s\<lparr>tempsp := sp s + sum_list (map frame_size hs)\<rparr>)"
proof -
  let ?s = "s\<lparr>tempsp := sp s\<rparr>"
  have "wants ?s = wants s" by (intro ext wants_cong) simp_all
  moreover have "stack ?s p fs = stack s p fs" for p fs by (rule stack_cong) simp_all
  ultimately show ?thesis
    using walk_skip[of ?s hs gs] assms by (simp add: l_gosub_return_def behind_ascii_def)
qed

lemma tempsp_frame: "frame_at (s\<lparr>tempsp := p\<rparr>) q f = frame_at s q f"
  by (rule frame_at_cong) simp_all

lemma dec_ptr_tempsp: "dec_ptr w (s\<lparr>tempsp := p\<rparr>) = dec_ptr w s" "dec_off w (s\<lparr>tempsp := p\<rparr>) = dec_off w s"
  "ld n q (s\<lparr>tempsp := p\<rparr>) = ld n q s"
  by (simp_all add: dec_ptr_def dec_off_def ld_def)

lemma return_finds:
  assumes st: "stack s (sp s) (hs @ Gosub tp cl # gs)" and "list_all (\<lambda>h. \<not> wants s h) hs"
    and ti: "table_index s = 10" and "base_ok s"
  defines "q \<equiv> sp s + sum_list (map frame_size hs)"
  shows "l_gosub_return s = Ok (L_run_next_statement,
    s\<lparr>tempsp := q, current_line := cl, txtpos := tp, sp := sp s + sizeof_gosub_frame\<rparr>)"
proof -
  have f: "frame_at s q (Gosub tp cl)" using stack_split[OF st] by (simp add: q_def)
  have "q < kRamSize - 1" using frame_at_bound[OF f] by (simp add: sizeof_gosub_frame_def)
  then have "walk_frames (s\<lparr>tempsp := q\<rparr>) = return_frame (s\<lparr>tempsp := q\<rparr>)"
    using f ti by (subst walk_frames.simps) (auto simp: rd_def)
  also have "\<dots> = Ok (L_run_next_statement,
    s\<lparr>tempsp := q, current_line := cl, txtpos := tp, sp := sp s + sizeof_gosub_frame\<rparr>)"
    using f assms(4) by (simp add: return_frame_def dec_ptr_tempsp dec_ptr_enc dec_off_enc)
  finally show ?thesis using walk_to[OF st] assms by simp
qed

lemma walk_past:
  assumes "stack s (sp s) fs" and "list_all (\<lambda>h. \<not> wants s h) fs" and "table_index s = 5 \<longrightarrow> behind_ascii s"
  shows "l_gosub_return s = fail ''1329'' L_qhow (s\<lparr>tempsp := kRamSize\<rparr>)"
proof -
  have "stack s (sp s + sum_list (map frame_size fs)) []" using stack_split[of s "sp s" fs "[]"] assms(1) by simp
  moreover have "l_gosub_return s = walk_frames (s\<lparr>tempsp := sp s + sum_list (map frame_size fs)\<rparr>)"
    using walk_to[of s fs "[]"] assms by simp
  ultimately show ?thesis by (subst (asm) walk_frames.simps) (simp add: kRamSize_def)
qed

definition loops :: "u32 \<Rightarrow> u32 \<Rightarrow> u64 \<Rightarrow> bool" where
  "loops t c v \<longleftrightarrow> (0 < sint c \<and> sint v \<le> sint t) \<or> (sint c < 0 \<and> sint t \<le> sint v)"

lemma sint_scast_u32 [simp]: "sint (scast (c :: u32) :: u64) = sint c"
  by (rule sint_up_scast) (simp add: is_up)

lemma ucast_ucast_u32_u64 [simp]: "(ucast (ucast (c :: u32) :: u64) :: u32) = c"
  by (rule bit_word_eqI) (auto simp: bit_simps)

lemma next_finds:
  assumes st: "stack s (sp s) (hs @ For v t c tp cl # gs)" and hs: "list_all (\<lambda>h. \<not> wants s h) hs"
    and ti: "table_index s = 5" and b: "behind_letter s" "program s (txtpos s - 1) = v" and base: "base_ok s"
    and vb: "vars_below (sp s) s" and x: "ld_var v s = Ok x"
  defines "q \<equiv> sp s + sum_list (map frame_size hs)" and "y \<equiv> x + scast c"
  defines "s' \<equiv> s\<lparr>tempsp := q, program := store_bytes (program s) (var_addr v s) (le_bytes 8 y)\<rparr>"
  shows "l_gosub_return s = Ok (L_run_next_statement,
    if loops t c y then s'\<lparr>txtpos := tp, current_line := cl\<rparr> else s'\<lparr>sp := q + sizeof_for_frame\<rparr>)"
proof -
  have f: "frame_at s q (For v t c tp cl)" using stack_split[OF st] by (simp add: q_def)
  then have "frame_at (s\<lparr>tempsp := q\<rparr>) q (For v t c tp cl)" by (simp only: tempsp_frame)
  then have v: "for_frame_var (s\<lparr>tempsp := q\<rparr>) = Ok (Some v)"
    using for_frame_var_at[of "s\<lparr>tempsp := q\<rparr>" v t c tp cl] behind_letter_ascii[OF b(1)] b(2) ti by (simp add: behind_ascii_def)
  have "q < kRamSize - 1" using frame_at_bound[OF f] by (simp add: sizeof_for_frame_def)
  then have w: "walk_frames (s\<lparr>tempsp := q\<rparr>) = next_frame v (s\<lparr>tempsp := q\<rparr>)"
    using f v by (subst walk_frames.simps) (auto simp: rd_def)
  have va: "var_addr v s + 8 \<le> q" "var_addr v s + 8 \<le> kRamSize"
    using var_addr_below[OF _ vb, of v] b vb by (simp_all add: behind_letter_def q_def vars_below_def)
  then have "frame_at s' q (For v t c tp cl)"
    using f by (subst frame_at_cong[where s = s]) (simp_all add: s'_def store_bytes_apply)
  moreover have "ld_var v (s\<lparr>tempsp := q\<rparr>) = Ok x" "st_var v y (s\<lparr>tempsp := q\<rparr>) = Ok s'"
    "ld_var v s' = Ok y" "base_ok s'" "tempsp s' = q"
    using x va base by (simp_all add: s'_def ld_var_def st_var_def ld_def st_def var_addr_def mem_simps VAR_SIZE_def base_ok_def)
  ultimately have "next_frame v (s\<lparr>tempsp := q\<rparr>) = Ok (L_run_next_statement,
      if loops t c y then s'\<lparr>txtpos := tp, current_line := cl\<rparr> else s'\<lparr>sp := q + sizeof_for_frame\<rparr>)"
    using f by (simp add: next_frame_def dec_ptr_tempsp loops_def word_sless_alt word_sle_eq dec_ptr_enc dec_off_enc flip: y_def)
  then show ?thesis using walk_to[OF st hs] behind_letter_ascii[OF b(1)] w by (simp add: q_def)
qed

end
