(* ===== verification/Basic_Store.thy ===== *)
theory Basic_Store
  imports Basic_Edit
begin

text \<open>
  The program store: the lines of the BASIC program as an ordered map from line numbers to texts,
  and the proof that the byte-level editor of \<open>Basic_Edit\<close> implements update and deletion on it.
  \<open>stored s ps\<close> says that the records of the lines \<open>ps\<close> fill \<open>program\<close> from \<open>program_start\<close> to
  \<open>program_end\<close>.
\<close>

subsection \<open>Moving bytes\<close>

definition moved :: "mem \<Rightarrow> nat \<Rightarrow> nat \<Rightarrow> nat \<Rightarrow> mem" where
  "moved m src dest n = (\<lambda>p. if dest \<le> p \<and> p < dest + n then m (src + (p - dest)) else m p)"

lemma moved_0 [simp]: "moved m src dest 0 = m"
  by (auto simp: moved_def fun_eq_iff)

lemma copy_down_moved:
  assumes "dest \<le> src" and "src + n \<le> kRamSize"
  shows "copy_down n src dest s = Ok (dest + n, s\<lparr>program := moved (program s) src dest n\<rparr>)"
  using assms
proof (induction n arbitrary: src dest s)
  case 0
  then show ?case by simp
next
  case (Suc n)
  let ?s = "s\<lparr>program := (program s)(dest := program s src)\<rparr>"
  have "copy_down (Suc n) src dest s = copy_down n (Suc src) (Suc dest) ?s"
    using Suc.prems by (simp add: rd_def wr_def)
  also have "\<dots> = Ok (Suc dest + n, ?s\<lparr>program := moved (program ?s) (Suc src) (Suc dest) n\<rparr>)"
    using Suc.prems by (intro Suc.IH) auto
  also have "moved (program ?s) (Suc src) (Suc dest) n = moved (program s) src dest (Suc n)"
    using Suc.prems(1) by (auto simp: moved_def fun_eq_iff intro!: arg_cong[where f = "program s"])
  finally show ?case by simp
qed

lemma copy_up_moved:
  assumes "src \<le> dest" and "n \<le> src" and "dest \<le> kRamSize"
  shows "copy_up n src dest s = Ok (s\<lparr>program := moved (program s) (src - n) (dest - n) n\<rparr>)"
  using assms
proof (induction n arbitrary: src dest s)
  case 0
  then show ?case by simp
next
  case (Suc n)
  let ?s = "s\<lparr>program := (program s)(dest - 1 := program s (src - 1))\<rparr>"
  have "copy_up (Suc n) src dest s = copy_up n (src - 1) (dest - 1) ?s"
    using Suc.prems by (auto simp: rd_def wr_def)
  also have "\<dots> = Ok (?s\<lparr>program := moved (program ?s) (src - 1 - n) (dest - 1 - n) n\<rparr>)"
    using Suc.prems by (intro Suc.IH) auto
  also have "moved (program ?s) (src - 1 - n) (dest - 1 - n) n = moved (program s) (src - Suc n) (dest - Suc n) (Suc n)"
    using Suc.prems by (auto simp: moved_def fun_eq_iff)
  finally show ?case by simp
qed

lemma copy_in_moved:
  assumes "start \<le> txtpos s" and "txtpos s + n \<le> kRamSize"
  shows "copy_in n start s = Ok (start + n, s\<lparr>program := moved (program s) (txtpos s) start n,
     txtpos := txtpos s + n\<rparr>)"
  using assms
proof (induction n arbitrary: start s)
  case 0
  then show ?case by simp
next
  case (Suc n)
  let ?s = "s\<lparr>program := (program s)(start := program s (txtpos s)), txtpos := Suc (txtpos s)\<rparr>"
  have "copy_in (Suc n) start s = copy_in n (Suc start) ?s"
    using Suc.prems by (simp add: rd_def wr_def)
  also have "\<dots> = Ok (Suc start + n, ?s\<lparr>program := moved (program ?s) (txtpos ?s) (Suc start) n,
      txtpos := txtpos ?s + n\<rparr>)"
    using Suc.prems by (intro Suc.IH) auto
  also have "moved (program ?s) (txtpos ?s) (Suc start) n = moved (program s) (txtpos s) start (Suc n)"
    using Suc.prems(1) by (auto simp: moved_def fun_eq_iff intro!: arg_cong[where f = "program s"])
  finally show ?case by simp
qed

lemma unat_diff_u32:
  assumes "b \<le> a" and "a < 2 ^ 32"
  shows "unat (of_nat a - of_nat b :: u32) = a - b"
proof -
  have "(of_nat a - of_nat b :: u32) = of_nat (a - b)" using assms(1) by simp
  moreover have "a - b < 2 ^ 32" using assms(2) by linarith
  ultimately show ?thesis by (simp only: unat_of_nat) (simp add: take_bit_nat_eq_self)
qed

lemma at_moved_low: "p + length xs \<le> dest \<Longrightarrow>
   at (s\<lparr>program := moved m src dest n\<rparr>) p xs = at (s\<lparr>program := m\<rparr>) p xs"
  by (auto simp: at_iff moved_def)

lemma at_moved_high: "dest + n \<le> p \<Longrightarrow>
   at (s\<lparr>program := moved m src dest n\<rparr>) p xs = at (s\<lparr>program := m\<rparr>) p xs"
  by (auto simp: at_iff moved_def)

lemma at_moved_in: "length xs = n \<Longrightarrow> dest + n \<le> kRamSize \<Longrightarrow> at (s\<lparr>program := m\<rparr>) src xs \<Longrightarrow>
   at (s\<lparr>program := moved m src dest n\<rparr>) dest xs"
  by (auto simp: at_iff moved_def)

lemmas at_moved = at_moved_low at_moved_high at_moved_in

subsection \<open>The insertion loop\<close>

lemma space_to_make_min:
  assumes "program_end s \<le> txtpos s" and "txtpos s \<le> kRamSize"
  shows "unat (space_to_make l s) = min (txtpos s - program_end s) (unat l)"
proof -
  have "unat (of_nat (txtpos s) - of_nat (program_end s) :: u32) = txtpos s - program_end s"
    using assms by (intro unat_diff_u32) (auto simp: kRamSize_def)
  then show ?thesis
    by (auto simp: space_to_make_def Let_def word_less_nat_alt unat_ucast_u8_u32 min_def)
qed

lemma insert_loop_step:
  assumes "at s 0 (xs @ ys)" and "at s (txtpos s) ls" and "program_end s = length xs + length ys"
    and "program_end s < txtpos s" and "k \<le> txtpos s - program_end s" and "k \<le> length ls"
    and "ls \<noteq> []"
  shows "copy_up (length ys) (program_end s) (program_end s + k) s =
      Ok (s\<lparr>program := moved (program s) (length xs) (length xs + k) (length ys)\<rparr>)"
    and "copy_in k (length xs) (s\<lparr>program := moved (program s) (length xs) (length xs + k) (length ys)\<rparr>) =
      Ok (length xs + k, s\<lparr>program := moved (moved (program s) (length xs) (length xs + k) (length ys))
            (txtpos s) (length xs) k, txtpos := txtpos s + k\<rparr>)"
    and "at (s\<lparr>program := moved (moved (program s) (length xs) (length xs + k) (length ys))
            (txtpos s) (length xs) k\<rparr>) 0 ((xs @ take k ls) @ ys)"
    and "at (s\<lparr>program := moved (moved (program s) (length xs) (length xs + k) (length ys))
            (txtpos s) (length xs) k\<rparr>) (txtpos s + k) (drop k ls)"
proof -
  have b: "txtpos s + length ls \<le> kRamSize" using at_nth[OF assms(2), of "length ls - 1"] assms(7)
    by (cases ls) auto
  show "copy_up (length ys) (program_end s) (program_end s + k) s =
      Ok (s\<lparr>program := moved (program s) (length xs) (length xs + k) (length ys)\<rparr>)"
    using assms b by (subst copy_up_moved) auto
  show "copy_in k (length xs) (s\<lparr>program := moved (program s) (length xs) (length xs + k) (length ys)\<rparr>) =
      Ok (length xs + k, s\<lparr>program := moved (moved (program s) (length xs) (length xs + k) (length ys))
            (txtpos s) (length xs) k, txtpos := txtpos s + k\<rparr>)"
    using assms b by (subst copy_in_moved) auto
  have ls: "at s (txtpos s) (take k ls)" "at s (txtpos s + k) (drop k ls)"
    using assms(2,6) at_append[of s "txtpos s" "take k ls" "drop k ls"] by auto
  show "at (s\<lparr>program := moved (moved (program s) (length xs) (length xs + k) (length ys))
            (txtpos s) (length xs) k\<rparr>) 0 ((xs @ take k ls) @ ys)"
    using assms ls b by (auto simp: at_append at_moved min_absorb2 simp del: append_assoc)
  show "at (s\<lparr>program := moved (moved (program s) (length xs) (length xs + k) (length ys))
            (txtpos s) (length xs) k\<rparr>) (txtpos s + k) (drop k ls)"
    using assms ls b by (simp add: at_moved)
qed

lemma insert_loop_at:
  assumes "at s 0 (xs @ ys)" and "at s (txtpos s) ls" and "program_end s = length xs + length ys"
    and "program_end s < txtpos s" and "txtpos s + length ls \<le> kRamSize" and "length ls = unat l"
  shows "\<exists>m. insert_loop l (length xs) s = Ok (s\<lparr>program := m, txtpos := txtpos s + length ls,
        program_end := program_end s + length ls\<rparr>) \<and>
      at (s\<lparr>program := m\<rparr>) 0 (xs @ ls @ ys) \<and>
      (\<forall>p \<ge> program_end s + length ls. m p = program s p)"
  using assms
proof (induction "length ls" arbitrary: l xs ls s rule: less_induct)
  case less
  show ?case
  proof (cases "l = 0")
    case True
    then have "ls = []" "insert_loop l (length xs) s = Ok s"
      using less.prems(6) by (simp_all add: insert_loop.simps)
    then show ?thesis using less.prems(1) by (intro exI[of _ "program s"]) simp
  next
    case False
    then have ne: "ls \<noteq> []" using less.prems(6) by (auto simp: unsigned_eq_0_iff)
    define sp where "sp = space_to_make l s"
    define k where "k = unat sp"
    have k: "k = min (txtpos s - program_end s) (length ls)"
      unfolding k_def sp_def using less.prems by (subst space_to_make_min) auto
    then have k0: "0 < k" "k \<le> length ls" "k \<le> txtpos s - program_end s"
      using less.prems(4) ne by auto
    note st = insert_loop_step[OF less.prems(1,2,3,4) k0(3,2) ne]
    define m where "m = moved (moved (program s) (length xs) (length xs + k) (length ys)) (txtpos s) (length xs) k"
    define s1 where "s1 = s\<lparr>program := m, txtpos := txtpos s + k, program_end := program_end s + k\<rparr>"
    have tomove: "unat (of_nat (program_end s) - of_nat (length xs) :: u32) = length ys"
      using less.prems(3,4,5) by (subst unat_diff_u32) (auto simp: kRamSize_def)
    have "sp \<noteq> 0" using k0(1) k_def by auto
    then have run: "insert_loop l (length xs) s = insert_loop (l - ucast sp) (length (xs @ take k ls)) s1"
      using False st(1,2) k0(2) tomove
      by (subst insert_loop.simps) (simp add: Let_def k_def m_def s1_def flip: sp_def)
    have "\<exists>m'. insert_loop (l - ucast sp) (length (xs @ take k ls)) s1 =
        Ok (s1\<lparr>program := m', txtpos := txtpos s1 + length (drop k ls),
              program_end := program_end s1 + length (drop k ls)\<rparr>) \<and>
      at (s1\<lparr>program := m'\<rparr>) 0 ((xs @ take k ls) @ drop k ls @ ys) \<and>
      (\<forall>p \<ge> program_end s1 + length (drop k ls). m' p = program s1 p)"
    proof (rule less.hyps)
      show "length (drop k ls) < length ls" using k0 by auto
      show "at s1 0 ((xs @ take k ls) @ ys)"
        using st(3) at_program_cong[of s1 "s\<lparr>program := m\<rparr>"] by (simp add: s1_def m_def)
      show "at s1 (txtpos s1) (drop k ls)"
        using st(4) at_program_cong[of s1 "s\<lparr>program := m\<rparr>"] by (simp add: s1_def m_def)
      show "length (drop k ls) = unat (l - ucast sp)"
        using k0(2) less.prems(6) k_def by (subst unat_sub_ucast_u32_u8) auto
    qed (use less.prems k0 in \<open>auto simp: s1_def\<close>)
    then obtain m' where m': "insert_loop (l - ucast sp) (length (xs @ take k ls)) s1 =
        Ok (s1\<lparr>program := m', txtpos := txtpos s1 + length (drop k ls),
              program_end := program_end s1 + length (drop k ls)\<rparr>)"
      "at (s1\<lparr>program := m'\<rparr>) 0 ((xs @ take k ls) @ drop k ls @ ys)"
      "\<forall>p \<ge> program_end s1 + length (drop k ls). m' p = program s1 p" by blast
    have tl: "take k ls @ drop k ls @ ys = ls @ ys" by (metis append.assoc append_take_drop_id)
    have "at (s\<lparr>program := m'\<rparr>) 0 (xs @ ls @ ys)"
      using m'(2) at_program_cong[of "s1\<lparr>program := m'\<rparr>" "s\<lparr>program := m'\<rparr>"] by (simp add: tl)
    moreover have "\<forall>p \<ge> program_end s + length ls. m' p = program s p"
      using m'(3) k0 less.prems(3) by (auto simp: s1_def m_def moved_def)
    ultimately show ?thesis
      using run m'(1) k0(2) by (intro exI[of _ m']) (simp add: s1_def)
  qed
qed

subsection \<open>Program lines\<close>

type_synonym pline = "u32 \<times> u8 list"

fun rec_bytes :: "pline \<Rightarrow> u8 list" where
  "rec_bytes (n, t) = le_bytes 4 (ucast n) @ of_nat (length t + 6) # t @ [NL]"

definition prog_bytes :: "pline list \<Rightarrow> u8 list" where
  "prog_bytes ps = concat (map rec_bytes ps)"

definition wf_line :: "pline \<Rightarrow> bool" where
  "wf_line l \<longleftrightarrow> NL \<notin> set (snd l) \<and> length (snd l) \<le> 249"

definition sorted_lines :: "pline list \<Rightarrow> bool" where
  "sorted_lines ps \<longleftrightarrow> sorted_wrt (<) (map fst ps)"

definition stored :: "basic \<Rightarrow> pline list \<Rightarrow> bool" where
  "stored s ps \<longleftrightarrow> program_start s = 0 \<and> program_end s = length (prog_bytes ps) \<and>
     at s 0 (prog_bytes ps) \<and> list_all wf_line ps \<and> sorted_lines ps"

text \<open>The abstract editor: an entry replaces or inserts a line, an empty text deletes it.\<close>

definition upd_line :: "u32 \<Rightarrow> u8 list \<Rightarrow> pline list \<Rightarrow> pline list" where
  "upd_line n t ps = takeWhile (\<lambda>l. fst l < n) ps @ (n, t) # dropWhile (\<lambda>l. fst l \<le> n) ps"

definition del_line :: "u32 \<Rightarrow> pline list \<Rightarrow> pline list" where
  "del_line n ps = takeWhile (\<lambda>l. fst l < n) ps @ dropWhile (\<lambda>l. fst l \<le> n) ps"

definition edit_line :: "u32 \<Rightarrow> u8 list \<Rightarrow> pline list \<Rightarrow> pline list" where
  "edit_line n t ps = (if t = [] then del_line n ps else upd_line n t ps)"

lemma length_rec_bytes [simp]: "length (rec_bytes l) = length (snd l) + 6"
  by (cases l) simp

lemma prog_bytes_simps [simp]:
  "prog_bytes [] = []" "prog_bytes (l # ps) = rec_bytes l @ prog_bytes ps"
  "prog_bytes (ps @ qs) = prog_bytes ps @ prog_bytes qs"
  by (simp_all add: prog_bytes_def)

lemma load_bytes_at: "at s p xs \<Longrightarrow> load_bytes (program s) p (length xs) = xs"
  by (rule nth_equalityI) (auto simp: at_iff)

lemma ld_LINENUM_at:
  assumes "at s p (le_bytes 4 (ucast n) @ xs)"
  shows "ld_LINENUM p s = Ok n"
proof -
  have a: "at s p (le_bytes 4 (ucast n))" using assms by (simp add: at_append)
  then have "p + 4 \<le> kRamSize" using at_nth[OF a, of 3] by simp
  moreover have "load_bytes (program s) p 4 = le_bytes 4 (ucast n)" using load_bytes_at[OF a] by simp
  ultimately show ?thesis
    by (simp add: ld_LINENUM_def ld_def sizeof_LINENUM_def)
      (rule bit_word_eqI, auto simp: bit_simps)
qed

lemma unat_reclen: "length t \<le> 249 \<Longrightarrow> unat (of_nat (length t + 6) :: u8) = length t + 6"
  by (simp only: unat_of_nat) (simp add: take_bit_nat_eq_self)

lemma rd_reclen:
  assumes "at s p (rec_bytes l @ xs)" and "wf_line l"
  shows "\<exists>b. rd (p + sizeof_LINENUM) s = Ok b \<and> unat b = length (snd l) + 6"
proof -
  obtain n t where l: "l = (n, t)" by (cases l)
  have "at s (p + 4) [of_nat (length t + 6)]" using assms(1) by (simp add: l at_append)
  then show ?thesis
    using assms(2) unat_reclen[of t] by (auto simp: l rd_def sizeof_LINENUM_def wf_line_def)
qed

lemma findline_loop_at:
  assumes "at s p (prog_bytes ps)" and "list_all wf_line ps" and "program_end s = p + length (prog_bytes ps)"
  shows "findline_loop p s =
    Ok (p + length (prog_bytes (takeWhile (\<lambda>l. fst l < linenum s) ps)))"
  using assms
proof (induction ps arbitrary: p)
  case Nil
  then show ?case by (simp add: findline_loop.simps)
next
  case (Cons l ps)
  obtain n t where l: "l = (n, t)" by (cases l)
  have num: "ld_LINENUM p s = Ok n" using Cons.prems(1) by (intro ld_LINENUM_at) (auto simp: l)
  obtain b where b: "rd (p + sizeof_LINENUM) s = Ok b" "unat b = length (snd l) + 6"
    using rd_reclen[of s p l "prog_bytes ps"] Cons.prems by auto
  have "b \<noteq> 0" using b(2) by auto
  have rest: "findline_loop (p + unat b) s =
      Ok (p + unat b + length (prog_bytes (takeWhile (\<lambda>l. fst l < linenum s) ps)))"
    using Cons.prems b(2) by (intro Cons.IH) (auto simp: at_append add.assoc)
  have ne: "p \<noteq> program_end s" using Cons.prems(3) by (simp add: l)
  show ?case
  proof (cases "linenum s \<le> n")
    case True
    then show ?thesis using ne num by (subst findline_loop.simps) (simp add: l)
  next
    case False
    then show ?thesis
      using ne num b \<open>b \<noteq> 0\<close> rest by (subst findline_loop.simps) (simp add: l)
  qed
qed

lemma findline_stored:
  assumes "stored s ps"
  shows "findline s = Ok (length (prog_bytes (takeWhile (\<lambda>l. fst l < linenum s) ps)))"
  using findline_loop_at[of s 0 ps] assms by (simp add: findline_def stored_def)

lemma remove_line_at:
  assumes "at s 0 (xs @ rec_bytes l @ ys)" and "wf_line l"
    and "program_end s = length (xs @ rec_bytes l @ ys)" and "program_end s \<le> kRamSize"
  shows "\<exists>m. remove_line (length xs) s = Ok (s\<lparr>program := m, program_end := length (xs @ ys)\<rparr>) \<and>
     at (s\<lparr>program := m\<rparr>) 0 (xs @ ys) \<and> (\<forall>p \<ge> program_end s. m p = program s p)"
proof -
  let ?src = "length xs + (length (snd l) + 6)"
  let ?m = "moved (program s) ?src (length xs) (length ys)"
  obtain b where b: "rd (length xs + sizeof_LINENUM) s = Ok b" "unat b = length (snd l) + 6"
    using rd_reclen[of s "length xs" l ys] assms(1,2) by (auto simp: at_append)
  have tm: "unat (of_nat (program_end s) - of_nat (length xs + unat b) :: u32) = length ys"
    using assms(3,4) b(2) by (subst unat_diff_u32) (auto simp: kRamSize_def)
  have "remove_line (length xs) s = Ok (s\<lparr>program := ?m, program_end := length (xs @ ys)\<rparr>)"
    unfolding remove_line_def b(1) bnd_Ok Let_def tm
    using assms(3,4) by (simp add: b(2) copy_down_moved)
  moreover have "at (s\<lparr>program := ?m\<rparr>) 0 (xs @ ys)"
    using assms by (auto simp: at_append at_moved add.assoc)
  moreover have "\<forall>p \<ge> program_end s. ?m p = program s p"
    using assms(3) by (simp add: moved_def)
  ultimately show ?thesis by blast
qed

subsection \<open>The abstract editor\<close>

lemma sorted_lines_simps [simp]:
  "sorted_lines []"
  "sorted_lines (l # ps) \<longleftrightarrow> (\<forall>x \<in> set ps. fst l < fst x) \<and> sorted_lines ps"
  by (auto simp: sorted_lines_def)

lemma dropWhile_le_eq:
  "sorted_lines ps \<Longrightarrow> \<forall>x \<in> set ps. n < fst x \<Longrightarrow> dropWhile (\<lambda>l. fst l \<le> n) ps = ps"
  by (cases ps) auto

lemma split_at_line:
  assumes "sorted_lines ps"
  shows "(\<exists>t. dropWhile (\<lambda>l. fst l < n) ps = (n, t) # dropWhile (\<lambda>l. fst l \<le> n) ps) \<or>
    (dropWhile (\<lambda>l. fst l < n) ps = dropWhile (\<lambda>l. fst l \<le> n) ps \<and>
      (\<forall>x \<in> set (dropWhile (\<lambda>l. fst l < n) ps). n < fst x))"
  using assms
proof (induction ps)
  case Nil
  then show ?case by simp
next
  case (Cons l ps)
  consider "fst l < n" | "fst l = n" | "n < fst l" by (rule linorder_cases)
  then show ?case
  proof cases
    case 1
    then show ?thesis using Cons by simp
  next
    case 2
    then show ?thesis
      using Cons.prems dropWhile_le_eq[of ps n] by (cases l) auto
  next
    case 3
    then show ?thesis using Cons.prems by auto
  qed
qed

lemma set_takeWhile_lt: "x \<in> set (takeWhile (\<lambda>l. fst l < n) ps) \<Longrightarrow> fst x < n \<and> x \<in> set ps"
  by (auto dest: set_takeWhileD)

lemma set_dropWhile_le: "sorted_lines ps \<Longrightarrow> x \<in> set (dropWhile (\<lambda>l. fst l \<le> n) ps) \<Longrightarrow> n < fst x \<and> x \<in> set ps"
  by (induction ps) (force split: if_splits)+

lemma sorted_lines_append:
  "sorted_lines (ps @ qs) \<longleftrightarrow> sorted_lines ps \<and> sorted_lines qs \<and> (\<forall>x \<in> set ps. \<forall>y \<in> set qs. fst x < fst y)"
  by (auto simp: sorted_lines_def sorted_wrt_append)

lemma sorted_takeWhile_lines: "sorted_lines ps \<Longrightarrow> sorted_lines (takeWhile P ps)"
  by (metis sorted_lines_append takeWhile_dropWhile_id)

lemma sorted_dropWhile_lines: "sorted_lines ps \<Longrightarrow> sorted_lines (dropWhile P ps)"
  by (metis sorted_lines_append takeWhile_dropWhile_id)

lemma sorted_edit_line: "sorted_lines ps \<Longrightarrow> sorted_lines (edit_line n t ps)"
  by (fastforce simp: edit_line_def upd_line_def del_line_def sorted_lines_append
      intro: sorted_takeWhile_lines sorted_dropWhile_lines dest: set_takeWhile_lt set_dropWhile_le)

lemma wf_edit_line:
  "list_all wf_line ps \<Longrightarrow> wf_line (n, t) \<Longrightarrow> list_all wf_line (edit_line n t ps)"
  by (auto simp: edit_line_def upd_line_def del_line_def list_all_iff
      dest: set_takeWhileD set_dropWhileD)

lemma map_of_notin: "\<forall>x \<in> set ps. fst x \<noteq> n \<Longrightarrow> map_of ps n = None"
  by (force simp: map_of_eq_None_iff)

lemma map_of_edit_line:
  assumes "sorted_lines ps"
  shows "map_of (edit_line n t ps) = (map_of ps)(n := (if t = [] then None else Some t))"
proof -
  let ?a = "takeWhile (\<lambda>l. fst l < n) ps" and ?d = "dropWhile (\<lambda>l. fst l \<le> n) ps"
  have a: "map_of ?a n = None" by (rule map_of_notin) (auto dest: set_takeWhile_lt)
  have d: "map_of ?d n = None" by (rule map_of_notin) (use set_dropWhile_le[OF assms] in fastforce)
  have "map_of ps k = map_of (?a @ ?d) k" if "k \<noteq> n" for k
  proof -
    have "map_of (dropWhile (\<lambda>l. fst l < n) ps) k = map_of ?d k"
      using split_at_line[OF assms, of n] that by auto
    then have "map_of (?a @ dropWhile (\<lambda>l. fst l < n) ps) k = map_of (?a @ ?d) k"
      by (simp only: map_of_append map_add_def)
    then show ?thesis by simp
  qed
  with a d show ?thesis
    by (auto simp: fun_eq_iff edit_line_def upd_line_def del_line_def map_add_def split: option.splits)
qed

subsection \<open>Storing a line\<close>

lemma linelen_loop_at:
  assumes "at s (txtpos s + unat l) (t @ [NL])" and "NL \<notin> set t" and "unat l + length t \<le> 255"
  shows "linelen_loop l s = Ok (l + of_nat (length t))"
  using assms
proof (induction t arbitrary: l)
  case Nil
  then show ?case by (simp add: linelen_loop.simps rd_def)
next
  case (Cons c t)
  then have "l \<noteq> 255" by auto
  then have "unat (l + 1) = Suc (unat l)" by (rule unat_u8_Suc)
  then have "linelen_loop (l + 1) s = Ok (l + 1 + of_nat (length t))"
    using Cons.prems by (intro Cons.IH) auto
  then show ?case
    using Cons.prems \<open>l \<noteq> 255\<close> by (subst linelen_loop.simps) (auto simp: rd_def add.assoc)
qed

text \<open>The line with its header, written in front of the text in the buffer.\<close>

lemma write_header:
  assumes "at s (p + 5) (t @ [NL])" and "length t \<le> 249"
  shows "\<exists>m. bnd (st_LINENUM p n s) (\<lambda>s. wr (p + sizeof_LINENUM) (of_nat (length t + 6)) s) =
      Ok (s\<lparr>program := m\<rparr>) \<and> at (s\<lparr>program := m\<rparr>) p (rec_bytes (n, t)) \<and>
      (\<forall>q. q < p \<or> p + 5 \<le> q \<longrightarrow> m q = program s q)"
proof -
  let ?h = "le_bytes 4 (ucast n)"
  let ?m = "(store_bytes (program s) p ?h)(p + 4 := of_nat (length t + 6))"
  have b: "p + 5 < kRamSize" using assms(1) by (cases t) auto
  have "bnd (st_LINENUM p n s) (\<lambda>s. wr (p + sizeof_LINENUM) (of_nat (length t + 6)) s) =
      Ok (s\<lparr>program := ?m\<rparr>)"
    using b by (simp add: st_LINENUM_def st_def wr_def sizeof_LINENUM_def)
  moreover have "at (s\<lparr>program := ?m\<rparr>) p ?h"
    using b by (auto simp: at_iff store_bytes_apply)
  moreover have "at (s\<lparr>program := ?m\<rparr>) (p + 5) (t @ [NL])"
    using assms(1) unfolding at_iff by (simp add: store_bytes_apply)
  ultimately show ?thesis
    using b by (intro exI[of _ ?m]) (auto simp: at_append store_bytes_apply add.assoc
        numeral_eq_Suc eval_nat_numeral)
qed

lemma length_dropWhile_bytes: "length (prog_bytes (dropWhile P ps)) \<le> length (prog_bytes ps)"
  by (induction ps) auto

lemma length_del_line: "length (prog_bytes (del_line n ps)) \<le> length (prog_bytes ps)"
  unfolding del_line_def
  by (induction ps) (auto intro: le_trans[OF length_dropWhile_bytes])

text \<open>A line with the number that is entered is taken out first.\<close>

lemma drop_old_line:
  assumes "stored s ps" and "program_end s \<le> kRamSize"
    and A: "A = takeWhile (\<lambda>l. fst l < linenum s) ps" and D: "D = dropWhile (\<lambda>l. fst l \<le> linenum s) ps"
  shows "\<exists>m. (if length (prog_bytes A) = program_end s then Ok s
         else bnd (ld_LINENUM (length (prog_bytes A)) s)
           (\<lambda>n. if n = linenum s then remove_line (length (prog_bytes A)) s else Ok s)) =
       Ok (s\<lparr>program := m, program_end := length (prog_bytes A @ prog_bytes D)\<rparr>) \<and>
     at (s\<lparr>program := m\<rparr>) 0 (prog_bytes A @ prog_bytes D) \<and> (\<forall>p \<ge> program_end s. m p = program s p)"
proof -
  let ?R = "dropWhile (\<lambda>l. fst l < linenum s) ps"
  have ps: "ps = A @ ?R" by (simp add: A)
  have st: "at s 0 (prog_bytes A @ prog_bytes ?R)" "program_end s = length (prog_bytes A @ prog_bytes ?R)"
    "list_all wf_line ?R" "sorted_lines ps"
    using assms(1) ps prog_bytes_simps(3)[of A ?R]
    by (auto simp: stored_def list_all_iff simp del: prog_bytes_simps dest!: set_dropWhileD)
  consider t where "?R = (linenum s, t) # D" | "?R = D" "\<forall>x \<in> set D. linenum s < fst x"
    using split_at_line[OF st(4), of "linenum s"] by (auto simp: D)
  then show ?thesis
  proof cases
    case 1
    then have "ld_LINENUM (length (prog_bytes A)) s = Ok (linenum s)"
      using st(1) by (intro ld_LINENUM_at[where xs = "[]"]) (auto simp: at_append)
    then show ?thesis
      using remove_line_at[of s "prog_bytes A" "(linenum s, t)" "prog_bytes D"] st assms(2) 1 by auto
  next
    case 2
    note st' = st[unfolded 2(1)]
    show ?thesis
    proof (cases D)
      case Nil
      then show ?thesis using st' by (intro exI[of _ "program s"]) simp
    next
      case (Cons l D')
      then have "ld_LINENUM (length (prog_bytes A)) s = Ok (fst l)"
        using st'(1) by (cases l) (auto simp: at_append intro!: ld_LINENUM_at[where xs = "[]"])
      moreover have "fst l \<noteq> linenum s" using 2(2) Cons by auto
      ultimately show ?thesis using st' by (intro exI[of _ "program s"]) (simp add: Cons)
    qed
  qed
qed

text \<open>With the old line gone, the record in front of the variables is copied to its place.\<close>

lemma merge_record:
  assumes "at s 0 (prog_bytes A @ prog_bytes D)" and rec: "at s (txtpos s) (rec_bytes (n, t))"
    and "program_end s = length (prog_bytes A @ prog_bytes D)" and "program_end s < txtpos s"
    and "wf_line (n, t)" and L: "L = (if t = [] then [] else [(n, t)])"
  shows "\<exists>m tp. bnd (rd (txtpos s + 5) s)
      (\<lambda>c. if c = NL then Ok s else insert_loop (of_nat (length t + 6)) (length (prog_bytes A)) s) =
      Ok (s\<lparr>program := m, txtpos := tp, program_end := length (prog_bytes (A @ L @ D))\<rparr>) \<and>
    at (s\<lparr>program := m\<rparr>) 0 (prog_bytes (A @ L @ D)) \<and> (\<forall>p \<ge> txtpos s + length t + 6. m p = program s p)"
proof (cases t)
  case Nil
  then have "rd (txtpos s + 5) s = Ok NL" using rec by (simp add: at_append rd_def add.commute)
  moreover have "L = []" using L Nil by simp
  ultimately show ?thesis
    using assms(1,3) by (intro exI[of _ "program s"] exI[of _ "txtpos s"]) simp
next
  case (Cons c t')
  have b: "txtpos s + length t + 6 \<le> kRamSize" using at_nth[OF rec, of "length t + 5"] by simp
  have "rd (txtpos s + 5) s = Ok c" "c \<noteq> NL"
    using rec b assms(5) by (auto simp: Cons wf_line_def at_append rd_def add.commute)
  moreover have "L = [(n, t)]" using L Cons by simp
  moreover have "length (rec_bytes (n, t)) = unat (of_nat (length t + 6) :: u8)"
    using assms(5) unat_reclen[of t] by (simp add: wf_line_def)
  moreover have "\<exists>m. insert_loop (of_nat (length t + 6)) (length (prog_bytes A)) s =
      Ok (s\<lparr>program := m, txtpos := txtpos s + length (rec_bytes (n, t)),
        program_end := program_end s + length (rec_bytes (n, t))\<rparr>) \<and>
      at (s\<lparr>program := m\<rparr>) 0 (prog_bytes A @ rec_bytes (n, t) @ prog_bytes D) \<and>
      (\<forall>p \<ge> program_end s + length (rec_bytes (n, t)). m p = program s p)"
    using calculation(4) assms(3,4) b
    by (intro insert_loop_at[OF assms(1) rec]) simp_all
  then obtain m where "insert_loop (of_nat (length t + 6)) (length (prog_bytes A)) s =
      Ok (s\<lparr>program := m, txtpos := txtpos s + (length t + 6),
        program_end := program_end s + (length t + 6)\<rparr>)"
     "at (s\<lparr>program := m\<rparr>) 0 (prog_bytes A @ rec_bytes (n, t) @ prog_bytes D)"
     "\<forall>p \<ge> program_end s + (length t + 6). m p = program s p"
    by (auto simp del: rec_bytes.simps)
  ultimately show ?thesis
    using assms(3,4) by (intro exI[of _ m] exI[of _ "txtpos s + (length t + 6)"])
      (simp del: rec_bytes.simps add: add.commute add.left_commute)
qed

lemma store_line_stored:
  assumes "stored s ps" and line: "at s (txtpos s) (t @ [NL])" and "wf_line (linenum s, t)"
    and room: "program_end s + 5 < txtpos s"
  shows "\<exists>m tp pe. store_line s = Ok (s\<lparr>program := m, txtpos := tp, program_end := pe\<rparr>) \<and>
    stored (s\<lparr>program := m, program_end := pe\<rparr>) (edit_line (linenum s) t ps) \<and>
    (\<forall>p \<ge> txtpos s + length t + 1. m p = program s p)"
proof -
  define p where "p = txtpos s - 5"
  define A where "A = takeWhile (\<lambda>l. fst l < linenum s) ps"
  define D where "D = dropWhile (\<lambda>l. fst l \<le> linenum s) ps"
  have t: "NL \<notin> set t" "length t \<le> 249" using assms(3) by (auto simp: wf_line_def)
  have tx: "txtpos s = p + 5" "program_end s < p" using room by (auto simp: p_def)
  have bound: "p + 5 + length t < kRamSize" using at_nth[OF line, of "length t"] tx by simp
  have len: "linelen_loop 0 s = Ok (of_nat (length t))"
    using linelen_loop_at[of s 0 t] line t by simp
  obtain m1 where h: "bnd (st_LINENUM p (linenum s) (s\<lparr>txtpos := p\<rparr>)) (\<lambda>s. wr (p + sizeof_LINENUM) (of_nat (length t + 6)) s) =
      Ok (s\<lparr>txtpos := p, program := m1\<rparr>)" "at (s\<lparr>txtpos := p, program := m1\<rparr>) p (rec_bytes (linenum s, t))"
    "\<forall>q. q < p \<or> p + 5 \<le> q \<longrightarrow> m1 q = program s q"
    using write_header[of "s\<lparr>txtpos := p\<rparr>" p t "linenum s"] line t tx by auto
  define s1 where "s1 = s\<lparr>txtpos := p, program := m1\<rparr>"
  have s1: "stored s1 ps" using assms(1) h(3) tx by (auto simp: s1_def stored_def at_iff)
  obtain m2 where m2: "(if length (prog_bytes A) = program_end s1 then Ok s1
         else bnd (ld_LINENUM (length (prog_bytes A)) s1)
           (\<lambda>n. if n = linenum s1 then remove_line (length (prog_bytes A)) s1 else Ok s1)) =
       Ok (s1\<lparr>program := m2, program_end := length (prog_bytes A @ prog_bytes D)\<rparr>)"
     "at (s1\<lparr>program := m2\<rparr>) 0 (prog_bytes A @ prog_bytes D)" "\<forall>q \<ge> program_end s1. m2 q = m1 q"
    using drop_old_line[OF s1, of A D] tx bound by (auto simp: s1_def A_def D_def)
  define s2 where "s2 = s1\<lparr>program := m2, program_end := length (prog_bytes A @ prog_bytes D)\<rparr>"
  have fl: "findline s1 = Ok (length (prog_bytes A))"
    using findline_stored[OF s1] by (simp add: A_def s1_def)
  have rec: "at s2 p (rec_bytes (linenum s, t))" using h(2) m2(3) tx by (auto simp: s2_def s1_def at_iff)
  obtain s0 where s0: "st_LINENUM p (linenum s) (s\<lparr>txtpos := p\<rparr>) = Ok s0" "txtpos s0 = p"
     "wr (p + sizeof_LINENUM) (of_nat (length t + 6)) s0 = Ok s1"
    using h(1) by (auto simp: st_LINENUM_def st_def s1_def split: if_splits)
  have run: "store_line s = bnd (rd (txtpos s2 + 5) s2)
      (\<lambda>c. if c = NL then Ok s2 else insert_loop (of_nat (length t + 6)) (length (prog_bytes A)) s2)"
    using s0 fl m2(1) tx len
    by (simp add: store_line_def Let_def sizeof_LINENUM_def add.commute s2_def)
      (simp add: s1_def s2_def add.assoc cong: if_cong)
  obtain m tp where m: "store_line s = Ok (s2\<lparr>program := m, txtpos := tp,
        program_end := length (prog_bytes (edit_line (linenum s) t ps))\<rparr>)"
     "at (s2\<lparr>program := m\<rparr>) 0 (prog_bytes (edit_line (linenum s) t ps))"
     "\<forall>q \<ge> txtpos s2 + length t + 6. m q = program s2 q"
  proof -
    have "edit_line (linenum s) t ps = A @ (if t = [] then [] else [(linenum s, t)]) @ D"
      by (simp add: edit_line_def upd_line_def del_line_def A_def D_def)
    moreover have "at s2 0 (prog_bytes A @ prog_bytes D)"
      using m2(2) at_program_cong[of s2 "s1\<lparr>program := m2\<rparr>"] by (simp add: s2_def)
    moreover have "program_end s2 < txtpos s2" "txtpos s2 = p"
      using length_del_line[of "linenum s" ps] assms(1) tx
      by (auto simp: s2_def s1_def stored_def del_line_def simp flip: A_def D_def)
    ultimately show ?thesis
      using merge_record[of s2 A D "linenum s" t] rec assms(3) that
      unfolding run by (auto simp: s2_def simp del: rec_bytes.simps)
  qed
  have "stored (s\<lparr>program := m, program_end := length (prog_bytes (edit_line (linenum s) t ps))\<rparr>)
      (edit_line (linenum s) t ps)"
    using assms(1,3) m(2) unfolding stored_def at_iff
    by (auto simp: sorted_edit_line wf_edit_line s2_def s1_def)
  moreover have "\<forall>q \<ge> txtpos s + length t + 1. m q = program s q"
    using m(3) m2(3) h(3) tx by (auto simp: s2_def s1_def)
  ultimately show ?thesis using m(1) by (auto simp: s2_def s1_def)
qed

subsection \<open>The interface of the store\<close>

text \<open>What the prompt relies on: an entry sets the text of its number (or removes it), and keeps the
  store well formed.\<close>

locale line_store =
  fixes ok :: "'p \<Rightarrow> bool" and look :: "'p \<Rightarrow> u32 \<Rightarrow> u8 list option"
    and enter :: "u32 \<Rightarrow> u8 list \<Rightarrow> 'p \<Rightarrow> 'p"
  assumes enter_ok: "ok p \<Longrightarrow> wf_line (n, t) \<Longrightarrow> ok (enter n t p)"
    and look_enter: "ok p \<Longrightarrow> look (enter n t p) = (look p)(n := (if t = [] then None else Some t))"
begin

lemma enter_all_ok: "ok p \<Longrightarrow> list_all wf_line es \<Longrightarrow> ok (fold (\<lambda>(n, t). enter n t) es p)"
  by (induction es arbitrary: p) (auto intro: enter_ok)

lemma look_enter_all:
  assumes "ok p" and "list_all wf_line es"
  shows "look (fold (\<lambda>(n, t). enter n t) es p) n =
    (case map_of (rev es) n of None \<Rightarrow> look p n | Some t \<Rightarrow> if t = [] then None else Some t)"
  using assms
proof (induction es arbitrary: p)
  case Nil
  then show ?case by simp
next
  case (Cons e es)
  then show ?case
    by (cases e) (auto simp: enter_ok look_enter map_add_def split: option.splits)
qed

end

text \<open>A store that is determined by its texts, as one that keeps its lines in order is.\<close>

locale ordered_line_store = line_store +
  assumes look_inject: "ok p \<Longrightarrow> ok q \<Longrightarrow> look p = look q \<Longrightarrow> p = q"
begin

lemma enter_again:
  assumes "ok p" and "wf_line (n, t)" and "wf_line (n, t')"
  shows "enter n t (enter n t' p) = enter n t p"
  using assms by (intro look_inject) (simp_all add: enter_ok look_enter)

lemma enter_commute:
  assumes "ok p" and "wf_line (n, t)" and "wf_line (n', t')" and "n \<noteq> n'"
  shows "enter n t (enter n' t' p) = enter n' t' (enter n t p)"
  using assms by (intro look_inject) (simp_all add: enter_ok look_enter fun_upd_twist)

lemma enter_all_order:
  assumes "ok p" and "list_all wf_line es" and "list_all wf_line fs"
    and "map_of (rev es) = map_of (rev fs)"
  shows "fold (\<lambda>(n, t). enter n t) es p = fold (\<lambda>(n, t). enter n t) fs p"
  using assms by (intro look_inject) (auto simp: enter_all_ok look_enter_all)

end

definition store_ok :: "pline list \<Rightarrow> bool" where
  "store_ok ps \<longleftrightarrow> list_all wf_line ps \<and> sorted_lines ps"

lemma sorted_lines_distinct: "sorted_lines ps \<Longrightarrow> distinct (map fst ps)"
  unfolding sorted_lines_def using strict_sorted_iff by blast

lemma sorted_lines_unique:
  assumes "sorted_lines ps" and "sorted_lines qs" and "map_of ps = map_of qs"
  shows "ps = qs"
proof (rule map_sorted_distinct_set_unique[where f = fst])
  show "set ps = set qs"
    by (simp only: assms(3) set_map_of_compr[OF sorted_lines_distinct[OF assms(1)]]
        set_map_of_compr[OF sorted_lines_distinct[OF assms(2)]])
  have "inj_on fst (set ps)" "inj_on fst (set qs)"
    using assms(1,2) by (auto dest: sorted_lines_distinct simp: distinct_map)
  with \<open>set ps = set qs\<close> show "inj_on fst (set ps \<union> set qs)" by simp
qed (use assms in \<open>auto simp: sorted_lines_def sorted_lines_distinct dest: strict_sorted_imp_sorted\<close>)

interpretation plines: ordered_line_store store_ok map_of edit_line
proof unfold_locales
  show "store_ok p \<Longrightarrow> wf_line (n, t) \<Longrightarrow> store_ok (edit_line n t p)" for p n t
    by (simp add: store_ok_def wf_edit_line sorted_edit_line)
  show "store_ok p \<Longrightarrow> map_of (edit_line n t p) = (map_of p)(n := (if t = [] then None else Some t))" for p n t
    by (simp add: store_ok_def map_of_edit_line)
  show "store_ok p \<Longrightarrow> store_ok q \<Longrightarrow> map_of p = map_of q \<Longrightarrow> p = q" for p q
    by (simp add: store_ok_def sorted_lines_unique)
qed

end
