(* ===== verification/Basic_Line.thy ===== *)
theory Basic_Line
  imports Basic_Store Basic_Exec
begin

text \<open>
  From the keyboard to the program store: what \<open>getln\<close> leaves in the line buffer for a sequence of
  keys (backspaces and the full buffer included), the case folding, the move of the line to the top
  of the memory and the number in front of it.  Together with \<open>Basic_Store\<close> they give the contract
  of the prompt: a numbered line is merged into the ordered program.
\<close>

subsection \<open>Reading a line\<close>

text \<open>The line that the keys \<open>cs\<close> leave behind \<open>acc\<close> in a buffer of \<open>n\<close> characters; \<open>None\<close> when a
  backspace goes in front of the buffer.\<close>

fun typed :: "nat \<Rightarrow> u8 list \<Rightarrow> u8 list \<Rightarrow> u8 list option" where
  "typed n acc [] = Some acc"
| "typed n acc (c # cs) =
     (if c = CTRLH then if acc = [] then None else typed n (butlast acc) cs
      else if length acc = n then typed n acc cs
      else typed n (acc @ [c]) cs)"

definition line_key :: "u8 \<Rightarrow> bool" where
  "line_key c \<longleftrightarrow> c \<noteq> NL \<and> c \<noteq> CR_char"

lemma typed_length: "typed n acc cs = Some line \<Longrightarrow> length acc \<le> n \<Longrightarrow> length line \<le> n"
  by (induction n acc cs rule: typed.induct) (auto split: if_splits)

lemma typed_plain:
  "CTRLH \<notin> set cs \<Longrightarrow> length acc + length cs \<le> n \<Longrightarrow> typed n acc cs = Some (acc @ cs)"
  by (induction cs arbitrary: acc) auto

lemma typed_set: "typed n acc cs = Some line \<Longrightarrow> set line \<subseteq> set acc \<union> set cs"
  by (induction n acc cs rule: typed.induct) (fastforce split: if_splits dest: in_set_butlastD)+

lemma ucast_key [simp]: "(ucast (ucast (ucast (c :: u8) :: u16) :: u32) :: u8) = c"
  by (rule bit_word_eqI) (auto simp: bit_simps)

text \<open>One key at a time.\<close>

lemma ucast_u16_u32_u8 [simp]: "(ucast (ucast (e :: u16) :: u32) :: u8) = ucast e"
  by (rule bit_word_eqI) (auto simp: bit_simps)

lemma getln_loop_end:
  assumes "keys s = e # ks" and "(ucast e :: u8) = NL \<or> (ucast e :: u8) = CR_char" and "txtpos s < kRamSize"
  shows "getln_loop s = Ok (s\<lparr>program := (program s)(txtpos s := NL),
     con_out := con_out s @ shown NL @ shown CR_char, keys := ks\<rparr>)"
  using assms by (subst getln_loop.simps) (cases s, auto simp: ub_inchar_def line_terminator_def wr_def ub_outchar_shown)

lemma getln_loop_bs:
  assumes "keys s = ucast CTRLH # ks" and "txtpos s \<noteq> program_end s" and "0 < txtpos s"
  shows "getln_loop s = getln_loop (s\<lparr>con_out := con_out s @ [8, 32, 8], txtpos := txtpos s - 1, keys := ks\<rparr>)"
  using assms by (subst getln_loop.simps) (cases s, auto simp: ub_inchar_def ub_backspace_def OutputString_def)

lemma getln_loop_full:
  assumes "keys s = ucast c # ks" and "line_key c" and "c \<noteq> CTRLH" and "txtpos s = variables_begin s - 2"
  shows "getln_loop s = getln_loop (s\<lparr>con_out := con_out s @ shown BELL, txtpos := txtpos s, keys := ks\<rparr>)"
  using assms by (subst getln_loop.simps) (cases s, auto simp: ub_inchar_def ub_outchar_shown line_key_def)

lemma getln_loop_char:
  assumes "keys s = ucast c # ks" and "line_key c" and "c \<noteq> CTRLH" and "txtpos s \<noteq> variables_begin s - 2"
    and "txtpos s < kRamSize"
  shows "getln_loop s = getln_loop (s\<lparr>program := (program s)(txtpos s := c),
     con_out := con_out s @ shown c, txtpos := Suc (txtpos s), keys := ks\<rparr>)"
  using assms by (subst getln_loop.simps) (cases s, auto simp: ub_inchar_def ub_outchar_shown line_key_def wr_def)

text \<open>What remains to be shown for the rest of the line, from the state \<open>s1\<close> after some keys.\<close>

definition got_line :: "basic \<Rightarrow> basic res \<Rightarrow> nat \<Rightarrow> nat \<Rightarrow> u8 list \<Rightarrow> u16 list \<Rightarrow> bool" where
  "got_line s r p n line ks \<longleftrightarrow>
     (\<exists>m out. r = Ok (s\<lparr>program := m, con_out := out, txtpos := p + length line, keys := ks\<rparr>) \<and>
       at (s\<lparr>program := m\<rparr>) p (line @ [NL]) \<and> (\<forall>q. q < p \<or> p + n < q \<longrightarrow> m q = program s q))"

lemma got_line_step:
  assumes "got_line (s\<lparr>program := m1, con_out := out1, txtpos := t1, keys := k1\<rparr>) r p n line ks"
    and "\<forall>q. q < p \<or> p + n < q \<longrightarrow> m1 q = program s q"
  shows "got_line s r p n line ks"
proof -
  obtain m out where "r = Ok (s\<lparr>program := m, con_out := out, txtpos := p + length line, keys := ks\<rparr>)"
      "at (s\<lparr>program := m\<rparr>) p (line @ [NL])" "\<forall>q. q < p \<or> p + n < q \<longrightarrow> m q = m1 q"
    using assms(1) by (auto simp: got_line_def at_iff)
  then show ?thesis
    using assms(2) unfolding got_line_def by (intro exI[of _ m] exI[of _ out]) auto
qed

lemma basic_same [simp]:
  "s\<lparr>program := program s, con_out := o1, txtpos := t1, keys := k1\<rparr> = s\<lparr>con_out := o1, txtpos := t1, keys := k1\<rparr>"
  "s\<lparr>con_out := o1, txtpos := txtpos s, keys := k1\<rparr> = s\<lparr>con_out := o1, keys := k1\<rparr>"
  by (cases s, simp)+

lemma getln_loop_typed:
  assumes "p = program_end s + 4" and "p + n + 2 = variables_begin s" and "variables_begin s \<le> kRamSize"
    and "txtpos s = p + length acc" and "length acc \<le> n" and "at s p acc"
    and "keys s = map ucast cs @ e # ks" and "(ucast e :: u8) = NL \<or> (ucast e :: u8) = CR_char"
    and "list_all line_key cs" and "typed n acc cs = Some line"
  shows "got_line s (getln_loop s) p n line ks"
  using assms
proof (induction n acc cs arbitrary: s rule: typed.induct)
  case (1 n acc)
  then have "getln_loop s = Ok (s\<lparr>program := (program s)(p + length acc := NL),
      con_out := con_out s @ shown NL @ shown CR_char, txtpos := p + length acc, keys := ks\<rparr>)"
    by (subst getln_loop_end) (cases s, auto)+
  then show ?case
    using 1 unfolding got_line_def
    by (intro exI[of _ "(program s)(p + length line := NL)"] exI[of _ "con_out s @ shown NL @ shown CR_char"])
      (auto simp: at_iff nth_append)
next
  case (2 n acc c cs)
  let ?ks = "map ucast cs @ e # ks"
  have c: "line_key c" using 2 by auto
  consider "c = CTRLH" "acc \<noteq> []" | "c \<noteq> CTRLH" "length acc = n" | "c \<noteq> CTRLH" "length acc < n"
    using 2 by (cases "acc = []") (auto split: if_splits)
  then show ?case
  proof cases
    case 1
    let ?s = "s\<lparr>program := program s, con_out := con_out s @ [8, 32, 8], txtpos := txtpos s - 1, keys := ?ks\<rparr>"
    have "got_line ?s (getln_loop ?s) p n line ks"
      using 1 "2.prems" by (intro "2.IH"(1)) (auto simp: at_iff nth_butlast Suc_leI)
    then have "got_line s (getln_loop ?s) p n line ks" by (rule got_line_step) simp
    then show ?thesis using getln_loop_bs[of s ?ks] "2.prems" 1 by simp
  next
    case 2
    let ?s = "s\<lparr>program := program s, con_out := con_out s @ shown BELL, txtpos := txtpos s, keys := ?ks\<rparr>"
    have "got_line ?s (getln_loop ?s) p n line ks"
      using 2 "2.prems" by (intro "2.IH"(2)) (auto simp: at_iff)
    then have "got_line s (getln_loop ?s) p n line ks" by (rule got_line_step) simp
    moreover have "txtpos s = variables_begin s - 2" using "2.prems"(2,4) 2 by linarith
    then have "getln_loop s = getln_loop ?s"
      using getln_loop_full[of s c ?ks] "2.prems"(7) 2 c by (simp only: basic_same) simp
    ultimately show ?thesis by (simp only:)
  next
    case 3
    let ?s = "s\<lparr>program := (program s)(txtpos s := c), con_out := con_out s @ shown c, txtpos := Suc (txtpos s), keys := ?ks\<rparr>"
    have "got_line ?s (getln_loop ?s) p n line ks"
      using 3 "2.prems" by (intro "2.IH"(3)) (auto simp: at_iff nth_append)
    then have "got_line s (getln_loop ?s) p n line ks"
      by (rule got_line_step) (use "2.prems" 3 in auto)
    then show ?thesis using getln_loop_char[of s c ?ks] "2.prems" 3 c by simp
  qed
qed

lemma getln_typed:
  assumes "program_end s + n + 6 = variables_begin s" and "variables_begin s \<le> kRamSize"
    and "keys s = map ucast cs @ e # ks" and "(ucast e :: u8) = NL \<or> (ucast e :: u8) = CR_char"
    and "list_all line_key cs" and "typed n [] cs = Some line"
  shows "got_line s (getln prompt s) (program_end s + 4) n line ks"
proof -
  let ?s = "s\<lparr>program := program s, con_out := con_out s @ shown prompt, txtpos := program_end s + 4, keys := keys s\<rparr>"
  have "getln prompt s = getln_loop ?s"
    by (cases s) (simp add: getln_def ub_outchar_shown sizeof_LINENUM_def)
  moreover have "got_line ?s (getln_loop ?s) (program_end s + 4) n line ks"
    using assms by (intro getln_loop_typed[where acc = "[]" and cs = cs and e = e]) auto
  then have "got_line s (getln_loop ?s) (program_end s + 4) n line ks" by (rule got_line_step) simp
  ultimately show ?thesis by simp
qed

subsection \<open>Case folding\<close>

text \<open>Lower-case letters outside quotes become capitals; \<open>q\<close> is the open quote, or 0.\<close>

fun upcase :: "u8 \<Rightarrow> u8 list \<Rightarrow> u8 list" where
  "upcase q [] = []"
| "upcase q (c # cs) =
     (if c = q then c # upcase 0 cs
      else if c = DQUOTE \<or> c = SQUOTE then c # upcase c cs
      else if q = 0 \<and> ch (CHR ''a'') \<le> c \<and> c \<le> ch (CHR ''z'') then (c - 32) # upcase q cs
      else c # upcase q cs)"

lemma length_upcase [simp]: "length (upcase q cs) = length cs"
  by (induction q cs rule: upcase.induct) auto

lemma capital_not_NL: "ch (CHR ''a'') \<le> c \<Longrightarrow> c \<le> ch (CHR ''z'') \<Longrightarrow> c - 32 \<noteq> NL"
  by (auto simp: word_le_nat_alt)

lemma NL_upcase: "NL \<notin> set cs \<Longrightarrow> NL \<notin> set (upcase q cs)"
  by (induction q cs rule: upcase.induct) (auto simp: capital_not_NL[symmetric] dest: capital_not_NL)

lemma toUppercase_loop_upcase:
  assumes "at s p (cs @ [NL])" and "NL \<notin> set cs"
  shows "toUppercase_loop p q s = Ok (s\<lparr>program := store_bytes (program s) p (upcase q cs)\<rparr>)"
  using assms
proof (induction q cs arbitrary: p s rule: upcase.induct)
  case (1 q)
  then show ?case by (subst toUppercase_loop.simps) (simp add: rd_def)
next
  case (2 q c cs)
  have c: "rd p s = Ok c" "c \<noteq> NL" using "2.prems" by (auto simp: rd_def)
  have tl: "at s (Suc p) (cs @ [NL])" "NL \<notin> set cs" using "2.prems" by auto
  have same: "(program s)(p := c) = program s" using "2.prems" by auto
  have IH: "toUppercase_loop (Suc p) q' s = Ok (s\<lparr>program := store_bytes (program s) p (c # upcase q' cs)\<rparr>)"
    if "toUppercase_loop (Suc p) q' s = Ok (s\<lparr>program := store_bytes (program s) (Suc p) (upcase q' cs)\<rparr>)" for q'
    using that by (simp add: same)
  show ?case
  proof (cases "c \<noteq> q \<and> c \<noteq> DQUOTE \<and> c \<noteq> SQUOTE \<and> q = 0 \<and> ch (CHR ''a'') \<le> c \<and> c \<le> ch (CHR ''z'')")
    case True
    let ?s = "s\<lparr>program := (program s)(p := c - 32)\<rparr>"
    have "toUppercase_loop (Suc p) q ?s = Ok (?s\<lparr>program := store_bytes (program ?s) (Suc p) (upcase q cs)\<rparr>)"
      using "2.IH"(3)[of ?s "Suc p"] True tl by (auto simp: at_iff fun_upd_def)
    moreover have "c + ch (CHR ''A'') - ch (CHR ''a'') = c - 32" by simp
    ultimately show ?thesis
      using c True "2.prems" by (subst toUppercase_loop.simps) (auto simp: wr_def)
  next
    case False
    then show ?thesis
      using c tl "2.IH"(1,2,4)[of s "Suc p"] IH by (subst toUppercase_loop.simps) (auto simp del: store_bytes.simps)
  qed
qed

subsection \<open>Moving the line to the top\<close>

lemma find_eol_at:
  assumes "at s (txtpos s) (cs @ [NL])" and "NL \<notin> set cs"
  shows "find_eol s = Ok (s\<lparr>txtpos := txtpos s + length cs\<rparr>)"
  using assms
proof (induction cs arbitrary: s)
  case Nil
  then show ?case by (subst find_eol.simps) (simp add: rd_def)
next
  case (Cons c cs)
  then show ?case
    using Cons.IH[of "s\<lparr>txtpos := Suc (txtpos s)\<rparr>"] by (subst find_eol.simps) (auto simp: rd_def)
qed

lemma shift_line_moved:
  assumes "p = program_end s + 4" and "p \<le> d" and "d + k < kRamSize" and "txtpos s = p + k"
  shows "shift_line (d + k) s = Ok (s\<lparr>txtpos := d, program := moved (program s) p d (Suc k)\<rparr>)"
  using assms
proof (induction k arbitrary: s)
  case 0
  then have "moved (program s) p d (Suc 0) = (program s)(d := program s p)"
    by (auto simp: moved_def fun_eq_iff)
  with 0 show ?case by (subst shift_line.simps) (simp add: rd_def wr_def sizeof_LINENUM_def)
next
  case (Suc k)
  let ?s = "s\<lparr>program := (program s)(d + Suc k := program s (p + Suc k)), txtpos := p + k\<rparr>"
  have "shift_line (d + Suc k) s = shift_line (d + k) ?s"
    using Suc.prems by (subst shift_line.simps) (auto simp: rd_def wr_def sizeof_LINENUM_def ac_simps)
  also have "\<dots> = Ok (?s\<lparr>txtpos := d, program := moved (program ?s) p d (Suc k)\<rparr>)"
    using Suc.prems by (intro Suc.IH) auto
  also have "moved (program ?s) p d (Suc k) = moved (program s) p d (Suc (Suc k))"
    using Suc.prems by (auto simp: moved_def fun_eq_iff intro!: arg_cong[where f = "program s"])
  finally show ?case by simp
qed

lemma move_to_top_at:
  assumes "at s (program_end s + 4) (cs @ [NL])" and "NL \<notin> set cs"
    and "program_end s + 5 + length cs \<le> variables_begin s" and "variables_begin s \<le> kRamSize"
  shows "\<exists>m. move_to_top s = Ok (s\<lparr>txtpos := variables_begin s - 1 - length cs, program := m\<rparr>) \<and>
    at (s\<lparr>program := m\<rparr>) (variables_begin s - 1 - length cs) (cs @ [NL]) \<and>
    (\<forall>q. q < variables_begin s - 1 - length cs \<or> variables_begin s \<le> q \<longrightarrow> m q = program s q)"
proof -
  let ?d = "variables_begin s - 1 - length cs" and ?p = "program_end s + 4"
  let ?m = "moved (program s) ?p ?d (Suc (length cs))"
  have e: "find_eol (s\<lparr>txtpos := ?p\<rparr>) = Ok (s\<lparr>txtpos := ?p + length cs\<rparr>)"
    using find_eol_at[of "s\<lparr>txtpos := ?p\<rparr>" cs] assms by simp
  have "shift_line (?d + length cs) (s\<lparr>txtpos := ?p + length cs\<rparr>) = Ok (s\<lparr>txtpos := ?d, program := ?m\<rparr>)"
    using shift_line_moved[of ?p "s\<lparr>txtpos := ?p + length cs\<rparr>" ?d "length cs"] assms by simp
  moreover have "?d + length cs = variables_begin s - 1" using assms(3) by simp
  ultimately have "move_to_top s = Ok (s\<lparr>txtpos := ?d, program := ?m\<rparr>)"
    using e assms(3) by (simp add: move_to_top_def sizeof_LINENUM_def)
  moreover have "at (s\<lparr>program := ?m\<rparr>) ?d (cs @ [NL])"
    using assms by (intro at_moved_in) auto
  ultimately show ?thesis
    using assms(3) by (intro exI[of _ ?m]) (auto simp: moved_def)
qed

subsection \<open>The number in front of the line\<close>

definition entry_digits :: "u8 list \<Rightarrow> u8 list" where
  "entry_digits cs = takeWhile is_digit_ch (dropWhile blank cs)"

definition entry_num :: "u8 list \<Rightarrow> nat" where
  "entry_num cs = dec_val 0 (entry_digits cs)"

definition entry_text :: "u8 list \<Rightarrow> u8 list" where
  "entry_text cs = dropWhile blank (dropWhile is_digit_ch (dropWhile blank cs))"

lemma at_takeWhile:
  assumes "at s p (xs @ [NL])" and "\<not> P NL"
  shows "\<exists>c. at s p (takeWhile P xs @ [c]) \<and> \<not> P c" "at s (p + length (takeWhile P xs)) (dropWhile P xs @ [NL])"
proof -
  have a: "at s p (takeWhile P xs @ dropWhile P xs @ [NL])" using assms(1) by (simp flip: append_assoc)
  then show "at s (p + length (takeWhile P xs)) (dropWhile P xs @ [NL])" by (simp add: at_append)
  show "\<exists>c. at s p (takeWhile P xs @ [c]) \<and> \<not> P c"
  proof (cases "dropWhile P xs")
    case Nil
    then have "at s p (takeWhile P xs @ [NL])" using a by (simp only: append_Nil)
    then show ?thesis using assms(2) by blast
  next
    case (Cons c ys)
    then have "\<not> P c" by (metis hd_dropWhile list.distinct(1) list.sel(1))
    then show ?thesis using a Cons by (auto simp: at_append)
  qed
qed

lemma ucast_of_nat_u64_u32: "(ucast (of_nat n :: u64) :: u32) = of_nat n"
  by (rule bit_word_eqI) (auto simp: bit_simps)

lemma testnum_entry:
  assumes "at s (txtpos s) (cs @ [NL])" and "entry_num cs < 2 ^ 32"
  shows "bnd (testnum s) (\<lambda>(n, s). bnd (ignore_blanks (s\<lparr>linenum := ucast n\<rparr>)) f) =
      f (s\<lparr>txtpos := txtpos s + (length cs - length (entry_text cs)), linenum := of_nat (entry_num cs)\<rparr>)"
    and "at s (txtpos s + (length cs - length (entry_text cs))) (entry_text cs @ [NL])"
proof -
  define ws where "ws = takeWhile blank cs"
  define r where "r = dropWhile blank cs"
  define ds where "ds = takeWhile is_digit_ch r"
  define r2 where "r2 = dropWhile is_digit_ch r"
  define ws2 where "ws2 = takeWhile blank r2"
  define tx where "tx = dropWhile blank r2"
  have cs: "cs = ws @ r" "r = ds @ r2" "r2 = ws2 @ tx" by (simp_all add: ws_def r_def ds_def r2_def ws2_def tx_def)
  have names: "entry_digits cs = ds" "entry_text cs = tx"
    by (simp_all add: entry_digits_def entry_text_def ds_def tx_def r_def r2_def)
  have len: "length cs - length tx = length ws + length ds + length ws2" by (simp add: cs)
  show goal2: "at s (txtpos s + (length cs - length (entry_text cs))) (entry_text cs @ [NL])"
    using assms(1) unfolding names len by (simp add: cs at_append add.assoc)
  have ib: "ignore_blanks s = Ok (s\<lparr>txtpos := txtpos s + length ws\<rparr>)"
    using ignore_blanks_line[OF assms(1)] by (simp add: ws_def)
  have r: "at s (txtpos s + length ws) (r @ [NL])" using assms(1) by (simp add: cs at_append)
  obtain c where c: "at s (txtpos s + length ws) (ds @ [c])" "\<not> is_digit_ch c"
    using at_takeWhile(1)[OF r, of is_digit_ch] by (auto simp: ds_def is_digit_ch_unat)
  have dig: "list_all is_digit_ch ds" by (auto simp: ds_def list_all_iff dest: set_takeWhileD)
  have val: "dec_val 0 ds < 2 ^ 32" using assms(2) by (simp add: entry_num_def names)
  have tn: "testnum s = Ok (of_nat (dec_val 0 ds), s\<lparr>txtpos := txtpos s + length ws + length ds\<rparr>)"
    using testnum_loop_exact[of "s\<lparr>txtpos := txtpos s + length ws\<rparr>" ds c 0] c dig val
    by (simp add: testnum_def ib)
  have "at s (txtpos s + length ws + length ds) (r2 @ [NL])"
    using r by (simp add: cs(2) at_append add.assoc)
  then have "ignore_blanks (s\<lparr>txtpos := txtpos s + length ws + length ds, linenum := n\<rparr>) =
      Ok (s\<lparr>txtpos := txtpos s + length ws + length ds + length ws2, linenum := n\<rparr>)" for n
    using ignore_blanks_line[of "s\<lparr>txtpos := txtpos s + length ws + length ds, linenum := n\<rparr>" r2]
      at_program_cong[of "s\<lparr>txtpos := txtpos s + length ws + length ds, linenum := n\<rparr>" s]
    by (simp add: ws2_def)
  moreover have "(ucast (of_nat (dec_val 0 ds) :: u64) :: u32) = of_nat (entry_num cs)"
    by (simp add: entry_num_def names ucast_of_nat_u64_u32)
  ultimately show "bnd (testnum s) (\<lambda>(n, s). bnd (ignore_blanks (s\<lparr>linenum := ucast n\<rparr>)) f) =
      f (s\<lparr>txtpos := txtpos s + (length cs - length (entry_text cs)), linenum := of_nat (entry_num cs)\<rparr>)"
    by (simp add: tn names len add.assoc)
qed

subsection \<open>The prompt\<close>

lemma entry_text_length: "0 < entry_num cs \<Longrightarrow> length (entry_text cs) < length cs"
proof -
  assume "0 < entry_num cs"
  then have "0 < length (entry_digits cs)" by (auto simp: entry_num_def)
  moreover have "length (dropWhile blank cs) \<le> length cs" by (rule length_dropWhile_le)
  moreover have "length (dropWhile blank cs) =
      length (entry_digits cs) + length (dropWhile is_digit_ch (dropWhile blank cs))"
    unfolding entry_digits_def by (metis length_append takeWhile_dropWhile_id)
  moreover have "length (entry_text cs) \<le> length (dropWhile is_digit_ch (dropWhile blank cs))"
    unfolding entry_text_def by (rule length_dropWhile_le)
  ultimately show ?thesis by linarith
qed

lemma set_entry_text: "set (entry_text cs) \<subseteq> set cs"
  by (auto simp: entry_text_def dest!: set_dropWhileD)

text \<open>The buffer after \<open>getln\<close>, \<open>toUppercaseBuffer\<close> and \<open>move_to_top\<close>.\<close>

lemma read_line:
  assumes "program_end s + n + 6 = variables_begin s" and "variables_begin s \<le> kRamSize"
    and "keys s = map ucast cs @ e # ks" and "(ucast e :: u8) = NL \<or> (ucast e :: u8) = CR_char"
    and "list_all line_key cs" and "typed n [] cs = Some line"
  shows "\<exists>m out. bnd (getln prompt s) (\<lambda>s. bnd (toUppercaseBuffer s) (\<lambda>s. bnd (move_to_top s) f)) =
       f (s\<lparr>program := m, con_out := out, txtpos := variables_begin s - 1 - length line, keys := ks\<rparr>) \<and>
     at (s\<lparr>program := m\<rparr>) (variables_begin s - 1 - length line) (upcase 0 line @ [NL]) \<and>
     (\<forall>q. q < program_end s + 4 \<or> variables_begin s \<le> q \<longrightarrow> m q = program s q) \<and>
     (2 * length line \<le> n \<longrightarrow> at (s\<lparr>program := m\<rparr>) (program_end s + 4) (upcase 0 line @ [NL]))"
proof -
  let ?p = "program_end s + 4"
  have len: "length line \<le> n" using typed_length[OF assms(6)] by simp
  have nl: "NL \<notin> set line" using typed_set[OF assms(6)] assms(5) by (auto simp: list_all_iff line_key_def)
  obtain m1 out where g: "getln prompt s = Ok (s\<lparr>program := m1, con_out := out, txtpos := ?p + length line, keys := ks\<rparr>)"
      "at (s\<lparr>program := m1\<rparr>) ?p (line @ [NL])" "\<forall>q. q < ?p \<or> ?p + n < q \<longrightarrow> m1 q = program s q"
    using getln_typed[OF assms, of prompt] by (auto simp: got_line_def)
  define s1 where "s1 = s\<lparr>program := m1, con_out := out, txtpos := ?p + length line, keys := ks\<rparr>"
  define s2 where "s2 = s1\<lparr>program := store_bytes m1 ?p (upcase 0 line)\<rparr>"
  have "at s1 ?p (line @ [NL])"
    using g(2) at_program_cong[of s1 "s\<lparr>program := m1\<rparr>"] by (simp add: s1_def)
  then have u: "toUppercaseBuffer s1 = Ok s2"
    using toUppercase_loop_upcase[of s1 ?p line 0] nl
    by (simp add: toUppercaseBuffer_def sizeof_LINENUM_def s2_def) (simp add: s1_def)
  have "at s2 ?p (upcase 0 line @ [NL])"
    using g(2) by (auto simp: s2_def at_iff store_bytes_apply nth_append)
  note buf = this
  moreover have "program_end s2 = program_end s" "variables_begin s2 = variables_begin s"
    by (simp_all add: s2_def s1_def)
  ultimately obtain m where m: "move_to_top s2 = Ok (s2\<lparr>txtpos := variables_begin s - 1 - length line, program := m\<rparr>)"
      "at (s2\<lparr>program := m\<rparr>) (variables_begin s - 1 - length line) (upcase 0 line @ [NL])"
      "\<forall>q. q < variables_begin s - 1 - length line \<or> variables_begin s \<le> q \<longrightarrow> m q = program s2 q"
    using move_to_top_at[of s2 "upcase 0 line"] NL_upcase[OF nl] len assms(1,2) by auto
  have "s2\<lparr>txtpos := variables_begin s - 1 - length line, program := m\<rparr> =
      s\<lparr>program := m, con_out := out, txtpos := variables_begin s - 1 - length line, keys := ks\<rparr>"
    by (cases s) (simp add: s2_def s1_def)
  moreover have "\<forall>q. q < ?p \<or> variables_begin s \<le> q \<longrightarrow> m q = program s q"
  proof (intro allI impI)
    fix q
    assume q: "q < ?p \<or> variables_begin s \<le> q"
    then have "m q = program s2 q" using m(3) len assms(1) by auto
    also have "\<dots> = m1 q" using q len assms(1) by (auto simp: s2_def store_bytes_apply)
    also have "\<dots> = program s q" using q g(3) assms(1) by auto
    finally show "m q = program s q" .
  qed
  moreover have "at (s\<lparr>program := m\<rparr>) ?p (upcase 0 line @ [NL])" if "2 * length line \<le> n"
    using that buf m(3) assms(1) by (auto simp: at_iff)
  ultimately show ?thesis
    using g(1) u m(1,2) by (intro exI[of _ m] exI[of _ out]) (auto simp: at_iff simp flip: s1_def)
qed

text \<open>A numbered line as it is handed to \<open>store_line\<close>: its text at the top of the memory.\<close>

lemma prompt_numbered:
  assumes "\<not> triggerRun s" and room: "program_end s + n + 6 = variables_begin s" "variables_begin s \<le> kRamSize"
    and inp: "keys s = map ucast cs @ e # ks" "(ucast e :: u8) = NL \<or> (ucast e :: u8) = CR_char"
      "list_all line_key cs" "typed n [] cs = Some line"
    and num: "k = entry_num (upcase 0 line)" "0 < k" "k < 2 ^ 32 - 1" and tx: "t = entry_text (upcase 0 line)"
  shows "\<exists>m out. let s4 = s\<lparr>program := m, con_out := out, txtpos := variables_begin s - 1 - length t, keys := ks,
       linenum := of_nat k\<rparr>
     in l_prompt s = bnd (store_line s4) (\<lambda>s. Ok (L_prompt, s)) \<and> at s4 (txtpos s4) (t @ [NL]) \<and> NL \<notin> set t \<and>
       program_end s + 5 < txtpos s4 \<and> txtpos s4 + length t + 1 = variables_begin s \<and>
       (\<forall>q. q < program_end s + 4 \<or> variables_begin s \<le> q \<longrightarrow> m q = program s q)"
proof -
  let ?up = "upcase 0 line"
  let ?d = "variables_begin s - 1 - length line"
  let ?f = "\<lambda>s. bnd (testnum s) (\<lambda>(n, s). bnd (ignore_blanks (s\<lparr>linenum := ucast n\<rparr>)) (\<lambda>s.
      if linenum s = 0 then Ok (L_direct, s)
      else if linenum s = LINENUM_END then fail ''896'' L_qhow s
      else bnd (store_line s) (\<lambda>s. Ok (L_prompt, s))))"
  have len: "length line \<le> n" "length t < length line"
    using typed_length[OF inp(4)] entry_text_length[of ?up] num tx by simp_all
  obtain m out where r: "l_prompt s = ?f (s\<lparr>program := m, con_out := out, txtpos := ?d, keys := ks\<rparr>)"
     "at (s\<lparr>program := m\<rparr>) ?d (?up @ [NL])"
     "\<forall>q. q < program_end s + 4 \<or> variables_begin s \<le> q \<longrightarrow> m q = program s q"
    using read_line[OF room inp, of "ch (CHR ''>'')" ?f] assms(1)
    by (auto simp: l_prompt_def Let_def case_prod_beta)
  define s3 where "s3 = s\<lparr>program := m, con_out := out, txtpos := ?d, keys := ks\<rparr>"
  define s4 where "s4 = s3\<lparr>txtpos := variables_begin s - 1 - length t, linenum := of_nat k\<rparr>"
  have a3: "at s3 (txtpos s3) (?up @ [NL])"
    using r(2) at_program_cong[of s3 "s\<lparr>program := m\<rparr>"] by (simp add: s3_def)
  have pos: "txtpos s3 + (length ?up - length (entry_text ?up)) = variables_begin s - 1 - length t"
    using len room tx by (simp add: s3_def)
  have uk: "unat (of_nat k :: u32) = k" using num(3) by (simp only: unat_of_nat) (simp add: take_bit_nat_eq_self)
  have kok: "(of_nat k :: u32) \<noteq> 0" "(of_nat k :: u32) \<noteq> LINENUM_END"
    using num uk by (metis unat_0 less_irrefl, auto simp: LINENUM_END_def)
  have run: "l_prompt s = bnd (store_line s4) (\<lambda>s. Ok (L_prompt, s))"
    unfolding r(1)[folded s3_def] using num kok pos by (subst testnum_entry(1)[OF a3]) (auto simp: s4_def)
  have a4: "at s4 (txtpos s4) (t @ [NL])"
    using testnum_entry(2)[OF a3] num pos tx at_program_cong[of s4 s3] by (simp add: s4_def)
  have nl: "NL \<notin> set t"
    using tx set_entry_text[of ?up] NL_upcase[of line 0] typed_set[OF inp(4)] inp(3) by (auto simp: list_all_iff line_key_def)
  have s4: "s4 = s\<lparr>program := m, con_out := out, txtpos := variables_begin s - 1 - length t, keys := ks, linenum := of_nat k\<rparr>"
    by (simp add: s4_def s3_def)
  have "program_end s + 5 < txtpos s4" "txtpos s4 + length t + 1 = variables_begin s"
    using len room by (simp_all add: s4)
  then show ?thesis
    using run a4 nl r(3) unfolding Let_def s4 by (intro exI[of _ m] exI[of _ out]) simp
qed

lemma prompt_stores:
  assumes "stored s ps" and "\<not> triggerRun s"
    and room: "program_end s + n + 6 = variables_begin s" "variables_begin s \<le> kRamSize"
    and inp: "keys s = map ucast cs @ e # ks" "(ucast e :: u8) = NL \<or> (ucast e :: u8) = CR_char"
      "list_all line_key cs" "typed n [] cs = Some line"
    and num: "k = entry_num (upcase 0 line)" "0 < k" "k < 2 ^ 32 - 1"
    and tx: "t = entry_text (upcase 0 line)" "length t \<le> 249"
  shows "\<exists>m out tp pe. l_prompt s = Ok (L_prompt, s\<lparr>program := m, con_out := out, txtpos := tp,
       keys := ks, linenum := of_nat k, program_end := pe\<rparr>) \<and>
     stored (s\<lparr>program := m, program_end := pe\<rparr>) (edit_line (of_nat k) t ps) \<and>
     (\<forall>q \<ge> variables_begin s. m q = program s q)"
proof -
  obtain m out s4 where s4: "s4 = s\<lparr>program := m, con_out := out, txtpos := variables_begin s - 1 - length t, keys := ks, linenum := of_nat k\<rparr>"
      and run: "l_prompt s = bnd (store_line s4) (\<lambda>s. Ok (L_prompt, s))" and a4: "at s4 (txtpos s4) (t @ [NL])"
      and nl: "NL \<notin> set t" and pos: "program_end s + 5 < txtpos s4" "txtpos s4 + length t + 1 = variables_begin s"
      and keep: "\<forall>q. q < program_end s + 4 \<or> variables_begin s \<le> q \<longrightarrow> m q = program s q"
    using prompt_numbered[OF assms(2) room inp num tx(1)] unfolding Let_def by blast
  have uk: "unat (of_nat k :: u32) = k" using num(3) by (simp only: unat_of_nat) (simp add: take_bit_nat_eq_self)
  have kok: "(of_nat k :: u32) \<noteq> 0" "(of_nat k :: u32) \<noteq> LINENUM_END"
    using num uk by (metis unat_0 less_irrefl, auto simp: LINENUM_END_def)
  have st4: "stored s4 ps" using assms(1) keep by (auto simp: stored_def at_iff s4)
  have wf: "wf_line (linenum s4, t)" using tx(2) nl kok by (simp add: wf_line_def s4)
  have "program_end s4 + 5 < txtpos s4" using pos by (simp add: s4)
  from store_line_stored[OF st4 a4 wf this] obtain m' tp pe where
    "store_line s4 = Ok (s4\<lparr>program := m', txtpos := tp, program_end := pe\<rparr>)"
    "stored (s4\<lparr>program := m', program_end := pe\<rparr>) (edit_line (linenum s4) t ps)"
    "\<forall>q \<ge> txtpos s4 + length t + 1. m' q = program s4 q" by blast
  then show ?thesis
    using run keep pos by (intro exI[of _ m'] exI[of _ out] exI[of _ tp] exI[of _ pe])
      (cases s, auto simp: s4 stored_def at_iff)
qed

text \<open>A line without a number is a command: it stays in the buffer, unless the buffer is so full
  that the copy at the top of the memory has been laid over it.\<close>

lemma prompt_direct:
  assumes "\<not> triggerRun s" and room: "program_end s + n + 6 = variables_begin s" "variables_begin s \<le> kRamSize"
    and "keys s = map ucast cs @ 13 # ks" and "list_all line_key cs" and "CTRLH \<notin> set cs" and "2 * length cs \<le> n"
    and "entry_num (upcase 0 cs) = 0"
  shows "\<exists>m out tp. l_prompt s = Ok (L_direct, s\<lparr>program := m, con_out := out, txtpos := tp, keys := ks, linenum := 0\<rparr>) \<and>
     at (s\<lparr>program := m\<rparr>) (program_end s + 4) (upcase 0 cs @ [NL]) \<and>
     (\<forall>q. q < program_end s + 4 \<or> variables_begin s \<le> q \<longrightarrow> m q = program s q)"
proof -
  let ?d = "variables_begin s - 1 - length cs"
  let ?f = "\<lambda>s. bnd (testnum s) (\<lambda>(n, s). bnd (ignore_blanks (s\<lparr>linenum := ucast n\<rparr>)) (\<lambda>s.
      if linenum s = 0 then Ok (L_direct, s)
      else if linenum s = LINENUM_END then fail ''896'' L_qhow s
      else bnd (store_line s) (\<lambda>s. Ok (L_prompt, s))))"
  have "typed n [] cs = Some cs" using typed_plain[OF assms(6), of "[]" n] assms(7) by simp
  then obtain m out where r: "l_prompt s = ?f (s\<lparr>program := m, con_out := out, txtpos := ?d, keys := ks\<rparr>)"
     "at (s\<lparr>program := m\<rparr>) ?d (upcase 0 cs @ [NL])"
     "\<forall>q. q < program_end s + 4 \<or> variables_begin s \<le> q \<longrightarrow> m q = program s q"
     "at (s\<lparr>program := m\<rparr>) (program_end s + 4) (upcase 0 cs @ [NL])"
    using read_line[OF room assms(4) _ assms(5), of cs "ch (CHR ''>'')" ?f] assms(1,7)
    by (auto simp: l_prompt_def Let_def case_prod_beta)
  define s3 where "s3 = s\<lparr>program := m, con_out := out, txtpos := ?d, keys := ks\<rparr>"
  have a3: "at s3 (txtpos s3) (upcase 0 cs @ [NL])"
    using r(2) at_program_cong[of s3 "s\<lparr>program := m\<rparr>"] by (simp add: s3_def)
  define tp where "tp = txtpos s3 + (length (upcase 0 cs) - length (entry_text (upcase 0 cs)))"
  have "?f s3 = Ok (L_direct, s3\<lparr>txtpos := tp, linenum := 0\<rparr>)"
    using assms(8) unfolding tp_def by (subst testnum_entry(1)[OF a3]) simp_all
  moreover have "s3\<lparr>txtpos := tp, linenum := 0\<rparr> = s\<lparr>program := m, con_out := out, txtpos := tp, keys := ks, linenum := 0\<rparr>"
    by (cases s) (simp add: s3_def)
  ultimately show ?thesis
    unfolding r(1)[folded s3_def] using r(3,4) by (intro exI[of _ m] exI[of _ out] exI[of _ tp]) simp
qed

subsection \<open>Entering a program\<close>

definition entry :: "u8 list \<Rightarrow> pline" where
  "entry l = (of_nat (entry_num (upcase 0 l)), entry_text (upcase 0 l))"

definition good_entry :: "u8 list \<Rightarrow> bool" where
  "good_entry l \<longleftrightarrow> list_all line_key l \<and> CTRLH \<notin> set l \<and> 0 < entry_num (upcase 0 l) \<and>
     entry_num (upcase 0 l) < 2 ^ 32 - 1 \<and> length (entry_text (upcase 0 l)) \<le> 249"

definition key_codes :: "u8 list list \<Rightarrow> u16 list" where
  "key_codes ls = concat (map (\<lambda>l. map ucast l @ [13]) ls)"

lemma good_entry_wf: "good_entry l \<Longrightarrow> wf_line (entry l)"
proof -
  assume g: "good_entry l"
  then have "NL \<notin> set (upcase 0 l)"
    by (intro NL_upcase) (auto simp: good_entry_def list_all_iff line_key_def)
  then show ?thesis using g set_entry_text[of "upcase 0 l"] by (auto simp: good_entry_def wf_line_def entry_def)
qed

lemma length_edit_line: "length (prog_bytes (edit_line n t ps)) \<le> length (prog_bytes ps) + length t + 6"
  using length_del_line[of n ps] by (simp add: edit_line_def upd_line_def del_line_def)

text \<open>What stays the same at the prompt.\<close>

definition at_prompt :: "basic \<Rightarrow> basic \<Rightarrow> bool" where
  "at_prompt s s' \<longleftrightarrow> \<not> triggerRun s' \<and> sp s' = sp s \<and> stack_limit s' = stack_limit s \<and> program_base s' = program_base s \<and>
     variables_begin s' = variables_begin s"

lemma prompt_enters:
  assumes "stored s ps" and "\<not> triggerRun s" and "variables_begin s \<le> kRamSize"
    and "keys s = map ucast l @ 13 # ks" and "good_entry l"
    and "length (prog_bytes ps) + length l + 6 \<le> variables_begin s"
  shows "\<exists>s'. l_prompt s = Ok (L_prompt, s') \<and> stored s' (edit_line (fst (entry l)) (snd (entry l)) ps) \<and>
    keys s' = ks \<and> at_prompt s s' \<and>
    (\<forall>q \<ge> variables_begin s. program s' q = program s q)"
proof -
  define n where "n = variables_begin s - 6 - program_end s"
  have g: "list_all line_key l" "CTRLH \<notin> set l" "0 < entry_num (upcase 0 l)"
     "entry_num (upcase 0 l) < 2 ^ 32 - 1" "length (entry_text (upcase 0 l)) \<le> 249"
    using assms(5) by (simp_all add: good_entry_def)
  have n: "program_end s + n + 6 = variables_begin s" "length l \<le> n"
    using assms(1,6) by (auto simp: stored_def n_def)
  have "typed n [] l = Some l" using typed_plain[OF g(2), of "[]" n] n(2) by simp
  then obtain m out tp pe where r: "l_prompt s = Ok (L_prompt, s\<lparr>program := m, con_out := out, txtpos := tp,
       keys := ks, linenum := of_nat (entry_num (upcase 0 l)), program_end := pe\<rparr>)"
     "stored (s\<lparr>program := m, program_end := pe\<rparr>) (edit_line (of_nat (entry_num (upcase 0 l))) (entry_text (upcase 0 l)) ps)"
     "\<forall>q \<ge> variables_begin s. m q = program s q"
    using prompt_stores[OF assms(1,2) n(1) assms(3,4) _ g(1) _ refl g(3,4) refl g(5)] by auto
  then show ?thesis using assms(2) by (auto simp: stored_def at_iff entry_def at_prompt_def)
qed

lemma session_enters:
  assumes "stored s ps" and "\<not> triggerRun s" and "variables_begin s \<le> kRamSize"
    and "keys s = key_codes ls @ ks" and "list_all good_entry ls"
    and "length (prog_bytes ps) + (\<Sum>l\<leftarrow>ls. length l + 6) \<le> variables_begin s"
  shows "\<exists>s'. run env (length ls) (L_prompt, s) = Ok (L_prompt, s') \<and>
    stored s' (fold (\<lambda>(n, t). edit_line n t) (map entry ls) ps) \<and> keys s' = ks \<and> at_prompt s s' \<and>
    (\<forall>q \<ge> variables_begin s. program s' q = program s q)"
  using assms
proof (induction ls arbitrary: s ps)
  case Nil
  then show ?case by (auto simp: key_codes_def at_prompt_def)
next
  case (Cons l ls)
  obtain s1 where s1: "l_prompt s = Ok (L_prompt, s1)" "stored s1 (edit_line (fst (entry l)) (snd (entry l)) ps)"
      "keys s1 = key_codes ls @ ks" "at_prompt s s1"
      "\<forall>q \<ge> variables_begin s. program s1 q = program s q"
    using prompt_enters[OF Cons.prems(1,2,3), of l "key_codes ls @ ks"] Cons.prems(4,5,6)
    by (auto simp: key_codes_def)
  then have p: "\<not> triggerRun s1" "variables_begin s1 = variables_begin s" by (simp_all add: at_prompt_def)
  have "length (snd (entry l)) < length l"
    using entry_text_length[of "upcase 0 l"] Cons.prems(5) by (auto simp: entry_def good_entry_def)
  then have "length (prog_bytes (edit_line (fst (entry l)) (snd (entry l)) ps)) + (\<Sum>l\<leftarrow>ls. length l + 6)
      \<le> variables_begin s"
    using length_edit_line[of "fst (entry l)" "snd (entry l)" ps] Cons.prems(6) by simp
  then obtain s' where "run env (length ls) (L_prompt, s1) = Ok (L_prompt, s')"
     "stored s' (fold (\<lambda>(n, t). edit_line n t) (map entry ls) (edit_line (fst (entry l)) (snd (entry l)) ps))"
     "keys s' = ks" "at_prompt s1 s'" "\<forall>q \<ge> variables_begin s. program s' q = program s1 q"
    using Cons.IH[OF s1(2) p(1) _ s1(3)] Cons.prems(3,5) p(2) by auto
  then show ?case using s1(1,4,5) by (cases "entry l") (auto simp: at_prompt_def)
qed

end
