(* ===== verification/Control_Steps.thy ===== *)
theory Control_Steps
  imports Basic_Grammar Basic_Control Basic_Line
begin

text \<open>
  What the statements of a BASIC program do when nothing goes wrong: from the label that a keyword
  leads to, on a text whose expressions have a value, to the state behind the statement.
\<close>

subsection \<open>Jumps\<close>

lemma eval_expr_text:
  assumes "exp_wf e" and "at s (txtpos s) (exp_text e @ [c])" and "follow_e (exp_open e) c" and "variables_begin s + 208 \<le> kRamSize"
    and "exp_val (program s) (variables_begin s) e = Some v"
  shows "\<exists>i. eval_expr s = Ok (v, s\<lparr>expression_error := False, txtpos := txtpos s + length (exp_text e), table_index := i\<rparr>)"
  using expression_yields[of e "s\<lparr>expression_error := False\<rparr>" c v] assms
  by (simp add: yields_def eval_expr_def ready_def at_iff)

lemma follow_NL: "follow_e b NL"
  by (simp add: follow_defs)

text \<open>Where the first line numbered \<open>n\<close> or higher starts.\<close>

definition line_offset :: "u32 \<Rightarrow> pline list \<Rightarrow> nat" where
  "line_offset n ps = length (prog_bytes (takeWhile (\<lambda>l. fst l < n) ps))"

lemma findline_upd:
  assumes "stored s ps" and "program_end s' = program_end s" and "program_start s' = program_start s"
    and "\<And>q. q < program_end s \<Longrightarrow> program s' q = program s q" and "linenum s' = n"
  shows "findline s' = Ok (line_offset n ps)"
proof -
  have "stored s' ps" using assms(1-4) by (auto simp: stored_def at_iff)
  then show ?thesis using assms(5) findline_stored[of s' ps] by (simp add: line_offset_def)
qed

lemma goto_runs:
  assumes "exp_wf e" and "at s (txtpos s) (exp_text e @ [NL])" and "exp_val (program s) (variables_begin s) e = Some v"
    and "stored s ps" and "variables_begin s + 208 \<le> kRamSize"
  shows "\<exists>i. kw_goto s = Ok (L_execline, s\<lparr>expression_error := False, txtpos := txtpos s + length (exp_text e),
    table_index := i, linenum := ucast v, current_line := Some (line_offset (ucast v) ps)\<rparr>)"
proof -
  obtain i where e: "eval_expr s = Ok (v, s\<lparr>expression_error := False, txtpos := txtpos s + length (exp_text e), table_index := i\<rparr>)"
      (is "_ = Ok (v, ?s)")
    using eval_expr_text[OF assms(1,2) follow_NL assms(5,3)] by blast
  have nl: "txtpos s + length (exp_text e) < kRamSize" "program s (txtpos s + length (exp_text e)) = NL"
    using assms(2) by (simp_all add: at_append)
  have "findline (?s\<lparr>linenum := ucast v\<rparr>) = Ok (line_offset (ucast v) ps)" by (rule findline_upd[OF assms(4)]) simp_all
  then show ?thesis
    using nl by (intro exI[of _ i]) (simp add: kw_goto_def e Let_def bad_end_def rd_def)
qed

lemma gosub_runs:
  assumes "exp_wf e" and "at s (txtpos s) (exp_text e @ [NL])" and "exp_val (program s) (variables_begin s) e = Some v"
    and "stored s ps" and "sp s \<le> kRamSize" and "stack_limit s + sizeof_gosub_frame \<le> sp s"
    and "variables_begin s + 208 \<le> stack_limit s" and "program_end s \<le> stack_limit s"
  shows "\<exists>i m. l_gosub s = Ok (L_execline, s\<lparr>expression_error := False, txtpos := txtpos s + length (exp_text e),
      table_index := i, linenum := ucast v, sp := sp s - sizeof_gosub_frame, program := m,
      current_line := Some (line_offset (ucast v) ps)\<rparr>) \<and>
    (\<forall>q < sp s - sizeof_gosub_frame. m q = program s q)"
proof -
  obtain i where e: "eval_expr s = Ok (v, s\<lparr>expression_error := False, txtpos := txtpos s + length (exp_text e), table_index := i\<rparr>)"
      (is "_ = Ok (v, ?s)")
    using eval_expr_text[OF assms(1,2) follow_NL _ assms(3)] assms(5-7) by fastforce
  have nl: "txtpos s + length (exp_text e) < kRamSize" "program s (txtpos s + length (exp_text e)) = NL"
    using assms(2) by (simp_all add: at_append)
  have fl: "findline (?s\<lparr>linenum := ucast v, sp := p, program := m\<rparr>) = Ok (line_offset (ucast v) ps)"
    if "\<And>q. q < program_end s \<Longrightarrow> m q = program s q" for m p by (rule findline_upd[OF assms(4)]) (simp_all add: that)
  obtain f where f: "sp s = f + 24" "stack_limit s \<le> f"
    using assms(6) by (metis add_le_cancel_right le_add_diff_inverse2 le_trans le_add2 sizeof_gosub_frame_def)
  define m where "m = store_bytes (store_bytes ((program s)(f := STACK_GOSUB_FLAG)) (f + 16)
      (le_bytes 8 (enc_ptr (Some (txtpos ?s)) ?s))) (f + 8) (le_bytes 8 (enc_ptr (current_line ?s) ?s))"
  have "m q = program s q" if "q < f" for q using that by (simp add: m_def store_bytes_apply)
  moreover have "l_gosub s = Ok (L_execline, ?s\<lparr>linenum := ucast v, sp := f, program := m,
      current_line := Some (line_offset (ucast v) ps)\<rparr>)"
    using nl assms(5,8) f fl[of m f] calculation
    by (simp add: l_gosub_def e Let_def bad_end_def rd_def wr_def st_def sizeof_gosub_frame_def m_def)
  ultimately show ?thesis
    using f by (intro exI[of _ i] exI[of _ m]) (simp add: sizeof_gosub_frame_def)
qed

lemma jumps_to:
  assumes "exp_wf e" and "at s (txtpos s) (exp_text e @ [NL])" and "exp_val (program s) (variables_begin s) e = Some v"
    and "stored s ps" and "stack s (sp s) fs" and "stack_limit s + sizeof_gosub_frame \<le> sp s"
    and "variables_begin s + 208 \<le> stack_limit s" and "program_end s \<le> stack_limit s" and "text_ptr (current_line s)"
  shows "(\<exists>s1. kw_goto s = Ok (L_execline, s1) \<and> current_line s1 = Some (line_offset (ucast v) ps) \<and> program s1 = program s) \<and>
    (\<exists>s1. step env L_gosub s = Ok (L_execline, s1) \<and> current_line s1 = Some (line_offset (ucast v) ps) \<and>
      stack s1 (sp s1) (Gosub (txtpos s + length (exp_text e)) (current_line s) # fs) \<and> stored s1 ps \<and>
      (\<forall>q < stack_limit s. program s1 q = program s q))"
proof -
  have sp: "sp s \<le> kRamSize" "variables_begin s + 208 \<le> kRamSize" using stack_bound[OF assms(5)] assms(6,7) by simp_all
  have goto: "\<exists>s1. kw_goto s = Ok (L_execline, s1) \<and> current_line s1 = Some (line_offset (ucast v) ps) \<and> program s1 = program s"
    using goto_runs[OF assms(1-4) sp(2)] by auto
  obtain i m where g: "l_gosub s = Ok (L_execline, s\<lparr>expression_error := False, txtpos := txtpos s + length (exp_text e),
      table_index := i, linenum := ucast v, sp := sp s - sizeof_gosub_frame, program := m,
      current_line := Some (line_offset (ucast v) ps)\<rparr>)" (is "_ = Ok (_, ?s1)")
      and m: "\<forall>q < sp s - sizeof_gosub_frame. m q = program s q"
    using gosub_runs[OF assms(1-4) sp(1) assms(6-8)] by blast
  have keep: "m q = program s q" if "q < stack_limit s" for q using that m assms(6) by simp
  then have "stored ?s1 ps" using assms(4,8) by (auto simp: stored_def at_iff)
  moreover have "stack ?s1 (sp ?s1) (Gosub (txtpos s + length (exp_text e)) (current_line s) # fs)"
    using gosub_pushes(3)[OF g assms(5,9)] by (simp del: stack.simps)
  ultimately show ?thesis using goto g keep by (simp del: stack.simps)
qed

lemma exp_text_start:
  assumes "exp_wf e"
  shows "\<exists>c r. exp_text e = c # r \<and> \<not> blank c \<and> c \<noteq> DQUOTE \<and> c \<noteq> SQUOTE \<and> c \<noteq> 58 \<and> c \<noteq> NL"
proof -
  have dig: "\<not> blank c \<and> c \<noteq> DQUOTE \<and> c \<noteq> SQUOTE \<and> c \<noteq> 58 \<and> c \<noteq> NL" if "is_digit_ch c \<or> is_letter c" for c
    using that by (auto simp: blank_def is_digit_ch_unat is_letter_unat)
  have fac: "\<exists>c r. fac_text f = c # r \<and> \<not> blank c \<and> c \<noteq> DQUOTE \<and> c \<noteq> SQUOTE \<and> c \<noteq> 58 \<and> c \<noteq> NL" if "fac_wf f" for f
  proof (cases f)
    case (Num n)
    then show ?thesis using dec_digits_are_digits[of n] dig by (cases "dec_digits n") auto
  next
    case (Fn g e)
    then show ?thesis by (cases g) (simp_all add: blank_def)
  qed (use that dig in \<open>auto simp: blank_def\<close>)
  have sm: "\<exists>c r. sm_text a = c # r \<and> \<not> blank c \<and> c \<noteq> DQUOTE \<and> c \<noteq> SQUOTE \<and> c \<noteq> 58 \<and> c \<noteq> NL" if "sm_wf a" for a
  proof (cases a)
    case (Sm t r)
    then show ?thesis using that fac by (cases t) fastforce
  next
    case (Sg r)
    then show ?thesis using that by (cases r) (auto simp: blank_def)
  qed
  show ?thesis using assms sm by (cases e) fastforce+
qed

subsection \<open>Assignment and PRINT\<close>

lemma assignment_runs:
  assumes "exp_wf e" and "at s (txtpos s) (v # ch (CHR ''='') # exp_text e @ [NL])" and "is_letter v"
    and "exp_val (program s) (variables_begin s) e = Some x" and "variables_begin s + 208 \<le> kRamSize"
  shows "\<exists>i. step env L_assignment s = Ok (L_run_next_statement, s\<lparr>expression_error := False,
    txtpos := txtpos s + 2 + length (exp_text e), table_index := i,
    program := store_bytes (program s) (var_addr v s) (le_bytes 8 x)\<rparr>)"
proof -
  let ?t = "Suc (Suc (txtpos s))"
  obtain c r where c: "exp_text e = c # r" "\<not> blank c" using exp_text_start[OF assms(1)] by blast
  have t: "txtpos s < kRamSize" "program s (txtpos s) = v" "Suc (txtpos s) < kRamSize" "program s (Suc (txtpos s)) = 61"
      "at s ?t (exp_text e @ [NL])" "?t < kRamSize" "program s ?t = c"
    using assms(2) c by simp_all
  have b: "ignore_blanks (s\<lparr>txtpos := Suc (txtpos s)\<rparr>) = Ok (s\<lparr>txtpos := Suc (txtpos s)\<rparr>)"
      "ignore_blanks (s\<lparr>txtpos := ?t\<rparr>) = Ok (s\<lparr>txtpos := ?t\<rparr>)"
    using ignore_blanks_at[of "s\<lparr>txtpos := Suc (txtpos s)\<rparr>" "[]" 61] ignore_blanks_at[of "s\<lparr>txtpos := ?t\<rparr>" "[]" c] t c
    by (simp_all add: blank_def)
  obtain i where e: "eval_expr (s\<lparr>txtpos := ?t\<rparr>) =
      Ok (x, s\<lparr>expression_error := False, txtpos := ?t + length (exp_text e), table_index := i\<rparr>)"
    using eval_expr_text[OF assms(1) _ follow_NL, of "s\<lparr>txtpos := ?t\<rparr>" x] t assms(4,5) by (auto simp: at_iff)
  have nl: "?t + length (exp_text e) < kRamSize" "program s (?t + length (exp_text e)) = NL"
    using t(5) by (simp_all add: at_append)
  have va: "var_addr v s + 8 \<le> kRamSize"
    using assms(3,5) by (auto simp: var_addr_def VAR_SIZE_def is_letter_unat)
  then show ?thesis
    using t(1-4) nl assms(3) b e
    by (intro exI[of _ i]) (simp add: l_assignment_def rd_def adv_def is_end_def st_var_def st_def var_addr_def VAR_SIZE_def)
qed

lemma print_runs:
  assumes "exp_wf e" and "at s (txtpos s) (exp_text e @ [NL])" and "exp_val (program s) (variables_begin s) e = Some x"
    and "x \<noteq> 0x8000000000000000" and "variables_begin s + 208 \<le> kRamSize"
    and "txtpos s + length (exp_text e) + 19 < sp s" and "sp s \<le> kRamSize"
  shows "\<exists>i m. step env L_print_loop s = Ok (L_run_next_statement, s\<lparr>expression_error := False,
      txtpos := txtpos s + length (exp_text e), table_index := i, program := m,
      con_out := con_out s @ map ucast (num_text (sint x)) @ [13, 10, 13]\<rparr>) \<and>
    (\<forall>q. q < sp s - 19 \<or> sp s \<le> q \<longrightarrow> m q = program s q)"
proof -
  obtain c r where c: "exp_text e = c # r" "\<not> blank c" "c \<noteq> DQUOTE" "c \<noteq> SQUOTE" using exp_text_start[OF assms(1)] by blast
  have t: "txtpos s < kRamSize" "program s (txtpos s) = c" using assms(2) c(1) by simp_all
  have b: "ignore_blanks s = Ok s" using ignore_blanks_at[of s "[]" c] t c(2) by simp
  have q: "print_quoted_string s = Ok (False, s)" using t c(3,4) by (simp add: print_quoted_string_def rd_def)
  obtain i where e: "eval_expr s = Ok (x, s\<lparr>expression_error := False, txtpos := txtpos s + length (exp_text e), table_index := i\<rparr>)"
      (is "_ = Ok (x, ?s)")
    using eval_expr_text[OF assms(1,2) follow_NL assms(5,3)] by blast
  define ds where "ds = dec_digits (nat \<bar>sint x\<bar>)"
  have len: "length ds \<le> 19" using sint_bounds[of x] unfolding ds_def by (intro length_dec_digits) auto
  define m where "m = store_bytes (program s) (sp s - length ds) ds"
  have keep: "m q = program s q" if "q < sp s - 19 \<or> sp s \<le> q" for q
    using that len assms(6) by (auto simp: m_def store_bytes_apply)
  have "printnum x ?s = Ok (?s\<lparr>program := m, con_out := con_out s @ map ucast (num_text (sint x))\<rparr>)"
    using printnum_text[OF assms(4), of ?s] assms(6,7) by (simp add: m_def ds_def Let_def)
  moreover have "txtpos s + length (exp_text e) < kRamSize" "m (txtpos s + length (exp_text e)) = NL"
    using assms(2,6) keep by (auto simp: at_append)
  ultimately show ?thesis
    using b q e t c(3,4) keep
    by (intro exI[of _ i] exI[of _ m])
      (simp add: l_print_loop_def print_sep_def rd_def is_end_def line_terminator_def ub_outchar_shown shown_def)
qed

subsection \<open>FOR\<close>

fun step_text :: "exp option \<Rightarrow> u8 list" where
  "step_text None = []"
| "step_text (Some e) = str ''STEP'' @ exp_text e"

fun step_wf :: "exp \<Rightarrow> exp option \<Rightarrow> bool" where
  "step_wf b None \<longleftrightarrow> True"
| "step_wf b (Some e) \<longleftrightarrow> \<not> exp_open b \<and> exp_wf e"

fun step_val :: "mem \<Rightarrow> nat \<Rightarrow> exp option \<Rightarrow> u64 option" where
  "step_val m vb None = Some 1"
| "step_val m vb (Some e) = exp_val m vb e"

lemma follow_letter: "is_letter c \<Longrightarrow> follow_e False c"
  by (auto simp: follow_defs word_less_nat_alt word_le_nat_alt)

text \<open>A keyword of one of the small tables in front of an expression.\<close>

lemma scan_word:
  assumes "at s (txtpos s) (k @ exp_text e @ r @ [NL])" and "exp_wf e" and "NL \<notin> set k"
  shows "scantable [k] s = Ok (s\<lparr>table_index := 0, txtpos := txtpos s + length k\<rparr>)"
proof -
  obtain c q where "exp_text e = c # q" "\<not> blank c" using exp_text_start[OF assms(2)] by blast
  then show ?thesis using scantable_line[of s "k @ exp_text e @ r" "[k]"] assms(1,3) by simp
qed

lemma scan_no_step:
  assumes "at s (txtpos s) [NL]"
  shows "scantable step_tab s = Ok (s\<lparr>table_index := 1\<rparr>)"
  using scantable_line[of s "[]" step_tab] assms by (simp add: step_tab_def)

lemma for_rest_runs:
  assumes "exp_wf b" and "step_wf b c" and "at s (txtpos s) (exp_text b @ step_text c @ [NL])"
    and "exp_val (program s) (variables_begin s) b = Some t" and "step_val (program s) (variables_begin s) c = Some d"
    and "ready s"
  shows "\<exists>k. for_rest v i s = push_for v i t d
    (s\<lparr>txtpos := txtpos s + length (exp_text b) + length (step_text c), table_index := k\<rparr>)"
proof -
  define p where "p = txtpos s + length (exp_text b)"
  define q where "q = p + length (step_text c)"
  have at_p: "at s p (step_text c @ [NL])" and nl: "at s q [NL]" using assms(3) by (simp_all add: at_append p_def q_def)
  let ?c = "hd (step_text c @ [NL])"
  have "follow_e (exp_open b) ?c" using assms(2) by (cases c) (auto intro: follow_NL follow_letter simp: is_letter_def)
  moreover have "at s (txtpos s) (exp_text b @ [?c])" using assms(3) by (cases c) (simp_all add: at_append)
  ultimately have "yields (expression s) t s (length (exp_text b))"
    using assms(1,4,6) by (intro expression_yields)
  then obtain j where e: "expression s = Ok (t, s\<lparr>txtpos := p, table_index := j\<rparr>)" by (auto simp: yields_def p_def)
  have "\<exists>k. bnd (scantable step_tab (s\<lparr>txtpos := p, table_index := j\<rparr>)) for_step = Ok (d, s\<lparr>txtpos := q, table_index := k\<rparr>)"
  proof (cases c)
    case None
    then show ?thesis
      using scan_no_step[of "s\<lparr>txtpos := p, table_index := j\<rparr>"] nl assms(5) by (auto simp: q_def for_step_def)
  next
    case (Some e)
    let ?s = "s\<lparr>txtpos := p + 4, table_index := 0\<rparr>"
    have "scantable step_tab (s\<lparr>txtpos := p, table_index := j\<rparr>) = Ok ?s"
      using scan_word[of "s\<lparr>txtpos := p, table_index := j\<rparr>" "str ''STEP''" e "[]"] at_p assms(2)
      by (simp add: Some step_tab_def)
    moreover have "at ?s (txtpos ?s) (exp_text e @ [NL])" using at_p by (simp add: Some numeral_eq_Suc)
    then have "yields (expression ?s) d ?s (length (exp_text e))"
      using assms(2,5,6) by (intro expression_yields[OF _ _ follow_NL]) (simp_all add: Some)
    ultimately show ?thesis by (fastforce simp: yields_def for_step_def q_def Some numeral_eq_Suc)
  qed
  then obtain s1 k where s1: "scantable step_tab (s\<lparr>txtpos := p, table_index := j\<rparr>) = Ok s1"
      "for_step s1 = Ok (d, s\<lparr>txtpos := q, table_index := k\<rparr>)"
    by (auto simp: bnd_eq_Ok)
  have "ignore_blanks (s\<lparr>txtpos := q, table_index := k\<rparr>) = Ok (s\<lparr>txtpos := q, table_index := k\<rparr>)"
    using nl by (intro ignore_blanks_id[of _ NL]) (simp_all add: blank_def)
  then show ?thesis
    using e s1 nl assms(6) by (intro exI[of _ k]) (simp add: for_rest_def rd_def ready_def p_def q_def)
qed

lemma for_runs:
  assumes "exp_wf a" and "\<not> exp_open a" and "exp_wf b" and "step_wf b c" and "is_letter v"
    and "at s (txtpos s) (v # ch (CHR ''='') # exp_text a @ str ''TO'' @ exp_text b @ step_text c @ [NL])"
    and "exp_val (program s) (variables_begin s) a = Some i" and "exp_val (program s) (variables_begin s) b = Some t"
    and "step_val (program s) (variables_begin s) c = Some d" and "variables_begin s + 208 \<le> kRamSize"
  shows "\<exists>k. l_forloop s = push_for v i t d (s\<lparr>expression_error := False,
    txtpos := txtpos s + 4 + length (exp_text a) + length (exp_text b) + length (step_text c), table_index := k\<rparr>)"
proof -
  let ?t = "Suc (Suc (txtpos s))"
  obtain x r where x: "exp_text a = x # r" "\<not> blank x" using exp_text_start[OF assms(1)] by blast
  have t: "rd (txtpos s) s = Ok v" "\<not> blank v" "at s (Suc (txtpos s)) [61]" "at s ?t [x]"
      "at s ?t (exp_text a @ 84 # 79 # exp_text b @ step_text c @ [NL])"
    using assms(5,6) x by (auto simp: rd_def blank_def is_letter_unat)
  have "ignore_blanks s = Ok s" using t assms(6) by (intro ignore_blanks_id[of _ v]) simp_all
  moreover have "ignore_blanks (s\<lparr>txtpos := Suc (txtpos s)\<rparr>) = Ok (s\<lparr>txtpos := Suc (txtpos s)\<rparr>)"
    using t by (intro ignore_blanks_id[of _ 61]) (simp_all add: blank_def)
  moreover have "ignore_blanks (s\<lparr>txtpos := ?t\<rparr>) = Ok (s\<lparr>txtpos := ?t\<rparr>)"
    using t x by (intro ignore_blanks_id[of _ x]) simp_all
  moreover obtain j where j: "eval_expr (s\<lparr>txtpos := ?t\<rparr>) =
      Ok (i, s\<lparr>expression_error := False, txtpos := ?t + length (exp_text a), table_index := j\<rparr>)" (is "_ = Ok (_, ?s)")
    using eval_expr_text[OF assms(1), of "s\<lparr>txtpos := ?t\<rparr>" 84 i] t(5) assms(2,7,10) follow_letter[of 84]
    by (auto simp: at_append is_letter_def)
  moreover have "scantable to_tab ?s = Ok (?s\<lparr>table_index := 0, txtpos := ?t + length (exp_text a) + 2\<rparr>)" (is "_ = Ok ?s2")
    using scan_word[of ?s "str ''TO''" b "step_text c"] t(5) assms(3) by (simp add: to_tab_def at_append)
  moreover obtain k where "for_rest v i ?s2 = push_for v i t d
      (?s2\<lparr>txtpos := txtpos ?s2 + length (exp_text b) + length (step_text c), table_index := k\<rparr>)"
    using for_rest_runs[OF assms(3,4), of ?s2 t d v i] t(5) assms(8,9,10) by (auto simp: at_append ready_def)
  ultimately show ?thesis
    using t(1,3) assms(5) by (intro exI[of _ k]) (simp add: l_forloop_def rd_def adv_def numeral_eq_Suc)
qed

subsection \<open>Variables\<close>

lemma ld_var_cong:
  assumes "is_letter v" and "variables_begin s' = variables_begin s"
    and "\<And>q. variables_begin s \<le> q \<Longrightarrow> q < variables_begin s + 208 \<Longrightarrow> program s' q = program s q"
  shows "ld_var v s' = ld_var v s"
  unfolding ld_var_def var_addr_def assms(2)
  by (rule ld_cong) (use assms(1,3) in \<open>auto simp: is_letter_unat VAR_SIZE_def\<close>)

lemma ld_var_store:
  assumes "is_letter v" and "is_letter u" and "variables_begin s' = variables_begin s" and "variables_begin s + 208 \<le> kRamSize"
    and "\<And>q. variables_begin s \<le> q \<Longrightarrow> q < variables_begin s + 208 \<Longrightarrow>
      program s' q = store_bytes (program s) (var_addr v s) (le_bytes 8 x) q"
  shows "ld_var u s' = (if u = v then Ok x else ld_var u s)"
proof -
  let ?t = "s\<lparr>program := store_bytes (program s) (var_addr v s) (le_bytes 8 x)\<rparr>"
  have "ld_var u s' = ld_var u ?t" using assms by (intro ld_var_cong) simp_all
  also have "\<dots> = (if u = v then Ok x else ld_var u s)"
  proof (cases "u = v")
    case True
    have "var_addr v s + 8 \<le> kRamSize" using assms(1,4) by (auto simp: var_addr_def VAR_SIZE_def is_letter_unat)
    then show ?thesis using True by (simp add: ld_var_def ld_def var_addr_def VAR_SIZE_def mem_simps)
  next
    case False
    then have "unat u < unat v \<or> unat v < unat u" by (metis linorder_neq_iff word_unat_eq_iff)
    then have "var_addr u s + 8 \<le> var_addr v s \<or> var_addr v s + 8 \<le> var_addr u s"
      using assms(1,2) by (auto simp: var_addr_def VAR_SIZE_def is_letter_unat)
    then show ?thesis using False by (simp add: ld_var_def ld_def var_addr_def VAR_SIZE_def mem_simps)
  qed
  finally show ?thesis .
qed

subsection \<open>NEXT\<close>

lemma ld_var_txtpos: "ld_var v (s\<lparr>txtpos := p\<rparr>) = ld_var v s"
  by (simp add: ld_var_def ld_def var_addr_def)

lemma next_runs:
  assumes "at s (txtpos s) [v, NL]" and "is_letter v" and "table_index s = 5"
    and "stack s (sp s) (hs @ For v t c tp cl # gs)" and "\<And>t c tp cl. For v t c tp cl \<notin> set hs"
    and "base_ok s" and "vars_below (sp s) s" and "ld_var v s = Ok x"
  defines "y \<equiv> x + scast c"
  shows "\<exists>s'. run env 2 (L_next, s) = Ok (L_run_next_statement, s') \<and> ld_var v s' = Ok y \<and>
    (\<forall>u. is_letter u \<and> u \<noteq> v \<longrightarrow> ld_var u s' = ld_var u s) \<and>
    program s' = store_bytes (program s) (var_addr v s) (le_bytes 8 y) \<and> variables_begin s' = variables_begin s \<and>
    program_base s' = program_base s \<and> program_end s' = program_end s \<and> program_start s' = program_start s \<and>
    stack_limit s' = stack_limit s \<and> con_out s' = con_out s \<and>
    (if loops t c y then txtpos s' = tp \<and> current_line s' = cl \<and> sp s' = sp s \<and> stack s' (sp s') (hs @ For v t c tp cl # gs)
     else txtpos s' = Suc (txtpos s) \<and> current_line s' = current_line s \<and> stack s' (sp s') gs)"
proof -
  let ?s = "s\<lparr>txtpos := Suc (txtpos s)\<rparr>"
  let ?q = "sp s + sum_list (map frame_size hs)" and ?m = "store_bytes (program s) (var_addr v s) (le_bytes 8 y)"
  have a: "txtpos s < kRamSize" "program s (txtpos s) = v" "Suc (txtpos s) < kRamSize" "program s (Suc (txtpos s)) = NL"
    using assms(1) by simp_all
  have v: "\<not> blank v" using assms(2) by (auto simp: blank_def is_letter_unat)
  have "ignore_blanks s = Ok s" using ignore_blanks_at[of s "[]" v] a v by simp
  moreover have "ignore_blanks ?s = Ok ?s" using ignore_blanks_at[of ?s "[]" NL] a by (simp add: blank_def)
  ultimately have n: "l_next s = Ok (L_gosub_return, ?s)" using a assms(2) by (simp add: l_next_def rd_def adv_def)
  have st: "stack ?s p fs = stack s p fs" for p fs by (rule stack_cong) simp_all
  have hs: "list_all (\<lambda>h. \<not> wants ?s h) hs"
    unfolding list_all_iff using assms(3,5) a(2) by (auto elim!: wants.elims)
  have va: "var_addr v s + 8 \<le> sp s" "var_addr v s + 8 \<le> kRamSize"
    using var_addr_below[OF assms(2,7)] assms(7) by (simp_all add: vars_below_def)
  define s2 where "s2 = ?s\<lparr>tempsp := ?q, program := ?m\<rparr>"
  define s' where "s' = (if loops t c y then s2\<lparr>txtpos := tp, current_line := cl\<rparr> else s2\<lparr>sp := ?q + sizeof_for_frame\<rparr>)"
  have p: "behind_letter ?s" "program ?s (txtpos ?s - 1) = v" "base_ok ?s" "vars_below (sp ?s) ?s" "ld_var v ?s = Ok x"
      "table_index ?s = 5" "stack ?s (sp ?s) (hs @ For v t c tp cl # gs)" "var_addr v ?s = var_addr v s"
    using assms(2-4,6-8) a st
    by (simp_all add: behind_letter_def base_ok_def vars_below_def ld_var_txtpos) (simp add: var_addr_def)
  have "l_gosub_return ?s = Ok (L_run_next_statement, s')"
    using next_finds[OF p(7) hs p(6,1-5)] unfolding s'_def s2_def y_def p(8) by simp
  then have "run env 2 (L_next, s) = Ok (L_run_next_statement, s')" using n by (simp add: numeral_2_eq_2)
  moreover have s': "program s' = ?m" "variables_begin s' = variables_begin s" "program_base s' = program_base s" "program_end s' = program_end s"
      "program_start s' = program_start s" "stack_limit s' = stack_limit s" "con_out s' = con_out s"
    by (simp_all add: s'_def s2_def)
  have ld: "ld_var u s' = (if u = v then Ok y else ld_var u s)" if "is_letter u" for u
    using that assms(2,7) s' by (intro ld_var_store) (simp_all add: vars_below_def VAR_SIZE_def)
  have "ld_var v s' = Ok y" "\<forall>u. is_letter u \<and> u \<noteq> v \<longrightarrow> ld_var u s' = ld_var u s"
    using ld[OF assms(2)] ld by simp_all
  moreover have "stack s' p fs = stack s p fs" if "sp s \<le> p" for p fs
    using that va s' by (intro stack_cong) (simp_all add: store_bytes_apply)
  ultimately show ?thesis
    using assms(4) stack_split[OF assms(4)] by (auto simp: s'_def s2_def)
qed

end
