(* ===== verification/Basic_Machine.thy ===== *)
theory Basic_Machine
  imports Control_Steps
begin

text \<open>
  What a BASIC program means, apart from how the interpreter runs it: statements as a datatype,
  one to a line, and a machine whose state is the values of the variables, the open loops and
  subroutines, the text on the console and the index of the next line.  A step has no result where
  the interpreter reports an error or leaves the bounds of its memory.
\<close>

subsection \<open>Statements and their text\<close>

datatype stmt = SLet u8 exp | SPrint exp | SGoto exp | SGosub exp | SReturn
  | SFor u8 exp exp "exp option" | SNext u8 | SIf exp stmt | SEnd | SRem "u8 list"

primrec stmt_text :: "stmt \<Rightarrow> u8 list" where
  "stmt_text (SLet v e) = v # ch (CHR ''='') # exp_text e"
| "stmt_text (SPrint e) = str ''PRINT'' @ exp_text e"
| "stmt_text (SGoto e) = str ''GOTO'' @ exp_text e"
| "stmt_text (SGosub e) = str ''GOSUB'' @ exp_text e"
| "stmt_text SReturn = str ''RETURN''"
| "stmt_text (SFor v a b c) = str ''FOR'' @ v # ch (CHR ''='') # exp_text a @ str ''TO'' @ exp_text b @
     step_text c"
| "stmt_text (SNext v) = str ''NEXT'' @ [v]"
| "stmt_text (SIf e t) = str ''IF'' @ exp_text e @ stmt_text t"
| "stmt_text SEnd = str ''END''"
| "stmt_text (SRem t) = str ''REM'' @ t"

text \<open>An expression in front of a keyword must not end with a variable.\<close>

primrec stmt_wf :: "stmt \<Rightarrow> bool" where
  "stmt_wf (SLet v e) \<longleftrightarrow> is_letter v \<and> exp_wf e"
| "stmt_wf (SPrint e) \<longleftrightarrow> exp_wf e"
| "stmt_wf (SGoto e) \<longleftrightarrow> exp_wf e"
| "stmt_wf (SGosub e) \<longleftrightarrow> exp_wf e"
| "stmt_wf SReturn \<longleftrightarrow> True"
| "stmt_wf (SFor v a b c) \<longleftrightarrow> is_letter v \<and> exp_wf a \<and> \<not> exp_open a \<and> exp_wf b \<and> step_wf b c"
| "stmt_wf (SNext v) \<longleftrightarrow> is_letter v"
| "stmt_wf (SIf e t) \<longleftrightarrow> exp_wf e \<and> \<not> exp_open e \<and> stmt_wf t"
| "stmt_wf SEnd \<longleftrightarrow> True"
| "stmt_wf (SRem t) \<longleftrightarrow> True"

type_synonym bprog = "(u32 \<times> stmt) list"

definition render :: "bprog \<Rightarrow> pline list" where
  "render ps = map (\<lambda>(n, t). (n, stmt_text t)) ps"

definition prog_wf :: "bprog \<Rightarrow> bool" where
  "prog_wf ps \<longleftrightarrow> list_all (\<lambda>(n, t). stmt_wf t) ps"

subsection \<open>Values\<close>

type_synonym vals = "u8 \<Rightarrow> u64"

fun fn_ev :: "fn \<Rightarrow> u64 \<Rightarrow> u64 option" where
  "fn_ev FAbs a = Some (if a <s 0 then - a else a)"
| "fn_ev FRnd a = Some 3"
| "fn_ev FPeek a = None"

primrec fac_ev :: "vals \<Rightarrow> fac \<Rightarrow> u64 option" and trm_ev :: "vals \<Rightarrow> trm \<Rightarrow> u64 option"
  and mops_ev :: "vals \<Rightarrow> mops \<Rightarrow> u64 \<Rightarrow> u64 option" and sm_ev :: "vals \<Rightarrow> sm \<Rightarrow> u64 option"
  and sops_ev :: "vals \<Rightarrow> sops \<Rightarrow> u64 \<Rightarrow> u64 option" and exp_ev :: "vals \<Rightarrow> exp \<Rightarrow> u64 option" where
  "fac_ev V (Num n) = Some (of_nat n)"
| "fac_ev V (Var c) = Some (V c)"
| "fac_ev V (Neg f) = map_option uminus (fac_ev V f)"
| "fac_ev V (Par e) = exp_ev V e"
| "fac_ev V (Fn g e) = Option.bind (exp_ev V e) (fn_ev g)"
| "trm_ev V (Trm f r) = Option.bind (fac_ev V f) (mops_ev V r)"
| "mops_ev V MNil = Some"
| "mops_ev V (MMul f r) = (\<lambda>a. Option.bind (fac_ev V f) (\<lambda>b. mops_ev V r (a * b)))"
| "mops_ev V (MDiv f r) = (\<lambda>a. Option.bind (fac_ev V f) (\<lambda>b. Option.bind (div_val a b) (mops_ev V r)))"
| "sm_ev V (Sm t r) = Option.bind (trm_ev V t) (sops_ev V r)"
| "sm_ev V (Sg r) = sops_ev V r 0"
| "sops_ev V SNil = Some"
| "sops_ev V (SAdd t r) = (\<lambda>a. Option.bind (trm_ev V t) (\<lambda>b. sops_ev V r (a + b)))"
| "sops_ev V (SSub t r) = (\<lambda>a. Option.bind (trm_ev V t) (\<lambda>b. sops_ev V r (a - b)))"
| "exp_ev V (Ex a) = sm_ev V a"
| "exp_ev V (Rel r a b) = Option.bind (sm_ev V a) (\<lambda>x. Option.bind (sm_ev V b) (\<lambda>y.
     Some (if rop_val r x y then 1 else 0)))"

text \<open>On a memory with the same variables, this is the value of the text.\<close>

lemma fn_ev_val: "fn_ev g a = Some v \<Longrightarrow> fn_val m g a = Some v"
  by (cases g) auto

lemma ev_val:
  assumes "\<And>c. is_letter c \<Longrightarrow> var_val m vb c = V c"
  shows "fac_wf f \<Longrightarrow> fac_ev V f = Some v \<Longrightarrow> fac_val m vb f = Some v"
    and "trm_wf t \<Longrightarrow> trm_ev V t = Some v \<Longrightarrow> trm_val m vb t = Some v"
    and "mops_wf mr \<Longrightarrow> mops_ev V mr x = Some v \<Longrightarrow> mops_val m vb mr x = Some v"
    and "sm_wf a \<Longrightarrow> sm_ev V a = Some v \<Longrightarrow> sm_val m vb a = Some v"
    and "sops_wf sr \<Longrightarrow> sops_ev V sr x = Some v \<Longrightarrow> sops_val m vb sr x = Some v"
    and "exp_wf e \<Longrightarrow> exp_ev V e = Some v \<Longrightarrow> exp_val m vb e = Some v"
  by (induction f and t and mr and a and sr and e arbitrary: v and v and v x and v and v x and v)
    (fastforce simp: assms bind_eq_Some_conv dest: fn_ev_val split: trm.splits)+

subsection \<open>The machine\<close>

text \<open>A frame names the line that pushed it.\<close>

datatype aframe = AFor u8 u32 u32 nat | AGosub nat

fun aframe_size :: "aframe \<Rightarrow> nat" where
  "aframe_size (AFor v t c j) = sizeof_for_frame"
| "aframe_size (AGosub j) = sizeof_gosub_frame"

definition depth :: "aframe list \<Rightarrow> nat" where
  "depth fs = sum_list (map aframe_size fs)"

record amach =
  vars :: vals
  frames :: "aframe list"
  shown_text :: "u16 list"
  pc :: nat

text \<open>A jump goes to the first line with at least the given number.\<close>

definition target :: "bprog \<Rightarrow> u64 \<Rightarrow> nat" where
  "target ps x = length (takeWhile (\<lambda>l. fst l < ucast x) ps)"

fun loop_of :: "u8 \<Rightarrow> aframe \<Rightarrow> bool" where
  "loop_of v (AFor u t c j) \<longleftrightarrow> u = v"
| "loop_of v (AGosub j) \<longleftrightarrow> False"

definition next_line :: "amach \<Rightarrow> amach" where
  "next_line a = a\<lparr>pc := Suc (pc a)\<rparr>"

definition printed :: "u64 \<Rightarrow> u16 list" where
  "printed x = map ucast (num_text (sint x)) @ [13, 10, 13]"

fun step_ev :: "vals \<Rightarrow> exp option \<Rightarrow> u64 option" where
  "step_ev V None = Some 1"
| "step_ev V (Some e) = exp_ev V e"

definition anext :: "u8 \<Rightarrow> amach \<Rightarrow> amach option" where
  "anext v a = (case dropWhile (\<lambda>f. \<not> loop_of v f) (frames a) of
     AFor u t c j # fs \<Rightarrow>
       let y = vars a v + scast c; a = a\<lparr>vars := (vars a)(v := y)\<rparr>
       in Some (if loops t c y then a\<lparr>pc := Suc j\<rparr> else next_line (a\<lparr>frames := fs\<rparr>))
   | _ \<Rightarrow> None)"

primrec aexec :: "bprog \<Rightarrow> stmt \<Rightarrow> amach \<Rightarrow> amach option" where
  "aexec ps (SLet v e) a = Option.bind (exp_ev (vars a) e) (\<lambda>x.
     Some (next_line (a\<lparr>vars := (vars a)(v := x)\<rparr>)))"
| "aexec ps (SPrint e) a = Option.bind (exp_ev (vars a) e) (\<lambda>x.
     if x = 0x8000000000000000 \<or> STACK_SIZE < depth (frames a) + 19 then None
     else Some (next_line (a\<lparr>shown_text := shown_text a @ printed x\<rparr>)))"
| "aexec ps (SGoto e) a = Option.bind (exp_ev (vars a) e) (\<lambda>x. Some (a\<lparr>pc := target ps x\<rparr>))"
| "aexec ps (SGosub e) a = Option.bind (exp_ev (vars a) e) (\<lambda>x.
     if STACK_SIZE < depth (frames a) + sizeof_gosub_frame then None
     else Some (a\<lparr>frames := AGosub (pc a) # frames a, pc := target ps x\<rparr>))"
| "aexec ps SReturn a = (case frames a of AGosub j # fs \<Rightarrow> Some (a\<lparr>frames := fs, pc := Suc j\<rparr>) | _ \<Rightarrow> None)"
| "aexec ps (SFor v b e c) a = Option.bind (exp_ev (vars a) b) (\<lambda>i. Option.bind (exp_ev (vars a) e) (\<lambda>t.
     Option.bind (step_ev (vars a) c) (\<lambda>d.
       if STACK_SIZE < depth (frames a) + sizeof_for_frame then None
       else Some (next_line (a\<lparr>vars := (vars a)(v := i),
              frames := AFor v (ucast t) (ucast d) (pc a) # frames a\<rparr>)))))"
| "aexec ps (SNext v) a = anext v a"
| "aexec ps (SIf e t) a = Option.bind (exp_ev (vars a) e) (\<lambda>x.
     if x \<noteq> 0 then aexec ps t a else Some (next_line a))"
| "aexec ps SEnd a = Some (a\<lparr>pc := length ps\<rparr>)"
| "aexec ps (SRem t) a = Some (next_line a)"

definition astep :: "bprog \<Rightarrow> amach \<Rightarrow> amach option" where
  "astep ps a = (if pc a < length ps then aexec ps (snd (ps ! pc a)) a else None)"

primrec arun :: "bprog \<Rightarrow> nat \<Rightarrow> amach \<Rightarrow> amach option" where
  "arun ps 0 a = Some a"
| "arun ps (Suc n) a = Option.bind (astep ps a) (arun ps n)"

end
