(* ===== verification/Basic_List.thy ===== *)
theory Basic_List
  imports Basic_Line
begin

text \<open>
  LIST: what the command shows for a stored program, and that its output, typed in again, gives
  the program back.  A line is shown as its number in decimal, a blank and its text; the digits
  are built on the BASIC stack, so the bytes just below \<open>sp\<close> are scratch space.
\<close>

definition line_out :: "pline \<Rightarrow> u16 list" where
  "line_out l = map ucast (dec_digits (unat (fst l))) @ [32] @ concat (map shown (snd l)) @ [13, 10, 13]"

lemma printline_text_at:
  assumes "at s (list_line s) (t @ [NL])" and "NL \<notin> set t"
  shows "printline_text s = Ok (s\<lparr>con_out := con_out s @ concat (map shown t), list_line := list_line s + length t\<rparr>)"
  using assms
proof (induction t arbitrary: s)
  case Nil
  then show ?case by (subst printline_text.simps) (simp add: rd_def)
next
  case (Cons c t)
  let ?s = "(ub_outchar c s)\<lparr>list_line := Suc (list_line s)\<rparr>"
  have "at ?s (list_line ?s) (t @ [NL])"
    using Cons.prems(1) at_program_cong[of ?s s] by (simp add: ub_outchar_shown)
  then have "printline_text ?s = Ok (?s\<lparr>con_out := con_out ?s @ concat (map shown t), list_line := list_line ?s + length t\<rparr>)"
    using Cons.prems(2) by (intro Cons.IH) simp_all
  then show ?case
    using Cons.prems by (subst printline_text.simps) (auto simp: rd_def ub_outchar_shown)
qed

lemma sint_ucast_u32: "sint (ucast (n :: u32) :: u64) = int (unat n)"
proof -
  have b: "uint n < 2 ^ 32" "0 \<le> uint n" using uint_lt2p[of n] by simp_all
  have "sint (word_of_int (uint n) :: u64) = uint n" by (intro sint_word_of_int_id order_trans[OF _ b(2)] less_trans[OF b(1)]) simp_all
  then show ?thesis by (simp only: ucast_eq uint_nat)
qed

lemma length_dec_digits_u32: "length (dec_digits (unat (n :: u32))) \<le> 19"
proof -
  have "unat n < 2 ^ 32" using unsigned_less[of n] by simp
  then have "unat n < 10 ^ 19" by simp
  then show ?thesis by (intro length_dec_digits) simp_all
qed

text \<open>The stack is clear of the program text, and the digits of a number fit above it.\<close>

definition list_room :: "nat \<Rightarrow> basic \<Rightarrow> bool" where
  "list_room p s \<longleftrightarrow> p + 19 \<le> sp s \<and> sp s \<le> kRamSize"

lemma printline_record:
  assumes "at s (list_line s) (rec_bytes (n, t))" and "NL \<notin> set t" and "list_room (list_line s + length t + 6) s"
  shows "\<exists>m. printline s = Ok (s\<lparr>program := m, con_out := con_out s @ line_out (n, t), list_line := list_line s + length t + 6\<rparr>) \<and>
    (\<forall>q. q < sp s - 19 \<or> sp s \<le> q \<longrightarrow> m q = program s q)"
proof -
  define ds where "ds = dec_digits (unat n)"
  have len: "length ds \<le> 19" by (simp add: ds_def length_dec_digits_u32)
  define m where "m = store_bytes (program s) (sp s - length ds) ds"
  have keep: "m q = program s q" if "q < sp s - 19 \<or> sp s \<le> q" for q
    using that len assms(3) by (auto simp: m_def store_bytes_apply list_room_def)
  have "(ucast n :: u64) \<noteq> 0x8000000000000000"
  proof
    assume e: "(ucast n :: u64) = 0x8000000000000000"
    have "sint (0x8000000000000000 :: u64) = - (2 ^ 63)" by (simp add: sint_uint)
    then show False using sint_ucast_u32[of n] unfolding e using uint_ge_0[of n] by simp
  qed
  then have pn: "printnum (ucast n) (s\<lparr>list_line := 5 + list_line s\<rparr>) =
      Ok (s\<lparr>program := m, con_out := con_out s @ map ucast ds, list_line := 5 + list_line s\<rparr>)"
    using printnum_text[of "ucast n" "s\<lparr>list_line := 5 + list_line s\<rparr>"] assms(3)
    by (simp add: sint_ucast_u32 num_text_def list_room_def m_def ds_def Let_def)
  let ?s = "s\<lparr>program := m, con_out := con_out s @ map ucast ds @ [32], list_line := 5 + list_line s\<rparr>"
  have "at s (5 + list_line s) (t @ [NL])" using assms(1) by (simp add: at_append add.commute)
  then have "at ?s (list_line ?s) (t @ [NL])"
    using keep assms(3) by (auto simp: at_iff list_room_def)
  from printline_text_at[OF this assms(2)]
  have pt: "printline_text ?s = Ok (?s\<lparr>con_out := con_out ?s @ concat (map shown t), list_line := list_line ?s + length t\<rparr>)" .
  have "printline s = Ok (s\<lparr>program := m, con_out := con_out s @ line_out (n, t), list_line := list_line s + length t + 6\<rparr>)"
    using assms(1) ld_LINENUM_at[of s "list_line s" n "of_nat (length t + 6) # t @ [NL]"] pn pt
    by (cases s) (simp add: printline_def sizeof_LINENUM_def ub_outchar_shown shown_def line_terminator_def line_out_def ds_def)
  with keep show ?thesis by blast
qed

lemma list_loop_lines:
  assumes "at s (list_line s) (prog_bytes ps)" and "list_all wf_line ps"
    and "program_end s = list_line s + length (prog_bytes ps)" and "list_room (program_end s) s"
  shows "\<exists>m. list_loop s = Ok (s\<lparr>program := m, con_out := con_out s @ concat (map line_out ps), list_line := program_end s\<rparr>) \<and>
    (\<forall>q. q < sp s - 19 \<or> sp s \<le> q \<longrightarrow> m q = program s q)"
  using assms
proof (induction ps arbitrary: s)
  case Nil
  then show ?case by (subst list_loop.simps) (auto intro!: exI[of _ "program s"])
next
  case (Cons l ps)
  obtain n t where l: "l = (n, t)" by (cases l)
  have wf: "NL \<notin> set t" using Cons.prems(2) by (simp add: l wf_line_def)
  obtain m where m: "printline s = Ok (s\<lparr>program := m, con_out := con_out s @ line_out l, list_line := list_line s + length t + 6\<rparr>)"
      "\<forall>q. q < sp s - 19 \<or> sp s \<le> q \<longrightarrow> m q = program s q"
    using printline_record[of s n t] Cons.prems wf by (auto simp: l at_append list_room_def)
  let ?s = "s\<lparr>program := m, con_out := con_out s @ line_out l, list_line := list_line s + length t + 6\<rparr>"
  have "at s (list_line s + (length t + 6)) (prog_bytes ps)"
    using Cons.prems(1) length_rec_bytes[of l] by (simp add: l at_append del: rec_bytes.simps)
  then have "at ?s (list_line ?s) (prog_bytes ps)"
    using Cons.prems(3,4) m(2) by (auto simp: l at_iff list_room_def add.assoc)
  from Cons.IH[OF this] Cons.prems obtain m' where
      m': "list_loop ?s = Ok (?s\<lparr>program := m', con_out := con_out ?s @ concat (map line_out ps), list_line := program_end ?s\<rparr>)"
      "\<forall>q. q < sp s - 19 \<or> sp s \<le> q \<longrightarrow> m' q = m q"
    by (auto simp: l list_room_def)
  have "list_loop s = list_loop ?s" using m(1) Cons.prems(3) by (subst list_loop.simps) (simp add: l)
  then show ?case using m'(1) m'(2) m(2) by (intro exI[of _ m']) (simp add: l)
qed

lemma l_list_lines:
  assumes "stored s ps" and "list_room (program_end s) s" and "testnum s = Ok (n, s')" and "s' = s\<lparr>txtpos := p\<rparr>"
    and "p < kRamSize" and "program s p = NL"
  shows "\<exists>s''. l_list s = Ok (L_warmstart, s'') \<and> stored s'' ps \<and> 
    con_out s'' = con_out s @ concat (map line_out (dropWhile (\<lambda>l. fst l < ucast n) ps))"
proof -
  let ?n = "ucast n :: u32"
  let ?s = "s\<lparr>txtpos := p, linenum := ?n\<rparr>"
  have st: "stored ?s ps" using assms(1) by (simp add: stored_def at_iff)
  define a where "a = takeWhile (\<lambda>l. fst l < ?n) ps"
  define b where "b = dropWhile (\<lambda>l. fst l < ?n) ps"
  have ab: "ps = a @ b" by (simp add: a_def b_def)
  have fl: "findline ?s = Ok (length (prog_bytes a))" using findline_stored[OF st] by (simp add: a_def)
  let ?t = "?s\<lparr>list_line := length (prog_bytes a)\<rparr>"
  have "at ?t (list_line ?t) (prog_bytes b)" "program_end ?t = list_line ?t + length (prog_bytes b)" "list_all wf_line b"
    using st by (auto simp: stored_def ab at_append at_iff)
  from list_loop_lines[OF this(1,3,2)] assms(2) obtain m where
      m: "list_loop ?t = Ok (?t\<lparr>program := m, con_out := con_out ?t @ concat (map line_out b), list_line := program_end ?t\<rparr>)"
      "\<forall>q. q < sp s - 19 \<or> sp s \<le> q \<longrightarrow> m q = program s q"
    by (auto simp: list_room_def)
  have "stored (?t\<lparr>program := m, con_out := con_out ?t @ concat (map line_out b), list_line := program_end ?t\<rparr>) ps"
    using assms(1,2) m(2) by (auto simp: stored_def at_iff list_room_def)
  then show ?thesis
    using m(1) fl assms(3-) by (simp add: l_list_def rd_def b_def)
qed

subsection \<open>Typing a listing in again\<close>

text \<open>A line that the editor stores as it is typed: its text starts with no blank, has no key with a
  meaning of its own, and is in capitals outside quotes.\<close>

definition canonical :: "pline \<Rightarrow> bool" where
  "canonical l \<longleftrightarrow> 0 < fst l \<and> fst l < LINENUM_END \<and> snd l \<noteq> [] \<and> \<not> blank (hd (snd l)) \<and>
     upcase 0 (snd l) = snd l \<and> 0 \<notin> set (snd l) \<and> CTRLH \<notin> set (snd l) \<and> list_all line_key (snd l) \<and>
     length (snd l) \<le> 249"

definition listing :: "pline \<Rightarrow> u8 list" where
  "listing l = dec_digits (unat (fst l)) @ [SPACE] @ snd l"

lemma digit_facts: "is_digit_ch c \<Longrightarrow> c \<noteq> DQUOTE \<and> c \<noteq> SQUOTE \<and> c \<noteq> 0 \<and> c \<noteq> CTRLH \<and> \<not> ch (CHR ''a'') \<le> c \<and> line_key c \<and> \<not> blank c"
  by (auto simp: is_digit_ch_unat line_key_def blank_def word_le_nat_alt)

lemma upcase_digits: "list_all is_digit_ch ds \<Longrightarrow> upcase 0 (ds @ xs) = ds @ upcase 0 xs"
  by (induction ds) (auto dest: digit_facts)

lemma upcase_listing: "canonical l \<Longrightarrow> upcase 0 (listing l) = listing l"
  by (simp add: listing_def upcase_digits dec_digits_are_digits canonical_def)

lemma entry_digits_listing:
  "dropWhile blank (listing l) = listing l" "takeWhile is_digit_ch (listing l) = dec_digits (unat (fst l))"
  "dropWhile is_digit_ch (listing l) = SPACE # snd l"
proof -
  define ds where "ds = dec_digits (unat (fst l))"
  have d: "list_all is_digit_ch ds" "ds \<noteq> []" by (simp_all add: ds_def dec_digits_are_digits)
  have all: "\<forall>x \<in> set ds. is_digit_ch x" using d by (simp add: list_all_iff)
  have sp: "\<not> is_digit_ch SPACE" by (simp add: is_digit_ch_unat)
  obtain x xs where x: "ds = x # xs" using d by (cases ds) auto
  then have "\<not> blank x" using all digit_facts by auto
  then show "dropWhile blank (listing l) = listing l" by (simp add: listing_def x flip: ds_def)
  show "takeWhile is_digit_ch (listing l) = dec_digits (unat (fst l))"
    using all sp by (simp add: listing_def takeWhile_append2 flip: ds_def)
  show "dropWhile is_digit_ch (listing l) = SPACE # snd l"
    using all sp by (simp add: listing_def dropWhile_append2 flip: ds_def)
qed

lemma entry_listing:
  assumes "canonical l"
  shows "entry (listing l) = l"
proof -
  have "dropWhile blank (SPACE # snd l) = snd l"
    using assms by (cases "snd l") (auto simp: canonical_def blank_def)
  then show ?thesis
    using upcase_listing[OF assms]
    by (simp add: entry_def entry_num_def entry_text_def entry_digits_def entry_digits_listing dec_val_dec_digits)
qed

lemma good_entry_listing:
  assumes "canonical l"
  shows "good_entry (listing l)"
proof -
  have d: "\<forall>x \<in> set (dec_digits (unat (fst l))). is_digit_ch x"
    using dec_digits_are_digits[of "unat (fst l)"] by (simp add: list_all_iff)
  then have "list_all line_key (dec_digits (unat (fst l)))" "CTRLH \<notin> set (dec_digits (unat (fst l)))"
    by (auto simp: list_all_iff dest: digit_facts)
  moreover have "0 < unat (fst l)" "unat (fst l) < 2 ^ 32 - 1"
    using assms by (auto simp: canonical_def word_less_nat_alt LINENUM_END_def unat_gt_0)
  moreover have "dropWhile blank (SPACE # snd l) = snd l"
    using assms by (cases "snd l") (auto simp: canonical_def blank_def)
  ultimately show ?thesis
    using assms upcase_listing[OF assms]
    by (simp add: good_entry_def entry_num_def entry_text_def entry_digits_def entry_digits_listing dec_val_dec_digits)
      (simp add: listing_def canonical_def line_key_def)
qed

lemma line_out_listing: "canonical l \<Longrightarrow> line_out l = map ucast (listing l) @ [13, 10, 13]"
proof -
  assume "canonical l"
  moreover have "0 \<notin> set xs \<Longrightarrow> list_all line_key xs \<Longrightarrow> concat (map shown xs) = map ucast xs" for xs
    by (induction xs) (auto simp: shown_def line_key_def)
  ultimately have "concat (map shown (snd l)) = map ucast (snd l)" by (simp add: canonical_def)
  then show ?thesis by (simp add: line_out_def listing_def)
qed

end
