(* ===== verification/Basic_Theorems.thy ===== *)
theory Basic_Theorems
  imports Basic_List Basic_Grammar
begin

text \<open>
  The properties of the TinyBASIC interpreter: evaluation of expressions, the program store behind
  the prompt, the scanner, numbers on the console.  Each rests on the lemmas of the component it is
  about; the witnesses run it on small concrete memories.
\<close>

text \<open>A memory with \<open>xs\<close> at offset 100, the variables and the stack where \<open>basic_init\<close> puts them.\<close>

definition sample :: "u8 list \<Rightarrow> basic" where
  "sample xs = (boot 0x100000 [])\<lparr>program := store_bytes (\<lambda>_. 0) 100 xs, txtpos := 100,
     variables_begin := 63272, stack_limit := 63488, sp := 65536\<rparr>"

definition sample_env :: basic_env where
  "sample_env = \<lparr>files_fw = \<lparr>locate_status = 0, open_status = 0, dir_entries = [], close_status = 0\<rparr>,
     user_text = []\<rparr>"

lemma sample_simps [simp]:
  "txtpos (sample xs) = 100" "variables_begin (sample xs) = 63272" "sp (sample xs) = 65536"
  "program_start (sample xs) = 0" "program_end (sample xs) = 0" "expression_error (sample xs) = False"
  "triggerRun (sample xs) = False" "current_line (sample xs) = None" "stack_limit (sample xs) = 63488"
  "program (sample xs) = store_bytes (\<lambda>_. 0) 100 xs" "program_base (sample xs) = 0x100000"
  by (simp_all add: sample_def boot_def)

lemma at_sample: "length xs \<le> 1000 \<Longrightarrow> at (sample xs) 100 xs"
  by (simp add: at_iff store_bytes_apply kRamSize_def)

text \<open>A stored program with the text \<open>xs\<close> in front of \<open>txtpos\<close> behind it.\<close>

definition sample_program :: "pline list \<Rightarrow> u8 list \<Rightarrow> basic" where
  "sample_program ps xs = (sample xs)\<lparr>program := store_bytes (program (sample xs)) 0 (prog_bytes ps),
     program_end := length (prog_bytes ps)\<rparr>"

lemma sample_program_simps [simp]:
  "txtpos (sample_program ps xs) = 100" "sp (sample_program ps xs) = 65536" "con_out (sample_program ps xs) = []"
  "program_end (sample_program ps xs) = length (prog_bytes ps)"
  by (simp_all add: sample_program_def sample_def boot_def)

lemma sample_program_stored:
  "list_all wf_line ps \<Longrightarrow> sorted_lines ps \<Longrightarrow> length (prog_bytes ps) \<le> 100 \<Longrightarrow> stored (sample_program ps xs) ps"
  by (auto simp: stored_def sample_program_def at_iff store_bytes_apply kRamSize_def)

lemma sample_program_text: "length (prog_bytes ps) \<le> 100 \<Longrightarrow> length xs \<le> 1000 \<Longrightarrow> at (sample_program ps xs) 100 xs"
  by (simp add: sample_program_def at_iff store_bytes_apply kRamSize_def)

subsection \<open>Expressions\<close>

text \<open>
  C1.  \<open>expression\<close> computes the value of the expression in front of \<open>txtpos\<close>: for every syntax
  tree whose text is there, followed by a character that cannot continue it (a letter may follow
  unless the text ends with a variable), the result is the
  value of the tree over the variables in memory (signed 64-bit arithmetic that wraps, comparisons
  as 0 and 1), the scan stops right behind the text, and nothing but \<open>txtpos\<close> and \<open>table_index\<close>
  changes.
\<close>

theorem expression_correct:
  assumes "exp_wf e" and "at s (txtpos s) (exp_text e @ [c])" and "follow_e (exp_open e) c" and "ready s"
    and "exp_val (program s) (variables_begin s) e = Some v"
  shows "yields (expression s) v s (length (exp_text e))"
  using assms by (rule expression_yields)

theorem expression_correct_witness:
  "yields (expression (sample (str ''1+2*(7-4)<8'' @ [NL]))) 1 (sample (str ''1+2*(7-4)<8'' @ [NL]))
     (length (str ''1+2*(7-4)<8''))"
proof -
  let ?e = "Rel Lt (Sm (Trm (Num 1) MNil) (SAdd (Trm (Num 2)
     (MMul (Par (Ex (Sm (Trm (Num 7) MNil) (SSub (Trm (Num 4) MNil) SNil)))) MNil)) SNil))
     (Sm (Trm (Num 8) MNil) SNil)"
  have "exp_text ?e = str ''1+2*(7-4)<8''" by (simp add: dec_digits.simps)
  moreover have "follow_e b NL" for b by (simp add: follow_defs)
  moreover have "ready (sample xs)" for xs by (simp add: ready_def kRamSize_def)
  moreover have "exp_val m b ?e = Some 1" for m b by simp
  moreover have "exp_wf ?e" by simp
  ultimately show ?thesis
    using expression_correct[of ?e "sample (str ''1+2*(7-4)<8'' @ [NL])" NL 1]
      at_sample[of "str ''1+2*(7-4)<8'' @ [NL]"] by simp
qed

text \<open>
  C22.  The recursion budget of the expression evaluator is never used up: whatever the memory
  holds, \<open>expression\<close> ends with a value or with an access outside the memory or a division trap,
  and it never moves \<open>txtpos\<close> back.
\<close>

theorem expression_total:
  "expression s \<noteq> Stop NoFuel \<and>
   (case expression s of Ok (v, s') \<Rightarrow> txtpos s \<le> txtpos s' | Stop h \<Rightarrow> h \<noteq> NoFuel)"
  using expression_fine[of s] expression_fuel[of s]
  by (auto simp: fine_def split: res.splits)

subsection \<open>The program store\<close>

text \<open>
  C4.  Entering a program at the prompt: for any list of numbered lines typed one after the other,
  in any order and with repeated numbers, \<open>basic_main\<close> comes back to the prompt after each, with
  the keys consumed, and memory then holds the records of lines in strictly increasing order in
  which every number has the text of its last entry (an empty text deletes the line).  The
  variables and the stack are untouched.
\<close>

theorem session_program:
  assumes "stored s ps" and "\<not> triggerRun s" and "variables_begin s \<le> kRamSize"
    and "keys s = key_codes ls @ ks" and "list_all good_entry ls"
    and "length (prog_bytes ps) + (\<Sum>l\<leftarrow>ls. length l + 6) \<le> variables_begin s"
  shows "\<exists>s' ps'. run env (length ls) (L_prompt, s) = Ok (L_prompt, s') \<and> keys s' = ks \<and>
    stored s' ps' \<and> sorted_lines ps' \<and>
    (\<forall>n. map_of ps' n = (case map_of (rev (map entry ls)) n of None \<Rightarrow> map_of ps n
        | Some t \<Rightarrow> if t = [] then None else Some t)) \<and>
    (\<forall>q \<ge> variables_begin s. program s' q = program s q)"
proof -
  have "store_ok ps" using assms(1) by (simp add: stored_def store_ok_def)
  moreover have "list_all wf_line (map entry ls)"
    using assms(5) by (auto simp: list_all_iff intro: good_entry_wf)
  ultimately show ?thesis
    using session_enters[OF assms, of env] plines.look_enter_all[of ps "map entry ls"]
    by (fastforce simp: stored_def)
qed

theorem session_program_witness:
  "\<exists>s' ps'. run sample_env 3 (L_prompt, (sample [])\<lparr>keys := key_codes (map str [''20 end'', ''10 print 1'', ''20'']) @ []\<rparr>)
      = Ok (L_prompt, s') \<and> stored s' ps' \<and> map_of ps' 10 = Some (str ''PRINT 1'') \<and> map_of ps' 20 = None"
proof -
  let ?ls = "map str [''20 end'', ''10 print 1'', ''20'']"
  let ?s = "(sample [])\<lparr>keys := key_codes ?ls @ []\<rparr>"
  have e: "map entry ?ls = [(20, str ''END''), (10, str ''PRINT 1''), (20, [])]"
    by (simp add: entry_def entry_num_def entry_digits_def entry_text_def digit_val_def
        is_digit_ch_def blank_def)
  have "list_all good_entry ?ls"
    by (simp add: good_entry_def line_key_def entry_num_def entry_digits_def entry_text_def
        digit_val_def is_digit_ch_def blank_def)
  moreover have "stored ?s []" by (simp add: stored_def)
  ultimately have "\<exists>s' ps'. run sample_env (length ?ls) (L_prompt, ?s) = Ok (L_prompt, s') \<and> keys s' = [] \<and>
    stored s' ps' \<and> sorted_lines ps' \<and>
    (\<forall>n. map_of ps' n = (case map_of (rev (map entry ?ls)) n of None \<Rightarrow> map_of [] n
        | Some t \<Rightarrow> if t = [] then None else Some t)) \<and>
    (\<forall>q \<ge> variables_begin ?s. program s' q = program ?s q)"
    by (intro session_program) (simp_all add: kRamSize_def)
  then show ?thesis unfolding e by (fastforce simp: numeral_3_eq_3)
qed

text \<open>
  The order in which lines are entered does not matter: two sessions that leave every number
  with the same last text leave the same program in memory, byte for byte.
\<close>

theorem session_order:
  assumes "stored s ps" and "\<not> triggerRun s" and "variables_begin s \<le> kRamSize"
    and "list_all good_entry (ls @ ls')" and "map_of (rev (map entry ls)) = map_of (rev (map entry ls'))"
    and "length (prog_bytes ps) + (\<Sum>l\<leftarrow>ls @ ls'. length l + 6) \<le> variables_begin s"
  shows "\<exists>s1 s2. run env (length ls) (L_prompt, s\<lparr>keys := key_codes ls\<rparr>) = Ok (L_prompt, s1) \<and>
    run env (length ls') (L_prompt, s\<lparr>keys := key_codes ls'\<rparr>) = Ok (L_prompt, s2) \<and>
    program_end s1 = program_end s2 \<and> (\<forall>q < program_end s1. program s1 q = program s2 q)"
proof -
  have ok: "store_ok ps" "list_all wf_line (map entry ls)" "list_all wf_line (map entry ls')"
    using assms(1,4) by (auto simp: stored_def store_ok_def list_all_iff intro: good_entry_wf)
  have st: "stored (s\<lparr>keys := k\<rparr>) ps" for k using assms(1) by (simp add: stored_def at_iff)
  obtain s1 where "run env (length ls) (L_prompt, s\<lparr>keys := key_codes ls\<rparr>) = Ok (L_prompt, s1)"
    "stored s1 (fold (\<lambda>(n, t). edit_line n t) (map entry ls) ps)"
    using session_enters[OF st[of "key_codes ls"], of ls "[]" env] assms by auto
  moreover obtain s2 where "run env (length ls') (L_prompt, s\<lparr>keys := key_codes ls'\<rparr>) = Ok (L_prompt, s2)"
    "stored s2 (fold (\<lambda>(n, t). edit_line n t) (map entry ls') ps)"
    using session_enters[OF st[of "key_codes ls'"], of ls' "[]" env] assms by auto
  ultimately show ?thesis
    using plines.enter_all_order[OF ok assms(5)] by (auto simp: stored_def at_iff)
qed

theorem session_order_witness:
  "\<exists>s1 s2. run sample_env 2 (L_prompt, (sample [])\<lparr>keys := key_codes (map str [''10 a=1'', ''20 b=2''])\<rparr>) = Ok (L_prompt, s1) \<and>
     run sample_env 2 (L_prompt, (sample [])\<lparr>keys := key_codes (map str [''20 b=2'', ''10 a=1''])\<rparr>) = Ok (L_prompt, s2) \<and>
     program_end s1 = program_end s2 \<and> (\<forall>q < program_end s1. program s1 q = program s2 q)"
proof -
  let ?l1 = "map str [''10 a=1'', ''20 b=2'']" and ?l2 = "map str [''20 b=2'', ''10 a=1'']"
  have "map entry ?l1 = [(10, str ''A=1''), (20, str ''B=2'')]" "map entry ?l2 = [(20, str ''B=2''), (10, str ''A=1'')]"
    by (simp_all add: entry_def entry_num_def entry_digits_def entry_text_def digit_val_def
        is_digit_ch_def blank_def)
  then have m: "map_of (rev (map entry ?l1)) = map_of (rev (map entry ?l2))"
    by (simp only:) (simp add: fun_upd_twist)
  have "list_all good_entry (?l1 @ ?l2)"
    by (simp add: good_entry_def line_key_def entry_num_def entry_digits_def entry_text_def
        digit_val_def is_digit_ch_def blank_def)
  then show ?thesis
    using session_order[of "sample []" "[]" ?l1 ?l2 sample_env, OF _ _ _ _ m] by (simp add: stored_def kRamSize_def numeral_2_eq_2)
qed

subsection \<open>LIST\<close>

lemma testnum_digits:
  assumes "at s (txtpos s) (bs @ ds @ [c])" and "list_all blank bs" and "list_all is_digit_ch ds"
    and "\<not> is_digit_ch c" and "\<not> blank c" and "dec_val 0 ds < 2 ^ 64 div 10"
  shows "testnum s = Ok (of_nat (dec_val 0 ds), s\<lparr>txtpos := txtpos s + length bs + length ds\<rparr>)"
proof -
  obtain x xs where x: "ds @ [c] = x # xs" by (cases "ds @ [c]") auto
  then have "\<not> blank x" using assms(3,5) by (cases ds) (auto dest: digit_facts)
  moreover have "at s (txtpos s) (bs @ [x])" using assms(1) x by (simp add: at_append)
  ultimately have "ignore_blanks s = Ok (s\<lparr>txtpos := txtpos s + length bs\<rparr>)"
    using assms(2) by (intro ignore_blanks_at)
  then show ?thesis
    using testnum_loop_exact[of "s\<lparr>txtpos := txtpos s + length bs\<rparr>" ds c 0] assms
    by (simp add: testnum_def at_append)
qed

lemma dropWhile_sorted_lines:
  "sorted_lines ps \<Longrightarrow> dropWhile (\<lambda>l. fst l < n) ps = filter (\<lambda>l. n \<le> fst l) ps"
  by (induction ps) (fastforce simp: sorted_lines_def not_less intro!: filter_True[symmetric])+

text \<open>
  C17.  LIST followed by a line number shows exactly the stored lines from that number on (all of
  them when no number is given), in ascending order, each as its number in decimal, a blank and
  its text, and leaves the program as it was, although the digits are built in the same memory.
\<close>

theorem list_output:
  assumes "stored s ps" and "list_room (program_end s) s" and "at s (txtpos s) (bs @ ds @ [NL])"
    and "list_all blank bs" and "list_all is_digit_ch ds" and "dec_val 0 ds < 2 ^ 32"
  shows "\<exists>s'. step env L_list s = Ok (L_warmstart, s') \<and> stored s' ps \<and>
    con_out s' = con_out s @ concat (map line_out (filter (\<lambda>l. dec_val 0 ds \<le> unat (fst l)) ps))"
proof -
  have t: "testnum s = Ok (of_nat (dec_val 0 ds), s\<lparr>txtpos := txtpos s + length bs + length ds\<rparr>)"
    using assms(3-) by (intro testnum_digits[where c = NL]) (simp_all add: is_digit_ch_unat blank_def)
  have e: "txtpos s + length bs + length ds < kRamSize" "program s (txtpos s + length bs + length ds) = NL"
    using assms(3) by (simp_all add: at_append)
  have "(ucast (of_nat (dec_val 0 ds) :: u64) :: u32) = of_nat (dec_val 0 ds)" by (rule ucast_of_nat_u64_u32)
  then have "(ucast (of_nat (dec_val 0 ds) :: u64) \<le> (n :: u32)) = (dec_val 0 ds \<le> unat n)" for n
    using assms(6) by (simp add: word_le_nat_alt unat_of_nat take_bit_nat_eq_self)
  then show ?thesis
    using l_list_lines[OF assms(1,2) t refl e] assms(1)
    by (simp add: stored_def dropWhile_sorted_lines)
qed

theorem list_output_witness:
  "\<exists>s'. step sample_env L_list (sample_program [(10, str ''A=1''), (20, str ''PRINT A'')] (str '' 20'' @ [NL])) = Ok (L_warmstart, s') \<and>
     con_out s' = map of_char ''20 PRINT A'' @ [13, 10, 13]"
proof -
  let ?s = "sample_program [(10, str ''A=1''), (20, str ''PRINT A'')] (str '' 20'' @ [NL])"
  have "stored ?s [(10, str ''A=1''), (20, str ''PRINT A'')]"
    by (intro sample_program_stored) (simp_all add: wf_line_def sorted_lines_def)
  moreover have "at ?s (txtpos ?s) ([32] @ str ''20'' @ [NL])"
    using sample_program_text[of "[(10, str ''A=1''), (20, str ''PRINT A'')]" "str '' 20'' @ [NL]"] by simp
  ultimately show ?thesis
    using list_output[of ?s "[(10, str ''A=1''), (20, str ''PRINT A'')]" "[32]" "str ''20''" sample_env]
    by (simp add: list_room_def kRamSize_def blank_def is_digit_ch_def digit_val_def line_out_def dec_digits.simps shown_def) blast
qed

text \<open>
  C16.  A listing is a faithful copy of the program: for a program of lines as the editor stores
  them, LIST shows the lines as text, and typing just that text into an empty interpreter
  rebuilds the program byte for byte.
\<close>

theorem list_reenter:
  assumes "stored s ps" and "list_all canonical ps" and "list_room (program_end s) s"
    and "stored t []" and "\<not> triggerRun t" and "variables_begin t \<le> kRamSize"
    and "keys t = key_codes (map listing ps)" and "(\<Sum>l\<leftarrow>ps. length (listing l) + 6) \<le> variables_begin t"
  shows "(\<exists>s'. list_loop (s\<lparr>list_line := 0\<rparr>) = Ok s' \<and>
      con_out s' = con_out s @ concat (map (\<lambda>l. map ucast (listing l) @ [13, 10, 13]) ps)) \<and>
    (\<exists>t'. run env (length ps) (L_prompt, t) = Ok (L_prompt, t') \<and> program_end t' = program_end s \<and>
      (\<forall>q < program_end s. program t' q = program s q))"
proof
  have "at (s\<lparr>list_line := 0\<rparr>) 0 (prog_bytes ps)" using assms(1) by (simp add: stored_def at_iff)
  moreover have "concat (map line_out ps) = concat (map (\<lambda>l. map ucast (listing l) @ [13, 10, 13]) ps)"
    using assms(2) by (induction ps) (simp_all add: line_out_listing)
  ultimately show "\<exists>s'. list_loop (s\<lparr>list_line := 0\<rparr>) = Ok s' \<and>
      con_out s' = con_out s @ concat (map (\<lambda>l. map ucast (listing l) @ [13, 10, 13]) ps)"
    using list_loop_lines[of "s\<lparr>list_line := 0\<rparr>" ps] assms(1,3) by (auto simp: stored_def list_room_def)
next
  let ?es = "map entry (map listing ps)"
  have es: "?es = ps" using assms(2) by (induction ps) (simp_all add: entry_listing)
  have g: "list_all good_entry (map listing ps)" using assms(2) by (auto simp: list_all_iff good_entry_listing)
  have ok: "store_ok []" "store_ok ps" "list_all wf_line ps"
    using assms(1) by (auto simp: store_ok_def stored_def sorted_lines_def)
  let ?p = "fold (\<lambda>(n, t). edit_line n t) ps []"
  have "map_of ?p n = map_of ps n" for n
  proof -
    have d: "distinct (map fst ps)" using assms(1) by (simp add: stored_def sorted_lines_distinct)
    then have "map_of (rev ps) = map_of ps" by (intro map_of_inject_set[THEN iffD2]) (simp_all flip: rev_map)
    moreover have "t \<noteq> []" if "map_of ps n = Some t" for t
      using map_of_SomeD[OF that] assms(2) by (auto simp: list_all_iff canonical_def)
    ultimately show ?thesis
      using plines.look_enter_all[OF ok(1,3), of n] by (auto split: option.splits)
  qed
  then have "?p = ps"
    using plines.enter_all_ok[OF ok(1,3)] ok(2) by (intro sorted_lines_unique ext) (auto simp: store_ok_def)
  then show "\<exists>t'. run env (length ps) (L_prompt, t) = Ok (L_prompt, t') \<and> program_end t' = program_end s \<and>
      (\<forall>q < program_end s. program t' q = program s q)"
    using session_enters[OF assms(4,5,6), of "map listing ps" "[]" env] assms(1,7,8) g es
    by (auto simp: stored_def at_iff o_def)
qed

theorem list_reenter_witness:
  "\<exists>t'. run sample_env 2 (L_prompt, (sample [])\<lparr>keys := key_codes [str ''10 A=1'', str ''20 PRINT A'']\<rparr>) = Ok (L_prompt, t') \<and>
     program_end t' = 22"
proof -
  let ?ps = "[(10, str ''A=1''), (20, str ''PRINT A'')] :: pline list"
  let ?t = "(sample [])\<lparr>keys := key_codes [str ''10 A=1'', str ''20 PRINT A'']\<rparr>"
  have s: "stored (sample_program ?ps []) ?ps"
    by (intro sample_program_stored) (simp_all add: wf_line_def sorted_lines_def)
  have c: "list_all canonical ?ps"
    by (simp add: canonical_def LINENUM_END_def blank_def line_key_def)
  have t: "list_room (program_end (sample_program ?ps [])) (sample_program ?ps [])" "stored ?t []"
      "\<not> triggerRun ?t" "variables_begin ?t \<le> kRamSize" "keys ?t = key_codes (map listing ?ps)"
      "(\<Sum>l\<leftarrow>?ps. length (listing l) + 6) \<le> variables_begin ?t"
    by (simp_all add: list_room_def kRamSize_def stored_def listing_def dec_digits.simps)
  obtain t' where "run sample_env (length ?ps) (L_prompt, ?t) = Ok (L_prompt, t')"
      "program_end t' = program_end (sample_program ?ps [])"
    using list_reenter[OF s c t, of sample_env] by (elim conjE exE) (rule that)
  moreover have "length ?ps = 2" "program_end (sample_program ?ps []) = 22" by simp_all
  ultimately show ?thesis by (intro exI[of _ t']) (simp only:)
qed

end
