(* ===== verification/Control_Theorems.thy ===== *)
theory Control_Theorems
  imports Basic_Theorems Control_Steps
begin

text \<open>
  The properties of the control statements of TinyBASIC (FOR, NEXT, GOSUB and RETURN) and of the
  machine as a whole: what no step changes, and which fields the evaluator touches.
\<close>

subsection \<open>Running the interpreter on a concrete memory\<close>

lemma bnd_weak_cong: "m = m' \<Longrightarrow> bnd m f = bnd m' f"
  by simp

lemma fuel_10: "\<exists>k. \<forall>s. expression s = expression_f (Suc (Suc (Suc (Suc (Suc (Suc (Suc (Suc (Suc (Suc k)))))))))) s"
  by (rule exI[of _ 393212]) (simp add: expression_def expr_fuel_def kRamSize_def)

lemmas evals = ignore_blanks.simps rd_def adv_def kRamSize_def store_bytes_apply is_letter_def is_digit_ch_def eval_expr_def
  scantable_def expr4_num.simps to_tab_def step_tab_def relop_tab_def Let_def relop_consts

subsection \<open>Jumps\<close>

definition sample_lines :: "pline list" where
  "sample_lines = [(10, str ''GOSUB20''), (20, str ''RETURN'')]"

definition sample_gosub :: basic where
  "sample_gosub = (sample_program sample_lines (str ''20'' @ [NL]))\<lparr>current_line := Some 0\<rparr>"

lemma sample_gosub_facts:
  "stored sample_gosub sample_lines" "at sample_gosub (txtpos sample_gosub) (exp_text (Ex (Sm (Trm (Num 20) MNil) SNil)) @ [NL])"
  "stack sample_gosub (sp sample_gosub) []" "stack_limit sample_gosub + sizeof_gosub_frame \<le> sp sample_gosub"
  "variables_begin sample_gosub + 208 \<le> stack_limit sample_gosub" "program_end sample_gosub \<le> stack_limit sample_gosub"
  "text_ptr (current_line sample_gosub)" "base_ok sample_gosub" "line_offset 20 sample_lines = 13"
  "txtpos sample_gosub = 100" "current_line sample_gosub = Some 0" "sp sample_gosub = 65536"
proof -
  have "stored (sample_program sample_lines xs) sample_lines" for xs
    by (intro sample_program_stored) (simp_all add: wf_line_def sorted_lines_def sample_lines_def)
  then show "stored sample_gosub sample_lines" by (simp add: sample_gosub_def stored_def at_iff)
  show "at sample_gosub (txtpos sample_gosub) (exp_text (Ex (Sm (Trm (Num 20) MNil) SNil)) @ [NL])"
    using sample_program_text[of sample_lines "str ''20'' @ [NL]"]
    by (simp add: sample_gosub_def sample_lines_def dec_digits.simps)
  show "stack sample_gosub (sp sample_gosub) []" "stack_limit sample_gosub + sizeof_gosub_frame \<le> sp sample_gosub"
    "variables_begin sample_gosub + 208 \<le> stack_limit sample_gosub" "program_end sample_gosub \<le> stack_limit sample_gosub"
    "text_ptr (current_line sample_gosub)" "base_ok sample_gosub" "line_offset 20 sample_lines = 13"
    "txtpos sample_gosub = 100" "current_line sample_gosub = Some 0" "sp sample_gosub = 65536"
    by (simp_all add: sample_gosub_def sample_program_def sample_lines_def basic_consts text_ptr_def base_ok_def line_offset_def)
qed

text \<open>
  C15.  GOTO and GOSUB with an expression in front of the end of the line go to the first stored
  line whose number is at least the value of the expression (cut to 32 bits); GOSUB also pushes a
  frame with the current line and the position behind the expression, and keeps the program and
  the variables.
\<close>

theorem jump_targets:
  assumes "exp_wf e" and "at s (txtpos s) (exp_text e @ [NL])" and "exp_val (program s) (variables_begin s) e = Some v"
    and "stored s ps" and "stack s (sp s) fs" and "stack_limit s + sizeof_gosub_frame \<le> sp s"
    and "variables_begin s + 208 \<le> stack_limit s" and "program_end s \<le> stack_limit s" and "text_ptr (current_line s)"
  shows "(\<exists>s1. kw_goto s = Ok (L_execline, s1) \<and> current_line s1 = Some (line_offset (ucast v) ps) \<and> program s1 = program s) \<and>
    (\<exists>s1. step env L_gosub s = Ok (L_execline, s1) \<and> current_line s1 = Some (line_offset (ucast v) ps) \<and>
      stack s1 (sp s1) (Gosub (txtpos s + length (exp_text e)) (current_line s) # fs) \<and> stored s1 ps \<and>
      (\<forall>q < stack_limit s. program s1 q = program s q))"
  using assms by (rule jumps_to)

theorem jump_targets_witness:
  "\<exists>s1. step sample_env L_gosub sample_gosub = Ok (L_execline, s1) \<and> current_line s1 = Some 13 \<and>
     stack s1 (sp s1) [Gosub 102 (Some 0)]"
  using jump_targets[OF _ sample_gosub_facts(2) _ sample_gosub_facts(1,3-7), of 20 sample_env]
  by (auto simp: sample_gosub_facts dec_digits.simps)

subsection \<open>Assignment and PRINT\<close>

text \<open>
  C18.  An assignment stores the value of its expression in its variable and in no other place: the
  cursor ends behind the expression, and the memory outside the eight bytes of the variable is
  kept.
\<close>

theorem assignment_stores:
  assumes "exp_wf e" and "at s (txtpos s) (v # ch (CHR ''='') # exp_text e @ [NL])" and "is_letter v"
    and "exp_val (program s) (variables_begin s) e = Some x" and "variables_begin s + 208 \<le> kRamSize"
  shows "\<exists>s'. step env L_assignment s = Ok (L_run_next_statement, s') \<and> ld_var v s' = Ok x \<and>
    txtpos s' = txtpos s + 2 + length (exp_text e) \<and>
    (\<forall>q. q < var_addr v s \<or> var_addr v s + 8 \<le> q \<longrightarrow> program s' q = program s q)"
proof -
  have "var_addr v s + 8 \<le> kRamSize"
    using assms(3,5) by (auto simp: var_addr_def VAR_SIZE_def is_letter_unat)
  then show ?thesis
    using assignment_runs[OF assms, of env] by (auto simp: ld_var_def ld_def var_addr_def VAR_SIZE_def mem_simps)
qed

theorem assignment_stores_witness:
  "\<exists>s'. step sample_env L_assignment (sample (str ''B=7'' @ [NL])) = Ok (L_run_next_statement, s') \<and>
     ld_var (ch (CHR ''B'')) s' = Ok 7"
  using assignment_stores[of "Ex (Sm (Trm (Num 7) MNil) SNil)" "sample (str ''B=7'' @ [NL])" "ch (CHR ''B'')" 7 sample_env]
    at_sample[of "str ''B=7'' @ [NL]"]
  by (auto simp: dec_digits.simps is_letter_def kRamSize_def)

text \<open>
  C19.  PRINT of an expression shows its value as a signed decimal number and a line break, for
  every value but the smallest 64-bit integer, and leaves all memory as it was except the nineteen
  bytes below the stack pointer, where the digits are built.
\<close>

theorem print_expression:
  assumes "exp_wf e" and "at s (txtpos s) (exp_text e @ [NL])" and "exp_val (program s) (variables_begin s) e = Some x"
    and "x \<noteq> 0x8000000000000000" and "variables_begin s + 208 \<le> kRamSize"
    and "txtpos s + length (exp_text e) + 19 < sp s" and "sp s \<le> kRamSize"
  shows "\<exists>s'. step env L_print_loop s = Ok (L_run_next_statement, s') \<and>
    con_out s' = con_out s @ map ucast (num_text (sint x)) @ [13, 10, 13] \<and> txtpos s' = txtpos s + length (exp_text e) \<and>
    (\<forall>q. q < sp s - 19 \<or> sp s \<le> q \<longrightarrow> program s' q = program s q)"
  using print_runs[OF assms, of env] by force

theorem print_expression_witness:
  "\<exists>s'. step sample_env L_print_loop (sample (str ''3-10'' @ [NL])) = Ok (L_run_next_statement, s') \<and>
     con_out s' = [45, 55, 13, 10, 13]"
proof -
  let ?e = "Ex (Sm (Trm (Num 3) MNil) (SSub (Trm (Num 10) MNil) SNil))" and ?s = "sample (str ''3-10'' @ [NL])"
  have "sint (- 7 :: u64) = - 7" using sint_word_of_int_id[of "- 7"] by simp
  moreover have "con_out ?s = []" by (simp add: sample_def boot_def)
  ultimately show ?thesis
    using print_expression[of ?e ?s "- 7" sample_env] at_sample[of "str ''3-10'' @ [NL]"]
    by (auto simp: dec_digits.simps kRamSize_def num_text_def)
qed

subsection \<open>GOSUB and RETURN\<close>

text \<open>
  C11.  RETURN undoes GOSUB: when a GOSUB has pushed its frame and the subroutine comes to its
  RETURN with the stack pointer and the bytes from there on as GOSUB left them, execution goes on
  behind the GOSUB on the line that held it, and the stack is what it was before, whatever else
  the subroutine did to the program, the variables and the cursor.
\<close>

theorem gosub_return_roundtrip:
  assumes "step env L_gosub s = Ok (L_execline, s1)" and "stack s (sp s) fs" and "base_ok s" and "text_ptr (current_line s)"
    and "sp t = sp s1" and "\<And>q. sp s1 \<le> q \<Longrightarrow> program t q = program s1 q" and "program_base t = program_base s"
    and "table_index t = 10"
  shows "\<exists>t'. step env L_gosub_return t = Ok (L_run_next_statement, t') \<and> current_line t' = current_line s \<and>
    txtpos t' = txtpos s1 \<and> sp t' = sp s \<and> stack t' (sp t') fs \<and> program t' = program t"
proof -
  have g: "l_gosub s = Ok (L_execline, s1)" using assms(1) by simp
  note s1 = gosub_pushes[OF g assms(2,4)]
  have st: "stack t (sp t) ([] @ Gosub (txtpos s1) (current_line s) # fs)"
    using s1(2,3) assms(5-7) by (subst stack_cong[where s = s1]) simp_all
  have r: "l_gosub_return t = Ok (L_run_next_statement, t\<lparr>tempsp := sp t, current_line := current_line s,
      txtpos := txtpos s1, sp := sp t + sizeof_gosub_frame\<rparr>)" (is "_ = Ok (_, ?t)")
    using return_finds[OF st] assms(3,7,8) by (simp add: base_ok_def)
  have "stack ?t (sp ?t) fs" using st by (subst stack_cong[where s = t]) simp_all
  then show ?thesis using s1(1) assms(5) r by auto
qed

theorem gosub_return_roundtrip_witness:
  "\<exists>s1 t'. step sample_env L_gosub sample_gosub = Ok (L_execline, s1) \<and>
     step sample_env L_gosub_return (s1\<lparr>table_index := 10\<rparr>) = Ok (L_run_next_statement, t') \<and>
     current_line t' = Some 0 \<and> sp t' = 65536"
proof -
  obtain s1 where s1: "step sample_env L_gosub sample_gosub = Ok (L_execline, s1)"
    using jumps_to[OF _ sample_gosub_facts(2) _ sample_gosub_facts(1,3-7), of 20 sample_env] by auto
  have "program_base s1 = program_base sample_gosub"
    using gosub_pushes(2)[OF _ sample_gosub_facts(3,7), of s1] s1 by simp
  then show ?thesis
    using gosub_return_roundtrip[OF s1 sample_gosub_facts(3,8,7), of "s1\<lparr>table_index := 10\<rparr>"] s1
    by (auto simp: sample_gosub_facts)
qed

lemma sample_nested:
  "\<exists>s1 s2. step sample_env L_gosub sample_gosub = Ok (L_execline, s1) \<and>
     push_for (ch (CHR ''I'')) 1 3 1 s1 = Ok (L_run_next_statement, s2) \<and> program_base s2 = 0x100000 \<and>
     stack s2 (sp s2) [For (ch (CHR ''I'')) 3 1 102 (Some 13), Gosub 102 (Some 0)]"
proof -
  obtain s1 where s1: "l_gosub sample_gosub = Ok (L_execline, s1)" "current_line s1 = Some 13"
      "stack s1 (sp s1) [Gosub 102 (Some 0)]"
    using jumps_to[OF _ sample_gosub_facts(2) _ sample_gosub_facts(1,3-7), of 20 sample_env]
    by (auto simp: sample_gosub_facts dec_digits.simps)
  note g = gosub_pushes[OF s1(1) sample_gosub_facts(3,7)]
  have l: "layout s1 = layout sample_gosub"
    using layout.view_step[of "layout sample_gosub" sample_gosub sample_env L_gosub] s1(1) by (simp add: keeps_def keeps2_def)
  have sp: "sp s1 = 65512" using g(1) by (simp add: sample_gosub_facts sizeof_gosub_frame_def)
  have f: "program_base s1 = 0x100000" "variables_begin s1 = 63272" "stack_limit s1 = 63488"
    using l by (simp_all add: layout_def sample_gosub_def sample_program_def)
  have i: "is_letter (ch (CHR ''I''))" by (simp add: is_letter_def)
  have vb: "vars_below (sp s1 - sizeof_for_frame) s1" using f sp by (simp add: vars_below_def basic_consts)
  have "enc_ptr (Some (txtpos s1)) s1 = enc_ptr (Some 102) s1" "text_ptr (Some (txtpos s1))" "text_ptr (Some 102)"
    using g(3) s1(3) by simp_all
  then have t: "txtpos s1 = 102" by (metis dec_off_enc)
  show ?thesis
    using push_for_pushes[OF s1(3) i vb, of 1 3 1] s1 f sp t by (auto simp: text_ptr_def basic_consts simp del: stack.simps)
qed

text \<open>
  C33.  RETURN out of a loop that is still open: the position is taken from the frame of the GOSUB,
  but only 24 bytes are dropped, so the stack pointer ends inside the frame of the loop.  Unless
  the lowest byte of the loop's saved text pointer happens to be the code of F or G, the next
  RETURN finds no frame and falls back to the prompt, although the subroutine's caller is still
  on the stack.
\<close>

theorem return_through_for:
  assumes "stack s (sp s) (For v t c ftp fcl # Gosub tp cl # gs)" and "table_index s = 10" and "base_ok s"
    and "(ucast (enc_ptr (Some ftp) s) :: u8) \<noteq> STACK_FOR_FLAG" and "(ucast (enc_ptr (Some ftp) s) :: u8) \<noteq> STACK_GOSUB_FLAG"
  shows "\<exists>s'. step env L_gosub_return s = Ok (L_run_next_statement, s') \<and> current_line s' = cl \<and> txtpos s' = tp \<and>
    sp s' = sp s + sizeof_gosub_frame \<and> step env L_gosub_return s' = Ok (L_warmstart, s'\<lparr>tempsp := sp s'\<rparr>)"
proof -
  let ?f = "For v t c ftp fcl" and ?p = "sp s + sizeof_gosub_frame"
  have w: "list_all (\<lambda>h. \<not> wants s h) [?f]" using assms(2) by simp
  have st: "stack s (sp s) ([?f] @ Gosub tp cl # gs)" using assms(1) by simp
  define s' where "s' = s\<lparr>tempsp := sp s + sum_list (map frame_size [?f]), current_line := cl, txtpos := tp, sp := ?p\<rparr>"
  have r: "l_gosub_return s = Ok (L_run_next_statement, s')"
    unfolding s'_def by (rule return_finds[OF st w assms(2,3)])
  have l: "ld 8 (sp s + 24) s = Ok (enc_ptr (Some ftp) s)" using assms(1) by simp
  then have b: "?p < kRamSize - 1" by (auto dest: ld_bound simp: sizeof_gosub_frame_def)
  have "le_bytes 8 (enc_ptr (Some ftp) s) ! 0 = ucast (enc_ptr (Some ftp) s)" by (simp add: numeral_eq_Suc)
  moreover have "program s (sp s + 24) = ucast (le_word (load_bytes (program s) (sp s + 24) 8))"
    by (rule bit_word_eqI) (simp add: load_bytes_def upt_rec[of "sp s + 24"] bit_simps)
  then have "program s ?p = ucast (enc_ptr (Some ftp) s)"
    using l by (simp add: ld_def sizeof_gosub_frame_def split: if_splits)
  ultimately have "l_gosub_return s' = Ok (L_warmstart, s'\<lparr>tempsp := sp s'\<rparr>)"
    using assms(4,5) b by (simp add: l_gosub_return_def s'_def walk_frames.simps rd_def less_diff_conv)
  then show ?thesis using r by (simp add: s'_def)
qed

theorem return_through_for_witness:
  "\<exists>s s'. stack s (sp s) [For (ch (CHR ''I'')) 3 1 102 (Some 13), Gosub 102 (Some 0)] \<and>
     step sample_env L_gosub_return s = Ok (L_run_next_statement, s') \<and> txtpos s' = 102 \<and>
     step sample_env L_gosub_return s' = Ok (L_warmstart, s'\<lparr>tempsp := sp s'\<rparr>)"
proof -
  obtain s2 where s2: "program_base s2 = 0x100000"
      "stack s2 (sp s2) [For (ch (CHR ''I'')) 3 1 102 (Some 13), Gosub 102 (Some 0)]"
    using sample_nested by blast
  let ?s = "s2\<lparr>table_index := 10\<rparr>"
  have st: "stack ?s (sp ?s) [For (ch (CHR ''I'')) 3 1 102 (Some 13), Gosub 102 (Some 0)]"
    using s2(2) by (subst stack_cong[where s = s2]) (simp_all del: stack.simps)
  moreover have "base_ok ?s" "(ucast (enc_ptr (Some 102) ?s) :: u8) = 0x66"
    using s2(1) by (simp_all add: base_ok_def kRamSize_def enc_ptr_def)
  ultimately obtain s' where "step sample_env L_gosub_return ?s = Ok (L_run_next_statement, s') \<and> txtpos s' = 102 \<and>
      step sample_env L_gosub_return s' = Ok (L_warmstart, s'\<lparr>tempsp := sp s'\<rparr>)"
    using return_through_for[OF st, of sample_env] by auto
  then show ?thesis using st by blast
qed

text \<open>
  C32.  GOSUB does not notice that the stack is full: with the stack pointer at its limit, and the
  variables right in front of the stack as the interpreter lays them out, it still pushes a frame,
  whose saved line pointer replaces the value of the variable Z.
\<close>

theorem gosub_overflow:
  assumes "exp_wf e" and "at s (txtpos s) (exp_text e @ [NL])" and "exp_val (program s) (variables_begin s) e = Some v"
    and "stored s ps" and "sp s = stack_limit s" and "variables_begin s + 27 * VAR_SIZE = stack_limit s"
    and "stack_limit s \<le> kRamSize" and "program_end s \<le> variables_begin s"
  shows "\<exists>s1. step env L_gosub s = Ok (L_execline, s1) \<and> sp s1 < stack_limit s1 \<and>
    ld_var (ch (CHR ''Z'')) s1 = Ok (enc_ptr (current_line s) s)"
proof -
  let ?vb = "variables_begin s"
  have vb: "sp s = ?vb + 216" "stack_limit s = ?vb + 216" "?vb + 216 \<le> kRamSize" "?vb + 208 \<le> kRamSize"
    using assms(5-7) by (simp_all add: VAR_SIZE_def)
  obtain i where e: "eval_expr s = Ok (v, s\<lparr>expression_error := False, txtpos := txtpos s + length (exp_text e), table_index := i\<rparr>)"
      (is "_ = Ok (v, ?s)")
    using eval_expr_text[OF assms(1,2) follow_NL vb(4) assms(3)] by blast
  have nl: "txtpos s + length (exp_text e) < kRamSize" "program s (txtpos s + length (exp_text e)) = NL"
    using assms(2) by (simp_all add: at_append)
  have fl: "findline (?s\<lparr>linenum := ucast v, sp := p, program := m\<rparr>) = Ok (line_offset (ucast v) ps)"
    if "\<And>q. q < program_end s \<Longrightarrow> m q = program s q" for m p by (rule findline_upd[OF assms(4)]) (simp_all add: that)
  have c: "enc_ptr p ?s = enc_ptr p s" for p by (cases p) (simp_all add: enc_ptr_def)
  have o: "?vb + 200 = 200 + ?vb" by simp
  show ?thesis
    using nl vb assms(8)
    by (simp add: o l_gosub_def e Let_def bad_end_def rd_def wr_def st_def sizeof_gosub_frame_def fl mem_simps c ld_var_def
        ld_def var_addr_def VAR_SIZE_def)
qed

theorem gosub_overflow_witness:
  "\<exists>s1. step sample_env L_gosub (sample_gosub\<lparr>sp := 63488\<rparr>) = Ok (L_execline, s1) \<and> sp s1 < stack_limit s1 \<and>
     ld_var (ch (CHR ''Z'')) s1 = Ok 0x100000"
proof -
  let ?s = "sample_gosub\<lparr>sp := 63488\<rparr>" and ?e = "Ex (Sm (Trm (Num 20) MNil) SNil)"
  have "stored ?s sample_lines" "at ?s (txtpos ?s) (exp_text ?e @ [NL])"
    using sample_gosub_facts(1,2) by (simp_all add: stored_def at_iff)
  then show ?thesis
    using gosub_overflow[of ?e ?s 20 sample_lines sample_env]
    by (simp add: sample_gosub_def sample_program_def sample_lines_def basic_consts enc_ptr_def)
qed

subsection \<open>FOR and NEXT\<close>

lemma push_for_outcome:
  assumes "stack s (sp s) fs" and "is_letter v" and "vars_below (sp s - sizeof_for_frame) s" and "sizeof_for_frame \<le> sp s"
    and "stack_limit s \<le> sp s" and "text_ptr (current_line s)" and "keeps still (still s) s'" and "txtpos s' < kRamSize"
  shows "\<exists>s1. push_for v i t c s' = Ok (L_run_next_statement, s1) \<and> sp s1 + sizeof_for_frame = sp s \<and>
    stack s1 (sp s1) (For v (ucast t) (ucast c) (txtpos s1) (current_line s) # fs) \<and> ld_var v s1 = Ok i"
proof -
  have "still s' = still s" using assms(7) by (simp add: keeps_def)
  note f = still_fields[OF this]
  have st: "stack s' (sp s') fs" using assms(1) f by (subst stack_cong[where s = s]) simp_all
  have vb: "vars_below (sp s' - sizeof_for_frame) s'" using assms(3) f by (simp add: vars_below_def)
  obtain m where m: "push_for v i t c s' = Ok (L_run_next_statement, s'\<lparr>sp := sp s' - sizeof_for_frame, program := m\<rparr>)"
      "stack (s'\<lparr>sp := sp s' - sizeof_for_frame, program := m\<rparr>) (sp s' - sizeof_for_frame)
        (For v (ucast t) (ucast c) (txtpos s') (current_line s') # fs)"
      "load_bytes m (var_addr v s') 8 = le_bytes 8 i"
    using push_for_pushes[OF st assms(2) vb, of i t c] assms(4-6,8) f by (auto simp: text_ptr_def)
  have "var_addr v s' + 8 \<le> kRamSize" using var_addr_below[OF assms(2) vb] vb by (simp add: vars_below_def)
  then have "ld_var v (s'\<lparr>sp := sp s' - sizeof_for_frame, program := m\<rparr>) = Ok i"
    using m(3) by (simp add: ld_var_def ld_def var_addr_def VAR_SIZE_def)
  then show ?thesis using m(1,2) f assms(4) by (simp del: stack.simps)
qed

text \<open>
  C14.  FOR is all or nothing: whatever follows it, either an error is reported and neither the
  memory nor the stack pointer has changed, or exactly one frame has been pushed, for the letter
  behind FOR, with the line and the position behind the statement, and the variable holds the
  initial value.
\<close>

theorem for_all_or_nothing:
  assumes "step env L_forloop s = Ok (l, s1)" and "stack s (sp s) fs" and "vars_below (sp s - sizeof_for_frame) s"
    and "sizeof_for_frame \<le> sp s" and "stack_limit s \<le> sp s" and "text_ptr (current_line s)"
  shows "(l \<in> {L_qwhat, L_qhow} \<and> program s1 = program s \<and> sp s1 = sp s) \<or>
    (l = L_run_next_statement \<and> sp s1 + sizeof_for_frame = sp s \<and> (\<exists>v t c i. is_letter v \<and>
      stack s1 (sp s1) (For v t c (txtpos s1) (current_line s) # fs) \<and> ld_var v s1 = Ok i))"
proof -
  define Q where "Q = (\<lambda>(l, s1). (l \<in> {L_qwhat, L_qhow} \<and> keeps still (still s) s1) \<or>
    (l = L_run_next_statement \<and> sp s1 + sizeof_for_frame = sp s \<and> (\<exists>v t c i. is_letter v \<and>
      stack s1 (sp s1) (For v t c (txtpos s1) (current_line s) # fs) \<and> ld_var v s1 = Ok i)))"
  have err: "post Q (fail n l s')" if "l \<in> {L_qwhat, L_qhow}" "keeps still (still s) s'" for n l s'
    using that by (simp add: Q_def fail_def)
  have push: "post Q (push_for v i t c s')" if "is_letter v" "keeps still (still s) s'" "txtpos s' < kRamSize" for v i t c s'
    using push_for_outcome[OF assms(2) that(1) assms(3-6) that(2,3), of i t c] that(1) by (fastforce simp: Q_def)
  have "keeps still (still s) s" by (simp add: keeps_def)
  then have "post Q (l_forloop s)"
    unfolding l_forloop_def for_rest_def
    by (auto intro!: post_bndS[OF still.view_ignore_blanks] post_rd post_bndS[OF still.view_scantable]
        post_bndV[OF still.view_eval_expr] post_bndV[OF still.view_expression] post_bndV[of still "still s" "for_step _"] err push
        simp: for_step_def still.view_expression)
  then have "Q (l, s1)" using assms(1) by (simp add: postD)
  then show ?thesis by (auto simp: Q_def keeps_def dest: still_fields)
qed

text \<open>
  C12.  NEXT finds the innermost loop of its variable, over the frames of other loops and of
  subroutines, and adds the step to the variable.  While the new value is within the bound (from
  below for a positive step, from above for a negative one) execution goes on behind the FOR and
  the stack is kept; otherwise it goes on behind the NEXT and the loop's frame is dropped with
  everything inside it.  No other variable changes.
\<close>

theorem next_loops:
  assumes "at s (txtpos s) [v, NL]" and "is_letter v" and "table_index s = 5"
    and "stack s (sp s) (hs @ For v t c tp cl # gs)" and "\<And>t c tp cl. For v t c tp cl \<notin> set hs"
    and "base_ok s" and "vars_below (sp s) s" and "ld_var v s = Ok x"
  defines "y \<equiv> x + scast c"
  shows "\<exists>s'. run env 2 (L_next, s) = Ok (L_run_next_statement, s') \<and> ld_var v s' = Ok y \<and>
    (\<forall>u. is_letter u \<and> u \<noteq> v \<longrightarrow> ld_var u s' = ld_var u s) \<and>
    (if loops t c y then txtpos s' = tp \<and> current_line s' = cl \<and> sp s' = sp s \<and> stack s' (sp s') (hs @ For v t c tp cl # gs)
     else txtpos s' = Suc (txtpos s) \<and> current_line s' = current_line s \<and> stack s' (sp s') gs)"
  using next_runs[OF assms(1-8), of env] unfolding y_def by blast

definition sample_for :: basic where
  "sample_for = sample (str ''I=1TO3'' @ [NL])"

lemma sample_for_runs: "\<exists>s1. step sample_env L_forloop sample_for = Ok (L_run_next_statement, s1)"
proof -
  obtain k where k: "expression s = expression_f (Suc (Suc (Suc (Suc (Suc (Suc (Suc (Suc (Suc (Suc k)))))))))) s" for s
    using fuel_10 by blast
  show ?thesis
    by (simp add: sample_for_def l_forloop_def for_rest_def for_step_def push_for_def st_def wr_def st_var_def var_addr_def
        basic_consts evals k cong: bnd_weak_cong)
qed

theorem for_all_or_nothing_witness:
  "\<exists>s1 v t c i. step sample_env L_forloop sample_for = Ok (L_run_next_statement, s1) \<and> is_letter v \<and>
     stack s1 (sp s1) [For v t c (txtpos s1) None] \<and> ld_var v s1 = Ok i"
proof -
  obtain s1 where s1: "step sample_env L_forloop sample_for = Ok (L_run_next_statement, s1)"
    using sample_for_runs by blast
  have "stack sample_for (sp sample_for) []" "vars_below (sp sample_for - sizeof_for_frame) sample_for"
      "sizeof_for_frame \<le> sp sample_for" "stack_limit sample_for \<le> sp sample_for" "text_ptr (current_line sample_for)"
      "current_line sample_for = None"
    by (simp_all add: sample_for_def vars_below_def basic_consts text_ptr_def)
  then show ?thesis using for_all_or_nothing[OF s1, of "[]"] s1 by (auto simp del: stack.simps)
qed

theorem next_loops_witness:
  "\<exists>s s'. push_for (ch (CHR ''I'')) 1 3 1 (sample (str ''I'' @ [NL])) = Ok (L_run_next_statement, s) \<and>
     run sample_env 2 (L_next, s\<lparr>table_index := 5\<rparr>) = Ok (L_run_next_statement, s') \<and>
     ld_var (ch (CHR ''I'')) s' = Ok 2 \<and> txtpos s' = 100"
proof -
  let ?i = "ch (CHR ''I'')" and ?s = "sample (str ''I'' @ [NL])"
  have i: "is_letter ?i" by (simp add: is_letter_def)
  have st: "stack ?s (sp ?s) []" "vars_below (sp ?s - sizeof_for_frame) ?s" by (simp_all add: vars_below_def basic_consts)
  obtain m where m: "push_for ?i 1 3 1 ?s = Ok (L_run_next_statement, ?s\<lparr>sp := 65504, program := m\<rparr>)"
      "stack (?s\<lparr>sp := 65504, program := m\<rparr>) 65504 [For ?i 3 1 100 None]"
      "load_bytes m (var_addr ?i ?s) 8 = le_bytes 8 1" "\<forall>q < var_addr ?i ?s. m q = program ?s q"
    using push_for_pushes[OF st(1) i st(2), of 1 3 1] by (auto simp: text_ptr_def basic_consts simp del: stack.simps)
  let ?t = "?s\<lparr>sp := 65504, program := m, table_index := 5\<rparr>"
  have a: "at ?t (txtpos ?t) [?i, NL]"
    using m(4) by (simp add: var_addr_def basic_consts store_bytes_apply)
  have stt: "stack ?t (sp ?t) ([] @ [For ?i 3 1 100 None])"
    using m(2) by (subst stack_cong[where s = "?s\<lparr>sp := 65504, program := m\<rparr>"]) (simp_all del: stack.simps)
  have r: "base_ok ?t" "vars_below (sp ?t) ?t" "ld_var ?i ?t = Ok 1" "table_index ?t = 5"
    using m(3) by (simp_all add: base_ok_def vars_below_def basic_consts ld_var_def ld_def var_addr_def)
  have "loops 3 1 2" by (simp add: loops_def)
  then have "\<exists>s'. run sample_env 2 (L_next, ?t) = Ok (L_run_next_statement, s') \<and> ld_var ?i s' = Ok 2 \<and> txtpos s' = 100"
    using next_loops[OF a i r(4) stt _ r(1,2,3), of sample_env] by (auto simp del: run.simps stack.simps)
  then show ?thesis using m(1) by auto
qed

subsection \<open>What does not change\<close>

text \<open>
  C20.  No statement, error or command moves the parts of the memory: from any label on, through
  any number of steps, the start of the program, the beginning of the variables, the limit of the
  stack and the address of the array stay what they were.
\<close>

theorem layout_invariant:
  "exec env (l, s) (l', s') \<Longrightarrow> program_start s' = program_start s \<and> variables_begin s' = variables_begin s \<and>
     stack_limit s' = stack_limit s \<and> program_base s' = program_base s"
  using layout.view_exec[of env "(l, s)" "(l', s')"] by (simp add: layout_def)

theorem layout_invariant_witness:
  "\<exists>s1. exec sample_env (L_forloop, sample_for) (L_run_next_statement, s1) \<and> variables_begin s1 = 63272"
proof -
  obtain s1 where "step sample_env L_forloop sample_for = Ok (L_run_next_statement, s1)"
    using sample_for_runs by blast
  then have "exec sample_env (L_forloop, sample_for) (L_run_next_statement, s1)"
    by (intro exec_step[OF exec_refl])
  then show ?thesis using layout_invariant[of sample_env L_forloop sample_for] by (auto simp: sample_for_def)
qed

text \<open>
  C21.  Evaluating an expression has no effect on the program: whatever the text is, and even when
  an error is found, the memory, the stack and the current line are kept.
\<close>

theorem expression_keeps_program:
  "expression s = Ok (v, s') \<Longrightarrow> program s' = program s \<and> sp s' = sp s \<and> current_line s' = current_line s \<and>
     program_end s' = program_end s \<and> variables_begin s' = variables_begin s"
  using still_fields[OF expression_still[of s v s']] by simp

theorem expression_keeps_program_witness:
  "\<exists>v s'. expression (sample (str ''1)'')) = Ok (v, s') \<and> program s' = program (sample (str ''1)''))"
proof -
  obtain k where k: "expression s = expression_f (Suc (Suc (Suc (Suc (Suc (Suc (Suc (Suc (Suc (Suc k)))))))))) s" for s
    using fuel_10 by blast
  have "returns (expression (sample (str ''1)'')))" by (simp add: evals k cong: bnd_weak_cong)
  then show ?thesis using expression_keeps_program by (auto simp: returns_iff)
qed

end
