(* ===== verification/Control_Loop.thy ===== *)
theory Control_Loop
  imports Control_Theorems
begin

text \<open>
  A whole loop of a BASIC program on the machine: FOR on one line, NEXT on the line behind it.
\<close>

lemma run_add: "run env (m + n) ls = bnd (run env m ls) (run env n)"
  by (induction m arbitrary: ls) (auto simp: bnd_assoc intro!: bnd_cong split: prod.splits)

text \<open>The machine stands at the end of the FOR line at \<open>cl\<close> (of length \<open>l\<close>), whose frame is on top of
  the stack; the line behind it is NEXT with the same variable, whose value is \<open>x\<close>.\<close>

definition loop_at :: "u8 \<Rightarrow> u32 \<Rightarrow> u32 \<Rightarrow> nat \<Rightarrow> nat \<Rightarrow> u8 \<Rightarrow> frame list \<Rightarrow> u64 \<Rightarrow> basic \<Rightarrow> bool" where
  "loop_at v t c tp cl l gs x s \<longleftrightarrow> is_letter v \<and> txtpos s = tp \<and> current_line s = Some cl \<and> at s tp [NL] \<and>
     at s (cl + 4) [l] \<and> at s (cl + unat l + 5) (str ''NEXT'' @ [v, NL]) \<and> cl + unat l \<noteq> program_end s \<and>
     tp < variables_begin s \<and> cl + 4 < variables_begin s \<and> cl + unat l + 11 \<le> variables_begin s \<and>
     stack s (sp s) (For v t c tp (Some cl) # gs) \<and> base_ok s \<and> vars_below (sp s) s \<and> ld_var v s = Ok x"

lemma scan_next:
  assumes "at s (txtpos s) (str ''NEXT'' @ [v, NL])" and "is_letter v"
  shows "scantable keywords_tab s = Ok (s\<lparr>table_index := 5, txtpos := txtpos s + 4\<rparr>)"
proof -
  have "first_match keywords_tab (str ''NEXT'' @ [v]) = 5" by (simp add: keywords_tab_def)
  moreover have "\<not> blank v" using assms(2) by (auto simp: blank_def is_letter_unat)
  ultimately show ?thesis
    using scantable_line[of s "str ''NEXT'' @ [v]" keywords_tab] assms(1) by (simp add: keywords_tab_def)
qed

lemma loop_enter:
  assumes "loop_at v t c tp cl l gs x s"
  shows "run env 4 (L_run_next_statement, s) =
    Ok (L_next, s\<lparr>current_line := Some (cl + unat l), txtpos := cl + unat l + 9, table_index := 5\<rparr>)"
proof -
  have nl: "rd (txtpos s) s = Ok NL" and l: "rd (cl + 4) s = Ok l" using assms by (simp_all add: loop_at_def rd_def)
  have "skip_colons s = Ok s" using nl by (subst skip_colons.simps) simp
  moreover have "ignore_blanks s = Ok s" using nl by (subst ignore_blanks.simps) simp
  ultimately have 1: "l_run_next_statement s = Ok (L_execnextline, s)" using nl by (simp add: l_run_next_statement_def)
  let ?s2 = "s\<lparr>current_line := Some (cl + unat l)\<rparr>" and ?s3 = "s\<lparr>current_line := Some (cl + unat l), txtpos := cl + unat l + 5\<rparr>"
  have 2: "l_execnextline s = Ok (L_execline, ?s2)"
    using l assms by (simp add: l_execnextline_def sizeof_LINENUM_def loop_at_def)
  have 3: "l_execline ?s2 = Ok (L_interperateAtTxtpos, ?s3)"
    using assms by (simp add: l_execline_def sizeof_LINENUM_def loop_at_def)
  have "at ?s3 (txtpos ?s3) (str ''NEXT'' @ [v, NL])" using assms by (simp add: loop_at_def)
  then have 4: "l_interperateAtTxtpos ?s3 =
      Ok (L_next, s\<lparr>current_line := Some (cl + unat l), txtpos := cl + unat l + 9, table_index := 5\<rparr>)"
    using scan_next[of ?s3 v] assms by (simp add: l_interperateAtTxtpos_def ub_breakcheck_def kw_enum_def loop_at_def)
  show ?thesis using 1 2 3 4 by (simp add: eval_nat_numeral)
qed

lemma loop_round:
  assumes "loop_at v t c tp cl l gs x s"
  defines "y \<equiv> x + scast c"
  shows "\<exists>s'. run env 6 (L_run_next_statement, s) = Ok (L_run_next_statement, s') \<and>
    (if loops t c y then loop_at v t c tp cl l gs y s'
     else current_line s' = Some (cl + unat l) \<and> txtpos s' = cl + unat l + 10 \<and> stack s' (sp s') gs \<and> ld_var v s' = Ok y)"
proof -
  note a = assms(1)[unfolded loop_at_def]
  let ?u = "s\<lparr>current_line := Some (cl + unat l), txtpos := cl + unat l + 9, table_index := 5\<rparr>"
  have st: "stack ?u p fs = stack s p fs" for p fs by (rule stack_cong) simp_all
  have ld: "ld_var v ?u = ld_var v s" by (simp add: ld_var_def ld_def var_addr_def)
  have f: "at ?u (txtpos ?u) [v, NL]" "is_letter v" "table_index ?u = 5" "stack ?u (sp ?u) ([] @ For v t c tp (Some cl) # gs)"
      "base_ok ?u" "vars_below (sp ?u) ?u" "ld_var v ?u = Ok x"
    using a st ld by (simp_all add: base_ok_def vars_below_def ac_simps del: stack.simps)
  have "For v' t' c' tp' cl' \<notin> set []" for v' t' c' tp' cl' by simp
  from next_runs[OF f(1-4) this f(5-7), of env, folded y_def]
  obtain s' where s': "run env 2 (L_next, ?u) = Ok (L_run_next_statement, s')" "ld_var v s' = Ok y"
      "program s' = store_bytes (program ?u) (var_addr v ?u) (le_bytes 8 y)" "variables_begin s' = variables_begin ?u"
      "program_base s' = program_base ?u" "program_end s' = program_end ?u"
      "if loops t c y then txtpos s' = tp \<and> current_line s' = Some cl \<and> sp s' = sp ?u \<and>
         stack s' (sp s') ([] @ For v t c tp (Some cl) # gs)
       else txtpos s' = Suc (txtpos ?u) \<and> current_line s' = current_line ?u \<and> stack s' (sp s') gs"
    by blast
  have run: "run env 6 (L_run_next_statement, s) = Ok (L_run_next_statement, s')"
    using run_add[of env 4 2 "(L_run_next_statement, s)"] loop_enter[OF assms(1), of env] s'(1) by simp
  have "program s' q = program s q" if "q < variables_begin s" for q
    using that s'(3) var_addr_letter(2)[OF f(2), of ?u] by (simp add: store_bytes_apply)
  then have same: "at s' p xs = at s p xs" if "p + length xs \<le> variables_begin s" for p xs
    using that by (auto simp: at_iff)
  have at': "at s' tp [NL]" "at s' (cl + 4) [l]" "at s' (cl + unat l + 5) (str ''NEXT'' @ [v, NL])"
    using a same[of tp "[NL]"] same[of "cl + 4" "[l]"] same[of "cl + unat l + 5" "str ''NEXT'' @ [v, NL]"]
    by (simp_all del: at.simps)
  show ?thesis
  proof (cases "loops t c y")
    case True
    then have "txtpos s' = tp" "current_line s' = Some cl" "sp s' = sp s" "stack s' (sp s') (For v t c tp (Some cl) # gs)"
      using s'(7) by (auto simp del: stack.simps)
    then have "loop_at v t c tp cl l gs y s'"
      unfolding loop_at_def using at' s'(2,4-6) a by (simp add: base_ok_def vars_below_def del: at.simps run.simps stack.simps)
    with run True show ?thesis by (intro exI[of _ s']) (simp del: run.simps)
  next
    case False
    with run s' show ?thesis by (intro exI[of _ s']) (simp del: run.simps stack.simps)
  qed
qed

lemma sint_add_step:
  fixes x :: u64 and c :: u32
  assumes "0 < sint c" and "sint x \<le> 2 ^ 62"
  shows "sint (x + scast c) = sint x + sint c"
proof -
  have "- (2 ^ 63) \<le> sint x" using sint_greater_eq[of x] by simp
  moreover have "sint c < 2 ^ 31" using sint_less[of c] by simp
  ultimately show ?thesis using assms by (simp add: sint_word_ariths signed_take_bit_int_eq_self)
qed

text \<open>
  C13.  An empty FOR loop with a positive step ends: NEXT on the line behind the FOR is executed
  finitely often, every value it gives the variable but the last is within the bound, the last one
  is the first value beyond it, and then execution goes on behind the NEXT with the loop's frame
  gone from the stack.
\<close>

theorem empty_loop_ends:
  assumes "loop_at v t c tp cl l gs x s" and "0 < sint c" and "sint x \<le> 2 ^ 62"
  shows "\<exists>k s'. 0 < k \<and> run env (6 * k) (L_run_next_statement, s) = Ok (L_run_next_statement, s') \<and>
    ld_var v s' = Ok (x + of_nat k * scast c) \<and> sint t < sint (x + of_nat k * scast c) \<and>
    (\<forall>i. 0 < i \<and> i < k \<longrightarrow> sint (x + of_nat i * scast c) \<le> sint t) \<and>
    current_line s' = Some (cl + unat l) \<and> txtpos s' = cl + unat l + 10 \<and> stack s' (sp s') gs"
  using assms(1,3)
proof (induction "nat (sint t - sint x)" arbitrary: x s rule: less_induct)
  case less
  define y where "y = x + scast c"
  have y: "sint y = sint x + sint c" using sint_add_step[OF assms(2) less.prems(2)] by (simp add: y_def)
  have loops: "loops t c y \<longleftrightarrow> sint y \<le> sint t" using assms(2) by (auto simp: loops_def)
  obtain s1 where s1: "run env 6 (L_run_next_statement, s) = Ok (L_run_next_statement, s1)"
      "if loops t c y then loop_at v t c tp cl l gs y s1
       else current_line s1 = Some (cl + unat l) \<and> txtpos s1 = cl + unat l + 10 \<and> stack s1 (sp s1) gs \<and> ld_var v s1 = Ok y"
    using loop_round[OF less.prems(1), of env] unfolding y_def by blast
  show ?case
  proof (cases "loops t c y")
    case False
    with s1 loops show ?thesis
      by (intro exI[of _ "1::nat"] exI[of _ s1]) (simp add: y_def del: run.simps stack.simps)
  next
    case True
    then have "nat (sint t - sint y) < nat (sint t - sint x)" "loop_at v t c tp cl l gs y s1" "sint y \<le> 2 ^ 62"
      using s1(2) loops y assms(2) sint_less[of t] by simp_all
    from less.hyps[OF this] obtain k s' where k: "0 < k"
        "run env (6 * k) (L_run_next_statement, s1) = Ok (L_run_next_statement, s')"
        "ld_var v s' = Ok (y + of_nat k * scast c)" "sint t < sint (y + of_nat k * scast c)"
        "\<And>i. 0 < i \<Longrightarrow> i < k \<Longrightarrow> sint (y + of_nat i * scast c) \<le> sint t"
        "current_line s' = Some (cl + unat l)" "txtpos s' = cl + unat l + 10" "stack s' (sp s') gs"
      by blast
    have shift: "y + of_nat i * scast c = x + of_nat (Suc i) * scast c" for i :: nat
      by (simp add: y_def algebra_simps)
    have "run env (6 * Suc k) (L_run_next_statement, s) = Ok (L_run_next_statement, s')"
      using run_add[of env 6 "6 * k" "(L_run_next_statement, s)"] s1(1) k(2) by (simp del: run.simps)
    moreover have "sint (x + of_nat i * scast c) \<le> sint t" if "0 < i" "i < Suc k" for i
    proof (cases "i = 1")
      case True
      with \<open>loops t c y\<close> loops show ?thesis by (simp add: y_def)
    next
      case False
      with that obtain j where "i = Suc j" "0 < j" "j < k" by (metis One_nat_def Suc_less_eq gr0_implies_Suc neq0_conv)
      then show ?thesis using k(5)[of j] shift[of j] by simp
    qed
    ultimately show ?thesis
      using k(3,4,6-8) unfolding shift by (intro exI[of _ "Suc k"] exI[of _ s']) blast
  qed
qed

text \<open>Behind the scan of \<open>10 FORI=1TO3\<close>, with \<open>20 NEXTI\<close> as the next line.\<close>

definition sample_loop :: basic where
  "sample_loop = (sample_program [(10, str ''FORI=1TO3''), (20, str ''NEXTI'')] [])\<lparr>txtpos := 14, current_line := Some 0\<rparr>"

lemma sample_loop_pushed:
  "\<exists>s. push_for (ch (CHR ''I'')) 1 3 1 sample_loop = Ok (L_run_next_statement, s) \<and>
     loop_at (ch (CHR ''I'')) 3 1 14 0 15 [] 1 s"
proof -
  let ?i = "ch (CHR ''I'')" and ?s = sample_loop
  have i: "is_letter ?i" by (simp add: is_letter_def)
  have st: "stack ?s (sp ?s) []" "vars_below (sp ?s - sizeof_for_frame) ?s" "sizeof_for_frame \<le> sp ?s"
      "stack_limit ?s \<le> sp ?s" "text_ptr (Some (txtpos ?s))" "text_ptr (current_line ?s)"
    by (simp_all add: sample_loop_def sample_program_def vars_below_def text_ptr_def basic_consts)
  let ?t = "\<lambda>m. ?s\<lparr>sp := 65504, program := m\<rparr>"
  have s: "txtpos ?s = 14" "current_line ?s = Some 0" "variables_begin ?s = 63272" "sp ?s = 65536" "program_base ?s = 0x100000"
      "program_end ?s = 26"
    by (simp_all add: sample_loop_def sample_program_def)
  obtain m where m: "push_for ?i 1 3 1 ?s = Ok (L_run_next_statement, ?t m)" "stack (?t m) 65504 [For ?i 3 1 14 (Some 0)]"
      "load_bytes m (var_addr ?i ?s) 8 = le_bytes 8 1" "\<forall>q < var_addr ?i ?s. m q = program ?s q"
    using push_for_pushes[OF st(1) i st(2-6), of 1 3 1] by (auto simp: s basic_consts simp del: stack.simps)
  have va: "var_addr ?i ?s = 63336" by (simp add: var_addr_def s VAR_SIZE_def)
  have "at ?s 14 [NL]" "at ?s 4 [15]" "at ?s 20 (str ''NEXT'' @ [?i, NL])"
    by (simp_all add: sample_loop_def sample_program_def basic_consts store_bytes_apply nth_append nth_Cons')
  then have "at (?t m) 14 [NL]" "at (?t m) 4 [15]" "at (?t m) 20 (str ''NEXT'' @ [?i, NL])"
    using m(4) va by (simp_all add: basic_consts)
  moreover have "ld_var ?i (?t m) = Ok 1" using m(3) va by (simp add: ld_var_def ld_def var_addr_def s basic_consts)
  ultimately have "loop_at ?i 3 1 14 0 15 [] 1 (?t m)"
    using m(2) i s by (simp add: loop_at_def base_ok_def vars_below_def basic_consts del: at.simps stack.simps)
  then show ?thesis using m(1) by blast
qed

theorem empty_loop_ends_witness:
  "\<exists>s s'. push_for (ch (CHR ''I'')) 1 3 1 sample_loop = Ok (L_run_next_statement, s) \<and>
     run sample_env 18 (L_run_next_statement, s) = Ok (L_run_next_statement, s') \<and>
     ld_var (ch (CHR ''I'')) s' = Ok 4 \<and> txtpos s' = 25"
proof -
  obtain s where s: "push_for (ch (CHR ''I'')) 1 3 1 sample_loop = Ok (L_run_next_statement, s)"
      "loop_at (ch (CHR ''I'')) 3 1 14 0 15 [] 1 s"
    using sample_loop_pushed by blast
  obtain k s' where k: "0 < k" "run sample_env (6 * k) (L_run_next_statement, s) = Ok (L_run_next_statement, s')"
      "ld_var (ch (CHR ''I'')) s' = Ok (1 + of_nat k * scast (1 :: u32))"
      "sint (3 :: u32) < sint (1 + of_nat k * scast (1 :: u32) :: u64)"
      "\<And>i. 0 < i \<Longrightarrow> i < k \<Longrightarrow> sint (1 + of_nat i * scast (1 :: u32) :: u64) \<le> sint (3 :: u32)" "txtpos s' = 25"
    using empty_loop_ends[OF s(2), of sample_env] by (auto simp del: run.simps)
  have "\<not> 3 < k" using k(5)[of 3] by auto
  then have "k = 1 \<or> k = 2 \<or> k = 3" using k(1) by linarith
  then have "k = 3" using k(4) by auto
  with k s(1) show ?thesis by (intro exI[of _ s] exI[of _ s']) (simp del: run.simps)
qed

end
