(* ===== verification/Basic_Refine.thy ===== *)
theory Basic_Refine
  imports Basic_Machine Control_Loop
begin

text \<open>
  The interpreter implements the machine of \<open>Basic_Machine\<close>.  \<open>sim\<close> relates a state of that
  machine to a state of the interpreter that holds the text of the program; every step of the
  machine is some number of steps between labels of \<open>basic_main\<close>.
\<close>

subsection \<open>Lines in memory\<close>

definition line_at :: "pline list \<Rightarrow> nat \<Rightarrow> nat" where
  "line_at ls j = length (prog_bytes (take j ls))"

lemma line_at_0 [simp]: "line_at ls 0 = 0"
  by (simp add: line_at_def)

lemma line_at_length [simp]: "line_at ls (length ls) = length (prog_bytes ls)"
  by (simp add: line_at_def)

lemma line_at_Suc: "j < length ls \<Longrightarrow> line_at ls (Suc j) = line_at ls j + length (snd (ls ! j)) + 6"
  by (simp add: line_at_def take_Suc_conv_app_nth)

lemma line_at_add: "line_at ls (i + k) = line_at ls i + length (prog_bytes (take k (drop i ls)))"
  by (simp add: line_at_def take_add)

lemma line_at_mono: "i \<le> j \<Longrightarrow> line_at ls i \<le> line_at ls j"
  using line_at_add[of ls i "j - i"] by simp

lemma line_at_less:
  assumes "i < j" and "i < length ls"
  shows "line_at ls i < line_at ls j"
  using line_at_Suc[OF assms(2)] line_at_mono[of "Suc i" j ls] assms(1) by simp

lemma line_at_end: "line_at ls j \<le> length (prog_bytes ls)"
  using line_at_mono[of j "length ls" ls] by (cases "j \<le> length ls") (simp_all add: line_at_def)

lemma line_offset_target: "line_offset n ls = line_at ls (length (takeWhile (\<lambda>l. fst l < n) ls))"
  by (simp add: line_offset_def line_at_def flip: takeWhile_eq_take)

lemma at_line:
  assumes "stored s ls" and "j < length ls"
  shows "at s (line_at ls j) (rec_bytes (ls ! j))"
proof -
  have "prog_bytes ls = prog_bytes (take j ls) @ rec_bytes (ls ! j) @ prog_bytes (drop (Suc j) ls)"
    using arg_cong[OF id_take_nth_drop[OF assms(2)], of prog_bytes] by simp
  then show ?thesis using assms(1) by (simp add: stored_def at_append line_at_def)
qed

lemma line_header:
  assumes "stored s ls" and "j < length ls"
  shows "\<exists>b. rd (line_at ls j + sizeof_LINENUM) s = Ok b \<and> line_at ls j + unat b = line_at ls (Suc j)"
proof -
  have "wf_line (ls ! j)" using assms by (auto simp: stored_def list_all_iff)
  then show ?thesis
    using rd_reclen[of s "line_at ls j" "ls ! j" "[]"] at_line[OF assms] line_at_Suc[OF assms(2)] by auto
qed

lemma line_body:
  assumes "stored s ls" and "j < length ls"
  shows "at s (line_at ls j + 5) (snd (ls ! j) @ [NL])"
  using at_line[OF assms] by (cases "ls ! j") (simp add: at_append ac_simps)

text \<open>The position of the newline of a line.\<close>

definition line_end :: "pline list \<Rightarrow> nat \<Rightarrow> nat" where
  "line_end ls j = line_at ls j + length (snd (ls ! j)) + 5"

lemma line_end_Suc: "j < length ls \<Longrightarrow> Suc (line_end ls j) = line_at ls (Suc j)"
  by (simp add: line_end_def line_at_Suc)

lemma line_end_less: "j < length ls \<Longrightarrow> line_end ls j < length (prog_bytes ls)"
  using line_at_end[of ls "Suc j"] line_end_Suc[of j ls] by simp

lemma at_line_end: "stored s ls \<Longrightarrow> j < length ls \<Longrightarrow> at s (line_end ls j) [NL]"
  using line_body[of s ls j] by (simp add: line_end_def at_append add.commute add.left_commute)

text \<open>From the end of one line to the start of the next, and into its first statement.\<close>

lemma line_done:
  assumes "stored s ls" and "j < length ls" and "txtpos s = line_end ls j" and "current_line s = Some (line_at ls j)"
  shows "run env 2 (L_run_next_statement, s) = Ok (L_execline, s\<lparr>current_line := Some (line_at ls (Suc j))\<rparr>)"
proof -
  have nl: "rd (txtpos s) s = Ok NL" using at_line_end[OF assms(1,2)] assms(3) by (simp add: rd_def)
  obtain b where b: "rd (line_at ls j + sizeof_LINENUM) s = Ok b" "line_at ls j + unat b = line_at ls (Suc j)"
    using line_header[OF assms(1,2)] by blast
  have "skip_colons s = Ok s" using nl by (subst skip_colons.simps) simp
  moreover have "ignore_blanks s = Ok s" using nl by (subst ignore_blanks.simps) simp
  ultimately have "l_run_next_statement s = Ok (L_execnextline, s)" using nl by (simp add: l_run_next_statement_def)
  moreover have "l_execnextline s = Ok (L_execline, s\<lparr>current_line := Some (line_at ls (Suc j))\<rparr>)"
    using b assms(4) by (simp add: l_execnextline_def)
  ultimately show ?thesis by (simp add: numeral_2_eq_2)
qed

lemma line_skipped:
  assumes "stored s ls" and "j < length ls" and "current_line s = Some (line_at ls j)"
  shows "l_execnextline s = Ok (L_execline, s\<lparr>current_line := Some (line_at ls (Suc j))\<rparr>)"
  using line_header[OF assms(1,2)] assms(3) by (auto simp: l_execnextline_def)

lemma line_starts:
  assumes "stored s ls" and "j < length ls" and "current_line s = Some (line_at ls j)"
  shows "l_execline s = Ok (L_interperateAtTxtpos, s\<lparr>txtpos := line_at ls j + 5\<rparr>)"
proof -
  have "line_at ls j \<noteq> program_end s"
    using assms(1) line_at_less[of j "length ls" ls] assms(2) by (simp add: stored_def)
  then show ?thesis using assms(3) by (simp add: l_execline_def sizeof_LINENUM_def)
qed

subsection \<open>The relation\<close>

fun conc :: "pline list \<Rightarrow> aframe \<Rightarrow> frame" where
  "conc ls (AFor v t c j) = For v t c (line_end ls j) (Some (line_at ls j))"
| "conc ls (AGosub j) = Gosub (line_end ls j) (Some (line_at ls j))"

fun aframe_ok :: "bprog \<Rightarrow> aframe \<Rightarrow> bool" where
  "aframe_ok ps (AFor v t c j) \<longleftrightarrow> is_letter v \<and> j < length ps"
| "aframe_ok ps (AGosub j) \<longleftrightarrow> j < length ps"

definition sim :: "bprog \<Rightarrow> amach \<Rightarrow> basic \<Rightarrow> bool" where
  "sim ps a s \<longleftrightarrow> stored s (render ps) \<and> (\<forall>v. is_letter v \<longrightarrow> ld_var v s = Ok (vars a v)) \<and>
     stack s (sp s) (map (conc (render ps)) (frames a)) \<and> list_all (aframe_ok ps) (frames a) \<and>
     con_out s = shown_text a \<and> base_ok s \<and> program_end s \<le> variables_begin s \<and>
     variables_begin s + 27 * VAR_SIZE = stack_limit s \<and> stack_limit s + STACK_SIZE = kRamSize \<and> stack_limit s \<le> sp s"

lemma length_render [simp]: "length (render ps) = length ps"
  by (simp add: render_def)

lemma nth_render: "j < length ps \<Longrightarrow> snd (render ps ! j) = stmt_text (snd (ps ! j))"
  by (simp add: render_def case_prod_unfold)

lemma target_render: "line_offset (ucast x) (render ps) = line_at (render ps) (target ps x)"
  by (simp add: line_offset_target target_def render_def takeWhile_map comp_def case_prod_unfold)

lemma conc_size [simp]: "frame_size (conc ls f) = aframe_size f"
  by (cases f) simp_all

lemma stack_depth: "stack s p (map (conc ls) fs) \<Longrightarrow> p + depth fs = kRamSize"
  by (induction fs arbitrary: p) (auto simp: depth_def simp flip: add.assoc)

lemma sim_sp: "sim ps a s \<Longrightarrow> sp s + depth (frames a) = kRamSize"
  using stack_depth[of s "sp s" "render ps" "frames a"] by (simp add: sim_def)

lemma sim_bounds:
  assumes "sim ps a s"
  shows "variables_begin s + 216 = stack_limit s" and "stack_limit s + 2048 = kRamSize" and "stack_limit s \<le> sp s"
    and "sp s \<le> kRamSize" and "variables_begin s + 208 \<le> kRamSize" and "program_end s \<le> variables_begin s"
    and "vars_below (sp s) s"
  using assms sim_sp[OF assms] by (auto simp: sim_def vars_below_def basic_consts)

text \<open>What a statement may do to the memory and the other fields.\<close>

lemma sim_upd:
  assumes "sim ps a s" and "\<And>q. q < variables_begin s \<Longrightarrow> program s' q = program s q"
    and "program_start s' = program_start s" and "program_end s' = program_end s" and "variables_begin s' = variables_begin s"
    and "stack_limit s' = stack_limit s" and "program_base s' = program_base s" and "con_out s' = shown_text a'"
    and "\<And>v. is_letter v \<Longrightarrow> ld_var v s' = Ok (vars a' v)" and "stack s' (sp s') (map (conc (render ps)) (frames a'))"
    and "list_all (aframe_ok ps) (frames a')" and "stack_limit s \<le> sp s'"
  shows "sim ps a' s'"
proof -
  have "at s' 0 (prog_bytes (render ps))" using assms(1,2) by (auto simp: sim_def stored_def at_iff)
  then show ?thesis using assms by (simp add: sim_def stored_def base_ok_def)
qed

text \<open>Expressions have the value the machine gives them.\<close>

lemma sim_val:
  assumes "sim ps a s" and "exp_wf e" and "exp_ev (vars a) e = Some x"
  shows "exp_val (program s) (variables_begin s) e = Some x"
proof (rule ev_val(6)[OF _ assms(2,3)])
  fix c assume c: "is_letter c"
  then have "var_addr c s + 8 \<le> kRamSize" using sim_bounds[OF assms(1)] by (auto simp: var_addr_def VAR_SIZE_def is_letter_unat)
  moreover have "ld_var c s = Ok (vars a c)" using assms(1) c by (simp add: sim_def)
  ultimately show "var_val (program s) (variables_begin s) c = vars a c"
    using c by (simp add: var_val_def ld_var_def ld_def var_addr_letter VAR_SIZE_def)
qed

lemma sim_cong:
  assumes "program s' = program s" and "program_base s' = program_base s" and "program_start s' = program_start s"
    and "program_end s' = program_end s" and "variables_begin s' = variables_begin s" and "stack_limit s' = stack_limit s"
    and "sp s' = sp s" and "con_out s' = con_out s"
  shows "sim ps a s' = sim ps a s"
proof -
  have "stack s' (sp s) fs = stack s (sp s) fs" for fs using assms(1,2) by (intro stack_cong) simp_all
  moreover have "ld_var v s' = ld_var v s" for v using assms(1,5) by (simp add: ld_var_def ld_def var_addr_def)
  moreover have "stored s' ls = stored s ls" for ls using assms(1,3,4) at_program_cong[of s' s] by (simp add: stored_def)
  ultimately show ?thesis using assms(2,4-8) by (simp add: sim_def base_ok_def del: stack.simps)
qed

lemma sim_fields [simp]:
  "sim ps (a\<lparr>pc := j\<rparr>) s = sim ps a s" "sim ps a (s\<lparr>txtpos := p\<rparr>) = sim ps a s" "sim ps a (s\<lparr>table_index := i\<rparr>) = sim ps a s"
  "sim ps a (s\<lparr>current_line := c\<rparr>) = sim ps a s" "sim ps a (s\<lparr>expression_error := b\<rparr>) = sim ps a s"
  "sim ps a (s\<lparr>linenum := n\<rparr>) = sim ps a s" "sim ps a (s\<lparr>tempsp := p\<rparr>) = sim ps a s"
  by ((simp add: sim_def; fail) | (rule sim_cong, simp_all))+

subsection \<open>Runs\<close>

lemma exec_trans: "exec env y z \<Longrightarrow> exec env x y \<Longrightarrow> exec env x z"
  by (induction rule: exec.induct) (auto intro: exec_step)

lemma exec_first: "step env l s = Ok y \<Longrightarrow> exec env y z \<Longrightarrow> exec env (l, s) z"
  by (rule exec_trans[OF _ exec_step[OF exec_refl]])

lemma run_exec: "run env n x = Ok y \<Longrightarrow> exec env x y"
proof (induction n arbitrary: x)
  case 0
  then show ?case by (simp add: exec_refl)
next
  case (Suc n)
  then show ?case by (cases x) (auto simp: res_simps intro: exec_first)
qed

lemma exec_run: "exec env x y \<Longrightarrow> \<exists>n. run env n x = Ok y"
proof (induction rule: exec.induct)
  case (exec_refl x)
  then show ?case by (intro exI[of _ 0]) simp
next
  case (exec_step x l s y)
  then obtain n where "run env n x = Ok (l, s)" by blast
  then have "run env (Suc n) x = Ok y" using run_add[of env n 1 x] exec_step.hyps by simp
  then show ?case by blast
qed

text \<open>The interpreter stands in front of a statement that ends its line.\<close>

definition before :: "bprog \<Rightarrow> amach \<Rightarrow> basic \<Rightarrow> stmt \<Rightarrow> bool" where
  "before ps a s t \<longleftrightarrow> sim ps a s \<and> pc a < length ps \<and> current_line s = Some (line_at (render ps) (pc a)) \<and>
     at s (txtpos s) (stmt_text t @ [NL]) \<and> txtpos s + length (stmt_text t) = line_end (render ps) (pc a)"

text \<open>It comes to the start of the line that the machine goes on with.\<close>

definition reaches :: "basic_env \<Rightarrow> label \<times> basic \<Rightarrow> bprog \<Rightarrow> amach \<Rightarrow> bool" where
  "reaches env ls ps a \<longleftrightarrow> (\<exists>s'. exec env ls (L_execline, s') \<and> sim ps a s' \<and>
     current_line s' = Some (line_at (render ps) (pc a)))"

lemma reaches_step: "step env l s = Ok ls \<Longrightarrow> reaches env ls ps a \<Longrightarrow> reaches env (l, s) ps a"
  unfolding reaches_def by (blast intro: exec_first)

lemma reaches_now:
  "sim ps a s \<Longrightarrow> current_line s = Some (line_at (render ps) (pc a)) \<Longrightarrow> reaches env (L_execline, s) ps a"
  unfolding reaches_def by (blast intro: exec_refl)

lemma reaches_next:
  assumes "sim ps a s" and "j < length ps" and "txtpos s = line_end (render ps) j"
    and "current_line s = Some (line_at (render ps) j)"
  shows "reaches env (L_run_next_statement, s) ps (a\<lparr>pc := Suc j\<rparr>)"
proof -
  have "stored s (render ps)" using assms(1) by (simp add: sim_def)
  then have "exec env (L_run_next_statement, s) (L_execline, s\<lparr>current_line := Some (line_at (render ps) (Suc j))\<rparr>)"
    using line_done[of s "render ps" j env] assms(2-4) by (intro run_exec) simp_all
  then show ?thesis unfolding reaches_def using assms(1) by fastforce
qed

lemma reaches_skip:
  assumes "sim ps a s" and "pc a < length ps" and "current_line s = Some (line_at (render ps) (pc a))"
  shows "reaches env (L_execnextline, s) ps (next_line a)"
proof (rule reaches_step)
  have "stored s (render ps)" using assms(1) by (simp add: sim_def)
  then show "step env L_execnextline s = Ok (L_execline, s\<lparr>current_line := Some (line_at (render ps) (Suc (pc a)))\<rparr>)"
    using line_skipped[of s "render ps" "pc a"] assms(2,3) by simp
qed (use assms(1) in \<open>auto intro: reaches_now simp: next_line_def\<close>)

subsection \<open>Keywords\<close>

lemma scan_keyword:
  assumes "at s (txtpos s) (k @ r @ [NL])" and "first_match keywords_tab (k @ r) = i" and "i < length keywords_tab"
    and "keywords_tab ! i = k" and "r = [] \<or> \<not> blank (hd r)"
  shows "scantable keywords_tab s = Ok (s\<lparr>table_index := i, txtpos := txtpos s + length k\<rparr>)"
proof -
  have "NL \<notin> set w" if "w \<in> set keywords_tab" for w using that by (auto simp: keywords_tab_def)
  moreover have "takeWhile blank r = []" using assms(5) by (cases r) auto
  ultimately show ?thesis using scantable_line[of s "k @ r" keywords_tab] assms by simp
qed

lemma scan_some_keyword:
  assumes "at s (txtpos s) (r @ [NL])" and "first_match keywords_tab r = i" and "i < length keywords_tab"
  shows "\<exists>p. scantable keywords_tab s = Ok (s\<lparr>table_index := i, txtpos := p\<rparr>)"
proof -
  have "NL \<notin> set w" if "w \<in> set keywords_tab" for w using that by (auto simp: keywords_tab_def)
  then show ?thesis using scantable_line[of s r keywords_tab] assms by (auto simp: Let_def)
qed

lemma scan_default:
  assumes "at s (txtpos s) (r @ [NL])" and "first_match keywords_tab r = length keywords_tab"
  shows "scantable keywords_tab s = Ok (s\<lparr>table_index := 27\<rparr>)"
proof -
  have "NL \<notin> set w" if "w \<in> set keywords_tab" for w using that by (auto simp: keywords_tab_def)
  then show ?thesis using scantable_line[of s r keywords_tab] assms by (simp add: keywords_tab_def)
qed

lemmas interp_simps = l_interperateAtTxtpos_def ub_breakcheck_def kw_enum_def

subsection \<open>Assignment and PRINT\<close>

lemma sim_store:
  assumes "sim ps a s" and "is_letter v"
  shows "sim ps (a\<lparr>vars := (vars a)(v := x)\<rparr>) (s\<lparr>program := store_bytes (program s) (var_addr v s) (le_bytes 8 x)\<rparr>)"
    (is "sim ps ?a ?s")
proof (rule sim_upd[OF assms(1)])
  note b = sim_bounds[OF assms(1)]
  have va: "variables_begin s \<le> var_addr v s" "var_addr v s + 8 \<le> sp s"
    using var_addr_below[OF assms(2) b(7)] var_addr_letter(2)[OF assms(2)] by simp_all
  show "program ?s q = program s q" if "q < variables_begin s" for q using that va by (simp add: store_bytes_apply)
  show "ld_var u ?s = Ok (vars ?a u)" if "is_letter u" for u
    using ld_var_store[OF assms(2) that, of ?s s x] b(5) assms(1) that by (simp add: sim_def)
  have "stack ?s (sp s) fs = stack s (sp s) fs" for fs
    using va by (intro stack_cong) (simp_all add: store_bytes_apply)
  then show "stack ?s (sp ?s) (map (conc (render ps)) (frames ?a))" using assms(1) by (simp add: sim_def)
qed (use assms in \<open>simp_all add: sim_def\<close>)

lemma reaches_let:
  assumes "before ps a s (SLet v e)" and "is_letter v" and "exp_wf e" and "exp_ev (vars a) e = Some x"
  shows "reaches env (L_interperateAtTxtpos, s) ps (next_line (a\<lparr>vars := (vars a)(v := x)\<rparr>))"
proof -
  note b = assms(1)[unfolded before_def]
  let ?s = "s\<lparr>table_index := 27\<rparr>"
  have "first_match keywords_tab (v # 61 # exp_text e) = length keywords_tab"
    using assms(2) by (auto simp: keywords_tab_def is_letter_def)
  then have scan: "scantable keywords_tab s = Ok ?s" using b scan_default[of s "v # 61 # exp_text e"] by simp
  have val: "exp_val (program ?s) (variables_begin ?s) e = Some x" using sim_val[OF conjunct1[OF b] assms(3,4)] by simp
  obtain i where l: "step env L_assignment ?s = Ok (L_run_next_statement, ?s\<lparr>expression_error := False,
      txtpos := txtpos ?s + 2 + length (exp_text e), table_index := i,
      program := store_bytes (program ?s) (var_addr v ?s) (le_bytes 8 x)\<rparr>)" (is "_ = Ok (_, ?s')")
    using assignment_runs[OF assms(3) _ assms(2) val] b sim_bounds(5)[of ps a s] by (auto simp del: step.simps)
  have "sim ps (a\<lparr>vars := (vars a)(v := x)\<rparr>) ?s'"
    using sim_store[OF _ assms(2), of ps a s x] b by (subst sim_cong) (auto simp: var_addr_def)
  then have r: "reaches env (L_run_next_statement, ?s') ps (a\<lparr>vars := (vars a)(v := x)\<rparr>\<lparr>pc := Suc (pc a)\<rparr>)"
    using b by (intro reaches_next) simp_all
  have "step env L_interperateAtTxtpos s = Ok (L_assignment, ?s)" using scan by (simp add: interp_simps)
  from reaches_step[OF this reaches_step[OF l r]] show ?thesis by (simp add: next_line_def)
qed

lemma scan_exp_keyword:
  assumes "at s (txtpos s) (k @ exp_text e @ r @ [NL])" and "exp_wf e" and "first_match keywords_tab (k @ exp_text e @ r) = i"
    and "i < length keywords_tab" and "keywords_tab ! i = k"
  shows "scantable keywords_tab s = Ok (s\<lparr>table_index := i, txtpos := txtpos s + length k\<rparr>)"
proof -
  have "\<not> blank (hd (exp_text e @ r))" using exp_text_start[OF assms(2)] by auto
  then show ?thesis using scan_keyword[of s k "exp_text e @ r" i] assms by simp
qed

lemma before_keyword:
  assumes "before ps a s t" and "stmt_text t = k @ r" and "r = [] \<or> \<not> blank (hd r)"
    and "first_match keywords_tab (k @ r) = i" and "i < length keywords_tab" and "keywords_tab ! i = k" and "length k = n"
  shows "scantable keywords_tab s = Ok (s\<lparr>table_index := i, txtpos := txtpos s + n\<rparr>)"
    and "at s (txtpos s + n) (r @ [NL])" and "txtpos s + n + length r = line_end (render ps) (pc a)"
    and "sim ps a s" and "pc a < length ps" and "current_line s = Some (line_at (render ps) (pc a))"
proof -
  note b = assms(1)[unfolded before_def assms(2)]
  show "scantable keywords_tab s = Ok (s\<lparr>table_index := i, txtpos := txtpos s + n\<rparr>)"
    using scan_keyword[of s k r i] b assms(3-7) by simp
  show "at s (txtpos s + n) (r @ [NL])" "txtpos s + n + length r = line_end (render ps) (pc a)"
    "sim ps a s" "pc a < length ps" "current_line s = Some (line_at (render ps) (pc a))"
    using b assms(7) by (auto simp: at_append)
qed

lemma reaches_print:
  assumes "before ps a s (SPrint e)" and "exp_wf e" and "exp_ev (vars a) e = Some x"
    and "x \<noteq> 0x8000000000000000" and "depth (frames a) + 19 \<le> STACK_SIZE"
  shows "reaches env (L_interperateAtTxtpos, s) ps (next_line (a\<lparr>shown_text := shown_text a @ printed x\<rparr>))"
proof -
  note b = assms(1)[unfolded before_def]
  note bd = sim_bounds[OF conjunct1[OF b]]
  let ?s = "s\<lparr>table_index := 14, txtpos := txtpos s + 5\<rparr>"
  have tx: "at s (txtpos s + 5) (exp_text e @ [NL])" using b by (simp add: numeral_eq_Suc)
  have "first_match keywords_tab (str ''PRINT'' @ exp_text e @ []) = 14" by (simp add: keywords_tab_def)
  then have "scantable keywords_tab s = Ok ?s"
    using b scan_exp_keyword[of s "str ''PRINT''" e "[]" 14] assms(2) by (simp add: keywords_tab_def)
  then have 1: "step env L_interperateAtTxtpos s = Ok (L_print, ?s)" by (simp add: interp_simps)
  obtain c r where "exp_text e = c # r" "c \<noteq> 58" "c \<noteq> NL" using exp_text_start[OF assms(2)] by blast
  then have 2: "step env L_print ?s = Ok (L_print_loop, ?s)" using tx by (simp add: l_print_def rd_def)
  have end_pos: "txtpos ?s + length (exp_text e) = line_end (render ps) (pc a)" using b by simp
  have "line_end (render ps) (pc a) < program_end s" using b line_end_less[of "pc a" "render ps"] by (simp add: sim_def stored_def)
  moreover have sp: "stack_limit s + 19 \<le> sp s" using sim_sp[OF conjunct1[OF b]] bd(2) assms(5) by (simp add: basic_consts)
  ultimately have room: "txtpos ?s + length (exp_text e) + 19 < sp ?s" using end_pos bd(1,6) by simp
  obtain i m where 3: "step env L_print_loop ?s = Ok (L_run_next_statement, ?s\<lparr>expression_error := False,
      txtpos := txtpos ?s + length (exp_text e), table_index := i, program := m,
      con_out := con_out ?s @ map ucast (num_text (sint x)) @ [13, 10, 13]\<rparr>)" (is "_ = Ok (_, ?s')")
      and m: "\<forall>q. q < sp ?s - 19 \<or> sp ?s \<le> q \<longrightarrow> m q = program ?s q"
    using print_runs[OF assms(2), of ?s x env] tx room sim_val[OF conjunct1[OF b] assms(2,3)] assms(4) bd(4,5)
    by (auto simp del: step.simps)
  have "sim ps (a\<lparr>shown_text := shown_text a @ printed x\<rparr>) ?s'"
  proof (rule sim_upd[OF conjunct1[OF b]])
    show "program ?s' q = program s q" if "q < variables_begin s" for q using that m sp bd(1) by simp
    show "ld_var v ?s' = Ok (vars (a\<lparr>shown_text := shown_text a @ printed x\<rparr>) v)" if "is_letter v" for v
    proof -
      have "ld_var v ?s' = ld_var v s" using that m sp bd(1) by (intro ld_var_cong) simp_all
      then show ?thesis using b that by (simp add: sim_def)
    qed
    have "stack ?s' (sp s) fs = stack s (sp s) fs" for fs using m by (intro stack_cong) simp_all
    then show "stack ?s' (sp ?s') (map (conc (render ps)) (frames (a\<lparr>shown_text := shown_text a @ printed x\<rparr>)))"
      using b by (simp add: sim_def)
  qed (use b in \<open>simp_all add: sim_def printed_def\<close>)
  then have r: "reaches env (L_run_next_statement, ?s') ps (a\<lparr>shown_text := shown_text a @ printed x\<rparr>\<lparr>pc := Suc (pc a)\<rparr>)"
    using b end_pos by (intro reaches_next) simp_all
  from reaches_step[OF 1 reaches_step[OF 2 reaches_step[OF 3 r]]] show ?thesis by (simp add: next_line_def)
qed

subsection \<open>Jumps\<close>

lemma reaches_goto:
  assumes "before ps a s (SGoto e)" and "exp_wf e" and "exp_ev (vars a) e = Some x"
  shows "reaches env (L_interperateAtTxtpos, s) ps (a\<lparr>pc := target ps x\<rparr>)"
proof -
  note b = assms(1)[unfolded before_def]
  let ?s = "s\<lparr>table_index := 8, txtpos := txtpos s + 4\<rparr>"
  have tx: "at s (txtpos s + 4) (exp_text e @ [NL])" using b by (simp add: numeral_eq_Suc)
  have "first_match keywords_tab (str ''GOTO'' @ exp_text e @ []) = 8" by (simp add: keywords_tab_def)
  then have scan: "scantable keywords_tab s = Ok ?s"
    using b scan_exp_keyword[of s "str ''GOTO''" e "[]" 8] assms(2) by (simp add: keywords_tab_def)
  have st: "stored ?s (render ps)" using b sim_fields(2,3)[of ps a] by (simp add: sim_def stored_def)
  obtain i where g: "kw_goto ?s = Ok (L_execline, ?s\<lparr>expression_error := False, txtpos := txtpos ?s + length (exp_text e),
      table_index := i, linenum := ucast x, current_line := Some (line_offset (ucast x) (render ps))\<rparr>)" (is "_ = Ok (_, ?s')")
    using goto_runs[OF assms(2) _ _ st, of x] tx sim_val[OF conjunct1[OF b] assms(2,3)] sim_bounds(5)[OF conjunct1[OF b]] by auto
  have "step env L_interperateAtTxtpos s = Ok (L_execline, ?s')" using scan g by (simp add: interp_simps)
  moreover have "reaches env (L_execline, ?s') ps (a\<lparr>pc := target ps x\<rparr>)"
    using b by (intro reaches_now) (simp_all add: target_render)
  ultimately show ?thesis by (rule reaches_step)
qed

lemma sim_text_ptr:
  assumes "sim ps a s"
  shows "text_ptr (Some (line_at (render ps) j))" and "j < length ps \<Longrightarrow> text_ptr (Some (line_end (render ps) j))"
  using line_at_end[of "render ps" j] line_end_less[of j "render ps"] sim_bounds[OF assms] assms
  by (simp_all add: text_ptr_def sim_def stored_def)

lemma reaches_gosub:
  assumes "before ps a s (SGosub e)" and "exp_wf e" and "exp_ev (vars a) e = Some x"
    and "depth (frames a) + sizeof_gosub_frame \<le> STACK_SIZE"
  shows "reaches env (L_interperateAtTxtpos, s) ps (a\<lparr>frames := AGosub (pc a) # frames a, pc := target ps x\<rparr>)"
proof -
  note b = assms(1)[unfolded before_def]
  note bd = sim_bounds[OF conjunct1[OF b]]
  let ?s = "s\<lparr>table_index := 9, txtpos := txtpos s + 5\<rparr>" and ?a = "a\<lparr>frames := AGosub (pc a) # frames a\<rparr>"
  have tx: "at s (txtpos s + 5) (exp_text e @ [NL])" using b by (simp add: numeral_eq_Suc)
  have "first_match keywords_tab (str ''GOSUB'' @ exp_text e @ []) = 9" by (simp add: keywords_tab_def)
  then have "scantable keywords_tab s = Ok ?s"
    using b scan_exp_keyword[of s "str ''GOSUB''" e "[]" 9] assms(2) by (simp add: keywords_tab_def)
  then have 1: "step env L_interperateAtTxtpos s = Ok (L_gosub, ?s)" by (simp add: interp_simps)
  have sim: "sim ps a ?s" using b by simp
  have st: "stored ?s (render ps)" "stack ?s (sp ?s) (map (conc (render ps)) (frames a))" using sim by (simp_all add: sim_def)
  have sp: "stack_limit ?s + sizeof_gosub_frame \<le> sp ?s" using sim_sp[OF sim] bd(2) assms(4) by (simp add: basic_consts)
  obtain i m where 2: "l_gosub ?s = Ok (L_execline, ?s\<lparr>expression_error := False, txtpos := txtpos ?s + length (exp_text e),
      table_index := i, linenum := ucast x, sp := sp ?s - sizeof_gosub_frame, program := m,
      current_line := Some (line_offset (ucast x) (render ps))\<rparr>)" (is "_ = Ok (_, ?s')")
      and m: "\<forall>q < sp ?s - sizeof_gosub_frame. m q = program ?s q"
    using gosub_runs[OF assms(2) _ _ st(1), of x] tx sim_val[OF conjunct1[OF b] assms(2,3)] sp bd by auto
  have "sim ps ?a ?s'"
  proof (rule sim_upd[OF conjunct1[OF b]])
    show "program ?s' q = program s q" if "q < variables_begin s" for q using that m sp bd(1) by simp
    show "ld_var v ?s' = Ok (vars ?a v)" if "is_letter v" for v
    proof -
      have "ld_var v ?s' = ld_var v s" using that m sp bd(1) by (intro ld_var_cong) simp_all
      then show ?thesis using b that by (simp add: sim_def)
    qed
    have "stack ?s' (sp ?s') (Gosub (txtpos ?s') (current_line ?s) # map (conc (render ps)) (frames a))"
      using b sim_text_ptr(1)[OF sim] by (intro gosub_pushes(3)[OF 2 st(2)]) simp
    moreover have "txtpos ?s' = line_end (render ps) (pc a)" "current_line ?s = Some (line_at (render ps) (pc a))" using b by simp_all
    ultimately show "stack ?s' (sp ?s') (map (conc (render ps)) (frames ?a))" by (simp del: stack.simps)
    show "stack_limit s \<le> sp ?s'" using sp by simp
  qed (use b in \<open>simp_all add: sim_def\<close>)
  then have r: "reaches env (L_execline, ?s') ps (?a\<lparr>pc := target ps x\<rparr>)" by (intro reaches_now) (simp_all add: target_render)
  have "step env L_gosub ?s = Ok (L_execline, ?s')" using 2 by simp
  from reaches_step[OF 1 reaches_step[OF this r]] show ?thesis by simp
qed

lemma reaches_return:
  assumes "before ps a s SReturn" and "frames a = AGosub j # fs"
  shows "reaches env (L_interperateAtTxtpos, s) ps (a\<lparr>frames := fs, pc := Suc j\<rparr>)"
proof -
  note b = assms(1)[unfolded before_def]
  let ?ls = "render ps"
  let ?s = "s\<lparr>table_index := 10, txtpos := txtpos s + 6\<rparr>"
  have "scantable keywords_tab s = Ok ?s"
    using before_keyword(1)[OF assms(1), of "str ''RETURN''" "[]" 10 6] by (simp add: keywords_tab_def)
  then have 1: "step env L_interperateAtTxtpos s = Ok (L_gosub_return, ?s)" by (simp add: interp_simps)
  have sim: "sim ps a ?s" using b by simp
  have st: "stack ?s (sp ?s) ([] @ Gosub (line_end ?ls j) (Some (line_at ?ls j)) # map (conc ?ls) fs)"
    using sim by (simp add: sim_def assms(2))
  have j: "j < length ps" "list_all (aframe_ok ps) fs" using sim by (simp_all add: sim_def assms(2))
  let ?s' = "?s\<lparr>tempsp := sp ?s, current_line := Some (line_at ?ls j), txtpos := line_end ?ls j, sp := sp ?s + sizeof_gosub_frame\<rparr>"
  have 2: "step env L_gosub_return ?s = Ok (L_run_next_statement, ?s')"
    using return_finds[OF st] sim by (simp add: sim_def)
  have "sim ps (a\<lparr>frames := fs\<rparr>) ?s'"
  proof (rule sim_upd[OF conjunct1[OF b]])
    show "ld_var v ?s' = Ok (vars (a\<lparr>frames := fs\<rparr>) v)" if "is_letter v" for v
    proof -
      have "ld_var v ?s' = ld_var v s" using that by (intro ld_var_cong) simp_all
      then show ?thesis using b that by (simp add: sim_def)
    qed
    have "stack ?s (sp ?s + sizeof_gosub_frame) (map (conc ?ls) fs)" using st by simp
    moreover have "stack ?s' p gs = stack ?s p gs" for p gs by (intro stack_cong) simp_all
    ultimately show "stack ?s' (sp ?s') (map (conc ?ls) (frames (a\<lparr>frames := fs\<rparr>)))" by simp
  qed (use b j in \<open>simp_all add: sim_def\<close>)
  then have "reaches env (L_run_next_statement, ?s') ps (a\<lparr>frames := fs\<rparr>\<lparr>pc := Suc j\<rparr>)"
    using j by (intro reaches_next) simp_all
  from reaches_step[OF 1 reaches_step[OF 2 this]] show ?thesis by simp
qed

subsection \<open>Loops\<close>

lemma sim_step_val:
  assumes "sim ps a s" and "step_wf b c" and "step_ev (vars a) c = Some d"
  shows "step_val (program s) (variables_begin s) c = Some d"
  using assms(2,3) sim_val[OF assms(1)] by (cases c) simp_all

lemma sim_push_for:
  assumes "sim ps a s" and "is_letter v" and "pc a < length ps" and "txtpos s = line_end (render ps) (pc a)"
    and "current_line s = Some (line_at (render ps) (pc a))" and "depth (frames a) + sizeof_for_frame \<le> STACK_SIZE"
  shows "\<exists>s'. push_for v i t d s = Ok (L_run_next_statement, s') \<and> txtpos s' = txtpos s \<and> current_line s' = current_line s \<and>
    sim ps (a\<lparr>vars := (vars a)(v := i), frames := AFor v (ucast t) (ucast d) (pc a) # frames a\<rparr>) s'"
proof -
  let ?a = "a\<lparr>vars := (vars a)(v := i), frames := AFor v (ucast t) (ucast d) (pc a) # frames a\<rparr>"
  note b = sim_bounds[OF assms(1)]
  have sp: "stack_limit s + 32 \<le> sp s" using sim_sp[OF assms(1)] b(2) assms(6) by (simp add: basic_consts)
  have st: "stack s (sp s) (map (conc (render ps)) (frames a))" using assms(1) by (simp add: sim_def)
  have room: "vars_below (sp s - sizeof_for_frame) s" "sizeof_for_frame \<le> sp s"
    using sp b(1,4) unfolding vars_below_def basic_consts by linarith+
  have ptr: "text_ptr (Some (txtpos s))" "text_ptr (current_line s)"
    using sim_text_ptr[OF assms(1), of "pc a"] assms(3-5) by simp_all
  obtain m where m: "push_for v i t d s = Ok (L_run_next_statement, s\<lparr>sp := sp s - sizeof_for_frame, program := m\<rparr>)"
      "stack (s\<lparr>sp := sp s - sizeof_for_frame, program := m\<rparr>) (sp s - sizeof_for_frame)
        (For v (ucast t) (ucast d) (txtpos s) (current_line s) # map (conc (render ps)) (frames a))"
      "\<forall>q < sp s - sizeof_for_frame. m q = store_bytes (program s) (var_addr v s) (le_bytes 8 i) q"
    using push_for_writes[OF st assms(2) room b(3) ptr, of i t d] by blast
  let ?s = "s\<lparr>sp := sp s - sizeof_for_frame, program := m\<rparr>"
  have low: "q < sp s - sizeof_for_frame" if "q < variables_begin s + 208" for q
    using that sp b(1) by (simp add: sizeof_for_frame_def)
  have "sim ps ?a ?s"
  proof (rule sim_upd[OF assms(1)])
    show "program ?s q = program s q" if "q < variables_begin s" for q
      using that low m(3) var_addr_letter(2)[OF assms(2), of s] by (simp add: store_bytes_apply)
    show "ld_var u ?s = Ok (vars ?a u)" if "is_letter u" for u
      using ld_var_store[OF assms(2) that, of ?s s i] b(5) m(3) low assms(1) that by (simp add: sim_def)
    show "stack ?s (sp ?s) (map (conc (render ps)) (frames ?a))"
      using m(2) assms(4,5) by (simp del: stack.simps)
    show "stack_limit s \<le> sp ?s" using sp by (simp add: sizeof_for_frame_def)
  qed (use assms in \<open>simp_all add: sim_def\<close>)
  then show ?thesis using m(1) by simp
qed

lemma reaches_for:
  assumes "before ps a s (SFor v b e c)" and "stmt_wf (SFor v b e c)"
    and "exp_ev (vars a) b = Some i" and "exp_ev (vars a) e = Some t" and "step_ev (vars a) c = Some d"
    and "depth (frames a) + sizeof_for_frame \<le> STACK_SIZE"
  shows "reaches env (L_interperateAtTxtpos, s) ps
    (next_line (a\<lparr>vars := (vars a)(v := i), frames := AFor v (ucast t) (ucast d) (pc a) # frames a\<rparr>))"
    (is "reaches env _ ps (next_line ?a)")
proof -
  let ?r = "v # 61 # exp_text b @ str ''TO'' @ exp_text e @ step_text c"
  have v: "is_letter v" and wf: "exp_wf b" "\<not> exp_open b" "exp_wf e" "step_wf e c" using assms(2) by simp_all
  have "\<not> blank v" using v by (auto simp: blank_def is_letter_unat)
  then have "stmt_text (SFor v b e c) = str ''FOR'' @ ?r" "?r = [] \<or> \<not> blank (hd ?r)"
      "first_match keywords_tab (str ''FOR'' @ ?r) = 12" "12 < length keywords_tab" "keywords_tab ! 12 = str ''FOR''"
      "length (str ''FOR'') = 3"
    by (simp_all add: keywords_tab_def)
  note kw = before_keyword[OF assms(1) this]
  let ?s = "s\<lparr>table_index := 12, txtpos := txtpos s + 3\<rparr>"
  have 1: "step env L_interperateAtTxtpos s = Ok (L_forloop, ?s)" using kw(1) by (simp add: interp_simps)
  have val: "exp_val (program ?s) (variables_begin ?s) b = Some i" "exp_val (program ?s) (variables_begin ?s) e = Some t"
      "step_val (program ?s) (variables_begin ?s) c = Some d"
    using sim_val[OF kw(4)] sim_step_val[OF kw(4) wf(4)] wf assms(3-5) by simp_all
  obtain k where k: "l_forloop ?s = push_for v i t d (?s\<lparr>expression_error := False,
      txtpos := txtpos ?s + 4 + length (exp_text b) + length (exp_text e) + length (step_text c), table_index := k\<rparr>)" (is "_ = push_for _ _ _ _ ?s2")
    using for_runs[OF wf v _ val] kw(2) sim_bounds(5)[OF kw(4)] by auto
  have pos: "txtpos ?s2 = line_end (render ps) (pc a)" using kw(3) by simp
  obtain s' where s': "push_for v i t d ?s2 = Ok (L_run_next_statement, s')" "txtpos s' = txtpos ?s2"
      "current_line s' = current_line ?s2" "sim ps ?a s'"
    using sim_push_for[OF _ v kw(5) pos _ assms(6), of i t d] kw(4,6) by auto
  have 2: "step env L_forloop ?s = Ok (L_run_next_statement, s')" using k s'(1) by simp
  have "reaches env (L_run_next_statement, s') ps (?a\<lparr>pc := Suc (pc a)\<rparr>)"
    using s' pos kw(5,6) by (intro reaches_next) simp_all
  from reaches_step[OF 1 reaches_step[OF 2 this]] show ?thesis by (simp add: next_line_def)
qed

lemma dropWhile_loop:
  assumes "dropWhile (\<lambda>f. \<not> loop_of v f) fs = AFor u t c j # gs"
  obtains hs where "fs = hs @ AFor v t c j # gs" and "\<And>f. f \<in> set hs \<Longrightarrow> \<not> loop_of v f" and "u = v"
proof -
  have "loop_of v (AFor u t c j)" using assms by (metis hd_dropWhile list.discI list.sel(1))
  moreover have "fs = takeWhile (\<lambda>f. \<not> loop_of v f) fs @ AFor u t c j # gs"
    using assms by (metis takeWhile_dropWhile_id)
  ultimately show ?thesis using that by (auto dest: set_takeWhileD)
qed

lemma no_loop_conc: "\<not> loop_of v f \<Longrightarrow> conc ls f \<noteq> For v t c tp cl"
  by (cases f) auto

lemma reaches_for_next:
  assumes "before ps a s (SNext v)" and "is_letter v" and "anext v a = Some a'"
  shows "reaches env (L_interperateAtTxtpos, s) ps a'"
proof -
  let ?ls = "render ps"
  obtain u t c j gs where dw: "dropWhile (\<lambda>f. \<not> loop_of v f) (frames a) = AFor u t c j # gs"
    using assms(3) by (auto simp: anext_def split: list.splits aframe.splits)
  then obtain hs where hs: "frames a = hs @ AFor v t c j # gs" "\<And>f. f \<in> set hs \<Longrightarrow> \<not> loop_of v f" and u: "u = v"
    by (rule dropWhile_loop) blast
  define y where "y = vars a v + scast c"
  have a': "a' = (if loops t c y then a\<lparr>vars := (vars a)(v := y), pc := Suc j\<rparr>
      else next_line (a\<lparr>vars := (vars a)(v := y), frames := gs\<rparr>))"
    using assms(3) by (simp add: anext_def dw y_def Let_def split: if_splits)
  have "\<not> blank v" using assms(2) by (auto simp: blank_def is_letter_unat)
  then have "stmt_text (SNext v) = str ''NEXT'' @ [v]" "[v] = [] \<or> \<not> blank (hd [v])"
      "first_match keywords_tab (str ''NEXT'' @ [v]) = 5" "5 < length keywords_tab" "keywords_tab ! 5 = str ''NEXT''"
      "length (str ''NEXT'') = 4"
    by (simp_all add: keywords_tab_def)
  note kw = before_keyword[OF assms(1) this]
  let ?s = "s\<lparr>table_index := 5, txtpos := txtpos s + 4\<rparr>"
  have 1: "step env L_interperateAtTxtpos s = Ok (L_next, ?s)" using kw(1) by (simp add: interp_simps)
  have sim: "sim ps a ?s" using kw(4) by simp
  have st: "stack ?s (sp ?s) (map (conc ?ls) hs @ For v t c (line_end ?ls j) (Some (line_at ?ls j)) # map (conc ?ls) gs)"
    and j: "j < length ps" and ld: "ld_var v ?s = Ok (vars a v)" and base: "base_ok ?s"
    using sim assms(2) by (simp_all add: sim_def hs(1) del: stack.simps)
  have none: "For v t' c' tp' cl' \<notin> set (map (conc ?ls) hs)" for t' c' tp' cl'
    using hs(2) no_loop_conc[of v] by (metis (no_types, lifting) imageE set_map)
  have at: "at ?s (txtpos ?s) [v, NL]" using kw(2) by simp
  from next_runs[OF at assms(2) _ st none base sim_bounds(7)[OF sim] ld, of env, folded y_def]
  obtain s' where s': "run env 2 (L_next, ?s) = Ok (L_run_next_statement, s')" "ld_var v s' = Ok y"
      "\<forall>u. is_letter u \<and> u \<noteq> v \<longrightarrow> ld_var u s' = ld_var u ?s"
      "program s' = store_bytes (program ?s) (var_addr v ?s) (le_bytes 8 y)" "variables_begin s' = variables_begin ?s"
      "program_base s' = program_base ?s" "program_end s' = program_end ?s" "program_start s' = program_start ?s"
      "stack_limit s' = stack_limit ?s" "con_out s' = con_out ?s"
      "if loops t c y then txtpos s' = line_end ?ls j \<and> current_line s' = Some (line_at ?ls j) \<and> sp s' = sp ?s \<and>
         stack s' (sp s') (map (conc ?ls) hs @ For v t c (line_end ?ls j) (Some (line_at ?ls j)) # map (conc ?ls) gs)
       else txtpos s' = Suc (txtpos ?s) \<and> current_line s' = current_line ?s \<and> stack s' (sp s') (map (conc ?ls) gs)"
    by (auto simp del: run.simps stack.simps)
  have base_sim: "sim ps b s'" if "vars b = (vars a)(v := y)" "shown_text b = shown_text a" "list_all (aframe_ok ps) (frames b)"
      "stack s' (sp s') (map (conc ?ls) (frames b))" "sp s \<le> sp s'" for b
  proof (rule sim_upd[OF kw(4)])
    show "program s' q = program s q" if "q < variables_begin s" for q
      using that s'(4) var_addr_letter(2)[OF assms(2), of ?s] by (simp add: store_bytes_apply)
    show "ld_var x s' = Ok (vars b x)" if "is_letter x" for x
      using s'(2,3) sim that \<open>vars b = _\<close> by (cases "x = v") (simp_all add: sim_def)
    show "stack_limit s \<le> sp s'" using that(5) sim_bounds(3)[OF kw(4)] by simp
  qed (use that s' kw(4) in \<open>simp_all add: sim_def\<close>)
  have "reaches env (L_run_next_statement, s') ps a'"
  proof (cases "loops t c y")
    case True
    have "sim ps (a\<lparr>vars := (vars a)(v := y)\<rparr>) s'"
      using s'(11) True sim by (intro base_sim) (auto simp: hs(1) sim_def simp del: stack.simps)
    then have "reaches env (L_run_next_statement, s') ps (a\<lparr>vars := (vars a)(v := y)\<rparr>\<lparr>pc := Suc j\<rparr>)"
      using s'(11) True j by (intro reaches_next) (auto simp del: stack.simps)
    then show ?thesis using True by (simp add: a')
  next
    case False
    have stk: "stack s' (sp s') (map (conc ?ls) gs)" using s'(11) False by simp
    have "sp s + depth (frames a) = sp s' + depth gs" using stack_depth[OF stk] sim_sp[OF kw(4)] by simp
    then have "sp s \<le> sp s'" by (simp add: hs(1) depth_def)
    then have "sim ps (a\<lparr>vars := (vars a)(v := y), frames := gs\<rparr>) s'"
      using stk sim by (intro base_sim) (auto simp: hs(1) sim_def simp del: stack.simps)
    then have "reaches env (L_run_next_statement, s') ps (a\<lparr>vars := (vars a)(v := y), frames := gs\<rparr>\<lparr>pc := Suc (pc a)\<rparr>)"
      using s'(11) False kw(3,5,6) by (intro reaches_next) (auto simp del: stack.simps)
    then show ?thesis using False by (simp add: a' next_line_def)
  qed
  moreover have "exec env (L_next, ?s) (L_run_next_statement, s')" by (rule run_exec[OF s'(1)])
  ultimately have "reaches env (L_next, ?s) ps a'" unfolding reaches_def by (blast intro: exec_trans)
  with 1 show ?thesis by (rule reaches_step)
qed

subsection \<open>Conditions, ends and remarks\<close>

lemma stmt_text_start: "stmt_wf t \<Longrightarrow> \<exists>c r. stmt_text t = c # r \<and> is_letter c"
  by (cases t) (auto simp: is_letter_def)

lemma reaches_if:
  assumes "before ps a s (SIf e t)" and "stmt_wf (SIf e t)" and "exp_ev (vars a) e = Some x"
    and "\<And>s'. x \<noteq> 0 \<Longrightarrow> before ps a s' t \<Longrightarrow> reaches env (L_interperateAtTxtpos, s') ps a'"
    and "x = 0 \<Longrightarrow> a' = next_line a"
  shows "reaches env (L_interperateAtTxtpos, s) ps a'"
proof -
  have wf: "exp_wf e" "\<not> exp_open e" "stmt_wf t" using assms(2) by simp_all
  obtain c r where c: "stmt_text t = c # r" "is_letter c" using stmt_text_start[OF wf(3)] by blast
  have "\<not> blank (hd (exp_text e @ stmt_text t))" using exp_text_start[OF wf(1)] by auto
  then have "stmt_text (SIf e t) = str ''IF'' @ exp_text e @ stmt_text t"
      "exp_text e @ stmt_text t = [] \<or> \<not> blank (hd (exp_text e @ stmt_text t))"
      "first_match keywords_tab (str ''IF'' @ exp_text e @ stmt_text t) = 7" "7 < length keywords_tab"
      "keywords_tab ! 7 = str ''IF''" "length (str ''IF'') = 2"
    by (simp_all add: keywords_tab_def)
  note kw = before_keyword[OF assms(1) this]
  let ?s = "s\<lparr>table_index := 7, txtpos := txtpos s + 2\<rparr>"
  let ?p = "txtpos s + 2 + length (exp_text e)"
  have tx: "at s (txtpos s + 2) (exp_text e @ [c])" "at s ?p (stmt_text t @ [NL])" "at s ?p [c]"
    using kw(2) c(1) by (simp_all add: at_append)
  have "follow_e (exp_open e) c" using wf(2) c(2) by (simp add: follow_letter)
  then obtain i where e: "eval_expr ?s = Ok (x, ?s\<lparr>expression_error := False, txtpos := txtpos ?s + length (exp_text e), table_index := i\<rparr>)"
      (is "_ = Ok (_, ?s')")
    using eval_expr_text[OF wf(1), of ?s c x] tx(1) sim_bounds(5)[OF kw(4)] sim_val[OF kw(4) wf(1) assms(3)] by auto
  have "c \<noteq> NL" using c(2) by (auto simp: is_letter_def)
  then have k: "kw_if ?s = (if x \<noteq> 0 then Ok (L_interperateAtTxtpos, ?s') else Ok (L_execnextline, ?s'))"
    using e tx(3) by (simp add: kw_if_def bad_end_def rd_def)
  have 1: "step env L_interperateAtTxtpos s = kw_if ?s" using kw(1) by (simp add: interp_simps)
  show ?thesis
  proof (cases "x = 0")
    case True
    have "reaches env (L_execnextline, ?s') ps (next_line a)" using kw(4-6) by (intro reaches_skip) simp_all
    then show ?thesis using True assms(5) 1 k by (intro reaches_step[of env _ s "(L_execnextline, ?s')"]) simp_all
  next
    case False
    have "before ps a ?s' t" using kw(3-6) tx(2) by (simp add: before_def)
    from assms(4)[OF False this] show ?thesis
      using False 1 k by (intro reaches_step[of env _ s "(L_interperateAtTxtpos, ?s')"]) simp_all
  qed
qed

lemma reaches_end:
  assumes "before ps a s SEnd"
  shows "reaches env (L_interperateAtTxtpos, s) ps (a\<lparr>pc := length ps\<rparr>)"
proof -
  have kw: "scantable keywords_tab s = Ok (s\<lparr>table_index := 23, txtpos := txtpos s + 3\<rparr>)" (is "_ = Ok ?s")
      "at s (txtpos s + 3) ([] @ [NL])" "sim ps a s"
    using before_keyword[OF assms, of "str ''END''" "[]" 23 3] by (simp_all add: keywords_tab_def)
  then have "step env L_interperateAtTxtpos s = Ok (L_execline, ?s\<lparr>current_line := Some (program_end ?s)\<rparr>)" (is "_ = Ok (_, ?s')")
    by (simp add: interp_simps rd_def)
  moreover have "program_end s = line_at (render ps) (length ps)"
    using kw(3) line_at_length[of "render ps"] by (simp add: sim_def stored_def)
  then have "reaches env (L_execline, ?s') ps (a\<lparr>pc := length ps\<rparr>)" using kw(3) by (intro reaches_now) simp_all
  ultimately show ?thesis by (rule reaches_step)
qed

lemma reaches_rem:
  assumes "before ps a s (SRem t)"
  shows "reaches env (L_interperateAtTxtpos, s) ps (next_line a)"
proof -
  note b = assms[unfolded before_def]
  have "at s (txtpos s) ((str ''REM'' @ t) @ [NL])" using b by simp
  moreover have "first_match keywords_tab (str ''REM'' @ t) = 11" "11 < length keywords_tab" by (simp_all add: keywords_tab_def)
  ultimately obtain p where "scantable keywords_tab s = Ok (s\<lparr>table_index := 11, txtpos := p\<rparr>)" (is "_ = Ok ?s")
    using scan_some_keyword by blast
  then have "step env L_interperateAtTxtpos s = Ok (L_execnextline, ?s)" by (simp add: interp_simps)
  moreover have "reaches env (L_execnextline, ?s) ps (next_line a)" using b by (intro reaches_skip) simp_all
  ultimately show ?thesis by (rule reaches_step)
qed

subsection \<open>Every step\<close>

lemma stmt_reaches:
  assumes "stmt_wf t" and "before ps a s t" and "aexec ps t a = Some a'"
  shows "reaches env (L_interperateAtTxtpos, s) ps a'"
  using assms
proof (induction t arbitrary: s)
  case (SLet v e)
  then show ?case by (auto simp: bind_eq_Some_conv intro: reaches_let)
next
  case (SPrint e)
  then show ?case by (auto simp: bind_eq_Some_conv split: if_splits intro!: reaches_print)
next
  case (SGoto e)
  then show ?case by (auto simp: bind_eq_Some_conv intro: reaches_goto)
next
  case (SGosub e)
  then show ?case by (auto simp: bind_eq_Some_conv split: if_splits intro!: reaches_gosub)
next
  case SReturn
  then show ?case by (auto split: list.splits aframe.splits intro: reaches_return)
next
  case (SFor v b e c)
  then obtain i t d where "exp_ev (vars a) b = Some i" "exp_ev (vars a) e = Some t" "step_ev (vars a) c = Some d"
      "depth (frames a) + sizeof_for_frame \<le> STACK_SIZE"
      "a' = next_line (a\<lparr>vars := (vars a)(v := i), frames := AFor v (ucast t) (ucast d) (pc a) # frames a\<rparr>)"
    by (auto simp: bind_eq_Some_conv split: if_splits)
  then show ?case using reaches_for[OF SFor.prems(2,1)] by simp
next
  case (SNext v)
  then show ?case by (auto intro: reaches_for_next)
next
  case (SIf e t)
  then obtain x where x: "exp_ev (vars a) e = Some x" by (auto simp: bind_eq_Some_conv)
  show ?case
    by (rule reaches_if[OF SIf.prems(2,1) x]) (use SIf x in auto)
next
  case SEnd
  then show ?case by (auto intro: reaches_end)
next
  case (SRem t)
  then show ?case by (auto intro: reaches_rem)
qed

lemma astep_reaches:
  assumes "prog_wf ps" and "sim ps a s" and "current_line s = Some (line_at (render ps) (pc a))" and "astep ps a = Some a'"
  shows "reaches env (L_execline, s) ps a'"
proof -
  let ?j = "pc a" and ?ls = "render ps"
  have j: "?j < length ps" and x: "aexec ps (snd (ps ! ?j)) a = Some a'"
    using assms(4) by (auto simp: astep_def split: if_splits)
  have st: "stored s ?ls" using assms(2) by (simp add: sim_def)
  let ?s = "s\<lparr>txtpos := line_at ?ls ?j + 5\<rparr>"
  have "step env L_execline s = Ok (L_interperateAtTxtpos, ?s)" using line_starts[OF st, of ?j] j assms(3) by simp
  moreover have "before ps a ?s (snd (ps ! ?j))"
    using line_body[OF st, of ?j] j assms(2,3) by (simp add: before_def nth_render line_end_def)
  moreover have "stmt_wf (snd (ps ! ?j))" using assms(1) j by (auto simp: prog_wf_def list_all_length case_prod_unfold)
  ultimately show ?thesis using stmt_reaches[OF _ _ x] by (blast intro: reaches_step)
qed

lemma arun_reaches:
  assumes "prog_wf ps" and "sim ps a s" and "current_line s = Some (line_at (render ps) (pc a))" and "arun ps n a = Some a'"
  shows "reaches env (L_execline, s) ps a'"
  using assms(2-4)
proof (induction n arbitrary: a s)
  case 0
  then show ?case by (auto intro: reaches_now)
next
  case (Suc n)
  then obtain b where b: "astep ps a = Some b" "arun ps n b = Some a'" by (auto simp: bind_eq_Some_conv)
  from astep_reaches[OF assms(1) Suc.prems(1,2) b(1), of env] obtain s1 where
      "exec env (L_execline, s) (L_execline, s1)" "sim ps b s1" "current_line s1 = Some (line_at (render ps) (pc b))"
    by (auto simp: reaches_def)
  then show ?case using Suc.IH[OF _ _ b(2), of s1] unfolding reaches_def by (blast intro: exec_trans)
qed

end
