(* ===== verification/Basic_Session.thy ===== *)
theory Basic_Session
  imports Basic_Refine
begin

text \<open>
  From the start of the application to the end of a BASIC program: the program is typed at the
  prompt, started with RUN, and shows on the console what the machine of \<open>Basic_Machine\<close> shows.
\<close>

subsection \<open>What is on the console already\<close>

lemma dropWhile_Cons_ex: "dropWhile P xs = y # ys \<Longrightarrow> \<exists>z \<in> set xs. \<not> P z"
  by (metis dropWhile_eq_Nil_conv list.discI)

lemma aexec_shown:
  "aexec ps t (a\<lparr>shown_text := w @ shown_text a\<rparr>) = map_option (\<lambda>b. b\<lparr>shown_text := w @ shown_text b\<rparr>) (aexec ps t a)"
  by (induction t)
    (auto simp: next_line_def anext_def Let_def bind_eq_None_conv map_option_case split: list.splits aframe.splits option.splits bind_splits
      dest: dropWhile_Cons_ex)

lemma arun_shown:
  "arun ps n (a\<lparr>shown_text := w @ shown_text a\<rparr>) = map_option (\<lambda>b. b\<lparr>shown_text := w @ shown_text b\<rparr>) (arun ps n a)"
proof (induction n arbitrary: a)
  case (Suc n)
  have "astep ps (a\<lparr>shown_text := w @ shown_text a\<rparr>) = map_option (\<lambda>b. b\<lparr>shown_text := w @ shown_text b\<rparr>) (astep ps a)"
    by (simp add: astep_def aexec_shown)
  then show ?case using Suc.IH by (cases "astep ps a") simp_all
qed simp

subsection \<open>Start\<close>

lemma printmsgNoNL_shown: "\<exists>w. printmsgNoNL msg s = s\<lparr>con_out := con_out s @ w\<rparr>"
proof (induction msg arbitrary: s)
  case Nil
  then show ?case by (intro exI[of _ "[]"]) simp
next
  case (Cons c cs)
  obtain w where "printmsgNoNL cs (ub_outchar c s) = (ub_outchar c s)\<lparr>con_out := con_out (ub_outchar c s) @ w\<rparr>"
    using Cons.IH by blast
  then show ?case by (intro exI[of _ "shown c @ w"]) (simp add: ub_outchar_shown)
qed

lemma printmsg_shown: "\<exists>w. printmsg msg s = s\<lparr>con_out := con_out s @ w\<rparr>"
  using printmsgNoNL_shown[of msg s] by (auto simp: printmsg_def line_terminator_def ub_outchar_shown)

definition fresh :: "u64 \<Rightarrow> u16 list \<Rightarrow> basic \<Rightarrow> bool" where
  "fresh base ks s \<longleftrightarrow> stored s [] \<and> \<not> triggerRun s \<and> keys s = ks \<and> program_base s = base \<and> sp s = kRamSize \<and>
     stack_limit s + STACK_SIZE = kRamSize \<and> variables_begin s + 27 * VAR_SIZE = stack_limit s \<and>
     (\<forall>q. variables_begin s \<le> q \<and> q < variables_begin s + 208 \<longrightarrow> program s q = 0)"

lemma basic_init_fresh:
  "\<exists>s s'. basic_init (boot base ks) = Ok s \<and> l_warmstart s = Ok (L_prompt, s') \<and> fresh base ks s'"
proof -
  let ?s = "(boot base ks)\<lparr>program_start := 0, program_end := 0, sp := 65536, stack_limit := 63488, variables_begin := 63272\<rparr>"
  have k: "kRamSize = 65536" "STACK_SIZE = 2048" "VAR_SIZE = 8" by (simp_all add: basic_consts)
  have i: "sint (63272 :: u64) = 63272" by simp
  have len: "length (dec_digits 63272) \<le> 5" by (intro length_dec_digits) simp_all
  obtain w where p: "printnum 63272 ?s = Ok (?s\<lparr>program := store_bytes (\<lambda>_. 0) (65536 - length (dec_digits 63272)) (dec_digits 63272),
      con_out := w\<rparr>)" (is "_ = Ok ?t")
    using printnum_text[of 63272 ?s] by (simp add: k i Let_def boot_def)
  obtain w1 where "printmsg memorymsg ?t = ?t\<lparr>con_out := con_out ?t @ w1\<rparr>" using printmsg_shown by blast
  then have init: "basic_init (boot base ks) = Ok (?t\<lparr>con_out := con_out ?t @ w1\<rparr>)" (is "_ = Ok ?u")
    using p by (simp add: basic_init_def Let_def k boot_def)
  obtain w2 where "printmsg okmsg (?u\<lparr>current_line := None, sp := kRamSize\<rparr>) =
      ?u\<lparr>current_line := None, sp := kRamSize\<rparr>\<lparr>con_out := con_out ?u @ w2\<rparr>" (is "_ = ?v")
    using printmsg_shown[of okmsg "?u\<lparr>current_line := None, sp := kRamSize\<rparr>"] by auto
  then have "l_warmstart ?u = Ok (L_prompt, ?v)" by (simp add: l_warmstart_def Let_def)
  moreover have "program ?v q = 0" if "variables_begin ?v \<le> q" "q < variables_begin ?v + 208" for q
    using that len by (auto simp: store_bytes_apply)
  then have "fresh base ks ?v" by (simp add: fresh_def stored_def k sorted_lines_def boot_def)
  ultimately show ?thesis using init by blast
qed

subsection \<open>RUN\<close>

definition start :: "vals \<Rightarrow> amach" where
  "start V = \<lparr>vars = V, frames = [], shown_text = [], pc = 0\<rparr>"

lemma run_command:
  assumes "stored s (render ps)" and "\<not> triggerRun s" and "keys s = map ucast (str ''RUN'') @ 13 # ks"
    and "program_end s + 12 \<le> variables_begin s" and "base_ok s" and "sp s = kRamSize"
    and "stack_limit s + STACK_SIZE = kRamSize" and "variables_begin s + 27 * VAR_SIZE = stack_limit s"
    and "\<And>v. is_letter v \<Longrightarrow> ld_var v s = Ok (V v)"
  shows "\<exists>s' w. exec env (L_prompt, s) (L_execline, s') \<and> sim ps (start V\<lparr>shown_text := w\<rparr>) s' \<and>
    current_line s' = Some (line_at (render ps) 0)"
proof -
  define n where "n = variables_begin s - 6 - program_end s"
  have n: "program_end s + n + 6 = variables_begin s" "6 \<le> n" and vb: "variables_begin s \<le> kRamSize"
    using assms(4,7,8) by (simp_all add: n_def)
  have run: "list_all line_key (str ''RUN'')" "CTRLH \<notin> set (str ''RUN'')" "upcase 0 (str ''RUN'') = str ''RUN''"
      "entry_num (str ''RUN'') = 0"
    by (simp_all add: line_key_def entry_num_def entry_digits_def is_digit_ch_def blank_def)
  obtain m out tp where p: "l_prompt s = Ok (L_direct, s\<lparr>program := m, con_out := out, txtpos := tp, keys := ks, linenum := 0\<rparr>)"
      "at (s\<lparr>program := m\<rparr>) (program_end s + 4) (str ''RUN'' @ [NL])"
      "\<forall>q. q < program_end s + 4 \<or> variables_begin s \<le> q \<longrightarrow> m q = program s q"
    using prompt_direct[OF assms(2) n(1) vb assms(3) run(1,2)] n(2) run(3,4) by (auto simp del: at.simps)
  let ?p = "program_end s + 4"
  define s1 where "s1 = s\<lparr>program := m, con_out := out, txtpos := ?p, keys := ks, linenum := 0\<rparr>"
  have at1: "at s1 ?p (str ''RUN'' @ [NL])" using p(2) at_program_cong[of s1 "s\<lparr>program := m\<rparr>"] by (simp add: s1_def)
  have 1: "step env L_prompt s = Ok (L_direct, s1\<lparr>txtpos := tp\<rparr>)" using p(1) by (simp add: s1_def)
  have 2: "step env L_direct (s1\<lparr>txtpos := tp\<rparr>) = Ok (L_interperateAtTxtpos, s1)"
    using at1 by (simp add: l_direct_def Let_def rd_def sizeof_LINENUM_def) (simp add: s1_def)
  have "at s1 (txtpos s1) (str ''RUN'' @ [] @ [NL])" using at1 by (simp add: s1_def)
  then have "scantable keywords_tab s1 = Ok (s1\<lparr>table_index := 3, txtpos := txtpos s1 + length (str ''RUN'')\<rparr>)" (is "_ = Ok ?s2")
    by (rule scan_keyword) (simp_all add: keywords_tab_def)
  then have 3: "step env L_interperateAtTxtpos s1 = Ok (L_execline, ?s2\<lparr>current_line := Some (program_start s)\<rparr>)" (is "_ = Ok (_, ?s3)")
    by (simp add: interp_simps) (simp add: s1_def)
  have low: "m q = program s q" if "q < program_end s \<or> variables_begin s \<le> q" for q using that p(3) by auto
  have "stored s1 (render ps)" using assms(1) low by (auto simp: stored_def at_iff s1_def)
  moreover have "ld_var v s1 = Ok (V v)" if "is_letter v" for v
    using assms(9)[OF that] ld_var_cong[OF that, of s1 s] low by (simp add: s1_def)
  ultimately have "sim ps (start V\<lparr>shown_text := out\<rparr>) s1"
    using assms(4-8) by (simp add: sim_def start_def s1_def base_ok_def)
  then have "sim ps (start V\<lparr>shown_text := out\<rparr>) ?s3" by simp
  moreover have "current_line ?s3 = Some (line_at (render ps) 0)" using assms(1) by (simp add: stored_def)
  ultimately show ?thesis using 1 2 3 by (blast intro: exec_first exec_refl)
qed

text \<open>A program that ends, started from a state of the prompt.\<close>

lemma run_to_end:
  assumes "prog_wf ps" and "sim ps (start V\<lparr>shown_text := w\<rparr>) s" and "current_line s = Some (line_at (render ps) 0)"
    and "arun ps n (start V) = Some b" and "pc b = length ps"
  shows "\<exists>s'. exec env (L_execline, s) (L_warmstart, s') \<and> con_out s' = w @ shown_text b"
proof -
  have "arun ps n (start V\<lparr>shown_text := w\<rparr>) = Some (b\<lparr>shown_text := w @ shown_text b\<rparr>)"
    using arun_shown[of ps n w "start V"] assms(4) by (simp add: start_def)
  from arun_reaches[OF assms(1,2) _ this, of env] assms(3,5) obtain s' where
      s': "exec env (L_execline, s) (L_execline, s')" "sim ps (b\<lparr>shown_text := w @ shown_text b\<rparr>) s'"
        "current_line s' = Some (line_at (render ps) (length ps))"
    by (auto simp: reaches_def start_def)
  have "current_line s' = Some (program_end s')"
    using s'(2,3) line_at_length[of "render ps"] by (simp add: sim_def stored_def)
  then have "step env L_execline s' = Ok (L_warmstart, s')" by (simp add: l_execline_def)
  from exec_step[OF s'(1) this] show ?thesis using s'(2) by (auto simp: sim_def)
qed

lemma enter_and_run:
  assumes "fresh base (key_codes (ls @ [str ''RUN'']) @ ks) s" and "base \<noteq> 0 \<and> unat base + kRamSize < 2 ^ 64"
    and "prog_wf ps" and "list_all good_entry ls" and "fold (\<lambda>(n, t). edit_line n t) (map entry ls) [] = render ps"
    and "(\<Sum>l\<leftarrow>ls. length l + 6) \<le> variables_begin s" and "length (prog_bytes (render ps)) + 12 \<le> variables_begin s"
    and "arun ps n (start (\<lambda>_. 0)) = Some b" and "pc b = length ps"
  shows "\<exists>s' w. exec env (L_prompt, s) (L_warmstart, s') \<and> con_out s' = w @ shown_text b"
proof -
  note f = assms(1)[unfolded fresh_def]
  have keys: "keys s = key_codes ls @ map ucast (str ''RUN'') @ 13 # ks" using f by (simp add: key_codes_def)
  have vb: "variables_begin s \<le> kRamSize" using f by simp
  from session_enters[of s "[]" ls "map ucast (str ''RUN'') @ 13 # ks" env] f keys vb assms(4,5,6)
  obtain s1 where s1: "run env (length ls) (L_prompt, s) = Ok (L_prompt, s1)" "stored s1 (render ps)"
      "keys s1 = map ucast (str ''RUN'') @ 13 # ks" "at_prompt s s1" "\<forall>q \<ge> variables_begin s. program s1 q = program s q"
    by auto
  note a = s1(4)[unfolded at_prompt_def]
  have "program_end s1 + 12 \<le> variables_begin s1" using s1(2) a assms(7) by (simp add: stored_def)
  moreover have "ld_var v s1 = Ok 0" if v: "is_letter v" for v
  proof -
    have z: "le_bytes 8 0 = replicate 8 0" by (simp add: numeral_eq_Suc)
    have "load_bytes (program s1) (var_addr v s1) 8 = le_bytes 8 0"
      unfolding z var_addr_letter(1)[OF v] using f s1(5) a v by (intro nth_equalityI) (auto simp: VAR_SIZE_def is_letter_unat)
    moreover have "var_addr v s1 + 8 \<le> kRamSize"
      using f a v by (auto simp: var_addr_def basic_consts is_letter_unat)
    ultimately show ?thesis by (simp add: ld_var_def ld_def VAR_SIZE_def)
  qed
  ultimately obtain s2 w where s2: "exec env (L_prompt, s1) (L_execline, s2)" "sim ps (start (\<lambda>_. 0)\<lparr>shown_text := w\<rparr>) s2"
      "current_line s2 = Some (line_at (render ps) 0)"
    using run_command[OF s1(2) _ s1(3), of "\<lambda>_. 0" env] a f assms(2) by (auto simp: base_ok_def)
  obtain s3 where "exec env (L_execline, s2) (L_warmstart, s3)" "con_out s3 = w @ shown_text b"
    using run_to_end[OF assms(3) s2(2,3) assms(8,9), of env] by blast
  then show ?thesis using run_exec[OF s1(1)] s2(1) by (blast intro: exec_trans)
qed

subsection \<open>The meaning of programs\<close>

text \<open>
  C2.  The interpreter implements the machine: from any state of memory that holds the text of a
  well-formed program and agrees with a state of the machine, at the start of the same line, every
  run of the machine is matched by a run of \<open>basic_main\<close> that ends at the start of the same line in
  a state that agrees again (values of the variables, open loops and subroutines, console, program).
\<close>

theorem program_refines:
  assumes "prog_wf ps" and "sim ps a s" and "current_line s = Some (line_at (render ps) (pc a))" and "arun ps n a = Some b"
  shows "\<exists>k s'. run env k (L_execline, s) = Ok (L_execline, s') \<and> sim ps b s' \<and>
    current_line s' = Some (line_at (render ps) (pc b))"
  using arun_reaches[OF assms, of env] exec_run unfolding reaches_def by blast

text \<open>
  C3.  Programs mean what the machine says they mean, from the start of the application on: when
  the lines typed at the prompt leave the text of a well-formed program that ends, RUN comes back
  to the prompt, and the last thing on the console is what the program shows when it starts with
  all variables 0.
\<close>

theorem typed_program_means:
  assumes "base \<noteq> 0 \<and> unat base + kRamSize < 2 ^ 64" and "prog_wf ps" and "list_all good_entry ls"
    and "fold (\<lambda>(n, t). edit_line n t) (map entry ls) [] = render ps"
    and "(\<Sum>l\<leftarrow>ls. length l + 6) + 12 \<le> kRamSize - STACK_SIZE - 27 * VAR_SIZE"
    and "length (prog_bytes (render ps)) + 12 \<le> kRamSize - STACK_SIZE - 27 * VAR_SIZE"
    and "arun ps n (start (\<lambda>_. 0)) = Some b" and "pc b = length ps"
  shows "\<exists>k s' w. basic_main env k (boot base (key_codes (ls @ [str ''RUN'']) @ ks)) = Ok (L_warmstart, s') \<and>
    con_out s' = w @ shown_text b"
proof -
  let ?ks = "key_codes (ls @ [str ''RUN'']) @ ks"
  obtain s s1 where s: "basic_init (boot base ?ks) = Ok s" "l_warmstart s = Ok (L_prompt, s1)" "fresh base ?ks s1"
    using basic_init_fresh by blast
  have vb: "variables_begin s1 = kRamSize - STACK_SIZE - 27 * VAR_SIZE" using s(3) by (auto simp: fresh_def basic_consts)
  obtain s' w where s': "exec env (L_prompt, s1) (L_warmstart, s')" "con_out s' = w @ shown_text b"
    using enter_and_run[OF s(3) assms(1-4) _ _ assms(7,8), of env] assms(5,6) vb by auto
  have "exec env (L_warmstart, s) (L_warmstart, s')" using s(2) s'(1) by (auto intro: exec_first)
  then obtain k where "run env k (L_warmstart, s) = Ok (L_warmstart, s')" using exec_run by blast
  then show ?thesis using s(1) s'(2) unfolding basic_main_def by (intro exI[of _ k] exI[of _ s'] exI[of _ w]) simp
qed

abbreviation "num n \<equiv> Ex (Sm (Trm (Num n) MNil) SNil)"
abbreviation "svar c \<equiv> Ex (Sm (Trm (Var (ch c)) MNil) SNil)"

definition sum_prog :: bprog where
  "sum_prog = [(20, SFor (ch (CHR ''I'')) (num 1) (num 3) None),
     (30, SLet (ch (CHR ''S'')) (Ex (Sm (Trm (Var (ch (CHR ''S''))) MNil) (SAdd (Trm (Var (ch (CHR ''I''))) MNil) SNil)))),
     (40, SNext (ch (CHR ''I''))), (50, SPrint (svar (CHR ''S'')))]"

lemma arun_numeral: "arun ps (numeral k) a = Option.bind (astep ps a) (arun ps (pred_numeral k))"
  by (simp add: numeral_eq_Suc)

lemma sum_prog_runs:
  "\<exists>b. arun sum_prog 8 (start (\<lambda>_. 0)) = Some b \<and> pc b = 4 \<and> shown_text b = [54, 13, 10, 13]"
  by (simp add: arun_numeral sum_prog_def astep_def start_def next_line_def anext_def Let_def depth_def loops_def printed_def
      num_text_def basic_consts dec_digits.simps)

definition sum_lines :: "u8 list list" where
  "sum_lines = map str [''50 prints'', ''20 fori=1to3'', ''40 nexti'', ''30 s=s+i'']"

lemma sum_prog_facts:
  "prog_wf sum_prog"
  "render sum_prog = [(20, str ''FORI=1TO3''), (30, str ''S=S+I''), (40, str ''NEXTI''), (50, str ''PRINTS'')]"
  by (simp_all add: sum_prog_def prog_wf_def render_def is_letter_def dec_digits.simps)

lemma sum_lines_facts:
  "list_all good_entry sum_lines"
  "fold (\<lambda>(n, t). edit_line n t) (map entry sum_lines) [] = render sum_prog"
proof -
  have e: "map entry sum_lines = [(50, str ''PRINTS''), (20, str ''FORI=1TO3''), (40, str ''NEXTI''), (30, str ''S=S+I'')]"
    by (simp add: sum_lines_def entry_def entry_num_def entry_digits_def entry_text_def digit_val_def is_digit_ch_def blank_def)
  show "fold (\<lambda>(n, t). edit_line n t) (map entry sum_lines) [] = render sum_prog"
    unfolding e by (simp add: sum_prog_facts edit_line_def upd_line_def)
  show "list_all good_entry sum_lines"
    by (simp add: sum_lines_def good_entry_def line_key_def entry_num_def entry_digits_def entry_text_def digit_val_def
        is_digit_ch_def blank_def)
qed

theorem program_refines_witness:
  "\<exists>k s s' b. sim sum_prog (start (\<lambda>_. 0)) s \<and> run sample_env k (L_execline, s) = Ok (L_execline, s') \<and> sim sum_prog b s' \<and>
     shown_text b = [54, 13, 10, 13]"
proof -
  let ?s = "(sample_program (render sum_prog) [])\<lparr>current_line := Some 0\<rparr>"
  have "stored (sample_program (render sum_prog) []) (render sum_prog)"
    by (intro sample_program_stored) (simp_all add: sum_prog_facts wf_line_def sorted_lines_def)
  then have "stored ?s (render sum_prog)" by (simp add: stored_def at_iff)
  moreover have "ld_var v ?s = Ok 0" if v: "is_letter v" for v
  proof -
    have z: "le_bytes 8 0 = replicate 8 0" by (simp add: numeral_eq_Suc)
    have "load_bytes (program ?s) (var_addr v ?s) 8 = le_bytes 8 0"
      unfolding z var_addr_letter(1)[OF v] using v by (intro nth_equalityI)
        (auto simp: sample_program_def VAR_SIZE_def is_letter_unat sum_prog_facts store_bytes_apply)
    moreover have "var_addr v ?s + 8 \<le> kRamSize"
      using v by (auto simp: sample_program_def var_addr_def basic_consts is_letter_unat)
    ultimately show ?thesis by (simp add: ld_var_def ld_def VAR_SIZE_def)
  qed
  moreover have "con_out ?s = []" by simp
  ultimately have "sim sum_prog (start (\<lambda>_. 0)) ?s"
    by (simp add: sim_def start_def base_ok_def basic_consts) (simp add: sample_program_def sum_prog_facts)
  then show ?thesis
    using program_refines[OF sum_prog_facts(1), of "start (\<lambda>_. 0)" ?s 8 _ sample_env] sum_prog_runs
    by (fastforce simp: start_def)
qed

theorem typed_program_means_witness:
  "\<exists>k s' w. basic_main sample_env k (boot 0x100000 (key_codes (sum_lines @ [str ''RUN'']) @ [])) = Ok (L_warmstart, s') \<and>
     con_out s' = w @ [54, 13, 10, 13]"
proof -
  obtain b where b: "arun sum_prog 8 (start (\<lambda>_. 0)) = Some b" "pc b = length sum_prog" "shown_text b = [54, 13, 10, 13]"
    using sum_prog_runs by (auto simp: sum_prog_def)
  have "(0x100000 :: u64) \<noteq> 0 \<and> unat (0x100000 :: u64) + kRamSize < 2 ^ 64" by (simp add: kRamSize_def)
  moreover have "(\<Sum>l\<leftarrow>sum_lines. length l + 6) + 12 \<le> kRamSize - STACK_SIZE - 27 * VAR_SIZE"
      "length (prog_bytes (render sum_prog)) + 12 \<le> kRamSize - STACK_SIZE - 27 * VAR_SIZE"
    by (simp_all add: sum_lines_def sum_prog_facts basic_consts)
  ultimately show ?thesis
    using typed_program_means[of "0x100000" sum_prog sum_lines 8 b sample_env "[]"] sum_prog_facts(1) sum_lines_facts b(1,2)
    unfolding b(3) by blast
qed

end
