(* ===== verification/Basic_Errors.thy ===== *)
theory Basic_Errors
  imports Basic_Theorems Control_Steps
begin

text \<open>
  Inputs that the interpreter does not treat as it means to: blanks behind products and behind the
  variable of NEXT, bounds of loops that do not fit 32 bits, backspaces in front of the line, and
  lines that are too long to be stored.
\<close>

subsection \<open>A blank behind a product\<close>

lemma product_stops:
  assumes "trm_wf (Trm f r)" and "\<not> signed_fac f" and "r \<noteq> MNil" and "at s (txtpos s) (trm_text (Trm f r) @ [SPACE])"
    and "ready s" and "trm_val (program s) (variables_begin s) (Trm f r) = Some v"
  shows "yields (expression s) v s (length (trm_text (Trm f r)))"
proof -
  let ?t = "trm_text (Trm f r)"
  have "length ?t + 1 \<le> kRamSize" using at_bound[OF assms(4)] by simp
  then obtain m where m: "expr_fuel = Suc (Suc m)" "6 * length ?t + 3 \<le> m" by (intro that[of "expr_fuel - 2"]) (auto simp: expr_fuel_def)
  have sp: "follow_m b SPACE" for b by (simp add: follow_defs)
  have nb: "\<not> blank (hd (mops_text r @ [SPACE]))" using assms(3) by (cases r) (auto simp: blank_def)
  have start: "start_ch (hd ?t)" and ne: "?t \<noteq> []" using start_trm[OF assms(1,2)] by simp_all
  then have here: "rd (txtpos s) s = Ok (hd ?t)" using assms(4) by (cases ?t) (auto simp: rd_def simp del: trm_text.simps)
  define p where "p = txtpos s + length ?t"
  obtain i where i: "expr3 m s = Ok (v, s\<lparr>txtpos := p, table_index := i\<rparr>)"
    using trm_yields[OF grammar_ok(1,3) assms(1,4) sp nb assms(5,6) m(2)] by (auto simp: yields_def p_def)
  have blank: "p < kRamSize" "program s p = SPACE" using assms(4) by (simp_all add: at_append p_def add.assoc)
  have loop: "expr2_loop m v (s\<lparr>txtpos := p, table_index := i\<rparr>) = Ok (v, s\<lparr>txtpos := p, table_index := i\<rparr>)"
    using m(2) blank by (cases m) (simp_all add: rd_def)
  have "scantable relop_tab (s\<lparr>txtpos := p, table_index := i\<rparr>) = Ok (s\<lparr>txtpos := p, table_index := RELOP_UNKNOWN\<rparr>)"
    using blank by (simp add: scantable_def relop_tab_def rd_def RELOP_UNKNOWN_def)
  then have "expression s = Ok (v, s\<lparr>txtpos := p, table_index := RELOP_UNKNOWN\<rparr>)"
    using here start_ch_facts[OF start] i loop assms(5) by (simp add: expression_def m(1) ready_def)
  then show ?thesis by (auto simp: yields_def p_def)
qed

text \<open>
  C34.  Blanks are skipped behind a single factor but not behind a product: PRINT of a product that
  is followed by a blank shows the value of the product and then reports an error, whatever stands
  behind the blank, so \<open>PRINT 2*3 +1\<close> fails where \<open>PRINT 2 +1\<close> does not.
\<close>

theorem print_product_blank:
  assumes "trm_wf (Trm f r)" and "\<not> signed_fac f" and "r \<noteq> MNil" and "at s (txtpos s) (trm_text (Trm f r) @ [SPACE])"
    and "trm_val (program s) (variables_begin s) (Trm f r) = Some x" and "x \<noteq> 0x8000000000000000"
    and "variables_begin s + 208 \<le> kRamSize" and "txtpos s + length (trm_text (Trm f r)) + 19 < sp s" and "sp s \<le> kRamSize"
  shows "\<exists>s'. step env L_print_loop s = Ok (L_qwhat, s') \<and>
    con_out s' = con_out s @ map ucast (num_text (sint x)) @ con_out (PRINT_ERR ''1463'' (boot 0 [])) \<and>
    txtpos s' = txtpos s + length (trm_text (Trm f r))"
proof -
  let ?e = "Ex (Sm (Trm f r) SNil)" and ?t = "trm_text (Trm f r)"
  have wf: "exp_wf ?e" "exp_text ?e = ?t" using assms(1,2) by simp_all
  obtain c q where c: "?t = c # q" "\<not> blank c" "c \<noteq> DQUOTE" "c \<noteq> SQUOTE" using exp_text_start[OF wf(1)] unfolding wf(2) by blast
  define p where "p = txtpos s + length ?t"
  have t: "txtpos s < kRamSize" "program s (txtpos s) = c" using assms(4) c(1) by (simp_all del: trm_text.simps)
  have b: "ignore_blanks s = Ok s" using ignore_blanks_at[of s "[]" c] t c(2) by simp
  have qs: "print_quoted_string s = Ok (False, s)" using t c(3,4) by (simp add: print_quoted_string_def rd_def)
  obtain i where e: "eval_expr s = Ok (x, s\<lparr>expression_error := False, txtpos := p, table_index := i\<rparr>)" (is "_ = Ok (_, ?s)")
    using product_stops[OF assms(1-3), of "s\<lparr>expression_error := False\<rparr>" x] assms(4,5,7)
    by (auto simp: yields_def eval_expr_def ready_def p_def simp del: trm_text.simps)
  define ds where "ds = dec_digits (nat \<bar>sint x\<bar>)"
  have len: "length ds \<le> 19" using sint_bounds[of x] unfolding ds_def by (intro length_dec_digits) auto
  define m where "m = store_bytes (program s) (sp s - length ds) ds"
  have n: "printnum x ?s = Ok (?s\<lparr>program := m, con_out := con_out s @ map ucast (num_text (sint x))\<rparr>)" (is "_ = Ok ?s'")
    using printnum_text[OF assms(6), of ?s] assms(8,9) by (simp add: m_def ds_def Let_def)
  have "program s p = SPACE" "p + 19 < sp s" using assms(4,8) by (simp_all add: at_append p_def add.assoc)
  then have "p < kRamSize" "m p = SPACE" using assms(9) len by (auto simp: m_def store_bytes_apply)
  then have "print_sep ?s' = fail ''1463'' L_qwhat ?s'" by (simp add: print_sep_def rd_def is_end_def)
  then have "step env L_print_loop s = fail ''1463'' L_qwhat ?s'"
    using b qs e n t c(3,4) by (simp add: l_print_loop_def rd_def)
  then show ?thesis
    by (simp add: fail_def p_def boot_def PRINT_ERR_def printmsg_def line_terminator_def ub_outchar_shown)
qed

theorem print_product_blank_witness:
  "\<exists>s' w. step sample_env L_print_loop (sample (str ''2*3 +1'' @ [NL])) = Ok (L_qwhat, s') \<and> con_out s' = 54 # w"
proof -
  let ?s = "sample (str ''2*3 +1'' @ [NL])" and ?f = "Num 2" and ?r = "MMul (Num 3) MNil"
  have "at ?s (txtpos ?s) (trm_text (Trm ?f ?r) @ [SPACE])"
    using at_sample[of "str ''2*3 +1'' @ [NL]"] by (simp add: dec_digits.simps)
  moreover have "con_out ?s = []" by (simp add: sample_def boot_def)
  ultimately show ?thesis
    using print_product_blank[of ?f ?r ?s 6 sample_env] by (auto simp: dec_digits.simps kRamSize_def num_text_def)
qed

subsection \<open>A blank behind the variable of NEXT\<close>

text \<open>
  NEXT takes its variable from the byte in front of the cursor after it has skipped blanks: a
  blank behind the variable makes it look for a loop of a variable named blank, so it reports an
  error although a loop of the variable is open.
\<close>

theorem next_blank_fails:
  assumes "at s (txtpos s) [v, SPACE, NL]" and "is_letter v" and "table_index s = 5" and "stack s (sp s) fs"
    and "\<And>u t c tp cl. For u t c tp cl \<in> set fs \<Longrightarrow> is_letter u"
  shows "run env 2 (L_next, s) = fail ''1329'' L_qhow (s\<lparr>txtpos := txtpos s + 2, tempsp := kRamSize\<rparr>)"
proof -
  let ?s = "s\<lparr>txtpos := txtpos s + 2\<rparr>"
  have a: "txtpos s + 2 < kRamSize" "program s (txtpos s) = v" "program s (Suc (txtpos s)) = SPACE" "program s (txtpos s + 2) = NL"
    using assms(1) by (simp_all add: numeral_2_eq_2)
  have v: "\<not> blank v" using assms(2) by (auto simp: blank_def is_letter_unat)
  have "ignore_blanks s = Ok s" using ignore_blanks_at[of s "[]" v] a v by simp
  moreover have "ignore_blanks (s\<lparr>txtpos := Suc (txtpos s)\<rparr>) = Ok ?s"
    using ignore_blanks_at[of "s\<lparr>txtpos := Suc (txtpos s)\<rparr>" "[SPACE]" NL] a by (simp add: blank_def)
  ultimately have "l_next s = Ok (L_gosub_return, ?s)" using a assms(2) by (simp add: l_next_def rd_def adv_def)
  moreover have "stack ?s (sp ?s) fs" using assms(4) by (subst stack_cong[where s = s]) simp_all
  moreover have "\<not> wants ?s h" if "h \<in> set fs" for h
  proof (cases h)
    case (For u t c tp cl)
    then have "is_letter u" using that assms(5) by blast
    then show ?thesis using For a(3) by (auto simp: is_letter_def)
  next
    case (Gosub tp cl)
    then show ?thesis using assms(3) by simp
  qed
  then have "list_all (\<lambda>h. \<not> wants ?s h) fs" by (simp add: list_all_iff)
  moreover have "behind_ascii ?s" using a by (simp add: behind_ascii_def)
  ultimately show ?thesis using walk_past[of ?s fs] assms(3) by (simp add: numeral_2_eq_2 fail_def)
qed

theorem next_blank_fails_witness:
  "\<exists>s. stack s (sp s) [For (ch (CHR ''I'')) 3 1 100 None] \<and>
     run sample_env 2 (L_next, s) = fail ''1329'' L_qhow (s\<lparr>txtpos := 102, tempsp := kRamSize\<rparr>)"
proof -
  let ?i = "ch (CHR ''I'')" and ?s = "sample (str ''I '' @ [NL])"
  have i: "is_letter ?i" by (simp add: is_letter_def)
  have st: "stack ?s (sp ?s) []" "vars_below (sp ?s - sizeof_for_frame) ?s" by (simp_all add: vars_below_def basic_consts)
  obtain m where m: "stack (?s\<lparr>sp := 65504, program := m\<rparr>) 65504 [For ?i 3 1 100 None]" "\<forall>q < var_addr ?i ?s. m q = program ?s q"
    using push_for_pushes[OF st(1) i st(2), of 1 3 1] by (auto simp: text_ptr_def basic_consts simp del: stack.simps)
  let ?t = "?s\<lparr>sp := 65504, program := m, table_index := 5\<rparr>"
  have a: "at ?t (txtpos ?t) [?i, SPACE, NL]"
    using m(2) by (simp add: var_addr_def basic_consts store_bytes_apply)
  have stt: "stack ?t (sp ?t) [For ?i 3 1 100 None]"
    using m(1) by (subst stack_cong[where s = "?s\<lparr>sp := 65504, program := m\<rparr>"]) (simp_all del: stack.simps)
  show ?thesis
    using next_blank_fails[OF a i _ stt, of sample_env] stt i by (intro exI[of _ ?t]) (auto simp del: run.simps stack.simps)
qed

subsection \<open>Large bounds\<close>

text \<open>
  C35.  The bound of a loop is kept in 32 bits although expressions have 64: when the lower half of
  the bound, as a signed number, lies below the value after the first round, NEXT leaves the loop
  then, however large the bound itself is.
\<close>

theorem for_bound_cut:
  assumes "exp_wf a" and "\<not> exp_open a" and "exp_wf b" and "is_letter v"
    and "at s (txtpos s) (v # ch (CHR ''='') # exp_text a @ str ''TO'' @ exp_text b @ [NL])"
    and "exp_val (program s) (variables_begin s) a = Some i" and "exp_val (program s) (variables_begin s) b = Some t"
    and "stack s (sp s) fs" and "vars_below (sp s - sizeof_for_frame) s" and "sizeof_for_frame \<le> sp s" and "stack_limit s \<le> sp s"
    and "text_ptr (current_line s)" and "base_ok s" and "sint (ucast t :: u32) < sint (i + 1)"
    and "at s q [v, NL]" and "q + 2 \<le> variables_begin s"
  shows "\<exists>s1 s2. step env L_forloop s = Ok (L_run_next_statement, s1) \<and> ld_var v s1 = Ok i \<and>
    run env 2 (L_next, s1\<lparr>txtpos := q, table_index := 5\<rparr>) = Ok (L_run_next_statement, s2) \<and> txtpos s2 = Suc q \<and>
    stack s2 (sp s2) fs \<and> ld_var v s2 = Ok (i + 1)"
proof -
  define p where "p = txtpos s + 4 + length (exp_text a) + length (exp_text b)"
  have vb: "variables_begin s + 208 \<le> kRamSize" using assms(9) by (simp add: vars_below_def VAR_SIZE_def)
  obtain k where f: "l_forloop s = push_for v i t 1 (s\<lparr>expression_error := False, txtpos := p, table_index := k\<rparr>)" (is "_ = push_for v i t 1 ?s")
    using for_runs[OF assms(1-3) _ assms(4), of None s i t 1] assms(5-7) vb by (auto simp: p_def)
  have "at s p [NL]" using assms(5) by (simp add: at_append p_def numeral_eq_Suc)
  then have "text_ptr (Some p)" by (simp add: text_ptr_def)
  moreover have "stack ?s (sp ?s) fs" using assms(8) by (subst stack_cong[where s = s]) simp_all
  ultimately obtain m where m: "push_for v i t 1 ?s = Ok (L_run_next_statement, ?s\<lparr>sp := sp s - sizeof_for_frame, program := m\<rparr>)"
      "stack (?s\<lparr>sp := sp s - sizeof_for_frame, program := m\<rparr>) (sp s - sizeof_for_frame) (For v (ucast t) 1 p (current_line s) # fs)"
      "\<forall>q < sp s - sizeof_for_frame. m q = store_bytes (program s) (var_addr v s) (le_bytes 8 i) q"
    using push_for_writes[of ?s fs v i t 1] assms(4,9-12) by (auto simp: vars_below_def var_addr_def simp del: stack.simps)
  define s1 where "s1 = ?s\<lparr>sp := sp s - sizeof_for_frame, program := m\<rparr>"
  let ?t = "s1\<lparr>txtpos := q, table_index := 5\<rparr>"
  have ld: "ld_var v s1 = Ok i"
    using ld_var_store[OF assms(4,4), of s1 s i] m(3) assms(9) by (auto simp: s1_def vars_below_def VAR_SIZE_def)
  then have ldt: "ld_var v ?t = Ok i" by (subst ld_var_cong[where s = s1]) (simp_all add: assms(4))
  have "stack ?t (sp ?t) ([] @ For v (ucast t) 1 p (current_line s) # fs)"
    using m(2) by (subst stack_cong[where s = s1]) (simp_all add: s1_def del: stack.simps)
  moreover have "q + 2 \<le> var_addr v s" "q + 2 \<le> sp s - sizeof_for_frame"
    using assms(4,9,16) by (auto simp: var_addr_letter vars_below_def is_letter_unat VAR_SIZE_def)
  then have "at ?t (txtpos ?t) [v, NL]" using assms(15,16) m(3) by (simp add: s1_def store_bytes_apply)
  moreover have "base_ok ?t" "vars_below (sp ?t) ?t" using assms(9,13) by (simp_all add: base_ok_def vars_below_def s1_def)
  ultimately obtain s2 where "run env 2 (L_next, ?t) = Ok (L_run_next_statement, s2)" "txtpos s2 = Suc q" "stack s2 (sp s2) fs"
      "ld_var v s2 = Ok (i + 1)"
    using next_runs[of ?t v "[]" "ucast t" 1 p "current_line s" fs i env] assms(4,14) ldt
    by (auto simp: loops_def simp del: run.simps stack.simps)
  then show ?thesis using f m(1) ld by (intro exI[of _ s1] exI[of _ s2]) (simp add: s1_def)
qed

definition sample_long_for :: basic where
  "sample_long_for = (sample (str ''I=1TO4294967297'' @ [NL]))\<lparr>program := store_bytes (program (sample (str ''I=1TO4294967297'' @ [NL]))) 200 [73, NL]\<rparr>"

theorem for_bound_cut_witness:
  "\<exists>s1 s2. step sample_env L_forloop sample_long_for = Ok (L_run_next_statement, s1) \<and>
    run sample_env 2 (L_next, s1\<lparr>txtpos := 200, table_index := 5\<rparr>) = Ok (L_run_next_statement, s2) \<and>
    stack s2 (sp s2) [] \<and> ld_var 73 s2 = Ok 2"
  using for_bound_cut[of "Ex (Sm (Trm (Num 1) MNil) SNil)" "Ex (Sm (Trm (Num 4294967297) MNil) SNil)" 73 sample_long_for 1 4294967297 "[]" 200 sample_env]
  by (force simp: sample_long_for_def dec_digits.simps is_letter_def vars_below_def basic_consts text_ptr_def base_ok_def store_bytes_apply
     simp del: run.simps)

subsection \<open>A long line\<close>

lemma linelen_hangs:
  assumes "at s (txtpos s) (t @ [NL])" and "NL \<notin> set t" and "256 \<le> length t"
  shows "linelen_loop l s = Stop Diverge"
proof (induction "255 - unat l" arbitrary: l)
  case 0
  then have l: "l = 255" using unat_u8_less[of l] by (simp add: word_unat_eq_iff)
  have "at s (txtpos s + 255) [t ! 255]" using assms by (auto simp: at_iff nth_append)
  moreover have "t ! 255 \<in> set t" using assms(3) by (intro nth_mem) simp
  then have "t ! 255 \<noteq> NL" using assms(2) by metis
  ultimately show ?case by (subst linelen_loop.simps) (simp add: rd_def l)
next
  case (Suc n)
  then have l: "unat l < 255" by simp
  then have "l \<noteq> 255" by auto
  then have "unat (l + 1) = Suc (unat l)" by (rule unat_u8_Suc)
  note \<open>l \<noteq> 255\<close> this
  moreover have "at s (txtpos s + unat l) [t ! unat l]" using assms(1,3) l by (auto simp: at_iff nth_append)
  moreover have "t ! unat l \<in> set t" using assms(3) l by (intro nth_mem) simp
  then have "t ! unat l \<noteq> NL" using assms(2) by metis
  moreover have "linelen_loop (l + 1) s = Stop Diverge" using Suc calculation by (intro Suc(1)) simp
  ultimately show ?case by (subst linelen_loop.simps) (simp add: rd_def)
qed

text \<open>
  C36.  The length of an entered line is counted in an unsigned char: a numbered line with more than
  255 characters of text makes the count come round for ever, so the prompt never returns, although
  the line buffer has room for it.
\<close>

theorem long_line_hangs:
  assumes "\<not> triggerRun s" and "program_end s + n + 6 = variables_begin s" and "variables_begin s \<le> kRamSize"
    and "keys s = map ucast cs @ 13 # ks" and "list_all line_key cs" and "typed n [] cs = Some line"
    and "0 < entry_num (upcase 0 line)" and "entry_num (upcase 0 line) < 2 ^ 32 - 1"
    and "256 \<le> length (entry_text (upcase 0 line))"
  shows "step env L_prompt s = Stop Diverge"
proof -
  obtain s4 where "l_prompt s = bnd (store_line s4) (\<lambda>s. Ok (L_prompt, s))"
      "at s4 (txtpos s4) (entry_text (upcase 0 line) @ [NL])" "NL \<notin> set (entry_text (upcase 0 line))"
    using prompt_numbered[OF assms(1-4) _ assms(5,6) refl assms(7,8) refl] unfolding Let_def by auto
  then show ?thesis using linelen_hangs assms(9) by (simp add: store_line_def)
qed

theorem long_line_hangs_witness:
  "step sample_env L_prompt ((sample [NL])\<lparr>keys := map ucast (str ''10'' @ replicate 300 65) @ [13]\<rparr>) = Stop Diverge"
proof -
  let ?s = "(sample [NL])\<lparr>keys := map ucast (str ''10'' @ replicate 300 65) @ [13]\<rparr>"
  let ?cs = "str ''10'' @ replicate 300 65"
  have up: "upcase 0 (replicate n 65) = replicate n 65" for n by (induction n) simp_all
  have t: "takeWhile P (replicate n x) = (if P x then replicate n x else [])" "dropWhile P (replicate n x) = (if P x then [] else replicate n x)"
    for P n and x :: u8 by (induction n) simp_all
  have "typed n [] ?cs = Some ?cs" if "302 \<le> n" for n using typed_plain[of ?cs "[]" n] that by simp
  moreover have "line_key 49" "line_key 48" "line_key 65" by (simp_all add: line_key_def)
  moreover have "entry_num (49 # 48 # replicate 300 65) = 10" "entry_text (49 # 48 # replicate 300 65) = replicate 300 65"
    by (simp_all add: entry_num_def entry_digits_def entry_text_def t blank_def is_digit_ch_def digit_val_def)
  ultimately show ?thesis
    using long_line_hangs[of ?s "variables_begin ?s - 6" ?cs "[]" ?cs sample_env]
    by (simp add: up kRamSize_def list_all_iff)
qed

end
