(* ===== verification/Sbrk.thy ===== *)
theory Sbrk
  imports Prelude
begin

text \<open>
  The program break (\<open>src/ub_sbrk.c\<close>): the heap the C library's allocator grows, taken from the
  firmware with \<open>AllocatePages\<close>.  The firmware is not part of the repository; its answer, a status
  and the address it writes through the pointer argument, is the parameter \<open>alloc\<close>.  The log
  lines of \<open>PRINT_LOG\<close> are recorded as the arguments given to \<open>ub_printf\<close>.
\<close>

datatype alloc_type = AllocateAnyPages | AllocateAddress

type_synonym 'f firmware = "'f \<Rightarrow> alloc_type \<Rightarrow> u64 \<Rightarrow> u64 \<Rightarrow> u64 \<times> u64 \<times> 'f"

datatype sbrk_log = LogFirst u64 u64 u64 | LogGrow u64 u64 u64 u64 | LogSbrk u64 u64

record heap =
  heap_base :: u64
  heap_current :: u64
  heap_limit :: u64
  heap_log :: "sbrk_log list"

definition PAGE_SIZE :: u64 where "PAGE_SIZE = 4096"
definition INITIALPAGES :: u64 where "INITIALPAGES = 4"
definition INITIAL_BASE :: u64 where "INITIAL_BASE = 0x4000000"

lemmas sbrk_consts = PAGE_SIZE_def INITIALPAGES_def INITIAL_BASE_def

definition heap_init :: heap where
  "heap_init = \<lparr>heap_base = 0, heap_current = 0, heap_limit = 0, heap_log = []\<rparr>"

definition EFI_ERROR :: "u64 \<Rightarrow> bool" where
  "EFI_ERROR status \<longleftrightarrow> status <s 0"

definition log_sbrk :: "sbrk_log \<Rightarrow> heap \<Rightarrow> heap" where
  "log_sbrk e h = h\<lparr>heap_log := heap_log h @ [e]\<rparr>"

text \<open>The first call: \<open>None\<close> when the firmware refuses.\<close>

definition sbrk_first :: "'f firmware \<Rightarrow> 'f \<Rightarrow> heap \<Rightarrow> bool \<times> heap \<times> 'f" where
  "sbrk_first alloc f h =
     (if heap_base h \<noteq> 0 then (True, h, f)
      else let h = h\<lparr>heap_base := INITIAL_BASE\<rparr>;
               (status, addr, f) = alloc f AllocateAddress INITIALPAGES (heap_base h);
               h = log_sbrk (LogFirst INITIALPAGES addr status) (h\<lparr>heap_base := addr\<rparr>)
        in if EFI_ERROR status then (False, h, f)
           else (True, h\<lparr>heap_current := heap_base h, heap_limit := heap_base h + INITIALPAGES * PAGE_SIZE\<rparr>, f))"

definition additional_pages :: "u64 \<Rightarrow> heap \<Rightarrow> u64" where
  "additional_pages new_break h = (new_break - heap_limit h + PAGE_SIZE - 1) div PAGE_SIZE"

text \<open>Growing the limit: the address the firmware chose is overwritten with the old limit.\<close>

definition sbrk_grow :: "'f firmware \<Rightarrow> u64 \<Rightarrow> 'f \<Rightarrow> heap \<Rightarrow> bool \<times> heap \<times> 'f" where
  "sbrk_grow alloc new_break f h =
     (let hl = heap_limit h
      in if \<not> heap_limit h < new_break then (True, h, f)
         else let pages = additional_pages new_break h;
                  (status, addr, f) = alloc f AllocateAnyPages pages (heap_limit h);
                  h = log_sbrk (LogGrow pages addr hl status) (h\<lparr>heap_limit := addr\<rparr>)
           in if EFI_ERROR status then (False, h, f)
              else (True, h\<lparr>heap_limit := hl + pages * PAGE_SIZE\<rparr>, f))"

definition ub_sbrk :: "'f firmware \<Rightarrow> u64 \<Rightarrow> 'f \<Rightarrow> heap \<Rightarrow> u64 \<times> heap \<times> 'f" where
  "ub_sbrk alloc increment f h =
     (if increment = 0 then (heap_current h, h, f)
      else let (ok, h, f) = sbrk_first alloc f h
        in if \<not> ok then (- 1, h, f)
           else let new_break = heap_current h + increment;
                    (ok, h, f) = sbrk_grow alloc new_break f h
             in if \<not> ok then (- 1, h, f)
                else let old_break = heap_current h;
                         h = log_sbrk (LogSbrk increment old_break) (h\<lparr>heap_current := new_break\<rparr>)
                  in (old_break, h, f))"

subsection \<open>The heap stays in order\<close>

definition heap_ok :: "heap \<Rightarrow> bool" where
  "heap_ok h \<longleftrightarrow> 0 < heap_base h \<and> heap_base h \<le> heap_current h \<and> heap_current h \<le> heap_limit h"

text \<open>What the firmware documents of \<open>AllocateAddress\<close>: on success it hands out the pages at the
  address it was given.\<close>

definition honours_address :: "'f firmware \<Rightarrow> bool" where
  "honours_address alloc \<longleftrightarrow> (\<forall>f n a. case alloc f AllocateAddress n a of (status, addr, _) \<Rightarrow>
     EFI_ERROR status \<or> addr = a)"

lemma unat_pages:
  assumes "heap_limit h < nb" and "unat nb + 4096 \<le> 2 ^ 64"
  shows "unat (additional_pages nb h) = (unat nb - unat (heap_limit h) + 4095) div 4096"
proof -
  have d: "unat (nb - heap_limit h) = unat nb - unat (heap_limit h)"
    using assms(1) by (simp add: unat_sub order_less_imp_le)
  have "unat (nb - heap_limit h + PAGE_SIZE - 1) = unat nb - unat (heap_limit h) + 4095"
  proof -
    have "nb - heap_limit h + PAGE_SIZE - 1 = of_nat (unat (nb - heap_limit h) + 4095)"
      by (simp add: PAGE_SIZE_def)
    moreover have "unat (nb - heap_limit h) + 4095 < 2 ^ 64" using d assms(2) by linarith
    ultimately show ?thesis using d by (simp only: unat_of_nat) (simp add: take_bit_nat_eq_self)
  qed
  then show ?thesis by (simp add: additional_pages_def unat_div PAGE_SIZE_def)
qed

lemma grown_limit:
  assumes "heap_limit h < nb" and "unat nb + 8192 \<le> 2 ^ 64"
  shows "unat (heap_limit h + additional_pages nb h * PAGE_SIZE) =
      unat (heap_limit h) + (unat nb - unat (heap_limit h) + 4095) div 4096 * 4096"
    and "nb \<le> heap_limit h + additional_pages nb h * PAGE_SIZE"
proof -
  let ?n = "unat nb - unat (heap_limit h)" and ?p = "(unat nb - unat (heap_limit h) + 4095) div 4096"
  have u: "unat (additional_pages nb h) = ?p" using assms by (intro unat_pages) auto
  have lt: "unat (heap_limit h) < unat nb" using assms(1) by (simp add: word_less_nat_alt)
  have "?p * 4096 \<le> ?n + 4095" "?n \<le> ?p * 4096" by linarith+
  then have b: "unat (heap_limit h) + ?p * 4096 < 2 ^ 64" "unat nb \<le> unat (heap_limit h) + ?p * 4096"
    using lt assms(2) by linarith+
  have "heap_limit h + additional_pages nb h * PAGE_SIZE = of_nat (unat (heap_limit h) + ?p * 4096)"
    by (simp add: PAGE_SIZE_def flip: u)
  with b(1) show e: "unat (heap_limit h + additional_pages nb h * PAGE_SIZE) = unat (heap_limit h) + ?p * 4096"
    by (simp only: unat_of_nat) (simp add: take_bit_nat_eq_self)
  show "nb \<le> heap_limit h + additional_pages nb h * PAGE_SIZE"
    using b(2) e by (simp add: word_le_nat_alt)
qed

lemma sbrk_first_ok:
  assumes "heap_ok h \<or> heap_base h = 0" and "honours_address alloc"
    and "sbrk_first alloc f h = (True, h', f')"
  shows "heap_ok h' \<and> (heap_base h \<noteq> 0 \<longrightarrow> h' = h) \<and>
    (heap_base h = 0 \<longrightarrow> heap_base h' = INITIAL_BASE \<and> heap_current h' = INITIAL_BASE)"
proof (cases "heap_base h = 0")
  case True
  obtain st addr f1 where a: "alloc f AllocateAddress INITIALPAGES INITIAL_BASE = (st, addr, f1)"
    by (cases "alloc f AllocateAddress INITIALPAGES INITIAL_BASE")
  with assms(2) have "EFI_ERROR st \<or> addr = INITIAL_BASE"
    unfolding honours_address_def by (metis (mono_tags, lifting) case_prod_conv)
  then show ?thesis
    using assms(3) True a
    by (auto simp: sbrk_first_def Let_def log_sbrk_def heap_ok_def sbrk_consts split: if_splits)
next
  case False
  then show ?thesis using assms(1,3) by (auto simp: sbrk_first_def)
qed

lemma sbrk_grow_ok:
  assumes "heap_ok h" and "heap_current h \<le> nb" and "unat nb + 8192 \<le> 2 ^ 64"
    and "sbrk_grow alloc nb f h = (True, h', f')"
  shows "heap_base h' = heap_base h" "heap_current h' = heap_current h" "nb \<le> heap_limit h'"
    "heap_limit h \<le> heap_limit h'"
proof -
  obtain st addr f1 where a: "alloc f AllocateAnyPages (additional_pages nb h) (heap_limit h) = (st, addr, f1)"
    by (cases "alloc f AllocateAnyPages (additional_pages nb h) (heap_limit h)")
  note r = assms(4)[unfolded sbrk_grow_def Let_def a case_prod_conv log_sbrk_def]
  show "heap_base h' = heap_base h" "heap_current h' = heap_current h" using r by (auto split: if_splits)
  show "nb \<le> heap_limit h'" using r grown_limit(2)[OF _ assms(3), of h] by (auto split: if_splits)
  then show "heap_limit h \<le> heap_limit h'" using r by (auto split: if_splits)
qed

subsection \<open>The contract\<close>

definition break_of :: "heap \<Rightarrow> u64" where
  "break_of h = (if heap_base h = 0 then INITIAL_BASE else heap_current h)"

lemma ub_sbrk_success:
  assumes "heap_ok h \<or> heap_base h = 0" and "honours_address alloc" and "inc \<noteq> 0"
    and "unat (break_of h) + unat inc + 8192 \<le> 2 ^ 64"
    and "ub_sbrk alloc inc f h = (p, h', f')" and "p \<noteq> - 1"
  shows "p = break_of h" "heap_current h' = p + inc" "heap_ok h'" "p < p + inc"
proof -
  obtain h1 f1 where a: "sbrk_first alloc f h = (True, h1, f1)"
    using assms(3,5,6) by (cases "sbrk_first alloc f h") (auto simp: ub_sbrk_def Let_def split: if_splits)
  have h1: "heap_ok h1" "heap_current h1 = break_of h"
    using sbrk_first_ok[OF assms(1,2) a] by (auto simp: break_of_def)
  obtain h2 f2 where g: "sbrk_grow alloc (heap_current h1 + inc) f1 h1 = (True, h2, f2)"
    using assms(3,5,6) a
    by (cases "sbrk_grow alloc (heap_current h1 + inc) f1 h1") (auto simp: ub_sbrk_def Let_def split: if_splits)
  have u: "unat (heap_current h1 + inc) = unat (break_of h) + unat inc"
    using assms(4) h1(2) by (subst unat_plus_if') auto
  then have lt: "heap_current h1 < heap_current h1 + inc"
    using assms(3) h1(2) by (simp add: word_less_nat_alt unat_gt_0)
  note g' = sbrk_grow_ok[OF h1(1) _ _ g]
  have h2: "heap_base h2 = heap_base h1" "heap_current h2 = heap_current h1"
    "heap_current h1 + inc \<le> heap_limit h2"
    using g' u lt assms(4) by auto
  have r: "p = heap_current h2" "heap_current h' = heap_current h1 + inc" "heap_base h' = heap_base h2"
     "heap_limit h' = heap_limit h2"
    using assms(3,5) a g by (auto simp: ub_sbrk_def Let_def log_sbrk_def)
  show "p = break_of h" "heap_current h' = p + inc" "p < p + inc" using r h2 h1 lt by auto
  show "heap_ok h'" using r h2 h1 lt unfolding heap_ok_def by auto
qed

text \<open>
  C23.  A successful \<open>ub_sbrk\<close> hands out the block from the old break to the new one: it returns the
  break as it was (the initial base on the first call), moves the break up by the increment, and
  the block lies inside the limits of the heap; base, break and limit stay in order.
\<close>

theorem ub_sbrk_contract:
  assumes "heap_ok h \<or> heap_base h = 0" and "honours_address alloc" and "inc \<noteq> 0"
    and "unat (break_of h) + unat inc + 8192 \<le> 2 ^ 64"
    and "ub_sbrk alloc inc f h = (p, h', f')" and "p \<noteq> - 1"
  shows "p = break_of h \<and> heap_current h' = p + inc \<and> heap_ok h' \<and> p + inc \<le> heap_limit h' \<and>
    heap_base h' \<le> p"
proof -
  have b: "heap_base h' = (if heap_base h = 0 then heap_base h' else heap_base h)"
    using assms(3,5,6) by (auto simp: ub_sbrk_def sbrk_first_def sbrk_grow_def Let_def log_sbrk_def
        split: if_splits prod.splits)
  have "heap_base h = 0 \<Longrightarrow> heap_base h' = INITIAL_BASE"
    using sbrk_first_ok[OF assms(1,2)] assms(3,5,6)
    by (fastforce simp: ub_sbrk_def sbrk_grow_def Let_def log_sbrk_def split: if_splits prod.splits)
  then have "heap_base h' \<le> p"
    using ub_sbrk_success(1)[OF assms] b assms(1) by (auto simp: break_of_def heap_ok_def)
  then show ?thesis using ub_sbrk_success[OF assms] by (simp add: heap_ok_def)
qed

definition fw_ok :: "nat firmware" where
  "fw_ok f ty n a = (0, case ty of AllocateAddress \<Rightarrow> a | AllocateAnyPages \<Rightarrow> 0x9000000, Suc f)"

lemma fw_ok_honours: "honours_address fw_ok"
  by (simp add: honours_address_def fw_ok_def)

theorem ub_sbrk_contract_witness:
  "\<exists>h'. ub_sbrk fw_ok 0x5000 0 heap_init = (INITIAL_BASE, h', 2) \<and> heap_current h' = 0x4005000 \<and>
     heap_ok h' \<and> INITIAL_BASE + 0x5000 \<le> heap_limit h'"
proof -
  obtain p h' f' where r: "ub_sbrk fw_ok 0x5000 0 heap_init = (p, h', f')"
    by (cases "ub_sbrk fw_ok 0x5000 0 heap_init")
  moreover from r have "p = INITIAL_BASE" "f' = 2"
    by (simp_all add: ub_sbrk_def sbrk_first_def sbrk_grow_def fw_ok_def heap_init_def EFI_ERROR_def
        log_sbrk_def additional_pages_def sbrk_consts Let_def)
  moreover have "break_of heap_init = INITIAL_BASE" by (simp add: break_of_def heap_init_def)
  ultimately show ?thesis
    using ub_sbrk_contract[of heap_init fw_ok "0x5000" 0 p h' f'] fw_ok_honours
    by (simp add: heap_init_def sbrk_consts)
qed

text \<open>
  C37.  The heap grows into pages the firmware has not granted: when a request reaches beyond the
  limit and \<open>AllocateAnyPages\<close> grants the pages anywhere but right behind the limit, \<open>ub_sbrk\<close> returns
  the old break as if all were well, moves the limit up by the number of pages, and the block it
  hands out has a byte beyond the old limit that lies outside the pages just granted.
\<close>

theorem ub_sbrk_foreign_pages:
  assumes "heap_ok h" and "heap_limit h < heap_current h + inc" and "unat (heap_current h) + unat inc + 8192 \<le> 2 ^ 64"
    and "n = additional_pages (heap_current h + inc) h"
    and "alloc f AllocateAnyPages n (heap_limit h) = (status, a, f1)" and "\<not> EFI_ERROR status"
    and "4096 dvd unat a" and "4096 dvd unat (heap_limit h)" and "a \<noteq> heap_limit h"
  shows "\<exists>h'. ub_sbrk alloc inc f h = (heap_current h, h', f1) \<and> heap_current h' = heap_current h + inc \<and>
    heap_limit h' = heap_limit h + n * PAGE_SIZE \<and>
    (\<exists>x. heap_limit h \<le> x \<and> heap_current h \<le> x \<and> x < heap_current h + inc \<and>
      \<not> (unat a \<le> unat x \<and> unat x < unat a + unat n * 4096))"
proof -
  let ?l = "heap_limit h" and ?nb = "heap_current h + inc"
  have base: "heap_base h \<noteq> 0" "heap_current h \<le> ?l" using assms(1) by (auto simp: heap_ok_def)
  have nz: "inc \<noteq> 0" using base(2) assms(2) by auto
  have un: "unat n = (unat ?nb - unat ?l + 4095) div 4096"
    unfolding assms(4) by (rule unat_pages[OF assms(2)]) (use assms(3) in \<open>simp add: unat_word_ariths\<close>)
  have lt: "unat ?l < unat ?nb" using assms(2) by (simp add: word_less_nat_alt)
  have "ub_sbrk alloc inc f h = (heap_current h, log_sbrk (LogSbrk inc (heap_current h)) ((log_sbrk (LogGrow n a ?l status)
      (h\<lparr>heap_limit := a\<rparr>))\<lparr>heap_limit := ?l + n * PAGE_SIZE, heap_current := ?nb\<rparr>), f1)" (is "_ = (_, ?h', _)")
    using base(1) nz assms(2,5,6) by (simp add: ub_sbrk_def sbrk_first_def sbrk_grow_def log_sbrk_def Let_def assms(4)[symmetric])
  moreover have "heap_current ?h' = ?nb" "heap_limit ?h' = ?l + n * PAGE_SIZE" by (simp_all add: log_sbrk_def)
  moreover have "\<exists>x. ?l \<le> x \<and> x < ?nb \<and> \<not> (unat a \<le> unat x \<and> unat x < unat a + unat n * 4096)"
  proof (cases "?l < a")
    case True
    then show ?thesis using assms(2) by (intro exI[of _ ?l]) (simp add: word_less_nat_alt)
  next
    case False
    then have "unat a < unat ?l" using assms(9) by (metis linorder_neqE word_less_nat_alt)
    moreover obtain i j where ij: "unat a = 4096 * i" "unat ?l = 4096 * j" using assms(7,8) by (elim dvdE) blast
    ultimately have "unat a + 4096 \<le> unat ?l" by simp
    moreover have "unat n * 4096 < unat ?nb - unat ?l + 4096" unfolding un by linarith
    ultimately have out: "unat a + unat n * 4096 \<le> unat ?nb - 1" "unat ?l \<le> unat ?nb - 1" using lt by linarith+
    have "unat (?nb - 1) = unat ?nb - 1" using lt by (subst unat_minus_one) auto
    then show ?thesis using out lt by (intro exI[of _ "?nb - 1"]) (simp add: word_le_nat_alt word_less_nat_alt)
  qed
  then obtain x where "?l \<le> x" "x < ?nb" "\<not> (unat a \<le> unat x \<and> unat x < unat a + unat n * 4096)" by blast
  moreover from this(1) have "heap_current h \<le> x" using base(2) by (rule order_trans[rotated])
  ultimately show ?thesis by blast
qed

theorem ub_sbrk_foreign_pages_witness:
  "let h = \<lparr>heap_base = INITIAL_BASE, heap_current = 0x4000010, heap_limit = 0x4004000, heap_log = []\<rparr>
   in \<exists>h' x. ub_sbrk fw_ok 0x8000 0 h = (0x4000010, h', 1) \<and> heap_limit h' = 0x4009000 \<and>
     0x4004000 \<le> x \<and> x < 0x4008010 \<and> \<not> (0x9000000 \<le> unat (x :: u64) \<and> unat x < 0x9005000)"
proof -
  let ?h = "\<lparr>heap_base = INITIAL_BASE, heap_current = 0x4000010, heap_limit = 0x4004000, heap_log = []\<rparr>"
  have n: "5 = additional_pages (heap_current ?h + 0x8000) ?h" by (simp add: additional_pages_def sbrk_consts)
  have ok: "heap_ok ?h" by (simp add: heap_ok_def sbrk_consts)
  have al: "fw_ok 0 AllocateAnyPages 5 (heap_limit ?h) = (0, 0x9000000, 1)" "\<not> EFI_ERROR 0"
    by (simp_all add: fw_ok_def EFI_ERROR_def)
  obtain h' x where "ub_sbrk fw_ok 0x8000 0 ?h = (heap_current ?h, h', 1)" "heap_limit h' = heap_limit ?h + 5 * PAGE_SIZE"
      "heap_limit ?h \<le> x" "x < heap_current ?h + 0x8000" "\<not> (unat (0x9000000 :: u64) \<le> unat x \<and> unat x < unat (0x9000000 :: u64) + unat (5 :: u64) * 4096)"
    using ub_sbrk_foreign_pages[of ?h "0x8000" 5 fw_ok 0 0 "0x9000000" 1] ok n al by auto
  then show ?thesis by (auto simp: PAGE_SIZE_def)
qed

text \<open>
  C38.  A refused first call leaves the heap half initialised: when the firmware rejects the first
  request and grants a later one, the next \<open>ub_sbrk\<close> does not try the initial pages again but
  returns 0, the null pointer, as the address of a valid block.
\<close>

theorem ub_sbrk_after_refusal:
  assumes "inc \<noteq> 0" and "inc' \<noteq> 0" and "alloc f AllocateAddress INITIALPAGES INITIAL_BASE = (st, INITIAL_BASE, f1)"
    and "EFI_ERROR st" and "alloc f1 AllocateAnyPages ((inc' + PAGE_SIZE - 1) div PAGE_SIZE) 0 = (st', a, f2)"
    and "\<not> EFI_ERROR st'"
  shows "\<exists>h1. ub_sbrk alloc inc f heap_init = (- 1, h1, f1) \<and> fst (ub_sbrk alloc inc' f1 h1) = 0"
  using assms
  by (simp add: ub_sbrk_def sbrk_first_def sbrk_grow_def heap_init_def log_sbrk_def additional_pages_def
      INITIAL_BASE_def Let_def word_gt_0)

definition fw_refuse :: "nat firmware" where
  "fw_refuse f ty n a = (if f = 0 then 0x8000000000000009 else 0, a, Suc f)"

theorem ub_sbrk_after_refusal_witness:
  "\<exists>h1. ub_sbrk fw_refuse 64 0 heap_init = (- 1, h1, 1) \<and> fst (ub_sbrk fw_refuse 64 1 h1) = 0"
  using ub_sbrk_after_refusal[of 64 64 fw_refuse 0 "0x8000000000000009" 1 0 0 2]
  by (simp add: fw_refuse_def EFI_ERROR_def sbrk_consts word_sless_alt)

end
