(* ===== verification/Syscalls.thy ===== *)
theory Syscalls
  imports Sbrk Console
begin

text \<open>
  The system call layer of the C library port (\<open>src/libc/sys/x64uefi/syscalls.c\<close>).  What was once
  a debug monitor is a function that answers 0 to every request; output goes to the console.  The
  state is the table of open files and \<open>errno\<close> on top of the console.  A C \<open>int\<close> is a 32-bit word
  read as signed, \<open>off_t\<close> and \<open>size_t\<close> are 64-bit words.  \<open>remap_handle\<close> only makes sure that stdio
  is initialised and returns its argument.
\<close>

record poslog =
  handle :: u32
  pos :: u64

record sys = console +
  openfiles :: "poslog list"
  errno :: u32

definition MAX_OPEN_FILES :: nat where "MAX_OPEN_FILES = 20"

datatype angel = Reason_Open | Reason_Close | Reason_Read | Reason_Seek | Reason_FLen | Reason_Errno
  | Reason_Clock | Reason_Time | Reason_System | Reason_Rename | Reason_ReportException

text \<open>The second argument holds the integers of the parameter block.\<close>

definition do_AngelSWI :: "angel \<Rightarrow> u32 list \<Rightarrow> u32" where
  "do_AngelSWI reason arg = 0"

abbreviation ENOSYS :: u32 where "ENOSYS \<equiv> 88"
abbreviation STDOUT_FILENO :: u32 where "STDOUT_FILENO \<equiv> 1"
abbreviation STDERR_FILENO :: u32 where "STDERR_FILENO \<equiv> 2"
abbreviation SEEK_SET :: u32 where "SEEK_SET \<equiv> 0"
abbreviation SEEK_CUR :: u32 where "SEEK_CUR \<equiv> 1"
abbreviation SEEK_END :: u32 where "SEEK_END \<equiv> 2"

text \<open>The table is static storage, so every handle in it starts as 0.\<close>

definition openfiles_init :: "poslog list" where
  "openfiles_init = replicate MAX_OPEN_FILES \<lparr>handle = 0, pos = 0\<rparr>"

fun findslot_loop :: "u32 \<Rightarrow> poslog list \<Rightarrow> nat" where
  "findslot_loop fh [] = 0"
| "findslot_loop fh (e # es) = (if handle e = fh then 0 else Suc (findslot_loop fh es))"

definition findslot :: "u32 \<Rightarrow> sys \<Rightarrow> nat" where
  "findslot fh s = findslot_loop fh (openfiles s)"

definition remap_handle :: "u32 \<Rightarrow> u32" where
  "remap_handle fh = fh"

definition get_errno :: u32 where
  "get_errno = do_AngelSWI Reason_Errno []"

definition error :: "u32 \<Rightarrow> sys \<Rightarrow> u32 \<times> sys" where
  "error result s = (result, s\<lparr>errno := get_errno\<rparr>)"

definition wrap :: "u32 \<Rightarrow> sys \<Rightarrow> u32 \<times> sys" where
  "wrap result s = (if result = - 1 then error (- 1) s else (result, s))"

definition set_pos :: "nat \<Rightarrow> u64 \<Rightarrow> sys \<Rightarrow> sys" where
  "set_pos i p s = s\<lparr>openfiles := (openfiles s)[i := (openfiles s ! i)\<lparr>pos := p\<rparr>]\<rparr>"

definition set_handle :: "nat \<Rightarrow> u32 \<Rightarrow> sys \<Rightarrow> sys" where
  "set_handle i fh s = s\<lparr>openfiles := (openfiles s)[i := (openfiles s ! i)\<lparr>handle := fh\<rparr>]\<rparr>"

subsection \<open>Reading and seeking\<close>

text \<open>No call of the dummy monitor touches the buffer, so it does not appear.\<close>

definition swiread :: "u32 \<Rightarrow> u64 \<Rightarrow> u32" where
  "swiread file len = do_AngelSWI Reason_Read [remap_handle file, ucast len]"

definition sys_read :: "u32 \<Rightarrow> u64 \<Rightarrow> sys \<Rightarrow> u32 \<times> sys" where
  "sys_read file len s =
     (let slot = findslot (remap_handle file) s;
          x = swiread file len
      in if x <s 0 then error (- 1) s
         else let n = len - scast x;
                  s = (if slot \<noteq> MAX_OPEN_FILES then set_pos slot (pos (openfiles s ! slot) + n) s else s)
           in (ucast n, s))"

definition swilseek_abs :: "u32 \<Rightarrow> nat \<Rightarrow> u64 \<Rightarrow> u32 \<Rightarrow> sys \<Rightarrow> u64 \<times> sys" where
  "swilseek_abs fh slot ptr dir s =
     (let ptr = (if dir = SEEK_END then ptr + scast (do_AngelSWI Reason_FLen [fh]) else ptr);
          res = scast (do_AngelSWI Reason_Seek [fh, ucast ptr]) :: u64;
          s = (if slot \<noteq> MAX_OPEN_FILES \<and> res = 0 then set_pos slot ptr s else s)
      in (if res = 0 then ptr else - 1, s))"

definition swilseek :: "u32 \<Rightarrow> u64 \<Rightarrow> u32 \<Rightarrow> sys \<Rightarrow> u64 \<times> sys" where
  "swilseek file ptr dir s =
     (let fh = remap_handle file; slot = findslot fh s
      in if dir = SEEK_CUR
         then if slot = MAX_OPEN_FILES then (- 1, s)
              else let p = pos (openfiles s ! slot)
                in if ptr = 0 then (p, s) else swilseek_abs fh slot (ptr + p) SEEK_SET s
         else swilseek_abs fh slot ptr dir s)"

text \<open>\<open>wrap\<close> takes an \<open>int\<close>: the position is cut to 32 bits on the way and sign-extended back.\<close>

definition lseek :: "u32 \<Rightarrow> u64 \<Rightarrow> u32 \<Rightarrow> sys \<Rightarrow> u64 \<times> sys" where
  "lseek file ptr dir s =
     (let (r, s) = swilseek file ptr dir s; (w, s) = wrap (ucast r) s in (scast w, s))"

subsection \<open>Writing\<close>

fun out_all :: "u8 list \<Rightarrow> 'a console_scheme \<Rightarrow> 'a console_scheme" where
  "out_all [] s = s"
| "out_all (c # cs) s = out_all cs (ub_outchar c s)"

definition swiwrite :: "u32 \<Rightarrow> u8 list \<Rightarrow> sys \<Rightarrow> u32 \<times> sys" where
  "swiwrite file buf s =
     (let fh = remap_handle file
      in if fh \<noteq> STDOUT_FILENO \<and> fh \<noteq> STDERR_FILENO then (0, s)
         else (of_nat (length buf), out_all buf s))"

definition sys_write :: "u32 \<Rightarrow> u8 list \<Rightarrow> sys \<Rightarrow> u32 \<times> sys" where
  "sys_write file buf s =
     (let len = of_nat (length buf) :: u64;
          slot = findslot (remap_handle file) s;
          (x, s) = swiwrite file buf s
      in if x = - 1 \<or> (scast x :: u64) = len then error (- 1) s
         else let n = len - scast x;
                  s = (if slot \<noteq> MAX_OPEN_FILES then set_pos slot (pos (openfiles s ! slot) + n) s else s)
           in (ucast n, s))"

subsection \<open>Opening and closing\<close>

definition O_RDONLY :: u32 where "O_RDONLY = 0"
definition O_RDWR :: u32 where "O_RDWR = 2"
definition O_APPEND :: u32 where "O_APPEND = 8"
definition O_CREAT :: u32 where "O_CREAT = 0x200"
definition O_TRUNC :: u32 where "O_TRUNC = 0x400"

unbundle bit_operations_syntax

definition angel_flags :: "u32 \<Rightarrow> u32" where
  "angel_flags flags =
     (let aflags = 0;
          aflags = (if flags AND O_RDWR \<noteq> 0 then aflags OR 2 else aflags);
          aflags = (if flags AND O_CREAT \<noteq> 0 then aflags OR 4 else aflags);
          aflags = (if flags AND O_TRUNC \<noteq> 0 then aflags OR 4 else aflags)
      in if flags AND O_APPEND \<noteq> 0 then (aflags AND NOT 4) OR 8 else aflags)"

text \<open>The monitor's answer to the open request does not depend on the path and the flags.\<close>

definition swiopen :: "u8 list \<Rightarrow> u32 \<Rightarrow> sys \<Rightarrow> u32 \<times> sys" where
  "swiopen path flags s =
     (let i = findslot (- 1) s
      in if i = MAX_OPEN_FILES then (- 1, s)
         else let fh = do_AngelSWI Reason_Open [angel_flags flags, of_nat (length path)]
           in if 0 \<le>s fh then (fh, set_pos i 0 (set_handle i fh s)) else error fh s)"

definition sys_open :: "u8 list \<Rightarrow> u32 \<Rightarrow> sys \<Rightarrow> u32 \<times> sys" where
  "sys_open path flags s = (let (r, s) = swiopen path flags s in wrap r s)"

definition swiclose :: "u32 \<Rightarrow> sys \<Rightarrow> u32 \<times> sys" where
  "swiclose file s =
     (let myhan = remap_handle file; slot = findslot myhan s;
          s = (if slot \<noteq> MAX_OPEN_FILES then set_handle slot (- 1) s else s)
      in (do_AngelSWI Reason_Close [myhan], s))"

definition sys_close :: "u32 \<Rightarrow> sys \<Rightarrow> u32 \<times> sys" where
  "sys_close file s = (let (r, s) = swiclose file s in wrap r s)"

subsection \<open>The remaining calls\<close>

text \<open>The monitor was expected not to come back from the exit request; what follows is marked
  unreachable, so coming back is undefined behaviour.\<close>

definition ADP_Stopped_ApplicationExit :: u32 where "ADP_Stopped_ApplicationExit = 0x20026"
definition ADP_Stopped_RunTimeError :: u32 where "ADP_Stopped_RunTimeError = 0x20023"
definition SIGABRT :: u32 where "SIGABRT = 6"

definition kill_shared :: "u32 \<Rightarrow> u32 \<Rightarrow> u32 \<Rightarrow> unit res" where
  "kill_shared pid sig reason =
     (let ret = do_AngelSWI Reason_ReportException [reason] in Stop Fault)"

definition sys_kill :: "u32 \<Rightarrow> u32 \<Rightarrow> unit res" where
  "sys_kill pid sig =
     (if sig = SIGABRT then kill_shared pid sig ADP_Stopped_RunTimeError
      else kill_shared pid sig ADP_Stopped_ApplicationExit)"

definition sys_exit :: "u32 \<Rightarrow> unit res" where
  "sys_exit status = kill_shared (- 1) status ADP_Stopped_ApplicationExit"

definition sys_getpid :: u32 where "sys_getpid = 1"

definition sys_sbrk :: "'f firmware \<Rightarrow> u64 \<Rightarrow> 'f \<Rightarrow> heap \<Rightarrow> u64 \<times> heap \<times> 'f" where
  "sys_sbrk alloc incr f h = ub_sbrk alloc incr f h"

record stat =
  st_dev :: u16
  st_ino :: u16
  st_mode :: u32
  st_nlink :: u16
  st_uid :: u16
  st_gid :: u16
  st_rdev :: u16
  st_size :: u64
  st_blksize :: u64
  st_blocks :: u64

definition stat_zero :: stat where
  "stat_zero = \<lparr>st_dev = 0, st_ino = 0, st_mode = 0, st_nlink = 0, st_uid = 0, st_gid = 0,
     st_rdev = 0, st_size = 0, st_blksize = 0, st_blocks = 0\<rparr>"

definition S_IFCHR :: u32 where "S_IFCHR = 0x2000"
definition S_IFREG :: u32 where "S_IFREG = 0x8000"
definition S_IREAD :: u32 where "S_IREAD = 0x100"

definition sys_fstat :: "u32 \<Rightarrow> u32 \<times> stat" where
  "sys_fstat file = (0, stat_zero\<lparr>st_mode := S_IFCHR, st_blksize := 1024\<rparr>)"

definition sys_stat :: "u8 list \<Rightarrow> stat \<Rightarrow> sys \<Rightarrow> u32 \<times> stat \<times> sys" where
  "sys_stat fname st s =
     (let (file, s) = sys_open fname O_RDONLY s
      in if file <s 0 then (- 1, st, s)
         else let st = stat_zero\<lparr>st_mode := S_IFREG OR S_IREAD, st_blksize := 1024\<rparr>;
                  (_, s) = swiclose file s
           in (0, st, s))"

definition sys_link :: "sys \<Rightarrow> u32 \<times> sys" where
  "sys_link s = (- 1, s\<lparr>errno := ENOSYS\<rparr>)"

definition sys_unlink :: "sys \<Rightarrow> u32 \<times> sys" where
  "sys_unlink s = (- 1, s\<lparr>errno := ENOSYS\<rparr>)"

record timeval =
  tv_sec :: u64
  tv_usec :: u64

record timezone =
  tz_minuteswest :: u32
  tz_dsttime :: u32

definition sys_gettimeofday ::
  "timeval option \<Rightarrow> timezone option \<Rightarrow> u32 \<times> timeval option \<times> timezone option" where
  "sys_gettimeofday tp tzp =
     (0, map_option (\<lambda>tp. tp\<lparr>tv_sec := scast (do_AngelSWI Reason_Time []), tv_usec := 0\<rparr>) tp,
      map_option (\<lambda>tz. tz\<lparr>tz_minuteswest := 0, tz_dsttime := 0\<rparr>) tzp)"

record tms =
  tms_utime :: u64
  tms_stime :: u64
  tms_cutime :: u64
  tms_cstime :: u64

definition sys_times :: "tms option \<Rightarrow> u64 \<times> tms option" where
  "sys_times tp =
     (let timeval = scast (do_AngelSWI Reason_Clock [])
      in (timeval, map_option (\<lambda>tp. tp\<lparr>tms_utime := timeval, tms_stime := 0, tms_cutime := 0, tms_cstime := 0\<rparr>) tp))"

definition sys_isatty :: "u32 \<Rightarrow> u32" where
  "sys_isatty fd = (if fd \<le>s 2 then 1 else 0)"

definition WEXITSTATUS :: "u32 \<Rightarrow> u32" where
  "WEXITSTATUS w = signed_drop_bit 8 w AND 0xff"

text \<open>The search for the encoded exit status; 32 shifts clear the word, so the budget is enough.\<close>

fun status_loop :: "nat \<Rightarrow> u32 \<Rightarrow> u32 \<Rightarrow> u32" where
  "status_loop 0 exit_code e = e"
| "status_loop (Suc n) exit_code e =
     (if e \<noteq> 0 \<and> WEXITSTATUS e \<noteq> exit_code then status_loop n exit_code (push_bit 1 e) else e)"

definition sys_system :: "u8 list option \<Rightarrow> sys \<Rightarrow> u32 \<times> sys" where
  "sys_system cmd s = (case cmd of
      None \<Rightarrow> (1, s)
    | Some c \<Rightarrow> (let (e, s) = wrap (do_AngelSWI Reason_System [of_nat (length c)]) s
        in if 0 \<le>s e \<and> e <s 256 then (status_loop 33 e e, s) else (e, s)))"

definition sys_rename :: "u8 list \<Rightarrow> u8 list \<Rightarrow> sys \<Rightarrow> u32 \<times> sys" where
  "sys_rename oldpath newpath s =
     (let (r, s) = wrap (do_AngelSWI Reason_Rename [of_nat (length oldpath), of_nat (length newpath)]) s in (if r \<noteq> 0 then - 1 else 0, s))"

subsection \<open>The table of open files\<close>

lemma findslot_loop_le: "findslot_loop fh es \<le> length es"
  by (induction es) auto

lemma findslot_loop_nth: "findslot_loop fh es < length es \<Longrightarrow> handle (es ! findslot_loop fh es) = fh"
  by (induction es) auto

lemma findslot_loop_eq_length: "findslot_loop fh es = length es \<longleftrightarrow> (\<forall>e \<in> set es. handle e \<noteq> fh)"
  by (induction es) auto

lemma findslot_loop_set_pos:
  "i < length es \<Longrightarrow> findslot_loop fh (es[i := (es ! i)\<lparr>pos := p\<rparr>]) = findslot_loop fh es"
  by (induction es arbitrary: i) (auto split: nat.splits)

lemma poslog_all [simp]: "e\<lparr>handle := a, pos := b\<rparr> = \<lparr>handle = a, pos = b\<rparr>"
  by (cases e) simp

definition table_ok :: "sys \<Rightarrow> bool" where
  "table_ok s \<longleftrightarrow> length (openfiles s) = MAX_OPEN_FILES"

lemma findslot_less:
  "table_ok s \<Longrightarrow> findslot fh s \<noteq> MAX_OPEN_FILES \<Longrightarrow> findslot fh s < length (openfiles s)"
  using findslot_loop_le[of fh "openfiles s"] by (simp add: findslot_def table_ok_def)

lemma findslot_set_pos:
  "table_ok s \<Longrightarrow> i < MAX_OPEN_FILES \<Longrightarrow> findslot fh (set_pos i p s) = findslot fh s"
  by (simp add: findslot_def set_pos_def findslot_loop_set_pos table_ok_def)

lemma table_ok_set [simp]: "table_ok (set_pos i p s) = table_ok s" "table_ok (set_handle i fh s) = table_ok s"
  by (simp_all add: table_ok_def set_pos_def set_handle_def)

lemma out_all_shown: "out_all cs s = s\<lparr>con_out := con_out s @ concat (map shown cs)\<rparr>"
  by (induction cs arbitrary: s) (simp_all add: ub_outchar_shown)

lemma scast_of_nat_u32:
  assumes "n < 2 ^ 31"
  shows "(scast (of_nat n :: u32) :: u64) = of_nat n"
proof -
  have "sint (of_nat n :: u32) = int n"
    using assms by (simp add: signed_of_nat signed_take_bit_int_eq_self)
  then show ?thesis by (metis of_int_of_nat_eq of_int_sint)
qed

lemma scast_ucast_u64:
  assumes "unat p < 2 ^ 31"
  shows "(scast (ucast p :: u32) :: u64) = p"
proof -
  have "(ucast p :: u32) = of_nat (unat p)" by simp
  then show ?thesis using scast_of_nat_u32[OF assms] by simp
qed

lemma ucast_not_minus_1: "unat p < 2 ^ 31 \<Longrightarrow> (ucast (p :: u64) :: u32) \<noteq> - 1"
proof
  assume p: "unat p < 2 ^ 31" and e: "(ucast p :: u32) = - 1"
  from e have "(scast (ucast p :: u32) :: u64) = - 1" by simp
  then have "p = - 1" using scast_ucast_u64[OF p] by simp
  with p show False by (simp add: unsigned_minus_1_eq_mask mask_eq_exp_minus_1)
qed

text \<open>
  C31.  Writing to standard output or standard error shows every character of the buffer, in order,
  on the console, and then reports failure: the layer below returns the number of characters it
  wrote where the number \<^emph>\<open>not\<close> written is expected, so the result is -1 with \<open>errno\<close> 0.
\<close>

theorem write_console:
  assumes "file = STDOUT_FILENO \<or> file = STDERR_FILENO" and "length buf < 2 ^ 31"
  shows "sys_write file buf s =
    (- 1, s\<lparr>con_out := con_out s @ concat (map shown buf), errno := 0\<rparr>)"
  using assms
  by (auto simp: sys_write_def swiwrite_def remap_handle_def out_all_shown scast_of_nat_u32 error_def
      get_errno_def do_AngelSWI_def Let_def)

definition sys_boot :: sys where
  "sys_boot = \<lparr>keys = [], con_out = [], openfiles = openfiles_init, errno = 0\<rparr>"

theorem write_console_witness:
  "fst (sys_write STDOUT_FILENO (str ''Hi'') sys_boot) = - 1 \<and>
   con_out (snd (sys_write STDOUT_FILENO (str ''Hi'') sys_boot)) = [72, 105]"
  using write_console[of STDOUT_FILENO "str ''Hi''" sys_boot] by (simp add: sys_boot_def shown_def)

text \<open>
  C24.  Seeking and asking for the position: after a seek to an absolute position below 2 GB on an
  open file, the call returns that position, and a query with \<open>SEEK_CUR\<close> and offset 0 returns it
  again without changing anything.
\<close>

theorem lseek_roundtrip:
  assumes "table_ok s" and "findslot file s \<noteq> MAX_OPEN_FILES" and "unat p < 2 ^ 31"
    and "lseek file p SEEK_SET s = (r, s')"
  shows "r = p \<and> lseek file 0 SEEK_CUR s' = (p, s') \<and> findslot file s' = findslot file s"
proof -
  let ?i = "findslot file s"
  have i: "?i < length (openfiles s)" "?i < MAX_OPEN_FILES"
    using findslot_less[OF assms(1,2)] assms(1) by (simp_all add: table_ok_def)
  have w: "wrap (ucast p) t = (ucast p, t)" for t using ucast_not_minus_1[OF assms(3)] by (simp add: wrap_def)
  have s': "r = p" "s' = set_pos ?i p s"
    using assms(2,4) w scast_ucast_u64[OF assms(3)]
    by (auto simp: lseek_def swilseek_def swilseek_abs_def remap_handle_def do_AngelSWI_def Let_def)
  have same: "findslot file s' = ?i" using findslot_set_pos[OF assms(1) i(2)] s' by simp
  have "pos (openfiles s' ! ?i) = p" using i(1) by (simp add: s' set_pos_def)
  then have "lseek file 0 SEEK_CUR s' = (p, s')"
    using same assms(2) w scast_ucast_u64[OF assms(3)]
    by (simp add: lseek_def swilseek_def remap_handle_def Let_def)
  with s' same show ?thesis by simp
qed

theorem lseek_roundtrip_witness:
  "\<exists>s'. lseek 0 1000 SEEK_SET sys_boot = (1000, s') \<and> lseek 0 0 SEEK_CUR s' = (1000, s')"
proof -
  obtain r s' where r: "lseek 0 1000 SEEK_SET sys_boot = (r, s')" by (cases "lseek 0 1000 SEEK_SET sys_boot")
  have "table_ok sys_boot" "findslot 0 sys_boot \<noteq> MAX_OPEN_FILES"
    by (simp_all add: table_ok_def sys_boot_def openfiles_init_def findslot_def MAX_OPEN_FILES_def)
      (simp add: numeral_eq_Suc)
  then show ?thesis using lseek_roundtrip[of sys_boot 0 1000 r s'] r by simp
qed

text \<open>
  Opening a file succeeds exactly when some slot of the table is free, that is, holds the
  handle -1; it then claims the first such slot for handle 0 at position 0, and otherwise returns
  -1.  No slot is free in the table the program starts with.
\<close>

theorem open_free_slot:
  "table_ok s \<Longrightarrow> sys_open path flags s =
     (if \<exists>e \<in> set (openfiles s). handle e = - 1
      then (0, s\<lparr>openfiles := (openfiles s)[findslot (- 1) s := \<lparr>handle = 0, pos = 0\<rparr>]\<rparr>)
      else (- 1, s\<lparr>errno := 0\<rparr>)) \<and>
   fst (sys_open path flags (s\<lparr>openfiles := openfiles_init\<rparr>)) = - 1"
proof -
  assume ok: "table_ok s"
  have op: "sys_open path flags t =
     (if \<exists>e \<in> set (openfiles t). handle e = - 1
      then (0, t\<lparr>openfiles := (openfiles t)[findslot (- 1) t := \<lparr>handle = 0, pos = 0\<rparr>]\<rparr>)
      else (- 1, t\<lparr>errno := 0\<rparr>))" if "table_ok t" for t
  proof (cases "\<exists>e \<in> set (openfiles t). handle e = - 1")
    case True
    then have ne: "findslot (- 1) t \<noteq> MAX_OPEN_FILES"
      using findslot_loop_eq_length[of "- 1" "openfiles t"] that by (auto simp: findslot_def table_ok_def)
    show ?thesis
      using True ne findslot_less[OF that ne]
      by (simp add: sys_open_def swiopen_def do_AngelSWI_def wrap_def set_pos_def set_handle_def Let_def)
  next
    case False
    then have "findslot (- 1) t = MAX_OPEN_FILES"
      using findslot_loop_eq_length[of "- 1" "openfiles t"] that by (auto simp: findslot_def table_ok_def)
    then show ?thesis
      using False by (auto simp: sys_open_def swiopen_def wrap_def error_def get_errno_def do_AngelSWI_def)
  qed
  have "table_ok (s\<lparr>openfiles := openfiles_init\<rparr>)" by (simp add: table_ok_def openfiles_init_def)
  then show ?thesis
    using op[OF ok] op[of "s\<lparr>openfiles := openfiles_init\<rparr>"] by (auto simp: openfiles_init_def)
qed

theorem open_free_slot_witness:
  "sys_open (str ''f'') O_RDONLY sys_boot = (- 1, sys_boot) \<and>
   fst (sys_open (str ''f'') O_RDONLY (snd (sys_close 0 sys_boot))) = 0"
proof -
  have "table_ok sys_boot" "table_ok (snd (sys_close 0 sys_boot))"
    by (simp_all add: table_ok_def sys_boot_def openfiles_init_def sys_close_def swiclose_def wrap_def
        do_AngelSWI_def set_handle_def remap_handle_def Let_def)
  moreover have "\<exists>e \<in> set (openfiles (snd (sys_close 0 sys_boot))). handle e = - 1"
    by (simp add: sys_close_def swiclose_def sys_boot_def openfiles_init_def findslot_def MAX_OPEN_FILES_def
        remap_handle_def do_AngelSWI_def wrap_def set_handle_def Let_def numeral_eq_Suc)
  ultimately show ?thesis
    using open_free_slot[of sys_boot "str ''f''" O_RDONLY]
      open_free_slot[of "snd (sys_close 0 sys_boot)" "str ''f''" O_RDONLY]
    by (simp add: sys_boot_def openfiles_init_def)
qed

end
