(* ===== verification/Reent.thy ===== *)
theory Reent
  imports Syscalls
begin

text \<open>
  The re-entrant wrappers of \<open>src/libc/reent\<close> over the system calls of the port.  Each wrapper
  clears \<open>errno\<close>, makes the call and copies \<open>errno\<close> into the caller's block when the call failed.

  The name \<open>errno\<close> stands for two objects.  In the wrappers it is undefined as a macro and declared
  \<open>extern int errno\<close>, the variable of \<open>reent.c\<close> (\<open>sys_errno\<close> here).  In \<open>syscalls.c\<close> it is the
  macro of \<open>errno.h\<close>, the field of the block \<open>_impure_ptr\<close> points to (\<open>errno\<close> of the system call
  layer).  The error numbers of other blocks are \<open>blocks\<close>.
\<close>

datatype reent_ptr = Impure | Block nat

record reents =
  os :: sys
  sys_errno :: u32
  blocks :: "nat \<Rightarrow> u32"

fun reent_errno :: "reent_ptr \<Rightarrow> reents \<Rightarrow> u32" where
  "reent_errno Impure r = errno (os r)"
| "reent_errno (Block b) r = blocks r b"

fun set_reent_errno :: "reent_ptr \<Rightarrow> u32 \<Rightarrow> reents \<Rightarrow> reents" where
  "set_reent_errno Impure e r = r\<lparr>os := (os r)\<lparr>errno := e\<rparr>\<rparr>"
| "set_reent_errno (Block b) e r = r\<lparr>blocks := (blocks r)(b := e)\<rparr>"

text \<open>\<open>__errno\<close>: the address behind the macro is that of the block of \<open>_impure_ptr\<close>.\<close>

definition errno_location :: reent_ptr where
  "errno_location = Impure"

text \<open>A system call of the port, and the shape the wrappers share.\<close>

definition port :: "(sys \<Rightarrow> 'a \<times> sys) \<Rightarrow> reents \<Rightarrow> 'a \<times> reents" where
  "port call r = (let (ret, s) = call (os r) in (ret, r\<lparr>os := s\<rparr>))"

definition wrapped :: "('a \<Rightarrow> bool) \<Rightarrow> (reents \<Rightarrow> 'a \<times> reents) \<Rightarrow> reent_ptr \<Rightarrow> reents \<Rightarrow> 'a \<times> reents" where
  "wrapped failed call ptr r =
     (let (ret, r) = call (r\<lparr>sys_errno := 0\<rparr>)
      in if failed ret \<and> sys_errno r \<noteq> 0 then (ret, set_reent_errno ptr (sys_errno r) r) else (ret, r))"

subsection \<open>The wrappers\<close>

definition read_r :: "reent_ptr \<Rightarrow> u32 \<Rightarrow> u64 \<Rightarrow> reents \<Rightarrow> u64 \<times> reents" where
  "read_r ptr fd cnt r = wrapped (\<lambda>ret. ret = - 1) (\<lambda>r. let (x, r) = port (sys_read fd cnt) r in (scast x, r)) ptr r"

definition write_r :: "reent_ptr \<Rightarrow> u32 \<Rightarrow> u8 list \<Rightarrow> reents \<Rightarrow> u64 \<times> reents" where
  "write_r ptr fd buf r = wrapped (\<lambda>ret. ret = - 1) (\<lambda>r. let (x, r) = port (sys_write fd buf) r in (scast x, r)) ptr r"

definition lseek_r :: "reent_ptr \<Rightarrow> u32 \<Rightarrow> u64 \<Rightarrow> u32 \<Rightarrow> reents \<Rightarrow> u64 \<times> reents" where
  "lseek_r ptr fd off whence r = wrapped (\<lambda>ret. ret = - 1) (port (lseek fd off whence)) ptr r"

definition open_r :: "reent_ptr \<Rightarrow> u8 list \<Rightarrow> u32 \<Rightarrow> reents \<Rightarrow> u32 \<times> reents" where
  "open_r ptr file flags r = wrapped (\<lambda>ret. ret = - 1) (port (sys_open file flags)) ptr r"

definition close_r :: "reent_ptr \<Rightarrow> u32 \<Rightarrow> reents \<Rightarrow> u32 \<times> reents" where
  "close_r ptr fd r = wrapped (\<lambda>ret. ret = - 1) (port (sys_close fd)) ptr r"

definition link_r :: "reent_ptr \<Rightarrow> u8 list \<Rightarrow> u8 list \<Rightarrow> reents \<Rightarrow> u32 \<times> reents" where
  "link_r ptr old new r = wrapped (\<lambda>ret. ret = - 1) (port sys_link) ptr r"

definition unlink_r :: "reent_ptr \<Rightarrow> u8 list \<Rightarrow> reents \<Rightarrow> u32 \<times> reents" where
  "unlink_r ptr file r = wrapped (\<lambda>ret. ret = - 1) (port sys_unlink) ptr r"

text \<open>\<open>HAVE_RENAME\<close> is not defined in the build, so a file is renamed by linking and unlinking.\<close>

definition rename_r :: "reent_ptr \<Rightarrow> u8 list \<Rightarrow> u8 list \<Rightarrow> reents \<Rightarrow> u32 \<times> reents" where
  "rename_r ptr old new r =
     (let (x, r) = link_r ptr old new r
      in if x = - 1 then (- 1, r)
         else let (x, r) = unlink_r ptr old r in if x = - 1 then (- 1, r) else (0, r))"

definition isatty_r :: "reent_ptr \<Rightarrow> u32 \<Rightarrow> reents \<Rightarrow> u32 \<times> reents" where
  "isatty_r ptr fd r = wrapped (\<lambda>ret. ret = - 1) (port (\<lambda>s. (sys_isatty fd, s))) ptr r"

definition fstat_r :: "reent_ptr \<Rightarrow> u32 \<Rightarrow> reents \<Rightarrow> (u32 \<times> stat) \<times> reents" where
  "fstat_r ptr fd r = wrapped (\<lambda>(ret, st). ret = - 1) (port (\<lambda>s. (sys_fstat fd, s))) ptr r"

definition stat_r :: "reent_ptr \<Rightarrow> u8 list \<Rightarrow> stat \<Rightarrow> reents \<Rightarrow> (u32 \<times> stat) \<times> reents" where
  "stat_r ptr file st r = wrapped (\<lambda>(ret, st). ret = - 1)
     (port (\<lambda>s. let (ret, st, s) = sys_stat file st s in ((ret, st), s))) ptr r"

definition gettimeofday_r :: "reent_ptr \<Rightarrow> timeval option \<Rightarrow> timezone option \<Rightarrow> reents \<Rightarrow>
    (u32 \<times> timeval option \<times> timezone option) \<times> reents" where
  "gettimeofday_r ptr tp tzp r = wrapped (\<lambda>(ret, _, _). ret = - 1) (port (\<lambda>s. (sys_gettimeofday tp tzp, s))) ptr r"

definition times_r :: "reent_ptr \<Rightarrow> tms option \<Rightarrow> u64 \<times> tms option" where
  "times_r ptr tp = sys_times tp"

definition getpid_r :: "reent_ptr \<Rightarrow> u32" where
  "getpid_r ptr = sys_getpid"

text \<open>\<open>_kill_r\<close> does not come back from \<open>_kill\<close>.\<close>

definition kill_r :: "reent_ptr \<Rightarrow> u32 \<Rightarrow> u32 \<Rightarrow> reents \<Rightarrow> (u32 \<times> reents) res" where
  "kill_r ptr pid sig r = bnd (sys_kill pid sig) (\<lambda>_. Stop Fault)"

text \<open>\<open>_sbrk_r\<close> runs on the heap; the wrapper's own effect is on the error numbers.\<close>

definition sbrk_r :: "'f firmware \<Rightarrow> reent_ptr \<Rightarrow> u64 \<Rightarrow> 'f \<Rightarrow> heap \<Rightarrow> reents \<Rightarrow> u64 \<times> heap \<times> 'f \<times> reents" where
  "sbrk_r alloc ptr incr f h r =
     (let ((ret, h, f), r) = wrapped (\<lambda>(ret, _, _). ret = - 1) (\<lambda>r. (sys_sbrk alloc incr f h, r)) ptr r
      in (ret, h, f, r))"

subsection \<open>What the wrappers do\<close>

text \<open>
  The interface between a wrapper and the call below it: a call of this port leaves the variable
  \<open>errno\<close> and the blocks alone.
\<close>

locale port_call =
  fixes call :: "reents \<Rightarrow> 'a \<times> reents"
  assumes keeps_errno: "sys_errno (snd (call r)) = sys_errno r"
    and keeps_blocks: "blocks (snd (call r)) = blocks r"
begin

lemma wrapped_call: "wrapped failed call ptr r = call (r\<lparr>sys_errno := 0\<rparr>)"
  using keeps_errno[of "r\<lparr>sys_errno := 0\<rparr>"] by (cases "call (r\<lparr>sys_errno := 0\<rparr>)") (simp add: wrapped_def)

lemma wrapped_keeps_blocks: "blocks (snd (wrapped failed call ptr r)) = blocks r"
  using keeps_blocks[of "r\<lparr>sys_errno := 0\<rparr>"] by (simp add: wrapped_call)

end

interpretation port: port_call "port call" for call
  by unfold_locales (simp_all add: port_def split: prod.splits)

interpretation port_cast: port_call "\<lambda>r. let (x, r) = port call r in (f x, r)" for call f
  by unfold_locales (simp_all add: port_def split: prod.splits)

interpretation port_pure: port_call "\<lambda>r. (x, r)" for x
  by unfold_locales simp_all

lemmas wrappers = read_r_def write_r_def lseek_r_def open_r_def close_r_def link_r_def unlink_r_def isatty_r_def
  fstat_r_def stat_r_def gettimeofday_r_def

lemma link_r_result: "link_r ptr old new r = (- 1, r\<lparr>sys_errno := 0, os := (os r)\<lparr>errno := ENOSYS\<rparr>\<rparr>)"
  by (simp add: link_r_def port.wrapped_call port_def sys_link_def)

lemma rename_r_result: "rename_r ptr old new r = (- 1, r\<lparr>sys_errno := 0, os := (os r)\<lparr>errno := ENOSYS\<rparr>\<rparr>)"
  by (simp add: rename_r_def link_r_result)

lemma write_r_result:
  "write_r ptr fd buf r = (let (x, s) = sys_write fd buf (os r) in (scast x, r\<lparr>sys_errno := 0, os := s\<rparr>))"
  unfolding write_r_def port_cast.wrapped_call by (simp add: port_def split: prod.splits)

lemma sbrk_r_result:
  "sbrk_r alloc ptr incr f h r = (let (ret, h, f) = ub_sbrk alloc incr f h in (ret, h, f, r\<lparr>sys_errno := 0\<rparr>))"
  unfolding sbrk_r_def port_pure.wrapped_call by (simp add: sys_sbrk_def split: prod.splits)

text \<open>
  C40.  The wrappers lose the error number.  A failed read, write, seek, open, close, unlink, stat,
  link or rename through a block of its own never stores an error number there: the wrapper tests
  the variable \<open>errno\<close>, which the port's calls do not set.  Linking and, because it is built on
  linking, renaming always fail; the number ENOSYS ends up in the block of \<open>_impure_ptr\<close> only.
\<close>

theorem reent_errno_lost:
  "blocks (snd (read_r ptr fd cnt r)) = blocks r \<and> blocks (snd (write_r ptr fd buf r)) = blocks r \<and>
   blocks (snd (lseek_r ptr fd off whence r)) = blocks r \<and> blocks (snd (open_r ptr file flags r)) = blocks r \<and>
   blocks (snd (close_r ptr fd r)) = blocks r \<and> blocks (snd (unlink_r ptr file r)) = blocks r \<and>
   blocks (snd (stat_r ptr file st r)) = blocks r \<and>
   (case link_r ptr old new r of (ret, r') \<Rightarrow> ret = - 1 \<and> reent_errno Impure r' = ENOSYS \<and> blocks r' = blocks r) \<and>
   (case rename_r ptr old new r of (ret, r') \<Rightarrow> ret = - 1 \<and> reent_errno Impure r' = ENOSYS \<and> blocks r' = blocks r)"
  unfolding link_r_result rename_r_result unfolding wrappers port.wrapped_keeps_blocks port_cast.wrapped_keeps_blocks
  by simp

end
