(* ===== verification/Malloc.thy ===== *)
theory Malloc
  imports Reent
begin

text \<open>
  The allocator the application is linked with (\<open>src/libc/stdlib/_mallocr.c\<close>, compiled with \<open>_LIBC\<close>
  for a 64-bit target: no \<open>mmap\<close>, pages of 4096 bytes, chunks of multiples of 16 bytes).

  All its accesses are to aligned longs, so memory is the long at each address.  The array \<open>av_\<close> of
  bin headers lies in that memory, at the address the linker gave it, and bins are used as chunks
  the way the macros do.  \<open>MORECORE\<close> is a parameter: a function from the increment and the state of
  the system to the address it returns and the new state.  Walks along linked lists have a budget
  \<open>k\<close> of steps, the first argument; \<open>NoFuel\<close> when it is used up.
\<close>

type_synonym longs = "u64 \<Rightarrow> u64"
type_synonym 'h morecore = "u64 \<Rightarrow> 'h \<Rightarrow> u64 \<times> 'h"

record 'h mstate =
  mlong :: longs
  av :: u64
  sbrk_base :: u64
  trim_threshold :: u64
  top_pad :: u64
  sbrked_mem :: u64
  max_sbrked_mem :: u64
  max_total_mem :: u64
  rerrno :: u32
  lock_depth :: int
  system :: 'h

definition SIZE_SZ :: u64 where "SIZE_SZ = 8"
definition MALLOC_ALIGNMENT :: u64 where "MALLOC_ALIGNMENT = SIZE_SZ + SIZE_SZ"
definition MALLOC_ALIGN_MASK :: u64 where "MALLOC_ALIGN_MASK = MALLOC_ALIGNMENT - 1"
definition MINSIZE :: u64 where "MINSIZE = 32"
definition INT_MAX :: u64 where "INT_MAX = 0x7fffffff"
definition ENOMEM :: u32 where "ENOMEM = 12"
definition PREV_INUSE :: u64 where "PREV_INUSE = 1"
definition SIZE_BITS :: u64 where "SIZE_BITS = 3"
definition malloc_getpagesize :: u64 where "malloc_getpagesize = 4096"

lemmas malloc_consts = SIZE_SZ_def MALLOC_ALIGNMENT_def MALLOC_ALIGN_MASK_def MINSIZE_def INT_MAX_def
  PREV_INUSE_def SIZE_BITS_def malloc_getpagesize_def

definition request2size :: "u64 \<Rightarrow> u64" where
  "request2size req =
     (if req + (SIZE_SZ + MALLOC_ALIGN_MASK) < MINSIZE + MALLOC_ALIGN_MASK
      then (MINSIZE + MALLOC_ALIGN_MASK) AND NOT MALLOC_ALIGN_MASK
      else (req + (SIZE_SZ + MALLOC_ALIGN_MASK)) AND NOT MALLOC_ALIGN_MASK)"

subsection \<open>Chunks\<close>

definition chunk2mem :: "u64 \<Rightarrow> u64" where "chunk2mem p = p + 2 * SIZE_SZ"
definition mem2chunk :: "u64 \<Rightarrow> u64" where "mem2chunk mem = mem - 2 * SIZE_SZ"

text \<open>The fields of \<open>struct malloc_chunk\<close>: \<open>prev_size\<close>, \<open>size\<close>, \<open>fd\<close> and \<open>bk\<close>.\<close>

definition prev_size :: "'h mstate \<Rightarrow> u64 \<Rightarrow> u64" where "prev_size s p = mlong s p"
definition head :: "'h mstate \<Rightarrow> u64 \<Rightarrow> u64" where "head s p = mlong s (p + 8)"
definition fd :: "'h mstate \<Rightarrow> u64 \<Rightarrow> u64" where "fd s p = mlong s (p + 16)"
definition bk :: "'h mstate \<Rightarrow> u64 \<Rightarrow> u64" where "bk s p = mlong s (p + 24)"

definition set_long :: "u64 \<Rightarrow> u64 \<Rightarrow> 'h mstate \<Rightarrow> 'h mstate" where
  "set_long a v s = s\<lparr>mlong := (mlong s)(a := v)\<rparr>"

definition set_head :: "u64 \<Rightarrow> u64 \<Rightarrow> 'h mstate \<Rightarrow> 'h mstate" where "set_head p v s = set_long (p + 8) v s"
definition set_fd :: "u64 \<Rightarrow> u64 \<Rightarrow> 'h mstate \<Rightarrow> 'h mstate" where "set_fd p v s = set_long (p + 16) v s"
definition set_bk :: "u64 \<Rightarrow> u64 \<Rightarrow> 'h mstate \<Rightarrow> 'h mstate" where "set_bk p v s = set_long (p + 24) v s"

definition set_foot :: "u64 \<Rightarrow> u64 \<Rightarrow> 'h mstate \<Rightarrow> 'h mstate" where
  "set_foot p sz s = set_long (p + sz) sz s"

definition chunksize :: "'h mstate \<Rightarrow> u64 \<Rightarrow> u64" where
  "chunksize s p = head s p AND NOT SIZE_BITS"

definition next_chunk :: "'h mstate \<Rightarrow> u64 \<Rightarrow> u64" where
  "next_chunk s p = p + (head s p AND NOT PREV_INUSE)"

definition prev_chunk :: "'h mstate \<Rightarrow> u64 \<Rightarrow> u64" where
  "prev_chunk s p = p - prev_size s p"

definition chunk_at_offset :: "u64 \<Rightarrow> u64 \<Rightarrow> u64" where
  "chunk_at_offset p sz = p + sz"

definition prev_inuse :: "'h mstate \<Rightarrow> u64 \<Rightarrow> bool" where
  "prev_inuse s p \<longleftrightarrow> head s p AND PREV_INUSE \<noteq> 0"

definition inuse :: "'h mstate \<Rightarrow> u64 \<Rightarrow> bool" where
  "inuse s p \<longleftrightarrow> head s (next_chunk s p) AND PREV_INUSE \<noteq> 0"

definition inuse_bit_at_offset :: "'h mstate \<Rightarrow> u64 \<Rightarrow> u64 \<Rightarrow> bool" where
  "inuse_bit_at_offset s p sz \<longleftrightarrow> head s (p + sz) AND PREV_INUSE \<noteq> 0"

definition set_inuse_bit_at_offset :: "u64 \<Rightarrow> u64 \<Rightarrow> 'h mstate \<Rightarrow> 'h mstate" where
  "set_inuse_bit_at_offset p sz s = set_head (p + sz) (head s (p + sz) OR PREV_INUSE) s"

definition set_head_size :: "u64 \<Rightarrow> u64 \<Rightarrow> 'h mstate \<Rightarrow> 'h mstate" where
  "set_head_size p sz s = set_head p ((head s p AND PREV_INUSE) OR sz) s"

subsection \<open>Bins\<close>

definition NAV :: nat where "NAV = 128"
definition MAX_SMALLBIN_SIZE :: u64 where "MAX_SMALLBIN_SIZE = 512"
definition SMALLBIN_WIDTH :: u64 where "SMALLBIN_WIDTH = 8"
definition BINBLOCKWIDTH :: nat where "BINBLOCKWIDTH = 4"

definition bin_at :: "'h mstate \<Rightarrow> nat \<Rightarrow> u64" where
  "bin_at s i = av s + 8 * of_nat (2 * i + 2) - 2 * SIZE_SZ"

definition next_bin :: "u64 \<Rightarrow> u64" where "next_bin b = b + 2 * 8"
definition prev_bin :: "u64 \<Rightarrow> u64" where "prev_bin b = b - 2 * 8"

definition top :: "'h mstate \<Rightarrow> u64" where "top s = fd s (bin_at s 0)"
definition set_top :: "u64 \<Rightarrow> 'h mstate \<Rightarrow> 'h mstate" where "set_top p s = set_fd (bin_at s 0) p s"
definition last_remainder :: "'h mstate \<Rightarrow> u64" where "last_remainder s = bin_at s 1"
definition initial_top :: "'h mstate \<Rightarrow> u64" where "initial_top s = bin_at s 0"

definition bin_index :: "u64 \<Rightarrow> nat" where
  "bin_index sz =
     (if drop_bit 9 sz = 0 then unat (drop_bit 3 sz)
      else if drop_bit 9 sz \<le> 4 then 56 + unat (drop_bit 6 sz)
      else if drop_bit 9 sz \<le> 20 then 91 + unat (drop_bit 9 sz)
      else if drop_bit 9 sz \<le> 84 then 110 + unat (drop_bit 12 sz)
      else if drop_bit 9 sz \<le> 340 then 119 + unat (drop_bit 15 sz)
      else if drop_bit 9 sz \<le> 1364 then 124 + unat (drop_bit 18 sz)
      else 126)"

definition smallbin_index :: "u64 \<Rightarrow> nat" where
  "smallbin_index sz = unat (drop_bit 3 sz)"

definition is_small_request :: "u64 \<Rightarrow> bool" where
  "is_small_request nb \<longleftrightarrow> nb < MAX_SMALLBIN_SIZE - SMALLBIN_WIDTH"

definition binblocks :: "'h mstate \<Rightarrow> u64" where "binblocks s = head s (bin_at s 0)"

definition idx2binblock :: "nat \<Rightarrow> u64" where
  "idx2binblock ix = push_bit (ix div BINBLOCKWIDTH) 1"

definition set_binblocks :: "u64 \<Rightarrow> 'h mstate \<Rightarrow> 'h mstate" where
  "set_binblocks b s = set_head (bin_at s 0) b s"

definition mark_binblock :: "nat \<Rightarrow> 'h mstate \<Rightarrow> 'h mstate" where
  "mark_binblock ii s = set_binblocks (binblocks s OR idx2binblock ii) s"

text \<open>The statics before the first call: each cell of \<open>av_\<close> behind the first two points to the bin it
  belongs to.\<close>

definition av_init :: "u64 \<Rightarrow> u64 \<Rightarrow> u64" where
  "av_init a j = (if j < 2 then 0 else a + 8 * (j - j mod 2) - 2 * SIZE_SZ)"

definition malloc_init :: "u64 \<Rightarrow> longs \<Rightarrow> 'h \<Rightarrow> 'h mstate" where
  "malloc_init a m h =
     \<lparr>mlong = (\<lambda>x. if x - a < 8 * of_nat (2 * NAV + 2) then av_init a ((x - a) div 8) else m x),
      av = a, sbrk_base = - 1, trim_threshold = 128 * 1024, top_pad = 0, sbrked_mem = 0,
      max_sbrked_mem = 0, max_total_mem = 0, rerrno = 0, lock_depth = 0, system = h\<rparr>"

definition MALLOC_LOCK :: "'h mstate \<Rightarrow> 'h mstate" where "MALLOC_LOCK s = s\<lparr>lock_depth := lock_depth s + 1\<rparr>"
definition MALLOC_UNLOCK :: "'h mstate \<Rightarrow> 'h mstate" where "MALLOC_UNLOCK s = s\<lparr>lock_depth := lock_depth s - 1\<rparr>"

definition MORECORE :: "'h morecore \<Rightarrow> u64 \<Rightarrow> 'h mstate \<Rightarrow> u64 \<times> 'h mstate" where
  "MORECORE mc sz s = (let (p, h) = mc sz (system s) in (p, s\<lparr>system := h\<rparr>))"

subsection \<open>Linking\<close>

fun frontlink_walk :: "nat \<Rightarrow> u64 \<Rightarrow> u64 \<Rightarrow> u64 \<Rightarrow> 'h mstate \<Rightarrow> u64 res" where
  "frontlink_walk 0 sz bck fwd s = Stop NoFuel"
| "frontlink_walk (Suc k) sz bck fwd s =
     (if fwd \<noteq> bck \<and> sz < chunksize s fwd then frontlink_walk k sz bck (fd s fwd) s else Ok fwd)"

text \<open>\<open>P->bk = BK; P->fd = FD; FD->bk = BK->fd = P\<close>\<close>

definition link_between :: "u64 \<Rightarrow> u64 \<Rightarrow> u64 \<Rightarrow> 'h mstate \<Rightarrow> 'h mstate" where
  "link_between p bck fwd s = set_bk fwd p (set_fd bck p (set_fd p fwd (set_bk p bck s)))"

definition frontlink :: "nat \<Rightarrow> u64 \<Rightarrow> u64 \<Rightarrow> 'h mstate \<Rightarrow> 'h mstate res" where
  "frontlink k p sz s =
     (if sz < MAX_SMALLBIN_SIZE
      then let idx = smallbin_index sz; s = mark_binblock idx s; bck = bin_at s idx
        in Ok (link_between p bck (fd s bck) s)
      else let idx = bin_index sz; bck = bin_at s idx; fwd = fd s bck
        in if fwd = bck then Ok (link_between p bck fwd (mark_binblock idx s))
           else bnd (frontlink_walk k sz bck fwd s) (\<lambda>fwd. Ok (link_between p (bk s fwd) fwd s)))"

definition unlink :: "u64 \<Rightarrow> 'h mstate \<Rightarrow> 'h mstate" where
  "unlink p s = (let bck = bk s p; fwd = fd s p in set_fd bck fwd (set_bk fwd bck s))"

definition link_last_remainder :: "u64 \<Rightarrow> 'h mstate \<Rightarrow> 'h mstate" where
  "link_last_remainder p s =
     (let lr = last_remainder s in set_fd p lr (set_bk p lr (set_fd lr p (set_bk lr p s))))"

definition clear_last_remainder :: "'h mstate \<Rightarrow> 'h mstate" where
  "clear_last_remainder s = (let lr = last_remainder s in set_fd lr lr (set_bk lr lr s))"

subsection \<open>Giving memory back\<close>

definition malloc_trim :: "'h morecore \<Rightarrow> u64 \<Rightarrow> 'h mstate \<Rightarrow> u32 \<times> 'h mstate" where
  "malloc_trim mc pad s =
     (let s = MALLOC_LOCK s; pagesz = malloc_getpagesize; top_size = chunksize s (top s);
          extra = ((top_size - pad - MINSIZE + (pagesz - 1)) div pagesz - 1) * pagesz
      in if extra <s pagesz then (0, MALLOC_UNLOCK s)
         else let (current_brk, s) = MORECORE mc 0 s
           in if current_brk \<noteq> top s + top_size then (0, MALLOC_UNLOCK s)
              else let (new_brk, s) = MORECORE mc (- extra) s
                in if new_brk = - 1
                   then let (current_brk, s) = MORECORE mc 0 s; top_size = current_brk - top s;
                            s = (if MINSIZE \<le>s top_size
                                 then set_head (top s) (top_size OR PREV_INUSE)
                                        (s\<lparr>sbrked_mem := current_brk - sbrk_base s\<rparr>)
                                 else s)
                        in (0, MALLOC_UNLOCK s)
                   else let s = set_head (top s) ((top_size - extra) OR PREV_INUSE) s;
                            s = s\<lparr>sbrked_mem := sbrked_mem s - extra\<rparr>
                        in (1, MALLOC_UNLOCK s))"

text \<open>\<open>fREe\<close>: into \<open>top\<close>, or merged with its neighbours and linked into a bin.\<close>

definition free_into_top :: "'h morecore \<Rightarrow> u64 \<Rightarrow> u64 \<Rightarrow> u64 \<Rightarrow> u64 \<Rightarrow> 'h mstate \<Rightarrow> 'h mstate" where
  "free_into_top mc p hdr sz nextsz s =
     (let sz = sz + nextsz;
          (p, sz, s) = (if hdr AND PREV_INUSE = 0
                        then let prevsz = prev_size s p; p = chunk_at_offset p (- prevsz)
                          in (p, sz + prevsz, unlink p s)
                        else (p, sz, s));
          s = set_top p (set_head p (sz OR PREV_INUSE) s)
      in MALLOC_UNLOCK (if trim_threshold s \<le> sz then snd (malloc_trim mc (top_pad s) s) else s))"

definition free_backward :: "u64 \<Rightarrow> u64 \<Rightarrow> u64 \<Rightarrow> 'h mstate \<Rightarrow> u64 \<times> u64 \<times> bool \<times> 'h mstate" where
  "free_backward p hdr sz s =
     (if hdr AND PREV_INUSE = 0
      then let prevsz = prev_size s p; p = chunk_at_offset p (- prevsz); sz = sz + prevsz
        in if fd s p = last_remainder s then (p, sz, True, s) else (p, sz, False, unlink p s)
      else (p, sz, False, s))"

definition free_forward :: "u64 \<Rightarrow> u64 \<Rightarrow> u64 \<Rightarrow> u64 \<Rightarrow> bool \<Rightarrow> 'h mstate \<Rightarrow> u64 \<times> bool \<times> 'h mstate" where
  "free_forward nxt nextsz p sz islr s =
     (if \<not> inuse_bit_at_offset s nxt nextsz
      then if \<not> islr \<and> fd s nxt = last_remainder s
           then (sz + nextsz, True, link_last_remainder p s)
           else (sz + nextsz, islr, unlink nxt s)
      else (sz, islr, s))"

definition fREe :: "'h morecore \<Rightarrow> nat \<Rightarrow> u64 \<Rightarrow> 'h mstate \<Rightarrow> 'h mstate res" where
  "fREe mc k mem s =
     (if mem = 0 then Ok s
      else let s = MALLOC_LOCK s; p = mem2chunk mem; hdr = head s p; sz = hdr AND NOT PREV_INUSE;
               nxt = chunk_at_offset p sz; nextsz = chunksize s nxt
        in if nxt = top s then Ok (free_into_top mc p hdr sz nextsz s)
           else let s = set_head nxt nextsz s;
                    (p, sz, islr, s) = free_backward p hdr sz s;
                    (sz, islr, s) = free_forward nxt nextsz p sz islr s;
                    s = set_foot p sz (set_head p (sz OR PREV_INUSE) s)
             in bnd (if islr then Ok s else frontlink k p sz s) (\<lambda>s. Ok (MALLOC_UNLOCK s)))"

subsection \<open>Extending the top\<close>

definition count_mem :: "'h mstate \<Rightarrow> 'h mstate" where
  "count_mem s =
     (let s = (if max_sbrked_mem s < sbrked_mem s then s\<lparr>max_sbrked_mem := sbrked_mem s\<rparr> else s)
      in if max_total_mem s < sbrked_mem s then s\<lparr>max_total_mem := sbrked_mem s\<rparr> else s)"

text \<open>Memory that does not follow the old top: a new top, and fence posts behind the old one.\<close>

definition fence_old_top :: "'h morecore \<Rightarrow> nat \<Rightarrow> u64 \<Rightarrow> u64 \<Rightarrow> 'h mstate \<Rightarrow> 'h mstate res" where
  "fence_old_top mc k old_top old_top_size s =
     (if old_top_size < MINSIZE then Ok (set_head (top s) PREV_INUSE s)
      else let old_top_size = (old_top_size - 3 * SIZE_SZ) AND NOT MALLOC_ALIGN_MASK;
               s = set_head_size old_top old_top_size s;
               s = set_head (old_top + old_top_size) (SIZE_SZ OR PREV_INUSE) s;
               s = set_head (old_top + old_top_size + SIZE_SZ) (SIZE_SZ OR PREV_INUSE) s
        in bnd (if MINSIZE \<le> old_top_size then fREe mc k (chunk2mem old_top) s else Ok s) (\<lambda>s. Ok (count_mem s)))"

definition new_top :: "'h morecore \<Rightarrow> nat \<Rightarrow> u64 \<Rightarrow> u64 \<Rightarrow> u64 \<Rightarrow> u64 \<Rightarrow> u64 \<Rightarrow> 'h mstate \<Rightarrow> 'h mstate res" where
  "new_top mc k old_top old_top_size old_end brk sbrk_size s =
     (let s = (if sbrk_base s = - 1 then s\<lparr>sbrk_base := brk\<rparr>
               else s\<lparr>sbrked_mem := sbrked_mem s + (brk - old_end)\<rparr>);
          pagesz = malloc_getpagesize;
          front_misalign = chunk2mem brk AND MALLOC_ALIGN_MASK;
          (brk, correction) = (if 0 < front_misalign
                               then (brk + (MALLOC_ALIGNMENT - front_misalign), MALLOC_ALIGNMENT - front_misalign)
                               else (brk, 0));
          correction = (correction + (pagesz - ((brk + sbrk_size) AND (pagesz - 1)))) AND (pagesz - 1);
          (new_brk, s) = MORECORE mc correction s;
          (new_brk, correction) = (if new_brk = - 1
                                   then (if 0 < front_misalign then brk + sbrk_size - (MALLOC_ALIGNMENT - front_misalign)
                                         else brk + sbrk_size, 0)
                                   else (new_brk, correction));
          s = s\<lparr>sbrked_mem := sbrked_mem s + correction\<rparr>;
          s = set_top brk s;
          top_size = new_brk - brk + correction;
          s = set_head (top s) (top_size OR PREV_INUSE) s
      in if old_top = initial_top s then Ok (count_mem s) else fence_old_top mc k old_top old_top_size s)"

definition malloc_extend_top :: "'h morecore \<Rightarrow> nat \<Rightarrow> u64 \<Rightarrow> 'h mstate \<Rightarrow> 'h mstate res" where
  "malloc_extend_top mc k nb s =
     (let old_top = top s; old_top_size = chunksize s old_top; old_end = chunk_at_offset old_top old_top_size;
          pagesz = malloc_getpagesize;
          sbrk_size = nb + top_pad s + MINSIZE;
          sbrk_size = (if sbrk_base s \<noteq> - 1 then (sbrk_size + (pagesz - 1)) AND NOT (pagesz - 1) else sbrk_size);
          (brk, s) = MORECORE mc sbrk_size s
      in if brk = - 1 \<or> (brk < old_end \<and> old_top \<noteq> initial_top s) then Ok s
         else let s = s\<lparr>sbrked_mem := sbrked_mem s + sbrk_size\<rparr>
           in if brk = old_end \<and> old_end AND (pagesz - 1) = 0
              then Ok (count_mem (set_head (top s) ((sbrk_size + old_top_size) OR PREV_INUSE) s))
              else new_top mc k old_top old_top_size old_end brk sbrk_size s)"

subsection \<open>malloc\<close>

text \<open>A whole chunk is handed out, or split with the rest as the last remainder.\<close>

definition take_chunk :: "u64 \<Rightarrow> 'h mstate \<Rightarrow> u64 \<times> 'h mstate" where
  "take_chunk victim s =
     (let victim_size = chunksize s victim;
          s = set_inuse_bit_at_offset victim victim_size (unlink victim s)
      in (chunk2mem victim, MALLOC_UNLOCK s))"

definition small_exact :: "u64 \<Rightarrow> 'h mstate \<Rightarrow> u64 option" where
  "small_exact nb s =
     (let q = bin_at s (smallbin_index nb); victim = bk s q;
          (q, victim) = (if victim = q then (next_bin q, bk s (next_bin q)) else (q, victim))
      in if victim \<noteq> q then Some victim else None)"

datatype scan = Nothing | Too_big | Fits u64

fun large_exact :: "nat \<Rightarrow> u64 \<Rightarrow> u64 \<Rightarrow> u64 \<Rightarrow> 'h mstate \<Rightarrow> scan res" where
  "large_exact 0 nb bin victim s = Stop NoFuel"
| "large_exact (Suc k) nb bin victim s =
     (if victim = bin then Ok Nothing
      else let remainder_size = chunksize s victim - nb
        in if MINSIZE \<le>s remainder_size then Ok Too_big
           else if 0 \<le>s remainder_size then Ok (Fits victim)
           else large_exact k nb bin (bk s victim) s)"

text \<open>The exact fit, or the index of the first bin to be searched.\<close>

definition exact_fit :: "nat \<Rightarrow> u64 \<Rightarrow> 'h mstate \<Rightarrow> (u64 option \<times> nat) res" where
  "exact_fit k nb s =
     (if is_small_request nb then Ok (small_exact nb s, smallbin_index nb + 2)
      else let idx = bin_index nb; bin = bin_at s idx
        in bnd (large_exact k nb bin (bk s bin) s) (\<lambda>r. Ok (case r of
             Nothing \<Rightarrow> (None, idx + 1) | Too_big \<Rightarrow> (None, (idx - 1) + 1) | Fits victim \<Rightarrow> (Some victim, idx))))"

definition split_remainder :: "u64 \<Rightarrow> u64 \<Rightarrow> u64 \<Rightarrow> 'h mstate \<Rightarrow> u64 \<times> 'h mstate" where
  "split_remainder victim nb remainder_size s =
     (let remainder = chunk_at_offset victim nb; s = link_last_remainder remainder s;
          s = set_head remainder (remainder_size OR PREV_INUSE) s;
          s = set_foot remainder remainder_size s
      in (chunk2mem victim, MALLOC_UNLOCK s))"

text \<open>The last remainder is split again, used up, or moved to its bin.\<close>

definition try_last_remainder :: "nat \<Rightarrow> u64 \<Rightarrow> 'h mstate \<Rightarrow> (u64 option \<times> 'h mstate) res" where
  "try_last_remainder k nb s =
     (let victim = fd s (last_remainder s)
      in if victim = last_remainder s then Ok (None, s)
         else let victim_size = chunksize s victim; remainder_size = victim_size - nb
           in if MINSIZE \<le>s remainder_size
              then let (mem, s) = split_remainder victim nb remainder_size (set_head victim (nb OR PREV_INUSE) s)
                in Ok (Some mem, s)
              else let s = clear_last_remainder s
                in if 0 \<le>s remainder_size
                   then Ok (Some (chunk2mem victim), MALLOC_UNLOCK (set_inuse_bit_at_offset victim victim_size s))
                   else bnd (frontlink k victim victim_size s) (\<lambda>s. Ok (None, s)))"

fun scan_bin :: "nat \<Rightarrow> u64 \<Rightarrow> u64 \<Rightarrow> u64 \<Rightarrow> 'h mstate \<Rightarrow> u64 option res" where
  "scan_bin 0 nb bin victim s = Stop NoFuel"
| "scan_bin (Suc k) nb bin victim s =
     (if victim = bin then Ok None
      else if 0 \<le>s chunksize s victim - nb then Ok (Some victim)
      else scan_bin k nb bin (bk s victim) s)"

text \<open>The bins from \<open>idx\<close> to the end of its block; the loop body runs at least once.\<close>

function scan_block :: "nat \<Rightarrow> u64 \<Rightarrow> nat \<Rightarrow> u64 \<Rightarrow> 'h mstate \<Rightarrow> (u64 option \<times> nat) res" where
  "scan_block k nb idx bin s =
     bnd (scan_bin k nb bin (bk s bin) s) (\<lambda>r. case r of
       Some victim \<Rightarrow> Ok (Some victim, idx)
     | None \<Rightarrow> if (idx + 1) mod BINBLOCKWIDTH \<noteq> 0 then scan_block k nb (idx + 1) (next_bin bin) s
               else Ok (None, idx + 1))"
  by pat_completeness auto
termination
  by (relation "measure (\<lambda>(k, nb, idx, bin, s). 4 - idx mod 4)") (auto simp: BINBLOCKWIDTH_def mod_Suc split: if_splits)

declare scan_block.simps [simp del]

function clear_block :: "nat \<Rightarrow> u64 \<Rightarrow> u64 \<Rightarrow> 'h mstate \<Rightarrow> 'h mstate" where
  "clear_block startidx q block s =
     (if startidx mod BINBLOCKWIDTH = 0 then set_binblocks (binblocks s AND NOT block) s
      else let q = prev_bin q
        in if fd s q = q then clear_block (startidx - 1) q block s else s)"
  by pat_completeness auto
termination
  by (relation "measure (\<lambda>(startidx, q, block, s). startidx)") (auto simp: BINBLOCKWIDTH_def intro: Nat.gr0I)

declare clear_block.simps [simp del]

fun skip_blocks :: "nat \<Rightarrow> u64 \<Rightarrow> nat \<Rightarrow> u64 \<Rightarrow> (nat \<times> u64) res" where
  "skip_blocks 0 bblocks idx block = Stop NoFuel"
| "skip_blocks (Suc k) bblocks idx block =
     (if block AND bblocks = 0 then skip_blocks k bblocks (idx + BINBLOCKWIDTH) (push_bit 1 block) else Ok (idx, block))"

text \<open>The first chunk found is split or taken.\<close>

definition use_found :: "u64 \<Rightarrow> u64 \<Rightarrow> 'h mstate \<Rightarrow> u64 \<times> 'h mstate" where
  "use_found nb victim s =
     (let victim_size = chunksize s victim; remainder_size = victim_size - nb
      in if MINSIZE \<le>s remainder_size
         then split_remainder victim nb remainder_size (unlink victim (set_head victim (nb OR PREV_INUSE) s))
         else (chunk2mem victim, MALLOC_UNLOCK (unlink victim (set_inuse_bit_at_offset victim victim_size s))))"

fun search_blocks :: "nat \<Rightarrow> nat \<Rightarrow> u64 \<Rightarrow> nat \<Rightarrow> u64 \<Rightarrow> 'h mstate \<Rightarrow> (u64 option \<times> 'h mstate) res" where
  "search_blocks 0 k nb idx block s = Stop NoFuel"
| "search_blocks (Suc j) k nb idx block s =
     bnd (scan_block k nb idx (bin_at s idx) s) (\<lambda>r. case r of
       (Some victim, _) \<Rightarrow> let (mem, s) = use_found nb victim s in Ok (Some mem, s)
     | (None, idx') \<Rightarrow>
         let s = clear_block idx (bin_at s idx) block s; block = push_bit 1 block
         in if block \<le> binblocks s \<and> block \<noteq> 0
            then bnd (skip_blocks k (binblocks s) idx' block) (\<lambda>(idx, block). search_blocks j k nb idx block s)
            else Ok (None, s))"

definition search_bins :: "nat \<Rightarrow> u64 \<Rightarrow> nat \<Rightarrow> 'h mstate \<Rightarrow> (u64 option \<times> 'h mstate) res" where
  "search_bins k nb idx s =
     (let block = idx2binblock idx
      in if block \<le> binblocks s
         then bnd (if block AND binblocks s = 0
                   then skip_blocks k (binblocks s) (idx - idx mod BINBLOCKWIDTH + BINBLOCKWIDTH) (push_bit 1 block)
                   else Ok (idx, block))
                (\<lambda>(idx, block). search_blocks k k nb idx block s)
         else Ok (None, s))"

definition top_too_small :: "u64 \<Rightarrow> 'h mstate \<Rightarrow> bool" where
  "top_too_small nb s \<longleftrightarrow> chunksize s (top s) < nb \<or> chunksize s (top s) - nb <s MINSIZE"

definition use_top :: "'h morecore \<Rightarrow> nat \<Rightarrow> u64 \<Rightarrow> 'h mstate \<Rightarrow> (u64 \<times> 'h mstate) res" where
  "use_top mc k nb s =
     bnd (if top_too_small nb s then malloc_extend_top mc k nb s else Ok s) (\<lambda>s.
       if top_too_small nb s then Ok (0, MALLOC_UNLOCK s)
       else let remainder_size = chunksize s (top s) - nb; victim = top s;
                s = set_head victim (nb OR PREV_INUSE) s;
                s = set_top (chunk_at_offset victim nb) s;
                s = set_head (top s) (remainder_size OR PREV_INUSE) s
            in Ok (chunk2mem victim, MALLOC_UNLOCK s))"

definition mALLOc :: "'h morecore \<Rightarrow> nat \<Rightarrow> u64 \<Rightarrow> 'h mstate \<Rightarrow> (u64 \<times> 'h mstate) res" where
  "mALLOc mc k bytes s =
     (let nb = request2size bytes
      in if INT_MAX < nb \<or> nb < bytes then Ok (0, s\<lparr>rerrno := ENOMEM\<rparr>)
         else let s = MALLOC_LOCK s
           in bnd (exact_fit k nb s) (\<lambda>(r, idx). case r of
                Some victim \<Rightarrow> Ok (take_chunk victim s)
              | None \<Rightarrow> bnd (try_last_remainder k nb s) (\<lambda>(r, s). case r of
                  Some mem \<Rightarrow> Ok (mem, s)
                | None \<Rightarrow> bnd (search_bins k nb idx s) (\<lambda>(r, s). case r of
                    Some mem \<Rightarrow> Ok (mem, s)
                  | None \<Rightarrow> use_top mc k nb s))))"

end
