(* ===== verification/Malloc_Ring.thy ===== *)
theory Malloc_Ring
  imports Malloc
begin

text \<open>
  Facts about the allocator's words and links that do not depend on the layout of the heap: sizes
  with a flag in their low bits, field addresses that cannot coincide, and circular doubly linked
  lists.  A set of nodes is a \<open>ring\<close> when \<open>fd\<close> and \<open>bk\<close> are inverse to each other on it; \<open>home\<close>
  gives the bin a node hangs on, and is the same along a list.
\<close>

subsection \<open>Sizes\<close>

definition aligned :: "u64 \<Rightarrow> bool" where "aligned x \<longleftrightarrow> 16 dvd unat x"

lemma aligned_mask: "aligned x \<longleftrightarrow> x AND mask 4 = 0"
  unfolding aligned_def and_mask_dvd_nat[symmetric] by simp

lemma aligned_add [intro]:
  assumes "aligned x" and "aligned y"
  shows "aligned (x + y)"
proof -
  have "(x + y) AND mask 4 = ((x AND mask 4) + (y AND mask 4)) AND mask 4" by (simp only: mask_eqs)
  then show ?thesis using assms unfolding aligned_mask by simp
qed

lemma aligned_diff [intro]:
  assumes "aligned x" and "aligned y"
  shows "aligned (x - y)"
proof -
  have "(x - y) AND mask 4 = ((x AND mask 4) - (y AND mask 4)) AND mask 4" by (simp only: mask_eqs)
  then show ?thesis using assms unfolding aligned_mask by simp
qed

lemma aligned_bit:
  assumes "aligned x" and "n < 4"
  shows "\<not> bit x n"
proof
  assume "bit x n"
  then have "bit (x AND mask 4) n" using assms(2) by (simp add: bit_simps)
  then show False using assms(1) unfolding aligned_mask by simp
qed

lemma aligned_numerals [simp]: "aligned 0" "aligned 16" "aligned 32" "aligned 4096"
  by (simp_all add: aligned_def)

lemma unat_add_small: "unat x + unat y < 2 ^ 64 \<Longrightarrow> unat (x + y :: u64) = unat x + unat y"
  by (simp add: unat_word_ariths)

lemma unat_sub_small: "unat y \<le> unat x \<Longrightarrow> unat (x - y :: u64) = unat x - unat y"
  by (simp add: unat_sub word_le_nat_alt)

lemma unat_and_not:
  "unat (x AND NOT (mask n) :: u64) = unat x - unat x mod 2 ^ n"
proof -
  have "x - take_bit n x = x AND NOT (take_bit n x)"
    by (rule disjunctive_diff) (simp add: bit_simps)
  moreover have "x AND NOT (take_bit n x) = x AND NOT (mask n)"
    by (rule bit_word_eqI) (auto simp: bit_simps)
  moreover have "unat (take_bit n x) = unat x mod 2 ^ n" by (metis unsigned_take_bit_eq take_bit_eq_mod)
  ultimately show ?thesis by (metis mod_less_eq_dividend unat_sub_small)
qed

lemma and_not_15: "x AND NOT 15 = x AND NOT (mask 4 :: u64)" by (simp add: mask_numeral)

lemma aligned_and_not_15: "aligned (x AND NOT 15)"
  unfolding and_not_15 aligned_def unat_and_not by (simp add: dvd_minus_mod)

text \<open>A head field: a size, and the flag of the chunk before.\<close>

lemma and_not_bits:
  assumes "aligned sz"
  shows "sz AND NOT 3 = sz" "sz AND NOT 1 = sz" "sz AND 1 = 0"
    "(sz OR 1) AND NOT 3 = sz" "(sz OR 1) AND NOT 1 = sz" "(sz OR 1) AND 1 = 1"
proof -
  have b: "\<not> bit sz 0" "\<not> bit sz 1" using aligned_bit[OF assms] by simp_all
  have m: "(3 :: u64) = mask 2" "(1 :: u64) = mask 1" by (simp_all add: mask_numeral)
  show "sz AND NOT 3 = sz" "sz AND NOT 1 = sz" "sz AND 1 = 0"
    "(sz OR 1) AND NOT 3 = sz" "(sz OR 1) AND NOT 1 = sz" "(sz OR 1) AND 1 = 1"
    unfolding m(1) using b
    by (auto intro!: bit_word_eqI simp: bit_simps less_2_cases_iff gr0_conv_Suc, (metis gr0_conv_Suc not0_implies_Suc)+)
qed

definition hsize :: "u64 \<Rightarrow> u64" where "hsize h = h AND NOT 1"
definition pbit :: "u64 \<Rightarrow> bool" where "pbit h \<longleftrightarrow> h AND 1 = 1"

lemma and_not_3:
  assumes "hsize x = sz" and "aligned sz"
  shows "x AND NOT 3 = sz"
proof -
  have "bit x 1 \<longleftrightarrow> bit sz 1" using assms(1) unfolding hsize_def by (auto simp: bit_simps)
  then have b: "\<not> bit x 1" using aligned_bit[OF assms(2)] by simp
  have "bit x n \<and> \<not> n < 2 \<longleftrightarrow> bit x n \<and> n \<noteq> 0" for n using b by (cases "n < 2") (auto simp: less_2_cases_iff)
  then have "x AND NOT (mask 2) = x AND NOT 1"
    by (intro bit_word_eqI) (auto simp: bit_simps)
  then have "x AND NOT 3 = x AND NOT 1" by (simp add: mask_numeral)
  then show ?thesis using assms(1) unfolding hsize_def by simp
qed

lemma hsize_or_1 [simp]: "hsize (x OR 1) = hsize x" "pbit (x OR 1)"
  unfolding hsize_def pbit_def by (auto intro!: bit_word_eqI simp: bit_simps)

lemma hsize_aligned [simp]: "aligned sz \<Longrightarrow> hsize sz = sz" "aligned sz \<Longrightarrow> \<not> pbit sz"
  using and_not_bits unfolding hsize_def pbit_def by auto

lemma pbit_odd: "pbit h \<longleftrightarrow> bit h 0"
proof
  assume "pbit h"
  then have "bit (h AND 1) 0" unfolding pbit_def by simp
  then show "bit h 0" by (simp add: bit_simps)
next
  assume "bit h 0"
  then show "pbit h" unfolding pbit_def by (auto intro!: bit_word_eqI simp: bit_simps)
qed

lemma and_1_zero: "h AND 1 = 0 \<longleftrightarrow> \<not> pbit h"
proof
  assume "\<not> pbit h"
  then show "h AND 1 = 0" unfolding pbit_odd by (auto intro!: bit_word_eqI simp: bit_simps)
qed (simp add: pbit_def)

lemma head_parts: "hsize (x AND 1 OR y) = hsize y" "pbit (x AND 1 OR y) \<longleftrightarrow> pbit x \<or> pbit y"
proof -
  show "hsize (x AND 1 OR y) = hsize y" unfolding hsize_def by (auto intro!: bit_word_eqI simp: bit_simps)
  show "pbit (x AND 1 OR y) \<longleftrightarrow> pbit x \<or> pbit y" unfolding pbit_odd by (simp add: bit_simps)
qed

lemma uint_less: "unat (z :: u64) < 2 ^ 63 \<Longrightarrow> uint z < 2 ^ 63"
  unfolding uint_nat by (metis of_nat_less_iff of_nat_numeral of_nat_power)

lemma sint_small: "unat z < 2 ^ 63 \<Longrightarrow> sint (z :: u64) = int (unat z)"
proof -
  assume "unat z < 2 ^ 63"
  then have "uint z < 2 ^ 63" by (rule uint_less)
  then have "signed_take_bit 63 (uint z) = uint z" using uint_ge_0[of z] by (intro signed_take_bit_int_eq_self; linarith)
  then show ?thesis by (simp add: sint_uint)
qed

lemma sint_diff:
  assumes "unat x < 2 ^ 63" and "unat y < 2 ^ 63"
  shows "sint (x - y :: u64) = int (unat x) - int (unat y)"
proof -
  have "x - y = word_of_int (int (unat x) - int (unat y))"
    by (simp add: wi_hom_syms)
  moreover have "sint (word_of_int (int (unat x) - int (unat y)) :: u64) = int (unat x) - int (unat y)"
    using uint_less[OF assms(1)] uint_less[OF assms(2)] uint_ge_0[of x] uint_ge_0[of y]
    by (intro sint_word_of_int_id; unfold uint_nat[symmetric]; linarith)
  ultimately show ?thesis by simp
qed

lemma sle_diff:
  assumes "unat x < 2 ^ 63" and "unat y < 2 ^ 63"
  shows "0 \<le>s x - y \<longleftrightarrow> unat y \<le> unat x" "MINSIZE \<le>s x - y \<longleftrightarrow> unat y + 32 \<le> unat x"
    "x - y <s MINSIZE \<longleftrightarrow> unat x < unat y + 32"
proof -
  have "sint (0 :: u64) = 0" "sint MINSIZE = 32" by (simp_all add: MINSIZE_def)
  then show "0 \<le>s x - y \<longleftrightarrow> unat y \<le> unat x" "MINSIZE \<le>s x - y \<longleftrightarrow> unat y + 32 \<le> unat x"
    "x - y <s MINSIZE \<longleftrightarrow> unat x < unat y + 32"
    unfolding word_sle_eq word_sless_alt sint_diff[OF assms] by linarith+
qed

subsection \<open>Requests\<close>

text \<open>A request that is not refused: room for the bytes and the next chunk's \<open>prev_size\<close>.\<close>

lemma request2size_ok:
  assumes "\<not> (INT_MAX < request2size bytes \<or> request2size bytes < bytes)"
  shows "aligned (request2size bytes)" "32 \<le> unat (request2size bytes)" "unat (request2size bytes) < 2 ^ 31"
    "unat bytes + 8 \<le> unat (request2size bytes)"
proof -
  let ?nb = "request2size bytes"
  have d: "?nb = (if bytes + 23 < 47 then 32 else (bytes + 23) AND NOT 15)"
    by (simp add: request2size_def malloc_consts)
  show "aligned ?nb" unfolding d using aligned_and_not_15[of "bytes + 23"] by (cases "bytes + 23 < 47") simp_all
  have le: "?nb \<le> INT_MAX" "bytes \<le> ?nb" using assms by auto
  then show lt: "unat ?nb < 2 ^ 31" by (simp add: INT_MAX_def word_le_nat_alt)
  have b: "unat bytes < 2 ^ 31" using le(2) lt unfolding word_le_nat_alt by linarith
  then have u: "unat (bytes + 23) = unat bytes + 23" by (subst unat_add_small) simp_all
  have "unat ?nb = (if unat bytes + 23 < 47 then 32 else unat bytes + 23 - (unat bytes + 23) mod 16)"
    using u unat_and_not[of "bytes + 23" 4, folded and_not_15] by (simp add: d word_less_nat_alt)
  moreover have "(unat bytes + 23) mod 16 < 16" by simp
  ultimately show "32 \<le> unat ?nb" "unat bytes + 8 \<le> unat ?nb" by (cases "unat bytes + 23 < 47"; simp; linarith)+
qed

subsection \<open>Rings\<close>

definition ring :: "(u64 \<Rightarrow> u64) \<Rightarrow> (u64 \<Rightarrow> u64) \<Rightarrow> (u64 \<Rightarrow> nat) \<Rightarrow> u64 set \<Rightarrow> bool" where
  "ring f g home N \<longleftrightarrow> (\<forall>p \<in> N. f p \<in> N \<and> g p \<in> N \<and> g (f p) = p \<and> f (g p) = p \<and> home (f p) = home p)"

lemma ringD:
  assumes "ring f g home N" and "p \<in> N"
  shows "f p \<in> N" "g p \<in> N" "g (f p) = p" "f (g p) = p" "home (f p) = home p" "home (g p) = home p"
proof -
  show "f p \<in> N" "g p \<in> N" "g (f p) = p" "f (g p) = p" "home (f p) = home p"
    using assms unfolding ring_def by blast+
  then show "home (g p) = home p" using assms unfolding ring_def by metis
qed

lemma ring_cong:
  assumes "ring f g home N" and "\<And>p. p \<in> N \<Longrightarrow> f' p = f p" and "\<And>p. p \<in> N \<Longrightarrow> g' p = g p"
    and "\<And>p. p \<in> N \<Longrightarrow> home' p = home p"
  shows "ring f' g' home' N"
  using assms unfolding ring_def by metis

lemma ring_iff:
  assumes "ring f g home N" and "p \<in> N" and "q \<in> N"
  shows "f q = p \<longleftrightarrow> q = g p" "g q = p \<longleftrightarrow> q = f p"
  using ringD(3,4)[OF assms(1,2)] ringD(3,4)[OF assms(1,3)] by auto

lemma ring_unlink:
  assumes "ring f g home N" and "p \<in> N"
    and "\<And>q. q \<in> N \<Longrightarrow> q \<noteq> p \<Longrightarrow> f' q = (if q = g p then f p else f q)"
    and "\<And>q. q \<in> N \<Longrightarrow> q \<noteq> p \<Longrightarrow> g' q = (if q = f p then g p else g q)"
  shows "ring f' g' home (N - {p})"
  unfolding ring_def
proof (rule ballI)
  fix q assume "q \<in> N - {p}"
  then have q: "q \<in> N" "q \<noteq> p" by auto
  note P = ringD[OF assms(1,2)] and Q = ringD[OF assms(1) q(1)]
  note ip = ring_iff[OF assms(1,2)] and iq = ring_iff[OF assms(1) q(1)]
  have F: "f' q \<in> N" "f' q \<noteq> p" "g' (f' q) = q" "home (f' q) = home q"
  proof -
    have "f' q \<in> N \<and> f' q \<noteq> p \<and> g' (f' q) = q \<and> home (f' q) = home q"
    proof (cases "q = g p")
      case True
      then have "f' q = f p" "f p \<noteq> p" using assms(3)[OF q] q(2) ip(2)[OF P(2)] P(3) by auto
      then show ?thesis using assms(4)[of "f p"] P True by simp
    next
      case False
      then have "f' q = f q" "f q \<noteq> p" "f q \<noteq> f p" using assms(3)[OF q] ip(1)[OF q(1)] Q(3) P(3) q(2) by auto
      then show ?thesis using assms(4)[of "f q"] Q by simp
    qed
    then show "f' q \<in> N" "f' q \<noteq> p" "g' (f' q) = q" "home (f' q) = home q" by auto
  qed
  have "g' q \<in> N \<and> g' q \<noteq> p \<and> f' (g' q) = q"
  proof (cases "q = f p")
    case True
    then have "g' q = g p" "g p \<noteq> p" using assms(4)[OF q] q(2) P(4) by auto
    then show ?thesis using assms(3)[of "g p"] P True by simp
  next
    case False
    then have "g' q = g q" "g q \<noteq> p" "g q \<noteq> g p" using assms(4)[OF q] ip(2)[OF q(1)] Q(4) P(4) q(2) by auto
    then show ?thesis using assms(3)[of "g q"] Q by simp
  qed
  then show "f' q \<in> N - {p} \<and> g' q \<in> N - {p} \<and> g' (f' q) = q \<and> f' (g' q) = q \<and> home (f' q) = home q"
    using F by blast
qed

lemma ring_link:
  assumes "ring f g home N" and "p \<notin> N" and "b \<in> N" and "c = f b"
    and "\<And>q. q \<in> insert p N \<Longrightarrow> f' q = (if q = b then p else if q = p then c else f q)"
    and "\<And>q. q \<in> insert p N \<Longrightarrow> g' q = (if q = c then p else if q = p then b else g q)"
  shows "ring f' g' (home(p := home b)) (insert p N)"
proof -
  note B = ringD[OF assms(1,3)]
  have c: "c \<in> N" "g c = b" "home c = home b" "c \<noteq> p" "b \<noteq> p" using B assms(2-4) by auto
  have P: "f' b = p" "f' p = c" "g' c = p" "g' p = b" using assms(5)[of b] assms(5)[of p] assms(6)[of c] assms(6)[of p] c assms(3) by auto
  have other: "f' q = f q" "f q \<noteq> p" "g' (f q) = q" if "q \<in> N" "q \<noteq> b" for q
  proof -
    have "q \<noteq> p" "f q \<in> N" using that assms(2) ringD[OF assms(1) that(1)] by auto
    then show "f' q = f q" "f q \<noteq> p" using that assms(5)[of q] assms(2) by auto
    have "f q \<noteq> c" using that ring_iff(1)[OF assms(1) c(1) that(1)] c(2) by auto
    then show "g' (f q) = q" using assms(6)[of "f q"] \<open>f q \<in> N\<close> \<open>f q \<noteq> p\<close> ringD(3)[OF assms(1) that(1)] by auto
  qed
  have other': "g' q = g q" "g q \<noteq> p" "f' (g q) = q" if "q \<in> N" "q \<noteq> c" for q
  proof -
    have "q \<noteq> p" "g q \<in> N" using that assms(2) ringD[OF assms(1) that(1)] by auto
    then show "g' q = g q" "g q \<noteq> p" using that assms(6)[of q] assms(2) by auto
    have "g q \<noteq> b" using that ring_iff(2)[OF assms(1) assms(3) that(1)] assms(4) by auto
    then show "f' (g q) = q" using assms(5)[of "g q"] \<open>g q \<in> N\<close> \<open>g q \<noteq> p\<close> ringD(4)[OF assms(1) that(1)] by auto
  qed
  show ?thesis
    unfolding ring_def
  proof (rule ballI)
    fix q assume q: "q \<in> insert p N"
    have "f' q \<in> insert p N \<and> g' (f' q) = q \<and> (home(p := home b)) (f' q) = (home(p := home b)) q"
    proof (cases "q = p \<or> q = b")
      case True
      then show ?thesis using P c assms(3) by auto
    next
      case False
      then have "q \<in> N" "q \<noteq> b" "q \<noteq> p" using q by auto
      then show ?thesis using other[of q] ringD[OF assms(1), of q] by simp
    qed
    moreover have "g' q \<in> insert p N \<and> f' (g' q) = q"
    proof (cases "q = p \<or> q = c")
      case True
      then show ?thesis using P c assms(3) by auto
    next
      case False
      then have "q \<in> N" "q \<noteq> c" using q by auto
      then show ?thesis using other'[of q] ringD[OF assms(1), of q] by simp
    qed
    ultimately show "f' q \<in> insert p N \<and> g' q \<in> insert p N \<and> g' (f' q) = q \<and> f' (g' q) = q \<and>
        (home(p := home b)) (f' q) = (home(p := home b)) q" by blast
  qed
qed

text \<open>Walking round a ring comes back to where it started.\<close>

lemma ring_funpow: "ring f g home N \<Longrightarrow> p \<in> N \<Longrightarrow> (g ^^ n) p \<in> N \<and> home ((g ^^ n) p) = home p"
proof (induction n)
  case (Suc n)
  then show ?case using ringD(2,6)[of f g home N "(g ^^ n) p"] by simp
qed simp

lemma ring_sym: "ring f g home N \<Longrightarrow> ring g f home N"
  using ringD unfolding ring_def[of g f] by simp

lemma ring_cancel: "ring f g home N \<Longrightarrow> p \<in> N \<Longrightarrow> (f ^^ n) ((g ^^ n) p) = p"
proof (induction n arbitrary: p)
  case (Suc n)
  then have "(f ^^ n) ((g ^^ n) (g p)) = g p" using ringD(2) by metis
  then show ?case using Suc.prems ringD(4)[OF Suc.prems] by (simp add: funpow_swap1)
qed simp

lemma ring_returns:
  assumes "ring f g home N" and "finite N" and "b \<in> N"
  shows "\<exists>n < card N. (g ^^ n) (g b) = b"
proof -
  have "\<not> inj_on (\<lambda>i. (g ^^ i) b) {..card N}"
  proof
    assume "inj_on (\<lambda>i. (g ^^ i) b) {..card N}"
    moreover have "(\<lambda>i. (g ^^ i) b) ` {..card N} \<subseteq> N" using ring_funpow[OF assms(1,3)] by auto
    ultimately have "card {..card N} \<le> card N" using card_inj_on_le assms(2) by blast
    then show False by simp
  qed
  then obtain i j where ij: "i < j" "j \<le> card N" "(g ^^ i) b = (g ^^ j) b"
    unfolding inj_on_def by (metis atMost_iff linorder_neqE_nat)
  have "(g ^^ j) b = (g ^^ i) ((g ^^ (j - i)) b)"
    using ij(1) by (simp add: funpow_add[symmetric, THEN fun_cong, simplified])
  then have "(f ^^ i) ((g ^^ i) b) = (f ^^ i) ((g ^^ i) ((g ^^ (j - i)) b))" using ij(3) by simp
  then have "b = (g ^^ (j - i)) b" using ring_cancel[OF assms(1)] ring_funpow[OF assms(1,3)] assms(3) by metis
  then have "(g ^^ (j - i - 1)) (g b) = b" using ij(1) by (metis Suc_diff_1 funpow_Suc_right o_apply zero_less_diff)
  moreover have "j - i - 1 < card N" using ij by linarith
  ultimately show ?thesis by blast
qed

end
