(* ===== verification/Malloc_Layout.thy ===== *)
theory Malloc_Layout
  imports Malloc_Ring
begin

text \<open>
  The layout of the heap as data of its own: a map from the address of each chunk to its size and
  whether it is in use.  The chunks tile the arena from its base to the top chunk.  The operations
  on the layout are splitting and merging chunks; the fields of different chunks and of the bins do
  not overlap.
\<close>

type_synonym chunks = "u64 \<Rightarrow> (u64 \<times> bool) option"

definition in_av :: "u64 \<Rightarrow> u64 \<Rightarrow> bool" where "in_av a x \<longleftrightarrow> x - a < 2064"

text \<open>The arena stays between \<open>lo\<close> and \<open>lim\<close>, outside the array of bins.\<close>

definition arena :: "u64 \<Rightarrow> nat \<Rightarrow> nat \<Rightarrow> bool" where
  "arena a lo lim \<longleftrightarrow> lim < 2 ^ 62 \<and> (\<forall>x. lo \<le> unat x \<and> unat x < lim \<longrightarrow> \<not> in_av a x)"

definition layout :: "u64 \<Rightarrow> u64 \<Rightarrow> chunks \<Rightarrow> bool" where
  "layout base tp cm \<longleftrightarrow>
     finite (dom cm) \<and> aligned base \<and> aligned tp \<and> unat base \<le> unat tp \<and>
     (\<forall>p sz u. cm p = Some (sz, u) \<longrightarrow> aligned p \<and> aligned sz \<and> 32 \<le> unat sz \<and> unat base \<le> unat p \<and>
        unat p + unat sz \<le> unat tp \<and> (p + sz = tp \<or> p + sz \<in> dom cm)) \<and>
     (\<forall>p sz u q. cm p = Some (sz, u) \<and> q \<in> dom cm \<and> unat p < unat q \<longrightarrow> unat p + unat sz \<le> unat q) \<and>
     (\<forall>q. q \<in> dom cm \<or> q = tp \<longrightarrow> q = base \<or> (\<exists>p sz u. cm p = Some (sz, u) \<and> p + sz = q))"

lemma layoutD:
  assumes "layout base tp cm" and "cm p = Some (sz, u)"
  shows "aligned p" "aligned sz" "32 \<le> unat sz" "unat base \<le> unat p" "unat p + unat sz \<le> unat tp"
    "p + sz = tp \<or> p + sz \<in> dom cm" "unat (p + sz) = unat p + unat sz" "p \<noteq> tp" "p + sz \<noteq> p"
proof -
  show *: "aligned p" "aligned sz" "32 \<le> unat sz" "unat base \<le> unat p" "unat p + unat sz \<le> unat tp"
    "p + sz = tp \<or> p + sz \<in> dom cm"
    using assms unfolding layout_def by blast+
  have "unat tp < 2 ^ 64" using unsigned_less[of tp] by simp
  then show "unat (p + sz) = unat p + unat sz" using * by (intro unat_add_small) linarith
  then show "p \<noteq> tp" "p + sz \<noteq> p" using * by auto
qed

lemma layout_finite: "layout base tp cm \<Longrightarrow> finite (dom cm)"
  unfolding layout_def by blast

lemma layout_base: "layout base tp cm \<Longrightarrow> aligned base \<and> aligned tp \<and> unat base \<le> unat tp"
  unfolding layout_def by blast

lemma layout_after:
  assumes "layout base tp cm" and "cm p = Some (sz, u)" and "cm q = Some (sz', u')" and "unat p < unat q"
  shows "unat p + unat sz \<le> unat q"
  using assms unfolding layout_def by blast

lemma layout_pred:
  assumes "layout base tp cm" and "q \<in> dom cm \<or> q = tp" and "q \<noteq> base"
  obtains p sz u where "cm p = Some (sz, u)" "p + sz = q"
  using assms unfolding layout_def by blast

text \<open>The chunk that ends at an address is unique.\<close>

lemma layout_pred_unique:
  assumes "layout base tp cm" and "cm p = Some (sz, u)" and "cm q = Some (sz', u')" and "p + sz = q + sz'"
  shows "p = q \<and> sz = sz' \<and> u = u'"
proof -
  note P = layoutD[OF assms(1,2)] and Q = layoutD[OF assms(1,3)]
  have e: "unat p + unat sz = unat q + unat sz'" using P(7) Q(7) assms(4) by simp
  have "p = q"
  proof (rule ccontr)
    assume "p \<noteq> q"
    then consider "unat p < unat q" | "unat q < unat p" by (metis linorder_neqE_nat word_unat_eq_iff)
    then show False
      using layout_after[OF assms(1,2,3)] layout_after[OF assms(1,3,2)] e P(3) Q(3) by cases linarith+
  qed
  then show ?thesis using assms(2,3) by simp
qed

lemma layout_disjoint:
  assumes "layout base tp cm" and "cm p = Some (sz, u)" and "cm q = Some (sz', u')" and "p \<noteq> q"
  shows "unat p + unat sz \<le> unat q \<or> unat q + unat sz' \<le> unat p"
  using layout_after[OF assms(1,2,3)] layout_after[OF assms(1,3,2)] assms(4)
  by (metis linorder_neqE_nat word_unat_eq_iff)

lemma layoutI:
  assumes "finite (dom cm)" and "aligned base" and "aligned tp" and "unat base \<le> unat tp"
    and "\<And>p sz u. cm p = Some (sz, u) \<Longrightarrow> aligned p \<and> aligned sz \<and> 32 \<le> unat sz \<and> unat base \<le> unat p \<and>
        unat p + unat sz \<le> unat tp \<and> (p + sz = tp \<or> p + sz \<in> dom cm)"
    and "\<And>p sz u q sz' u'. cm p = Some (sz, u) \<Longrightarrow> cm q = Some (sz', u') \<Longrightarrow> unat p < unat q \<Longrightarrow> unat p + unat sz \<le> unat q"
    and "\<And>q. q \<in> dom cm \<or> q = tp \<Longrightarrow> q = base \<or> (\<exists>p sz u. cm p = Some (sz, u) \<and> p + sz = q)"
  shows "layout base tp cm"
  unfolding layout_def using assms(1-5) assms(6,7) by (safe; blast?)

subsection \<open>Changing the layout\<close>

lemma layout_flag:
  assumes "layout base tp cm" and "cm p = Some (sz, u)"
  shows "layout base tp (cm(p \<mapsto> (sz, v)))"
proof (rule layoutI)
  show "finite (dom (cm(p \<mapsto> (sz, v))))" using layout_finite[OF assms(1)] by simp
next
  fix q s' w assume "(cm(p \<mapsto> (sz, v))) q = Some (s', w)"
  then obtain w' where "cm q = Some (s', w')" using assms(2) by (auto split: if_splits)
  then show "aligned q \<and> aligned s' \<and> 32 \<le> unat s' \<and> unat base \<le> unat q \<and>
        unat q + unat s' \<le> unat tp \<and> (q + s' = tp \<or> q + s' \<in> dom (cm(p \<mapsto> (sz, v))))"
    using layoutD[OF assms(1), of q s' w'] by simp blast?
next
  fix q s' w r s'' w' assume "(cm(p \<mapsto> (sz, v))) q = Some (s', w)" "(cm(p \<mapsto> (sz, v))) r = Some (s'', w')" "unat q < unat r"
  then show "unat q + unat s' \<le> unat r"
    using layout_after[OF assms(1)] assms(2) by (auto split: if_splits)
next
  fix q assume "q \<in> dom (cm(p \<mapsto> (sz, v))) \<or> q = tp"
  then have "q \<in> dom cm \<or> q = tp" using assms(2) by auto
  then show "q = base \<or> (\<exists>r s' w. (cm(p \<mapsto> (sz, v))) r = Some (s', w) \<and> r + s' = q)"
    using layout_pred[OF assms(1), of q] assms(2) by (metis fun_upd_apply option.inject prod.inject)
qed (use layout_base[OF assms(1)] in auto)

lemma layout_split:
  assumes "layout base tp cm" and "cm p = Some (sz, u)" and "aligned n" and "32 \<le> unat n" and "unat n + 32 \<le> unat sz"
  shows "layout base tp (cm(p \<mapsto> (n, v), p + n \<mapsto> (sz - n, w)))" "p + n \<notin> dom cm" "p + n \<noteq> tp" "p + n \<noteq> p"
proof -
  note P = layoutD[OF assms(1,2)]
  have tp: "unat tp < 2 ^ 64" using unsigned_less[of tp] by simp
  have un: "unat (p + n) = unat p + unat n" using P(5) assms(5) tp by (intro unat_add_small) linarith
  have us: "unat (sz - n) = unat sz - unat n" using assms(5) by (intro unat_sub_small) linarith
  have e: "p + n + (sz - n) = p + sz" by simp
  show pn: "p + n \<notin> dom cm"
  proof
    assume "p + n \<in> dom cm"
    then obtain s' w' where "cm (p + n) = Some (s', w')" by auto
    then show False using layout_after[OF assms(1,2)] un assms(4,5) by fastforce
  qed
  show "p + n \<noteq> tp" "p + n \<noteq> p" using un P(5) assms(4,5) by auto
  let ?c = "cm(p \<mapsto> (n, v), p + n \<mapsto> (sz - n, w))"
  show "layout base tp ?c"
  proof (rule layoutI)
    show "finite (dom ?c)" using layout_finite[OF assms(1)] by simp
  next
    fix q s' x assume q: "?c q = Some (s', x)"
    then consider "q = p + n" "s' = sz - n" | "q = p" "s' = n" | "q \<noteq> p" "q \<noteq> p + n" "cm q = Some (s', x)"
      by (auto split: if_splits)
    then show "aligned q \<and> aligned s' \<and> 32 \<le> unat s' \<and> unat base \<le> unat q \<and> unat q + unat s' \<le> unat tp \<and>
        (q + s' = tp \<or> q + s' \<in> dom ?c)"
    proof cases
      case 1
      then show ?thesis using P assms(3-5) un us e by auto
    next
      case 2
      then show ?thesis using P assms(3-5) un us by auto
    next
      case 3
      then show ?thesis using layoutD[OF assms(1) 3(3)] by auto
    qed
  next
    fix q s' x r s'' y assume qr: "?c q = Some (s', x)" "?c r = Some (s'', y)" "unat q < unat r"
    have old: "\<exists>s2 z. cm r = Some (s2, z)" if "r \<noteq> p + n" using that qr(2) assms(2) by (auto split: if_splits)
    consider "q = p + n" "s' = sz - n" | "q = p" "s' = n" "q \<noteq> p + n" | "q \<noteq> p" "q \<noteq> p + n" "cm q = Some (s', x)"
      using qr(1) by (auto split: if_splits)
    then show "unat q + unat s' \<le> unat r"
    proof cases
      case 1
      then have "r \<noteq> p + n" using qr(3) by auto
      then obtain s2 z where r: "cm r = Some (s2, z)" using old by blast
      have "unat p < unat r" using qr(3) 1 un by simp
      then show ?thesis using layout_after[OF assms(1,2) r] 1 un us assms(5) by simp
    next
      case 2
      show ?thesis
      proof (cases "r = p + n")
        case True
        then show ?thesis using 2 un by simp
      next
        case False
        then obtain s2 z where r: "cm r = Some (s2, z)" using old by blast
        then show ?thesis using layout_after[OF assms(1,2) r] qr(3) 2 assms(5) by simp
      qed
    next
      case 3
      show ?thesis
      proof (cases "r = p + n")
        case True
        have "unat q < unat p \<or> unat p < unat q" using 3(1) by (metis linorder_neqE_nat word_unat_eq_iff)
        then show ?thesis
          using layout_after[OF assms(1) 3(3) assms(2)] layout_after[OF assms(1,2) 3(3)] True un qr(3) assms(5) by (elim disjE) simp_all
      next
        case False
        then obtain s2 z where r: "cm r = Some (s2, z)" using old by blast
        then show ?thesis using layout_after[OF assms(1) 3(3) r] qr(3) by simp
      qed
    qed
  next
    fix q assume q: "q \<in> dom ?c \<or> q = tp"
    show "q = base \<or> (\<exists>r s' x. ?c r = Some (s', x) \<and> r + s' = q)"
    proof (cases "q = p + n")
      case True
      then show ?thesis using pn \<open>p + n \<noteq> p\<close> by (intro disjI2 exI[of _ p] exI[of _ n] exI[of _ v]) auto
    next
      case False
      then have "q \<in> dom cm \<or> q = tp" using q assms(2) by auto
      then show ?thesis
      proof (cases "q = base")
        case nb: False
        obtain r s' x where r: "cm r = Some (s', x)" "r + s' = q"
          using layout_pred[OF assms(1) \<open>q \<in> dom cm \<or> q = tp\<close> nb] by blast
        show ?thesis
        proof (cases "r = p")
          case True
          then show ?thesis using r assms(2) e by (intro disjI2 exI[of _ "p + n"] exI[of _ "sz - n"] exI[of _ w]) auto
        next
          case False
          then show ?thesis using r pn by (intro disjI2 exI[of _ r] exI[of _ s'] exI[of _ x]) auto
        qed
      qed simp
    qed
  qed (use layout_base[OF assms(1)] in auto)
qed

lemma layout_merge:
  assumes "layout base tp cm" and "cm p = Some (a, u)" and "cm (p + a) = Some (b, v)"
  shows "layout base tp (cm(p + a := None, p \<mapsto> (a + b, w)))"
proof -
  note P = layoutD[OF assms(1,2)] and Q = layoutD[OF assms(1,3)]
  have tp: "unat tp < 2 ^ 64" using unsigned_less[of tp] by simp
  have u: "unat (a + b) = unat a + unat b" using P(7) Q(5) tp by (intro unat_add_small) linarith
  have e: "p + (a + b) = p + a + b" by simp
  let ?c = "cm(p + a := None, p \<mapsto> (a + b, w))"
  have next_ok: "q + s' = tp \<or> q + s' \<in> dom ?c" if "cm q = Some (s', x)" "q \<noteq> p" for q s' x
  proof -
    have "q + s' \<noteq> p + a" using layout_pred_unique[OF assms(1) that(1) assms(2)] that(2) by auto
    then show ?thesis using layoutD(6)[OF assms(1) that(1)] by auto
  qed
  have pb: "p + a + b = tp \<or> p + a + b \<in> dom ?c" using next_ok[OF assms(3)] P(9) by auto
  show "layout base tp ?c"
  proof (rule layoutI)
    show "finite (dom ?c)" using layout_finite[OF assms(1)] by simp
  next
    fix q s' x assume q: "?c q = Some (s', x)"
    show "aligned q \<and> aligned s' \<and> 32 \<le> unat s' \<and> unat base \<le> unat q \<and> unat q + unat s' \<le> unat tp \<and>
        (q + s' = tp \<or> q + s' \<in> dom ?c)"
    proof (cases "q = p")
      case True
      then show ?thesis using q P Q u pb e by (auto simp: add.assoc)
    next
      case False
      then have cq: "cm q = Some (s', x)" using q by (auto split: if_splits)
      then show ?thesis using layoutD(1-5)[OF assms(1) cq] next_ok[OF cq False] by simp
    qed
  next
    fix q s' x r s'' y assume qr: "?c q = Some (s', x)" "?c r = Some (s'', y)" "unat q < unat r"
    have r: "cm r = Some (s'', y) \<and> r \<noteq> p + a" if "r \<noteq> p" using qr(2) that by (auto split: if_splits)
    show "unat q + unat s' \<le> unat r"
    proof (cases "q = p")
      case True
      then have s': "s' = a + b" using qr(1) by simp
      have "r \<noteq> p" using qr(3) True by auto
      then have rr: "cm r = Some (s'', y)" "r \<noteq> p + a" using r by blast+
      have "unat p + unat a \<le> unat r" using layout_after[OF assms(1,2) rr(1)] qr(3) True by simp
      then have "unat (p + a) < unat r" using P(7) rr(2) by (simp add: order_less_le word_unat_eq_iff)
      then show ?thesis using layout_after[OF assms(1,3) rr(1)] P(7) True s' u by simp
    next
      case False
      then have q: "cm q = Some (s', x)" using qr(1) by (auto split: if_splits)
      show ?thesis
      proof (cases "r = p")
        case True
        then show ?thesis using layout_after[OF assms(1) q assms(2)] qr(3) by simp
      next
        case False
        then show ?thesis using layout_after[OF assms(1) q] r qr(3) by blast
      qed
    qed
  next
    fix q assume q: "q \<in> dom ?c \<or> q = tp"
    show "q = base \<or> (\<exists>r s' x. ?c r = Some (s', x) \<and> r + s' = q)"
    proof (cases "q = base")
      case False
      have "q \<in> dom cm \<or> q = tp" using q assms(2) by (auto split: if_splits)
      then obtain r s' x where r: "cm r = Some (s', x)" "r + s' = q" using layout_pred[OF assms(1) _ False] by blast
      show ?thesis
      proof (cases "r = p + a")
        case True
        then show ?thesis using r assms(3) e by (intro disjI2 exI[of _ p] exI[of _ "a + b"] exI[of _ w]) auto
      next
        case nr: False
        have "r \<noteq> p"
        proof
          assume "r = p"
          then have "q = p + a" using r assms(2) by simp
          then show False using q P(9) Q(8) by auto
        qed
        then show ?thesis using r nr by (intro disjI2 exI[of _ r] exI[of _ s'] exI[of _ x]) auto
      qed
    qed simp
  qed (use layout_base[OF assms(1)] in auto)
qed

lemma layout_top_split:
  assumes "layout base tp cm" and "aligned n" and "32 \<le> unat n" and "unat tp + unat n < 2 ^ 64"
  shows "layout base (tp + n) (cm(tp \<mapsto> (n, v)))" "tp \<notin> dom cm"
proof -
  have un: "unat (tp + n) = unat tp + unat n" using assms(4) by (rule unat_add_small)
  show nt: "tp \<notin> dom cm" using layoutD(8)[OF assms(1)] by auto
  let ?c = "cm(tp \<mapsto> (n, v))"
  have old: "q = tp \<and> s' = n \<or> q \<noteq> tp \<and> cm q = Some (s', x)" if "?c q = Some (s', x)" for q s' x
    using that by (auto split: if_splits)
  show "layout base (tp + n) ?c"
  proof (rule layoutI)
    show "finite (dom ?c)" using layout_finite[OF assms(1)] by simp
  next
    fix q s' x assume q: "?c q = Some (s', x)"
    show "aligned q \<and> aligned s' \<and> 32 \<le> unat s' \<and> unat base \<le> unat q \<and> unat q + unat s' \<le> unat (tp + n) \<and>
        (q + s' = tp + n \<or> q + s' \<in> dom ?c)"
    proof (cases "q = tp")
      case True
      then show ?thesis using q layout_base[OF assms(1)] assms(2,3) un by auto
    next
      case False
      then have "cm q = Some (s', x)" using q by simp
      note Q = layoutD[OF assms(1) this]
      then show ?thesis using un by auto
    qed
  next
    fix q s' x r s'' y assume qr: "?c q = Some (s', x)" "?c r = Some (s'', y)" "unat q < unat r"
    show "unat q + unat s' \<le> unat r"
      using old[OF qr(1)] old[OF qr(2)] qr(3) layout_after[OF assms(1), of q s' x r s'' y]
        layoutD(5)[OF assms(1), of q s' x] layoutD(5)[OF assms(1), of r s'' y] by auto
  next
    fix q assume q: "q \<in> dom ?c \<or> q = tp + n"
    show "q = base \<or> (\<exists>r s' x. ?c r = Some (s', x) \<and> r + s' = q)"
    proof (cases "q = tp + n")
      case True
      then show ?thesis by (intro disjI2 exI[of _ tp] exI[of _ n] exI[of _ v]) auto
    next
      case False
      then have "q \<in> dom cm \<or> q = tp" using q by auto
      then show ?thesis
        using layout_pred[OF assms(1), of q] layoutD(8)[OF assms(1)] by (metis fun_upd_other)
    qed
  qed (use layout_base[OF assms(1)] assms(2) un in auto)
qed

lemma layout_top_merge:
  assumes "layout base tp cm" and "cm p = Some (sz, u)" and "p + sz = tp"
  shows "layout base p (cm(p := None))"
proof -
  note P = layoutD[OF assms(1,2)]
  have bnd: "unat q + unat s' \<le> unat p" if "cm q = Some (s', x)" "q \<noteq> p" for q s' x
    using layout_disjoint[OF assms(1) that(1) assms(2) that(2)] layoutD(5,3)[OF assms(1) that(1)] P(3,5,7) assms(3) by auto
  let ?c = "cm(p := None)"
  show ?thesis
  proof (rule layoutI)
    show "finite (dom ?c)" using layout_finite[OF assms(1)] by simp
  next
    fix q s' x assume "?c q = Some (s', x)"
    then have q: "cm q = Some (s', x)" "q \<noteq> p" by (auto split: if_splits)
    note Q = layoutD[OF assms(1) q(1)]
    have "q + s' \<noteq> tp" using Q(7) bnd[OF q] P(3,7) assms(3) by auto
    then show "aligned q \<and> aligned s' \<and> 32 \<le> unat s' \<and> unat base \<le> unat q \<and> unat q + unat s' \<le> unat p \<and>
        (q + s' = p \<or> q + s' \<in> dom ?c)"
      using Q bnd[OF q] by auto
  next
    fix q s' x r s'' y assume "?c q = Some (s', x)" "?c r = Some (s'', y)" "unat q < unat r"
    then show "unat q + unat s' \<le> unat r" using layout_after[OF assms(1)] by (auto split: if_splits)
  next
    fix q assume "q \<in> dom ?c \<or> q = p"
    then have q: "q \<in> dom cm" "unat q \<le> unat p" using assms(2) bnd[of q] by (auto split: if_splits intro: add_leD1)
    show "q = base \<or> (\<exists>r s' x. ?c r = Some (s', x) \<and> r + s' = q)"
    proof (cases "q = base")
      case False
      then obtain r s' x where r: "cm r = Some (s', x)" "r + s' = q" using layout_pred[OF assms(1)] q(1) by blast
      moreover have "r \<noteq> p" using layoutD(7,3)[OF assms(1) r(1)] r(2) q(2) by auto
      ultimately show ?thesis by (intro disjI2 exI[of _ r] exI[of _ s'] exI[of _ x]) auto
    qed simp
  qed (use layout_base[OF assms(1)] P in auto)
qed

end
