(* ===== verification/Malloc_Fields.thy ===== *)
theory Malloc_Fields
  imports Malloc_Layout
begin

text \<open>
  Reading the fields of chunks and bins after the allocator's primitives have written some.  \<open>sep\<close>
  says that the fields of the chunks in a set do not overlap each other or the array of bins; the
  rewrite rules below are stated under it.
\<close>

definition sep :: "u64 \<Rightarrow> u64 set \<Rightarrow> bool" where
  "sep a H \<longleftrightarrow> (\<forall>p \<in> H. \<forall>q \<in> H. p \<noteq> q + 8 \<and> p \<noteq> q + 16 \<and> p \<noteq> q + 24) \<and>
     (\<forall>p \<in> H. \<not> in_av a p \<and> \<not> in_av a (p + 8) \<and> \<not> in_av a (p + 16) \<and> \<not> in_av a (p + 24))"

definition bins :: "u64 \<Rightarrow> u64 set" where
  "bins a = (\<lambda>i. a + 16 * of_nat i) ` {1..<128}"

definition nodes :: "u64 \<Rightarrow> u64 set \<Rightarrow> u64 set" where
  "nodes a H = H \<union> bins a"

lemma bin_at_eq: "bin_at s i = av s + 16 * of_nat i"
  by (simp add: bin_at_def SIZE_SZ_def algebra_simps)

lemma bin_at_in_bins: "1 \<le> i \<Longrightarrow> i < 128 \<Longrightarrow> bin_at s i \<in> bins (av s)"
  by (auto simp: bins_def bin_at_eq)

lemma finite_bins: "finite (bins a)" "card (bins a) \<le> 127"
  unfolding bins_def by (simp, rule order_trans[OF card_image_le]) simp_all

lemma aligned_16: "aligned (16 * of_nat i)"
proof (induction i)
  case (Suc i)
  have "(16 * of_nat (Suc i) :: u64) = 16 + 16 * of_nat i" by (simp add: algebra_simps)
  then show ?case using aligned_add[OF aligned_numerals(2) Suc.IH] by simp
qed simp

lemma in_av_off: "k < 2064 \<Longrightarrow> in_av a (a + of_nat k)"
proof -
  assume k: "k < 2064"
  then have "unat (of_nat k :: u64) = k" by (simp add: unat_of_nat)
  then show ?thesis using k by (simp add: in_av_def word_less_nat_alt)
qed

lemma in_av_bins: "b \<in> bins a \<Longrightarrow> in_av a (b + 16) \<and> in_av a (b + 24)"
proof -
  assume "b \<in> bins a"
  then obtain i where i: "i < 128" "b = a + 16 * of_nat i" unfolding bins_def by auto
  have e: "b + 16 = a + of_nat (16 * i + 16)" "b + 24 = a + of_nat (16 * i + 24)" by (simp_all add: i(2) algebra_simps)
  show ?thesis unfolding e using in_av_off[of "16 * i + 16" a] in_av_off[of "16 * i + 24" a] i(1) by simp
qed

lemma in_av_statics: "in_av a (a + 8)" "in_av a (a + 16)"
  using in_av_off[of 8 a] in_av_off[of 16 a] by simp_all

lemma offs: "(p :: u64) + 8 = q + 16 \<longleftrightarrow> p = q + 8" "(p :: u64) + 8 = q + 24 \<longleftrightarrow> p = q + 16"
  "(p :: u64) + 16 = q + 24 \<longleftrightarrow> p = q + 8"
proof -
  have "(p + 8 = q + 16) = (p + 8 = (q + 8) + 8)" "(p + 8 = q + 24) = (p + 8 = (q + 16) + 8)"
    "(p + 16 = q + 24) = (p + 16 = (q + 8) + 16)" by simp_all
  then show "p + 8 = q + 16 \<longleftrightarrow> p = q + 8" "p + 8 = q + 24 \<longleftrightarrow> p = q + 16" "p + 16 = q + 24 \<longleftrightarrow> p = q + 8"
    unfolding add_right_cancel by simp_all
qed

lemma sep_heap:
  assumes "sep a H" and "p \<in> H" and "q \<in> H"
  shows "p + 8 \<noteq> q + 16" "p + 8 \<noteq> q + 24" "p + 16 \<noteq> q + 24" "p \<noteq> q + 8" "p \<noteq> q + 16" "p \<noteq> q + 24"
  using assms unfolding sep_def offs by blast+

lemma sep_off_av:
  assumes "sep a H" and "p \<in> H" and "in_av a x"
  shows "p \<noteq> x" "p + 8 \<noteq> x" "p + 16 \<noteq> x" "p + 24 \<noteq> x"
  using assms unfolding sep_def by blast+

lemma bins_sep: "b \<in> bins a \<Longrightarrow> c \<in> bins a \<Longrightarrow> b + 16 \<noteq> c + 24"
proof
  assume "b \<in> bins a" "c \<in> bins a" and e: "b + 16 = c + 24"
  then obtain i j where ij: "b = a + 16 * of_nat i" "c = a + 16 * of_nat j" unfolding bins_def by auto
  have "b = c + 8" using e unfolding offs .
  then have "16 * of_nat i - 16 * of_nat j = (8 :: u64)" using ij by (simp add: algebra_simps)
  moreover have "aligned (16 * of_nat i - 16 * of_nat j)" using aligned_16 by blast
  ultimately show False by (simp add: aligned_def)
qed

lemma bins_statics: "b \<in> bins a \<Longrightarrow> a + 8 \<noteq> b + 16 \<and> a + 8 \<noteq> b + 24 \<and> a + 16 \<noteq> b + 16 \<and> a + 16 \<noteq> b + 24"
proof -
  assume "b \<in> bins a"
  then obtain i where i: "1 \<le> i" "i < 128" "b = a + 16 * of_nat i" unfolding bins_def by auto
  have e: "b + 16 = a + of_nat (16 * i + 16)" "b + 24 = a + of_nat (16 * i + 24)" "a + 8 = a + of_nat 8" "a + 16 = a + of_nat 16"
    by (simp_all add: i(3) algebra_simps)
  have inj: "a + of_nat j \<noteq> a + of_nat k" if "j < k" "k < 2064" for j k
  proof -
    have "unat (of_nat j :: u64) = j" "unat (of_nat k :: u64) = k" using that by (simp_all add: unat_of_nat)
    then show ?thesis using that by (metis add_left_cancel nat_neq_iff)
  qed
  show ?thesis unfolding e using i inj[of 8 "16 * i + 16"] inj[of 8 "16 * i + 24"] inj[of 16 "16 * i + 16"] inj[of 16 "16 * i + 24"]
    by auto
qed

lemma sep_nodes:
  assumes "sep a H" and "p \<in> nodes a H" and "q \<in> nodes a H"
  shows "p + 16 \<noteq> q + 24"
proof -
  consider "p \<in> H" "q \<in> H" | "p \<in> H" "q \<in> bins a" | "p \<in> bins a" "q \<in> H" | "p \<in> bins a" "q \<in> bins a"
    using assms(2,3) unfolding nodes_def by blast
  then show ?thesis
  proof cases
    case 1
    then show ?thesis using sep_heap[OF assms(1)] by blast
  next
    case 2
    then show ?thesis using sep_off_av[OF assms(1)] in_av_bins by blast
  next
    case 3
    then show ?thesis using sep_off_av[OF assms(1) 3(2)] in_av_bins[OF 3(1)] by metis
  next
    case 4
    then show ?thesis by (rule bins_sep)
  qed
qed

lemma sep_head_node:
  assumes "sep a H" and "p \<in> H" and "q \<in> nodes a H"
  shows "p + 8 \<noteq> q + 16" "p + 8 \<noteq> q + 24" "p \<noteq> q + 16" "p \<noteq> q + 24"
proof -
  have "p + 8 \<noteq> q + 16 \<and> p + 8 \<noteq> q + 24 \<and> p \<noteq> q + 16 \<and> p \<noteq> q + 24"
  proof (cases "q \<in> H")
    case True
    then show ?thesis using sep_heap[OF assms(1,2)] by blast
  next
    case False
    then have "q \<in> bins a" using assms(3) unfolding nodes_def by blast
    then show ?thesis using sep_off_av[OF assms(1,2)] in_av_bins by blast
  qed
  then show "p + 8 \<noteq> q + 16" "p + 8 \<noteq> q + 24" "p \<noteq> q + 16" "p \<noteq> q + 24" by blast+
qed

lemma sep_statics:
  assumes "sep a H"
  shows "p \<in> H \<Longrightarrow> a + 8 \<noteq> p" "p \<in> H \<Longrightarrow> a + 8 \<noteq> p + 8" "p \<in> H \<Longrightarrow> a + 16 \<noteq> p" "p \<in> H \<Longrightarrow> a + 16 \<noteq> p + 8"
    "q \<in> nodes a H \<Longrightarrow> a + 8 \<noteq> q + 16" "q \<in> nodes a H \<Longrightarrow> a + 8 \<noteq> q + 24"
    "q \<in> nodes a H \<Longrightarrow> a + 16 \<noteq> q + 16" "q \<in> nodes a H \<Longrightarrow> a + 16 \<noteq> q + 24" "a + 8 \<noteq> a + 16"
proof -
  show "a + 8 \<noteq> p" "a + 8 \<noteq> p + 8" "a + 16 \<noteq> p" "a + 16 \<noteq> p + 8" if "p \<in> H"
    using sep_off_av[OF assms that in_av_statics(1)] sep_off_av[OF assms that in_av_statics(2)] by metis+
  have "a + 8 \<noteq> q + 16 \<and> a + 8 \<noteq> q + 24 \<and> a + 16 \<noteq> q + 16 \<and> a + 16 \<noteq> q + 24" if "q \<in> nodes a H"
  proof (cases "q \<in> H")
    case True
    show ?thesis using sep_off_av[OF assms True in_av_statics(1)] sep_off_av[OF assms True in_av_statics(2)] by metis
  next
    case False
    then have "q \<in> bins a" using that unfolding nodes_def by blast
    then show ?thesis by (rule bins_statics)
  qed
  then show "q \<in> nodes a H \<Longrightarrow> a + 8 \<noteq> q + 16" "q \<in> nodes a H \<Longrightarrow> a + 8 \<noteq> q + 24"
    "q \<in> nodes a H \<Longrightarrow> a + 16 \<noteq> q + 16" "q \<in> nodes a H \<Longrightarrow> a + 16 \<noteq> q + 24" by blast+
  show "a + 8 \<noteq> a + 16" by simp
qed

lemmas sep_all = sep_heap sep_nodes sep_head_node sep_statics

subsection \<open>Statics\<close>

lemma mstate_simps [simp]:
  "av (set_long x v s) = av s" "bin_at (set_long x v s) i = bin_at s i" "last_remainder (set_long x v s) = last_remainder s"
  "system (set_long x v s) = system s" "sbrk_base (set_long x v s) = sbrk_base s" "top_pad (set_long x v s) = top_pad s"
  "trim_threshold (set_long x v s) = trim_threshold s" "lock_depth (set_long x v s) = lock_depth s"
  "rerrno (set_long x v s) = rerrno s"
  by (simp_all add: set_long_def bin_at_eq last_remainder_def)

lemma mlong_set_long: "mlong (set_long x v s) y = (if y = x then v else mlong s y)"
  by (simp add: set_long_def)

definition statics :: "'h mstate \<Rightarrow> 'h mstate \<Rightarrow> bool" where
  "statics s s' \<longleftrightarrow> av s' = av s \<and> sbrk_base s' = sbrk_base s \<and> system s' = system s \<and> top_pad s' = top_pad s \<and>
     trim_threshold s' = trim_threshold s \<and> lock_depth s' = lock_depth s \<and> rerrno s' = rerrno s"

lemma statics_refl [simp]: "statics s s" by (simp add: statics_def)
lemma statics_trans: "statics s s' \<Longrightarrow> statics s' s'' \<Longrightarrow> statics s s''" by (simp add: statics_def)
lemma statics_set_long [simp]: "statics s (set_long x v s') \<longleftrightarrow> statics s s'" by (simp add: statics_def)
lemma statics_av: "statics s s' \<Longrightarrow> av s' = av s" by (simp add: statics_def)

text \<open>Reading a field after a write, without the offsets.\<close>

lemmas writes = set_head_def set_fd_def set_bk_def set_foot_def set_top_def set_binblocks_def
lemmas field_defs = head_def fd_def bk_def prev_size_def top_def binblocks_def

lemma mstate_simps' [simp]:
  "av (set_head p v s) = av s" "av (set_fd p v s) = av s" "av (set_bk p v s) = av s" "av (set_foot p v s) = av s"
  "av (set_top v s) = av s" "av (set_binblocks v s) = av s"
  "bin_at (set_head p v s) i = bin_at s i" "bin_at (set_fd p v s) i = bin_at s i" "bin_at (set_bk p v s) i = bin_at s i"
  "bin_at (set_foot p v s) i = bin_at s i" "bin_at (set_top v s) i = bin_at s i" "bin_at (set_binblocks v s) i = bin_at s i"
  "last_remainder (set_head p v s) = last_remainder s" "last_remainder (set_fd p v s) = last_remainder s"
  "last_remainder (set_bk p v s) = last_remainder s" "last_remainder (set_foot p v s) = last_remainder s"
  "last_remainder (set_top v s) = last_remainder s" "last_remainder (set_binblocks v s) = last_remainder s"
  by (simp_all add: writes)

lemma statics_writes [simp]:
  "statics s (set_head p v s') \<longleftrightarrow> statics s s'" "statics s (set_fd p v s') \<longleftrightarrow> statics s s'"
  "statics s (set_bk p v s') \<longleftrightarrow> statics s s'" "statics s (set_foot p v s') \<longleftrightarrow> statics s s'"
  "statics s (set_top v s') \<longleftrightarrow> statics s s'" "statics s (set_binblocks v s') \<longleftrightarrow> statics s s'"
  by (simp_all add: writes)

lemma same_field [simp]:
  "head (set_head p v s) q = (if q = p then v else head s q)" "fd (set_fd p v s) q = (if q = p then v else fd s q)"
  "bk (set_bk p v s) q = (if q = p then v else bk s q)" "top (set_top v s) = v" "binblocks (set_binblocks v s) = v"
  "prev_size (set_foot p v s) q = (if q = p + v then v else prev_size s q)"
  by (simp_all add: field_defs writes mlong_set_long bin_at_eq)

lemma bin0: "bin_at s 0 = av s" by (simp add: bin_at_eq)

lemma other_field:
  assumes S: "sep (av s) H"
  shows "p \<in> nodes (av s) H \<Longrightarrow> q \<in> nodes (av s) H \<Longrightarrow> fd (set_bk p v s) q = fd s q"
    "p \<in> nodes (av s) H \<Longrightarrow> q \<in> nodes (av s) H \<Longrightarrow> bk (set_fd p v s) q = bk s q"
    "p \<in> nodes (av s) H \<Longrightarrow> q \<in> H \<Longrightarrow> head (set_fd p v s) q = head s q"
    "p \<in> nodes (av s) H \<Longrightarrow> q \<in> H \<Longrightarrow> head (set_bk p v s) q = head s q"
    "p \<in> nodes (av s) H \<Longrightarrow> q \<in> H \<Longrightarrow> prev_size (set_fd p v s) q = prev_size s q"
    "p \<in> nodes (av s) H \<Longrightarrow> q \<in> H \<Longrightarrow> prev_size (set_bk p v s) q = prev_size s q"
    "p \<in> nodes (av s) H \<Longrightarrow> top (set_fd p v s) = top s" "p \<in> nodes (av s) H \<Longrightarrow> top (set_bk p v s) = top s"
    "p \<in> nodes (av s) H \<Longrightarrow> binblocks (set_fd p v s) = binblocks s"
    "p \<in> nodes (av s) H \<Longrightarrow> binblocks (set_bk p v s) = binblocks s"
    "p \<in> H \<Longrightarrow> q \<in> nodes (av s) H \<Longrightarrow> fd (set_head p v s) q = fd s q"
    "p \<in> H \<Longrightarrow> q \<in> nodes (av s) H \<Longrightarrow> bk (set_head p v s) q = bk s q"
    "p \<in> H \<Longrightarrow> q \<in> H \<Longrightarrow> prev_size (set_head p v s) q = prev_size s q"
    "p \<in> H \<Longrightarrow> top (set_head p v s) = top s" "p \<in> H \<Longrightarrow> binblocks (set_head p v s) = binblocks s"
    "p + v \<in> H \<Longrightarrow> q \<in> nodes (av s) H \<Longrightarrow> fd (set_foot p v s) q = fd s q"
    "p + v \<in> H \<Longrightarrow> q \<in> nodes (av s) H \<Longrightarrow> bk (set_foot p v s) q = bk s q"
    "p + v \<in> H \<Longrightarrow> q \<in> H \<Longrightarrow> head (set_foot p v s) q = head s q"
    "p + v \<in> H \<Longrightarrow> top (set_foot p v s) = top s" "p + v \<in> H \<Longrightarrow> binblocks (set_foot p v s) = binblocks s"
    "q \<in> nodes (av s) H \<Longrightarrow> fd (set_top v s) q = fd s q" "q \<in> nodes (av s) H \<Longrightarrow> bk (set_top v s) q = bk s q"
    "q \<in> H \<Longrightarrow> head (set_top v s) q = head s q" "q \<in> H \<Longrightarrow> prev_size (set_top v s) q = prev_size s q"
    "binblocks (set_top v s) = binblocks s"
    "q \<in> nodes (av s) H \<Longrightarrow> fd (set_binblocks v s) q = fd s q" "q \<in> nodes (av s) H \<Longrightarrow> bk (set_binblocks v s) q = bk s q"
    "q \<in> H \<Longrightarrow> head (set_binblocks v s) q = head s q" "q \<in> H \<Longrightarrow> prev_size (set_binblocks v s) q = prev_size s q"
    "top (set_binblocks v s) = top s"
  using sep_nodes[OF S, of p q] sep_nodes[OF S, of q p] sep_head_node[OF S, of p q] sep_head_node[OF S, of q p]
    sep_heap(4)[OF S, of p q] sep_heap(4)[OF S, of q p] sep_head_node[OF S, of "p + v" q] sep_heap(4)[OF S, of "p + v" q]
    sep_statics(1-4)[OF S, of p] sep_statics(1-4)[OF S, of q] sep_statics(1-4)[OF S, of "p + v"]
    sep_statics(5-8)[OF S, of p] sep_statics(5-8)[OF S, of q]
  by (simp_all add: field_defs writes mlong_set_long bin0)

subsection \<open>Effects\<close>

lemma unlink_effect:
  assumes S: "sep (av s) H" and "fd s p \<in> nodes (av s) H" and "bk s p \<in> nodes (av s) H"
  shows "q \<in> nodes (av s) H \<Longrightarrow> fd (unlink p s) q = (if q = bk s p then fd s p else fd s q)"
    "q \<in> nodes (av s) H \<Longrightarrow> bk (unlink p s) q = (if q = fd s p then bk s p else bk s q)"
    "q \<in> H \<Longrightarrow> head (unlink p s) q = head s q" "q \<in> H \<Longrightarrow> prev_size (unlink p s) q = prev_size s q"
    "top (unlink p s) = top s" "binblocks (unlink p s) = binblocks s" "statics s (unlink p s)"
    "x \<noteq> bk s p + 16 \<Longrightarrow> x \<noteq> fd s p + 24 \<Longrightarrow> mlong (unlink p s) x = mlong s x"
  using assms S by (simp_all add: unlink_def Let_def other_field[of _ H])
    (simp add: writes mlong_set_long)

end
