(* ===== verification/Malloc_Inv.thy ===== *)
theory Malloc_Inv
  imports Malloc_Fields
begin

text \<open>
  The invariant of the allocator in three parts: the layout, the head fields that encode it in memory
  (\<open>heads\<close>), and the bins that link the free chunks (\<open>links\<close>).  The primitives of the allocator
  change one part at a time.  \<open>keeps X\<close> says that memory outside \<open>X\<close> is as it was; \<open>owned\<close> is the
  memory that belongs to the allocator and not to a block in use.
\<close>

definition free_set :: "chunks \<Rightarrow> u64 set" where
  "free_set cm = {p. \<exists>sz. cm p = Some (sz, False)}"

definition heads :: "'h mstate \<Rightarrow> u64 \<Rightarrow> u64 \<Rightarrow> u64 \<Rightarrow> chunks \<Rightarrow> bool" where
  "heads s base tp tsz cm \<longleftrightarrow>
     top s = tp \<and> hsize (head s tp) = tsz \<and> pbit (head s base) \<and>
     (\<forall>p sz u. cm p = Some (sz, u) \<longrightarrow> hsize (head s p) = sz \<and> (pbit (head s (p + sz)) \<longleftrightarrow> u) \<and>
        (\<not> u \<longrightarrow> prev_size s (p + sz) = sz \<and> (\<exists>sz'. cm (p + sz) = Some (sz', True))))"

definition links_at :: "'h mstate \<Rightarrow> chunks \<Rightarrow> (u64 \<Rightarrow> nat) \<Rightarrow> bool" where
  "links_at s cm home \<longleftrightarrow>
     ring (fd s) (bk s) home (free_set cm \<union> bins (av s)) \<and> (\<forall>i. 1 \<le> i \<and> i < 128 \<longrightarrow> home (bin_at s i) = i) \<and>
     (\<forall>p sz. cm p = Some (sz, False) \<longrightarrow> home p = 1 \<and> fd s p = last_remainder s \<or> home p = bin_index sz)"

definition links :: "'h mstate \<Rightarrow> chunks \<Rightarrow> bool" where
  "links s cm \<longleftrightarrow> (\<exists>home. links_at s cm home)"

definition malloc_ok :: "nat \<Rightarrow> u64 \<Rightarrow> u64 \<Rightarrow> u64 \<Rightarrow> chunks \<Rightarrow> 'h mstate \<Rightarrow> bool" where
  "malloc_ok lim base tp tsz cm s \<longleftrightarrow>
     layout base tp cm \<and> arena (av s) (unat base) lim \<and> aligned tsz \<and> 32 \<le> unat tsz \<and> unat tp + unat tsz \<le> lim \<and>
     heads s base tp tsz cm \<and> links s cm \<and> binblocks s < 2 ^ 32"

definition keeps :: "u64 set \<Rightarrow> 'h mstate \<Rightarrow> 'h mstate \<Rightarrow> bool" where
  "keeps X s s' \<longleftrightarrow> (\<forall>x. x \<notin> X \<longrightarrow> mlong s' x = mlong s x)"

lemma keeps_refl [simp]: "keeps X s s" by (simp add: keeps_def)
lemma keeps_trans [trans]: "keeps X s s' \<Longrightarrow> keeps X s' s'' \<Longrightarrow> keeps X s s''" by (simp add: keeps_def)
lemma keeps_mono: "keeps X s s' \<Longrightarrow> X \<subseteq> Y \<Longrightarrow> keeps Y s s'" by (auto simp: keeps_def)
lemma keeps_set_long: "x \<in> X \<Longrightarrow> keeps X s s' \<Longrightarrow> keeps X s (set_long x v s')"
  by (auto simp: keeps_def mlong_set_long)

definition owned :: "u64 \<Rightarrow> nat \<Rightarrow> u64 \<Rightarrow> chunks \<Rightarrow> u64 set" where
  "owned a lim tp cm = {x. in_av a x} \<union> {p + 8 |p. p \<in> dom cm} \<union>
     {x. \<exists>p sz. cm p = Some (sz, False) \<and> unat p + 8 \<le> unat x \<and> unat x \<le> unat p + unat sz} \<union>
     {x. unat tp + 8 \<le> unat x \<and> unat x < lim}"

text \<open>The bytes of a block in use, up to the head of the next chunk, are not owned.\<close>

definition user :: "u64 \<Rightarrow> u64 \<Rightarrow> u64 set" where
  "user p sz = {x. unat p + 16 \<le> unat x \<and> unat x < unat p + unat sz + 8}"

lemma layout_sep:
  assumes "layout base tp cm" and "arena a (unat base) lim" and "unat tp + 32 \<le> lim"
  shows "sep a (insert tp (dom cm))"
proof -
  let ?H = "insert tp (dom cm)"
  have lim: "lim < 2 ^ 62" "\<And>x. unat base \<le> unat x \<Longrightarrow> unat x < lim \<Longrightarrow> \<not> in_av a x"
    using assms(2) unfolding arena_def by blast+
  have H: "unat base \<le> unat p \<and> unat p + 32 \<le> lim" if "p \<in> ?H" for p
  proof (cases "p = tp")
    case False
    then obtain sz u where "cm p = Some (sz, u)" using \<open>p \<in> ?H\<close> by auto
    then show ?thesis using layoutD(3-5)[OF assms(1)] assms(3) by fastforce
  qed (use layout_base[OF assms(1)] assms(3) in auto)
  have d: "unat p + 32 \<le> unat q" if pq: "p \<in> ?H" "q \<in> ?H" "unat p < unat q" for p q
  proof (cases "p = tp")
    case True
    then obtain sz u where "cm q = Some (sz, u)" using pq by auto
    then show ?thesis using layoutD(3-5)[OF assms(1)] True pq(3) by fastforce
  next
    case False
    then obtain sz u where p: "cm p = Some (sz, u)" using pq by auto
    show ?thesis
    proof (cases "q = tp")
      case True
      then show ?thesis using layoutD(3,5)[OF assms(1) p] by simp
    next
      case False
      then obtain sz' u' where "cm q = Some (sz', u')" using pq by auto
      then show ?thesis using layout_after[OF assms(1) p] layoutD(3)[OF assms(1) p] pq(3) by fastforce
    qed
  qed
  have u: "unat (p + 8) = unat p + 8" "unat (p + 16) = unat p + 16" "unat (p + 24) = unat p + 24" if "p \<in> ?H" for p
    using H[OF that] lim(1) by (simp_all add: unat_add_small)
  have ne: "p \<noteq> q + 8 \<and> p \<noteq> q + 16 \<and> p \<noteq> q + 24" if "p \<in> ?H" "q \<in> ?H" for p q
  proof -
    have "unat p < unat q \<or> unat p = unat q \<or> unat q < unat p" by linarith
    then have "unat p \<noteq> unat q + 8" "unat p \<noteq> unat q + 16" "unat p \<noteq> unat q + 24"
      using d[OF that] d[OF that(2,1)] by auto
    then show ?thesis using u[OF that(2)] by auto
  qed
  have off: "\<not> in_av a p \<and> \<not> in_av a (p + 8) \<and> \<not> in_av a (p + 16) \<and> \<not> in_av a (p + 24)" if "p \<in> ?H" for p
    using H[OF that] u[OF that] lim(2)[of p] lim(2)[of "p + 8"] lim(2)[of "p + 16"] lim(2)[of "p + 24"] by auto
  show ?thesis unfolding sep_def using ne off by blast
qed

lemma user_not_owned:
  assumes "layout base tp cm" and "arena a (unat base) lim" and "unat tp + 32 \<le> lim"
    and "cm p = Some (sz, True)" and "x \<in> user p sz"
  shows "x \<notin> owned a lim tp cm"
proof -
  note P = layoutD[OF assms(1,4)]
  have x: "unat p + 16 \<le> unat x" "unat x < unat p + unat sz + 8" using assms(5) unfolding user_def by auto
  have lim: "lim < 2 ^ 62" using assms(2) unfolding arena_def by blast
  have "\<not> in_av a x" using assms(2,3) x P(4,5) unfolding arena_def by auto
  moreover have "x \<noteq> q + 8" if q: "cm q = Some (s', u')" for q s' u'
  proof -
    note Q = layoutD[OF assms(1) q]
    have "unat (q + 8) = unat q + 8" using Q(3,5) assms(3) lim by (subst unat_add_small) auto
    then have "unat x \<noteq> unat (q + 8)"
      using layout_disjoint[OF assms(1,4) q] x Q(3) by (cases "p = q") auto
    then show ?thesis by auto
  qed
  moreover have "\<not> (unat q + 8 \<le> unat x \<and> unat x \<le> unat q + unat s')" if q: "cm q = Some (s', False)" for q s'
  proof -
    have "q \<noteq> p" using q assms(4) by auto
    then show ?thesis using layout_disjoint[OF assms(1,4) q] x by auto
  qed
  moreover have "\<not> unat tp + 8 \<le> unat x" using x P(5) by auto
  ultimately show ?thesis unfolding owned_def by auto
qed

end
