(* ===== verification/Malloc_Prims.thy ===== *)
theory Malloc_Prims
  imports Malloc_Inv
begin

text \<open>What each primitive of the allocator does to the parts of the invariant.\<close>

subsection \<open>Reading the invariant\<close>

lemma layout_base_in:
  assumes "layout base tp cm"
  shows "base \<in> insert tp (dom cm)"
proof (rule ccontr)
  assume nb: "base \<notin> insert tp (dom cm)"
  let ?S = "unat ` insert tp (dom cm)"
  have fin: "finite ?S" "?S \<noteq> {}" using layout_finite[OF assms] by simp_all
  from Min_in[OF fin] obtain q where "Min ?S = unat q" and qS: "q \<in> insert tp (dom cm)" by (rule imageE)
  then have q: "q \<in> insert tp (dom cm)" "unat q = Min ?S" by simp_all
  have least: "unat q \<le> unat r" if "r \<in> insert tp (dom cm)" for r
    unfolding q(2) by (rule Min_le[OF fin(1)]) (rule imageI[OF that])
  have "q \<noteq> base" "q \<in> dom cm \<or> q = tp" using q(1) nb by auto
  then obtain p sz u where p: "cm p = Some (sz, u)" "p + sz = q" using layout_pred[OF assms] by blast
  then show False using least[of p] layoutD(3,7)[OF assms p(1)] by auto
qed

lemma heads_cong:
  assumes "heads s base tp tsz cm" and "base \<in> H" and "tp \<in> H" and "dom cm \<subseteq> H"
    and "\<And>p sz u. cm p = Some (sz, u) \<Longrightarrow> p + sz \<in> H"
    and "top s' = top s" and "\<And>q. q \<in> H \<Longrightarrow> head s' q = head s q" and "\<And>q. q \<in> H \<Longrightarrow> prev_size s' q = prev_size s q"
  shows "heads s' base tp tsz cm"
proof -
  have h: "top s = tp" "hsize (head s tp) = tsz" "pbit (head s base)"
    using assms(1) unfolding heads_def by auto
  have c: "hsize (head s p) = sz \<and> (pbit (head s (p + sz)) \<longleftrightarrow> u) \<and>
        (\<not> u \<longrightarrow> prev_size s (p + sz) = sz \<and> (\<exists>sz'. cm (p + sz) = Some (sz', True)))" if "cm p = Some (sz, u)" for p sz u
    using assms(1) that unfolding heads_def by blast
  have "head s' p = head s p" "head s' (p + sz) = head s (p + sz)" "prev_size s' (p + sz) = prev_size s (p + sz)"
    if "cm p = Some (sz, u)" for p sz u
    using that assms(4) assms(5)[OF that] assms(7,8) by blast+
  then show ?thesis unfolding heads_def using h c assms(2,3,6,7) by simp
qed

lemma links_at_cong:
  assumes "links_at s cm home" and "\<And>p sz. cm' p = Some (sz, False) \<longleftrightarrow> cm p = Some (sz, False)"
    and "\<And>q. q \<in> free_set cm \<union> bins (av s) \<Longrightarrow> fd s' q = fd s q" and "\<And>q. q \<in> free_set cm \<union> bins (av s) \<Longrightarrow> bk s' q = bk s q"
    and "av s' = av s"
  shows "links_at s' cm' home"
proof -
  have f: "free_set cm' = free_set cm" using assms(2) unfolding free_set_def by auto
  have r: "ring (fd s) (bk s) home (free_set cm \<union> bins (av s))" and h: "\<forall>i. 1 \<le> i \<and> i < 128 \<longrightarrow> home (bin_at s i) = i"
    and z: "\<forall>p sz. cm p = Some (sz, False) \<longrightarrow> home p = 1 \<and> fd s p = last_remainder s \<or> home p = bin_index sz"
    using assms(1) unfolding links_at_def by blast+
  have "ring (fd s') (bk s') home (free_set cm' \<union> bins (av s'))"
    unfolding f assms(5) by (rule ring_cong[OF r]) (use assms(3,4) in auto)
  moreover have "\<forall>i. 1 \<le> i \<and> i < 128 \<longrightarrow> home (bin_at s' i) = i" using h assms(5) by (simp add: bin_at_eq)
  moreover have "home p = 1 \<and> fd s' p = last_remainder s' \<or> home p = bin_index sz" if "cm' p = Some (sz, False)" for p sz
  proof -
    have p: "cm p = Some (sz, False)" using that assms(2) by blast
    then have "p \<in> free_set cm" unfolding free_set_def by blast
    then show ?thesis using z p assms(3)[of p] assms(5) by (auto simp: last_remainder_def bin_at_eq)
  qed
  ultimately show ?thesis unfolding links_at_def by blast
qed

lemma links_cong:
  assumes "links s cm" and "\<And>p sz. cm' p = Some (sz, False) \<longleftrightarrow> cm p = Some (sz, False)"
    and "\<And>q. q \<in> free_set cm \<union> bins (av s) \<Longrightarrow> fd s' q = fd s q" and "\<And>q. q \<in> free_set cm \<union> bins (av s) \<Longrightarrow> bk s' q = bk s q"
    and "av s' = av s"
  shows "links s' cm'"
proof -
  obtain home where "links_at s cm home" using assms(1) unfolding links_def by blast
  then have "links_at s' cm' home"
    by (rule links_at_cong) (use assms(2-5) in blast)+
  then show ?thesis unfolding links_def by blast
qed

lemma free_set_dom: "free_set cm \<subseteq> dom cm" unfolding free_set_def by auto

lemma free_setI: "cm p = Some (sz, False) \<Longrightarrow> p \<in> free_set cm" unfolding free_set_def by blast

lemma links_nodes:
  assumes "links s cm" and "p \<in> free_set cm \<union> bins (av s)"
  shows "fd s p \<in> free_set cm \<union> bins (av s)" "bk s p \<in> free_set cm \<union> bins (av s)" "bk s (fd s p) = p" "fd s (bk s p) = p"
proof -
  obtain home where r: "ring (fd s) (bk s) home (free_set cm \<union> bins (av s))"
    using assms(1) unfolding links_def links_at_def by blast
  show "fd s p \<in> free_set cm \<union> bins (av s)" "bk s p \<in> free_set cm \<union> bins (av s)" "bk s (fd s p) = p" "fd s (bk s p) = p"
    using ringD[OF r assms(2)] by blast+
qed

lemma nodes_of:
  assumes "dom cm \<subseteq> H" and "p \<in> free_set cm \<union> bins a"
  shows "p \<in> nodes a H"
  using assms free_set_dom unfolding nodes_def by blast

lemma lr_bin: "last_remainder s \<in> bins (av s)"
  unfolding last_remainder_def by (rule bin_at_in_bins) simp_all

definition linkset :: "u64 \<Rightarrow> chunks \<Rightarrow> u64 set" where
  "linkset a cm = {x. \<exists>p \<in> free_set cm \<union> bins a. x = p + 16 \<or> x = p + 24}"

lemma unat_drop: "unat (drop_bit k (x :: u64)) = unat x div 2 ^ k"
  using unat_drop_bit_eq[of k x] drop_bit_eq_div[of k "unat x"] by (rule trans)

lemma small_drop: "unat x < 512 \<Longrightarrow> drop_bit 9 (x :: u64) = 0"
  using unat_drop[of 9 x] unat_eq_zero[of "drop_bit 9 x"] by simp

text \<open>A bin index of a chunk is never that of the last remainder.\<close>

lemma bin_index_bounds:
  assumes "32 \<le> unat sz"
  shows "4 \<le> bin_index sz" "bin_index sz \<le> 126"
proof -
  have d: "unat (drop_bit k sz) = unat sz div 2 ^ k" for k by (rule unat_drop)
  let ?n = "unat sz"
  have "4 \<le> bin_index sz \<and> bin_index sz \<le> 126"
  proof (cases "drop_bit 9 sz = 0")
    case True
    then have "?n div 2 ^ 9 = 0" using d[of 9] by (metis unat_0)
    then have "?n < 512" by (simp add: div_eq_0_iff)
    then show ?thesis using True d[of 3] assms by (simp add: bin_index_def) linarith
  next
    case False
    have le: "drop_bit 9 sz \<le> k \<longleftrightarrow> ?n div 512 \<le> unat k" for k using d[of 9] by (simp add: word_le_nat_alt)
    note dd = d[of 6] d[of 9] d[of 12] d[of 15] d[of 18]
    have "?n div 512 \<le> 4 \<Longrightarrow> ?n div 64 < 40" "?n div 512 \<le> 84 \<Longrightarrow> ?n div 4096 < 11"
      "?n div 512 \<le> 340 \<Longrightarrow> ?n div 32768 < 6" "?n div 512 \<le> 1364 \<Longrightarrow> ?n div 262144 < 3" by linarith+
    then show ?thesis using False dd by (auto simp: bin_index_def le)
  qed
  then show "4 \<le> bin_index sz" "bin_index sz \<le> 126" by blast+
qed

subsection \<open>Unlinking\<close>

lemma links_at_unlink:
  assumes S: "sep (av s) H" "dom cm \<subseteq> H" and "links_at s cm home" and "v \<in> free_set cm"
  shows "links_at (unlink v s) (cm(v := None)) home"
proof -
  let ?N = "free_set cm \<union> bins (av s)"
  have r: "ring (fd s) (bk s) home ?N" and h: "\<forall>i. 1 \<le> i \<and> i < 128 \<longrightarrow> home (bin_at s i) = i"
    and z: "\<And>p sz. cm p = Some (sz, False) \<Longrightarrow> home p = 1 \<and> fd s p = last_remainder s \<or> home p = bin_index sz"
    using assms(3) unfolding links_at_def by blast+
  have v: "v \<in> ?N" using assms(4) by blast
  have nod: "q \<in> ?N \<Longrightarrow> q \<in> nodes (av s) H" for q using nodes_of[OF S(2)] by blast
  note u = unlink_effect[OF S(1) nod[OF ringD(1)[OF r v]] nod[OF ringD(2)[OF r v]]]
  have av: "av (unlink v s) = av s" using u(7) by (simp add: statics_def)
  have nb: "v \<notin> bins (av s)"
  proof
    assume "v \<in> bins (av s)"
    then have "in_av (av s) (v + 16)" using in_av_bins by blast
    moreover have "v \<in> H" using assms(4) S(2) free_set_dom by blast
    ultimately show False using sep_off_av(3)[OF S(1)] by blast
  qed
  have f: "free_set (cm(v := None)) = free_set cm - {v}" unfolding free_set_def by auto
  then have N: "free_set (cm(v := None)) \<union> bins (av s) = ?N - {v}" using nb by blast
  have "ring (fd (unlink v s)) (bk (unlink v s)) home (?N - {v})"
    by (rule ring_unlink[OF r v]) (simp_all add: u(1,2) nod)
  moreover have "home p = 1 \<and> fd (unlink v s) p = last_remainder (unlink v s) \<or> home p = bin_index sz"
    if p: "(cm(v := None)) p = Some (sz, False)" for p sz
  proof -
    have p': "cm p = Some (sz, False)" "p \<noteq> v" using p by (auto split: if_splits)
    have "p \<in> ?N" using p'(1) free_setI by blast
    show ?thesis
    proof (cases "home p = bin_index sz")
      case False
      then have one: "home p = 1" "fd s p = last_remainder s" using z[OF p'(1)] by auto
      have "p \<noteq> bk s v"
      proof
        assume "p = bk s v"
        then have "v = last_remainder s" using ringD(4)[OF r v] one(2) by simp
        then show False using nb lr_bin by blast
      qed
      then show ?thesis using one u(1)[OF nod[OF \<open>p \<in> ?N\<close>]] av by (simp add: last_remainder_def bin_at_eq)
    qed simp
  qed
  ultimately show ?thesis unfolding links_at_def using N av h by (simp add: bin_at_eq)
qed

lemma unlink_keeps:
  assumes "links s cm" and "v \<in> free_set cm"
  shows "keeps (linkset (av s) cm) s (unlink v s)"
proof -
  have v: "v \<in> free_set cm \<union> bins (av s)" using assms(2) by blast
  have x: "bk s v + 16 \<in> linkset (av s) cm" "fd s v + 24 \<in> linkset (av s) cm"
    using links_nodes(1,2)[OF assms(1) v] unfolding linkset_def by blast+
  show ?thesis unfolding unlink_def Let_def writes using x by (intro keeps_set_long keeps_refl)
qed

subsection \<open>Linking\<close>

lemma link_between_effect:
  assumes S: "sep (av s) H" and "p \<in> nodes (av s) H" and "b \<in> nodes (av s) H" and "c \<in> nodes (av s) H"
  shows "q \<in> nodes (av s) H \<Longrightarrow> fd (link_between p b c s) q = (if q = b then p else if q = p then c else fd s q)"
    "q \<in> nodes (av s) H \<Longrightarrow> bk (link_between p b c s) q = (if q = c then p else if q = p then b else bk s q)"
    "q \<in> H \<Longrightarrow> head (link_between p b c s) q = head s q" "q \<in> H \<Longrightarrow> prev_size (link_between p b c s) q = prev_size s q"
    "top (link_between p b c s) = top s" "binblocks (link_between p b c s) = binblocks s" "statics s (link_between p b c s)"
  using assms by (simp_all add: link_between_def other_field[of _ H])

lemma link_between_keeps:
  "p + 16 \<in> X \<Longrightarrow> p + 24 \<in> X \<Longrightarrow> b + 16 \<in> X \<Longrightarrow> c + 24 \<in> X \<Longrightarrow> keeps X s (link_between p b c s)"
  unfolding link_between_def writes by (intro keeps_set_long keeps_refl)

lemma free_not_bin:
  assumes "sep a H" and "p \<in> H"
  shows "p \<notin> bins a"
  using in_av_bins[of p a] sep_off_av(3)[OF assms] by blast

lemma links_at_link:
  assumes S: "sep (av s) H" "dom cm \<subseteq> H" and L: "links_at s cm home" and "p \<in> H" and "p \<notin> free_set cm"
    and b: "b \<in> free_set cm \<union> bins (av s)" "home b = bin_index sz" and c: "c = fd s b" and "32 \<le> unat sz"
  shows "links_at (link_between p b c s) (cm(p \<mapsto> (sz, False))) (home(p := bin_index sz))"
proof -
  let ?N = "free_set cm \<union> bins (av s)" and ?s = "link_between p b c s"
  have r: "ring (fd s) (bk s) home ?N" and h: "\<forall>i. 1 \<le> i \<and> i < 128 \<longrightarrow> home (bin_at s i) = i"
    and z: "\<And>p sz. cm p = Some (sz, False) \<Longrightarrow> home p = 1 \<and> fd s p = last_remainder s \<or> home p = bin_index sz"
    using L unfolding links_at_def by blast+
  have nod: "q \<in> ?N \<Longrightarrow> q \<in> nodes (av s) H" for q using nodes_of[OF S(2)] by blast
  have pn: "p \<in> nodes (av s) H" using assms(4) unfolding nodes_def by blast
  have pb: "p \<notin> bins (av s)" by (rule free_not_bin[OF S(1) assms(4)])
  have cN: "c \<in> ?N" using ringD(1)[OF r b(1)] c by simp
  note e = link_between_effect[OF S(1) pn nod[OF b(1)] nod[OF cN]]
  have avs: "av ?s = av s" using e(7) by (simp add: statics_def)
  have f: "free_set (cm(p \<mapsto> (sz, False))) = insert p (free_set cm)" unfolding free_set_def by auto
  then have N: "free_set (cm(p \<mapsto> (sz, False))) \<union> bins (av s) = insert p ?N" by blast
  have "ring (fd ?s) (bk ?s) (home(p := home b)) (insert p ?N)"
    by (rule ring_link[OF r _ b(1) c]) (use assms(5) pb pn nod e(1,2) in auto)
  moreover have "(home(p := bin_index sz)) (bin_at s i) = i" if "1 \<le> i \<and> i < 128" for i
    using h that pb bin_at_in_bins[of i s] by auto
  moreover have "(home(p := bin_index sz)) q = 1 \<and> fd ?s q = last_remainder s \<or> (home(p := bin_index sz)) q = bin_index s'"
    if q: "(cm(p \<mapsto> (sz, False))) q = Some (s', False)" for q s'
  proof (cases "q = p")
    case False
    then have q': "cm q = Some (s', False)" using q by simp
    have "q \<in> ?N" using q' free_setI by blast
    show ?thesis
    proof (cases "home q = bin_index s'")
      case nb: False
      then have one: "home q = 1" "fd s q = last_remainder s" using z[OF q'] by auto
      then have "q \<noteq> b" using b(2) bin_index_bounds[OF assms(9)] by auto
      then show ?thesis using one e(1)[OF nod[OF \<open>q \<in> ?N\<close>]] False by simp
    qed (use False in simp)
  qed (use q in simp)
  ultimately show ?thesis
    unfolding links_at_def using N avs b(2) by (simp add: bin_at_eq last_remainder_def)
qed

lemma mark_binblock_effect:
  assumes S: "sep (av s) H"
  shows "q \<in> nodes (av s) H \<Longrightarrow> fd (mark_binblock i s) q = fd s q" "q \<in> nodes (av s) H \<Longrightarrow> bk (mark_binblock i s) q = bk s q"
    "q \<in> H \<Longrightarrow> head (mark_binblock i s) q = head s q" "q \<in> H \<Longrightarrow> prev_size (mark_binblock i s) q = prev_size s q"
    "top (mark_binblock i s) = top s" "statics s (mark_binblock i s)"
    "binblocks (mark_binblock i s) = binblocks s OR idx2binblock i"
  using assms by (simp_all add: mark_binblock_def other_field[of _ H])

lemma small_blocks:
  assumes "x < 2 ^ 32" and "y < (2 :: u64) ^ 32"
  shows "x OR y < 2 ^ 32"
proof -
  have e: "take_bit 32 z = z \<longleftrightarrow> z < 2 ^ 32" for z :: u64
    using mask_eq_iff_w2p[of 32 z] by (simp add: word_size take_bit_eq_mask)
  show ?thesis using assms unfolding e[symmetric] by (simp add: take_bit_or)
qed

lemma unat_push: "n < 64 \<Longrightarrow> unat (push_bit n 1 :: u64) = 2 ^ n"
proof -
  assume n: "n < 64"
  have "unat (push_bit n 1 :: u64) = take_bit LENGTH(64) (push_bit n (unat (1 :: u64)))" by (rule unsigned_push_bit_eq)
  also have "\<dots> = 2 ^ n mod 2 ^ LENGTH(64)" by (simp add: take_bit_eq_mod push_bit_eq_mult)
  also have "(2 :: nat) ^ n < 2 ^ 64" using n by (intro power_strict_increasing) simp_all
  then have "(2 :: nat) ^ n mod 2 ^ LENGTH(64) = 2 ^ n" by simp
  finally show ?thesis .
qed

lemma idx2binblock_small: "i < 128 \<Longrightarrow> idx2binblock i < 2 ^ 32"
proof -
  assume "i < 128"
  then have i: "i div BINBLOCKWIDTH < 32" by (simp add: BINBLOCKWIDTH_def)
  then have "(2 :: nat) ^ (i div BINBLOCKWIDTH) < 2 ^ 32" by (intro power_strict_increasing) simp_all
  then show ?thesis using i unat_push[of "i div BINBLOCKWIDTH"] by (simp add: idx2binblock_def word_less_nat_alt)
qed

lemma set_binblocks_keeps: "in_av (av s) x \<longrightarrow> x \<in> X \<Longrightarrow> av s + 8 \<in> X \<Longrightarrow> keeps X s (set_binblocks v s)"
  by (simp add: writes bin0 keeps_set_long)

text \<open>The walk of \<open>frontlink\<close> stays on its bin's list and ends.\<close>

lemma frontlink_walk_ok:
  assumes "ring (fd s) (bk s) home N" and "b \<in> N"
  shows "(fd s ^^ n) fwd = b \<Longrightarrow> n < k \<Longrightarrow> fwd \<in> N \<Longrightarrow> home fwd = home b \<Longrightarrow>
    \<exists>c. frontlink_walk k sz b fwd s = Ok c \<and> c \<in> N \<and> home c = home b"
proof (induction n arbitrary: fwd k)
  case 0
  then obtain k' where "k = Suc k'" by (cases k) auto
  then show ?case using 0 by simp
next
  case (Suc n)
  then obtain k' where k: "k = Suc k'" by (cases k) auto
  have "(fd s ^^ n) (fd s fwd) = b" using Suc.prems(1) by (simp add: funpow_swap1)
  then have "\<exists>c. frontlink_walk k' sz b (fd s fwd) s = Ok c \<and> c \<in> N \<and> home c = home b"
    using Suc.prems k ringD(1,5)[OF assms(1) Suc.prems(3)] by (intro Suc.IH) auto
  then show ?case using k Suc.prems by simp
qed

lemma linkset_bins: "b \<in> bins a \<Longrightarrow> b + 16 \<in> linkset a cm \<and> b + 24 \<in> linkset a cm"
  unfolding linkset_def by blast

lemma frontlink_ok:
  assumes S: "sep (av s) H" "dom cm \<subseteq> H" and "links s cm" and p: "p \<in> H" "p \<notin> free_set cm" and sz: "32 \<le> unat sz"
    and fin: "finite (dom cm)" and k: "card (free_set cm) + 128 \<le> k"
  shows "\<exists>s'. frontlink k p sz s = Ok s' \<and> links s' (cm(p \<mapsto> (sz, False))) \<and> top s' = top s \<and> statics s s' \<and>
    (\<forall>q \<in> H. head s' q = head s q \<and> prev_size s' q = prev_size s q) \<and> (binblocks s < 2 ^ 32 \<longrightarrow> binblocks s' < 2 ^ 32) \<and>
    fd s' (last_remainder s) = fd s (last_remainder s) \<and>
    keeps ({x. in_av (av s) x} \<union> linkset (av s) (cm(p \<mapsto> (sz, False)))) s s'"
proof -
  obtain home where L: "links_at s cm home" using assms(3) unfolding links_def by blast
  let ?i = "bin_index sz" and ?N = "free_set cm \<union> bins (av s)" and ?cm = "cm(p \<mapsto> (sz, False))"
  let ?X = "{x. in_av (av s) x} \<union> linkset (av s) ?cm"
  have i: "1 \<le> ?i" "?i < 128" using bin_index_bounds[OF sz] by auto
  have bin: "bin_at s ?i \<in> bins (av s)" by (rule bin_at_in_bins[OF i])
  have link: "\<exists>s'. s' = link_between p b c s1 \<and> links s' ?cm \<and> top s' = top s \<and> statics s s' \<and>
      (\<forall>q \<in> H. head s' q = head s q \<and> prev_size s' q = prev_size s q) \<and>
      (binblocks s < 2 ^ 32 \<longrightarrow> binblocks s' < 2 ^ 32) \<and> fd s' (last_remainder s) = fd s (last_remainder s) \<and> keeps ?X s s'"
    if s1: "s1 = s \<or> s1 = mark_binblock ?i s" and b: "b \<in> ?N" "home b = ?i" "c = fd s b" for s1 b c
  proof -
    let ?lr = "last_remainder s"
    have lrn: "?lr \<in> nodes (av s) H" "?lr \<noteq> b" "?lr \<noteq> p"
    proof -
      have "home ?lr = 1" using L unfolding links_at_def last_remainder_def by simp
      then show "?lr \<noteq> b" using b(2) bin_index_bounds[OF sz] by auto
      show "?lr \<noteq> p" using free_not_bin[OF S(1) p(1)] lr_bin by metis
      show "?lr \<in> nodes (av s) H" using lr_bin[of s] unfolding nodes_def by blast
    qed
    have m: "links_at s1 cm home \<and> av s1 = av s \<and> fd s1 b = fd s b \<and> top s1 = top s \<and> statics s s1 \<and>
        (\<forall>q \<in> H. head s1 q = head s q \<and> prev_size s1 q = prev_size s q) \<and>
        (binblocks s < 2 ^ 32 \<longrightarrow> binblocks s1 < 2 ^ 32) \<and> fd s1 ?lr = fd s ?lr \<and> keeps ?X s s1"
    proof (cases "s1 = s")
      case False
      then have s1: "s1 = mark_binblock ?i s" using s1 by blast
      note e = mark_binblock_effect[OF S(1), where i = ?i]
      have nod: "q \<in> nodes (av s) H" if "q \<in> ?N" for q using nodes_of[OF S(2) that] .
      have "av s1 = av s" using e(6) s1 by (simp add: statics_def)
      moreover have "links_at s1 cm home" 
        by (rule links_at_cong[OF L]) (use e nod s1 calculation in auto)
      moreover have "keeps ?X s s1" unfolding s1 mark_binblock_def
        by (rule set_binblocks_keeps) (use in_av_statics in auto)
      moreover have "binblocks s < 2 ^ 32 \<longrightarrow> binblocks s1 < 2 ^ 32"
        using small_blocks idx2binblock_small[OF i(2)] unfolding s1 e(7) by blast
      ultimately show ?thesis using e s1 nod[OF b(1)] lrn by simp
    qed (use L in simp)
    have S1: "sep (av s1) H" using m S(1) by simp
    have c: "c \<in> ?N" using L b ringD(1) unfolding links_at_def by blast
    have "links_at (link_between p b c s1) ?cm (home(p := ?i))"
      by (rule links_at_link[OF S1 S(2) _ p]) (use m b sz in auto)
    moreover have nod1: "q \<in> nodes (av s1) H" if "q \<in> ?N" for q using nodes_of[OF S(2) that] m by simp
    have pn: "p \<in> nodes (av s1) H" using p(1) unfolding nodes_def by blast
    note e = link_between_effect[OF S1 pn nod1[OF b(1)] nod1[OF c]]
    have sub: "?N \<subseteq> free_set ?cm \<union> bins (av s)" using p(2) unfolding free_set_def by auto
    have "b + 16 \<in> ?X" "c + 24 \<in> ?X" using b(1) c sub unfolding linkset_def by blast+
    moreover have "p + 16 \<in> ?X" "p + 24 \<in> ?X" unfolding linkset_def free_set_def by auto
    ultimately have "keeps ?X s1 (link_between p b c s1)" by (intro link_between_keeps)
    then have "keeps ?X s (link_between p b c s1)" using m keeps_trans by blast
    moreover have "links_at (link_between p b c s1) ?cm (home(p := ?i))" by fact
    moreover have "statics s (link_between p b c s1)" using m e(7) statics_trans by blast
    moreover have "binblocks s < 2 ^ 32 \<longrightarrow> binblocks (link_between p b c s1) < 2 ^ 32" using m e(6) by simp
    moreover have "top (link_between p b c s1) = top s" "\<forall>q \<in> H. head (link_between p b c s1) q = head s q \<and>
        prev_size (link_between p b c s1) q = prev_size s q" using m e(3-5) by simp_all
    moreover have "fd (link_between p b c s1) ?lr = fd s ?lr" using m e(1)[of ?lr] lrn by simp
    ultimately show ?thesis unfolding links_def by blast
  qed
  have r: "ring (fd s) (bk s) home ?N" and hb: "home (bin_at s ?i) = ?i" using L i unfolding links_at_def by blast+
  have nod: "q \<in> nodes (av s) H" if "q \<in> ?N" for q using nodes_of[OF S(2) that] .
  have binN: "bin_at s ?i \<in> ?N" using bin by blast
  show ?thesis
  proof (cases "sz < MAX_SMALLBIN_SIZE")
    case True
    then have "unat sz < 512" by (simp add: MAX_SMALLBIN_SIZE_def word_less_nat_alt)
    then have "drop_bit 9 sz = 0" by (rule small_drop)
    then have "smallbin_index sz = ?i" by (simp add: bin_index_def smallbin_index_def)
    then have "frontlink k p sz s = Ok (link_between p (bin_at s ?i) (fd s (bin_at s ?i)) (mark_binblock ?i s))"
      using True mark_binblock_effect(1)[OF S(1) nod[OF binN]] by (simp add: frontlink_def Let_def bin_at_eq mark_binblock_def)
    then show ?thesis using link[OF _ binN hb refl] by blast
  next
    case False
    show ?thesis
    proof (cases "fd s (bin_at s ?i) = bin_at s ?i")
      case True
      then have "frontlink k p sz s = Ok (link_between p (bin_at s ?i) (fd s (bin_at s ?i)) (mark_binblock ?i s))"
        using False by (simp add: frontlink_def Let_def)
      then show ?thesis using link[OF _ binN hb refl] by blast
    next
      case ne: False
      have finN: "finite ?N" using fin finite_bins(1) by (meson finite_UnI finite_subset free_set_dom)
      have cardN: "card ?N < k" using k finite_bins(2)[of "av s"] card_Un_le[of "free_set cm" "bins (av s)"] by linarith
      obtain n where n: "n < card ?N" "(fd s ^^ n) (fd s (bin_at s ?i)) = bin_at s ?i"
        using ring_returns[OF ring_sym[OF r] finN binN] by blast
      obtain c where c: "frontlink_walk k sz (bin_at s ?i) (fd s (bin_at s ?i)) s = Ok c" "c \<in> ?N" "home c = ?i"
        using frontlink_walk_ok[OF r binN n(2), of k sz] n(1) cardN ringD(1,5)[OF r binN] hb by auto
      then have "frontlink k p sz s = Ok (link_between p (bk s c) c s)"
        using False ne by (simp add: frontlink_def Let_def)
      then show ?thesis
        using link[OF _ ringD(2)[OF r c(2)] _ ringD(4)[OF r c(2), symmetric]] ringD(6)[OF r c(2)] c(3) by auto
    qed
  qed
qed

subsection \<open>The last remainder\<close>

definition sizes_ok :: "chunks \<Rightarrow> bool" where
  "sizes_ok cm \<longleftrightarrow> (\<forall>p sz. cm p = Some (sz, False) \<longrightarrow> 32 \<le> unat sz)"

lemma layout_sizes: "layout base tp cm \<Longrightarrow> sizes_ok cm"
  using layoutD(3) unfolding sizes_ok_def by blast

lemma lr_nonempty:
  assumes "links s cm" and "sizes_ok cm" and "fd s (last_remainder s) \<noteq> last_remainder s"
  obtains sz where "cm (fd s (last_remainder s)) = Some (sz, False)" "fd s (fd s (last_remainder s)) = last_remainder s"
proof -
  let ?lr = "last_remainder s"
  obtain home where L: "links_at s cm home" using assms(1) unfolding links_def by blast
  then have r: "ring (fd s) (bk s) home (free_set cm \<union> bins (av s))" and h: "\<And>i. 1 \<le> i \<and> i < 128 \<Longrightarrow> home (bin_at s i) = i"
    and z: "\<And>p sz. cm p = Some (sz, False) \<Longrightarrow> home p = 1 \<and> fd s p = ?lr \<or> home p = bin_index sz"
    unfolding links_at_def by blast+
  have lr: "?lr \<in> free_set cm \<union> bins (av s)" "home ?lr = 1" using lr_bin h[of 1] by (auto simp: last_remainder_def)
  have y: "fd s ?lr \<in> free_set cm \<union> bins (av s)" "home (fd s ?lr) = 1" using ringD(1,5)[OF r lr(1)] lr(2) by auto
  have "fd s ?lr \<notin> bins (av s)"
  proof
    assume "fd s ?lr \<in> bins (av s)"
    then obtain i where i: "1 \<le> i \<and> i < 128" "fd s ?lr = bin_at s i" unfolding bins_def bin_at_eq by auto
    then have "i = 1" using h[OF i(1)] y(2) by simp
    then show False using i(2) assms(3) by (simp add: last_remainder_def)
  qed
  then obtain sz where sz: "cm (fd s ?lr) = Some (sz, False)" using y(1) unfolding free_set_def by blast
  moreover have "bin_index sz \<noteq> 1" using bin_index_bounds[of sz] sz assms(2) unfolding sizes_ok_def by fastforce
  then have "fd s (fd s ?lr) = ?lr" using z[OF sz] y(2) by auto
  ultimately show ?thesis using that by blast
qed

lemma lr_chunk:
  assumes "sep (av s) H" and "dom cm \<subseteq> H" and "links s cm" and "sizes_ok cm" and "x \<in> free_set cm" and "fd s x = last_remainder s"
  shows "fd s (last_remainder s) = x" "bk s (last_remainder s) = x" "bk s x = last_remainder s"
proof -
  let ?lr = "last_remainder s"
  have lr: "?lr \<in> free_set cm \<union> bins (av s)" using lr_bin by blast
  have x: "x \<in> free_set cm \<union> bins (av s)" using assms(5) by blast
  show b: "bk s ?lr = x" using links_nodes(3)[OF assms(3) x] assms(6) by simp
  have "x \<notin> bins (av s)" using free_not_bin[OF assms(1)] assms(2,5) free_set_dom by blast
  then have "fd s ?lr \<noteq> ?lr" using b links_nodes(3)[OF assms(3) lr] lr_bin by metis
  then obtain sz where "cm (fd s ?lr) = Some (sz, False)" "fd s (fd s ?lr) = ?lr"
    using lr_nonempty[OF assms(3,4)] by blast
  then show f: "fd s ?lr = x" using b links_nodes(3)[OF assms(3), of "fd s ?lr"] free_setI by fastforce
  then show "bk s x = ?lr" using links_nodes(3)[OF assms(3) lr] by simp
qed

lemma link_last_remainder_effect:
  assumes S: "sep (av s) H" and "p \<in> H"
  shows "q \<in> nodes (av s) H \<Longrightarrow> fd (link_last_remainder p s) q = (if q = last_remainder s then p else if q = p then last_remainder s else fd s q)"
    "q \<in> nodes (av s) H \<Longrightarrow> bk (link_last_remainder p s) q = (if q = last_remainder s then p else if q = p then last_remainder s else bk s q)"
    "q \<in> H \<Longrightarrow> head (link_last_remainder p s) q = head s q" "q \<in> H \<Longrightarrow> prev_size (link_last_remainder p s) q = prev_size s q"
    "top (link_last_remainder p s) = top s" "statics s (link_last_remainder p s)"
    "binblocks (link_last_remainder p s) = binblocks s"
proof -
  have p: "p \<in> nodes (av s) H" "last_remainder s \<in> nodes (av s) H" "p \<noteq> last_remainder s"
    using assms(2) lr_bin[of s] free_not_bin[OF S assms(2)] unfolding nodes_def by auto
  then show "q \<in> nodes (av s) H \<Longrightarrow> fd (link_last_remainder p s) q = (if q = last_remainder s then p else if q = p then last_remainder s else fd s q)"
    "q \<in> nodes (av s) H \<Longrightarrow> bk (link_last_remainder p s) q = (if q = last_remainder s then p else if q = p then last_remainder s else bk s q)"
    "q \<in> H \<Longrightarrow> head (link_last_remainder p s) q = head s q" "q \<in> H \<Longrightarrow> prev_size (link_last_remainder p s) q = prev_size s q"
    "top (link_last_remainder p s) = top s" "statics s (link_last_remainder p s)"
    "binblocks (link_last_remainder p s) = binblocks s"
    using S by (simp_all add: link_last_remainder_def Let_def other_field[of _ H])
qed

lemma clear_last_remainder_effect:
  assumes S: "sep (av s) H"
  shows "q \<in> nodes (av s) H \<Longrightarrow> fd (clear_last_remainder s) q = (if q = last_remainder s then last_remainder s else fd s q)"
    "q \<in> nodes (av s) H \<Longrightarrow> bk (clear_last_remainder s) q = (if q = last_remainder s then last_remainder s else bk s q)"
    "q \<in> H \<Longrightarrow> head (clear_last_remainder s) q = head s q" "q \<in> H \<Longrightarrow> prev_size (clear_last_remainder s) q = prev_size s q"
    "top (clear_last_remainder s) = top s" "statics s (clear_last_remainder s)"
    "binblocks (clear_last_remainder s) = binblocks s"
proof -
  have "last_remainder s \<in> nodes (av s) H" using lr_bin[of s] unfolding nodes_def by auto
  then show "q \<in> nodes (av s) H \<Longrightarrow> fd (clear_last_remainder s) q = (if q = last_remainder s then last_remainder s else fd s q)"
    "q \<in> nodes (av s) H \<Longrightarrow> bk (clear_last_remainder s) q = (if q = last_remainder s then last_remainder s else bk s q)"
    "q \<in> H \<Longrightarrow> head (clear_last_remainder s) q = head s q" "q \<in> H \<Longrightarrow> prev_size (clear_last_remainder s) q = prev_size s q"
    "top (clear_last_remainder s) = top s" "statics s (clear_last_remainder s)"
    "binblocks (clear_last_remainder s) = binblocks s"
    using S by (simp_all add: clear_last_remainder_def Let_def other_field[of _ H])
qed

lemma lr_keeps:
  "keeps ({x. in_av (av s) x} \<union> {p + 16, p + 24}) s (link_last_remainder p s)" "keeps {x. in_av (av s) x} s (clear_last_remainder s)"
  using in_av_bins[OF lr_bin, of s]
  by (auto simp: link_last_remainder_def clear_last_remainder_def Let_def writes intro!: keeps_set_long)

lemma links_clear_lr:
  assumes S: "sep (av s) H" "dom cm \<subseteq> H" and "links s cm" and "sizes_ok cm" and "x \<in> free_set cm" and "fd s x = last_remainder s"
  shows "links (clear_last_remainder s) (cm(x := None))"
proof -
  obtain home where L: "links_at s cm home" using assms(3) unfolding links_def by blast
  note x = lr_chunk[OF assms]
  have xN: "x \<in> free_set cm \<union> bins (av s)" using assms(5) by blast
  have nod: "q \<in> nodes (av s) H" if "q \<in> free_set cm \<union> bins (av s)" for q using nodes_of[OF S(2) that] .
  have avs: "av (unlink x s) = av s" "av (clear_last_remainder s) = av s"
    using unlink_effect(7)[OF S(1) nod[OF links_nodes(1)[OF assms(3) xN]] nod[OF links_nodes(2)[OF assms(3) xN]]]
      clear_last_remainder_effect(6)[OF S(1)] by (simp_all add: statics_def)
  have sub: "q \<in> free_set cm \<union> bins (av s)" if "q \<in> free_set (cm(x := None)) \<union> bins (av (unlink x s))" for q
    using that avs unfolding free_set_def by (auto split: if_splits)
  have "links_at (unlink x s) (cm(x := None)) home" by (rule links_at_unlink[OF S L assms(5)])
  then have "links_at (clear_last_remainder s) (cm(x := None)) home"
  proof (rule links_at_cong)
    fix q assume q: "q \<in> free_set (cm(x := None)) \<union> bins (av (unlink x s))"
    note u = unlink_effect(1,2)[OF S(1) nod[OF links_nodes(1)[OF assms(3) xN]] nod[OF links_nodes(2)[OF assms(3) xN]] nod[OF sub[OF q]]]
    show "fd (clear_last_remainder s) q = fd (unlink x s) q" "bk (clear_last_remainder s) q = bk (unlink x s) q"
      using u x assms(6) clear_last_remainder_effect(1,2)[OF S(1) nod[OF sub[OF q]]] by auto
  qed (use avs in auto)
  then show ?thesis unfolding links_def by blast
qed

lemma links_lr_empty:
  assumes S: "sep (av s) H" "dom cm \<subseteq> H" and "links s cm" and "fd s (last_remainder s) = last_remainder s"
    and p: "p \<in> H" "p \<notin> free_set cm"
  shows "links (link_last_remainder p s) (cm(p \<mapsto> (sz, False)))"
proof -
  let ?N = "free_set cm \<union> bins (av s)" and ?s = "link_last_remainder p s" and ?lr = "last_remainder s"
  obtain home where L: "links_at s cm home" using assms(3) unfolding links_def by blast
  then have r: "ring (fd s) (bk s) home ?N" and h: "\<And>i. 1 \<le> i \<and> i < 128 \<Longrightarrow> home (bin_at s i) = i"
    and z: "\<And>p sz. cm p = Some (sz, False) \<Longrightarrow> home p = 1 \<and> fd s p = ?lr \<or> home p = bin_index sz"
    unfolding links_at_def by blast+
  have nod: "q \<in> nodes (av s) H" if "q \<in> insert p ?N" for q
    using nodes_of[OF S(2)] that p(1) unfolding nodes_def by auto
  have pb: "p \<notin> bins (av s)" by (rule free_not_bin[OF S(1) p(1)])
  have lr: "?lr \<in> ?N" "home ?lr = 1" using lr_bin h[of 1] by (auto simp: last_remainder_def)
  note e = link_last_remainder_effect[OF S(1) p(1)]
  have avs: "av ?s = av s" using e(6) by (simp add: statics_def)
  have lrs: "last_remainder ?s = ?lr" using avs by (simp add: last_remainder_def bin_at_eq)
  have f: "free_set (cm(p \<mapsto> (sz, False))) = insert p (free_set cm)" unfolding free_set_def by auto
  have N: "free_set (cm(p \<mapsto> (sz, False))) \<union> bins (av ?s) = insert p ?N" unfolding avs f by simp
  have "ring (fd ?s) (bk ?s) (home(p := home ?lr)) (insert p ?N)"
    by (rule ring_link[OF r _ lr(1), where c = ?lr]) (use p pb nod e(1,2) assms(4) in auto)
  moreover have "(home(p := 1)) (bin_at ?s i) = i" if "1 \<le> i \<and> i < 128" for i
    using h[OF that] pb bin_at_in_bins[of i s] that avs by (auto simp: bin_at_eq)
  moreover have "(home(p := 1)) q = 1 \<and> fd ?s q = last_remainder ?s \<or> (home(p := 1)) q = bin_index s'"
    if q: "(cm(p \<mapsto> (sz, False))) q = Some (s', False)" for q s'
  proof (cases "q = p")
    case True
    then show ?thesis using e(1)[of q] nod[of q] pb lr_bin[of s] lrs by auto
  next
    case False
    then have q': "cm q = Some (s', False)" using q by simp
    then have qN: "q \<in> ?N" using free_setI by blast
    have "q \<in> H" using q' S(2) by blast
    then have "q \<noteq> ?lr" using free_not_bin[OF S(1)] lr_bin[of s] by blast
    then have "fd ?s q = fd s q" using e(1)[OF nod, of q] qN False by simp
    then show ?thesis using z[OF q'] False lrs by simp
  qed
  ultimately show ?thesis unfolding links_def links_at_def N using lr(2) by (intro exI[of _ "home(p := 1)"]) simp
qed

lemma links_lr_replace:
  assumes S: "sep (av s) H" "dom cm \<subseteq> H" and "links s cm" and "sizes_ok cm" and x: "x \<in> free_set cm" "fd s x = last_remainder s"
    and p: "p \<in> H" "p \<notin> free_set cm"
  shows "links (link_last_remainder p s) (cm(x := None, p \<mapsto> (sz, False)))"
proof -
  let ?s = "clear_last_remainder s" and ?cm = "cm(x := None)"
  note c = clear_last_remainder_effect[OF S(1)]
  have av: "av ?s = av s" using c(6) by (simp add: statics_def)
  have lr: "last_remainder ?s = last_remainder s" using av by (simp add: last_remainder_def bin_at_eq)
  have lrn: "last_remainder s \<in> nodes (av s) H" using lr_bin[of s] unfolding nodes_def by blast
  have "links (link_last_remainder p ?s) (?cm(p \<mapsto> (sz, False)))"
  proof (rule links_lr_empty)
    show "links ?s ?cm" by (rule links_clear_lr[OF assms(1-6)])
    show "fd ?s (last_remainder ?s) = last_remainder ?s" unfolding lr using c(1)[OF lrn] by simp
    show "dom ?cm \<subseteq> H" "p \<notin> free_set ?cm" using S(2) p(2) unfolding free_set_def by auto
  qed (use S(1) av p in auto)
  then show ?thesis
  proof (rule links_cong)
    have avl: "av (link_last_remainder p ?s) = av s" "av (link_last_remainder p s) = av s"
      using link_last_remainder_effect(6)[OF S(1) p(1)] link_last_remainder_effect(6)[of ?s H p] S(1) av p(1)
      by (simp_all add: statics_def)
    then show "av (link_last_remainder p s) = av (link_last_remainder p ?s)" by simp
    fix q assume "q \<in> free_set (?cm(p \<mapsto> (sz, False))) \<union> bins (av (link_last_remainder p ?s))"
    then have "q \<in> nodes (av s) H" unfolding avl using p(1) S(2) unfolding free_set_def nodes_def by (auto split: if_splits)
    then show "fd (link_last_remainder p s) q = fd (link_last_remainder p ?s) q" "bk (link_last_remainder p s) q = bk (link_last_remainder p ?s) q"
      using link_last_remainder_effect(1,2)[OF S(1) p(1)] link_last_remainder_effect(1,2)[of ?s H p q] S(1) av p(1) c(1,2) lr by auto
  qed simp
qed

end
