(* ===== verification/Malloc_Alloc.thy ===== *)
theory Malloc_Alloc
  imports Malloc_Prims
begin

text \<open>
  \<open>malloc\<close> on the free chunks of the arena: exact fits, the last remainder and the search of the
  bins.  \<open>blocks\<close> is the abstract heap, the chunks in use; each way to serve a request adds one block
  to it, keeps the invariant, and writes only to memory the allocator owns.
\<close>

definition blocks_of :: "chunks \<Rightarrow> u64 \<Rightarrow> u64 option" where
  "blocks_of cm p = (case cm p of Some (sz, True) \<Rightarrow> Some sz | _ \<Rightarrow> None)"

definition allocates :: "nat \<Rightarrow> u64 \<Rightarrow> u64 \<Rightarrow> u64 \<Rightarrow> chunks \<Rightarrow> u64 \<Rightarrow> 'h mstate \<Rightarrow> u64 \<Rightarrow> 'h mstate \<Rightarrow> bool" where
  "allocates lim base tp tsz cm nb s m s' \<longleftrightarrow>
     (\<exists>v sz cm'. m = chunk2mem v \<and> unat nb \<le> unat sz \<and> malloc_ok lim base tp tsz cm' s' \<and> blocks_of cm v = None \<and>
        blocks_of cm' = (blocks_of cm)(v \<mapsto> sz) \<and> card (dom cm') \<le> card (dom cm) + 1 \<and>
        keeps (owned (av s) lim tp cm) s s' \<and> statics s s')"

subsection \<open>Head fields\<close>

lemma layout_next_in: "layout base tp cm \<Longrightarrow> cm p = Some (sz, u) \<Longrightarrow> p + sz \<in> insert tp (dom cm)"
  using layoutD(6) by blast

lemma headsD:
  assumes "heads s base tp tsz cm"
  shows "top s = tp" "hsize (head s tp) = tsz" "pbit (head s base)"
    "cm p = Some (sz, u) \<Longrightarrow> hsize (head s p) = sz" "cm p = Some (sz, u) \<Longrightarrow> (pbit (head s (p + sz)) \<longleftrightarrow> u)"
    "cm p = Some (sz, False) \<Longrightarrow> prev_size s (p + sz) = sz" "cm p = Some (sz, False) \<Longrightarrow> \<exists>sz'. cm (p + sz) = Some (sz', True)"
  using assms unfolding heads_def by auto

lemma heads_chunksize: "heads s base tp tsz cm \<Longrightarrow> layout base tp cm \<Longrightarrow> cm p = Some (sz, u) \<Longrightarrow> chunksize s p = sz"
  unfolding chunksize_def SIZE_BITS_def using headsD(4) layoutD(2) by (blast intro: and_not_3)

lemma free_prev_inuse:
  assumes "layout base tp cm" and "heads s base tp tsz cm" and "cm v = Some (sz, False) \<or> v = tp"
  shows "pbit (head s v)"
proof (cases "v = base")
  case True
  then show ?thesis using headsD(3)[OF assms(2)] by simp
next
  case False
  then obtain p s' u where p: "cm p = Some (s', u)" "p + s' = v"
    using layout_pred[OF assms(1), of v] assms(3) by blast
  have "u"
  proof (rule ccontr)
    assume "\<not> u"
    then obtain s'' where "cm v = Some (s'', True)" using headsD(7)[OF assms(2), of p s'] p by auto
    then show False using assms(3) layoutD(8)[OF assms(1)] by fastforce
  qed
  then show ?thesis using headsD(5)[OF assms(2) p(1)] p(2) by simp
qed

lemma heads_take:
  assumes lay: "layout base tp cm" and hd: "heads s base tp tsz cm" and v: "cm v = Some (sz, False)"
    and "top s' = top s"
    and h: "\<And>q. q \<in> insert tp (dom cm) \<Longrightarrow> head s' q = (if q = v + sz then head s q OR 1 else head s q)"
    and f: "\<And>q. q \<in> insert tp (dom cm) \<Longrightarrow> prev_size s' q = prev_size s q"
  shows "heads s' base tp tsz (cm(v \<mapsto> (sz, True)))"
proof -
  note D = headsD[OF hd]
  have not1: "hsize (head s' q) = hsize (head s q)" if "q \<in> insert tp (dom cm)" for q
    using h[OF that] by simp
  have "pbit (head s' base)" using h[OF layout_base_in[OF lay]] D(3) by simp
  moreover have "hsize (head s' p) = s2 \<and> (pbit (head s' (p + s2)) \<longleftrightarrow> u) \<and>
      (\<not> u \<longrightarrow> prev_size s' (p + s2) = s2 \<and> (\<exists>sz'. (cm(v \<mapsto> (sz, True))) (p + s2) = Some (sz', True)))"
    if p: "(cm(v \<mapsto> (sz, True))) p = Some (s2, u)" for p s2 u
  proof (cases "p = v")
    case True
    then have e: "s2 = sz" "u" using p by auto
    have "p \<in> insert tp (dom cm)" using True v by auto
    then show ?thesis using True e not1[of p] D(4)[OF v] h[OF layout_next_in[OF lay v]] by simp
  next
    case False
    then have p': "cm p = Some (s2, u)" using p by simp
    have "p + s2 \<noteq> v + sz" using layout_pred_unique[OF lay p' v] False by auto
    moreover have "p \<in> insert tp (dom cm)" using p' by auto
    ultimately show ?thesis
      using p' not1[of p] D(4,5)[OF p'] D(6,7)[of p s2] h[OF layout_next_in[OF lay p']] f[OF layout_next_in[OF lay p']]
      by (cases u) auto
  qed
  ultimately show ?thesis unfolding heads_def using assms(4) D(1,2) not1[of tp] by simp
qed

lemma heads_split:
  assumes lay: "layout base tp cm" and hd: "heads s base tp tsz cm" and v: "cm v = Some (sz, False)"
    and n: "aligned n" "32 \<le> unat n" "unat n + 32 \<le> unat sz" and "top s' = top s"
    and h: "\<And>q. q \<in> insert (v + n) (insert tp (dom cm)) \<Longrightarrow>
      head s' q = (if q = v then n OR 1 else if q = v + n then (sz - n) OR 1 else head s q)"
    and f: "\<And>q. q \<in> insert (v + n) (insert tp (dom cm)) \<Longrightarrow> prev_size s' q = (if q = v + sz then sz - n else prev_size s q)"
  shows "heads s' base tp tsz (cm(v \<mapsto> (n, True), v + n \<mapsto> (sz - n, False)))"
proof -
  note D = headsD[OF hd]
  let ?H = "insert (v + n) (insert tp (dom cm))" and ?cm = "cm(v \<mapsto> (n, True), v + n \<mapsto> (sz - n, False))"
  note P = layoutD[OF lay v] and sp = layout_split(2-4)[OF lay v n]
  have an: "aligned (sz - n)" using P(2) n(1) by blast
  have prev1: "pbit (head s v)" using free_prev_inuse[OF lay hd] v by blast
  have bit: "pbit (head s' q) \<longleftrightarrow> pbit (head s q)" if "q \<in> insert tp (dom cm)" for q
    using that h[of q] sp(1,2) prev1  by auto
  obtain nx where nx: "cm (v + sz) = Some (nx, True)" using D(7)[OF v] by blast
  have e: "v + n + (sz - n) = v + sz" by simp
  have "hsize (head s' tp) = tsz" using h[of tp] P(8) sp(2) D(2) by auto
  moreover have "pbit (head s' base)" using bit[OF layout_base_in[OF lay]] D(3) by simp
  moreover have "hsize (head s' p) = s2 \<and> (pbit (head s' (p + s2)) \<longleftrightarrow> u) \<and>
      (\<not> u \<longrightarrow> prev_size s' (p + s2) = s2 \<and> (\<exists>sz'. ?cm (p + s2) = Some (sz', True)))"
    if p: "?cm p = Some (s2, u)" for p s2 u
  proof -
    consider "p = v + n" "s2 = sz - n" "\<not> u" | "p = v" "s2 = n" "u" | "p \<noteq> v" "p \<noteq> v + n" "cm p = Some (s2, u)"
      using p sp(3) by (auto split: if_splits)
    then show ?thesis
    proof cases
      case 1
      have "v + sz \<noteq> v + n" "v + sz \<noteq> v" using sp(1) nx P(9) by auto
      then have "?cm (v + sz) = Some (nx, True)" using nx by simp
      then show ?thesis
        using 1 h[of "v + n"] sp(3) an bit[OF layout_next_in[OF lay v]] D(5)[OF v] f[of "v + sz"]
          layout_next_in[OF lay v] e by simp
    next
      case 2
      have "v \<in> insert tp (dom cm)" using v by auto
      then show ?thesis using 2 h[of v] h[of "v + n"] sp(3) n(1) an  by auto
    next
      case 3
      have pH: "p \<in> ?H" "p + s2 \<in> ?H" using 3(3) layout_next_in[OF lay 3(3)] by auto
      have pn: "p + s2 \<noteq> v + n" using layout_next_in[OF lay 3(3)] sp(1,2) by auto
      have "p + s2 \<noteq> v + sz" using layout_pred_unique[OF lay 3(3) v] 3(1) by auto
      moreover have "?cm (p + s2) = Some (sz', True)" if "cm (p + s2) = Some (sz', True)" for sz'
        using that pn v by auto
      ultimately show ?thesis
        using 3 h[OF pH(1)] f[OF pH(2)] bit[OF layout_next_in[OF lay 3(3)]] D(4,5)[OF 3(3)] D(6,7)[of p s2] by (cases u) auto
    qed
  qed
  ultimately show ?thesis unfolding heads_def using assms(7) D(1) by simp
qed

lemma heads_top_split:
  assumes lay: "layout base tp cm" and hd: "heads s base tp tsz cm" and n: "aligned n" "32 \<le> unat n" "unat tp + unat n < 2 ^ 64"
    and r: "aligned r" and "top s' = tp + n"
    and h: "\<And>q. q \<in> insert (tp + n) (insert tp (dom cm)) \<Longrightarrow>
      head s' q = (if q = tp then n OR 1 else if q = tp + n then r OR 1 else head s q)"
    and f: "\<And>q. q \<in> insert tp (dom cm) \<Longrightarrow> prev_size s' q = prev_size s q"
  shows "heads s' base (tp + n) r (cm(tp \<mapsto> (n, True)))"
proof -
  note D = headsD[OF hd]
  have un: "unat (tp + n) = unat tp + unat n" using n(3) by (rule unat_add_small)
  have new: "tp + n \<notin> insert tp (dom cm)"
  proof
    assume "tp + n \<in> insert tp (dom cm)"
    then consider "tp + n = tp" | p sz u where "cm p = Some (sz, u)" "tp + n = p" by auto
    then show False using un n(2) layoutD(5)[OF lay] by cases fastforce+
  qed
  have prev1: "pbit (head s tp)" using free_prev_inuse[OF lay hd] by blast
  have bit: "pbit (head s' q) \<longleftrightarrow> pbit (head s q)" if "q \<in> insert tp (dom cm)" for q
    using that h[of q] new prev1  by auto
  have ntp: "cm tp = None" using layoutD(8)[OF lay] by (cases "cm tp") auto
  have "hsize (head s' (tp + n)) = r" using h[of "tp + n"] new r by auto
  moreover have "pbit (head s' base)" using bit[OF layout_base_in[OF lay]] D(3) by simp
  moreover have "hsize (head s' p) = s2 \<and> (pbit (head s' (p + s2)) \<longleftrightarrow> u) \<and>
      (\<not> u \<longrightarrow> prev_size s' (p + s2) = s2 \<and> (\<exists>sz'. (cm(tp \<mapsto> (n, True))) (p + s2) = Some (sz', True)))"
    if p: "(cm(tp \<mapsto> (n, True))) p = Some (s2, u)" for p s2 u
  proof (cases "p = tp")
    case True
    then show ?thesis using p h[of tp] h[of "tp + n"] new n(1) r by auto
  next
    case False
    then have p': "cm p = Some (s2, u)" using p by simp
    have pH: "p \<in> insert tp (dom cm)" using p' by auto
    have nx: "p + s2 \<in> insert tp (dom cm)" by (rule layout_next_in[OF lay p'])
    have "p \<noteq> tp + n" using pH new by blast
    then have "head s' p = head s p" using h[of p] pH False by simp
    moreover have "(cm(tp \<mapsto> (n, True))) (p + s2) = Some (sz', True)" if "cm (p + s2) = Some (sz', True)" for sz'
      using that ntp by auto
    ultimately show ?thesis using D(4,5)[OF p'] D(6,7)[of p s2] bit[OF nx] f[OF nx] p' by (cases u) auto
  qed
  ultimately show ?thesis unfolding heads_def using assms(7) by blast
qed

subsection \<open>Owned memory\<close>

lemma malloc_okD:
  assumes "malloc_ok lim base tp tsz cm s"
  shows "layout base tp cm" "arena (av s) (unat base) lim" "aligned tsz" "32 \<le> unat tsz" "unat tp + unat tsz \<le> lim"
    "heads s base tp tsz cm" "links s cm" "lim < 2 ^ 62" "sep (av s) (insert tp (dom cm))" "sizes_ok cm" "finite (dom cm)"
    "binblocks s < 2 ^ 32"
proof -
  show *: "layout base tp cm" "arena (av s) (unat base) lim" "aligned tsz" "32 \<le> unat tsz" "unat tp + unat tsz \<le> lim"
    "heads s base tp tsz cm" "links s cm" "binblocks s < 2 ^ 32"
    using assms unfolding malloc_ok_def by blast+
  then show "lim < 2 ^ 62" "sizes_ok cm" "finite (dom cm)"
    using layout_sizes layout_finite unfolding arena_def by blast+
  show "sep (av s) (insert tp (dom cm))" using * by (intro layout_sep) auto
qed

lemma owned_free:
  assumes "malloc_ok lim base tp tsz cm s" and "cm p = Some (sz, False)"
    and "unat x = unat p + k" and "8 \<le> k" and "k \<le> unat sz"
  shows "x \<in> owned a lim tp cm"
proof -
  have "cm p = Some (sz, False) \<and> unat p + 8 \<le> unat x \<and> unat x \<le> unat p + unat sz" using assms(2-5) by simp
  then show ?thesis unfolding owned_def by blast
qed

lemma unat_plus:
  assumes "malloc_ok lim base tp tsz cm s" and "p \<in> insert tp (dom cm)" and "k \<le> 32"
  shows "unat (p + of_nat k) = unat p + k"
proof -
  note D = malloc_okD[OF assms(1)]
  have "unat p \<le> lim"
  proof (cases "p = tp")
    case False
    then obtain sz u where "cm p = Some (sz, u)" using assms(2) by auto
    then show ?thesis using layoutD(5)[OF D(1)] D(5) by fastforce
  qed (use D(5) in simp)
  moreover have "unat (of_nat k :: u64) = k" using assms(3) by (simp add: unat_of_nat)
  ultimately show ?thesis using D(8) assms(3) by (subst unat_add_small) auto
qed

lemma owned_head:
  assumes "malloc_ok lim base tp tsz cm s" and "p \<in> insert tp (dom cm)"
  shows "p + 8 \<in> owned a lim tp cm"
proof (cases "p = tp")
  case True
  then show ?thesis using unat_plus[OF assms, of 8] malloc_okD(4,5)[OF assms(1)] unfolding owned_def by simp
next
  case False
  then show ?thesis using assms(2) unfolding owned_def by blast
qed

lemma linkset_owned:
  assumes "malloc_ok lim base tp tsz cm s"
  shows "linkset (av s) cm \<subseteq> owned (av s) lim tp cm"
proof
  fix x assume "x \<in> linkset (av s) cm"
  then consider p where "p \<in> bins (av s)" "x = p + 16 \<or> x = p + 24" | p sz where "cm p = Some (sz, False)" "x = p + 16 \<or> x = p + 24"
    unfolding linkset_def free_set_def by blast
  then show "x \<in> owned (av s) lim tp cm"
  proof cases
    case 1
    then have "in_av (av s) x" using in_av_bins by blast
    then show ?thesis unfolding owned_def by blast
  next
    case 2
    then have "unat (p + 16) = unat p + 16" "unat (p + 24) = unat p + 24" "32 \<le> unat sz"
      using unat_plus[OF assms, of p 16] unat_plus[OF assms, of p 24] layoutD(3)[OF malloc_okD(1)[OF assms]] by auto
    then show ?thesis using owned_free[OF assms 2(1), of "p + 16" 16] owned_free[OF assms 2(1), of "p + 24" 24] 2(2) by auto
  qed
qed

lemma malloc_ok_eq:
  assumes "mlong s' = mlong s" and "av s' = av s"
  shows "malloc_ok lim base tp tsz cm s' = malloc_ok lim base tp tsz cm s"
proof -
  have f: "fd s' = fd s" "bk s' = bk s" "head s' = head s" "prev_size s' = prev_size s" "top s' = top s"
    "last_remainder s' = last_remainder s" "bin_at s' = bin_at s" "binblocks s' = binblocks s"
    using assms by (auto simp: binblocks_def fun_eq_iff fd_def bk_def head_def prev_size_def top_def last_remainder_def bin_at_eq)
  show ?thesis unfolding malloc_ok_def heads_def links_def links_at_def f assms(2) ..
qed

lemma lock_simps [simp]:
  "mlong (MALLOC_LOCK s) = mlong s" "av (MALLOC_LOCK s) = av s" "mlong (MALLOC_UNLOCK s) = mlong s" "av (MALLOC_UNLOCK s) = av s"
  by (simp_all add: MALLOC_LOCK_def MALLOC_UNLOCK_def)

lemma lock_ok [simp]:
  "malloc_ok lim base tp tsz cm (MALLOC_LOCK s) = malloc_ok lim base tp tsz cm s"
  "malloc_ok lim base tp tsz cm (MALLOC_UNLOCK s) = malloc_ok lim base tp tsz cm s"
  by (rule malloc_ok_eq; simp)+

subsection \<open>Serving a request from a free chunk\<close>

lemma card_upd: "finite (dom cm) \<Longrightarrow> card (dom (cm(v \<mapsto> x))) \<le> card (dom cm) + 1"
  by (simp add: card_insert_if)

lemma blocks_free: "cm v = Some (sz, False) \<Longrightarrow> blocks_of cm v = None"
  by (simp add: blocks_of_def)

lemma serve_whole:
  assumes ok: "malloc_ok lim base tp tsz cm s" and v: "cm v = Some (sz, False)" and nb: "unat nb \<le> unat sz"
    and st: "statics s s'" and top: "top s' = top s" and bb: "binblocks s' = binblocks s" and L: "links s' (cm(v := None))"
    and h: "\<And>q. q \<in> insert tp (dom cm) \<Longrightarrow> head s' q = (if q = v + sz then head s q OR 1 else head s q)"
    and f: "\<And>q. q \<in> insert tp (dom cm) \<Longrightarrow> prev_size s' q = prev_size s q"
    and k: "keeps (owned (av s) lim tp cm) s s'"
  shows "allocates lim base tp tsz cm nb s (chunk2mem v) s'"
proof -
  note D = malloc_okD[OF ok]
  let ?cm = "cm(v \<mapsto> (sz, True))"
  have "links s' ?cm" by (rule links_cong[OF L]) (use v in auto)
  moreover have "av s' = av s" by (rule statics_av[OF st])
  ultimately have "malloc_ok lim base tp tsz ?cm s'"
    unfolding malloc_ok_def using D bb layout_flag[OF D(1) v] heads_take[OF D(1,6) v top h f] by simp
  moreover have "blocks_of ?cm = (blocks_of cm)(v \<mapsto> sz)" by (auto simp: blocks_of_def fun_eq_iff)
  moreover have "card (dom ?cm) \<le> card (dom cm) + 1" by (rule card_upd[OF D(11)])
  ultimately show ?thesis unfolding allocates_def using nb k st blocks_free[of cm v sz] v by blast
qed

lemma take_chunk_ok:
  assumes ok: "malloc_ok lim base tp tsz cm s" and v: "cm v = Some (sz, False)" and nb: "unat nb \<le> unat sz"
  shows "\<exists>s'. take_chunk v s = (chunk2mem v, MALLOC_UNLOCK s') \<and> allocates lim base tp tsz cm nb s (chunk2mem v) s'"
proof -
  note D = malloc_okD[OF ok]
  have F: "v \<in> free_set cm" using v by (rule free_setI)
  have nod: "q \<in> nodes (av s) (insert tp (dom cm))" if "q \<in> free_set cm \<union> bins (av s)" for q
    by (rule nodes_of[OF _ that]) auto
  note n = links_nodes(1,2)[OF D(7), of v]
  note u = unlink_effect[OF D(9) nod[OF n(1)] nod[OF n(2)]]
  let ?s1 = "unlink v s" and ?s2 = "set_inuse_bit_at_offset v sz (unlink v s)"
  have next_in: "v + sz \<in> insert tp (dom cm)" by (rule layout_next_in[OF D(1) v])
  have S1: "sep (av ?s1) (insert tp (dom cm))" using D(9) u(7) F by (simp add: statics_def)
  have avs: "av ?s1 = av s" using u(7) F by (simp add: statics_def)
  note o = other_field[OF S1]
  have "allocates lim base tp tsz cm nb s (chunk2mem v) ?s2"
  proof (rule serve_whole[OF ok v nb])
    show "statics s ?s2" using u(7) F by (simp add: set_inuse_bit_at_offset_def)
    show "top ?s2 = top s" using u(5) F next_in o(14) by (simp add: set_inuse_bit_at_offset_def)
    show "binblocks ?s2 = binblocks s" using u(6) F next_in o(15) by (simp add: set_inuse_bit_at_offset_def)
    obtain home where "links_at s cm home" using D(7) unfolding links_def by blast
    then have "links ?s1 (cm(v := None))" using links_at_unlink[OF D(9) _ _ F] unfolding links_def by blast
    then show "links ?s2 (cm(v := None))"
    proof (rule links_cong)
      fix q assume "q \<in> free_set (cm(v := None)) \<union> bins (av ?s1)"
      then have "q \<in> nodes (av ?s1) (insert tp (dom cm))"
        unfolding nodes_def free_set_def by (auto split: if_splits)
      then show "fd ?s2 q = fd ?s1 q" "bk ?s2 q = bk ?s1 q"
        using next_in o(11,12) by (simp_all add: set_inuse_bit_at_offset_def)
    qed (simp_all add: set_inuse_bit_at_offset_def)
    show "head ?s2 q = (if q = v + sz then head s q OR 1 else head s q)" if "q \<in> insert tp (dom cm)" for q
      using that u(3) F next_in by (simp add: set_inuse_bit_at_offset_def PREV_INUSE_def)
    show "prev_size ?s2 q = prev_size s q" if "q \<in> insert tp (dom cm)" for q
      using that u(4) F next_in o(13) by (simp add: set_inuse_bit_at_offset_def)
    have "keeps (owned (av s) lim tp cm) s ?s1"
      using keeps_mono[OF unlink_keeps[OF D(7) F] linkset_owned[OF ok]] .
    then show "keeps (owned (av s) lim tp cm) s ?s2"
      unfolding set_inuse_bit_at_offset_def set_head_def by (intro keeps_set_long owned_head[OF ok next_in])
  qed
  moreover have "chunksize s v = sz" by (rule heads_chunksize[OF D(6,1) v])
  ultimately show ?thesis by (auto simp: take_chunk_def Let_def)
qed

lemma serve_split:
  assumes ok: "malloc_ok lim base tp tsz cm s" and v: "cm v = Some (sz, False)"
    and n: "aligned n" "32 \<le> unat n" "unat n + 32 \<le> unat sz"
    and st: "statics s s2" and top: "top s2 = top s" and bb: "binblocks s2 = binblocks s" and k: "keeps (owned (av s) lim tp cm) s s2"
    and h: "\<And>q. q \<in> insert (v + n) (insert tp (dom cm)) \<Longrightarrow> head s2 q = (if q = v then n OR 1 else head s q)"
    and f: "\<And>q. q \<in> insert (v + n) (insert tp (dom cm)) \<Longrightarrow> prev_size s2 q = prev_size s q"
    and L: "links (link_last_remainder (v + n) s2) (cm(v := None, v + n \<mapsto> (sz - n, False)))"
  shows "\<exists>s'. split_remainder v n (sz - n) s2 = (chunk2mem v, MALLOC_UNLOCK s') \<and> allocates lim base tp tsz cm n s (chunk2mem v) s'"
proof -
  note D = malloc_okD[OF ok] and P = layoutD[OF malloc_okD(1)[OF ok] v]
  note sp = layout_split(1)[OF D(1) v n, where v = True and w = False] layout_split(2-4)[OF D(1) v n]
  let ?r = "v + n" and ?cm = "cm(v \<mapsto> (n, True), v + n \<mapsto> (sz - n, False))"
  let ?H = "insert (v + n) (insert tp (dom cm))"
  let ?a = "link_last_remainder ?r s2" let ?b = "set_head ?r ((sz - n) OR 1) ?a" let ?c = "set_foot ?r (sz - n) ?b"
  have avs: "av s2 = av s" by (rule statics_av[OF st])
  have none: "cm (v + n) = None" using sp(2) by blast
  have H: "insert tp (dom ?cm) = ?H" using v by auto
  have S: "sep (av s2) ?H" using layout_sep[OF sp(1) D(2)] D(4,5) H avs by auto
  have rH: "?r \<in> ?H" by simp
  note e = link_last_remainder_effect[OF S rH]
  have ava: "av ?a = av s" using e(6) avs by (simp add: statics_def)
  have Sa: "sep (av ?a) ?H" "sep (av ?b) ?H" using S ava avs by simp_all
  note oa = other_field[OF Sa(1)] and ob = other_field[OF Sa(2)]
  have nx: "?r + (sz - n) = v + sz" by simp
  have nxH: "?r + (sz - n) \<in> ?H" unfolding nx using layout_next_in[OF D(1) v] by blast
  have "heads ?c base tp tsz ?cm"
  proof (rule heads_split[OF D(1,6) v n])
    show "top ?c = top s" using ob(19)[OF nxH] oa(14)[OF rH] e(5) top by simp
    show "head ?c q = (if q = v then n OR 1 else if q = v + n then (sz - n) OR 1 else head s q)" if "q \<in> ?H" for q
    proof -
      have "head ?c q = (if q = v + n then (sz - n) OR 1 else head s2 q)" using ob(18)[OF nxH that] e(3)[OF that] by simp
      then show ?thesis using h[OF that] sp(4) by auto
    qed
    show "prev_size ?c q = (if q = v + sz then sz - n else prev_size s q)" if "q \<in> ?H" for q
      using that oa(13)[OF rH that] e(4)[OF that] f[OF that] nx by simp
  qed
  moreover have "links ?c ?cm"
  proof (rule links_cong[OF L])
    fix q assume "q \<in> free_set (cm(v := None, v + n \<mapsto> (sz - n, False))) \<union> bins (av ?a)"
    then have q: "q \<in> nodes (av ?b) ?H" "q \<in> nodes (av ?a) ?H" unfolding nodes_def free_set_def by (auto split: if_splits)
    show "fd ?c q = fd ?a q" "bk ?c q = bk ?a q"
      using ob(16,17)[OF nxH q(1)] oa(11,12)[OF rH q(2)] by simp_all
  qed (use v in auto)
  moreover have "keeps (owned (av s) lim tp cm) s ?c"
  proof -
    have lr: "{x. in_av (av s) x} \<union> {?r + 16, ?r + 24} \<subseteq> owned (av s) lim tp cm" "?r + 8 \<in> owned (av s) lim tp cm"
      "?r + (sz - n) \<in> owned (av s) lim tp cm"
    proof -
      have un: "unat ?r = unat v + unat n" using P(5) n(3) D(8,5,4) by (intro unat_add_small) auto
      then have "unat (?r + 8) = unat v + (unat n + 8)" "unat (?r + 16) = unat v + (unat n + 16)" "unat (?r + 24) = unat v + (unat n + 24)"
        using P(5) n(3) D(8,5,4) by (simp_all add: unat_add_small)
      then show "?r + 8 \<in> owned (av s) lim tp cm" "{x. in_av (av s) x} \<union> {?r + 16, ?r + 24} \<subseteq> owned (av s) lim tp cm"
        using owned_free[OF ok v, of "?r + 8" "unat n + 8"] owned_free[OF ok v, of "?r + 16" "unat n + 16"]
          owned_free[OF ok v, of "?r + 24" "unat n + 24"] n(3) by (auto simp: owned_def)
      show "?r + (sz - n) \<in> owned (av s) lim tp cm"
        using owned_free[OF ok v, of "v + sz" "unat sz"] P(3,7) nx by simp
    qed
    have "keeps (owned (av s) lim tp cm) s2 ?a" using keeps_mono[OF lr_keeps(1)[of s2 ?r]] lr(1) avs by simp
    then have "keeps (owned (av s) lim tp cm) s ?a" using k keeps_trans by blast
    then show ?thesis unfolding set_foot_def set_head_def using lr(2,3) by (intro keeps_set_long)
  qed
  moreover have "statics s ?c" using st e(6) statics_trans by fastforce
  moreover have "blocks_of ?cm = (blocks_of cm)(v \<mapsto> n)"
    using none sp(4) by (auto simp: blocks_of_def fun_eq_iff)
  moreover have "card (dom ?cm) \<le> card (dom cm) + 1"
    using D(11) v by (simp add: card_insert_if insert_absorb domIff)
  moreover have "av ?c = av s" using ava by simp
  moreover have "binblocks ?c = binblocks s" using ob(20)[OF nxH] oa(15)[OF rH] e(7) bb by simp
  ultimately have "malloc_ok lim base tp tsz ?cm ?c" "keeps (owned (av s) lim tp cm) s ?c" "statics s ?c"
      "blocks_of ?cm = (blocks_of cm)(v \<mapsto> n)" "card (dom ?cm) \<le> card (dom cm) + 1"
    unfolding malloc_ok_def using sp(1) D(2-5,12) by simp_all
  then have "allocates lim base tp tsz cm n s (chunk2mem v) ?c"
    unfolding allocates_def using blocks_free[of cm v sz] v by blast
  then show ?thesis by (auto simp: split_remainder_def Let_def chunk_at_offset_def PREV_INUSE_def)
qed

end
