(* ===== verification/Malloc_Search.thy ===== *)
theory Malloc_Search
  imports Malloc_Alloc
begin

text \<open>
  The searches of \<open>malloc\<close>: the exact fit, the last remainder, and the bins from an index on.  Each
  ends within the budget, and finds a free chunk that is large enough or leaves the arena as it is.
\<close>

subsection \<open>The members of a bin\<close>

lemma bin_member:
  assumes L: "links_at s cm home" and v: "v \<in> free_set cm \<union> bins (av s)" "home v = i" "v \<noteq> bin_at s i" and "i \<noteq> 1"
  obtains sz where "cm v = Some (sz, False)" "bin_index sz = i"
proof -
  have h: "\<forall>i. 1 \<le> i \<and> i < 128 \<longrightarrow> home (bin_at s i) = i"
    and z: "\<And>p sz. cm p = Some (sz, False) \<Longrightarrow> home p = 1 \<and> fd s p = last_remainder s \<or> home p = bin_index sz"
    using L unfolding links_at_def by blast+
  have "v \<notin> bins (av s)"
  proof
    assume "v \<in> bins (av s)"
    then obtain j where j: "1 \<le> j \<and> j < 128" "v = bin_at s j" unfolding bins_def bin_at_eq by auto
    then have "j = i" using h v(2) by metis
    then show False using j(2) v(3) by simp
  qed
  then obtain sz where sz: "cm v = Some (sz, False)" using v(1) unfolding free_set_def by blast
  then have "bin_index sz = i" using z[OF sz] v(2) assms(5) by auto
  then show ?thesis using sz that by blast
qed

lemma small_bin: "bin_index sz < 64 \<Longrightarrow> unat sz div 8 = bin_index sz"
proof (cases "drop_bit 9 sz = 0")
  case True
  then show "unat sz div 8 = bin_index sz" using unat_drop[of 3 sz] by (simp add: bin_index_def)
next
  case False
  assume small: "bin_index sz < 64"
  have d: "unat (drop_bit k sz) = unat sz div 2 ^ k" for k by (rule unat_drop)
  have "unat (drop_bit 9 sz) \<noteq> 0" using False unat_eq_zero by blast
  then have "512 \<le> unat sz" using d[of 9] by (simp add: div_eq_0_iff)
  then have "8 \<le> unat (drop_bit 6 sz)" using d[of 6] by simp
  then have "64 \<le> bin_index sz" using False by (auto simp: bin_index_def)
  then show "unat sz div 8 = bin_index sz" using small by simp
qed

lemma links_returns:
  assumes L: "links_at s cm home" and fin: "finite (dom cm)" and i: "1 \<le> i" "i < 128" and k: "card (free_set cm) + 128 \<le> k"
  obtains n where "n < k" "(bk s ^^ n) (bk s (bin_at s i)) = bin_at s i"
proof -
  let ?N = "free_set cm \<union> bins (av s)"
  have r: "ring (fd s) (bk s) home ?N" using L unfolding links_at_def by blast
  have "finite ?N" using fin finite_bins(1) by (meson finite_UnI finite_subset free_set_dom)
  moreover have "bin_at s i \<in> ?N" using bin_at_in_bins[OF i] by blast
  moreover have "card ?N < k" using k finite_bins(2)[of "av s"] card_Un_le[of "free_set cm" "bins (av s)"] by linarith
  ultimately show ?thesis using ring_returns[OF r] that by (meson order_less_trans)
qed

text \<open>Both walks go backwards along a bin's list.\<close>

lemma large_exact_walk:
  assumes "ring (fd s) (bk s) home N" and "b \<in> N"
  shows "(bk s ^^ n) v = b \<Longrightarrow> n < k \<Longrightarrow> v \<in> N \<Longrightarrow> home v = home b \<Longrightarrow>
    \<exists>r. large_exact k nb b v s = Ok r \<and>
      (\<forall>w. r = Fits w \<longrightarrow> w \<in> N \<and> home w = home b \<and> w \<noteq> b \<and> 0 \<le>s chunksize s w - nb)"
proof (induction n arbitrary: v k)
  case 0
  then obtain k' where "k = Suc k'" by (cases k) auto
  then show ?case using 0 by simp
next
  case (Suc n)
  then obtain k' where k: "k = Suc k'" by (cases k) auto
  have "(bk s ^^ n) (bk s v) = b" using Suc.prems(1) by (simp add: funpow_swap1)
  then have "\<exists>r. large_exact k' nb b (bk s v) s = Ok r \<and>
      (\<forall>w. r = Fits w \<longrightarrow> w \<in> N \<and> home w = home b \<and> w \<noteq> b \<and> 0 \<le>s chunksize s w - nb)"
    using Suc.prems k ringD(2,6)[OF assms(1) Suc.prems(3)] by (intro Suc.IH) auto
  then show ?case using k Suc.prems by (auto simp: Let_def)
qed

lemma scan_bin_walk:
  assumes "ring (fd s) (bk s) home N" and "b \<in> N"
  shows "(bk s ^^ n) v = b \<Longrightarrow> n < k \<Longrightarrow> v \<in> N \<Longrightarrow> home v = home b \<Longrightarrow>
    \<exists>r. scan_bin k nb b v s = Ok r \<and>
      (\<forall>w. r = Some w \<longrightarrow> w \<in> N \<and> home w = home b \<and> w \<noteq> b \<and> 0 \<le>s chunksize s w - nb)"
proof (induction n arbitrary: v k)
  case 0
  then obtain k' where "k = Suc k'" by (cases k) auto
  then show ?case using 0 by simp
next
  case (Suc n)
  then obtain k' where k: "k = Suc k'" by (cases k) auto
  have "(bk s ^^ n) (bk s v) = b" using Suc.prems(1) by (simp add: funpow_swap1)
  then have "\<exists>r. scan_bin k' nb b (bk s v) s = Ok r \<and>
      (\<forall>w. r = Some w \<longrightarrow> w \<in> N \<and> home w = home b \<and> w \<noteq> b \<and> 0 \<le>s chunksize s w - nb)"
    using Suc.prems k ringD(2,6)[OF assms(1) Suc.prems(3)] by (intro Suc.IH) auto
  then show ?case using k Suc.prems by auto
qed

lemma malloc_ok_size:
  assumes "malloc_ok lim base tp tsz cm s" and "cm v = Some (sz, u)"
  shows "chunksize s v = sz" "unat sz < 2 ^ 62" "aligned sz" "32 \<le> unat sz"
proof -
  note D = malloc_okD[OF assms(1)] and P = layoutD[OF malloc_okD(1)[OF assms(1)] assms(2)]
  show "chunksize s v = sz" by (rule heads_chunksize[OF D(6,1) assms(2)])
  show "unat sz < 2 ^ 62" "aligned sz" "32 \<le> unat sz" using P D by linarith+
qed

lemma found_fits:
  assumes ok: "malloc_ok lim base tp tsz cm s" and L: "links_at s cm home" and nb: "unat nb < 2 ^ 31"
    and v: "v \<in> free_set cm \<union> bins (av s)" "home v = i" "v \<noteq> bin_at s i" "0 \<le>s chunksize s v - nb" and i: "i \<noteq> 1"
  shows "\<exists>sz. cm v = Some (sz, False) \<and> unat nb \<le> unat sz"
proof -
  obtain sz where sz: "cm v = Some (sz, False)" using bin_member[OF L v(1-3) i] by blast
  have "unat sz < 2 ^ 63" "unat nb < 2 ^ 63" using malloc_ok_size(2)[OF ok sz] nb by simp_all
  then show ?thesis using v(4) sle_diff(1)[of sz nb] malloc_ok_size(1)[OF ok sz] sz by simp
qed

subsection \<open>The exact fit\<close>

lemma small_exact_ok:
  assumes ok: "malloc_ok lim base tp tsz cm s" and n: "aligned nb" "32 \<le> unat nb" "is_small_request nb"
    and r: "small_exact nb s = Some v"
  shows "\<exists>sz. cm v = Some (sz, False) \<and> unat nb \<le> unat sz"
proof -
  obtain home where L: "links_at s cm home" using malloc_okD(7)[OF ok] unfolding links_def by blast
  then have R: "ring (fd s) (bk s) home (free_set cm \<union> bins (av s))" and h: "\<And>i. 1 \<le> i \<and> i < 128 \<Longrightarrow> home (bin_at s i) = i"
    unfolding links_at_def by blast+
  let ?i = "smallbin_index nb"
  have nb: "unat nb < 504" using n(3) by (simp add: is_small_request_def MAX_SMALLBIN_SIZE_def SMALLBIN_WIDTH_def word_less_nat_alt)
  have i: "?i = unat nb div 8" unfolding smallbin_index_def using unat_drop[of 3 nb] by simp
  have nx: "next_bin (bin_at s ?i) = bin_at s (?i + 1)" by (simp add: next_bin_def bin_at_eq algebra_simps)
  have "\<exists>j. (j = ?i \<or> j = ?i + 1) \<and> v = bk s (bin_at s j) \<and> v \<noteq> bin_at s j"
    using r by (auto simp: small_exact_def Let_def nx split: if_splits)
  then obtain j where j: "j = ?i \<or> j = ?i + 1" "v = bk s (bin_at s j)" "v \<noteq> bin_at s j" by blast
  then have jb: "4 \<le> j" "j < 64" using i nb n(2) by linarith+
  have b: "bin_at s j \<in> free_set cm \<union> bins (av s)" using bin_at_in_bins[of j s] jb by auto
  have "home v = j" "v \<in> free_set cm \<union> bins (av s)" using ringD(2,6)[OF R b] h[of j] jb j(2) by auto
  then obtain sz where sz: "cm v = Some (sz, False)" "bin_index sz = j"
    using bin_member[OF L, of v j] j(3) jb by auto
  have "unat sz div 8 = j" using small_bin[of sz] sz(2) jb by simp
  moreover have "unat nb = 8 * ?i" using n(1) i unfolding aligned_def by (auto elim!: dvdE)
  ultimately have "unat nb \<le> unat sz" using j(1) by (elim disjE) linarith+
  then show ?thesis using sz by blast
qed

lemma exact_fit_ok:
  assumes ok: "malloc_ok lim base tp tsz cm s" and n: "aligned nb" "32 \<le> unat nb" "unat nb < 2 ^ 31"
    and k: "card (free_set cm) + 128 \<le> k"
  shows "\<exists>r idx. exact_fit k nb s = Ok (r, idx) \<and> 2 \<le> idx \<and> idx < 128 \<and>
    (\<forall>v. r = Some v \<longrightarrow> (\<exists>sz. cm v = Some (sz, False) \<and> unat nb \<le> unat sz))"
proof (cases "is_small_request nb")
  case True
  have "unat nb < 504" using True by (simp add: is_small_request_def MAX_SMALLBIN_SIZE_def SMALLBIN_WIDTH_def word_less_nat_alt)
  then have "smallbin_index nb < 64" unfolding smallbin_index_def using unat_drop[of 3 nb] by simp
  then show ?thesis using True small_exact_ok[OF ok n(1,2) True] by (simp add: exact_fit_def)
next
  case False
  obtain home where L: "links_at s cm home" using malloc_okD(7)[OF ok] unfolding links_def by blast
  then have R: "ring (fd s) (bk s) home (free_set cm \<union> bins (av s))" and h: "\<And>i. 1 \<le> i \<and> i < 128 \<Longrightarrow> home (bin_at s i) = i"
    unfolding links_at_def by blast+
  let ?i = "bin_index nb"
  have i: "4 \<le> ?i" "?i \<le> 126" using bin_index_bounds[OF n(2)] by blast+
  have b: "bin_at s ?i \<in> free_set cm \<union> bins (av s)" using bin_at_in_bins[of ?i s] i by auto
  obtain m where m: "m < k" "(bk s ^^ m) (bk s (bin_at s ?i)) = bin_at s ?i"
    using links_returns[OF L malloc_okD(11)[OF ok] _ _ k, of ?i] i by auto
  obtain r where r: "large_exact k nb (bin_at s ?i) (bk s (bin_at s ?i)) s = Ok r"
      "\<And>w. r = Fits w \<Longrightarrow> w \<in> free_set cm \<union> bins (av s) \<and> home w = ?i \<and> w \<noteq> bin_at s ?i \<and> 0 \<le>s chunksize s w - nb"
    using large_exact_walk[OF R b m(2,1) ringD(2,6)[OF R b], of nb] h[of ?i] i by auto
  have "\<exists>sz. cm w = Some (sz, False) \<and> unat nb \<le> unat sz" if "r = Fits w" for w
    using found_fits[OF ok L n(3)] r(2)[OF that] i by (metis numeral_le_one_iff semiring_norm(69))
  then show ?thesis using False r(1) i by (cases r) (auto simp: exact_fit_def Let_def)
qed

subsection \<open>What a request does\<close>

text \<open>A step that leaves the arena as it is, apart from the allocator's own memory.\<close>

definition same_arena :: "nat \<Rightarrow> u64 \<Rightarrow> chunks \<Rightarrow> 'h mstate \<Rightarrow> 'h mstate \<Rightarrow> bool" where
  "same_arena lim tp cm s s' \<longleftrightarrow> statics s s' \<and> keeps (owned (av s) lim tp cm) s s'"

lemma same_arena_refl [simp]: "same_arena lim tp cm s s" by (simp add: same_arena_def)

lemma same_arena_trans: "same_arena lim tp cm s s' \<Longrightarrow> same_arena lim tp cm s' s'' \<Longrightarrow> same_arena lim tp cm s s''"
  unfolding same_arena_def using statics_trans[of s s' s''] keeps_trans[of _ s s' s''] statics_av[of s s'] by auto

lemma allocates_trans:
  assumes "same_arena lim tp cm s s'" and "allocates lim base tp tsz cm nb s' m s''"
  shows "allocates lim base tp tsz cm nb s m s''"
proof -
  have s: "statics s s'" "keeps (owned (av s) lim tp cm) s s'" "av s' = av s"
    using assms(1) statics_av unfolding same_arena_def by auto
  obtain v sz cm' where a: "m = chunk2mem v" "unat nb \<le> unat sz" "malloc_ok lim base tp tsz cm' s''" "blocks_of cm v = None"
      "blocks_of cm' = (blocks_of cm)(v \<mapsto> sz)" "card (dom cm') \<le> card (dom cm) + 1"
      "keeps (owned (av s) lim tp cm) s' s''" "statics s' s''"
    using assms(2) s(3) unfolding allocates_def by auto
  show ?thesis unfolding allocates_def using a(1-6) keeps_trans[OF s(2) a(7)] statics_trans[OF s(1) a(8)] by blast
qed

subsection \<open>The chunk that was found\<close>

lemma unlink_in_arena:
  assumes ok: "malloc_ok lim base tp tsz cm s" and v: "v \<in> free_set cm"
  shows "fd s v \<in> nodes (av s) (insert tp (dom cm))" "bk s v \<in> nodes (av s) (insert tp (dom cm))"
    "statics s (unlink v s)" "keeps (owned (av s) lim tp cm) s (unlink v s)" "links (unlink v s) (cm(v := None))"
proof -
  note D = malloc_okD[OF ok]
  have nod: "q \<in> nodes (av s) (insert tp (dom cm))" if "q \<in> free_set cm \<union> bins (av s)" for q
    by (rule nodes_of[OF _ that]) auto
  have vN: "v \<in> free_set cm \<union> bins (av s)" using v by blast
  show n: "fd s v \<in> nodes (av s) (insert tp (dom cm))" "bk s v \<in> nodes (av s) (insert tp (dom cm))"
    using links_nodes(1,2)[OF D(7) vN] nod by blast+
  show "statics s (unlink v s)" by (rule unlink_effect(7)[OF D(9) n])
  show "keeps (owned (av s) lim tp cm) s (unlink v s)"
    using keeps_mono[OF unlink_keeps[OF D(7) v] linkset_owned[OF ok]] .
  obtain home where "links_at s cm home" using D(7) unfolding links_def by blast
  then show "links (unlink v s) (cm(v := None))"
    using links_at_unlink[OF D(9) _ _ v] unfolding links_def by blast
qed

lemma use_found_ok:
  assumes ok: "malloc_ok lim base tp tsz cm s" and v: "cm v = Some (sz, False)"
    and n: "aligned nb" "32 \<le> unat nb" "unat nb \<le> unat sz" and lr: "fd s (last_remainder s) = last_remainder s"
  shows "\<exists>s'. use_found nb v s = (chunk2mem v, MALLOC_UNLOCK s') \<and> allocates lim base tp tsz cm nb s (chunk2mem v) s'"
proof -
  note D = malloc_okD[OF ok] and Z = malloc_ok_size[OF ok v]
  let ?H = "insert tp (dom cm)"
  have F: "v \<in> free_set cm" using v by (rule free_setI)
  have vH: "v \<in> ?H" using v by auto
  have next_in: "v + sz \<in> ?H" by (rule layout_next_in[OF D(1) v])
  have sle: "MINSIZE \<le>s sz - nb \<longleftrightarrow> unat nb + 32 \<le> unat sz"
    using sle_diff(2)[of sz nb] Z(2) n(3) by simp
  show ?thesis
  proof (cases "unat nb + 32 \<le> unat sz")
    case True
    note sp = layout_split(2-4)[OF D(1) v n(1,2) True]
    let ?G = "insert (v + nb) ?H" and ?s1 = "set_head v (nb OR 1) s"
    let ?s2 = "unlink v ?s1"
    have SG: "sep (av s) ?G"
    proof -
      have "layout base tp (cm(v \<mapsto> (nb, True), v + nb \<mapsto> (sz - nb, False)))" by (rule layout_split(1)[OF D(1) v n(1,2) True])
      moreover have "insert tp (dom (cm(v \<mapsto> (nb, True), v + nb \<mapsto> (sz - nb, False)))) = ?G" using v by auto
      moreover have "unat tp + 32 \<le> lim" using D(4,5) by linarith
      ultimately show ?thesis using layout_sep[OF _ D(2)] by metis
    qed
    have S1: "sep (av ?s1) ?G" using SG by simp
    have vG: "v \<in> ?G" using vH by blast
    note o1 = other_field[OF SG]
    have ok1: "links ?s1 cm"
    proof (rule links_cong[OF D(7)])
      fix q assume "q \<in> free_set cm \<union> bins (av s)"
      then have "q \<in> nodes (av s) ?G" by (intro nodes_of) auto
      then show "fd ?s1 q = fd s q" "bk ?s1 q = bk s q" using o1(11,12)[OF vG] by simp_all
    qed simp_all
    have nod: "q \<in> nodes (av ?s1) ?G" if "q \<in> free_set cm \<union> bins (av ?s1)" for q
      by (rule nodes_of[OF _ that]) auto
    have vN: "v \<in> free_set cm \<union> bins (av ?s1)" using F by blast
    note u = unlink_effect[OF S1 nod[OF links_nodes(1)[OF ok1 vN]] nod[OF links_nodes(2)[OF ok1 vN]]]
    have av2: "av ?s2 = av s" using u(7) by (simp add: statics_def)
    have lr2: "last_remainder ?s2 = last_remainder s" using av2 by (simp add: last_remainder_def bin_at_eq)
    obtain home where L1: "links_at ?s1 cm home" using ok1 unfolding links_def by blast
    have L2: "links ?s2 (cm(v := None))"
      using links_at_unlink[OF S1 _ L1 F] unfolding links_def by (metis subset_insertI2 subset_insertI)
    have "\<exists>s'. split_remainder v nb (sz - nb) ?s2 = (chunk2mem v, MALLOC_UNLOCK s') \<and>
        allocates lim base tp tsz cm nb s (chunk2mem v) s'"
    proof (rule serve_split[OF ok v n(1,2) True])
      show "statics s ?s2" using statics_trans[OF _ u(7), of s] by simp
      show "top ?s2 = top s" using u(5) o1(14)[OF vG] by simp
      show "binblocks ?s2 = binblocks s" using u(6) o1(15)[OF vG] by simp
      have "keeps (linkset (av s) cm) ?s1 ?s2" using unlink_keeps[OF ok1 F] by simp
      then have "keeps (owned (av s) lim tp cm) ?s1 ?s2" using linkset_owned[OF ok] keeps_mono by blast
      moreover have "keeps (owned (av s) lim tp cm) s ?s1"
        unfolding set_head_def by (intro keeps_set_long owned_head[OF ok vH] keeps_refl)
      ultimately show "keeps (owned (av s) lim tp cm) s ?s2" using keeps_trans by blast
      show "head ?s2 q = (if q = v then nb OR 1 else head s q)" if "q \<in> ?G" for q using u(3)[OF that] by simp
      show "prev_size ?s2 q = prev_size s q" if "q \<in> ?G" for q using u(4)[OF that] o1(13)[OF vG that] by simp
      show "links (link_last_remainder (v + nb) ?s2) (cm(v := None, v + nb \<mapsto> (sz - nb, False)))"
      proof (rule links_lr_empty[OF _ _ L2])
        show "sep (av ?s2) ?G" using SG av2 by simp
        have lrn: "last_remainder s \<in> nodes (av s) ?G" using lr_bin[of s] unfolding nodes_def by blast
        have fl: "fd ?s1 (last_remainder s) = last_remainder s" using o1(11)[OF vG lrn] lr by simp
        then have "bk ?s1 v \<noteq> last_remainder s"
        proof -
          have "v \<noteq> last_remainder s" using free_not_bin[OF SG vG] lr_bin by metis
          then show ?thesis using fl links_nodes(4)[OF ok1 vN] by auto
        qed
        then show "fd ?s2 (last_remainder ?s2) = last_remainder ?s2" using u(1)[of "last_remainder s"] lrn fl lr2 by simp
        show "v + nb \<notin> free_set (cm(v := None))" using sp(1) unfolding free_set_def by (auto split: if_splits)
      qed auto
    qed
    then show ?thesis using True sle Z(1) by (simp add: use_found_def Let_def PREV_INUSE_def)
  next
    case False
    let ?s1 = "set_inuse_bit_at_offset v sz s"
    let ?s2 = "unlink v ?s1"
    note o1 = other_field[OF D(9)]
    have s1: "?s1 = set_head (v + sz) (head s (v + sz) OR 1) s" by (simp add: set_inuse_bit_at_offset_def PREV_INUSE_def)
    have S1: "sep (av ?s1) ?H" using D(9) s1 by simp
    have ok1: "links ?s1 cm"
    proof (rule links_cong[OF D(7)])
      fix q assume "q \<in> free_set cm \<union> bins (av s)"
      then have "q \<in> nodes (av s) ?H" by (intro nodes_of) auto
      then show "fd ?s1 q = fd s q" "bk ?s1 q = bk s q" using o1(11,12)[OF next_in] s1 by simp_all
    qed (simp_all add: s1)
    have nod: "q \<in> nodes (av ?s1) ?H" if "q \<in> free_set cm \<union> bins (av ?s1)" for q
      by (rule nodes_of[OF _ that]) auto
    have vN: "v \<in> free_set cm \<union> bins (av ?s1)" using F by blast
    note u = unlink_effect[OF S1 nod[OF links_nodes(1)[OF ok1 vN]] nod[OF links_nodes(2)[OF ok1 vN]]]
    obtain home where L1: "links_at ?s1 cm home" using ok1 unfolding links_def by blast
    have "allocates lim base tp tsz cm nb s (chunk2mem v) ?s2"
    proof (rule serve_whole[OF ok v n(3)])
      show "statics s ?s2" using statics_trans[OF _ u(7), of s] s1 by simp
      show "top ?s2 = top s" using u(5) o1(14)[OF next_in] s1 by simp
      show "binblocks ?s2 = binblocks s" using u(6) o1(15)[OF next_in] s1 by simp
      show "links ?s2 (cm(v := None))"
        using links_at_unlink[OF S1 _ L1 F] unfolding links_def by blast
      show "head ?s2 q = (if q = v + sz then head s q OR 1 else head s q)" if "q \<in> ?H" for q using u(3)[OF that] s1 by simp
      show "prev_size ?s2 q = prev_size s q" if "q \<in> ?H" for q using u(4)[OF that] o1(13)[OF next_in that] s1 by simp
      have "keeps (linkset (av s) cm) ?s1 ?s2" using unlink_keeps[OF ok1 F] s1 by simp
      then have "keeps (owned (av s) lim tp cm) ?s1 ?s2" using linkset_owned[OF ok] keeps_mono by blast
      moreover have "keeps (owned (av s) lim tp cm) s ?s1"
        unfolding s1 set_head_def by (intro keeps_set_long owned_head[OF ok next_in] keeps_refl)
      ultimately show "keeps (owned (av s) lim tp cm) s ?s2" using keeps_trans by blast
    qed
    then show ?thesis using False sle Z(1) by (auto simp: use_found_def Let_def)
  qed
qed

subsection \<open>The last remainder\<close>

text \<open>What a request may have done when a phase of \<open>malloc\<close> is over: it has been served, or the arena
  is as it was and there is no last remainder.\<close>

definition served :: "nat \<Rightarrow> u64 \<Rightarrow> u64 \<Rightarrow> u64 \<Rightarrow> chunks \<Rightarrow> u64 \<Rightarrow> 'h mstate \<Rightarrow> u64 option \<times> 'h mstate \<Rightarrow> bool" where
  "served lim base tp tsz cm nb s r \<longleftrightarrow> (case r of
     (Some m, s') \<Rightarrow> \<exists>s''. s' = MALLOC_UNLOCK s'' \<and> allocates lim base tp tsz cm nb s m s''
   | (None, s') \<Rightarrow> malloc_ok lim base tp tsz cm s' \<and> same_arena lim tp cm s s' \<and> fd s' (last_remainder s') = last_remainder s')"

lemma served_trans:
  "same_arena lim tp cm s s' \<Longrightarrow> served lim base tp tsz cm nb s' r \<Longrightarrow> served lim base tp tsz cm nb s r"
  unfolding served_def by (auto split: prod.splits option.splits intro: allocates_trans same_arena_trans)

lemma in_arena_cong:
  assumes ok: "malloc_ok lim base tp tsz cm s" and st: "statics s s'" and "top s' = top s" and "links s' cm"
    and "binblocks s' < 2 ^ 32"
    and "\<And>q. q \<in> insert tp (dom cm) \<Longrightarrow> head s' q = head s q \<and> prev_size s' q = prev_size s q"
  shows "malloc_ok lim base tp tsz cm s'"
proof -
  note D = malloc_okD[OF ok]
  have "heads s' base tp tsz cm"
    by (rule heads_cong[OF D(6), where H = "insert tp (dom cm)"])
      (use layout_base_in[OF D(1)] layout_next_in[OF D(1)] assms(3,6) in auto)
  then show ?thesis using D assms(4,5) statics_av[OF st] unfolding malloc_ok_def by simp
qed

lemma try_last_remainder_ok:
  assumes ok: "malloc_ok lim base tp tsz cm s" and n: "aligned nb" "32 \<le> unat nb" "unat nb < 2 ^ 31"
    and k: "card (free_set cm) + 128 \<le> k"
  shows "\<exists>r. try_last_remainder k nb s = Ok r \<and> served lim base tp tsz cm nb s r"
proof (cases "fd s (last_remainder s) = last_remainder s")
  case True
  then show ?thesis using ok by (simp add: try_last_remainder_def served_def)
next
  case ne: False
  note D = malloc_okD[OF ok]
  let ?H = "insert tp (dom cm)" and ?lr = "last_remainder s"
  let ?v = "fd s ?lr"
  obtain sz where v: "cm ?v = Some (sz, False)" "fd s ?v = ?lr" using lr_nonempty[OF D(7,10) ne] by blast
  note Z = malloc_ok_size[OF ok v(1)]
  have F: "?v \<in> free_set cm" using v(1) by (rule free_setI)
  have vH: "?v \<in> ?H" using v(1) by auto
  have next_in: "?v + sz \<in> ?H" by (rule layout_next_in[OF D(1) v(1)])
  have sle: "MINSIZE \<le>s sz - nb \<longleftrightarrow> unat nb + 32 \<le> unat sz" "0 \<le>s sz - nb \<longleftrightarrow> unat nb \<le> unat sz"
    using sle_diff(1,2)[of sz nb] Z(2) n(3) by simp_all
  show ?thesis
  proof (cases "unat nb + 32 \<le> unat sz")
    case True
    note sp = layout_split(2-4)[OF D(1) v(1) n(1,2) True]
    let ?G = "insert (?v + nb) ?H" and ?s2 = "set_head ?v (nb OR 1) s"
    have SG: "sep (av s) ?G"
    proof -
      have "layout base tp (cm(?v \<mapsto> (nb, True), ?v + nb \<mapsto> (sz - nb, False)))" by (rule layout_split(1)[OF D(1) v(1) n(1,2) True])
      moreover have "insert tp (dom (cm(?v \<mapsto> (nb, True), ?v + nb \<mapsto> (sz - nb, False)))) = ?G" using v(1) by auto
      moreover have "unat tp + 32 \<le> lim" using D(4,5) by linarith
      ultimately show ?thesis using layout_sep[OF _ D(2)] by metis
    qed
    have vG: "?v \<in> ?G" using vH by blast
    note o1 = other_field[OF SG]
    have nodG: "q \<in> nodes (av s) ?G" if "q \<in> free_set cm \<union> bins (av s)" for q by (rule nodes_of[OF _ that]) auto
    have "links ?s2 cm" by (rule links_cong[OF D(7)]) (use o1(11,12)[OF vG] nodG in simp_all)
    moreover have "fd ?s2 ?v = last_remainder ?s2" using o1(11)[OF vG, of ?v] nodG F v(2) by simp
    ultimately have L: "links (link_last_remainder (?v + nb) ?s2) (cm(?v := None, ?v + nb \<mapsto> (sz - nb, False)))"
      by (intro links_lr_replace[where H = ?G]) (use SG D(10) F sp(1) free_set_dom[of cm] in auto)
    have "\<exists>s'. split_remainder ?v nb (sz - nb) ?s2 = (chunk2mem ?v, MALLOC_UNLOCK s') \<and>
        allocates lim base tp tsz cm nb s (chunk2mem ?v) s'"
    proof (rule serve_split[OF ok v(1) n(1,2) True _ _ _ _ _ _ L])
      show "keeps (owned (av s) lim tp cm) s ?s2"
        unfolding set_head_def by (intro keeps_set_long owned_head[OF ok vH] keeps_refl)
    qed (use o1(13,14,15)[OF vG] in simp_all)
    then show ?thesis using True sle Z(1) ne by (auto simp: try_last_remainder_def Let_def PREV_INUSE_def served_def)
  next
    case no_split: False
    let ?s1 = "clear_last_remainder s"
    note c = clear_last_remainder_effect[OF D(9)]
    have av1: "av ?s1 = av s" using c(6) by (simp add: statics_def)
    have L1: "links ?s1 (cm(?v := None))" by (rule links_clear_lr[OF D(9) _ D(7,10) F v(2)]) auto
    have K1: "keeps (owned (av s) lim tp cm) s ?s1" by (rule keeps_mono[OF lr_keeps(2)]) (auto simp: owned_def)
    have S1: "sep (av ?s1) ?H" using D(9) av1 by simp
    show ?thesis
    proof (cases "unat nb \<le> unat sz")
      case True
      let ?s2 = "set_inuse_bit_at_offset ?v sz ?s1"
      have s2: "?s2 = set_head (?v + sz) (head ?s1 (?v + sz) OR 1) ?s1" by (simp add: set_inuse_bit_at_offset_def PREV_INUSE_def)
      note o1 = other_field[OF S1]
      have "allocates lim base tp tsz cm nb s (chunk2mem ?v) ?s2"
      proof (rule serve_whole[OF ok v(1) True])
        show "statics s ?s2" using c(6) s2 by simp
        show "top ?s2 = top s" using c(5) o1(14)[OF next_in] s2 by simp
        show "binblocks ?s2 = binblocks s" using c(7) o1(15)[OF next_in] s2 by simp
        show "links ?s2 (cm(?v := None))"
        proof (rule links_cong[OF L1])
          fix q assume "q \<in> free_set (cm(?v := None)) \<union> bins (av ?s1)"
          then have "q \<in> nodes (av ?s1) ?H" by (intro nodes_of[of "cm(?v := None)"]) auto
          then show "fd ?s2 q = fd ?s1 q" "bk ?s2 q = bk ?s1 q" using o1(11,12)[OF next_in] s2 by simp_all
        qed (simp_all add: s2)
        show "head ?s2 q = (if q = ?v + sz then head s q OR 1 else head s q)" if "q \<in> ?H" for q
          using c(3)[OF that] c(3)[OF next_in] s2 by simp
        show "prev_size ?s2 q = prev_size s q" if "q \<in> ?H" for q using c(4)[OF that] o1(13)[OF next_in that] s2 by simp
        show "keeps (owned (av s) lim tp cm) s ?s2"
          unfolding s2 set_head_def by (intro keeps_set_long owned_head[OF ok next_in] K1)
      qed
      then show ?thesis using True no_split sle Z(1) ne by (auto simp: try_last_remainder_def Let_def served_def)
    next
      case False
      have up: "(cm(?v := None))(?v \<mapsto> (sz, False)) = cm" using v(1) by auto
      have "?v \<notin> free_set (cm(?v := None))" "dom (cm(?v := None)) \<subseteq> ?H" "finite (dom (cm(?v := None)))"
        "card (free_set (cm(?v := None))) + 128 \<le> k"
      proof -
        have "free_set (cm(?v := None)) \<subseteq> free_set cm" unfolding free_set_def by (auto split: if_splits)
        moreover have "finite (free_set cm)" using D(11) finite_subset free_set_dom by metis
        ultimately have "card (free_set (cm(?v := None))) \<le> card (free_set cm)" by (intro card_mono)
        then show "card (free_set (cm(?v := None))) + 128 \<le> k" using k by linarith
      qed (use D(11) in \<open>auto simp: free_set_def\<close>)
      then obtain s' where s': "frontlink k ?v sz ?s1 = Ok s'" "links s' cm" "top s' = top ?s1" "statics ?s1 s'"
          "\<forall>q \<in> ?H. head s' q = head ?s1 q \<and> prev_size s' q = prev_size ?s1 q" "binblocks ?s1 < 2 ^ 32 \<longrightarrow> binblocks s' < 2 ^ 32"
          "fd s' (last_remainder ?s1) = fd ?s1 (last_remainder ?s1)"
          "keeps ({x. in_av (av ?s1) x} \<union> linkset (av ?s1) cm) ?s1 s'"
        using frontlink_ok[OF S1 _ L1 vH _ Z(4), of k] unfolding up by auto
      have st: "statics s s'" using statics_trans[OF c(6) s'(4)] .
      have lrn: "?lr \<in> nodes (av s) ?H" using lr_bin[of s] unfolding nodes_def by blast
      have "malloc_ok lim base tp tsz cm s'"
        by (rule in_arena_cong[OF ok st]) (use s'(2,3,5,6) c(3-5,7) D(12) in auto)
      moreover have "{x. in_av (av ?s1) x} \<union> linkset (av ?s1) cm \<subseteq> owned (av s) lim tp cm"
        using linkset_owned[OF ok] av1 unfolding owned_def by auto
      then have "keeps (owned (av s) lim tp cm) s s'" using keeps_trans[OF K1] keeps_mono[OF s'(8)] by blast
      moreover have "last_remainder ?s1 = ?lr" "last_remainder s' = ?lr"
        using av1 statics_av[OF st] by (simp_all add: last_remainder_def bin_at_eq)
      then have "fd s' (last_remainder s') = last_remainder s'" using s'(7) c(1)[OF lrn] by simp
      ultimately show ?thesis using False no_split sle Z(1) ne s'(1) st
        by (auto simp: try_last_remainder_def Let_def served_def same_arena_def)
    qed
  qed
qed

subsection \<open>Searching the bins\<close>

lemma scan_block_ok:
  assumes ok: "malloc_ok lim base tp tsz cm s" and nb: "unat nb < 2 ^ 31" and k: "card (free_set cm) + 128 \<le> k"
  shows "2 \<le> idx \<Longrightarrow> idx < 128 \<Longrightarrow> \<exists>r idx'. scan_block k nb idx (bin_at s idx) s = Ok (r, idx') \<and>
    (case r of Some v \<Rightarrow> \<exists>sz. cm v = Some (sz, False) \<and> unat nb \<le> unat sz | None \<Rightarrow> idx' = idx div 4 * 4 + 4)"
proof (induction "4 - idx mod 4" arbitrary: idx rule: less_induct)
  case less
  obtain home where L: "links_at s cm home" using malloc_okD(7)[OF ok] unfolding links_def by blast
  then have R: "ring (fd s) (bk s) home (free_set cm \<union> bins (av s))" and h: "\<And>i. 1 \<le> i \<and> i < 128 \<Longrightarrow> home (bin_at s i) = i"
    unfolding links_at_def by blast+
  have i: "1 \<le> idx" "idx < 128" "idx \<noteq> 1" using less.prems by auto
  have b: "bin_at s idx \<in> free_set cm \<union> bins (av s)" using bin_at_in_bins[OF i(1,2)] by blast
  obtain m where m: "m < k" "(bk s ^^ m) (bk s (bin_at s idx)) = bin_at s idx"
    using links_returns[OF L malloc_okD(11)[OF ok] i(1,2) k] by blast
  obtain r where r: "scan_bin k nb (bin_at s idx) (bk s (bin_at s idx)) s = Ok r"
      "\<And>w. r = Some w \<Longrightarrow> w \<in> free_set cm \<union> bins (av s) \<and> home w = idx \<and> w \<noteq> bin_at s idx \<and> 0 \<le>s chunksize s w - nb"
    using scan_bin_walk[OF R b m(2,1) ringD(2,6)[OF R b], of nb] h[of idx] i by auto
  have nx: "next_bin (bin_at s idx) = bin_at s (idx + 1)" by (simp add: next_bin_def bin_at_eq algebra_simps)
  show ?case
  proof (cases r)
    case (Some w)
    then have "\<exists>sz. cm w = Some (sz, False) \<and> unat nb \<le> unat sz"
      using found_fits[OF ok L nb _ _ _ _ i(3), of w] r(2) by blast
    then show ?thesis using Some r(1) by (subst scan_block.simps) simp
  next
    case None
    show ?thesis
    proof (cases "(idx + 1) mod 4 = 0")
      case True
      then have "idx div 4 * 4 + 4 = idx + 1" by presburger
      then show ?thesis using None r(1) True by (subst scan_block.simps) (simp add: BINBLOCKWIDTH_def)
    next
      case False
      then have e: "(idx + 1) div 4 = idx div 4" "4 - (idx + 1) mod 4 < 4 - idx mod 4" "idx + 1 < 128"
        using less.prems(2) by presburger+
      show ?thesis using less.hyps[OF e(2) _ e(3), unfolded e(1)] less.prems(1) None r(1) False nx
        by (subst scan_block.simps) (simp add: BINBLOCKWIDTH_def)
    qed
  qed
qed

lemma clear_block_cases:
  "clear_block i q b s = s \<or> clear_block i q b s = set_binblocks (binblocks s AND NOT b) s"
proof (induction i q b s rule: clear_block.induct)
  case (1 i q b s)
  then show ?case unfolding clear_block.simps[of i q b s] Let_def by (cases "i mod BINBLOCKWIDTH = 0") auto
qed

lemma set_binblocks_ok:
  assumes ok: "malloc_ok lim base tp tsz cm s" and "b < 2 ^ 32"
  shows "malloc_ok lim base tp tsz cm (set_binblocks b s)" "same_arena lim tp cm s (set_binblocks b s)"
    "fd (set_binblocks b s) (last_remainder s) = fd s (last_remainder s)"
proof -
  note D = malloc_okD[OF ok]
  note o = other_field[OF D(9)]
  have nod: "q \<in> nodes (av s) (insert tp (dom cm))" if "q \<in> free_set cm \<union> bins (av s)" for q
    by (rule nodes_of[OF _ that]) auto
  have "links (set_binblocks b s) cm" by (rule links_cong[OF D(7)]) (use o(26,27) nod in auto)
  then show "malloc_ok lim base tp tsz cm (set_binblocks b s)"
    by (intro in_arena_cong[OF ok]) (use o(28-30) assms(2) in auto)
  have "keeps (owned (av s) lim tp cm) s (set_binblocks b s)"
    by (rule set_binblocks_keeps) (use in_av_statics in \<open>auto simp: owned_def\<close>)
  then show "same_arena lim tp cm s (set_binblocks b s)" by (simp add: same_arena_def)
  show "fd (set_binblocks b s) (last_remainder s) = fd s (last_remainder s)"
    using o(26) lr_bin nod by blast
qed

text \<open>Skipping empty blocks ends at the next block that is marked.\<close>

lemma push_step: "push_bit 1 (push_bit n 1 :: u64) = push_bit (Suc n) 1"
  by (simp add: push_bit_push_bit)

lemma bit_block: "n < 64 \<Longrightarrow> push_bit n 1 AND bb = 0 \<longleftrightarrow> \<not> bit (bb :: u64) n"
proof -
  assume n: "n < 64"
  have e: "bit (push_bit n 1 AND bb) i \<longleftrightarrow> i = n \<and> bit bb n" for i
    using n by (auto simp: bit_simps)
  show ?thesis using e by (metis bit_0_eq bit_word_eqI bot_apply bot_bool_def)
qed

lemma skip_blocks_ok:
  "bit bb j \<Longrightarrow> j < 32 \<Longrightarrow> n \<le> j \<Longrightarrow> j - n < k \<Longrightarrow>
    \<exists>m. n \<le> m \<and> m \<le> j \<and> skip_blocks k bb (4 * n) (push_bit n 1) = Ok (4 * m, push_bit m 1)"
proof (induction k arbitrary: n)
  case (Suc k)
  show ?case
  proof (cases "bit bb n")
    case True
    then have "push_bit n 1 AND bb \<noteq> 0" using bit_block[of n bb] Suc.prems by simp
    then show ?thesis using Suc.prems by auto
  next
    case False
    then have nj: "Suc n \<le> j" using Suc.prems by (metis not_less_eq_eq order_antisym)
    have z: "push_bit n 1 AND bb = 0" using bit_block[of n bb] Suc.prems False by simp
    have "\<exists>m. Suc n \<le> m \<and> m \<le> j \<and> skip_blocks k bb (4 * Suc n) (push_bit (Suc n) 1) = Ok (4 * m, push_bit m 1)"
      using Suc.prems nj by (intro Suc.IH) auto
    then show ?thesis using z push_step[of n] by (auto simp: BINBLOCKWIDTH_def algebra_simps)
  qed
qed simp

lemma marked_above:
  assumes "push_bit n 1 \<le> (bb :: u64)" and "bb < 2 ^ 32" and "n < 64"
  shows "\<exists>j. n \<le> j \<and> j < 32 \<and> bit bb j"
proof (rule ccontr)
  assume "\<nexists>j. n \<le> j \<and> j < 32 \<and> bit bb j"
  then have no: "\<not> bit bb j" if "n \<le> j" "j < 32" for j using that by blast
  have e: "take_bit 32 bb = bb"
    using mask_eq_iff_w2p[of 32 bb] assms(2) by (simp add: word_size take_bit_eq_mask)
  have "\<not> bit bb j" if "32 \<le> j" for j
  proof -
    have "bit bb j = bit (take_bit 32 bb) j" by (simp only: e)
    then show ?thesis using that by (simp add: bit_simps)
  qed
  then have "\<not> bit bb j" if "n \<le> j" for j using no that by (meson linorder_not_less)
  then have "take_bit n bb = bb" by (intro bit_word_eqI) (auto simp: bit_simps intro: ccontr)
  then have "unat bb = unat bb mod 2 ^ n" by (metis unsigned_take_bit_eq take_bit_eq_mod)
  then have "unat bb < 2 ^ n" by (metis mod_less_divisor zero_less_numeral zero_less_power)
  then show False using assms(1) unat_push[OF assms(3)] by (simp add: word_le_nat_alt)
qed

lemma search_blocks_ok:
  "malloc_ok lim base tp tsz cm s \<Longrightarrow> fd s (last_remainder s) = last_remainder s \<Longrightarrow>
    aligned nb \<Longrightarrow> 32 \<le> unat nb \<Longrightarrow> unat nb < 2 ^ 31 \<Longrightarrow> card (free_set cm) + 128 \<le> k \<Longrightarrow>
    2 \<le> idx \<Longrightarrow> idx < 128 \<Longrightarrow> 32 \<le> j + idx div 4 \<Longrightarrow>
    \<exists>r. search_blocks j k nb idx (push_bit (idx div 4) 1) s = Ok r \<and> served lim base tp tsz cm nb s r"
proof (induction j arbitrary: idx s)
  case 0
  then show ?case by linarith
next
  case (Suc j)
  note ok = Suc.prems(1) and lr = Suc.prems(2)
  let ?n = "idx div 4" and ?bb = "binblocks s"
  obtain r idx' where r: "scan_block k nb idx (bin_at s idx) s = Ok (r, idx')"
      "case r of Some v \<Rightarrow> \<exists>sz. cm v = Some (sz, False) \<and> unat nb \<le> unat sz | None \<Rightarrow> idx' = idx div 4 * 4 + 4"
    using scan_block_ok[OF ok Suc.prems(5,6,7,8)] by blast
  show ?case
  proof (cases r)
    case (Some v)
    then obtain sz where "cm v = Some (sz, False)" "unat nb \<le> unat sz" using r(2) by auto
    then obtain s' where "use_found nb v s = (chunk2mem v, MALLOC_UNLOCK s')" "allocates lim base tp tsz cm nb s (chunk2mem v) s'"
      using use_found_ok[OF ok _ Suc.prems(3,4) _ lr] by blast
    then show ?thesis using Some r(1) by (auto simp: served_def)
  next
    case None
    then have idx': "idx' = 4 * Suc ?n" using r(2) by simp
    let ?s = "clear_block idx (bin_at s idx) (push_bit ?n 1) s"
    have small: "?bb AND NOT (push_bit ?n 1) < 2 ^ 32"
      using malloc_okD(12)[OF ok] word_and_le2[of ?bb] by (meson order_le_less_trans)
    have s': "malloc_ok lim base tp tsz cm ?s" "same_arena lim tp cm s ?s" "fd ?s (last_remainder ?s) = last_remainder ?s"
      using clear_block_cases[of idx "bin_at s idx" "push_bit ?n 1" s] set_binblocks_ok[OF ok small] ok lr by auto
    show ?thesis
    proof (cases "push_bit (Suc ?n) 1 \<le> binblocks ?s \<and> push_bit (Suc ?n) 1 \<noteq> (0 :: u64)")
      case True
      have n: "Suc ?n < 64" using Suc.prems(8) by linarith
      obtain b where b: "Suc ?n \<le> b" "b < 32" "bit (binblocks ?s) b"
        using marked_above[OF conjunct1[OF True] malloc_okD(12)[OF s'(1)] n] by blast
      have kb: "b - Suc ?n < k" using b(2) Suc.prems(6) by linarith
      obtain m where m: "Suc ?n \<le> m" "m \<le> b" "skip_blocks k (binblocks ?s) (4 * Suc ?n) (push_bit (Suc ?n) 1) = Ok (4 * m, push_bit m 1)"
        using skip_blocks_ok[OF b(3,2,1) kb] by blast
      have m4: "4 * m div 4 = m" "2 \<le> 4 * m" "4 * m < 128" "32 \<le> j + 4 * m div 4"
        using m(1,2) b(2) Suc.prems(9) by linarith+
      obtain r' where "search_blocks j k nb (4 * m) (push_bit m 1) ?s = Ok r'" "served lim base tp tsz cm nb ?s r'"
        using Suc.IH[OF s'(1,3) Suc.prems(3-6) m4(2-4)] m4(1) by auto
      then show ?thesis using None r(1) True m(3) served_trans[OF s'(2)] push_step[of ?n]
        by (simp add: Let_def idx' mult.commute[of "2 ^ (idx div 4) :: u64" 2])
    next
      case False
      then show ?thesis using None r(1) s' push_step[of ?n]
        by (auto simp: Let_def served_def mult.commute[of "2 ^ (idx div 4) :: u64" 2])
    qed
  qed
qed

lemma search_bins_ok:
  assumes ok: "malloc_ok lim base tp tsz cm s" and lr: "fd s (last_remainder s) = last_remainder s"
    and n: "aligned nb" "32 \<le> unat nb" "unat nb < 2 ^ 31" and k: "card (free_set cm) + 128 \<le> k" and i: "2 \<le> idx" "idx < 128"
  shows "\<exists>r. search_bins k nb idx s = Ok r \<and> served lim base tp tsz cm nb s r"
proof (cases "push_bit (idx div 4) 1 \<le> binblocks s")
  case False
  then show ?thesis using ok lr by (simp add: search_bins_def idx2binblock_def BINBLOCKWIDTH_def served_def)
next
  case True
  let ?n = "idx div 4"
  have kk: "32 \<le> k + x" for x using k by linarith
  show ?thesis
  proof (cases "push_bit ?n 1 AND binblocks s = 0")
    case False
    then show ?thesis using True search_blocks_ok[OF ok lr n k i kk]
      by (simp add: search_bins_def idx2binblock_def BINBLOCKWIDTH_def)
  next
    case zero: True
    have n64: "?n < 64" using i by linarith
    obtain b where b: "?n \<le> b" "b < 32" "bit (binblocks s) b"
      using marked_above[OF True malloc_okD(12)[OF ok] n64] by blast
    have "b \<noteq> ?n" using zero bit_block[OF n64] b(3) by blast
    then have nb: "Suc ?n \<le> b" "b - Suc ?n < k" using b(1,2) k by linarith+
    obtain m where m: "Suc ?n \<le> m" "m \<le> b" "skip_blocks k (binblocks s) (4 * Suc ?n) (push_bit (Suc ?n) 1) = Ok (4 * m, push_bit m 1)"
      using skip_blocks_ok[OF b(3,2) nb] by blast
    have e: "idx - idx mod 4 + 4 = 4 * Suc ?n" by presburger
    have m4: "4 * m div 4 = m" "2 \<le> 4 * m" "4 * m < 128" using m(1,2) b(2) by linarith+
    show ?thesis using True zero m(3) search_blocks_ok[OF ok lr n k m4(2,3) kk] m4(1) e push_step[of ?n]
      by (simp add: search_bins_def idx2binblock_def BINBLOCKWIDTH_def mult.commute[of "2 ^ (idx div 4) :: u64" 2])
  qed
qed

end
