(* ===== verification/Malloc_Top.thy ===== *)
theory Malloc_Top
  imports Malloc_Search
begin

text \<open>
  The top chunk: how it is extended with memory of \<open>MORECORE\<close> and split, and \<open>malloc\<close> as a whole.
  The locale \<open>morecore\<close> states what the allocator relies on: memory comes from one range, below a
  limit, and follows the memory that came before.
\<close>

locale morecore =
  fixes mc :: "'h morecore" and fresh live :: "'h \<Rightarrow> bool" and brk :: "'h \<Rightarrow> u64" and lo lim :: nat
  assumes grow: "fresh h \<or> live h \<Longrightarrow> sz \<noteq> 0 \<Longrightarrow> unat sz < 2 ^ 34 \<Longrightarrow> mc sz h = (p, h') \<Longrightarrow> p \<noteq> - 1 \<Longrightarrow>
      p = brk h \<and> live h' \<and> brk h' = brk h + sz \<and> unat (brk h) + unat sz \<le> lim"
    and refuse: "fresh h \<or> live h \<Longrightarrow> sz \<noteq> 0 \<Longrightarrow> unat sz < 2 ^ 34 \<Longrightarrow> mc sz h = (- 1, h') \<Longrightarrow>
      (fresh h' \<or> live h') \<and> (live h \<longrightarrow> live h') \<and> brk h' = brk h"
    and query: "live h \<Longrightarrow> \<exists>h'. mc 0 h = (brk h, h') \<and> live h' \<and> brk h' = brk h"
    and page: "live h \<Longrightarrow> sz \<noteq> 0 \<Longrightarrow> unat sz = 4096 - unat (brk h) mod 4096 \<Longrightarrow> unat (brk h) mod 4096 \<noteq> 0 \<Longrightarrow>
      fst (mc sz h) \<noteq> - 1"
    and release: "live h \<Longrightarrow> sz \<noteq> 0 \<Longrightarrow> lo + unat sz \<le> unat (brk h) \<Longrightarrow>
      \<exists>h'. mc (- sz) h = (brk h, h') \<and> live h' \<and> brk h' = brk h - sz"
    and range: "fresh h \<or> live h \<Longrightarrow> lo \<le> unat (brk h) \<and> unat (brk h) \<le> lim"
    and limit: "fresh h \<or> live h \<Longrightarrow> lim < 2 ^ 62"

subsection \<open>The states of the allocator\<close>

definition unstarted :: "'h mstate \<Rightarrow> bool" where
  "unstarted s \<longleftrightarrow> top s = bin_at s 0 \<and> binblocks s = 0 \<and> sbrk_base s = - 1 \<and>
     (\<forall>i. 1 \<le> i \<and> i < 128 \<longrightarrow> fd s (bin_at s i) = bin_at s i \<and> bk s (bin_at s i) = bin_at s i)"

definition grown :: "('h \<Rightarrow> bool) \<Rightarrow> ('h \<Rightarrow> u64) \<Rightarrow> nat \<Rightarrow> u64 \<Rightarrow> u64 \<Rightarrow> 'h mstate \<Rightarrow> bool" where
  "grown live brk lo tp tsz s \<longleftrightarrow> sbrk_base s \<noteq> - 1 \<and> live (system s) \<and>
     unat (brk (system s)) = unat tp + unat tsz \<and> 4096 dvd unat tp + unat tsz"

text \<open>\<open>B\<close> are the blocks in use: the address of each chunk with its size.\<close>

definition arena_state :: "('h \<Rightarrow> bool) \<Rightarrow> ('h \<Rightarrow> bool) \<Rightarrow> ('h \<Rightarrow> u64) \<Rightarrow> nat \<Rightarrow> nat \<Rightarrow> (u64 \<Rightarrow> u64 option) \<Rightarrow> 'h mstate \<Rightarrow> bool" where
  "arena_state fresh live brk lo lim B s \<longleftrightarrow> arena (av s) lo lim \<and> unat (top_pad s) < 2 ^ 32 \<and>
     (unstarted s \<and> (fresh (system s) \<or> live (system s)) \<and> aligned (brk (system s)) \<and> B = Map.empty \<or>
      (\<exists>base tp tsz cm. malloc_ok lim base tp tsz cm s \<and> lo \<le> unat base \<and> grown live brk lo tp tsz s \<and> B = blocks_of cm))"

text \<open>The size \<open>malloc_extend_top\<close> asks \<open>MORECORE\<close> for, and that \<open>MORECORE\<close> refuses it.\<close>

definition extension :: "u64 \<Rightarrow> 'h mstate \<Rightarrow> u64" where
  "extension nb s =
     (let sz = nb + top_pad s + MINSIZE
      in if sbrk_base s \<noteq> - 1 then (sz + (malloc_getpagesize - 1)) AND NOT (malloc_getpagesize - 1) else sz)"

definition denied :: "'h morecore \<Rightarrow> u64 \<Rightarrow> 'h mstate \<Rightarrow> bool" where
  "denied mc nb s \<longleftrightarrow> fst (mc (extension nb s) (system s)) = - 1"

lemma denied_eq:
  "top_pad s' = top_pad s \<Longrightarrow> sbrk_base s' = sbrk_base s \<Longrightarrow> system s' = system s \<Longrightarrow> denied mc nb s' = denied mc nb s"
  by (simp add: denied_def extension_def)

definition book :: "'h mstate \<Rightarrow> 'h mstate \<Rightarrow> bool" where
  "book s s' \<longleftrightarrow> av s' = av s \<and> top_pad s' = top_pad s \<and> trim_threshold s' = trim_threshold s \<and>
     lock_depth s' = lock_depth s \<and> rerrno s' = rerrno s"

lemma book_refl [simp]: "book s s" by (simp add: book_def)
lemma book_trans: "book s s' \<Longrightarrow> book s' s'' \<Longrightarrow> book s s''" by (simp add: book_def)
lemma statics_book: "statics s s' \<Longrightarrow> book s s'" by (simp add: book_def statics_def)

text \<open>The parts of the state that are not memory.\<close>

lemma count_mem_simps [simp]:
  "mlong (count_mem s) = mlong s" "av (count_mem s) = av s" "sbrk_base (count_mem s) = sbrk_base s"
  "system (count_mem s) = system s" "book s (count_mem s') \<longleftrightarrow> book s s'"
  by (simp_all add: count_mem_def book_def Let_def)

lemma field_eq:
  assumes "mlong s' = mlong s" and "av s' = av s"
  shows "fd s' = fd s" "bk s' = bk s" "head s' = head s" "prev_size s' = prev_size s" "top s' = top s"
    "last_remainder s' = last_remainder s" "bin_at s' = bin_at s" "binblocks s' = binblocks s"
  using assms by (auto simp: binblocks_def fun_eq_iff fd_def bk_def head_def prev_size_def top_def last_remainder_def bin_at_eq)

lemma unstarted_eq: "mlong s' = mlong s \<Longrightarrow> av s' = av s \<Longrightarrow> sbrk_base s' = sbrk_base s \<Longrightarrow> unstarted s' = unstarted s"
  unfolding unstarted_def using field_eq[of s' s] by simp

subsection \<open>The first extension\<close>

lemma and_4095: "unat (x AND 4095 :: u64) = unat x mod 4096"
proof -
  have "x AND 4095 = take_bit 12 x" by (simp add: take_bit_eq_mask mask_numeral)
  moreover have "unat (take_bit 12 x) = unat x mod 2 ^ 12" by (metis unsigned_take_bit_eq take_bit_eq_mod)
  ultimately show ?thesis by simp
qed

lemma aligned_and_15: "aligned x \<Longrightarrow> x AND 15 = 0"
  unfolding aligned_mask by (simp add: mask_numeral)

lemma page_rest:
  "unat ((4096 - (x AND 4095)) AND 4095 :: u64) = (4096 - unat x mod 4096) mod 4096"
proof -
  have "unat (x AND 4095) \<le> unat (4096 :: u64)" using and_4095[of x] by simp
  then have "unat (4096 - (x AND 4095) :: u64) = 4096 - unat x mod 4096" using and_4095[of x] by (subst unat_sub_small) simp_all
  then show ?thesis using and_4095 by metis
qed

lemma page_mod: "(4096 - m mod 4096) mod 4096 = (if m mod 4096 = 0 then 0 else 4096 - m mod 4096)" for m :: nat
  by simp

lemma page_dvd: "4096 dvd m + (4096 - m mod 4096)" for m :: nat
proof -
  have r: "m mod 4096 + (4096 - m mod 4096) = 4096" by (simp add: less_imp_le)
  have "m + (4096 - m mod 4096) = 4096 * (m div 4096) + (m mod 4096 + (4096 - m mod 4096))"
    using mult_div_mod_eq[of 4096 m] by (simp only: add.assoc[symmetric])
  also have "\<dots> = 4096 * (m div 4096 + 1)" unfolding r by simp
  finally show ?thesis by (metis dvd_triv_left)
qed

lemma dvd_aligned: "4096 dvd unat x + unat y \<Longrightarrow> aligned x \<Longrightarrow> aligned y"
proof -
  assume a: "4096 dvd unat x + unat y" "aligned x"
  have "16 dvd (4096 :: nat)" by simp
  then have "16 dvd unat x + unat y" using a(1) dvd_trans by blast
  then show "aligned y" using a(2) unfolding aligned_def by (simp add: dvd_add_right_iff)
qed

lemma empty_layout: "aligned b \<Longrightarrow> layout b b Map.empty"
  by (rule layoutI) auto

lemma empty_links:
  assumes "\<And>i. 1 \<le> i \<Longrightarrow> i < 128 \<Longrightarrow> fd s (bin_at s i) = bin_at s i \<and> bk s (bin_at s i) = bin_at s i"
  shows "links s Map.empty"
proof -
  let ?home = "\<lambda>p. unat (p - av s) div 16"
  have h: "?home (bin_at s i) = i" if "i < 128" for i
  proof -
    have "unat (16 * of_nat i :: u64) = 16 * i" using that by (simp add: unat_word_ariths unat_of_nat)
    then show ?thesis by (simp add: bin_at_eq)
  qed
  have "ring (fd s) (bk s) ?home (bins (av s))"
    unfolding ring_def bins_def using assms by (auto simp: bin_at_eq)
  then have "links_at s Map.empty ?home" unfolding links_at_def free_set_def using h by simp
  then show ?thesis unfolding links_def by blast
qed

lemma first_top_ok:
  assumes u: "unstarted s" and b: "aligned b" and t: "aligned tsz" "32 \<le> unat tsz" "unat b + unat tsz \<le> lim"
    and a: "arena (av s) (unat b) lim"
  shows "malloc_ok lim b b tsz Map.empty (set_head b (tsz OR 1) (set_top b s))"
proof -
  let ?s = "set_head b (tsz OR 1) (set_top b s)"
  have lay: "layout b b Map.empty" by (rule empty_layout[OF b])
  have S: "sep (av s) {b}" using layout_sep[OF lay a] t(2,3) by auto
  have S1: "sep (av (set_top b s)) {b}" using S by simp
  have bH: "b \<in> {b}" by simp
  note o = other_field[OF S] and o1 = other_field[OF S1]
  have nod: "bin_at s i \<in> nodes (av s) {b}" if "1 \<le> i" "i < 128" for i
    using bin_at_in_bins[OF that, of s] unfolding nodes_def by blast
  have "links ?s Map.empty"
    by (rule empty_links) (use u nod o(21,22) o1(11,12)[OF bH] in \<open>simp add: unstarted_def\<close>)
  moreover have "heads ?s b b tsz Map.empty" unfolding heads_def using o1(14)[OF bH] t(1) by simp
  moreover have "binblocks ?s = 0" using o1(15)[OF bH] o(25) u by (simp add: unstarted_def)
  ultimately show ?thesis unfolding malloc_ok_def using lay a t by simp
qed

lemma extend_size:
  assumes "unat nb < 2 ^ 31" and "32 \<le> unat nb" and "unat (top_pad s) < 2 ^ 32"
  shows "unat (nb + top_pad s + MINSIZE) = unat nb + unat (top_pad s) + 32" "nb + top_pad s + MINSIZE \<noteq> 0"
    "unat (nb + top_pad s + MINSIZE) < 2 ^ 34"
proof -
  have "unat (nb + top_pad s) = unat nb + unat (top_pad s)" using assms by (intro unat_add_small) simp
  then show u: "unat (nb + top_pad s + MINSIZE) = unat nb + unat (top_pad s) + 32"
    using assms by (simp add: MINSIZE_def unat_add_small)
  show "unat (nb + top_pad s + MINSIZE) < 2 ^ 34" using u assms by simp
  have "unat (nb + top_pad s + MINSIZE) \<noteq> 0" using u by simp
  then show "nb + top_pad s + MINSIZE \<noteq> 0" by (metis unat_0)
qed

lemma new_top_first:
  assumes "sbrk_base s = - 1" and "aligned b"
    and c: "(4096 - ((b + sz) AND 4095)) AND 4095 = c" "mc c (system s) = (b + sz, h2)" "b + sz \<noteq> - 1"
  shows "\<exists>s'. new_top mc k (initial_top s) old_size old_end b sz s = Ok s' \<and> av s' = av s \<and>
    mlong s' = mlong (set_head b ((sz + c) OR 1) (set_top b s)) \<and> system s' = h2 \<and> sbrk_base s' = b \<and> book s s'"
proof -
  have m0: "chunk2mem b AND 15 = 0"
    using aligned_and_15[of "b + 16"] assms(2) aligned_add[of b 16] by (simp add: chunk2mem_def SIZE_SZ_def)
  have e: "b + sz - b + c = sz + c" by simp
  show ?thesis
    unfolding new_top_def Let_def MORECORE_def malloc_consts
    using assms(1) m0 c(2,3) e
    by (simp add: c(1) initial_top_def bin0 writes set_long_def top_def fd_def split del: if_split) (simp add: book_def)
qed

lemma av_in_arena:
  assumes "arena a lo lim" and "lo \<le> unat b" and "unat b < lim"
  shows "b \<noteq> a"
proof -
  have "\<not> in_av a b" using assms unfolding arena_def by blast
  then show ?thesis by (auto simp: in_av_def)
qed

lemma arena_up: "arena a lo lim \<Longrightarrow> lo \<le> lo' \<Longrightarrow> arena a lo' lim"
  unfolding arena_def by (meson le_trans)

lemma top_resize:
  assumes ok: "malloc_ok lim base tp tsz cm s" and t: "aligned t" "32 \<le> unat t" "unat tp + unat t \<le> lim"
  shows "malloc_ok lim base tp t cm (set_head tp (t OR 1) s)" "keeps (owned (av s) lim tp cm) s (set_head tp (t OR 1) s)"
proof -
  note D = malloc_okD[OF ok]
  have tH: "tp \<in> insert tp (dom cm)" by simp
  note o = other_field[OF D(9)] and h = headsD[OF D(6)]
  have nod: "q \<in> nodes (av s) (insert tp (dom cm))" if "q \<in> free_set cm \<union> bins (av s)" for q
    by (rule nodes_of[OF _ that]) auto
  have pt: "pbit (head s tp)" using free_prev_inuse[OF D(1,6)] by blast
  have "links (set_head tp (t OR 1) s) cm" by (rule links_cong[OF D(7)]) (use o(11,12)[OF tH] nod in auto)
  moreover have "heads (set_head tp (t OR 1) s) base tp t cm"
  proof -
    have "hsize (head s p) = sz \<and> (pbit (head s (p + sz)) \<longleftrightarrow> u) \<and> p \<noteq> tp \<and> p + sz \<in> insert tp (dom cm) \<and>
        (p + sz = tp \<longrightarrow> u) \<and> (\<not> u \<longrightarrow> prev_size s (p + sz) = sz \<and> (\<exists>sz'. cm (p + sz) = Some (sz', True)))" if "cm p = Some (sz, u)" for p sz u
      using that h(4,5)[OF that] h(6,7)[of p sz] layoutD(8)[OF D(1) that] layout_next_in[OF D(1) that] pt by (cases u) auto
    then show ?thesis unfolding heads_def using h(1,3) t(1) pt o(13,14)[OF tH] by auto
  qed
  moreover have "binblocks (set_head tp (t OR 1) s) = binblocks s" using o(15)[OF tH] by simp
  ultimately show "malloc_ok lim base tp t cm (set_head tp (t OR 1) s)" unfolding malloc_ok_def using D t by simp
  show "keeps (owned (av s) lim tp cm) s (set_head tp (t OR 1) s)"
    unfolding set_head_def by (intro keeps_set_long owned_head[OF ok tH] keeps_refl)
qed

lemma top_split:
  assumes ok: "malloc_ok lim base tp tsz cm s" and n: "aligned n" "32 \<le> unat n" "unat n + 32 \<le> unat tsz"
    and s': "s' = set_head (tp + n) ((tsz - n) OR 1) (set_top (tp + n) (set_head tp (n OR 1) s))"
  shows "malloc_ok lim base (tp + n) (tsz - n) (cm(tp \<mapsto> (n, True))) s'" "keeps (owned (av s) lim tp cm) s s'"
    "unat (tp + n) + unat (tsz - n) = unat tp + unat tsz" "tp \<notin> dom cm"
proof -
  note D = malloc_okD[OF ok]
  let ?H = "insert tp (dom cm)" and ?G = "insert (tp + n) (insert tp (dom cm))"
  have un: "unat (tp + n) = unat tp + unat n" "unat (tsz - n) = unat tsz - unat n"
    using D(5,8) n(3) by (simp_all add: unat_add_small unat_sub_small)
  then show e: "unat (tp + n) + unat (tsz - n) = unat tp + unat tsz" using n(3) by simp
  have b: "unat tp + unat n < 2 ^ 64" using D(5,8) n(3) by simp
  note lay = layout_top_split(1)[OF D(1) n(1,2) b, where v = True] layout_top_split(2)[OF D(1) n(1,2) b]
  show "tp \<notin> dom cm" by (rule lay(2))
  have al: "aligned (tsz - n)" using D(3) n(1) by blast
  have dG: "insert (tp + n) (dom (cm(tp \<mapsto> (n, True)))) = ?G" by simp
  have "unat (tp + n) + 32 \<le> lim" using un D(5) n(3) by linarith
  then have S: "sep (av s) ?G" using layout_sep[OF lay(1) D(2)] unfolding dG by blast
  let ?s1 = "set_head tp (n OR 1) s" and ?s2 = "set_top (tp + n) (set_head tp (n OR 1) s)"
  have G: "tp \<in> ?G" "tp + n \<in> ?G" by simp_all
  have S1: "sep (av ?s1) ?G" "sep (av ?s2) ?G" using S by simp_all
  note o = other_field[OF S] and o1 = other_field[OF S1(1)] and o2 = other_field[OF S1(2)]
  have nod: "q \<in> nodes (av s) ?G" if "q \<in> free_set cm \<union> bins (av s)" for q
    by (rule nodes_of[OF _ that]) auto
  have fdbk: "fd s' q = fd s q \<and> bk s' q = bk s q" if "q \<in> nodes (av s) ?G" for q
    using that o(11,12)[OF G(1)] o1(21,22) o2(11,12)[OF G(2)] unfolding s' by simp
  have "links s' (cm(tp \<mapsto> (n, True)))"
  proof (rule links_cong[OF D(7)])
    show "((cm(tp \<mapsto> (n, True))) p = Some (sz, False)) = (cm p = Some (sz, False))" for p sz
      using lay(2) by (auto simp: domIff)
  qed (use fdbk nod in \<open>auto simp: s'\<close>)
  moreover have "heads s' base (tp + n) (tsz - n) (cm(tp \<mapsto> (n, True)))"
  proof (rule heads_top_split[OF D(1,6) n(1,2) b al])
    show "top s' = tp + n" using o2(14)[OF G(2)] unfolding s' by simp
    show "head s' q = (if q = tp then n OR 1 else if q = tp + n then tsz - n OR 1 else head s q)" if "q \<in> ?G" for q
    proof -
      have "unat (tp + n) \<noteq> unat tp" using un n(2) by linarith
      then have "tp + n \<noteq> tp" by metis
      then show ?thesis using that o1(23)[of q] unfolding s' by auto
    qed
    show "prev_size s' q = prev_size s q" if "q \<in> ?H" for q
      using that o(13)[OF G(1)] o1(24) o2(13)[OF G(2)] unfolding s' by simp
  qed
  moreover have "binblocks s' = binblocks s" using o2(15)[OF G(2)] o1(25) o(15)[OF G(1)] unfolding s' by simp
  moreover have "32 \<le> unat (tsz - n)" "unat (tp + n) + unat (tsz - n) \<le> lim" using un(2) n(3) e D(5) by simp_all
  ultimately show "malloc_ok lim base (tp + n) (tsz - n) (cm(tp \<mapsto> (n, True))) s'"
    unfolding malloc_ok_def using lay(1) D(2,12) al s' by simp
  have "unat (tp + n + 8) = unat tp + (unat n + 8)"
    using un(1) D(5,8) n(3) by (simp add: unat_add_small)
  then have "tp + n + 8 \<in> owned (av s) lim tp cm" unfolding owned_def using D(5) n(3) by auto
  moreover have "av s + 16 \<in> owned (av s) lim tp cm" unfolding owned_def using in_av_statics by blast
  ultimately show "keeps (owned (av s) lim tp cm) s s'"
    unfolding s' writes by (intro keeps_set_long keeps_refl) (simp_all add: bin0 owned_head[OF ok])
qed

lemma too_small_iff:
  assumes ok: "malloc_ok lim base tp tsz cm s" and nb: "unat nb < 2 ^ 31"
  shows "top_too_small nb s \<longleftrightarrow> unat tsz < unat nb + 32" "top s = tp" "chunksize s tp = tsz"
proof -
  note D = malloc_okD[OF ok]
  show tp: "top s = tp" "chunksize s tp = tsz"
    using headsD(1,2)[OF D(6)] and_not_3[of "head s tp" tsz] D(3) by (simp_all add: chunksize_def SIZE_BITS_def)
  have "unat tsz < 2 ^ 63" "unat nb < 2 ^ 63" using D(5,8) nb by simp_all
  then show "top_too_small nb s \<longleftrightarrow> unat tsz < unat nb + 32"
    unfolding top_too_small_def tp sle_diff(3)[OF \<open>unat tsz < 2 ^ 63\<close> \<open>unat nb < 2 ^ 63\<close>] by (auto simp: word_less_nat_alt)
qed

definition give_top :: "u64 \<Rightarrow> 'h mstate \<Rightarrow> 'h mstate" where
  "give_top nb s = (let tp = top s; tsz = chunksize s tp in
     set_head (tp + nb) ((tsz - nb) OR 1) (set_top (tp + nb) (set_head tp (nb OR 1) s)))"

lemma use_top_split:
  assumes ok: "malloc_ok lim base tp tsz cm s" and n: "aligned nb" "32 \<le> unat nb" "unat nb < 2 ^ 31" "unat nb + 32 \<le> unat tsz"
  shows "(let remainder_size = chunksize s (top s) - nb; victim = top s;
                s = set_head victim (nb OR PREV_INUSE) s;
                s = set_top (chunk_at_offset victim nb) s;
                s = set_head (top s) (remainder_size OR PREV_INUSE) s
            in Ok (chunk2mem victim, MALLOC_UNLOCK s)) = Ok (chunk2mem tp, MALLOC_UNLOCK (give_top nb s))"
    "malloc_ok lim base (tp + nb) (tsz - nb) (cm(tp \<mapsto> (nb, True))) (give_top nb s)"
    "keeps (owned (av s) lim tp cm) s (give_top nb s)" "statics s (give_top nb s)"
    "unat (tp + nb) + unat (tsz - nb) = unat tp + unat tsz" "blocks_of cm tp = None"
    "blocks_of (cm(tp \<mapsto> (nb, True))) = (blocks_of cm)(tp \<mapsto> nb)"
proof -
  note t = too_small_iff(2,3)[OF ok n(3)]
  have g: "give_top nb s = set_head (tp + nb) ((tsz - nb) OR 1) (set_top (tp + nb) (set_head tp (nb OR 1) s))"
    by (simp add: give_top_def t)
  note T = top_split[OF ok n(1,2,4) g]
  show "(let remainder_size = chunksize s (top s) - nb; victim = top s;
                s = set_head victim (nb OR PREV_INUSE) s;
                s = set_top (chunk_at_offset victim nb) s;
                s = set_head (top s) (remainder_size OR PREV_INUSE) s
            in Ok (chunk2mem victim, MALLOC_UNLOCK s)) = Ok (chunk2mem tp, MALLOC_UNLOCK (give_top nb s))"
    by (simp add: Let_def t g chunk_at_offset_def PREV_INUSE_def)
  show "malloc_ok lim base (tp + nb) (tsz - nb) (cm(tp \<mapsto> (nb, True))) (give_top nb s)"
    "keeps (owned (av s) lim tp cm) s (give_top nb s)" "unat (tp + nb) + unat (tsz - nb) = unat tp + unat tsz" by (rule T)+
  show "statics s (give_top nb s)" by (simp add: g)
  have "cm tp = None" using T(4) by auto
  then show "blocks_of cm tp = None" by (simp add: blocks_of_def)
  show "blocks_of (cm(tp \<mapsto> (nb, True))) = (blocks_of cm)(tp \<mapsto> nb)" by (auto simp: blocks_of_def fun_eq_iff)
qed

text \<open>The contents of the blocks in use, and what a block handed out is.\<close>

definition kept :: "(u64 \<Rightarrow> u64 option) \<Rightarrow> 'h mstate \<Rightarrow> 'h mstate \<Rightarrow> bool" where
  "kept B s s' \<longleftrightarrow> (\<forall>p sz x. B p = Some sz \<and> x \<in> user p sz \<longrightarrow> mlong s' x = mlong s x)"

definition new_block :: "(u64 \<Rightarrow> u64 option) \<Rightarrow> u64 \<Rightarrow> u64 \<Rightarrow> (u64 \<Rightarrow> u64 option) \<Rightarrow> bool" where
  "new_block B nb m B' \<longleftrightarrow> (\<exists>p sz. m = chunk2mem p \<and> B p = None \<and> B' = B(p \<mapsto> sz) \<and> unat nb \<le> unat sz)"

lemma keeps_kept:
  assumes ok: "malloc_ok lim base tp tsz cm s" and "keeps (owned (av s) lim tp cm) s s'"
  shows "kept (blocks_of cm) s s'"
  unfolding kept_def
proof (intro allI impI)
  fix p sz x assume a: "blocks_of cm p = Some sz \<and> x \<in> user p sz"
  note D = malloc_okD[OF ok]
  have p: "cm p = Some (sz, True)" using a by (auto simp: blocks_of_def split: option.splits bool.splits)
  have "unat tp + 32 \<le> lim" using D(4,5) by linarith
  then have "x \<notin> owned (av s) lim tp cm" using user_not_owned[OF D(1,2) _ p] a by blast
  then show "mlong s' x = mlong s x" using assms(2) unfolding keeps_def by blast
qed

lemma chunks_card:
  assumes "layout base tp cm" and "unat tp \<le> lim"
  shows "card (dom cm) \<le> lim div 32 + 1"
proof -
  let ?f = "\<lambda>p :: u64. unat p div 32"
  have "inj_on ?f (dom cm)"
  proof (rule inj_onI)
    fix p q assume pq: "p \<in> dom cm" "q \<in> dom cm" "?f p = ?f q"
    then obtain a u b v where c: "cm p = Some (a, u)" "cm q = Some (b, v)" by auto
    show "p = q"
    proof (rule ccontr)
      assume "p \<noteq> q"
      then have "unat p + unat a \<le> unat q \<or> unat q + unat b \<le> unat p" using layout_disjoint[OF assms(1) c] by blast
      then have "unat p + 32 \<le> unat q \<or> unat q + 32 \<le> unat p" using layoutD(3)[OF assms(1) c(1)] layoutD(3)[OF assms(1) c(2)] by linarith
      then show False using pq(3) by linarith
    qed
  qed
  moreover have "?f ` dom cm \<subseteq> {..lim div 32}"
  proof
    fix x assume "x \<in> ?f ` dom cm"
    then obtain p a u where p: "cm p = Some (a, u)" "x = ?f p" by auto
    have "unat p \<le> lim" using layoutD(5)[OF assms(1) p(1)] assms(2) by linarith
    then show "x \<in> {..lim div 32}" using p(2) by (simp add: div_le_mono)
  qed
  ultimately have "card (dom cm) \<le> card {..lim div 32}" by (intro card_inj_on_le) simp_all
  then show ?thesis by simp
qed

lemma enough_budget:
  assumes "malloc_ok lim base tp tsz cm s" and "lim div 32 + 129 \<le> k"
  shows "card (free_set cm) + 128 \<le> k"
proof -
  note D = malloc_okD[OF assms(1)]
  have "card (free_set cm) \<le> card (dom cm)" by (intro card_mono D(11) free_set_dom)
  moreover have "card (dom cm) \<le> lim div 32 + 1" using chunks_card[OF D(1)] D(5) by simp
  ultimately show ?thesis using assms(2) by linarith
qed

context morecore
begin

lemma brk_not_error: "fresh h \<or> live h \<Longrightarrow> brk h \<noteq> - 1"
proof
  assume "fresh h \<or> live h" "brk h = - 1"
  moreover have "(- 1 :: u64) = 0xFFFFFFFFFFFFFFFF" by simp
  ultimately show False using range[of h] limit[of h] by simp
qed

lemma grow_page:
  assumes "live h" and c: "(4096 - (brk h AND 4095)) AND 4095 = c"
  shows "\<exists>h'. mc c h = (brk h, h') \<and> live h' \<and> unat (brk h') = unat (brk h) + unat c \<and> 4096 dvd unat (brk h') \<and> unat (brk h') \<le> lim"
proof -
  have u: "unat c = (4096 - unat (brk h) mod 4096) mod 4096" using page_rest[of "brk h"] c by simp
  show ?thesis
  proof (cases "c = 0")
    case True
    then have "(4096 - unat (brk h) mod 4096) mod 4096 = 0" using u by simp
    then have "unat (brk h) mod 4096 = 0" unfolding page_mod by (auto split: if_splits)
    then show ?thesis using True query[OF assms(1)] assms(1) range[of h] by (auto simp: dvd_eq_mod_eq_0)
  next
    case False
    then have nz: "unat c \<noteq> 0" using unat_eq_zero by blast
    then have m: "unat (brk h) mod 4096 \<noteq> 0" using u unfolding page_mod by (auto split: if_splits)
    then have uc: "unat c = 4096 - unat (brk h) mod 4096" using u unfolding page_mod by simp
    obtain p h' where r: "mc c h = (p, h')" by (cases "mc c h")
    have "p \<noteq> - 1" using page[OF assms(1) False uc m] r by simp
    then have g: "p = brk h" "live h'" "brk h' = brk h + c" "unat (brk h) + unat c \<le> lim"
      using grow[of h c p h'] assms(1) False r uc by auto
    have "unat (brk h') = unat (brk h) + unat c" using g(3,4) limit[of h] assms(1) by (subst g(3), intro unat_add_small) simp
    moreover have "4096 dvd unat (brk h) + unat c" using uc page_dvd by simp
    ultimately show ?thesis using g r by simp
  qed
qed

lemma first_extend:
  assumes u: "unstarted s" and a: "arena (av s) lo lim" and t: "unat (top_pad s) < 2 ^ 32"
    and h: "fresh (system s) \<or> live (system s)" and al: "aligned (brk (system s))"
    and nb: "32 \<le> unat nb" "unat nb < 2 ^ 31"
  shows "\<exists>s'. malloc_extend_top mc k nb s = Ok s' \<and> book s s' \<and>
    (unstarted s' \<and> (fresh (system s') \<or> live (system s')) \<and> brk (system s') = brk (system s) \<and> denied mc nb s \<or>
     (\<exists>tsz. malloc_ok lim (brk (system s)) (brk (system s)) tsz Map.empty s' \<and> grown live brk lo (brk (system s)) tsz s' \<and>
        unat nb + 32 \<le> unat tsz))"
proof -
  let ?b = "brk (system s)" and ?sz = "nb + top_pad s + MINSIZE"
  note sz = extend_size[OF nb(2,1) t]
  have z: "chunksize s (bin_at s 0) = 0" using u by (simp add: unstarted_def chunksize_def binblocks_def)
  have t: "top s = bin_at s 0" "sbrk_base s = - 1" using u by (simp_all add: unstarted_def)
  obtain p h1 where m: "mc ?sz (system s) = (p, h1)" by (cases "mc ?sz (system s)")
  show ?thesis
  proof (cases "p = - 1")
    case True
    then have "malloc_extend_top mc k nb s = Ok (s\<lparr>system := h1\<rparr>)"
      using m t(2) by (simp add: malloc_extend_top_def Let_def MORECORE_def)
    moreover have "unstarted (s\<lparr>system := h1\<rparr>)" using u by (subst unstarted_eq[of _ s]) simp_all
    moreover have "denied mc nb s" using m True t(2) by (simp add: denied_def extension_def)
    ultimately show ?thesis using refuse[OF h sz(2,3)] m True by (auto simp: book_def)
  next
    case False
    then have g: "p = ?b" "live h1" "brk h1 = ?b + ?sz" "unat ?b + unat ?sz \<le> lim" using grow[OF h sz(2,3) m] by auto
    have lo: "lo \<le> unat ?b" using range[OF h] by blast
    have ub: "unat (?b + ?sz) = unat ?b + unat ?sz" using g(4) limit[OF h] by (intro unat_add_small) simp
    define c where c: "c = (4096 - ((?b + ?sz) AND 4095)) AND 4095"
    obtain h2 where h2: "mc c h1 = (?b + ?sz, h2)" "live h2" "unat (brk h2) = unat (?b + ?sz) + unat c" "4096 dvd unat (brk h2)" "unat (brk h2) \<le> lim"
      using grow_page[OF g(2), of c] g(3) c by auto
    have "unat ?b < lim" using g(4) sz(1) by linarith
    then have nav: "?b \<noteq> av s" using av_in_arena[OF a lo] by blast
    have ne: "?b + ?sz \<noteq> - 1" using brk_not_error[of h1] g(2,3) by auto
    let ?s1 = "s\<lparr>system := h1, sbrked_mem := sbrked_mem s + ?sz\<rparr>"
    have e1: "malloc_extend_top mc k nb s = new_top mc k (initial_top ?s1) 0 (av s) ?b ?sz ?s1"
      using m t z g(1) False nav by (simp add: malloc_extend_top_def Let_def MORECORE_def chunk_at_offset_def initial_top_def bin0)
    obtain s' where s': "new_top mc k (initial_top ?s1) 0 (av s) ?b ?sz ?s1 = Ok s'" "av s' = av ?s1"
        "mlong s' = mlong (set_head ?b ((?sz + c) OR 1) (set_top ?b ?s1))" "system s' = h2" "sbrk_base s' = ?b" "book ?s1 s'"
      using new_top_first[of ?s1 ?b ?sz c mc h2 k 0 "av s"] t(2) al c h2(1) ne by auto
    have uc: "unat (?sz + c) = unat ?sz + unat c" using h2(3,5) ub limit[OF h] by (intro unat_add_small) simp
    have tot: "unat (brk h2) = unat ?b + unat (?sz + c)" using h2(3) ub uc by simp
    have al2: "aligned (?sz + c)" using dvd_aligned[of ?b "?sz + c"] h2(4) tot al by simp
    have u1: "unstarted ?s1" using u by (subst unstarted_eq[of _ s]) simp_all
    have "32 \<le> unat (?sz + c)" "unat ?b + unat (?sz + c) \<le> lim" using uc sz(1) tot h2(5) by linarith+
    then have "malloc_ok lim ?b ?b (?sz + c) Map.empty (set_head ?b ((?sz + c) OR 1) (set_top ?b ?s1))"
      using first_top_ok[OF u1 al al2, of lim] arena_up[OF a lo] by simp
    then have "malloc_ok lim ?b ?b (?sz + c) Map.empty s'" using malloc_ok_eq[OF s'(3)] s'(2) by simp
    moreover have "grown live brk lo ?b (?sz + c) s'"
      unfolding grown_def using s'(4,5) h2 tot brk_not_error[OF h] by simp
    moreover have "book s s'" using s'(6) by (simp add: book_def)
    moreover have "unat nb + 32 \<le> unat (?sz + c)" using uc sz(1) by linarith
    ultimately show ?thesis using s'(1) e1 by (intro exI[of _ s']) auto
  qed
qed

lemma later_extend:
  assumes ok: "malloc_ok lim base tp tsz cm s" and g: "grown live brk lo tp tsz s"
    and t: "unat (top_pad s) < 2 ^ 32" and nb: "32 \<le> unat nb" "unat nb < 2 ^ 31"
  shows "\<exists>s'. malloc_extend_top mc k nb s = Ok s' \<and> book s s' \<and> keeps (owned (av s) lim tp cm) s s' \<and>
    (\<exists>tsz'. malloc_ok lim base tp tsz' cm s' \<and> grown live brk lo tp tsz' s' \<and>
      (unat nb + 32 \<le> unat tsz' \<or> tsz' = tsz \<and> denied mc nb s))"
proof -
  note D = malloc_okD[OF ok]
  let ?n = "nb + top_pad s + MINSIZE" and ?b = "brk (system s)"
  note n = extend_size[OF nb(2,1) t]
  define sz where sz: "sz = (?n + (malloc_getpagesize - 1)) AND NOT (malloc_getpagesize - 1)"
  have G: "sbrk_base s \<noteq> - 1" "live (system s)" "unat ?b = unat tp + unat tsz" "4096 dvd unat tp + unat tsz"
    using g unfolding grown_def by blast+
  have tp: "top s = tp" "chunksize s tp = tsz"
    using headsD(1,2)[OF D(6)] and_not_3[of "head s tp" tsz] D(3) by (simp_all add: chunksize_def SIZE_BITS_def)
  have "unat (?n + 4095) = unat ?n + 4095" using n(3) by (simp add: unat_add_small)
  moreover have "unat sz = unat (?n + 4095) - unat (?n + 4095) mod 2 ^ 12"
  proof -
    have "malloc_getpagesize - 1 = (4095 :: u64)" "(4095 :: u64) = mask 12" by (simp_all add: mask_numeral malloc_getpagesize_def)
    then have "sz = (?n + 4095) AND NOT (mask 12)" by (simp only: sz)
    then show ?thesis by (simp only: unat_and_not)
  qed
  ultimately have usz: "unat sz = unat ?n + 4095 - (unat ?n + 4095) mod 4096" by simp
  have m: "(unat ?n + 4095) mod 4096 \<le> 4095" by (simp add: Suc_le_eq[symmetric, of _ 4095] less_Suc_eq_le[symmetric])
  have "unat sz \<le> unat ?n + 4095" unfolding usz by (rule diff_le_self)
  then have bnd: "unat ?n \<le> unat sz" "unat sz < 2 ^ 34" using usz m n(1) nb t by simp_all
  have d4: "4096 dvd unat sz" unfolding usz by (rule dvd_minus_mod)
  have nz: "sz \<noteq> 0" using bnd(1) n(1) nb(1) by (intro notI) simp
  have be: "?b = tp + tsz"
  proof -
    have "unat (tp + tsz) = unat tp + unat tsz" using D(5,8) by (intro unat_add_small) simp
    then show ?thesis using G(3) by (metis word_unat_eq_iff)
  qed
  have pg: "?b AND 4095 = 0"
  proof -
    have "unat (?b AND 4095) = 0" unfolding and_4095 using G(3,4) by simp
    then show ?thesis by (metis unat_eq_zero)
  qed
  obtain p h' where m: "mc sz (system s) = (p, h')" by (cases "mc sz (system s)")
  show ?thesis
  proof (cases "p = - 1")
    case True
    then have e: "malloc_extend_top mc k nb s = Ok (s\<lparr>system := h'\<rparr>)"
      unfolding malloc_extend_top_def Let_def MORECORE_def sz[symmetric] using m G(1) by simp
    moreover have "malloc_ok lim base tp tsz cm (s\<lparr>system := h'\<rparr>)" using ok malloc_ok_eq[of "s\<lparr>system := h'\<rparr>" s] by simp
    moreover have "live h' \<and> brk h' = ?b" using refuse[OF _ nz bnd(2), of "system s" h'] G(2) m True by simp
    then have "grown live brk lo tp tsz (s\<lparr>system := h'\<rparr>)" unfolding grown_def using G by simp
    moreover have "denied mc nb s" unfolding denied_def extension_def Let_def using G(1) m True by (simp add: sz)
    ultimately show ?thesis by (auto simp: book_def keeps_def)
  next
    case False
    then have gr: "p = ?b" "live h'" "brk h' = ?b + sz" "unat ?b + unat sz \<le> lim"
      using grow[OF _ nz bnd(2) m] G(2) by auto
    let ?s1 = "s\<lparr>system := h', sbrked_mem := sbrked_mem s + sz\<rparr>"
    let ?s' = "count_mem (set_head tp ((sz + tsz) OR 1) ?s1)"
    have tp1: "top ?s1 = tp" using tp(1) by (simp add: top_def fd_def bin_at_eq)
    have "malloc_extend_top mc k nb s = Ok ?s'"
      unfolding malloc_extend_top_def Let_def MORECORE_def sz[symmetric]
      using m G(1) tp tp1 be pg False gr(1) by (simp add: chunk_at_offset_def PREV_INUSE_def malloc_getpagesize_def)
    moreover have us: "unat (sz + tsz) = unat sz + unat tsz" using bnd(2) D(5,8) by (intro unat_add_small) simp
    have t': "aligned (sz + tsz)"
    proof -
      have "16 dvd (4096 :: nat)" by simp
      then have "aligned sz" unfolding aligned_def using d4 dvd_trans by blast
      then show ?thesis using D(3) by blast
    qed
    have ml: "mlong ?s' = mlong (set_head tp ((sz + tsz) OR 1) s)" by (simp add: set_head_def set_long_def)
    have "malloc_ok lim base tp (sz + tsz) cm (set_head tp ((sz + tsz) OR 1) s)"
      by (rule top_resize(1)[OF ok t']) (use us D(4,5) gr(4) G(3) in linarith)+
    then have "malloc_ok lim base tp (sz + tsz) cm ?s'" using malloc_ok_eq[OF ml] by simp
    moreover have "keeps (owned (av s) lim tp cm) s ?s'"
      unfolding keeps_def ml
      using top_resize(2)[OF ok t'] us D(4,5) gr(4) G(3) unfolding keeps_def by simp
    moreover have "unat (?b + sz) = unat ?b + unat sz" using gr(4) limit[of "system s"] G(2) by (intro unat_add_small) simp
    then have "grown live brk lo tp (sz + tsz) ?s'"
    proof -
      have "4096 dvd (unat tp + unat tsz) + unat sz" using G(4) d4 by (rule dvd_add)
      then show ?thesis unfolding grown_def
        using G(1) gr(2,3) us G(3) \<open>unat (?b + sz) = unat ?b + unat sz\<close>
        by (simp add: set_head_def set_long_def add.assoc add.commute add.left_commute)
    qed
    moreover have "unat nb + 32 \<le> unat (sz + tsz)" using us bnd(1) n(1) by linarith
    moreover have "book s ?s'" unfolding count_mem_simps by (simp add: book_def set_head_def set_long_def)
    ultimately show ?thesis by blast
  qed
qed

lemma use_top_ok:
  assumes ok: "malloc_ok lim base tp tsz cm s" and g: "grown live brk lo tp tsz s"
    and t: "unat (top_pad s) < 2 ^ 32" and nb: "aligned nb" "32 \<le> unat nb" "unat nb < 2 ^ 31"
  shows "\<exists>m s'. use_top mc k nb s = Ok (m, MALLOC_UNLOCK s') \<and> book s s' \<and> keeps (owned (av s) lim tp cm) s s' \<and>
    (\<exists>tp' tsz' cm'. malloc_ok lim base tp' tsz' cm' s' \<and> grown live brk lo tp' tsz' s' \<and>
      (m = 0 \<and> blocks_of cm' = blocks_of cm \<and> denied mc nb s \<or> new_block (blocks_of cm) nb m (blocks_of cm')))"
proof -
  have "\<exists>s1. (if top_too_small nb s then malloc_extend_top mc k nb s else Ok s) = Ok s1 \<and> book s s1 \<and>
      keeps (owned (av s) lim tp cm) s s1 \<and> (\<exists>tsz1. malloc_ok lim base tp tsz1 cm s1 \<and> grown live brk lo tp tsz1 s1 \<and>
      (unat nb + 32 \<le> unat tsz1 \<or> denied mc nb s))"
  proof (cases "top_too_small nb s")
    case True
    show ?thesis unfolding if_P[OF True] using later_extend[OF ok g t nb(2,3), of k] by blast
  next
    case False
    then have "unat nb + 32 \<le> unat tsz" using too_small_iff(1)[OF ok nb(3)] by linarith
    then show ?thesis using False ok g by auto
  qed
  then obtain s1 tsz1 where s1: "(if top_too_small nb s then malloc_extend_top mc k nb s else Ok s) = Ok s1" "book s s1"
      "keeps (owned (av s) lim tp cm) s s1" "malloc_ok lim base tp tsz1 cm s1" "grown live brk lo tp tsz1 s1"
      "unat nb + 32 \<le> unat tsz1 \<or> denied mc nb s" by blast
  show ?thesis
  proof (cases "top_too_small nb s1")
    case True
    then have "use_top mc k nb s = Ok (0, MALLOC_UNLOCK s1)" using s1(1) by (simp add: use_top_def)
    moreover have "denied mc nb s" using True too_small_iff(1)[OF s1(4) nb(3)] s1(6) by auto
    ultimately show ?thesis using s1 by blast
  next
    case False
    then have big: "unat nb + 32 \<le> unat tsz1" using too_small_iff(1)[OF s1(4) nb(3)] by linarith
    note u = use_top_split[OF s1(4) nb big]
    let ?s' = "give_top nb s1"
    have "use_top mc k nb s = Ok (chunk2mem tp, MALLOC_UNLOCK ?s')"
      unfolding use_top_def s1(1) using False u(1) by simp
    moreover have avs: "av s1 = av s" using s1(2) by (simp add: book_def)
    then have "keeps (owned (av s) lim tp cm) s ?s'" using keeps_trans[OF s1(3)] u(3) by simp
    moreover have "grown live brk lo (tp + nb) (tsz1 - nb) ?s'"
      using s1(5) u(4,5) unfolding grown_def statics_def by simp
    moreover have "new_block (blocks_of cm) nb (chunk2mem tp) (blocks_of (cm(tp \<mapsto> (nb, True))))"
      unfolding new_block_def using u(6,7) by blast
    moreover have "book s ?s'" using book_trans[OF s1(2) statics_book[OF u(4)]] .
    ultimately show ?thesis using u(2) by blast
  qed
qed

lemma use_top_first:
  assumes u: "unstarted s" and a: "arena (av s) lo lim" and t: "unat (top_pad s) < 2 ^ 32"
    and h: "fresh (system s) \<or> live (system s)" and al: "aligned (brk (system s))"
    and nb: "aligned nb" "32 \<le> unat nb" "unat nb < 2 ^ 31"
  shows "\<exists>m s'. use_top mc k nb s = Ok (m, MALLOC_UNLOCK s') \<and> book s s' \<and>
    (unstarted s' \<and> (fresh (system s') \<or> live (system s')) \<and> aligned (brk (system s')) \<and> m = 0 \<and> denied mc nb s \<or>
     (\<exists>base tp tsz cm. malloc_ok lim base tp tsz cm s' \<and> lo \<le> unat base \<and> grown live brk lo tp tsz s' \<and>
        new_block Map.empty nb m (blocks_of cm)))"
proof -
  have c: "chunksize s (top s) = 0" using u by (simp add: unstarted_def chunksize_def binblocks_def)
  have "0 < nb" using nb(2) by (simp add: word_less_nat_alt)
  then have small: "top_too_small nb s'" if "unstarted s'" for s' :: "'h mstate"
    using that by (simp add: top_too_small_def unstarted_def chunksize_def binblocks_def)
  obtain s1 where s1: "malloc_extend_top mc k nb s = Ok s1" "book s s1"
      "unstarted s1 \<and> (fresh (system s1) \<or> live (system s1)) \<and> brk (system s1) = brk (system s) \<and> denied mc nb s \<or>
       (\<exists>tsz. malloc_ok lim (brk (system s)) (brk (system s)) tsz Map.empty s1 \<and> grown live brk lo (brk (system s)) tsz s1 \<and>
        unat nb + 32 \<le> unat tsz)"
    using first_extend[OF u a t h al nb(2,3)] by blast
  from s1(3) show ?thesis
  proof (rule disjE)
    assume n: "unstarted s1 \<and> (fresh (system s1) \<or> live (system s1)) \<and> brk (system s1) = brk (system s) \<and> denied mc nb s"
    then have "unstarted s1" by blast
    then have "use_top mc k nb s = Ok (0, MALLOC_UNLOCK s1)" using s1(1) small[OF u] small[of s1] by (simp add: use_top_def)
    then show ?thesis using n s1(2) al by auto
  next
    assume "\<exists>tsz. malloc_ok lim (brk (system s)) (brk (system s)) tsz Map.empty s1 \<and> grown live brk lo (brk (system s)) tsz s1 \<and>
        unat nb + 32 \<le> unat tsz"
    then obtain tsz where g: "malloc_ok lim (brk (system s)) (brk (system s)) tsz Map.empty s1"
        "grown live brk lo (brk (system s)) tsz s1" "unat nb + 32 \<le> unat tsz" by blast
    note u' = use_top_split[OF g(1) nb g(3)]
    have "\<not> top_too_small nb s1" using too_small_iff(1)[OF g(1) nb(3)] g(3) by linarith
    then have "use_top mc k nb s = Ok (chunk2mem (brk (system s)), MALLOC_UNLOCK (give_top nb s1))"
      unfolding use_top_def using s1(1) small[OF u] u'(1) by simp
    moreover have "grown live brk lo (brk (system s) + nb) (tsz - nb) (give_top nb s1)"
      using g(2) u'(4,5) unfolding grown_def statics_def by simp
    moreover have "blocks_of Map.empty = Map.empty" by (auto simp: blocks_of_def)
    then have "new_block Map.empty nb (chunk2mem (brk (system s))) (blocks_of (Map.empty(brk (system s) \<mapsto> (nb, True))))"
      unfolding new_block_def u'(7) by (intro exI[of _ "brk (system s)"] exI[of _ nb]) simp
    moreover have "book s (give_top nb s1)" using book_trans[OF s1(2) statics_book[OF u'(4)]] .
    moreover have "lo \<le> unat (brk (system s))" using range[OF h] by blast
    ultimately show ?thesis using u'(2) by blast
  qed
qed

end

end
