(* ===== verification/Malloc_Request.thy ===== *)
theory Malloc_Request
  imports Malloc_Top
begin

text \<open>
  \<open>malloc\<close> as a whole: on every state of the arena it returns, and either hands out a new block or
  returns 0 and leaves the blocks as they were.
\<close>

definition refused :: "u64 \<Rightarrow> bool" where
  "refused bytes \<longleftrightarrow> INT_MAX < request2size bytes \<or> request2size bytes < bytes"

lemma lock_book [simp]:
  "book s (MALLOC_UNLOCK s') \<longleftrightarrow> book (MALLOC_LOCK s) s'" "system (MALLOC_LOCK s) = system s" "system (MALLOC_UNLOCK s) = system s"
  "sbrk_base (MALLOC_LOCK s) = sbrk_base s" "sbrk_base (MALLOC_UNLOCK s) = sbrk_base s" "top_pad (MALLOC_LOCK s) = top_pad s"
  "top_pad (MALLOC_UNLOCK s) = top_pad s" "grown live brk lo tp tsz (MALLOC_LOCK s) = grown live brk lo tp tsz s"
  "grown live brk lo tp tsz (MALLOC_UNLOCK s) = grown live brk lo tp tsz s"
  by (auto simp: book_def MALLOC_LOCK_def MALLOC_UNLOCK_def grown_def)

lemma denied_lock [simp]: "denied mc nb (MALLOC_LOCK s) = denied mc nb s" by (rule denied_eq) simp_all

lemma lock_unstarted [simp]: "unstarted (MALLOC_LOCK s) = unstarted s" "unstarted (MALLOC_UNLOCK s) = unstarted s"
  by (rule unstarted_eq; simp)+

lemma lock_keeps [simp]:
  "keeps X (MALLOC_LOCK s) s' \<longleftrightarrow> keeps X s s'" "keeps X s (MALLOC_UNLOCK s') \<longleftrightarrow> keeps X s s'"
  "kept B (MALLOC_LOCK s) s' \<longleftrightarrow> kept B s s'" "kept B s (MALLOC_UNLOCK s') \<longleftrightarrow> kept B s s'"
  by (simp_all add: keeps_def kept_def)

lemma unstarted_search:
  assumes u: "unstarted s" and nb: "32 \<le> unat nb" and k: "0 < k"
  shows "\<exists>idx. exact_fit k nb s = Ok (None, idx) \<and> search_bins k nb idx s = Ok (None, s)" "try_last_remainder k nb s = Ok (None, s)"
proof -
  obtain k' where k': "k = Suc k'" using k by (cases k) auto
  have b: "fd s (bin_at s i) = bin_at s i \<and> bk s (bin_at s i) = bin_at s i" if "1 \<le> i" "i < 128" for i
    using u that unfolding unstarted_def by blast
  have z: "binblocks s = 0" using u by (simp add: unstarted_def)
  have sb: "search_bins k nb idx s = Ok (None, s)" if "idx < 128" for idx
  proof -
    have n: "idx div 4 < 64" using that by linarith
    have "push_bit (idx div 4) 1 \<noteq> (0 :: u64)" using unat_push[OF n] by (metis unat_0 power_not_zero zero_neq_numeral)
    then show ?thesis using z by (simp add: search_bins_def idx2binblock_def BINBLOCKWIDTH_def)
  qed
  show "\<exists>idx. exact_fit k nb s = Ok (None, idx) \<and> search_bins k nb idx s = Ok (None, s)"
  proof (cases "is_small_request nb")
    case True
    then have "unat nb < 504" by (simp add: is_small_request_def MAX_SMALLBIN_SIZE_def SMALLBIN_WIDTH_def word_less_nat_alt)
    then have i: "1 \<le> smallbin_index nb" "smallbin_index nb + 1 < 64"
      unfolding smallbin_index_def using unat_drop[of 3 nb] nb by simp_all
    have nx: "next_bin (bin_at s (smallbin_index nb)) = bin_at s (smallbin_index nb + 1)" by (simp add: next_bin_def bin_at_eq algebra_simps)
    have "small_exact nb s = None"
      using b[of "smallbin_index nb"] b[of "smallbin_index nb + 1"] i by (simp add: small_exact_def Let_def nx del: One_nat_def)
    then show ?thesis using True i sb[of "smallbin_index nb + 2"] by (simp add: exact_fit_def)
  next
    case False
    then show ?thesis using b[of "bin_index nb"] bin_index_bounds[OF nb] sb[of "bin_index nb + 1"] k'
      by (simp add: exact_fit_def Let_def)
  qed
  show "try_last_remainder k nb s = Ok (None, s)"
    using b[of 1] by (simp add: try_last_remainder_def last_remainder_def Let_def)
qed

context morecore
begin

lemma malloc_started:
  assumes ok: "malloc_ok lim base tp tsz cm s" and g: "grown live brk lo tp tsz s" and t: "unat (top_pad s) < 2 ^ 32"
    and r: "\<not> refused bytes" and k: "lim div 32 + 129 \<le> k"
  shows "\<exists>m s'. mALLOc mc k bytes s = Ok (m, s') \<and> book s s' \<and> keeps (owned (av s) lim tp cm) s s' \<and>
    (\<exists>tp' tsz' cm'. malloc_ok lim base tp' tsz' cm' s' \<and> grown live brk lo tp' tsz' s' \<and>
      (m = 0 \<and> blocks_of cm' = blocks_of cm \<and> denied mc (request2size bytes) s \<or>
       new_block (blocks_of cm) (request2size bytes) m (blocks_of cm')))"
    (is "\<exists>m s'. _ = _ \<and> ?post m s'")
proof -
  let ?nb = "request2size bytes" and ?s = "MALLOC_LOCK s"
  note nb = request2size_ok[OF r[unfolded refused_def]]
  note kk = enough_budget[OF ok k]
  have ok0: "malloc_ok lim base tp tsz cm ?s" using ok by simp
  have e: "mALLOc mc k bytes s = bnd (exact_fit k ?nb ?s) (\<lambda>(r, idx). case r of
                Some victim \<Rightarrow> Ok (take_chunk victim ?s)
              | None \<Rightarrow> bnd (try_last_remainder k ?nb ?s) (\<lambda>(r, s). case r of
                  Some mem \<Rightarrow> Ok (mem, s)
                | None \<Rightarrow> bnd (search_bins k ?nb idx s) (\<lambda>(r, s). case r of
                    Some mem \<Rightarrow> Ok (mem, s)
                  | None \<Rightarrow> use_top mc k ?nb s)))"
    using r unfolding mALLOc_def refused_def by (simp add: Let_def)
  have served: "?post m (MALLOC_UNLOCK s'')" if al: "allocates lim base tp tsz cm ?nb ?s m s''" for m s''
  proof -
    obtain v sz cm' where a: "m = chunk2mem v" "unat ?nb \<le> unat sz" "malloc_ok lim base tp tsz cm' s''" "blocks_of cm v = None"
        "blocks_of cm' = (blocks_of cm)(v \<mapsto> sz)" "keeps (owned (av s) lim tp cm) s s''" "statics ?s s''"
      using al unfolding allocates_def lock_simps lock_keeps by blast
    have "grown live brk lo tp tsz s''" using g a(7) unfolding grown_def statics_def by simp
    moreover have "new_block (blocks_of cm) ?nb m (blocks_of cm')" unfolding new_block_def using a by blast
    ultimately show ?thesis using a(3,6) statics_book[OF a(7)] by auto
  qed
  obtain r idx where x: "exact_fit k ?nb ?s = Ok (r, idx)" "2 \<le> idx" "idx < 128"
      "\<forall>v. r = Some v \<longrightarrow> (\<exists>sz. cm v = Some (sz, False) \<and> unat ?nb \<le> unat sz)"
    using exact_fit_ok[OF ok0 nb(1-3) kk] by blast
  show ?thesis
  proof (cases r)
    case (Some v)
    then obtain sz where v: "cm v = Some (sz, False)" "unat ?nb \<le> unat sz" using x(4) by blast
    then obtain s'' where "take_chunk v ?s = (chunk2mem v, MALLOC_UNLOCK s'')" "allocates lim base tp tsz cm ?nb ?s (chunk2mem v) s''"
      using take_chunk_ok[OF ok0 v] by blast
    then show ?thesis using e x(1) Some served by (intro exI[of _ "chunk2mem v"] exI[of _ "MALLOC_UNLOCK s''"]) simp
  next
    case None
    obtain r1 s1 where l: "try_last_remainder k ?nb ?s = Ok (r1, s1)" "served lim base tp tsz cm ?nb ?s (r1, s1)"
      using try_last_remainder_ok[OF ok0 nb(1-3) kk] by auto
    show ?thesis
    proof (cases r1)
      case (Some m)
      then obtain s'' where "s1 = MALLOC_UNLOCK s''" "allocates lim base tp tsz cm ?nb ?s m s''" using l(2) by (auto simp: served_def)
      then show ?thesis using e x(1) None l(1) Some served[of m s''] by (intro exI[of _ m] exI[of _ s1]) simp
    next
      case none1: None
      have s1: "malloc_ok lim base tp tsz cm s1" "same_arena lim tp cm ?s s1" "fd s1 (last_remainder s1) = last_remainder s1"
        using l(2) none1 by (auto simp: served_def)
      obtain r2 s2 where b: "search_bins k ?nb idx s1 = Ok (r2, s2)" "served lim base tp tsz cm ?nb ?s (r2, s2)"
        using search_bins_ok[OF s1(1,3) nb(1-3) kk x(2,3)] served_trans[OF s1(2)] by force
      show ?thesis
      proof (cases r2)
        case (Some m)
        then obtain s'' where "s2 = MALLOC_UNLOCK s''" "allocates lim base tp tsz cm ?nb ?s m s''" using b(2) by (auto simp: served_def)
        then show ?thesis using e x(1) None l(1) none1 b(1) Some served[of m s''] by (intro exI[of _ m] exI[of _ s2]) simp
      next
        case none2: None
        have s2: "malloc_ok lim base tp tsz cm s2" "statics ?s s2" "keeps (owned (av s) lim tp cm) s s2"
          using b(2) none2 by (auto simp: served_def same_arena_def)
        have g2: "grown live brk lo tp tsz s2" "unat (top_pad s2) < 2 ^ 32" "av s2 = av s" "system s2 = system s"
          using g t s2(2) unfolding grown_def statics_def by simp_all
        obtain m s3 where u: "use_top mc k ?nb s2 = Ok (m, MALLOC_UNLOCK s3)" "book s2 s3" "keeps (owned (av s2) lim tp cm) s2 s3"
            "\<exists>tp' tsz' cm'. malloc_ok lim base tp' tsz' cm' s3 \<and> grown live brk lo tp' tsz' s3 \<and>
              (m = 0 \<and> blocks_of cm' = blocks_of cm \<and> denied mc ?nb s2 \<or> new_block (blocks_of cm) ?nb m (blocks_of cm'))"
          using use_top_ok[OF s2(1) g2(1,2) nb(1-3), of k] by blast
        have "book ?s s3" using book_trans[OF statics_book[OF s2(2)] u(2)] .
        moreover have "keeps (owned (av s) lim tp cm) s s3" using keeps_trans[OF s2(3) u(3)[unfolded g2(3)]] .
        moreover have "mALLOc mc k bytes s = Ok (m, MALLOC_UNLOCK s3)" using e x(1) None l(1) none1 b(1) none2 u(1) by simp
        moreover have "denied mc ?nb s2 = denied mc ?nb s"
          by (rule denied_eq) (use s2(2) in \<open>simp_all add: statics_def\<close>)
        ultimately show ?thesis using u(4)
          by (intro exI[of _ m] exI[of _ "MALLOC_UNLOCK s3"]) (unfold lock_book lock_keeps lock_ok, blast)
      qed
    qed
  qed
qed

theorem malloc_works:
  assumes a: "arena_state fresh live brk lo lim B s" and k: "lim div 32 + 129 \<le> k"
  shows "\<exists>m s' B'. mALLOc mc k bytes s = Ok (m, s') \<and> arena_state fresh live brk lo lim B' s' \<and> kept B s s' \<and>
    lock_depth s' = lock_depth s \<and>
    (m = 0 \<and> B' = B \<and> (refused bytes \<or> denied mc (request2size bytes) s) \<or>
     \<not> refused bytes \<and> new_block B (request2size bytes) m B')"
proof (cases "refused bytes")
  case True
  then have "mALLOc mc k bytes s = Ok (0, s\<lparr>rerrno := ENOMEM\<rparr>)" unfolding mALLOc_def refused_def Let_def by simp
  moreover have "arena_state fresh live brk lo lim B (s\<lparr>rerrno := ENOMEM\<rparr>)"
    using a malloc_ok_eq[of "s\<lparr>rerrno := ENOMEM\<rparr>" s] unstarted_eq[of "s\<lparr>rerrno := ENOMEM\<rparr>" s]
    unfolding arena_state_def grown_def by simp
  moreover have "kept B s (s\<lparr>rerrno := ENOMEM\<rparr>)" by (simp add: kept_def)
  ultimately show ?thesis using True by auto
next
  case False
  have A: "arena (av s) lo lim" "unat (top_pad s) < 2 ^ 32" using a unfolding arena_state_def by blast+
  note nb = request2size_ok[OF False[unfolded refused_def]]
  consider "unstarted s" "fresh (system s) \<or> live (system s)" "aligned (brk (system s))" "B = Map.empty"
    | base tp tsz cm where "malloc_ok lim base tp tsz cm s" "lo \<le> unat base" "grown live brk lo tp tsz s" "B = blocks_of cm"
    using a unfolding arena_state_def by blast
  then show ?thesis
  proof cases
    case 1
    let ?s = "MALLOC_LOCK s"
    have u: "unstarted ?s" using 1 by simp
    obtain idx where x: "exact_fit k (request2size bytes) ?s = Ok (None, idx)" "search_bins k (request2size bytes) idx ?s = Ok (None, ?s)"
      using unstarted_search(1)[OF u nb(2)] k by (metis add_gr_0 less_le_trans zero_less_numeral)
    have l: "try_last_remainder k (request2size bytes) ?s = Ok (None, ?s)" using unstarted_search(2)[OF u nb(2), of k] k by simp
    have e: "mALLOc mc k bytes s = use_top mc k (request2size bytes) ?s"
      using False x l unfolding mALLOc_def refused_def by (simp add: Let_def)
    have as: "arena (av ?s) lo lim" "unat (top_pad ?s) < 2 ^ 32" "fresh (system ?s) \<or> live (system ?s)" "aligned (brk (system ?s))"
      using A 1(2,3) by simp_all
    obtain m s' where m: "use_top mc k (request2size bytes) ?s = Ok (m, MALLOC_UNLOCK s')" "book ?s s'"
      "unstarted s' \<and> (fresh (system s') \<or> live (system s')) \<and> aligned (brk (system s')) \<and> m = 0 \<and> denied mc (request2size bytes) ?s \<or>
       (\<exists>base tp tsz cm. malloc_ok lim base tp tsz cm s' \<and> lo \<le> unat base \<and> grown live brk lo tp tsz s' \<and>
        new_block Map.empty (request2size bytes) m (blocks_of cm))"
      using use_top_first[OF u as nb(1-3), of k] by blast
    have b: "av s' = av s" "top_pad s' = top_pad s" "lock_depth (MALLOC_UNLOCK s') = lock_depth s"
      using m(2) by (simp_all add: book_def MALLOC_LOCK_def MALLOC_UNLOCK_def)
    have kp: "kept B s (MALLOC_UNLOCK s')" using 1(4) by (simp add: kept_def)
    from m(3) show ?thesis
    proof (rule disjE)
      assume n: "unstarted s' \<and> (fresh (system s') \<or> live (system s')) \<and> aligned (brk (system s')) \<and> m = 0 \<and> denied mc (request2size bytes) ?s"
      then have "arena_state fresh live brk lo lim B (MALLOC_UNLOCK s')" unfolding arena_state_def using A b 1(4) by simp
      then show ?thesis using e m(1) kp b(3) n False by auto
    next
      assume "\<exists>base tp tsz cm. malloc_ok lim base tp tsz cm s' \<and> lo \<le> unat base \<and> grown live brk lo tp tsz s' \<and>
        new_block Map.empty (request2size bytes) m (blocks_of cm)"
      then obtain base tp tsz cm where n: "malloc_ok lim base tp tsz cm s'" "lo \<le> unat base" "grown live brk lo tp tsz s'"
        "new_block B (request2size bytes) m (blocks_of cm)" using 1(4) by blast
      then have "arena_state fresh live brk lo lim (blocks_of cm) (MALLOC_UNLOCK s')" unfolding arena_state_def using A b by auto
      then show ?thesis using e m(1) kp b(3) n(4) False by auto
    qed
  next
    case 2
    obtain m s' tp' tsz' cm' where m: "mALLOc mc k bytes s = Ok (m, s')" "book s s'" "keeps (owned (av s) lim tp cm) s s'"
      "malloc_ok lim base tp' tsz' cm' s'" "grown live brk lo tp' tsz' s'"
      "m = 0 \<and> blocks_of cm' = blocks_of cm \<and> denied mc (request2size bytes) s \<or>
       new_block (blocks_of cm) (request2size bytes) m (blocks_of cm')"
      using malloc_started[OF 2(1,3) A(2) False k] by blast
    have "arena_state fresh live brk lo lim (blocks_of cm') s'"
      unfolding arena_state_def using A m(2,4,5) 2(2) by (auto simp: book_def)
    moreover have "kept B s s'" unfolding 2(4) by (rule keeps_kept[OF 2(1) m(3)])
    moreover have "lock_depth s' = lock_depth s" using m(2) by (simp add: book_def)
    ultimately show ?thesis using m(1,6) False unfolding 2(4) by (auto simp: 2(4))
  qed
qed

end

end
