(* ===== verification/Malloc_Free.thy ===== *)
theory Malloc_Free
  imports Malloc_Request
begin

text \<open>
  \<open>free\<close>: a block in use becomes part of the top, or a free chunk that is merged with its free
  neighbours and linked into the last remainder's list or its bin.
\<close>

subsection \<open>Head fields\<close>

lemma heads_freed:
  assumes lay: "layout base tp cm" and hd: "heads s base tp tsz cm" and lay': "layout base tp cm'"
    and sub: "\<And>q. q \<noteq> P \<Longrightarrow> cm' q = cm q \<or> cm' q = None" and P: "cm' P = Some (Z, False)" "P \<in> dom cm" "pbit (head s P)"
    and N: "cm (P + Z) = Some (b, True)" and top: "top s' = tp"
    and hP: "head s' P = Z OR 1" and hN: "hsize (head s' (P + Z)) = b" "\<not> pbit (head s' (P + Z))" "prev_size s' (P + Z) = Z"
    and h: "\<And>q. q \<in> insert tp (dom cm') \<Longrightarrow> q \<noteq> P \<Longrightarrow> q \<noteq> P + Z \<Longrightarrow> head s' q = head s q"
    and f: "\<And>q. q \<in> insert tp (dom cm') \<Longrightarrow> q \<noteq> P + Z \<Longrightarrow> prev_size s' q = prev_size s q"
  shows "heads s' base tp tsz cm'"
proof -
  note D = headsD[OF hd] and L = layoutD[OF lay' P(1)]
  have Nne: "P + Z \<noteq> P" "P + Z \<noteq> tp" using L(9) layoutD(8)[OF lay N] by auto
  have cmN: "cm' (P + Z) = Some (b, True)" using L(6) Nne sub[of "P + Z"] N by auto
  have old: "cm q = Some (z, u)" if "cm' q = Some (z, u)" "q \<noteq> P" for q z u using sub[OF that(2)] that(1) by auto
  have "hsize (head s' tp) = tsz" using h[of tp] L(8) Nne D(2) by auto
  moreover have "pbit (head s' base)"
  proof (cases "base = P")
    case True
    then show ?thesis using hP by simp
  next
    case False
    have "unat base < unat (P + Z)" using L(3,4,7) by linarith
    then have "base \<noteq> P + Z" by auto
    moreover have "base \<in> insert tp (dom cm')" by (rule layout_base_in[OF lay'])
    ultimately show ?thesis using h[of base] False D(3) by simp
  qed
  moreover have "hsize (head s' q) = z \<and> (pbit (head s' (q + z)) \<longleftrightarrow> u) \<and>
      (\<not> u \<longrightarrow> prev_size s' (q + z) = z \<and> (\<exists>z'. cm' (q + z) = Some (z', True)))"
    if q: "cm' q = Some (z, u)" for q z u
  proof (cases "q = P")
    case True
    then show ?thesis using q P(1) hP hN L(2) cmN by simp
  next
    case False
    note o = old[OF q False]
    have ne: "q + z \<noteq> P + Z" using layout_pred_unique[OF lay' q P(1)] False by auto
    have nx: "q + z \<in> insert tp (dom cm')" "q + z \<in> insert tp (dom cm)"
      using layout_next_in[OF lay' q] layout_next_in[OF lay o] by auto
    have hq: "hsize (head s' q) = z"
    proof (cases "q = P + Z")
      case True
      then show ?thesis using hN(1) o N by simp
    next
      case ne2: False
      have "q \<in> insert tp (dom cm')" using q by auto
      then show ?thesis using h[of q] False ne2 D(4)[OF o] by simp
    qed
    have u: "pbit (head s' (q + z)) \<longleftrightarrow> u"
    proof (cases "q + z = P")
      case True
      then show ?thesis using hP P(3) D(5)[OF o] by simp
    next
      case False
      then show ?thesis using h[OF nx(1)] ne D(5)[OF o] by simp
    qed
    have "prev_size s' (q + z) = z \<and> (\<exists>z'. cm' (q + z) = Some (z', True))" if "\<not> u"
    proof -
      have o': "cm q = Some (z, False)" using o that by simp
      obtain z' where z': "cm (q + z) = Some (z', True)" using D(7)[OF o'] by blast
      have "q + z \<noteq> P" using u that hP by auto
      moreover have "q + z \<noteq> tp" using layoutD(8)[OF lay z'] .
      ultimately have "cm' (q + z) = cm (q + z)" using sub[of "q + z"] nx(1) by auto
      then show ?thesis using z' D(6)[OF o'] f[OF nx(1) ne] by simp
    qed
    then show ?thesis using hq u by blast
  qed
  ultimately show ?thesis unfolding heads_def using top by blast
qed

lemma heads_top_freed:
  assumes lay: "layout base tp cm" and hd: "heads s base tp tsz cm" and lay': "layout base P cm'"
    and sub: "\<And>q. cm' q = cm q \<or> cm' q = None" and P: "P \<in> dom cm" "pbit (head s P)" "aligned Z" and top: "top s' = P"
    and hP: "head s' P = Z OR 1"
    and h: "\<And>q. q \<in> insert tp (dom cm) \<Longrightarrow> q \<noteq> P \<Longrightarrow> head s' q = head s q"
    and f: "\<And>q. q \<in> insert tp (dom cm) \<Longrightarrow> prev_size s' q = prev_size s q"
  shows "heads s' base P Z cm'"
proof -
  note D = headsD[OF hd]
  have old: "cm q = Some (z, u)" if "cm' q = Some (z, u)" for q z u using sub[of q] that by auto
  have "pbit (head s' base)" using hP h[OF layout_base_in[OF lay]] D(3) by (cases "base = P") auto
  moreover have "hsize (head s' q) = z \<and> (pbit (head s' (q + z)) \<longleftrightarrow> u) \<and>
      (\<not> u \<longrightarrow> prev_size s' (q + z) = z \<and> (\<exists>z'. cm' (q + z) = Some (z', True)))"
    if q: "cm' q = Some (z, u)" for q z u
  proof -
    note o = old[OF q]
    have nx: "q + z \<in> insert P (dom cm')" "q + z \<in> insert tp (dom cm)"
      using layout_next_in[OF lay' q] layout_next_in[OF lay o] by auto
    have "q \<noteq> P" using layoutD(8)[OF lay' q] .
    moreover have "q \<in> insert tp (dom cm)" using o by auto
    ultimately have hq: "hsize (head s' q) = z" using h[of q] D(4)[OF o] by simp
    have u: "pbit (head s' (q + z)) \<longleftrightarrow> u" using hP P(2) h[OF nx(2)] D(5)[OF o] by (cases "q + z = P") auto
    have "prev_size s' (q + z) = z \<and> (\<exists>z'. cm' (q + z) = Some (z', True))" if "\<not> u"
    proof -
      have o': "cm q = Some (z, False)" using o that by simp
      obtain z' where z': "cm (q + z) = Some (z', True)" using D(7)[OF o'] by blast
      have "q + z \<noteq> P" using u that hP by auto
      then have "cm' (q + z) = cm (q + z)" using sub[of "q + z"] nx(1) by auto
      then show ?thesis using z' D(6)[OF o'] f[OF nx(2)] by simp
    qed
    then show ?thesis using hq u by blast
  qed
  ultimately show ?thesis unfolding heads_def using top hP P(3) by simp
qed

subsection \<open>Links\<close>

lemma links_lr_resize:
  assumes "links s cm" and "cm x = Some (z, False)" and "fd s x = last_remainder s" and S: "sep (av s) H" "dom cm \<subseteq> H" and "sizes_ok cm"
  shows "links s (cm(x \<mapsto> (z', False)))"
proof -
  obtain home where L: "links_at s cm home" using assms(1) unfolding links_def by blast
  have f: "free_set (cm(x \<mapsto> (z', False))) = free_set cm" using assms(2) unfolding free_set_def by auto
  have xF: "x \<in> free_set cm" using assms(2) by (rule free_setI)
  have r: "ring (fd s) (bk s) home (free_set cm \<union> bins (av s))" and h: "\<forall>i. 1 \<le> i \<and> i < 128 \<longrightarrow> home (bin_at s i) = i"
    using L unfolding links_at_def by blast+
  have "home (last_remainder s) = 1" using h unfolding last_remainder_def by simp
  moreover have "home (fd s x) = home x" using ringD(5)[OF r, of x] xF by blast
  ultimately have "home x = 1" using assms(3) by simp
  then have "links_at s (cm(x \<mapsto> (z', False))) home"
    using L assms(3) unfolding links_at_def f by auto
  then show ?thesis unfolding links_def by blast
qed

text \<open>The chunk \<open>P\<close> that is being freed is in the last remainder's list already, or not linked yet.\<close>

definition linked :: "'h mstate \<Rightarrow> chunks \<Rightarrow> u64 \<Rightarrow> bool \<Rightarrow> bool" where
  "linked s cm P islr \<longleftrightarrow> links s cm \<and>
     (if islr then (\<exists>z. cm P = Some (z, False)) \<and> fd s P = last_remainder s else P \<notin> free_set cm)"

definition relinks :: "u64 set \<Rightarrow> u64 set \<Rightarrow> 'h mstate \<Rightarrow> 'h mstate \<Rightarrow> bool" where
  "relinks H X s s' \<longleftrightarrow> top s' = top s \<and> statics s s' \<and> binblocks s' = binblocks s \<and>
     (\<forall>q \<in> H. head s' q = head s q \<and> prev_size s' q = prev_size s q) \<and> keeps X s s'"

lemma relinksD: "relinks H X s s' \<Longrightarrow> q \<in> H \<Longrightarrow> head s' q = head s q" "relinks H X s s' \<Longrightarrow> q \<in> H \<Longrightarrow> prev_size s' q = prev_size s q"
  unfolding relinks_def by blast+

lemma relinks_refl [simp]: "relinks H X s s" by (simp add: relinks_def)

lemma unlink_relinks:
  assumes S: "sep (av s) H" "dom cm \<subseteq> H" and L: "links s cm" and x: "x \<in> free_set cm" and X: "linkset (av s) cm \<subseteq> X"
  shows "relinks H X s (unlink x s)" "links (unlink x s) (cm(x := None))"
    "q \<in> nodes (av s) H \<Longrightarrow> q \<noteq> bk s x \<Longrightarrow> fd (unlink x s) q = fd s q"
proof -
  have nod: "q \<in> nodes (av s) H" if "q \<in> free_set cm \<union> bins (av s)" for q by (rule nodes_of[OF S(2) that])
  have xN: "x \<in> free_set cm \<union> bins (av s)" using x by blast
  note u = unlink_effect[OF S(1) nod[OF links_nodes(1)[OF L xN]] nod[OF links_nodes(2)[OF L xN]]]
  show "relinks H X s (unlink x s)" unfolding relinks_def using u(3-7) keeps_mono[OF unlink_keeps[OF L x] X] by blast
  obtain home where "links_at s cm home" using L unfolding links_def by blast
  then show "links (unlink x s) (cm(x := None))" using links_at_unlink[OF S _ x] unfolding links_def by blast
  show "q \<in> nodes (av s) H \<Longrightarrow> q \<noteq> bk s x \<Longrightarrow> fd (unlink x s) q = fd s q" using u(1) by simp
qed

lemma backward_ok:
  assumes S: "sep (av s) H" "dom cm \<subseteq> H" and L: "links s cm" and p: "p \<notin> free_set cm" and X: "linkset (av s) cm \<subseteq> X"
    and pv: "hdr AND PREV_INUSE = 0 \<Longrightarrow> cm (p - prev_size s p) = Some (prev_size s p, False)"
  shows "\<exists>s' cm' islr. free_backward p hdr sz s =
      (if hdr AND PREV_INUSE = 0 then p - prev_size s p else p,
       if hdr AND PREV_INUSE = 0 then sz + prev_size s p else sz, islr, s') \<and>
    linked s' cm' (if hdr AND PREV_INUSE = 0 then p - prev_size s p else p) islr \<and> relinks H X s s' \<and>
    cm' = (if hdr AND PREV_INUSE = 0 \<and> \<not> islr then cm(p - prev_size s p := None) else cm)"
proof (cases "hdr AND PREV_INUSE = 0")
  case False
  then show ?thesis using L p by (intro exI[of _ s] exI[of _ cm] exI[of _ False]) (simp add: free_backward_def linked_def)
next
  case True
  let ?v = "p - prev_size s p"
  have v: "?v \<in> free_set cm" using pv[OF True] by (rule free_setI)
  show ?thesis
  proof (cases "fd s ?v = last_remainder s")
    case lr: True
    then have "free_backward p hdr sz s = (?v, sz + prev_size s p, True, s)"
      using True by (simp add: free_backward_def Let_def chunk_at_offset_def)
    then show ?thesis using True lr L pv[OF True] by (auto simp: linked_def)
  next
    case False
    note u = unlink_relinks[OF S L v X]
    have "free_backward p hdr sz s = (?v, sz + prev_size s p, False, unlink ?v s)"
      using True False by (simp add: free_backward_def Let_def chunk_at_offset_def)
    moreover have "linked (unlink ?v s) (cm(?v := None)) ?v False" using u(2) by (simp add: linked_def free_set_def)
    ultimately show ?thesis using True u(1) by auto
  qed
qed

lemma relinks_av: "relinks H X s s' \<Longrightarrow> av s' = av s" unfolding relinks_def using statics_av by blast

lemma forward_ok:
  assumes S: "sep (av s) H" "dom cm \<subseteq> H" "sizes_ok cm" and L: "linked s cm P islr" and P: "P \<in> H" "P \<noteq> nxt"
    and X: "linkset (av s) cm \<union> {x. in_av (av s) x} \<union> {P + 16, P + 24} \<subseteq> X"
    and nx: "\<not> inuse_bit_at_offset s nxt b \<Longrightarrow> cm nxt = Some (b, False)"
  shows "\<exists>s' cm' islr'. free_forward nxt b P sz islr s =
      (if inuse_bit_at_offset s nxt b then sz else sz + b, islr', s') \<and>
    linked s' cm' P islr' \<and> relinks H X s s' \<and> dom cm' \<subseteq> H \<and> sizes_ok cm' \<and>
    (\<forall>q z. q \<noteq> P \<longrightarrow> (cm' q = Some (z, False) \<longleftrightarrow> (inuse_bit_at_offset s nxt b \<or> q \<noteq> nxt) \<and> cm q = Some (z, False)))"
proof (cases "inuse_bit_at_offset s nxt b")
  case True
  then show ?thesis using L S(2,3) by (intro exI[of _ s] exI[of _ cm] exI[of _ islr]) (simp add: free_forward_def)
next
  case False
  note n = nx[OF False]
  have nF: "nxt \<in> free_set cm" using n by (rule free_setI)
  have Ls: "links s cm" using L unfolding linked_def by blast
  show ?thesis
  proof (cases "\<not> islr \<and> fd s nxt = last_remainder s")
    case True
    let ?s = "link_last_remainder P s" and ?cm = "cm(nxt := None, P \<mapsto> (32, False))"
    have PF: "P \<notin> free_set cm" using L True unfolding linked_def by simp
    note e = link_last_remainder_effect[OF S(1) P(1)]
    have "links ?s ?cm" using links_lr_replace[OF S(1,2) Ls S(3) nF _ P(1) PF] True by blast
    moreover have "last_remainder ?s = last_remainder s" using statics_av[OF e(6)] by (simp add: last_remainder_def bin_at_eq)
    moreover have Pn: "P \<in> nodes (av s) H" using P(1) unfolding nodes_def by blast
    moreover have "P \<noteq> last_remainder s" using free_not_bin[OF S(1) P(1)] lr_bin by metis
    ultimately have "linked ?s ?cm P True" unfolding linked_def using e(1)[OF Pn] by simp
    moreover have "relinks H X s ?s"
      unfolding relinks_def using e(3-7) keeps_mono[OF lr_keeps(1), of s P X] X by auto
    moreover have "dom ?cm \<subseteq> H" "sizes_ok ?cm" using S(2,3) P(1) unfolding sizes_ok_def by auto
    moreover have "free_forward nxt b P sz islr s = (sz + b, True, ?s)"
      using False True by (simp add: free_forward_def)
    ultimately show ?thesis using False by (intro exI[of _ ?s] exI[of _ ?cm] exI[of _ True]) simp
  next
    case no_lr: False
    let ?s = "unlink nxt s" and ?cm = "cm(nxt := None)"
    have X': "linkset (av s) cm \<subseteq> X" using X by blast
    note u = unlink_relinks[OF S(1,2) Ls nF X']
    have "linked ?s ?cm P islr"
    proof (cases islr)
      case True
      then have l: "\<exists>z. cm P = Some (z, False)" "fd s P = last_remainder s" using L unfolding linked_def by simp_all
      have "P \<noteq> bk s nxt"
      proof
        assume "P = bk s nxt"
        then have "nxt = last_remainder s" using links_nodes(4)[OF Ls, of nxt] nF l(2) by simp
        then show False using free_not_bin[OF S(1)] S(2) nF free_set_dom lr_bin by (metis subsetD)
      qed
      then have "fd ?s P = last_remainder s" using u(3)[of P] P(1) l(2) unfolding nodes_def by simp
      moreover have "last_remainder ?s = last_remainder s" using relinks_av[OF u(1)] by (simp add: last_remainder_def bin_at_eq)
      ultimately show ?thesis using True u(2) l(1) P(2) unfolding linked_def by simp
    next
      case False
      then show ?thesis using L u(2) unfolding linked_def free_set_def by (auto split: if_splits)
    qed
    moreover have "dom ?cm \<subseteq> H" "sizes_ok ?cm" using S(2,3) unfolding sizes_ok_def by auto
    moreover have "free_forward nxt b P sz islr s = (sz + b, islr, ?s)"
      using False no_lr by (simp add: free_forward_def)
    ultimately show ?thesis using False u(1) by (intro exI[of _ ?s] exI[of _ ?cm] exI[of _ islr]) simp
  qed
qed

subsection \<open>The last step\<close>

text \<open>A chunk that is not in a list yet goes to its bin, with its head and its foot written.\<close>

lemma finish_ok:
  assumes S: "sep (av s) H" "dom cm \<subseteq> H" "sizes_ok cm" "finite H" and L: "linked s cm P islr" and P: "P \<in> H" "P + Z \<in> H" "P + Z \<noteq> P"
    and Z: "32 \<le> unat Z" and k: "card H + 128 \<le> k" and bb: "binblocks s < 2 ^ 32"
    and X: "linkset (av s) (cm(P \<mapsto> (Z, False))) \<union> {x. in_av (av s) x} \<union> {P + 8, P + Z} \<subseteq> X"
  shows "\<exists>s'. (if islr then Ok (set_foot P Z (set_head P (Z OR 1) s)) else frontlink k P Z (set_foot P Z (set_head P (Z OR 1) s))) = Ok s' \<and>
    links s' (cm(P \<mapsto> (Z, False))) \<and> top s' = top s \<and> statics s s' \<and> binblocks s' < 2 ^ 32 \<and> keeps X s s' \<and>
    (\<forall>q \<in> H. head s' q = (if q = P then Z OR 1 else head s q) \<and> prev_size s' q = (if q = P + Z then Z else prev_size s q))"
proof -
  let ?s1 = "set_head P (Z OR 1) s"
  let ?s2 = "set_foot P Z ?s1" and ?cm = "cm(P \<mapsto> (Z, False))"
  have S1: "sep (av ?s1) H" using S(1) by simp
  note o = other_field[OF S(1)] and o1 = other_field[OF S1]
  have fdbk: "fd ?s2 q = fd s q \<and> bk ?s2 q = bk s q" if "q \<in> nodes (av s) H" for q
    using that o(11,12)[OF P(1)] o1(16,17)[OF P(2)] by simp
  have nod: "q \<in> nodes (av s) H" if "q \<in> free_set cm \<union> bins (av s)" for q by (rule nodes_of[OF S(2) that])
  have h2: "head ?s2 q = (if q = P then Z OR 1 else head s q) \<and> prev_size ?s2 q = (if q = P + Z then Z else prev_size s q)" if "q \<in> H" for q
    using that o1(18)[OF P(2)] o(13)[OF P(1)] by simp
  have t2: "top ?s2 = top s" "binblocks ?s2 = binblocks s" "statics s ?s2"
    using o(14,15)[OF P(1)] o1(19,20)[OF P(2)] by simp_all
  have Ls: "links s cm" using L unfolding linked_def by blast
  have L2: "links ?s2 cm" by (rule links_cong[OF Ls]) (use fdbk nod in auto)
  have K2: "keeps X s ?s2" using X unfolding set_foot_def set_head_def by (intro keeps_set_long keeps_refl) auto
  show ?thesis
  proof (cases islr)
    case True
    then obtain z where z: "cm P = Some (z, False)" "fd s P = last_remainder s" using L unfolding linked_def by auto
    have "links s ?cm" by (rule links_lr_resize[OF Ls z S(1-3)])
    then have "links ?s2 ?cm"
    proof (rule links_cong)
      fix q assume "q \<in> free_set ?cm \<union> bins (av s)"
      moreover have "free_set ?cm = free_set cm" using z(1) unfolding free_set_def by auto
      ultimately show "fd ?s2 q = fd s q" "bk ?s2 q = bk s q" using fdbk nod by auto
    qed simp_all
    then show ?thesis using True t2 h2 K2 bb by simp
  next
    case False
    then have PF: "P \<notin> free_set cm" using L unfolding linked_def by simp
    have S2: "sep (av ?s2) H" using S(1) by simp
    have fin: "finite (dom cm)" using S(2,4) finite_subset by blast
    have "free_set cm \<subseteq> H" using S(2) free_set_dom by blast
    then have "card (free_set cm) \<le> card H" by (rule card_mono[OF S(4)])
    then have kk: "card (free_set cm) + 128 \<le> k" using k by linarith
    obtain s' where s': "frontlink k P Z ?s2 = Ok s'" "links s' ?cm" "top s' = top ?s2" "statics ?s2 s'"
        "\<forall>q \<in> H. head s' q = head ?s2 q \<and> prev_size s' q = prev_size ?s2 q" "binblocks ?s2 < 2 ^ 32 \<longrightarrow> binblocks s' < 2 ^ 32"
        "keeps ({x. in_av (av ?s2) x} \<union> linkset (av ?s2) ?cm) ?s2 s'"
      using frontlink_ok[OF S2 S(2) L2 P(1) PF Z fin kk] by blast
    have "keeps X ?s2 s'" by (rule keeps_mono[OF s'(7)]) (use X in auto)
    then have "keeps X s s'" using keeps_trans[OF K2] by blast
    moreover have "statics s s'" by (rule statics_trans[OF t2(3) s'(4)])
    moreover have "\<forall>q \<in> H. head s' q = (if q = P then Z OR 1 else head s q) \<and> prev_size s' q = (if q = P + Z then Z else prev_size s q)"
    proof
      fix q assume q: "q \<in> H"
      show "head s' q = (if q = P then Z OR 1 else head s q) \<and> prev_size s' q = (if q = P + Z then Z else prev_size s q)"
        using bspec[OF s'(5) q] h2[OF q] by metis
    qed
    moreover have "top s' = top s" "binblocks s' < 2 ^ 32" using s'(3,6) t2(1,2) bb by simp_all
    ultimately show ?thesis using False s'(1,2) by simp
  qed
qed

subsection \<open>The chunk and its neighbours\<close>

lemma chunk_before:
  assumes lay: "layout base tp cm" and hd: "heads s base tp tsz cm" and p: "p \<in> dom cm" and b: "\<not> pbit (head s p)"
  shows "cm (p - prev_size s p) = Some (prev_size s p, False)" "p - prev_size s p \<noteq> p" "pbit (head s (p - prev_size s p))"
proof -
  have "p \<noteq> base" using headsD(3)[OF hd] b by auto
  then obtain q z u where q: "cm q = Some (z, u)" "q + z = p" using layout_pred[OF lay] p by blast
  have "\<not> u" using headsD(5)[OF hd q(1)] q(2) b by simp
  then have q': "cm q = Some (z, False)" using q(1) by simp
  have z: "prev_size s p = z" using headsD(6)[OF hd q'] q(2) by simp
  have e: "p - z = q" using q(2) by auto
  show "cm (p - prev_size s p) = Some (prev_size s p, False)" unfolding z e by (rule q')
  show "p - prev_size s p \<noteq> p" unfolding z e using layoutD(9)[OF lay q(1)] q(2) by auto
  show "pbit (head s (p - prev_size s p))" unfolding z e using free_prev_inuse[OF lay hd] q' by blast
qed

text \<open>The writes of \<open>free\<close> are to memory the allocator owns once \<open>p\<close> is free.\<close>

lemma owned_freed:
  assumes "cm p = Some (sz, u)"
  shows "owned a lim tp cm \<subseteq> owned a lim tp (cm(p \<mapsto> (sz, False)))"
  unfolding owned_def using assms by (fastforce split: if_splits)

definition freed_layout :: "chunks \<Rightarrow> u64 \<Rightarrow> u64 \<Rightarrow> u64 \<Rightarrow> bool \<Rightarrow> u64 \<Rightarrow> chunks" where
  "freed_layout cm P Z p w nxt = (\<lambda>q. if q = P then Some (Z, False) else if q = p \<or> \<not> w \<and> q = nxt then None else cm q)"

lemma layout_freed:
  assumes lay: "layout base tp cm" and p: "cm p = Some (sz, True)" and n: "cm (p + sz) = Some (b, w)"
    and z1: "z1 = (if w then sz else sz + b)"
    and pv: "P = p \<and> Z = z1 \<or> P \<noteq> p \<and> cm P = Some (a, False) \<and> P + a = p \<and> Z = z1 + a"
  shows "layout base tp (freed_layout cm P Z p w (p + sz))" "P + Z = (if w then p + sz else p + sz + b)" "32 \<le> unat Z" "P \<noteq> p + sz"
    "P + Z \<noteq> P"
proof -
  let ?f = "freed_layout cm P Z p w (p + sz)"
  note Lp = layoutD[OF lay p]
  let ?A = "cm(p \<mapsto> (sz, False))"
  have A: "layout base tp ?A" by (rule layout_flag[OF lay p])
  have ne: "p + sz \<noteq> p" by (rule Lp(9))
  let ?B = "if w then ?A else ?A(p + sz := None, p \<mapsto> (sz + b, False))"
  have B: "layout base tp ?B"
  proof (cases w)
    case True
    then show ?thesis using A by simp
  next
    case False
    then have "?A (p + sz) = Some (b, False)" using n ne by simp
    then show ?thesis using layout_merge[OF A, of p sz False b False False] False by simp
  qed
  have Bp: "?B p = Some (z1, False)" using ne z1 by simp
  have PZ: "layout base tp ?f \<and> P + Z = p + z1"
  proof (cases "P = p")
    case True
    then have "Z = z1" using pv by blast
    moreover have "?f = ?B" using True z1 calculation ne by (auto simp: freed_layout_def fun_eq_iff)
    ultimately show ?thesis using B True by simp
  next
    case False
    then have v: "cm P = Some (a, False)" "P + a = p" "Z = z1 + a" using pv by blast+
    have "unat P < unat p" using layoutD(3,7)[OF lay v(1)] v(2) by auto
    then have Pn: "P \<noteq> p + sz" using Lp(7) by auto
    have BP: "?B P = Some (a, False)" using v(1) False Pn by simp
    have "?B (P + a) = Some (z1, False)" using Bp v(2) by simp
    then have "layout base tp (?B(P + a := None, P \<mapsto> (a + z1, False)))" using layout_merge[OF B BP] by blast
    moreover have "?f = ?B(P + a := None, P \<mapsto> (a + z1, False))" using v False Pn ne by (auto simp: freed_layout_def fun_eq_iff add.commute)
    moreover have "P + Z = p + z1" using v(2,3) by (simp add: ac_simps)
    ultimately show ?thesis by simp
  qed
  then show L: "layout base tp ?f" by blast
  show "P + Z = (if w then p + sz else p + sz + b)" using PZ z1 by (simp add: ac_simps)
  have fP: "?f P = Some (Z, False)" by (simp add: freed_layout_def)
  show "32 \<le> unat Z" "P + Z \<noteq> P" using layoutD(3,9)[OF L fP] by blast+
  show "P \<noteq> p + sz"
  proof (cases "P = p")
    case False
    then have v: "cm P = Some (a, False)" "P + a = p" using pv by blast+
    have "unat P < unat p" using layoutD(3,7)[OF lay v(1)] v(2) by auto
    then show ?thesis using Lp(7) by auto
  qed (use ne in simp)
qed

lemma owned_at:
  assumes "cm q = Some (z, False)" and "unat x = unat q + j" and "8 \<le> j" and "j \<le> unat z"
  shows "x \<in> owned a lim tp cm"
proof -
  have "cm q = Some (z, False) \<and> unat q + 8 \<le> unat x \<and> unat x \<le> unat q + unat z" using assms by simp
  then show ?thesis unfolding owned_def by blast
qed

definition free_middle :: "nat \<Rightarrow> u64 \<Rightarrow> 'h mstate \<Rightarrow> 'h mstate res" where
  "free_middle k p s =
     (let hdr = head s p; sz = hdr AND NOT PREV_INUSE; nxt = chunk_at_offset p sz; nextsz = chunksize s nxt;
          s = set_head nxt nextsz s; (p, sz, islr, s) = free_backward p hdr sz s;
          (sz, islr, s) = free_forward nxt nextsz p sz islr s; s = set_foot p sz (set_head p (sz OR PREV_INUSE) s)
      in if islr then Ok s else frontlink k p sz s)"

lemma free_middle_ok:
  assumes ok: "malloc_ok lim base tp tsz cm s" and p: "cm p = Some (sz, True)" and nt: "p + sz \<noteq> tp" and k: "lim div 32 + 130 \<le> k"
  shows "\<exists>s' cm'. free_middle k p s = Ok s' \<and> malloc_ok lim base tp tsz cm' s' \<and> statics s s' \<and>
    keeps (owned (av s) lim tp (cm(p \<mapsto> (sz, False)))) s s' \<and> blocks_of cm' = (blocks_of cm)(p := None)"
proof -
  note D = malloc_okD[OF ok] and Lp = layoutD[OF malloc_okD(1)[OF ok] p] and hd = headsD[OF malloc_okD(6)[OF ok]]
  let ?H = "insert tp (dom cm)" and ?A = "cm(p \<mapsto> (sz, False))" and ?n = "p + sz" and ?hdr = "head s p"
  let ?X = "owned (av s) lim tp ?A"
  have pH: "p \<in> ?H" and nH: "?n \<in> ?H" using p layout_next_in[OF D(1) p] by auto
  obtain b w where n: "cm ?n = Some (b, w)" using nH nt by auto
  note Ln = layoutD[OF D(1) n]
  have sz: "?hdr AND NOT PREV_INUSE = sz" using hd(4)[OF p] by (simp add: PREV_INUSE_def hsize_def)
  have cs: "chunksize s ?n = b" by (rule heads_chunksize[OF D(6,1) n])
  have cH: "card ?H + 128 \<le> k"
    using chunks_card[OF D(1), of lim] D(5) card_insert_le_m1[of "card (dom cm) + 1" "dom cm" tp] k
    by (simp add: card_insert_if D(11))
  have pF: "p \<notin> free_set cm" using p by (simp add: free_set_def)
  have lo: "linkset (av s) cm \<subseteq> owned (av s) lim tp cm" by (rule linkset_owned[OF ok])
  have oA: "owned (av s) lim tp cm \<subseteq> ?X" by (rule owned_freed[of cm, OF p])
  \<comment> \<open>the in-use bit of the chunk behind is cleared\<close>
  let ?s1 = "set_head ?n b s"
  have S1: "sep (av ?s1) ?H" using D(9) by simp
  note o = other_field[OF D(9)]
  have nod: "q \<in> nodes (av s) ?H" if "q \<in> free_set cm \<union> bins (av s)" for q by (rule nodes_of[OF _ that]) auto
  have L1: "links ?s1 cm" by (rule links_cong[OF D(7)]) (use o(11,12)[OF nH] nod in auto)
  have ps: "prev_size ?s1 q = prev_size s q" if "q \<in> ?H" for q using o(13)[OF nH that] by simp
  \<comment> \<open>backwards\<close>
  let ?prev = "?hdr AND PREV_INUSE = 0"
  have bk0: "?prev \<longleftrightarrow> \<not> pbit ?hdr" using and_1_zero by (simp add: PREV_INUSE_def)
  define P where "P = (if ?prev then p - prev_size s p else p)"
  define z0 where "z0 = (if ?prev then sz + prev_size s p else sz)"
  have pd: "p \<in> dom cm" using p by blast
  have bv: "cm P = Some (prev_size s p, False) \<and> P \<noteq> p \<and> pbit (head s P) \<and> P + prev_size s p = p" if ?prev
    using chunk_before[OF D(1,6) pd] that bk0 unfolding P_def by simp
  have PH: "P \<in> ?H" "P \<in> dom cm" "pbit (head s P)" using bv pH p bk0 unfolding P_def by (cases ?prev; force)+
  have "cm (p - prev_size ?s1 p) = Some (prev_size ?s1 p, False)" if ?prev using bv[OF that] that ps[OF pH] unfolding P_def by simp
  moreover have "linkset (av ?s1) cm \<subseteq> ?X" using lo oA by simp
  ultimately obtain s2 cm1 lr1 where b1: "free_backward p ?hdr sz ?s1 = (P, z0, lr1, s2)" "linked s2 cm1 P lr1" "relinks ?H ?X ?s1 s2"
      "cm1 = (if ?prev \<and> \<not> lr1 then cm(p - prev_size s p := None) else cm)"
    using backward_ok[OF S1 _ L1 pF, of ?X ?hdr sz] unfolding P_def z0_def ps[OF pH] by auto
  \<comment> \<open>forwards\<close>
  have av2: "av s2 = av s" using relinks_av[OF b1(3)] by simp
  have S2: "sep (av s2) ?H" using D(9) av2 by simp
  have r2: "head s2 q = head ?s1 q" "prev_size s2 q = prev_size s q" if "q \<in> ?H" for q
    using relinksD[OF b1(3) that] ps[OF that] by simp_all
  define z1 where "z1 = (if w then sz else sz + b)"
  define Z where "Z = (if w then z0 else z0 + b)"
  have "P = p \<and> Z = z1 \<or> P \<noteq> p \<and> cm P = Some (prev_size s p, False) \<and> P + prev_size s p = p \<and> Z = z1 + prev_size s p"
    using bv unfolding P_def z0_def z1_def Z_def by (cases ?prev; cases w) (auto simp: ac_simps)
  note F = layout_freed[OF D(1) p n z1_def this]
  let ?cm = "freed_layout cm P Z p w ?n"
  have nb: "?n + b \<in> ?H" "?n + b \<noteq> ?n" using layout_next_in[OF D(1) n] Ln(9) by auto
  have iu: "inuse_bit_at_offset s2 ?n b \<longleftrightarrow> w"
    using r2(1)[OF nb(1)] nb(2) hd(5)[OF n] and_1_zero by (simp add: inuse_bit_at_offset_def PREV_INUSE_def)
  have sub1: "cm1 q = cm q" if "q \<noteq> P" for q using that b1(4) unfolding P_def by (auto split: if_splits)
  have dom1: "dom cm1 \<subseteq> ?H" "sizes_ok cm1" "free_set cm1 \<subseteq> free_set cm"
    using b1(4) D(10) unfolding sizes_ok_def free_set_def by (auto split: if_splits)
  have PX: "P + 8 \<in> ?X" "P + 16 \<in> ?X" "P + 24 \<in> ?X"
  proof -
    obtain z where z: "?A P = Some (z, False)" "32 \<le> unat z"
    proof (cases ?prev)
      case True
      then show ?thesis using that bv layoutD(3)[OF D(1), of P] by auto
    next
      case False
      then show ?thesis using that Lp(3) unfolding P_def by simp
    qed
    have "unat (P + 8) = unat P + 8" "unat (P + 16) = unat P + 16" "unat (P + 24) = unat P + 24"
      using unat_plus[OF ok PH(1), of 8] unat_plus[OF ok PH(1), of 16] unat_plus[OF ok PH(1), of 24] by simp_all
    then show "P + 8 \<in> ?X" "P + 16 \<in> ?X" "P + 24 \<in> ?X"
      using owned_at[of ?A P z "P + 8" 8] owned_at[of ?A P z "P + 16" 16] owned_at[of ?A P z "P + 24" 24] z by auto
  qed
  have avX: "{x. in_av (av s) x} \<subseteq> ?X" unfolding owned_def by blast
  have lsX: "linkset (av s) cm3 \<subseteq> ?X" if "free_set cm3 \<subseteq> insert P (free_set cm)" for cm3
  proof
    fix x assume "x \<in> linkset (av s) cm3"
    then obtain q where "q \<in> free_set cm3 \<union> bins (av s)" "x = q + 16 \<or> x = q + 24" unfolding linkset_def by blast
    then have "x = P + 16 \<or> x = P + 24 \<or> x \<in> linkset (av s) cm" using that unfolding linkset_def by blast
    then show "x \<in> ?X" using PX lo oA by blast
  qed
  have "cm1 ?n = Some (b, False)" if "\<not> inuse_bit_at_offset s2 ?n b" using that iu n sub1[of ?n] F(4) by auto
  moreover have "linkset (av s2) cm1 \<union> {x. in_av (av s2) x} \<union> {P + 16, P + 24} \<subseteq> ?X"
    using lsX[of cm1] dom1(3) avX PX unfolding av2 by blast
  ultimately obtain s3 cm2 lr2 where b2: "free_forward ?n b P z0 lr1 s2 = (Z, lr2, s3)" "linked s3 cm2 P lr2" "relinks ?H ?X s2 s3"
      "dom cm2 \<subseteq> ?H" "sizes_ok cm2" "\<And>q z. q \<noteq> P \<Longrightarrow> cm2 q = Some (z, False) \<longleftrightarrow> (w \<or> q \<noteq> ?n) \<and> cm1 q = Some (z, False)"
    using forward_ok[OF S2 dom1(1,2) b1(2) PH(1) F(4), of ?X b z0] unfolding iu Z_def by blast
  have av3: "av s3 = av s" using relinks_av[OF b2(3)] av2 by simp
  \<comment> \<open>the head, the foot and the list\<close>
  let ?N = "P + Z"
  have NH: "?N \<in> ?H" unfolding F(2) using nH nb(1) by simp
  have NX: "?N \<in> ?X"
  proof (cases w)
    case True
    have "?A p = Some (sz, False)" by simp
    then show ?thesis unfolding F(2) using True owned_at[of ?A p sz ?n "unat sz"] Lp(3,7) by simp
  next
    case False
    have "?A ?n = Some (b, False)" using n False Lp(9) by simp
    then show ?thesis unfolding F(2) using False owned_at[of ?A ?n b "?n + b" "unat b"] Ln(3,7) by simp
  qed
  have fs2: "free_set (cm2(P \<mapsto> (Z, False))) \<subseteq> insert P (free_set cm)"
    using b2(6) sub1 unfolding free_set_def by auto
  have S3: "sep (av s3) ?H" using D(9) av3 by simp
  have bb: "binblocks s3 < 2 ^ 32"
    using b1(3) b2(3) D(12) o(15)[OF nH] unfolding relinks_def by simp
  have "linkset (av s3) (cm2(P \<mapsto> (Z, False))) \<union> {x. in_av (av s3) x} \<union> {P + 8, ?N} \<subseteq> ?X"
    using lsX[OF fs2] avX PX NX unfolding av3 by blast
  then obtain s' where s': "(if lr2 then Ok (set_foot P Z (set_head P (Z OR 1) s3)) else frontlink k P Z (set_foot P Z (set_head P (Z OR 1) s3))) = Ok s'"
      "links s' (cm2(P \<mapsto> (Z, False)))" "top s' = top s3" "statics s3 s'" "binblocks s' < 2 ^ 32" "keeps ?X s3 s'"
      "\<forall>q \<in> ?H. head s' q = (if q = P then Z OR 1 else head s3 q) \<and> prev_size s' q = (if q = ?N then Z else prev_size s3 q)"
    using finish_ok[OF S3 b2(4,5) _ b2(2) PH(1) NH F(5,3) cH bb] D(11) by blast
  have code: "free_middle k p s = Ok s'"
    unfolding free_middle_def Let_def chunk_at_offset_def sz cs b1(1) split_conv b2(1) by (simp only: PREV_INUSE_def s'(1))
  have c: "statics ?s1 s2" "statics s2 s3" "keeps ?X ?s1 s2" "keeps ?X s2 s3" "top s3 = top ?s1"
    using b1(3) b2(3) unfolding relinks_def by (blast, blast, blast, blast, metis)
  have "statics s ?s1" by simp
  then have st: "statics s s'" using statics_trans[OF statics_trans[OF statics_trans[OF _ c(1)] c(2)] s'(4)] by blast
  have "keeps ?X s ?s1" unfolding set_head_def using owned_head[OF ok nH] oA by (intro keeps_set_long keeps_refl) blast
  then have kp: "keeps ?X s s'" using keeps_trans[OF keeps_trans[OF keeps_trans[OF _ c(3)] c(4)] s'(6)] by blast
  have hs: "head s' q = (if q = P then Z OR 1 else if q = ?n then b else head s q)" "prev_size s' q = (if q = ?N then Z else prev_size s q)"
    if "q \<in> ?H" for q
    using bspec[OF s'(7) that] r2[OF that] relinksD[OF b2(3) that] by simp_all
  have lnk: "links s' ?cm"
  proof (rule links_cong[OF s'(2)])
    show "(?cm q = Some (z, False)) = ((cm2(P \<mapsto> (Z, False))) q = Some (z, False))" for q z
      using b2(6)[of q z] sub1[of q] p by (auto simp: freed_layout_def)
  qed simp_all
  obtain b2' where b2': "cm ?N = Some (b2', True)"
  proof (cases w)
    case False
    then have "cm ?n = Some (b, False)" using n by simp
    then show ?thesis using hd(7)[of ?n b] that False unfolding F(2) by auto
  qed (use n F(2) that in simp)
  have Nne: "?N \<noteq> P" by (rule F(5))
  have hN: "hsize (head s' ?N) = b2' \<and> \<not> pbit (head s' ?N)"
  proof (cases w)
    case True
    then have "?N = ?n" "b2' = b" using F(2) b2' n by auto
    then show ?thesis using hs(1)[OF NH] Nne Ln(2) by simp
  next
    case False
    then have e: "?N = ?n + b" using F(2) by simp
    then show ?thesis using hs(1)[OF NH] Nne nb(2) hd(4)[OF b2'] hd(5)[OF n] False by simp
  qed
  have "heads s' base tp tsz ?cm"
  proof (rule heads_freed[OF D(1,6) F(1) _ _ PH(2,3) b2'])
    show "?cm q = cm q \<or> ?cm q = None" if "q \<noteq> P" for q using that by (simp add: freed_layout_def)
    show "?cm P = Some (Z, False)" by (simp add: freed_layout_def)
    show "top s' = tp" using s'(3) c(5) hd(1) o(14)[OF nH] by simp
    show "head s' P = Z OR 1" using hs(1)[OF PH(1)] by simp
    show "hsize (head s' ?N) = b2'" "\<not> pbit (head s' ?N)" using hN by blast+
    show "prev_size s' ?N = Z" using hs(2)[OF NH] by simp
    show "head s' q = head s q" if "q \<in> insert tp (dom ?cm)" "q \<noteq> P" "q \<noteq> ?N" for q
    proof -
      have qn: "q \<noteq> ?n" using that F(2) nt by (auto simp: freed_layout_def split: if_splits)
      have "q \<in> ?H" using that(1,2) by (auto simp: freed_layout_def split: if_splits)
      then show ?thesis using hs(1) that(2) qn by simp
    qed
    show "prev_size s' q = prev_size s q" if "q \<in> insert tp (dom ?cm)" "q \<noteq> ?N" for q
    proof -
      have "q \<in> ?H" using that(1) PH(1) by (auto simp: freed_layout_def split: if_splits)
      then show ?thesis using hs(2) that(2) by simp
    qed
  qed
  then have "malloc_ok lim base tp tsz ?cm s'"
    unfolding malloc_ok_def using F(1) D(2-5) lnk s'(5) statics_av[OF st] by simp
  moreover have "blocks_of ?cm = (blocks_of cm)(p := None)"
    using n bv by (auto simp: blocks_of_def freed_layout_def fun_eq_iff P_def)
  ultimately show ?thesis using code st kp by blast
qed

subsection \<open>Into the top\<close>

definition free_top :: "u64 \<Rightarrow> u64 \<Rightarrow> u64 \<Rightarrow> u64 \<Rightarrow> 'h mstate \<Rightarrow> u64 \<times> 'h mstate" where
  "free_top p hdr sz nextsz s =
     (let (p, sz, s) = (if hdr AND PREV_INUSE = 0
                        then (p - prev_size s p, sz + nextsz + prev_size s p, unlink (p - prev_size s p) s) else (p, sz + nextsz, s))
      in (sz, set_top p (set_head p (sz OR PREV_INUSE) s)))"

lemma free_into_top_eq:
  "free_into_top mc p hdr sz nextsz s =
     (let (sz, s) = free_top p hdr sz nextsz s
      in MALLOC_UNLOCK (if trim_threshold s \<le> sz then snd (malloc_trim mc (top_pad s) s) else s))"
  by (simp add: free_into_top_def free_top_def Let_def chunk_at_offset_def)

lemma free_top_ok:
  assumes ok: "malloc_ok lim base tp tsz cm s" and p: "cm p = Some (sz, True)" and t: "p + sz = tp"
  shows "\<exists>Z s' P cm'. free_top p (head s p) sz tsz s = (Z, s') \<and> malloc_ok lim base P Z cm' s' \<and> statics s s' \<and>
    keeps (owned (av s) lim tp (cm(p \<mapsto> (sz, False)))) s s' \<and> blocks_of cm' = (blocks_of cm)(p := None) \<and>
    unat P + unat Z = unat tp + unat tsz"
proof -
  note D = malloc_okD[OF ok] and Lp = layoutD[OF malloc_okD(1)[OF ok] p] and hd = headsD[OF malloc_okD(6)[OF ok]]
  let ?H = "insert tp (dom cm)" and ?X = "owned (av s) lim tp (cm(p \<mapsto> (sz, False)))"
  let ?prev = "head s p AND PREV_INUSE = 0"
  have pb: "?prev \<longleftrightarrow> \<not> pbit (head s p)" using and_1_zero by (simp add: PREV_INUSE_def)
  define a where "a = (if ?prev then prev_size s p else 0)"
  define P where "P = (if ?prev then p - prev_size s p else p)"
  define cm' where "cm' = (if ?prev then cm(p := None, P := None) else cm(p := None))"
  define s1 where "s1 = (if ?prev then unlink P s else s)"
  let ?Z = "sz + tsz + a" and ?s' = "set_top P (set_head P ((sz + tsz + a) OR 1) s1)"
  have pd: "p \<in> dom cm" using p by blast
  have bv: "cm P = Some (a, False) \<and> P \<noteq> p \<and> pbit (head s P) \<and> P + a = p" if ?prev
    using chunk_before[OF D(1,6) pd] that pb unfolding P_def a_def by simp
  have PH: "P \<in> ?H" "P \<in> dom cm" "pbit (head s P)" using bv p pb unfolding P_def by (cases ?prev; force)+
  have Pa: "P + a = p" "unat P + unat a = unat p"
    using bv layoutD(7)[OF D(1), of P a False] unfolding P_def a_def by (cases ?prev; force)+
  have lay': "layout base P cm'"
  proof (cases ?prev)
    case True
    have "layout base p (cm(p := None))" by (rule layout_top_merge[OF D(1) p t])
    moreover have "(cm(p := None)) P = Some (a, False)" using bv[OF True] by simp
    ultimately have "layout base P (cm(p := None, P := None))" using layout_top_merge Pa(1) by blast
    then show ?thesis using True unfolding cm'_def by simp
  next
    case False
    then show ?thesis using layout_top_merge[OF D(1) p t] unfolding cm'_def P_def by simp
  qed
  have usz: "unat p + unat sz = unat tp" using Lp(7) t by simp
  then have tot: "unat P + (unat sz + unat tsz + unat a) = unat tp + unat tsz" using Pa(2) by simp
  have "unat (sz + tsz) = unat sz + unat tsz" using tot D(5,8) by (intro unat_add_small) simp
  then have uZ: "unat ?Z = unat sz + unat tsz + unat a" using tot D(5,8) by (simp add: unat_add_small)
  have alZ: "aligned ?Z" using Lp(2) D(3) bv layoutD(2)[OF D(1), of P a False] unfolding a_def by (cases ?prev) auto
  have st1: "statics s s1" "top s1 = top s" "binblocks s1 = binblocks s" "keeps ?X s s1" "links s1 cm'"
    "\<And>q. q \<in> ?H \<Longrightarrow> head s1 q = head s q \<and> prev_size s1 q = prev_size s q"
  proof -
    have "statics s s1 \<and> top s1 = top s \<and> binblocks s1 = binblocks s \<and> keeps ?X s s1 \<and> links s1 cm' \<and>
      (\<forall>q \<in> ?H. head s1 q = head s q \<and> prev_size s1 q = prev_size s q)"
    proof (cases ?prev)
      case True
      then have F: "P \<in> free_set cm" using bv by (auto intro: free_setI)
      have X: "linkset (av s) cm \<subseteq> ?X" using linkset_owned[OF ok] owned_freed[of cm, OF p] by blast
      note u = unlink_relinks[OF D(9) _ D(7) F X]
      have "links (unlink P s) cm'"
        by (rule links_cong[OF u(2)]) (use True p in \<open>auto simp: cm'_def\<close>)
      then show ?thesis using u(1) True unfolding relinks_def s1_def by auto
    next
      case False
      have "links s cm'" by (rule links_cong[OF D(7)]) (use False p in \<open>auto simp: cm'_def\<close>)
      then show ?thesis using False unfolding s1_def by simp
    qed
    then show "statics s s1" "top s1 = top s" "binblocks s1 = binblocks s" "keeps ?X s s1" "links s1 cm'"
      "\<And>q. q \<in> ?H \<Longrightarrow> head s1 q = head s q \<and> prev_size s1 q = prev_size s q" by blast+
  qed
  have av1: "av s1 = av s" by (rule statics_av[OF st1(1)])
  let ?h = "set_head P (?Z OR 1) s1"
  have S1: "sep (av s1) ?H" "sep (av ?h) ?H" using D(9) av1 by simp_all
  note o = other_field[OF S1(1)] and oh = other_field[OF S1(2)]
  have hs: "head ?s' q = (if q = P then ?Z OR 1 else head s q)" "prev_size ?s' q = prev_size s q" if "q \<in> ?H" for q
    using that oh(23,24)[OF that] o(13)[OF PH(1) that] st1(6)[OF that] by simp_all
  have dom': "dom cm' \<subseteq> ?H" unfolding cm'_def by auto
  have "links ?s' cm'"
  proof (rule links_cong[OF st1(5)])
    fix q assume "q \<in> free_set cm' \<union> bins (av s1)"
    then have "q \<in> nodes (av s1) ?H" by (rule nodes_of[OF dom'])
    then show "fd ?s' q = fd s1 q" "bk ?s' q = bk s1 q" using oh(21,22)[of q] o(11,12)[OF PH(1)] by simp_all
  qed simp_all
  moreover have "heads ?s' base P ?Z cm'"
    by (rule heads_top_freed[OF D(1,6) lay' _ PH(2,3) alZ]) (use hs PH(1) in \<open>auto simp: cm'_def\<close>)
  moreover have "binblocks ?s' = binblocks s" using oh(25) o(15)[OF PH(1)] st1(3) by simp
  moreover have "32 \<le> unat ?Z" "unat P + unat ?Z = unat tp + unat tsz" using uZ D(4) tot by linarith+
  ultimately have "malloc_ok lim base P ?Z cm' ?s'" unfolding malloc_ok_def using lay' D(2,5,12) alZ av1 by simp
  moreover have "keeps ?X s ?s'"
  proof -
    have "av s + 16 \<in> ?X" unfolding owned_def using in_av_statics by blast
    moreover have "P + 8 \<in> ?X" using owned_head[OF ok PH(1)] owned_freed[of cm, OF p] by blast
    ultimately show ?thesis using st1(4) unfolding set_top_def set_fd_def set_head_def
      by (intro keeps_set_long) (simp_all add: bin_at_eq av1)
  qed
  moreover have "blocks_of cm' = (blocks_of cm)(p := None)"
    using bv by (auto simp: blocks_of_def cm'_def fun_eq_iff)
  moreover have "free_top p (head s p) sz tsz s = (?Z, ?s')"
    by (simp add: free_top_def Let_def P_def a_def s1_def PREV_INUSE_def)
  moreover have "statics s ?s'" using st1(1) by simp
  ultimately show ?thesis using \<open>unat P + unat ?Z = unat tp + unat tsz\<close> by blast
qed

subsection \<open>Trimming the top\<close>

text \<open>What \<open>malloc_trim\<close> gives back is whole pages and leaves room for a top.\<close>

lemma trim_extra:
  assumes t: "unat tsz < 2 ^ 62" and p: "unat pad < 2 ^ 32"
    and e: "extra = ((tsz - pad - MINSIZE + (malloc_getpagesize - 1)) div malloc_getpagesize - 1) * malloc_getpagesize"
    and n: "\<not> extra <s malloc_getpagesize"
  shows "unat extra + 32 \<le> unat tsz" "4096 dvd unat extra" "extra \<noteq> 0"
proof -
  let ?y = "tsz - pad - MINSIZE + 4095"
  let ?d = "?y div 4096"
  have e': "extra = (?d - 1) * 4096" using e by (simp add: malloc_getpagesize_def MINSIZE_def)
  have ud: "unat ?d = unat ?y div 4096" by (simp add: unat_div)
  have sn: "4096 \<le> sint extra" using n by (simp add: word_sless_alt malloc_getpagesize_def)
  have dnz: "?d \<noteq> 0"
  proof
    assume "?d = 0"
    then have "extra = - 4096" using e' by simp
    then have "sint extra = - 4096" by simp
    then show False using sn by simp
  qed
  then have u1: "unat (?d - 1) = unat ?y div 4096 - 1" using ud by (metis unat_minus_one)
  have lt: "unat ?y < 2 ^ 64" using unsigned_less[of ?y] by simp
  have one: "1 \<le> unat ?y div 4096" using dnz ud by (metis One_nat_def Suc_leI neq0_conv unat_eq_zero)
  have q: "4096 * (unat ?y div 4096) \<le> unat ?y" by simp
  have ue: "unat extra = 4096 * (unat ?y div 4096 - 1)"
  proof -
    have "unat (?d - 1) * unat (4096 :: u64) < 2 ^ LENGTH(64)" using u1 lt q by simp
    then have "unat ((?d - 1) * 4096) = unat (?d - 1) * unat (4096 :: u64)" by (rule unat_mult_lem[THEN iffD1])
    then show ?thesis unfolding e' u1 by simp
  qed
  then show "4096 dvd unat extra" by simp
  have "sint extra < 2 ^ 63" using sint_lt[of extra] by simp
  then have "take_bit 64 (sint extra) = sint extra" using sn by (simp add: take_bit_int_eq_self)
  moreover have "uint extra = take_bit 64 (sint extra)" using uint_sint[of extra] by simp
  ultimately have "uint extra = sint extra" by simp
  then have "uint extra < 2 ^ 63" using \<open>sint extra < 2 ^ 63\<close> by simp
  then have "int (unat extra) < 2 ^ 63" by (simp only: uint_nat)
  then have pos: "unat extra < 2 ^ 63" by (metis of_nat_less_iff of_nat_numeral of_nat_power)
  show "extra \<noteq> 0" using sn by auto
  have ylt: "unat ?y < 2 ^ 63 + 8192" using pos ue by linarith
  have lo: "unat pad + 32 \<le> unat tsz + 4095"
  proof (rule ccontr)
    assume less: "\<not> unat pad + 32 \<le> unat tsz + 4095"
    have "unat (pad + 32) = unat pad + 32" using p by (simp add: unat_add_small)
    moreover have "unat (tsz + 4095) = unat tsz + 4095" using t by (simp add: unat_add_small)
    ultimately have uz: "unat (pad + 32 - (tsz + 4095)) = unat pad + 32 - (unat tsz + 4095)" using less by (subst unat_sub_small) simp_all
    have "?y = - (pad + 32 - (tsz + 4095))" by (simp add: MINSIZE_def)
    then have "?y + (pad + 32 - (tsz + 4095)) = 0" by simp
    moreover have "unat ?y + unat (pad + 32 - (tsz + 4095)) < 2 ^ 64" using ylt uz p by simp
    ultimately have "unat ?y + unat (pad + 32 - (tsz + 4095)) = 0" using unat_add_small by (metis unat_0)
    then show False using uz less by simp
  qed
  have "unat (pad + 32) = unat pad + 32" using p by (simp add: unat_add_small)
  moreover have "unat (tsz + 4095) = unat tsz + 4095" using t by (simp add: unat_add_small)
  ultimately have "unat (tsz + 4095 - (pad + 32)) = unat tsz + 4095 - (unat pad + 32)" using lo by (subst unat_sub_small) simp_all
  moreover have "?y = tsz + 4095 - (pad + 32)" by (simp add: MINSIZE_def)
  ultimately have "unat ?y = unat tsz + 4095 - (unat pad + 32)" by (simp only:)
  then show "unat extra + 32 \<le> unat tsz" using ue q one by linarith
qed

subsection \<open>free\<close>

lemma kept_trans: "kept B s s' \<Longrightarrow> kept B s' s'' \<Longrightarrow> kept B s s''"
  unfolding kept_def by metis

lemma kept_freed:
  assumes ok: "malloc_ok lim base tp tsz cm s" and p: "cm p = Some (sz, True)"
    and k: "keeps (owned (av s) lim tp (cm(p \<mapsto> (sz, False)))) s s'"
  shows "kept ((blocks_of cm)(p := None)) s s'"
  unfolding kept_def
proof (intro allI impI)
  fix q z x assume a: "((blocks_of cm)(p := None)) q = Some z \<and> x \<in> user q z"
  note D = malloc_okD[OF ok]
  have "(cm(p \<mapsto> (sz, False))) q = Some (z, True)"
    using a by (auto simp: blocks_of_def split: option.splits bool.splits if_splits)
  moreover have "unat tp + 32 \<le> lim" using D(4,5) by linarith
  ultimately have "x \<notin> owned (av s) lim tp (cm(p \<mapsto> (sz, False)))"
    using user_not_owned[OF layout_flag[OF D(1) p] D(2)] a by blast
  then show "mlong s' x = mlong s x" using k unfolding keeps_def by blast
qed

lemma blocks_ofD: "blocks_of cm p = Some sz \<Longrightarrow> cm p = Some (sz, True)"
  by (auto simp: blocks_of_def split: option.splits bool.splits)

lemma fREe_cases:
  assumes ok: "malloc_ok lim base tp tsz cm s" and p: "cm p = Some (sz, True)"
  shows "fREe mc k (chunk2mem p) s = (if p + sz = tp then Ok (free_into_top mc p (head s p) sz tsz (MALLOC_LOCK s))
    else bnd (free_middle k p (MALLOC_LOCK s)) (\<lambda>s. Ok (MALLOC_UNLOCK s)))" "chunk2mem p \<noteq> 0"
proof -
  note D = malloc_okD[OF ok]
  let ?s = "MALLOC_LOCK s"
  have pH: "p \<in> insert tp (dom cm)" using p by auto
  have c: "chunk2mem p = p + 16" by (simp add: chunk2mem_def SIZE_SZ_def)
  have "unat (p + 16) = unat p + 16" using unat_plus[OF ok pH, of 16] by simp
  then show m: "chunk2mem p \<noteq> 0" unfolding c by (metis add_is_0 unat_0 zero_neq_numeral)
  have h: "head ?s p = head s p" "top ?s = tp" "chunksize ?s tp = tsz"
    using headsD(1,2)[OF D(6)] and_not_3[of "head s tp" tsz] D(3) field_eq[of ?s s] by (simp_all add: chunksize_def SIZE_BITS_def)
  have sz: "head s p AND NOT PREV_INUSE = sz" using headsD(4)[OF D(6) p] by (simp add: PREV_INUSE_def hsize_def)
  have m2c: "mem2chunk (chunk2mem p) = p" by (simp add: mem2chunk_def chunk2mem_def)
  show "fREe mc k (chunk2mem p) s = (if p + sz = tp then Ok (free_into_top mc p (head s p) sz tsz ?s)
    else bnd (free_middle k p ?s) (\<lambda>s. Ok (MALLOC_UNLOCK s)))"
    unfolding fREe_def free_middle_def using m
    by (simp add: Let_def m2c h sz chunk_at_offset_def split: prod.splits)
qed

context morecore
begin

lemma trim_ok:
  assumes ok: "malloc_ok lim base tp tsz cm s" and g: "grown live brk lo tp tsz s" and b: "lo \<le> unat base" and p: "unat pad < 2 ^ 32"
  shows "\<exists>tsz' s'. snd (malloc_trim mc pad s) = s' \<and> book s s' \<and> keeps (owned (av s) lim tp cm) s s' \<and>
    malloc_ok lim base tp tsz' cm s' \<and> grown live brk lo tp tsz' s'"
proof -
  note D = malloc_okD[OF ok]
  let ?s = "MALLOC_LOCK s"
  define extra where e: "extra = ((tsz - pad - MINSIZE + (malloc_getpagesize - 1)) div malloc_getpagesize - 1) * malloc_getpagesize"
  have tp: "top s = tp" "chunksize s tp = tsz"
    using headsD(1,2)[OF D(6)] and_not_3[of "head s tp" tsz] D(3) by (simp_all add: chunksize_def SIZE_BITS_def)
  have tpl: "top ?s = tp" "chunksize ?s tp = tsz"
    using tp field_eq[of ?s s] by (simp_all add: chunksize_def)
  have G: "sbrk_base s \<noteq> - 1" "live (system s)" "unat (brk (system s)) = unat tp + unat tsz" "4096 dvd unat tp + unat tsz"
    using g unfolding grown_def by blast+
  have same: "book s (MALLOC_UNLOCK ?s)" "keeps (owned (av s) lim tp cm) s (MALLOC_UNLOCK ?s)"
    "malloc_ok lim base tp tsz cm (MALLOC_UNLOCK ?s)" "grown live brk lo tp tsz (MALLOC_UNLOCK ?s)"
    using ok g by (simp_all add: keeps_def)
  show ?thesis
  proof (cases "extra <s malloc_getpagesize")
    case True
    then have "snd (malloc_trim mc pad s) = MALLOC_UNLOCK ?s"
      unfolding malloc_trim_def Let_def tpl e[symmetric] by simp
    then show ?thesis using same by blast
  next
    case False
    note x = trim_extra[OF _ p e False]
    have t62: "unat tsz < 2 ^ 62" using D(5,8) by simp
    note x = x[OF t62]
    have be: "brk (system s) = tp + tsz"
    proof -
      have "unat (tp + tsz) = unat tp + unat tsz" using D(5,8) by (intro unat_add_small) simp
      then show ?thesis using G(3) by (metis word_unat_eq_iff)
    qed
    have "unat base \<le> unat tp" using layout_base[OF D(1)] by blast
    then have "lo + unat extra \<le> unat (brk (system s))" using b x(1) G(3) by linarith
    moreover obtain h0 where q: "mc 0 (system s) = (brk (system s), h0)" and h0: "live h0" "brk h0 = brk (system s)"
      using query[OF G(2)] by blast
    ultimately obtain h' where h': "mc (- extra) h0 = (brk (system s), h')" "live h'" "brk h' = brk (system s) - extra"
      using release[OF h0(1) x(3)] by auto
    have ne: "brk (system s) \<noteq> - 1" using brk_not_error G(2) by blast
    let ?c = "set_head tp ((tsz - extra) OR 1) s"
    have tops: "top (?s\<lparr>system := h'\<rparr>) = tp" "top (?s\<lparr>system := h0\<rparr>) = tp" using tp(1) by (simp_all add: top_def fd_def bin_at_eq)
    obtain s' where s': "snd (malloc_trim mc pad s) = s'" "mlong s' = mlong ?c" "av s' = av ?c" "system s' = h'" "sbrk_base s' = sbrk_base s" "book s s'"
    proof -
      have "\<exists>s'. snd (malloc_trim mc pad s) = s' \<and> mlong s' = mlong ?c \<and> av s' = av ?c \<and> system s' = h' \<and> sbrk_base s' = sbrk_base s \<and> book s s'"
        unfolding malloc_trim_def Let_def tpl e[symmetric] MORECORE_def
        using False q h'(1) be ne tpl tops
        by (simp add: PREV_INUSE_def set_head_def set_long_def book_def MALLOC_LOCK_def MALLOC_UNLOCK_def)
      then show ?thesis using that by blast
    qed
    have ut: "unat (tsz - extra) = unat tsz - unat extra" using x(1) by (intro unat_sub_small) simp
    have al: "aligned (tsz - extra)"
    proof -
      have "16 dvd (4096 :: nat)" by simp
      then have "aligned extra" unfolding aligned_def using x(2) dvd_trans by blast
      then show ?thesis using D(3) by blast
    qed
    have bnd: "32 \<le> unat (tsz - extra)" "unat tp + unat (tsz - extra) \<le> lim" using ut x(1) D(5) by linarith+
    note r = top_resize[OF ok al bnd]
    have "malloc_ok lim base tp (tsz - extra) cm s'" using r(1) malloc_ok_eq[OF s'(2,3)] by simp
    moreover have "keeps (owned (av s) lim tp cm) s s'" using r(2) s'(2) unfolding keeps_def by simp
    moreover have "grown live brk lo tp (tsz - extra) s'"
    proof -
      have "unat (brk (system s) - extra) = unat (brk (system s)) - unat extra" using x(1) G(3) by (intro unat_sub_small) simp
      then have u: "unat (brk h') = unat tp + unat (tsz - extra)" using h'(3) ut G(3) x(1) by simp
      have "unat tp + unat (tsz - extra) = unat tp + unat tsz - unat extra" using ut x(1) by simp
      then have "4096 dvd unat tp + unat (tsz - extra)" using dvd_diff_nat[OF G(4) x(2)] by simp
      then show ?thesis unfolding grown_def using u s'(4,5) h'(2) G(1) by simp
    qed
    ultimately show ?thesis using s'(1,6) by blast
  qed
qed

theorem free_works:
  assumes a: "arena_state fresh live brk lo lim B s" and p: "B p = Some sz" and k: "lim div 32 + 130 \<le> k"
  shows "\<exists>s'. fREe mc k (chunk2mem p) s = Ok s' \<and> arena_state fresh live brk lo lim (B(p := None)) s' \<and>
    kept (B(p := None)) s s' \<and> lock_depth s' = lock_depth s"
proof -
  have A: "arena (av s) lo lim" "unat (top_pad s) < 2 ^ 32" using a unfolding arena_state_def by blast+
  obtain base tp tsz cm where ok: "malloc_ok lim base tp tsz cm s" "lo \<le> unat base" "grown live brk lo tp tsz s" "B = blocks_of cm"
    using a p unfolding arena_state_def by auto
  have cp: "cm p = Some (sz, True)" using p ok(4) blocks_ofD by blast
  let ?s = "MALLOC_LOCK s"
  have ok0: "malloc_ok lim base tp tsz cm ?s" using ok(1) by simp
  note e = fREe_cases(1)[OF ok(1) cp]
  have fin: ?thesis if "fREe mc k (chunk2mem p) s = Ok (MALLOC_UNLOCK s')" "book ?s s'" "kept (B(p := None)) s s'"
    "malloc_ok lim base tp' tsz' cm' s'" "grown live brk lo tp' tsz' s'" "blocks_of cm' = B(p := None)" for s' tp' tsz' cm'
  proof -
    have "av s' = av s" "top_pad s' = top_pad s" "lock_depth (MALLOC_UNLOCK s') = lock_depth s"
      using that(2) by (simp_all add: book_def MALLOC_LOCK_def MALLOC_UNLOCK_def)
    moreover have "malloc_ok lim base tp' tsz' cm' (MALLOC_UNLOCK s')" "grown live brk lo tp' tsz' (MALLOC_UNLOCK s')" using that(4,5) by simp_all
    ultimately have "arena_state fresh live brk lo lim (B(p := None)) (MALLOC_UNLOCK s')"
      unfolding arena_state_def using A ok(2) that(6) by (metis lock_book(7) lock_simps(4))
    then show ?thesis using that(1,3) \<open>lock_depth (MALLOC_UNLOCK s') = lock_depth s\<close> by simp
  qed
  show ?thesis
  proof (cases "p + sz = tp")
    case True
    obtain Z s1 P cm' where f: "free_top p (head ?s p) sz tsz ?s = (Z, s1)" "malloc_ok lim base P Z cm' s1" "statics ?s s1"
        "keeps (owned (av ?s) lim tp (cm(p \<mapsto> (sz, False)))) ?s s1" "blocks_of cm' = (blocks_of cm)(p := None)"
        "unat P + unat Z = unat tp + unat tsz"
      using free_top_ok[OF ok0 cp True] by blast
    have hp: "head ?s p = head s p" using field_eq(3)[of ?s s] by simp
    have g1: "grown live brk lo P Z s1" using ok(3) f(3,6) unfolding grown_def statics_def by simp
    have k1: "kept (B(p := None)) s s1" using kept_freed[OF ok0 cp f(4)] ok(4) by simp
    define s2 where "s2 = (if trim_threshold s1 \<le> Z then snd (malloc_trim mc (top_pad s1) s1) else s1)"
    have c: "fREe mc k (chunk2mem p) s = Ok (MALLOC_UNLOCK s2)"
      unfolding e free_into_top_eq s2_def using True f(1) unfolding hp by simp
    have b1: "book ?s s1" by (rule statics_book[OF f(3)])
    have pad: "unat (top_pad s1) < 2 ^ 32" using A(2) f(3) by (simp add: statics_def)
    have "\<exists>Z'. malloc_ok lim base P Z' cm' s2 \<and> grown live brk lo P Z' s2 \<and> book s1 s2 \<and> kept (blocks_of cm') s1 s2"
    proof (cases "trim_threshold s1 \<le> Z")
      case True
      then show ?thesis using trim_ok[OF f(2) g1 ok(2) pad] keeps_kept[OF f(2)] unfolding s2_def by auto
    next
      case False
      then show ?thesis using f(2) g1 unfolding s2_def by (auto simp: kept_def)
    qed
    then obtain Z' where z: "malloc_ok lim base P Z' cm' s2" "grown live brk lo P Z' s2" "book s1 s2" "kept (blocks_of cm') s1 s2" by blast
    show ?thesis
      by (rule fin[OF c book_trans[OF b1 z(3)] _ z(1,2)]) (use kept_trans[OF k1] z(4) f(5) ok(4) in auto)
  next
    case False
    obtain s' cm' where m: "free_middle k p ?s = Ok s'" "malloc_ok lim base tp tsz cm' s'" "statics ?s s'"
        "keeps (owned (av ?s) lim tp (cm(p \<mapsto> (sz, False)))) ?s s'" "blocks_of cm' = (blocks_of cm)(p := None)"
      using free_middle_ok[OF ok0 cp False k] by blast
    have "fREe mc k (chunk2mem p) s = Ok (MALLOC_UNLOCK s')" unfolding e using False m(1) by simp
    moreover have "grown live brk lo tp tsz s'" using ok(3) m(3) unfolding grown_def statics_def by simp
    moreover have "kept (B(p := None)) s s'" using kept_freed[OF ok0 cp m(4)] ok(4) by simp
    ultimately show ?thesis using fin[OF _ statics_book[OF m(3)] _ m(2)] m(5) ok(4) by simp
  qed
qed

end

end
