(* ===== verification/Malloc_Port.thy ===== *)
theory Malloc_Port
  imports Malloc_Free
begin

text \<open>
  The allocator on the port's heap: \<open>MORECORE\<close> is \<open>_sbrk_r\<close>, which grows the heap of
  \<open>src/ub_sbrk.c\<close> with pages of the firmware.  What is used of the firmware is the documented
  contract of \<open>AllocatePages\<close>: it may refuse any request, a granted \<open>AllocateAddress\<close> has the pages
  it was asked for, a granted \<open>AllocateAnyPages\<close> may have pages anywhere, and pages are granted out of
  the pages that are left.  That the machine has finitely many of them bounds the heap, although
  \<open>ub_sbrk\<close> does not look where they are.
\<close>

type_synonym 'f port_heap = "heap \<times> 'f \<times> reents"

definition port_morecore :: "'f firmware \<Rightarrow> reent_ptr \<Rightarrow> 'f port_heap morecore" where
  "port_morecore alloc ptr incr = (\<lambda>(h, f, r). let (ret, h, f, r) = sbrk_r alloc ptr incr f h r in (ret, (h, f, r)))"

text \<open>\<open>pages f\<close> is the number of pages the firmware has left in state \<open>f\<close>.  The address is an output
  of a granted request only; as an input \<open>AllocateAnyPages\<close> ignores it.\<close>

definition allocates_pages :: "('f \<Rightarrow> nat) \<Rightarrow> 'f firmware \<Rightarrow> bool" where
  "allocates_pages pages alloc \<longleftrightarrow>
     (\<forall>f ty n a. case alloc f ty n a of (status, addr, f') \<Rightarrow>
        if EFI_ERROR status then addr = a \<and> pages f' \<le> pages f
        else (ty = AllocateAddress \<longrightarrow> addr = a) \<and> unat n + pages f' \<le> pages f)"

text \<open>The machine has the four pages at \<open>INITIAL_BASE\<close> when they are asked for.  Without them \<open>ub_sbrk\<close>
  goes on with a heap at address 0 (\<open>ub_sbrk_after_refusal\<close>).\<close>

definition low_pages_free :: "'f firmware \<Rightarrow> 'f \<Rightarrow> bool" where
  "low_pages_free alloc f \<longleftrightarrow> \<not> EFI_ERROR (fst (alloc f AllocateAddress INITIALPAGES INITIAL_BASE))"

text \<open>The heap with all pages that are left behind it ends below \<open>lim\<close>.\<close>

fun port_live :: "('f \<Rightarrow> nat) \<Rightarrow> 'f firmware \<Rightarrow> nat \<Rightarrow> 'f port_heap \<Rightarrow> bool" where
  "port_live pages alloc lim (h, f, r) \<longleftrightarrow> allocates_pages pages alloc \<and> lim < 2 ^ 62 \<and> heap_ok h \<and>
     heap_base h = INITIAL_BASE \<and> 4096 dvd unat (heap_limit h) \<and> unat (heap_limit h) + 4096 * pages f \<le> lim"

fun port_fresh :: "('f \<Rightarrow> nat) \<Rightarrow> 'f firmware \<Rightarrow> nat \<Rightarrow> 'f port_heap \<Rightarrow> bool" where
  "port_fresh pages alloc lim (h, f, r) \<longleftrightarrow> allocates_pages pages alloc \<and> lim < 2 ^ 62 \<and> heap_base h = 0 \<and>
     low_pages_free alloc f \<and> unat INITIAL_BASE + 4096 * pages f \<le> lim"

lemma allocates_pagesD:
  assumes "allocates_pages pages alloc" and "alloc f ty n a = (status, addr, f')"
  shows "EFI_ERROR status \<Longrightarrow> addr = a" "EFI_ERROR status \<Longrightarrow> pages f' \<le> pages f"
    "\<not> EFI_ERROR status \<Longrightarrow> ty = AllocateAddress \<Longrightarrow> addr = a" "\<not> EFI_ERROR status \<Longrightarrow> unat n + pages f' \<le> pages f"
proof -
  have "case alloc f ty n a of (status, addr, f') \<Rightarrow>
        if EFI_ERROR status then addr = a \<and> pages f' \<le> pages f
        else (ty = AllocateAddress \<longrightarrow> addr = a) \<and> unat n + pages f' \<le> pages f"
    by (rule assms(1)[unfolded allocates_pages_def, THEN spec, THEN spec, THEN spec, THEN spec])
  then show "EFI_ERROR status \<Longrightarrow> addr = a" "EFI_ERROR status \<Longrightarrow> pages f' \<le> pages f"
    "\<not> EFI_ERROR status \<Longrightarrow> ty = AllocateAddress \<Longrightarrow> addr = a" "\<not> EFI_ERROR status \<Longrightarrow> unat n + pages f' \<le> pages f"
    unfolding assms(2) by (simp_all split: if_splits)
qed

fun port_brk :: "'f port_heap \<Rightarrow> u64" where
  "port_brk (h, f, r) = break_of h"

definition port_lo :: nat where "port_lo = unat INITIAL_BASE"

lemma next_page:
  assumes "4096 dvd l" and "c \<le> l" and "c mod 4096 \<noteq> 0"
  shows "c + (4096 - c mod 4096) \<le> (l :: nat)"
proof -
  obtain n where n: "l = 4096 * n" using assms(1) by (rule dvdE)
  have q: "c = 4096 * (c div 4096) + c mod 4096" "c mod 4096 < 4096" by simp_all
  then have "4096 * (c div 4096) < 4096 * n" using assms(2,3) n by linarith
  then have "c div 4096 + 1 \<le> n" by simp
  then have "4096 * (c div 4096 + 1) \<le> l" unfolding n by (rule mult_le_mono2)
  moreover have "c + (4096 - c mod 4096) = 4096 * (c div 4096) + (c mod 4096 + (4096 - c mod 4096))"
    using q(1) by (simp only: add.assoc[symmetric])
  ultimately show ?thesis using q(2) by (simp add: less_imp_le)
qed

lemma port_morecore_eq:
  "port_morecore alloc ptr incr (h, f, r) = (let (ret, h, f) = ub_sbrk alloc incr f h in (ret, (h, f, r\<lparr>sys_errno := 0\<rparr>)))"
  by (simp add: port_morecore_def sbrk_r_result split: prod.splits)

lemma first_pages:
  assumes "port_fresh pages alloc lim (h, f, r) \<or> port_live pages alloc lim (h, f, r)"
  shows "\<exists>h1 f1. sbrk_first alloc f h = (True, h1, f1) \<and> port_live pages alloc lim (h1, f1, r) \<and> heap_current h1 = break_of h"
proof (cases "heap_base h = 0")
  case False
  then show ?thesis using assms by (auto simp: sbrk_first_def break_of_def)
next
  case True
  then have fr: "port_fresh pages alloc lim (h, f, r)" using assms by (auto simp: INITIAL_BASE_def)
  obtain st addr f1 where a: "alloc f AllocateAddress INITIALPAGES INITIAL_BASE = (st, addr, f1)"
    by (cases "alloc f AllocateAddress INITIALPAGES INITIAL_BASE")
  then have st: "\<not> EFI_ERROR st" using fr by (simp add: low_pages_free_def)
  have p: "allocates_pages pages alloc" "lim < 2 ^ 62" using fr by simp_all
  have addr: "addr = INITIAL_BASE" using allocates_pagesD(3)[OF p(1) a st] by simp
  have "unat INITIALPAGES + pages f1 \<le> pages f" by (rule allocates_pagesD(4)[OF p(1) a st])
  then have "4 + pages f1 \<le> pages f" by (simp add: INITIALPAGES_def)
  then have l: "0x4004000 + 4096 * pages f1 \<le> lim" using fr by (simp add: INITIAL_BASE_def)
  let ?h = "(log_sbrk (LogFirst INITIALPAGES INITIAL_BASE st) (h\<lparr>heap_base := INITIAL_BASE\<rparr>))
    \<lparr>heap_current := INITIAL_BASE, heap_limit := INITIAL_BASE + INITIALPAGES * PAGE_SIZE\<rparr>"
  have "sbrk_first alloc f h = (True, ?h, f1)"
    using True a st addr by (simp add: sbrk_first_def Let_def log_sbrk_def)
  moreover have "INITIAL_BASE + INITIALPAGES * PAGE_SIZE = 0x4004000" by (simp add: sbrk_consts)
  then have "port_live pages alloc lim (?h, f1, r)" using p l by (simp add: heap_ok_def INITIAL_BASE_def log_sbrk_def)
  ultimately show ?thesis using True by (intro exI[of _ ?h] exI[of _ f1]) (simp add: break_of_def)
qed

lemma grow_pages:
  assumes l: "port_live pages alloc lim (h, f, r)" and nb: "heap_current h \<le> nb" "unat nb < 2 ^ 63"
  shows "\<exists>ok h' f'. sbrk_grow alloc nb f h = (ok, h', f') \<and> heap_base h' = heap_base h \<and> heap_current h' = heap_current h \<and>
    port_live pages alloc lim (h', f', r) \<and> (ok \<longrightarrow> nb \<le> heap_limit h') \<and> (nb \<le> heap_limit h \<longrightarrow> ok)"
proof (cases "heap_limit h < nb")
  case False
  then have "sbrk_grow alloc nb f h = (True, h, f)" by (simp add: sbrk_grow_def)
  then show ?thesis using l False by (intro exI[of _ True] exI[of _ h] exI[of _ f]) (simp add: not_less)
next
  case True
  let ?n = "additional_pages nb h"
  obtain st addr f1 where a: "alloc f AllocateAnyPages ?n (heap_limit h) = (st, addr, f1)"
    by (cases "alloc f AllocateAnyPages ?n (heap_limit h)")
  have p: "allocates_pages pages alloc" using l by simp
  note g = allocates_pagesD[OF p a]
  show ?thesis
  proof (cases "EFI_ERROR st")
    case err: True
    then have "sbrk_grow alloc nb f h = (False, log_sbrk (LogGrow ?n addr (heap_limit h) st) (h\<lparr>heap_limit := addr\<rparr>), f1)"
      using True a by (simp add: sbrk_grow_def Let_def)
    moreover have "unat (heap_limit h) + 4096 * pages f1 \<le> lim" using l g(2)[OF err] by simp
    ultimately show ?thesis using l g(1)[OF err] True
      by (intro exI[of _ False] exI[of _ "log_sbrk (LogGrow ?n addr (heap_limit h) st) (h\<lparr>heap_limit := addr\<rparr>)"] exI[of _ f1])
        (auto simp: log_sbrk_def heap_ok_def)
  next
    case False
    have b: "unat nb + 4096 \<le> 2 ^ 64" "unat nb + 8192 \<le> 2 ^ 64" using nb(2) by simp_all
    have un: "unat ?n = (unat nb - unat (heap_limit h) + 4095) div 4096" by (rule unat_pages[OF True b(1)])
    note gl = grown_limit[OF True b(2)]
    let ?l = "heap_limit h + ?n * PAGE_SIZE"
    have ul: "unat ?l = unat (heap_limit h) + unat ?n * 4096" using gl(1) un by simp
    have "unat ?l + 4096 * pages f1 \<le> lim" using g(4)[OF False] ul l by simp
    moreover have "4096 dvd unat ?l" unfolding ul using l by simp
    moreover have "heap_current h \<le> ?l" using nb(1) gl(2) by (rule order_trans)
    moreover let ?h = "(log_sbrk (LogGrow ?n addr (heap_limit h) st) (h\<lparr>heap_limit := addr\<rparr>))\<lparr>heap_limit := ?l\<rparr>"
    have "sbrk_grow alloc nb f h = (True, ?h, f1)" using True a False by (simp add: sbrk_grow_def Let_def)
    ultimately show ?thesis using l gl(2)
      by (intro exI[of _ True] exI[of _ ?h] exI[of _ f1]) (auto simp: log_sbrk_def heap_ok_def)
  qed
qed

lemma live_break:
  assumes "port_live pages alloc lim (h, f, r)"
  shows "break_of h = heap_current h" "heap_base h \<noteq> 0" "unat (heap_current h) \<le> lim" "lim < 2 ^ 62" "unat INITIAL_BASE \<le> unat (heap_current h)"
    "heap_current h \<noteq> - 1"
proof -
  show h: "heap_base h \<noteq> 0" using assms by (simp add: INITIAL_BASE_def)
  then show "break_of h = heap_current h" by (simp add: break_of_def)
  show l: "unat (heap_current h) \<le> lim" "unat INITIAL_BASE \<le> unat (heap_current h)" using assms by (auto simp: heap_ok_def word_le_nat_alt)
  show "lim < 2 ^ 62" using assms by simp
  then have lt: "unat (heap_current h) < 2 ^ 62" using l(1) by linarith
  show "heap_current h \<noteq> - 1"
  proof
    have m: "(- 1 :: u64) = 0xFFFFFFFFFFFFFFFF" by simp
    assume "heap_current h = - 1"
    then have "unat (heap_current h) = 2 ^ 64 - 1" unfolding m by simp
    then show False using lt by simp
  qed
qed

text \<open>One call of \<open>ub_sbrk\<close> under the firmware's contract.\<close>

lemma ub_sbrk_port:
  assumes l: "port_fresh pages alloc lim (h, f, r) \<or> port_live pages alloc lim (h, f, r)" and i: "inc \<noteq> 0" "unat inc < 2 ^ 34"
  shows "\<exists>h' f'. (ub_sbrk alloc inc f h = (break_of h, h', f') \<and> port_live pages alloc lim (h', f', r) \<and> heap_current h' = break_of h + inc \<and>
      unat (break_of h) + unat inc \<le> lim) \<or>
    (ub_sbrk alloc inc f h = (- 1, h', f') \<and> port_live pages alloc lim (h', f', r) \<and> heap_current h' = break_of h \<and>
      (heap_base h \<noteq> 0 \<longrightarrow> heap_limit h < heap_current h + inc))"
proof -
  obtain h1 f1 where f: "sbrk_first alloc f h = (True, h1, f1)" "port_live pages alloc lim (h1, f1, r)" "heap_current h1 = break_of h"
    using first_pages[OF l] by blast
  note L = live_break[OF f(2)]
  let ?nb = "heap_current h1 + inc"
  have u: "unat ?nb = unat (heap_current h1) + unat inc" using L(3,4) i(2) by (intro unat_add_small) simp
  have nb: "heap_current h1 \<le> ?nb" "unat ?nb < 2 ^ 63" using u L(3,4) i(2) by (simp_all add: word_le_nat_alt)
  obtain ok h2 f2 where g: "sbrk_grow alloc ?nb f1 h1 = (ok, h2, f2)" "heap_base h2 = heap_base h1" "heap_current h2 = heap_current h1"
      "port_live pages alloc lim (h2, f2, r)" "ok \<longrightarrow> ?nb \<le> heap_limit h2" "?nb \<le> heap_limit h1 \<longrightarrow> ok"
    using grow_pages[OF f(2) nb] by blast
  show ?thesis
  proof (cases ok)
    case True
    let ?h = "log_sbrk (LogSbrk inc (heap_current h2)) (h2\<lparr>heap_current := ?nb\<rparr>)"
    have "ub_sbrk alloc inc f h = (break_of h, ?h, f2)"
      using i(1) f(1,3) g(1,3) True by (simp add: ub_sbrk_def Let_def)
    moreover have "unat ?nb \<le> lim" using g(4,5) True by (auto simp: word_le_nat_alt)
    moreover have "port_live pages alloc lim (?h, f2, r)"
      using g(3,4,5) True nb(1) by (auto simp: log_sbrk_def heap_ok_def)
    ultimately show ?thesis using u f(3) by (intro exI[of _ ?h] exI[of _ f2]) (simp add: log_sbrk_def)
  next
    case False
    then have "ub_sbrk alloc inc f h = (- 1, h2, f2)" using i(1) f(1) g(1) by (simp add: ub_sbrk_def Let_def)
    moreover have "h1 = h" if "heap_base h \<noteq> 0" using f(1) that by (simp add: sbrk_first_def)
    moreover have "heap_base h \<noteq> 0 \<longrightarrow> heap_limit h < heap_current h + inc" using calculation(2) g(6) False by (auto simp: not_le)
    ultimately show ?thesis using g(3,4) f(3) by (intro exI[of _ h2] exI[of _ f2]) simp
  qed
qed

interpretation port_heap: morecore "port_morecore alloc ptr" "port_fresh pages alloc lim" "port_live pages alloc lim" port_brk port_lo lim
  for pages :: "'f \<Rightarrow> nat" and alloc ptr lim
proof
  fix h :: "'f port_heap" and sz p :: u64 and h'
  obtain hh f r where h: "h = (hh, f, r)" by (cases h)
  assume a: "port_fresh pages alloc lim h \<or> port_live pages alloc lim h" "sz \<noteq> 0" "unat sz < 2 ^ 34"
  obtain h2 f2 where u: "(ub_sbrk alloc sz f hh = (break_of hh, h2, f2) \<and> port_live pages alloc lim (h2, f2, r) \<and> heap_current h2 = break_of hh + sz \<and>
      unat (break_of hh) + unat sz \<le> lim) \<or>
    (ub_sbrk alloc sz f hh = (- 1, h2, f2) \<and> port_live pages alloc lim (h2, f2, r) \<and> heap_current h2 = break_of hh \<and>
      (heap_base hh \<noteq> 0 \<longrightarrow> heap_limit hh < heap_current hh + sz))"
    using ub_sbrk_port[OF a(1)[unfolded h] a(2,3)] by blast
  have b2: "break_of h2 = heap_current h2" using u live_break(1)[of pages alloc lim h2 f2 r] by blast
  have ne: "break_of hh \<noteq> - 1" using a(1) live_break(1,6)[of pages alloc lim hh f r] unfolding h by (auto simp: break_of_def INITIAL_BASE_def)
  show "p = port_brk h \<and> port_live pages alloc lim h' \<and> port_brk h' = port_brk h + sz \<and> unat (port_brk h) + unat sz \<le> lim"
    if "port_morecore alloc ptr sz h = (p, h')" "p \<noteq> - 1"
    using u that b2 unfolding h by (auto simp: port_morecore_eq)
  show "(port_fresh pages alloc lim h' \<or> port_live pages alloc lim h') \<and> (port_live pages alloc lim h \<longrightarrow> port_live pages alloc lim h') \<and> port_brk h' = port_brk h"
    if "port_morecore alloc ptr sz h = (- 1, h')"
    using u that b2 ne unfolding h by (auto simp: port_morecore_eq)
next
  fix h :: "'f port_heap" and sz :: u64
  obtain hh f r where h: "h = (hh, f, r)" by (cases h)
  assume a: "port_live pages alloc lim h"
  note L = live_break[OF a[unfolded h]]
  show "\<exists>h'. port_morecore alloc ptr 0 h = (port_brk h, h') \<and> port_live pages alloc lim h' \<and> port_brk h' = port_brk h"
    using a L(1) unfolding h by (simp add: port_morecore_eq ub_sbrk_def)
  show "fst (port_morecore alloc ptr sz h) \<noteq> - 1"
    if s: "sz \<noteq> 0" "unat sz = 4096 - unat (port_brk h) mod 4096" "unat (port_brk h) mod 4096 \<noteq> 0"
  proof -
    have "unat sz < 2 ^ 34" using s(2) by simp
    then obtain h2 f2 where u: "ub_sbrk alloc sz f hh = (break_of hh, h2, f2) \<or>
      ub_sbrk alloc sz f hh = (- 1, h2, f2) \<and> heap_limit hh < heap_current hh + sz"
      using ub_sbrk_port[OF disjI2[OF a[unfolded h]] s(1)] L(2) by blast
    have lim: "4096 dvd unat (heap_limit hh)" "unat (heap_current hh) \<le> unat (heap_limit hh)" "unat (heap_limit hh) < 2 ^ 62"
      using a L(4) unfolding h by (auto simp: heap_ok_def word_le_nat_alt)
    have "unat (heap_current hh) + unat sz \<le> unat (heap_limit hh)"
      using next_page[OF lim(1,2)] s(2,3) L(1) unfolding h by simp
    moreover have "unat (heap_current hh + sz) = unat (heap_current hh) + unat sz"
      using calculation lim(3) by (intro unat_add_small) simp
    ultimately have "\<not> heap_limit hh < heap_current hh + sz" by (simp add: word_less_nat_alt)
    then show ?thesis using u L(1,6) unfolding h by (auto simp: port_morecore_eq)
  qed
  show "\<exists>h'. port_morecore alloc ptr (- sz) h = (port_brk h, h') \<and> port_live pages alloc lim h' \<and> port_brk h' = port_brk h - sz"
    if s: "sz \<noteq> 0" "port_lo + unat sz \<le> unat (port_brk h)"
  proof -
    have le: "unat INITIAL_BASE + unat sz \<le> unat (heap_current hh)" using s(2) L(1) unfolding h port_lo_def by simp
    have u: "unat (heap_current hh - sz) = unat (heap_current hh) - unat sz" using le by (intro unat_sub_small) simp
    have ok: "INITIAL_BASE \<le> heap_current hh - sz" "heap_current hh - sz \<le> heap_current hh" using u le by (simp_all add: word_le_nat_alt)
    have lim: "heap_current hh \<le> heap_limit hh" using a unfolding h by (simp add: heap_ok_def)
    have ng: "\<not> heap_limit hh < heap_current hh - sz" using ok(2) lim by (meson leD order_trans)
    let ?h = "log_sbrk (LogSbrk (- sz) (heap_current hh)) (hh\<lparr>heap_current := heap_current hh - sz\<rparr>)"
    have e: "ub_sbrk alloc (- sz) f hh = (heap_current hh, ?h, f)"
      using s(1) L(2) ng by (simp add: ub_sbrk_def sbrk_first_def sbrk_grow_def Let_def)
    have "port_live pages alloc lim (?h, f, r\<lparr>sys_errno := 0\<rparr>)"
      using a ok lim unfolding h by (auto simp: log_sbrk_def heap_ok_def)
    then show ?thesis using e L(1,2) unfolding h by (simp add: port_morecore_eq break_of_def log_sbrk_def)
  qed
next
  fix h :: "'f port_heap"
  obtain hh f r where h: "h = (hh, f, r)" by (cases h)
  assume a: "port_fresh pages alloc lim h \<or> port_live pages alloc lim h"
  then have R: "lim < 2 ^ 62" unfolding h by auto
  show "lim < 2 ^ 62" by (rule R)
  show "port_lo \<le> unat (port_brk h) \<and> unat (port_brk h) \<le> lim"
    using a live_break[of pages alloc lim hh f r] unfolding h by (auto simp: port_lo_def break_of_def INITIAL_BASE_def)
qed

end
