(* ===== verification/Malloc_Client.thy ===== *)
theory Malloc_Client
  imports Malloc_Port
begin

text \<open>
  The allocator as its client sees it: the state the program starts in, stores into the blocks in
  use, and runs of requests, releases and stores.
\<close>

subsection \<open>The statics at the start\<close>

lemma init_long:
  assumes "j < 258"
  shows "mlong (malloc_init a m h) (a + 8 * of_nat j) = av_init a (of_nat j)"
proof -
  have u: "unat (8 * of_nat j :: u64) = 8 * j" using assms by (simp add: unat_word_ariths unat_of_nat)
  have "(8 * of_nat j :: u64) div 8 = of_nat j"
  proof -
    have "unat ((8 * of_nat j :: u64) div 8) = j" using u by (simp add: unat_div)
    moreover have "unat (of_nat j :: u64) = j" using assms by (simp add: unat_of_nat)
    ultimately show ?thesis by (metis word_unat_eq_iff)
  qed
  moreover have "(8 * of_nat j :: u64) < 8 * of_nat (2 * NAV + 2)" using u assms by (simp add: word_less_nat_alt NAV_def)
  ultimately show ?thesis by (simp add: malloc_init_def)
qed

lemma init_cell:
  assumes "1 \<le> i" and "i < 129"
  shows "av_init a (of_nat (2 * i)) = a + 16 * of_nat (i - 1)" "av_init a (of_nat (2 * i + 1)) = a + 16 * of_nat (i - 1)"
proof -
  obtain n where n: "i = Suc n" using assms(1) by (cases i) auto
  have two: "unat (of_nat (2 * i) :: u64) = 2 * i" "unat (of_nat (2 * i + 1) :: u64) = 2 * i + 1"
    using assms(2) by (simp_all add: unat_of_nat del: of_nat_add of_nat_mult of_nat_Suc)
  have ge: "\<not> (of_nat (2 * i) :: u64) < 2" "\<not> (of_nat (2 * i + 1) :: u64) < 2"
    using two assms(1) by (simp_all add: word_less_nat_alt del: of_nat_add of_nat_mult of_nat_Suc)
  have "unat (of_nat (2 * i) mod 2 :: u64) = 0" "unat (of_nat (2 * i + 1) mod 2 :: u64) = 1"
    using two by (simp_all add: unat_mod del: of_nat_add of_nat_mult of_nat_Suc)
  then have m: "(of_nat (2 * i) :: u64) mod 2 = 0" "(of_nat (2 * i + 1) :: u64) mod 2 = 1"
    by (metis unat_eq_zero, metis unat_1 word_unat_eq_iff)
  have "a + 8 * of_nat (2 * i) - 16 = a + 16 * of_nat (i - 1)" unfolding n by (simp add: algebra_simps)
  then show "av_init a (of_nat (2 * i)) = a + 16 * of_nat (i - 1)" "av_init a (of_nat (2 * i + 1)) = a + 16 * of_nat (i - 1)"
    using ge m by (simp_all add: av_init_def SIZE_SZ_def)
qed

lemma unstarted_init: "unstarted (malloc_init a m h)"
proof -
  let ?s = "malloc_init a m h"
  have av: "av ?s = a" "sbrk_base ?s = - 1" by (simp_all add: malloc_init_def)
  have even: "mlong ?s (a + 16 * of_nat i + 16) = a + 16 * of_nat i" "mlong ?s (a + 16 * of_nat i + 24) = a + 16 * of_nat i" if "i < 128" for i
  proof -
    have e: "a + 16 * of_nat i + 16 = a + 8 * of_nat (2 * Suc i)" "a + 16 * of_nat i + 24 = a + 8 * of_nat (2 * Suc i + 1)"
      by (simp_all add: algebra_simps)
    show "mlong ?s (a + 16 * of_nat i + 16) = a + 16 * of_nat i" "mlong ?s (a + 16 * of_nat i + 24) = a + 16 * of_nat i"
      unfolding e using init_long[of "2 * Suc i" a m h] init_long[of "2 * Suc i + 1" a m h] init_cell[of "Suc i" a] that
      by (simp_all del: of_nat_Suc of_nat_add of_nat_mult)
  qed
  have "mlong ?s (a + 8) = 0" using init_long[of 1 a m h] by (simp add: av_init_def)
  then have "binblocks ?s = 0" by (simp add: binblocks_def head_def bin_at_eq av)
  moreover have "top ?s = bin_at ?s 0" using even(1)[of 0] by (simp add: top_def fd_def bin_at_eq av)
  ultimately show ?thesis using even unfolding unstarted_def fd_def bk_def bin_at_eq av by simp
qed

definition heap_start :: "u64 \<Rightarrow> longs \<Rightarrow> 'f \<Rightarrow> reents \<Rightarrow> 'f port_heap mstate" where
  "heap_start a m f r = malloc_init a m (heap_init, f, r)"

text \<open>The machine at the start of the program: its firmware keeps the contract, the first pages of the
  heap are there, and the heap with all pages the machine has left would end below \<open>lim\<close>.\<close>

definition boots :: "('f \<Rightarrow> nat) \<Rightarrow> 'f firmware \<Rightarrow> 'f \<Rightarrow> nat \<Rightarrow> bool" where
  "boots pages alloc f lim \<longleftrightarrow> allocates_pages pages alloc \<and> low_pages_free alloc f \<and>
     unat INITIAL_BASE + 4096 * pages f \<le> lim \<and> lim < 2 ^ 62"

lemma arena_state_start:
  assumes "boots pages alloc f lim" and "arena a port_lo lim"
  shows "arena_state (port_fresh pages alloc lim) (port_live pages alloc lim) port_brk port_lo lim Map.empty (heap_start a m f r)"
proof -
  have "port_fresh pages alloc lim (heap_init, f, r)" using assms(1) by (simp add: boots_def heap_init_def)
  moreover have "aligned (port_brk (heap_init, f, r))" by (simp add: break_of_def heap_init_def INITIAL_BASE_def aligned_def)
  ultimately show ?thesis
    unfolding arena_state_def heap_start_def using unstarted_init[of a m "(heap_init, f, r)"] assms(2)
    by (simp add: malloc_init_def)
qed

subsection \<open>What the invariant says of the blocks\<close>

lemma arena_blocks:
  assumes a: "arena_state fresh live brk lo lim B s" and p: "B p = Some sz"
  shows "aligned (chunk2mem p)" "chunk2mem p \<noteq> 0" "lo \<le> unat p" "unat p + unat sz + 32 \<le> lim" "32 \<le> unat sz" "chunksize s p = sz"
    "unat (chunk2mem p) = unat p + 16"
proof -
  obtain base tp tsz cm where ok: "malloc_ok lim base tp tsz cm s" "lo \<le> unat base" "B = blocks_of cm"
    using a p unfolding arena_state_def by auto
  note D = malloc_okD[OF ok(1)]
  have cp: "cm p = Some (sz, True)" using p ok(3) blocks_ofD by blast
  note P = layoutD[OF D(1) cp]
  have c: "chunk2mem p = p + 16" by (simp add: chunk2mem_def SIZE_SZ_def)
  show u: "unat (chunk2mem p) = unat p + 16" unfolding c using unat_plus[OF ok(1), of p 16] cp by auto
  show "aligned (chunk2mem p)" unfolding c by (rule aligned_add[OF P(1) aligned_numerals(2)])
  show "chunk2mem p \<noteq> 0" using u by (metis add_is_0 unat_0 zero_neq_numeral)
  show "lo \<le> unat p" "unat p + unat sz + 32 \<le> lim" "32 \<le> unat sz" using ok(2) P(3-5) D(4,5) by linarith+
  show "chunksize s p = sz" by (rule heads_chunksize[OF D(6,1) cp])
qed

text \<open>The blocks lie below the break, with the top chunk behind them.\<close>

lemma arena_break:
  assumes a: "arena_state fresh live brk lo lim B s" and p: "B p = Some sz"
  shows "live (system s)" "unat p + unat sz + 32 \<le> unat (brk (system s))"
proof -
  obtain base tp tsz cm where ok: "malloc_ok lim base tp tsz cm s" "grown live brk lo tp tsz s" "B = blocks_of cm"
    using a p unfolding arena_state_def by auto
  note D = malloc_okD[OF ok(1)]
  have cp: "cm p = Some (sz, True)" using p ok(3) blocks_ofD by blast
  show "live (system s)" using ok(2) by (simp add: grown_def)
  show "unat p + unat sz + 32 \<le> unat (brk (system s))"
    using layoutD(3-5)[OF D(1) cp] D(4,5) ok(2) unfolding grown_def by linarith
qed

lemma arena_disjoint:
  assumes a: "arena_state fresh live brk lo lim B s" and "B p = Some sz" and "B q = Some sz'" and "p \<noteq> q"
  shows "unat p + unat sz \<le> unat q \<or> unat q + unat sz' \<le> unat p"
proof -
  obtain base tp tsz cm where ok: "malloc_ok lim base tp tsz cm s" "B = blocks_of cm"
    using a assms(2) unfolding arena_state_def by auto
  then show ?thesis using layout_disjoint[OF malloc_okD(1)[OF ok(1)]] assms(2-4) blocks_ofD by metis
qed

text \<open>The invariant reads only memory the allocator owns.\<close>

lemma malloc_ok_reads:
  assumes ok: "malloc_ok lim base tp tsz cm s" and e: "\<And>x. x \<in> owned (av s) lim tp cm \<Longrightarrow> mlong s' x = mlong s x" and "av s' = av s"
  shows "malloc_ok lim base tp tsz cm s'"
proof -
  note D = malloc_okD[OF ok]
  have avr: "mlong s' x = mlong s x" if "in_av (av s) x" for x using e that unfolding owned_def by blast
  have hd: "head s' q = head s q" if "q \<in> insert tp (dom cm)" for q
    using e[OF owned_head[OF ok that]] by (simp add: head_def)
  have top: "top s' = top s" "binblocks s' = binblocks s"
    using avr in_av_statics[of "av s"] assms(3) by (simp_all add: top_def fd_def binblocks_def head_def bin_at_eq)
  have fb: "fd s' q = fd s q \<and> bk s' q = bk s q" if "q \<in> free_set cm \<union> bins (av s)" for q
  proof -
    have "q + 16 \<in> linkset (av s) cm" "q + 24 \<in> linkset (av s) cm" using that unfolding linkset_def by blast+
    then show ?thesis using e linkset_owned[OF ok] unfolding fd_def bk_def by blast
  qed
  have ps: "prev_size s' (p + sz) = prev_size s (p + sz)" if "cm p = Some (sz, False)" for p sz
  proof -
    have "p + sz \<in> owned (av s) lim tp cm"
      using owned_free[OF ok that, of "p + sz" "unat sz"] layoutD(3,7)[OF D(1) that] by simp
    then show ?thesis using e by (simp add: prev_size_def)
  qed
  have "hsize (head s' p) = sz \<and> (pbit (head s' (p + sz)) \<longleftrightarrow> u) \<and>
      (\<not> u \<longrightarrow> prev_size s' (p + sz) = sz \<and> (\<exists>sz'. cm (p + sz) = Some (sz', True)))" if c: "cm p = Some (sz, u)" for p sz u
  proof -
    have "p \<in> insert tp (dom cm)" using c by auto
    then have "head s' p = head s p" "head s' (p + sz) = head s (p + sz)" using hd layout_next_in[OF D(1) c] by blast+
    then show ?thesis using headsD(4,5)[OF D(6) c] headsD(6,7)[OF D(6), of p sz] ps[of p sz] c by (cases u) auto
  qed
  then have "heads s' base tp tsz cm"
    unfolding heads_def using headsD(1-3)[OF D(6)] hd[OF layout_base_in[OF D(1)]] hd[of tp] top(1) by simp
  moreover have "links s' cm" by (rule links_cong[OF D(7)]) (use fb assms(3) in auto)
  ultimately show ?thesis unfolding malloc_ok_def using D assms(3) top by simp
qed

lemma arena_store:
  assumes a: "arena_state fresh live brk lo lim B s" and p: "B p = Some sz" and x: "x \<in> user p sz"
  shows "arena_state fresh live brk lo lim B (set_long x v s)"
proof -
  obtain base tp tsz cm where ok: "malloc_ok lim base tp tsz cm s" "lo \<le> unat base" "grown live brk lo tp tsz s" "B = blocks_of cm"
    using a p unfolding arena_state_def by auto
  note D = malloc_okD[OF ok(1)]
  have cp: "cm p = Some (sz, True)" using p ok(4) blocks_ofD by blast
  have "unat tp + 32 \<le> lim" using D(4,5) by linarith
  then have "x \<notin> owned (av s) lim tp cm" using user_not_owned[OF D(1,2) _ cp x] by blast
  then have "malloc_ok lim base tp tsz cm (set_long x v s)"
    by (intro malloc_ok_reads[OF ok(1)]) (auto simp: mlong_set_long)
  then show ?thesis using a ok(2-4) unfolding arena_state_def grown_def by auto
qed

end
