(* ===== verification/Malloc_Ops.thy ===== *)
theory Malloc_Ops
  imports Malloc_Client
begin

text \<open>
  The other entry points of \<open>_mallocr.c\<close> (\<open>calloc\<close>, \<open>realloc\<close>, \<open>memalign\<close>, \<open>pvalloc\<close>, \<open>mallopt\<close>,
  \<open>malloc_usable_size\<close>) and the functions on top of them (\<open>reallocf\<close>, \<open>reallocarray\<close>,
  \<open>aligned_alloc\<close>).  \<open>rerrno\<close> stands for \<open>errno\<close>, which \<open>calloc\<close> and \<open>reallocarray\<close> set, as well as for
  the field of the caller's block.
\<close>

subsection \<open>Clearing and copying longs\<close>

fun zero_longs :: "nat \<Rightarrow> u64 \<Rightarrow> 'h mstate \<Rightarrow> 'h mstate" where
  "zero_longs 0 mz s = s"
| "zero_longs (Suc n) mz s = zero_longs n (mz + 8) (set_long mz 0 s)"

fun copy_longs :: "nat \<Rightarrow> u64 \<Rightarrow> u64 \<Rightarrow> 'h mstate \<Rightarrow> 'h mstate" where
  "copy_longs 0 mcdst mcsrc s = s"
| "copy_longs (Suc n) mcdst mcsrc s = copy_longs n (mcdst + 8) (mcsrc + 8) (set_long mcdst (mlong s mcsrc) s)"

text \<open>The number of longs the unrolled part of the macros handles.\<close>

definition unrolled :: "u64 \<Rightarrow> nat" where
  "unrolled sz = (if 5 * SIZE_SZ \<le> sz then 2 + (if 7 * SIZE_SZ \<le> sz then 2 + (if 9 * SIZE_SZ \<le> sz then 2 else 0) else 0) else 0) + 3"

definition MALLOC_ZERO :: "u64 \<Rightarrow> u64 \<Rightarrow> 'h mstate \<Rightarrow> 'h mstate" where
  "MALLOC_ZERO charp mzsz s =
     (if mzsz \<le> 9 * SIZE_SZ then zero_longs (unrolled mzsz) charp s else zero_longs (unat mzsz div 8) charp s)"

text \<open>\<open>memmove\<close> reads all longs before it writes them.\<close>

definition move_longs :: "nat \<Rightarrow> u64 \<Rightarrow> u64 \<Rightarrow> 'h mstate \<Rightarrow> 'h mstate" where
  "move_longs n dest src s =
     s\<lparr>mlong := (\<lambda>x. if unat (x - dest) < 8 * n \<and> 8 dvd unat (x - dest) then mlong s (src + (x - dest)) else mlong s x)\<rparr>"

definition MALLOC_COPY :: "u64 \<Rightarrow> u64 \<Rightarrow> u64 \<Rightarrow> 'h mstate \<Rightarrow> 'h mstate" where
  "MALLOC_COPY dest src mcsz s =
     (if mcsz \<le> 9 * SIZE_SZ then copy_longs (unrolled mcsz) dest src s else move_longs (unat mcsz div 8) dest src s)"

subsection \<open>calloc\<close>

definition cALLOc :: "'h morecore \<Rightarrow> nat \<Rightarrow> u64 \<Rightarrow> u64 \<Rightarrow> 'h mstate \<Rightarrow> (u64 \<times> 'h mstate) res" where
  "cALLOc mc k n elem_size s =
     (if 2 ^ 64 \<le> unat n * unat elem_size then Ok (0, s\<lparr>rerrno := ENOMEM\<rparr>)
      else bnd (mALLOc mc k (n * elem_size) s) (\<lambda>(mem, s).
        if mem = 0 then Ok (0, s)
        else let p = mem2chunk mem; csz = chunksize s p in Ok (mem, MALLOC_ZERO mem (csz - SIZE_SZ) s)))"

subsection \<open>realloc\<close>

datatype 'h grow = Done u64 "'h mstate" | To_split u64 u64 "'h mstate" | Must_allocate "'h mstate"

text \<open>Behind the label \<open>split\<close>: extra room in the old or expanded chunk is given back.\<close>

definition realloc_split :: "'h morecore \<Rightarrow> nat \<Rightarrow> u64 \<Rightarrow> u64 \<Rightarrow> u64 \<Rightarrow> 'h mstate \<Rightarrow> (u64 \<times> 'h mstate) res" where
  "realloc_split mc k newp newsize nb s =
     (let remainder_size = newsize - nb
      in if MINSIZE \<le>s remainder_size
         then let remainder = chunk_at_offset newp nb; s = set_head_size newp nb s;
                  s = set_head remainder (remainder_size OR PREV_INUSE) s;
                  s = set_inuse_bit_at_offset remainder remainder_size s
              in bnd (fREe mc k (chunk2mem remainder) s) (\<lambda>s. Ok (chunk2mem newp, MALLOC_UNLOCK s))
         else let s = set_head_size newp newsize s; s = set_inuse_bit_at_offset newp newsize s
              in Ok (chunk2mem newp, MALLOC_UNLOCK s))"

text \<open>Expanding forward, into the top or a free chunk; \<open>None\<close> for \<open>next\<close> that is in use.\<close>

definition realloc_forward :: "u64 \<Rightarrow> u64 \<Rightarrow> u64 \<Rightarrow> 'h mstate \<Rightarrow> 'h grow \<times> (u64 \<times> u64) option" where
  "realloc_forward oldp oldsize nb s =
     (let nxt = chunk_at_offset oldp oldsize
      in if nxt = top s \<or> \<not> inuse s nxt
         then let nextsize = chunksize s nxt
           in if nxt = top s
              then if nb + MINSIZE \<le>s nextsize + oldsize
                   then let newsize = oldsize + nextsize; s = set_top (chunk_at_offset oldp nb) s;
                            s = set_head (top s) ((newsize - nb) OR PREV_INUSE) s; s = set_head_size oldp nb s
                        in (Done (chunk2mem oldp) (MALLOC_UNLOCK s), None)
                   else (Must_allocate s, Some (nxt, nextsize))
              else if nb \<le>s nextsize + oldsize
                   then (To_split oldp (oldsize + nextsize) (unlink nxt s), None)
                   else (Must_allocate s, Some (nxt, nextsize))
         else (Must_allocate s, None))"

text \<open>Shifting backwards, with what is behind first.\<close>

definition realloc_backward :: "u64 \<Rightarrow> u64 \<Rightarrow> u64 \<Rightarrow> (u64 \<times> u64) option \<Rightarrow> u64 \<Rightarrow> 'h mstate \<Rightarrow> 'h grow" where
  "realloc_backward oldmem oldp oldsize nx nb s =
     (if prev_inuse s oldp then Must_allocate s
      else let prv = prev_chunk s oldp; prevsize = chunksize s prv; newmem = chunk2mem prv;
               only = (if prv \<noteq> 0 \<and> nb \<le>s prevsize + oldsize
                       then To_split prv (oldsize + prevsize) (MALLOC_COPY newmem oldmem (oldsize - SIZE_SZ) (unlink prv s))
                       else Must_allocate s)
        in case nx of
             Some (nxt, nextsize) \<Rightarrow>
               (if nxt = top s
                then if nb + MINSIZE \<le>s nextsize + prevsize + oldsize
                     then let s = MALLOC_COPY newmem oldmem (oldsize - SIZE_SZ) (unlink prv s);
                              newsize = oldsize + (prevsize + nextsize); s = set_top (chunk_at_offset prv nb) s;
                              s = set_head (top s) ((newsize - nb) OR PREV_INUSE) s; s = set_head_size prv nb s
                          in Done newmem (MALLOC_UNLOCK s)
                     else only
                else if nb \<le>s nextsize + prevsize + oldsize
                     then To_split prv (oldsize + (nextsize + prevsize))
                            (MALLOC_COPY newmem oldmem (oldsize - SIZE_SZ) (unlink prv (unlink nxt s)))
                     else only)
           | None \<Rightarrow> only)"

text \<open>A new block, unless it is the chunk behind the old one.\<close>

definition realloc_move :: "'h morecore \<Rightarrow> nat \<Rightarrow> u64 \<Rightarrow> u64 \<Rightarrow> u64 \<Rightarrow> u64 \<Rightarrow> u64 \<Rightarrow> 'h mstate \<Rightarrow> (u64 \<times> 'h mstate) res" where
  "realloc_move mc k oldmem oldp oldsize bytes nb s =
     bnd (mALLOc mc k bytes s) (\<lambda>(newmem, s).
       if newmem = 0 then Ok (0, MALLOC_UNLOCK s)
       else let newp = mem2chunk newmem
         in if newp = next_chunk s oldp then realloc_split mc k oldp (oldsize + chunksize s newp) nb s
            else let s = MALLOC_COPY newmem oldmem (oldsize - SIZE_SZ) s
              in bnd (fREe mc k oldmem s) (\<lambda>s. Ok (newmem, MALLOC_UNLOCK s)))"

definition rEALLOc :: "'h morecore \<Rightarrow> nat \<Rightarrow> u64 \<Rightarrow> u64 \<Rightarrow> 'h mstate \<Rightarrow> (u64 \<times> 'h mstate) res" where
  "rEALLOc mc k oldmem bytes s =
     (if oldmem = 0 then mALLOc mc k bytes s
      else let s = MALLOC_LOCK s; oldp = mem2chunk oldmem; oldsize = chunksize s oldp; nb = request2size bytes
        in if INT_MAX < nb \<or> nb < bytes then Ok (0, s\<lparr>rerrno := ENOMEM\<rparr>)
           else if oldsize <s nb
           then case realloc_forward oldp oldsize nb s of
                  (Done mem s, _) \<Rightarrow> Ok (mem, s)
                | (To_split newp newsize s, _) \<Rightarrow> realloc_split mc k newp newsize nb s
                | (Must_allocate s, nx) \<Rightarrow> (case realloc_backward oldmem oldp oldsize nx nb s of
                    Done mem s \<Rightarrow> Ok (mem, s)
                  | To_split newp newsize s \<Rightarrow> realloc_split mc k newp newsize nb s
                  | Must_allocate s \<Rightarrow> realloc_move mc k oldmem oldp oldsize bytes nb s)
           else realloc_split mc k oldp oldsize nb s)"

definition reallocf_r :: "'h morecore \<Rightarrow> nat \<Rightarrow> u64 \<Rightarrow> u64 \<Rightarrow> 'h mstate \<Rightarrow> (u64 \<times> 'h mstate) res" where
  "reallocf_r mc k ptr sz s =
     bnd (rEALLOc mc k ptr sz s) (\<lambda>(nptr, s).
       if nptr = 0 \<and> ptr \<noteq> 0 then bnd (fREe mc k ptr s) (\<lambda>s. Ok (nptr, s)) else Ok (nptr, s))"

text \<open>\<open>bytes\<close> is a \<open>ptrdiff_t\<close>, so a product of half the address space or more counts as an overflow.\<close>

definition reallocarray :: "'h morecore \<Rightarrow> nat \<Rightarrow> u64 \<Rightarrow> u64 \<Rightarrow> u64 \<Rightarrow> 'h mstate \<Rightarrow> (u64 \<times> 'h mstate) res" where
  "reallocarray mc k optr nmemb sz s =
     (if 2 ^ 63 \<le> unat nmemb * unat sz then Ok (0, s\<lparr>rerrno := ENOMEM\<rparr>) else rEALLOc mc k optr (nmemb * sz) s)"

subsection \<open>memalign\<close>

text \<open>The leading space of a misaligned block is given back.\<close>

definition memalign_lead :: "'h morecore \<Rightarrow> nat \<Rightarrow> u64 \<Rightarrow> u64 \<Rightarrow> 'h mstate \<Rightarrow> (u64 \<times> 'h mstate) res" where
  "memalign_lead mc k alignment m s =
     (let p = mem2chunk m
      in if m mod alignment = 0 then Ok (p, s)
         else let brk = mem2chunk ((m + alignment - 1) AND - alignment);
                  brk = (if brk - p <s MINSIZE then brk + alignment else brk);
                  newp = brk; leadsize = brk - p; newsize = chunksize s p - leadsize;
                  s = set_head newp (newsize OR PREV_INUSE) s; s = set_inuse_bit_at_offset newp newsize s;
                  s = set_head_size p leadsize s
              in bnd (fREe mc k (chunk2mem p) s) (\<lambda>s. Ok (newp, s)))"

definition mEMALIGn :: "'h morecore \<Rightarrow> nat \<Rightarrow> u64 \<Rightarrow> u64 \<Rightarrow> 'h mstate \<Rightarrow> (u64 \<times> 'h mstate) res" where
  "mEMALIGn mc k alignment bytes s =
     (if alignment \<le> MALLOC_ALIGNMENT then mALLOc mc k bytes s
      else let alignment = (if alignment < MINSIZE then MINSIZE else alignment); nb = request2size bytes
        in if - 1 - (alignment + MINSIZE) < nb \<or> nb < bytes then Ok (0, s\<lparr>rerrno := ENOMEM\<rparr>)
           else bnd (mALLOc mc k (nb + alignment + MINSIZE) s) (\<lambda>(m, s).
             if m = 0 then Ok (0, s)
             else bnd (memalign_lead mc k alignment m (MALLOC_LOCK s)) (\<lambda>(p, s).
               let remainder_size = chunksize s p - nb
               in if MINSIZE \<le>s remainder_size
                  then let remainder = chunk_at_offset p nb; s = set_head remainder (remainder_size OR PREV_INUSE) s;
                           s = set_head_size p nb s
                       in bnd (fREe mc k (chunk2mem remainder) s) (\<lambda>s. Ok (chunk2mem p, MALLOC_UNLOCK s))
                  else Ok (chunk2mem p, MALLOC_UNLOCK s))))"

definition vALLOc :: "'h morecore \<Rightarrow> nat \<Rightarrow> u64 \<Rightarrow> 'h mstate \<Rightarrow> (u64 \<times> 'h mstate) res" where
  "vALLOc mc k bytes s = mEMALIGn mc k malloc_getpagesize bytes s"

definition pvALLOc :: "'h morecore \<Rightarrow> nat \<Rightarrow> u64 \<Rightarrow> 'h mstate \<Rightarrow> (u64 \<times> 'h mstate) res" where
  "pvALLOc mc k bytes s =
     (let pagesize = malloc_getpagesize
      in if - 1 - pagesize < bytes then Ok (0, s\<lparr>rerrno := ENOMEM\<rparr>)
         else mEMALIGn mc k pagesize ((bytes + pagesize - 1) AND NOT (pagesize - 1)) s)"

definition aligned_alloc :: "'h morecore \<Rightarrow> nat \<Rightarrow> u64 \<Rightarrow> u64 \<Rightarrow> 'h mstate \<Rightarrow> (u64 \<times> 'h mstate) res" where
  "aligned_alloc mc k al sz s = mEMALIGn mc k al sz s"

subsection \<open>Information and options\<close>

definition malloc_usable_size :: "u64 \<Rightarrow> 'h mstate \<Rightarrow> u64" where
  "malloc_usable_size mem s =
     (if mem = 0 then 0
      else let p = mem2chunk mem
        in if head s p AND 2 = 0 then (if \<not> inuse s p then 0 else chunksize s p - SIZE_SZ)
           else chunksize s p - 2 * SIZE_SZ)"

definition M_TRIM_THRESHOLD :: u32 where "M_TRIM_THRESHOLD = - 1"
definition M_TOP_PAD :: u32 where "M_TOP_PAD = - 2"
definition M_MMAP_THRESHOLD :: u32 where "M_MMAP_THRESHOLD = - 3"
definition M_MMAP_MAX :: u32 where "M_MMAP_MAX = - 4"

definition mALLOPt :: "u32 \<Rightarrow> u32 \<Rightarrow> 'h mstate \<Rightarrow> u32 \<times> 'h mstate" where
  "mALLOPt param_number value s =
     (let s = MALLOC_LOCK s
      in if param_number = M_TRIM_THRESHOLD then (1, MALLOC_UNLOCK (s\<lparr>trim_threshold := scast value\<rparr>))
         else if param_number = M_TOP_PAD then (1, MALLOC_UNLOCK (s\<lparr>top_pad := scast value\<rparr>))
         else if param_number = M_MMAP_THRESHOLD then (1, MALLOC_UNLOCK s)
         else if param_number = M_MMAP_MAX then (if value = 0 then 1 else 0, MALLOC_UNLOCK s)
         else (0, MALLOC_UNLOCK s))"

end
