(* ===== verification/Malloc_Resize.thy ===== *)
theory Malloc_Resize
  imports Malloc_Ops
begin

text \<open>What \<open>calloc\<close> does: a block from \<open>malloc\<close>, cleared.\<close>

subsection \<open>Clearing a block\<close>

lemma user_disjoint:
  assumes "arena_state fresh live brk lo lim B s" and "B p = Some sz" and "B q = Some sz'" and "p \<noteq> q" and "x \<in> user p sz"
  shows "x \<notin> user q sz'"
  using arena_disjoint[OF assms(1-4)] assms(5) unfolding user_def by auto

lemma zero_longs_long:
  "mlong (zero_longs n m s) x = (if \<exists>j < n. x = m + 8 * of_nat j then 0 else mlong s x)"
proof (induction n arbitrary: m s)
  case (Suc n)
  have e: "(\<exists>j < Suc n. x = m + 8 * of_nat j) \<longleftrightarrow> x = m \<or> (\<exists>j < n. x = m + 8 + 8 * of_nat j)"
    unfolding Ex_less_Suc2 by (simp add: algebra_simps)
  show ?case unfolding zero_longs.simps Suc.IH e mlong_set_long by (simp only: split: if_split) blast
qed simp

lemma zero_longs_av: "av (zero_longs n m s) = av s" "lock_depth (zero_longs n m s) = lock_depth s" "rerrno (zero_longs n m s) = rerrno s"
  by (induction n arbitrary: m s) simp_all

lemma zero_longs_arena:
  "arena_state fresh live brk lo lim B s \<Longrightarrow> B p = Some sz \<Longrightarrow> (\<And>j. j < n \<Longrightarrow> m + 8 * of_nat j \<in> user p sz) \<Longrightarrow>
    arena_state fresh live brk lo lim B (zero_longs n m s)"
proof (induction n arbitrary: m s)
  case (Suc n)
  have "m \<in> user p sz" using Suc.prems(3)[of 0] by simp
  then have a: "arena_state fresh live brk lo lim B (set_long m 0 s)" by (rule arena_store[OF Suc.prems(1,2)])
  have "m + 8 + 8 * of_nat j \<in> user p sz" if "j < n" for j
    using Suc.prems(3)[of "Suc j"] that by (simp add: algebra_simps)
  then show ?case using Suc.IH[OF a Suc.prems(2)] by simp
qed simp

text \<open>The macro clears the whole block, up to the head of the next chunk.\<close>

lemma unrolled_all:
  assumes "aligned sz" and "32 \<le> unat sz"
  shows "MALLOC_ZERO m (sz - SIZE_SZ) s = zero_longs (unat sz div 8 - 1) m s"
proof -
  obtain q where q: "unat sz = 16 * q" using assms(1) unfolding aligned_def by (auto elim: dvdE)
  have u: "unat (sz - SIZE_SZ) = unat sz - 8" using assms(2) by (subst unat_sub_small) (simp_all add: SIZE_SZ_def)
  have d: "(16 * q - 8) div 8 = 16 * q div 8 - 1" for q :: nat by presburger
  show ?thesis
  proof (cases "unat sz \<le> 80")
    case True
    then have "q = 2 \<or> q = 3 \<or> q = 4 \<or> q = 5" using q assms(2) by linarith
    then show ?thesis using u q by (auto simp: MALLOC_ZERO_def unrolled_def SIZE_SZ_def word_le_nat_alt)
  next
    case False
    then have "\<not> sz - SIZE_SZ \<le> 9 * SIZE_SZ" using u by (simp add: word_le_nat_alt SIZE_SZ_def)
    then show ?thesis using u q d[of q] by (simp add: MALLOC_ZERO_def)
  qed
qed

lemma clear_block_ok:
  assumes a: "arena_state fresh live brk lo lim B s" and p: "B p = Some sz"
  shows "arena_state fresh live brk lo lim B (MALLOC_ZERO (chunk2mem p) (sz - SIZE_SZ) s)"
    "kept (B(p := None)) s (MALLOC_ZERO (chunk2mem p) (sz - SIZE_SZ) s)"
    "8 * j + 8 < unat sz \<Longrightarrow> mlong (MALLOC_ZERO (chunk2mem p) (sz - SIZE_SZ) s) (chunk2mem p + 8 * of_nat j) = 0"
    "lock_depth (MALLOC_ZERO (chunk2mem p) (sz - SIZE_SZ) s) = lock_depth s"
proof -
  note P = arena_blocks[OF a p]
  obtain base tp tsz cm where ok: "malloc_ok lim base tp tsz cm s" "B = blocks_of cm"
    using a p unfolding arena_state_def by auto
  have cp: "cm p = Some (sz, True)" using p ok(2) blocks_ofD by blast
  have al: "aligned sz" by (rule malloc_ok_size(3)[OF ok(1) cp])
  have lim: "lim < 2 ^ 62" by (rule malloc_okD(8)[OF ok(1)])
  let ?n = "unat sz div 8 - 1"
  have e: "MALLOC_ZERO (chunk2mem p) (sz - SIZE_SZ) s = zero_longs ?n (chunk2mem p) s" by (rule unrolled_all[OF al P(5)])
  have in_user: "chunk2mem p + 8 * of_nat j \<in> user p sz" if "j < ?n" for j
  proof -
    have j: "8 * j + 8 < unat sz" using that by linarith
    then have "unat (8 * of_nat j :: u64) = 8 * j" using P(4) lim by (simp add: unat_word_ariths unat_of_nat)
    then have "unat (chunk2mem p + 8 * of_nat j) = unat p + 16 + 8 * j" using P(4,7) lim j by (simp add: unat_add_small)
    then show ?thesis using j unfolding user_def by simp
  qed
  show "arena_state fresh live brk lo lim B (MALLOC_ZERO (chunk2mem p) (sz - SIZE_SZ) s)"
    unfolding e by (rule zero_longs_arena[OF a p in_user])
  show "kept (B(p := None)) s (MALLOC_ZERO (chunk2mem p) (sz - SIZE_SZ) s)"
    unfolding kept_def e
  proof (intro allI impI ballI)
    fix q sz' x
    assume qx: "(B(p := None)) q = Some sz' \<and> x \<in> user q sz'"
    then have x: "x \<in> user q sz'" by simp
    from qx have "q \<noteq> p" "B q = Some sz'" by (auto split: if_splits)
    then have "\<not> (\<exists>j < ?n. x = chunk2mem p + 8 * of_nat j)"
      using user_disjoint[OF a _ p _ x] in_user by blast
    then show "mlong (zero_longs ?n (chunk2mem p) s) x = mlong s x" by (simp only: zero_longs_long if_False)
  qed
  show "mlong (MALLOC_ZERO (chunk2mem p) (sz - SIZE_SZ) s) (chunk2mem p + 8 * of_nat j) = 0" if "8 * j + 8 < unat sz"
  proof -
    obtain q where q: "unat sz = 16 * q" using al unfolding aligned_def by (auto elim: dvdE)
    then have "unat sz div 8 = 2 * q" by simp
    then have "\<exists>i < ?n. chunk2mem p + 8 * of_nat j = chunk2mem p + 8 * of_nat i" using that q by (intro exI[of _ j]) simp
    then show ?thesis unfolding e zero_longs_long by (rule if_P)
  qed
  show "lock_depth (MALLOC_ZERO (chunk2mem p) (sz - SIZE_SZ) s) = lock_depth s" unfolding e by (rule zero_longs_av)
qed

lemma kept_mono: "kept B' s s' \<Longrightarrow> (\<And>p sz. B p = Some sz \<Longrightarrow> B' p = Some sz) \<Longrightarrow> kept B s s'"
  unfolding kept_def by blast

context morecore
begin

theorem calloc_works:
  assumes a: "arena_state fresh live brk lo lim B s" and k: "lim div 32 + 130 \<le> k"
  shows "\<exists>m s' B'. cALLOc mc k n sz s = Ok (m, s') \<and> arena_state fresh live brk lo lim B' s' \<and> kept B s s' \<and> lock_depth s' = lock_depth s \<and>
    (m = 0 \<and> B' = B \<and> (2 ^ 64 \<le> unat n * unat sz \<or> refused (n * sz) \<or> denied mc (request2size (n * sz)) s) \<or> unat n * unat sz < 2 ^ 64 \<and> \<not> refused (n * sz) \<and> new_block B (request2size (n * sz)) m B' \<and>
      (\<forall>j. 8 * j < unat n * unat sz \<longrightarrow> mlong s' (m + 8 * of_nat j) = 0))"
proof (cases "2 ^ 64 \<le> unat n * unat sz")
  case True
  have "arena_state fresh live brk lo lim B (s\<lparr>rerrno := ENOMEM\<rparr>)"
    using a malloc_ok_eq[of "s\<lparr>rerrno := ENOMEM\<rparr>" s] unstarted_eq[of "s\<lparr>rerrno := ENOMEM\<rparr>" s]
    unfolding arena_state_def grown_def by simp
  moreover have "cALLOc mc k n sz s = Ok (0, s\<lparr>rerrno := ENOMEM\<rparr>)" using True by (simp add: cALLOc_def)
  ultimately show ?thesis using True
    by (intro exI[of _ 0] exI[of _ "s\<lparr>rerrno := ENOMEM\<rparr>"] exI[of _ B]) (simp add: kept_def)
next
  case False
  have k': "lim div 32 + 129 \<le> k" using k by simp
  obtain m s1 B1 where m: "mALLOc mc k (n * sz) s = Ok (m, s1)" "arena_state fresh live brk lo lim B1 s1" "kept B s s1"
      "lock_depth s1 = lock_depth s" "m = 0 \<and> B1 = B \<and> (refused (n * sz) \<or> denied mc (request2size (n * sz)) s) \<or> \<not> refused (n * sz) \<and> new_block B (request2size (n * sz)) m B1"
    using malloc_works[OF a k', of "n * sz"] by blast
  show ?thesis
  proof (cases "m = 0")
    case True
    have "\<not> new_block B (request2size (n * sz)) m B1"
    proof
      assume "new_block B (request2size (n * sz)) m B1"
      then obtain p z where "m = chunk2mem p" "B1 p = Some z" unfolding new_block_def by auto
      then show False using arena_blocks(2)[OF m(2)] True by blast
    qed
    then have "B1 = B" "refused (n * sz) \<or> denied mc (request2size (n * sz)) s" using m(5) by blast+
    then show ?thesis using m(1-4) True False by (intro exI[of _ 0] exI[of _ s1] exI[of _ B]) (simp add: cALLOc_def)
  next
    case nz: False
    then have nw: "\<not> refused (n * sz)" "new_block B (request2size (n * sz)) m B1" using m(5) by blast+
    then obtain p z where p: "m = chunk2mem p" "B p = None" "B1 = B(p \<mapsto> z)" "unat (request2size (n * sz)) \<le> unat z"
      unfolding new_block_def by blast
    have B1: "B1 p = Some z" using p(3) by simp
    let ?s = "MALLOC_ZERO (chunk2mem p) (z - SIZE_SZ) s1"
    note c = clear_block_ok[OF m(2) B1]
    have "mem2chunk m = p" using p(1) by (simp add: mem2chunk_def chunk2mem_def)
    then have r: "cALLOc mc k n sz s = Ok (m, ?s)"
      using False nz m(1) arena_blocks(6)[OF m(2) B1] p(1) by (simp add: cALLOc_def Let_def)
    have "kept B s1 ?s" by (rule kept_mono[OF c(2)]) (use p(2,3) in auto)
    then have "kept B s ?s" by (rule kept_trans[OF m(3)])
    moreover have "mlong ?s (m + 8 * of_nat j) = 0" if "8 * j < unat n * unat sz" for j
    proof -
      have "unat (n * sz) = unat n * unat sz" using False by (simp add: unat_word_ariths)
      moreover have "unat (n * sz) + 8 \<le> unat (request2size (n * sz))"
        by (rule request2size_ok(4)) (use nw(1) in \<open>simp add: refused_def\<close>)
      ultimately show ?thesis using c(3)[of j] that p(1,4) by simp
    qed
    ultimately show ?thesis using r c(1) c(4) m(4) nw False
      by (intro exI[of _ m] exI[of _ ?s] exI[of _ B1]) simp
  qed
qed

end

end
