(* ===== verification/Malloc_Theorems.thy ===== *)
theory Malloc_Theorems
  imports Malloc_Resize
begin

text \<open>
  What the allocator guarantees the program it is linked with, on the heap of \<open>ub_sbrk.c\<close>: the
  contracts of \<open>malloc\<close>, \<open>calloc\<close> and \<open>free\<close>, and runs of a client that requests, fills and releases
  blocks.
\<close>

abbreviation port_arena :: "('f \<Rightarrow> nat) \<Rightarrow> 'f firmware \<Rightarrow> nat \<Rightarrow> (u64 \<Rightarrow> u64 option) \<Rightarrow> 'f port_heap mstate \<Rightarrow> bool" where
  "port_arena pages alloc lim \<equiv> arena_state (port_fresh pages alloc lim) (port_live pages alloc lim) port_brk port_lo lim"

lemma new_blockE:
  assumes "new_block B nb m B'"
  obtains p sz where "m = chunk2mem p" "B p = None" "B' = B(p \<mapsto> sz)" "unat nb \<le> unat sz"
  using assms unfolding new_block_def by blast

lemma mem2chunk_chunk2mem [simp]: "mem2chunk (chunk2mem p) = p"
  by (simp add: mem2chunk_def chunk2mem_def)

lemma request_room: "\<not> refused bytes \<Longrightarrow> unat bytes + 8 \<le> unat (request2size bytes)"
  using request2size_ok(4)[of bytes] unfolding refused_def by auto

text \<open>A new block, as the caller sees it.\<close>

lemma new_block_seen:
  assumes a: "port_arena pages alloc lim B' s'" and n: "new_block B (request2size bytes) m B'" and r: "\<not> refused bytes"
  shows "m \<noteq> 0 \<and> B (mem2chunk m) = None \<and> B' = B(mem2chunk m \<mapsto> chunksize s' (mem2chunk m)) \<and>
    unat bytes + 8 \<le> unat (chunksize s' (mem2chunk m))"
proof -
  obtain p sz where p: "m = chunk2mem p" "B p = None" "B' = B(p \<mapsto> sz)" "unat (request2size bytes) \<le> unat sz"
    using n by (rule new_blockE)
  have B': "B' p = Some sz" using p(3) by simp
  show ?thesis using p request_room[OF r] arena_blocks(2,6)[OF a B'] by simp
qed

subsection \<open>A firmware and a first request, for the examples\<close>

text \<open>A firmware with the four pages at \<open>INITIAL_BASE\<close>, if they are not taken, and a pool of \<open>n\<close> more
  pages at another place, of which it grants the last ones.  It refuses what it does not have.\<close>

type_synonym pool = "bool \<times> nat"

fun fw_64m :: "pool firmware" where
  "fw_64m (low, n) AllocateAddress npages a =
     (if low \<and> npages = 4 \<and> a = 0x4000000 then (0, a, (False, n)) else (0x800000000000000E, a, (low, n)))"
| "fw_64m (low, n) AllocateAnyPages npages a =
     (if unat npages \<le> n then (0, 0x9000000 + 4096 * of_nat (n - unat npages), (low, n - unat npages))
      else (0x8000000000000009, a, (low, n)))"

fun pages_64m :: "pool \<Rightarrow> nat" where
  "pages_64m (low, n) = (if low then 4 else 0) + n"

definition boot_64m :: pool where "boot_64m = (True, 0x3ffc)"

lemma fw_64m_pages: "allocates_pages pages_64m fw_64m"
  unfolding allocates_pages_def
proof (intro allI)
  fix f :: pool and ty and n a :: u64
  obtain low m where f: "f = (low, m)" by (cases f)
  show "case fw_64m f ty n a of (status, addr, f') \<Rightarrow>
      if EFI_ERROR status then addr = a \<and> pages_64m f' \<le> pages_64m f
      else (ty = AllocateAddress \<longrightarrow> addr = a) \<and> unat n + pages_64m f' \<le> pages_64m f"
    unfolding f by (cases ty) (simp_all add: EFI_ERROR_def word_sless_alt)
qed

lemma fw_64m_boots: "boots pages_64m fw_64m boot_64m 0x8000000"
  using fw_64m_pages by (simp add: boots_def low_pages_free_def boot_64m_def sbrk_consts EFI_ERROR_def)

lemma arena_64m: "arena 0x1000 port_lo 0x8000000"
proof -
  have "unat (x - 0x1000) = unat x - 0x1000" if "0x4000000 \<le> unat x" for x :: u64
    using that unat_sub_small[of "0x1000" x] by simp
  then show ?thesis by (auto simp: arena_def port_lo_def INITIAL_BASE_def in_av_def word_less_nat_alt)
qed

definition start_64m :: "pool port_heap mstate" where
  "start_64m = heap_start 0x1000 (\<lambda>_. 0) boot_64m \<lparr>os = sys_boot, sys_errno = 0, blocks = (\<lambda>_. 0)\<rparr>"

lemma start_64m_ok: "port_arena pages_64m fw_64m 0x8000000 Map.empty start_64m"
  unfolding start_64m_def by (rule arena_state_start[OF fw_64m_boots arena_64m])

lemma start_64m_denied: "\<not> denied (port_morecore fw_64m Impure) (request2size 100000) start_64m"
proof -
  have "request2size 100000 = 100016" by (simp add: request2size_def malloc_consts)
  then show ?thesis
    by (simp add: denied_def extension_def start_64m_def heap_start_def malloc_init_def malloc_consts port_morecore_eq ub_sbrk_def
        sbrk_first_def sbrk_grow_def heap_init_def EFI_ERROR_def log_sbrk_def additional_pages_def boot_64m_def sbrk_consts Let_def)
qed

lemma not_refused_100k: "\<not> refused 100000"
  by (simp add: refused_def request2size_def malloc_consts)

subsection \<open>The operations\<close>

lemma malloc_contract:
  assumes "port_arena pages alloc lim B s" and "lim div 32 + 130 \<le> k"
  shows "\<exists>m s' B'. mALLOc (port_morecore alloc ptr) k bytes s = Ok (m, s') \<and> port_arena pages alloc lim B' s' \<and>
    kept B s s' \<and> lock_depth s' = lock_depth s \<and>
    (if m = 0 then B' = B \<and> (refused bytes \<or> denied (port_morecore alloc ptr) (request2size bytes) s)
     else B (mem2chunk m) = None \<and> B' = B(mem2chunk m \<mapsto> chunksize s' (mem2chunk m)) \<and>
       unat bytes + 8 \<le> unat (chunksize s' (mem2chunk m)))"
proof -
  have k: "lim div 32 + 129 \<le> k" using assms(2) by simp
  obtain m s' B' where m: "mALLOc (port_morecore alloc ptr) k bytes s = Ok (m, s')" "port_arena pages alloc lim B' s'" "kept B s s'"
      "lock_depth s' = lock_depth s"
      "m = 0 \<and> B' = B \<and> (refused bytes \<or> denied (port_morecore alloc ptr) (request2size bytes) s) \<or>
       \<not> refused bytes \<and> new_block B (request2size bytes) m B'"
    using port_heap.malloc_works[OF assms(1) k] by blast
  then show ?thesis using new_block_seen[OF m(2)] by (intro exI[of _ m] exI[of _ s'] exI[of _ B']) auto
qed

text \<open>
  C6.  \<open>malloc\<close> on the heap of \<open>ub_sbrk\<close>, in a state of the arena (\<open>port_arena\<close>): it returns within the
  budget.  It changes no long of a block in use, and hands out either a block that was not in use,
  with room for the bytes asked for, or 0; 0 only for a request beyond the limit of the allocator or
  when \<open>sbrk\<close> refuses to extend the heap by what the request needs, and then the blocks in use stay as
  they were.  Of the firmware \<open>port_arena\<close> asks the contract of \<open>AllocatePages\<close>, and before the first
  call that the pages at \<open>INITIAL_BASE\<close> are free.
\<close>

theorem malloc_correct:
  assumes "port_arena pages alloc lim B s" and "lim div 32 + 130 \<le> k"
  shows "\<exists>m s' B'. mALLOc (port_morecore alloc ptr) k bytes s = Ok (m, s') \<and> port_arena pages alloc lim B' s' \<and>
    kept B s s' \<and> lock_depth s' = lock_depth s \<and>
    (if m = 0 then B' = B \<and> (refused bytes \<or> denied (port_morecore alloc ptr) (request2size bytes) s)
     else B (mem2chunk m) = None \<and> B' = B(mem2chunk m \<mapsto> chunksize s' (mem2chunk m)) \<and>
       unat bytes + 8 \<le> unat (chunksize s' (mem2chunk m)))"
  by (rule malloc_contract[OF assms])

theorem malloc_correct_witness:
  "\<exists>m s'. mALLOc (port_morecore fw_64m Impure) 4194434 100000 start_64m = Ok (m, s') \<and> m \<noteq> 0 \<and>
     100008 \<le> unat (chunksize s' (mem2chunk m))"
  using malloc_correct[OF start_64m_ok, of 4194434 Impure 100000] start_64m_denied not_refused_100k by (auto split: if_splits)

lemma calloc_contract:
  assumes "port_arena pages alloc lim B s" and "lim div 32 + 130 \<le> k"
  shows "\<exists>m s' B'. cALLOc (port_morecore alloc ptr) k n sz s = Ok (m, s') \<and> port_arena pages alloc lim B' s' \<and>
    kept B s s' \<and> lock_depth s' = lock_depth s \<and>
    (if m = 0 then B' = B \<and> (2 ^ 64 \<le> unat n * unat sz \<or> refused (n * sz) \<or>
        denied (port_morecore alloc ptr) (request2size (n * sz)) s)
     else B (mem2chunk m) = None \<and> B' = B(mem2chunk m \<mapsto> chunksize s' (mem2chunk m)) \<and>
       unat n * unat sz + 8 \<le> unat (chunksize s' (mem2chunk m)) \<and>
       (\<forall>j. 8 * j < unat n * unat sz \<longrightarrow> mlong s' (m + 8 * of_nat j) = 0))"
proof -
  obtain m s' B' where m: "cALLOc (port_morecore alloc ptr) k n sz s = Ok (m, s')" "port_arena pages alloc lim B' s'" "kept B s s'"
      "lock_depth s' = lock_depth s"
      "m = 0 \<and> B' = B \<and> (2 ^ 64 \<le> unat n * unat sz \<or> refused (n * sz) \<or>
        denied (port_morecore alloc ptr) (request2size (n * sz)) s) \<or> unat n * unat sz < 2 ^ 64 \<and> \<not> refused (n * sz) \<and> new_block B (request2size (n * sz)) m B' \<and>
        (\<forall>j. 8 * j < unat n * unat sz \<longrightarrow> mlong s' (m + 8 * of_nat j) = 0)"
    using port_heap.calloc_works[OF assms] by blast
  show ?thesis
  proof (cases "m = 0 \<and> B' = B \<and> (2 ^ 64 \<le> unat n * unat sz \<or> refused (n * sz) \<or>
        denied (port_morecore alloc ptr) (request2size (n * sz)) s)")
    case True
    then show ?thesis using m(1-4) by (intro exI[of _ m] exI[of _ s'] exI[of _ B']) simp
  next
    case False
    then have n: "unat n * unat sz < 2 ^ 64" "\<not> refused (n * sz)" "new_block B (request2size (n * sz)) m B'"
        "\<forall>j. 8 * j < unat n * unat sz \<longrightarrow> mlong s' (m + 8 * of_nat j) = 0"
      using m(5) by blast+
    have "unat (n * sz) = unat n * unat sz" using n(1) by (simp add: unat_word_ariths)
    then show ?thesis using m(1-4) n(4) new_block_seen[OF m(2) n(3,2)]
      by (intro exI[of _ m] exI[of _ s'] exI[of _ B']) simp
  qed
qed

text \<open>
  C8.  \<open>calloc\<close> in a state of the arena returns within the budget: 0, for the reasons of \<open>malloc\<close> or
  when the product of its arguments overflows, or a block that was not in use, with room for the
  product (which then does not overflow), in which every long of the product is 0.  It asks the same
  of the firmware as \<open>malloc_correct\<close>.
\<close>

theorem calloc_correct:
  assumes "port_arena pages alloc lim B s" and "lim div 32 + 130 \<le> k"
  shows "\<exists>m s' B'. cALLOc (port_morecore alloc ptr) k n sz s = Ok (m, s') \<and> port_arena pages alloc lim B' s' \<and>
    kept B s s' \<and> lock_depth s' = lock_depth s \<and>
    (if m = 0 then B' = B \<and> (2 ^ 64 \<le> unat n * unat sz \<or> refused (n * sz) \<or>
        denied (port_morecore alloc ptr) (request2size (n * sz)) s)
     else B (mem2chunk m) = None \<and> B' = B(mem2chunk m \<mapsto> chunksize s' (mem2chunk m)) \<and>
       unat n * unat sz + 8 \<le> unat (chunksize s' (mem2chunk m)) \<and>
       (\<forall>j. 8 * j < unat n * unat sz \<longrightarrow> mlong s' (m + 8 * of_nat j) = 0))"
  by (rule calloc_contract[OF assms])

theorem calloc_correct_witness:
  "\<exists>m s'. cALLOc (port_morecore fw_64m Impure) 4194434 1000 100 start_64m = Ok (m, s') \<and> m \<noteq> 0 \<and> mlong s' (m + 16) = 0"
proof -
  have k: "0x8000000 div 32 + 130 \<le> (4194434 :: nat)" by simp
  have "unat (1000 :: u64) * unat (100 :: u64) = 100000" by simp
  then show ?thesis using calloc_correct[OF start_64m_ok k, of Impure 1000 100] start_64m_denied not_refused_100k
    by (auto dest: spec[of _ 2] split: if_splits)
qed

text \<open>
  C7.  \<open>free\<close> of a block in use, in a state of the arena, returns within the budget, takes exactly that
  block out of use, changes no long of any other block in use, and leaves the arena in order,
  whatever it merges the block with and whether or not it gives memory back to \<open>sbrk\<close>.
\<close>

theorem free_correct:
  assumes "port_arena pages alloc lim B s" and "B p = Some sz" and "lim div 32 + 130 \<le> k"
  shows "\<exists>s'. fREe (port_morecore alloc ptr) k (chunk2mem p) s = Ok s' \<and> port_arena pages alloc lim (B(p := None)) s' \<and>
    kept (B(p := None)) s s' \<and> lock_depth s' = lock_depth s"
  by (rule port_heap.free_works[OF assms])

text \<open>A block of 100000 bytes, given back at once.\<close>

theorem free_correct_witness:
  "\<exists>m s' s''. mALLOc (port_morecore fw_64m Impure) 4194434 100000 start_64m = Ok (m, s') \<and> m \<noteq> 0 \<and>
     fREe (port_morecore fw_64m Impure) 4194434 m s' = Ok s'' \<and> port_arena pages_64m fw_64m 0x8000000 Map.empty s''"
proof -
  have k: "0x8000000 div 32 + 129 \<le> (4194434 :: nat)" "0x8000000 div 32 + 130 \<le> (4194434 :: nat)" by simp_all
  obtain m s' B' where m: "mALLOc (port_morecore fw_64m Impure) 4194434 100000 start_64m = Ok (m, s')"
      "port_arena pages_64m fw_64m 0x8000000 B' s'" "new_block Map.empty (request2size 100000) m B'"
    using port_heap.malloc_works[OF start_64m_ok k(1), of Impure 100000] start_64m_denied not_refused_100k by blast
  obtain p sz where p: "m = chunk2mem p" "B' = [p \<mapsto> sz]" using m(3) unfolding new_block_def by auto
  have "m \<noteq> 0" using arena_blocks(2)[OF m(2)] p by simp
  then show ?thesis using free_correct[OF m(2) _ k(2), of p sz Impure] m(1) p by fastforce
qed

subsection \<open>Runs of a client\<close>

text \<open>
  A client of the allocator: it requests blocks, stores longs in the blocks it holds, and gives
  blocks back.  \<open>B\<close> are the blocks it holds and \<open>C\<close> the longs it knows, because it wrote them or
  \<open>calloc\<close> cleared them.
\<close>

definition hand_out :: "u64 \<Rightarrow> 'h mstate \<Rightarrow> (u64 \<Rightarrow> u64 option) \<Rightarrow> u64 \<Rightarrow> u64 option" where
  "hand_out m s B = (if m = 0 then B else B(mem2chunk m \<mapsto> chunksize s (mem2chunk m)))"

definition cleared :: "u64 \<Rightarrow> nat \<Rightarrow> (u64 \<Rightarrow> u64 option) \<Rightarrow> u64 \<Rightarrow> u64 option" where
  "cleared m len C x = (if m \<noteq> 0 \<and> (\<exists>j < len. 8 * j < len \<and> x = m + 8 * of_nat j) then Some 0 else C x)"

inductive heap_run :: "'f firmware \<Rightarrow> reent_ptr \<Rightarrow> nat \<Rightarrow> u64 \<Rightarrow> 'f \<Rightarrow> (u64 \<Rightarrow> u64 option) \<Rightarrow> (u64 \<Rightarrow> u64 option) \<Rightarrow>
    'f port_heap mstate \<Rightarrow> bool" for alloc ptr k a f where
  run_start: "heap_run alloc ptr k a f Map.empty Map.empty (heap_start a m f r)"
| run_malloc: "heap_run alloc ptr k a f B C s \<Longrightarrow> mALLOc (port_morecore alloc ptr) k bytes s = Ok (m, s') \<Longrightarrow>
    heap_run alloc ptr k a f (hand_out m s' B) C s'"
| run_calloc: "heap_run alloc ptr k a f B C s \<Longrightarrow> cALLOc (port_morecore alloc ptr) k n sz s = Ok (m, s') \<Longrightarrow>
    heap_run alloc ptr k a f (hand_out m s' B) (cleared m (unat n * unat sz) C) s'"
| run_free: "heap_run alloc ptr k a f B C s \<Longrightarrow> B p = Some sz \<Longrightarrow> fREe (port_morecore alloc ptr) k (chunk2mem p) s = Ok s' \<Longrightarrow>
    heap_run alloc ptr k a f (B(p := None)) (C |` (- user p sz)) s'"
| run_store: "heap_run alloc ptr k a f B C s \<Longrightarrow> B p = Some sz \<Longrightarrow> x \<in> user p sz \<Longrightarrow> 8 dvd unat x \<Longrightarrow>
    heap_run alloc ptr k a f B (C(x \<mapsto> v)) (set_long x v s)"

definition known :: "(u64 \<Rightarrow> u64 option) \<Rightarrow> (u64 \<Rightarrow> u64 option) \<Rightarrow> 'h mstate \<Rightarrow> bool" where
  "known B C s \<longleftrightarrow> (\<forall>x v. C x = Some v \<longrightarrow> mlong s x = v \<and> (\<exists>p sz. B p = Some sz \<and> x \<in> user p sz))"

lemma known_kept:
  assumes "known B C s" and "kept B s s'" and "\<And>p sz. B p = Some sz \<Longrightarrow> B' p = Some sz"
  shows "known B' C s'"
  using assms unfolding known_def kept_def by metis

lemma known_freed:
  assumes "known B C s" and "B p = Some sz" and "kept (B(p := None)) s s'"
  shows "known (B(p := None)) (C |` (- user p sz)) s'"
  unfolding known_def
proof (intro allI impI)
  fix x v
  assume "(C |` (- user p sz)) x = Some v"
  then have x: "C x = Some v" "x \<notin> user p sz" by (auto simp: restrict_map_def split: if_splits)
  then obtain q z where q: "mlong s x = v" "B q = Some z" "x \<in> user q z" using assms(1) unfolding known_def by blast
  then have "q \<noteq> p" using x(2) assms(2) by auto
  then have "(B(p := None)) q = Some z" using q(2) by simp
  then show "mlong s' x = v \<and> (\<exists>p' sz'. (B(p := None)) p' = Some sz' \<and> x \<in> user p' sz')"
    using q assms(3) unfolding kept_def by metis
qed

lemma hand_out_grows: "m = 0 \<or> B (mem2chunk m) = None \<Longrightarrow> B p = Some sz \<Longrightarrow> hand_out m s B p = Some sz"
  by (auto simp: hand_out_def)

lemma long_in_user:
  assumes a: "port_arena pages alloc lim B s" and p: "B p = Some sz" and j: "8 * j < len" "len + 8 \<le> unat sz"
  shows "chunk2mem p + 8 * of_nat j \<in> user p sz"
proof -
  note P = arena_blocks[OF a p]
  have "lim < 2 ^ 62" using a unfolding arena_state_def arena_def by blast
  moreover from this have "unat (8 * of_nat j :: u64) = 8 * j" using j P(4) by (simp add: unat_word_ariths unat_of_nat)
  ultimately have "unat (chunk2mem p + 8 * of_nat j) = unat p + 16 + 8 * j" using P(4,7) j by (simp add: unat_add_small)
  then show ?thesis using j unfolding user_def by simp
qed

text \<open>The invariant of the runs.\<close>

lemma heap_run_ok:
  assumes "heap_run alloc ptr k a f B C s" and R: "boots pages alloc f lim" "arena a port_lo lim" and k: "lim div 32 + 130 \<le> k"
  shows "port_arena pages alloc lim B s \<and> known B C s \<and> lock_depth s = 0"
  using assms(1)
proof (induction rule: heap_run.induct)
  case (run_start m r)
  then show ?case using arena_state_start[OF R] by (simp add: known_def heap_start_def malloc_init_def)
next
  case (run_malloc B C s bytes m s')
  then have a: "port_arena pages alloc lim B s" "known B C s" "lock_depth s = 0" by blast+
  obtain B' where b: "port_arena pages alloc lim B' s'" "kept B s s'" "lock_depth s' = lock_depth s" "B' = hand_out m s' B"
      "m = 0 \<or> B (mem2chunk m) = None"
    using malloc_contract[OF a(1) k, of ptr bytes] run_malloc.hyps(2) by (auto simp: hand_out_def split: if_splits)
  show ?case using b(1,3,4) a(3) known_kept[OF a(2) b(2), of B'] hand_out_grows[of m B _ _ s'] b(5) by simp
next
  case (run_calloc B C s n sz m s')
  then have a: "port_arena pages alloc lim B s" "known B C s" "lock_depth s = 0" by blast+
  let ?len = "unat n * unat sz"
  obtain B' where b: "port_arena pages alloc lim B' s'" "kept B s s'" "lock_depth s' = lock_depth s" "B' = hand_out m s' B"
      "m = 0 \<or> B (mem2chunk m) = None \<and> ?len + 8 \<le> unat (chunksize s' (mem2chunk m)) \<and>
        (\<forall>j. 8 * j < ?len \<longrightarrow> mlong s' (m + 8 * of_nat j) = 0)"
    using calloc_contract[OF a(1) k, of ptr n sz] run_calloc.hyps(2) by (auto simp: hand_out_def split: if_splits)
  have C: "known B' C s'" using known_kept[OF a(2) b(2), of B'] hand_out_grows[of m B _ _ s'] b(4,5) by blast
  have "known B' (cleared m ?len C) s'"
  proof (cases "m = 0")
    case True
    then show ?thesis using C by (simp add: known_def cleared_def)
  next
    case False
    then have B': "B' (mem2chunk m) = Some (chunksize s' (mem2chunk m))" using b(4) by (simp add: hand_out_def)
    have "chunk2mem (mem2chunk m) = m" by (simp add: chunk2mem_def mem2chunk_def)
    then have u: "m + 8 * of_nat j \<in> user (mem2chunk m) (chunksize s' (mem2chunk m))" if "8 * j < ?len" for j
      using long_in_user[OF b(1) B' that] b(5) False by simp
    show ?thesis unfolding known_def
    proof (intro allI impI)
      fix x v
      assume x: "cleared m ?len C x = Some v"
      show "mlong s' x = v \<and> (\<exists>p z. B' p = Some z \<and> x \<in> user p z)"
      proof (cases "m \<noteq> 0 \<and> (\<exists>j < ?len. 8 * j < ?len \<and> x = m + 8 * of_nat j)")
        case True
        then obtain j where j: "8 * j < ?len" "x = m + 8 * of_nat j" by blast
        have "v = 0" using x unfolding cleared_def if_P[OF True] by simp
        then show ?thesis using j b(5) False u[OF j(1)] B' by blast
      next
        case False
        then have "C x = Some v" using x unfolding cleared_def if_not_P[OF False] by simp
        then show ?thesis using C unfolding known_def by blast
      qed
    qed
  qed
  then show ?case using b(1,3,4) a(3) by simp
next
  case (run_free B C s p sz s')
  then have a: "port_arena pages alloc lim B s" "known B C s" "lock_depth s = 0" by blast+
  have f: "port_arena pages alloc lim (B(p := None)) s'" "kept (B(p := None)) s s'" "lock_depth s' = lock_depth s"
    using port_heap.free_works[OF a(1) run_free.hyps(2) k, of ptr] run_free.hyps(3) by auto
  then have "lock_depth s' = 0" using a(3) by simp
  with f(1) known_freed[OF a(2) run_free.hyps(2) f(2)] show ?case by blast
next
  case (run_store B C s p sz x v)
  then show ?case using arena_store[of _ _ _ _ _ B s p sz x v] by (auto simp: known_def mlong_set_long)
qed

text \<open>
  C5.  Whatever a client requests, stores and gives back: the longs it knows are what the memory
  holds, at their addresses and in blocks it still holds.  So no call of the allocator and no store
  to one block ever changes the contents of another.  The firmware may refuse any request for more
  pages and may grant them anywhere; it has the first four pages, and its bins \<open>av_\<close> do not lie where
  the heap with all pages of the machine would reach (\<open>arena\<close>).  Whether the pages the heap grows
  into are those the firmware granted is not claimed: \<open>ub_sbrk_foreign_pages\<close> shows that they need
  not be.
\<close>

theorem heap_run_memory:
  assumes "heap_run alloc ptr k a f B C s" and "boots pages alloc f lim" and "arena a port_lo lim" and "lim div 32 + 130 \<le> k"
    and "C x = Some v"
  shows "mlong s x = v \<and> (\<exists>p sz. B p = Some sz \<and> x \<in> user p sz)"
  using heap_run_ok[OF assms(1-4)] assms(5) unfolding known_def by blast

text \<open>
  C9.  In every state of every run the blocks of the client are pairwise disjoint, aligned to 16
  bytes, large enough for their links and inside the heap of \<open>ub_sbrk\<close>, above its base and below its
  break with room for the top chunk; the break stays below \<open>lim\<close>, the base plus all pages the machine
  had at the start; and no call has left the lock held.  The firmware is as in \<open>heap_run_memory\<close>.
\<close>

theorem heap_run_blocks:
  assumes "heap_run alloc ptr k a f B C s" and "boots pages alloc f lim" and "arena a port_lo lim" and "lim div 32 + 130 \<le> k"
    and "B p = Some sz"
  shows "16 dvd unat (chunk2mem p) \<and> unat INITIAL_BASE \<le> unat p \<and> unat p + unat sz + 32 \<le> unat (port_brk (system s)) \<and>
    unat (port_brk (system s)) \<le> lim \<and> 32 \<le> unat sz \<and>
    (\<forall>q sz'. B q = Some sz' \<and> q \<noteq> p \<longrightarrow> unat p + unat sz \<le> unat q \<or> unat q + unat sz' \<le> unat p) \<and> lock_depth s = 0"
proof -
  have a: "port_arena pages alloc lim B s" "lock_depth s = 0" using heap_run_ok[OF assms(1-4)] by blast+
  note P = arena_blocks[OF a(1) assms(5)]
  have "unat p + unat sz \<le> unat q \<or> unat q + unat sz' \<le> unat p" if "B q = Some sz'" "q \<noteq> p" for q sz'
    using arena_disjoint[OF a(1) assms(5) that(1)] that(2) by blast
  moreover note arena_break[OF a(1) assms(5)]
  moreover from this(1) have "unat (port_brk (system s)) \<le> lim" using port_heap.range by blast
  ultimately show ?thesis using P a(2) unfolding aligned_def port_lo_def by blast
qed

text \<open>
  C10.  In every state of every run every request returns and every block can be given back: no walk
  along the bins goes round for ever or uses up its budget.  The firmware is as in \<open>heap_run_memory\<close>.
\<close>

theorem heap_run_returns:
  assumes "heap_run alloc ptr k a f B C s" and "boots pages alloc f lim" and "arena a port_lo lim" and "lim div 32 + 130 \<le> k"
  shows "(\<exists>m s'. mALLOc (port_morecore alloc ptr) k bytes s = Ok (m, s')) \<and>
    (\<exists>m s'. cALLOc (port_morecore alloc ptr) k n sz s = Ok (m, s')) \<and>
    (\<forall>p \<in> dom B. \<exists>s'. fREe (port_morecore alloc ptr) k (chunk2mem p) s = Ok s')"
proof -
  have a: "port_arena pages alloc lim B s" using heap_run_ok[OF assms] by blast
  have "\<exists>s'. fREe (port_morecore alloc ptr) k (chunk2mem p) s = Ok s'" if "p \<in> dom B" for p
    using that port_heap.free_works[OF a _ assms(4), of p _ ptr] by blast
  then show ?thesis using malloc_contract[OF a assms(4), of ptr bytes] calloc_contract[OF a assms(4), of ptr n sz] by blast
qed

text \<open>A run for the examples: 100000 bytes are requested, more than the first pages hold, and a long is stored in them.\<close>

lemma heap_run_64m:
  "\<exists>m B s. heap_run fw_64m Impure 4194434 0x1000 boot_64m B [chunk2mem m \<mapsto> 42] s \<and> m \<in> dom B"
proof -
  have k: "0x8000000 div 32 + 130 \<le> (4194434 :: nat)" by simp
  have r0: "heap_run fw_64m Impure 4194434 0x1000 boot_64m Map.empty Map.empty start_64m" unfolding start_64m_def by (rule run_start)
  obtain m s B where m: "mALLOc (port_morecore fw_64m Impure) 4194434 100000 start_64m = Ok (m, s)" "port_arena pages_64m fw_64m 0x8000000 B s"
      "m \<noteq> 0" "B = [mem2chunk m \<mapsto> chunksize s (mem2chunk m)]"
    using malloc_contract[OF start_64m_ok k, of Impure 100000] start_64m_denied not_refused_100k by (auto split: if_splits)
  let ?p = "mem2chunk m" and ?z = "chunksize s (mem2chunk m)"
  have B: "B ?p = Some ?z" using m(4) by simp
  have r1: "heap_run fw_64m Impure 4194434 0x1000 boot_64m B Map.empty s" using run_malloc[OF r0 m(1)] m(3,4) by (simp add: hand_out_def)
  note P = arena_blocks[OF m(2) B]
  have "chunk2mem ?p \<in> user ?p ?z" using P(5,7) unfolding user_def by simp
  moreover have "8 dvd unat (chunk2mem ?p)" using P(1) dvd_trans[of 8 16 "unat (chunk2mem ?p)"] unfolding aligned_def by simp
  ultimately show ?thesis using run_store[OF r1 B, of "chunk2mem ?p" 42] B by blast
qed

theorem heap_run_memory_witness:
  "\<exists>m B C s. heap_run fw_64m Impure 4194434 0x1000 boot_64m B C s \<and> C m = Some 42 \<and> mlong s m = 42"
proof -
  have k: "0x8000000 div 32 + 130 \<le> (4194434 :: nat)" by simp
  obtain m B s where r: "heap_run fw_64m Impure 4194434 0x1000 boot_64m B [chunk2mem m \<mapsto> 42] s" using heap_run_64m by blast
  show ?thesis using heap_run_memory[OF r fw_64m_boots arena_64m k, of "chunk2mem m" 42] r by fastforce
qed

theorem heap_run_blocks_witness:
  "\<exists>p sz B C s. heap_run fw_64m Impure 4194434 0x1000 boot_64m B C s \<and> B p = Some sz \<and> 16 dvd unat (chunk2mem p)"
proof -
  have k: "0x8000000 div 32 + 130 \<le> (4194434 :: nat)" by simp
  obtain m B s where r: "heap_run fw_64m Impure 4194434 0x1000 boot_64m B [chunk2mem m \<mapsto> 42] s" "m \<in> dom B" using heap_run_64m by blast
  then obtain sz where "B m = Some sz" by blast
  then show ?thesis using heap_run_blocks[OF r(1) fw_64m_boots arena_64m k] r(1) by blast
qed

theorem heap_run_returns_witness:
  "\<exists>p B C s s'. heap_run fw_64m Impure 4194434 0x1000 boot_64m B C s \<and> p \<in> dom B \<and>
     fREe (port_morecore fw_64m Impure) 4194434 (chunk2mem p) s = Ok s'"
proof -
  have k: "0x8000000 div 32 + 130 \<le> (4194434 :: nat)" by simp
  obtain m B s where r: "heap_run fw_64m Impure 4194434 0x1000 boot_64m B [chunk2mem m \<mapsto> 42] s" "m \<in> dom B" using heap_run_64m by blast
  then show ?thesis using heap_run_returns[OF r(1) fw_64m_boots arena_64m k] by blast
qed

subsection \<open>A lock that is kept\<close>

text \<open>
  C39.  \<open>realloc\<close> of a block to a size beyond the limit takes the lock and returns 0 without giving it
  back; \<open>malloc\<close> of the same size leaves the lock as it was.
\<close>

theorem realloc_keeps_lock:
  assumes "oldmem \<noteq> 0" and "refused bytes"
  shows "rEALLOc mc k oldmem bytes s = Ok (0, s\<lparr>lock_depth := lock_depth s + 1, rerrno := ENOMEM\<rparr>) \<and>
    mALLOc mc k bytes s = Ok (0, s\<lparr>rerrno := ENOMEM\<rparr>)"
  using assms by (simp add: rEALLOc_def mALLOc_def refused_def MALLOC_LOCK_def Let_def)

theorem realloc_keeps_lock_witness:
  "\<exists>s'. rEALLOc (port_morecore fw_64m Impure) 0 0x4000010 0x80000000 start_64m = Ok (0, s') \<and> lock_depth s' = 1"
proof -
  have "refused 0x80000000" by (simp add: refused_def request2size_def malloc_consts)
  then show ?thesis
    using realloc_keeps_lock[of "0x4000010" "0x80000000" "port_morecore fw_64m Impure" 0 start_64m]
    by (simp add: start_64m_def heap_start_def malloc_init_def)
qed

end
