(* ===== verification/Libc_Mem.thy ===== *)
theory Libc_Mem
  imports Prelude
begin

unbundle bit_operations_syntax

text \<open>
  The memory the C library routines of \<open>src/libc/string\<close> work on, and the tricks they share.  A
  memory is a finite byte sequence that starts on a word boundary; an address is an offset, and an
  access outside it is a \<open>Fault\<close>.  A \<open>long\<close> is 8 bytes, little-endian.
\<close>

type_synonym ram = "u8 list"

definition rb :: "'a list \<Rightarrow> nat \<Rightarrow> 'a res" where
  "rb m p = (if p < length m then Ok (m ! p) else Stop Fault)"

definition wb :: "'a list \<Rightarrow> nat \<Rightarrow> 'a \<Rightarrow> 'a list res" where
  "wb m p b = (if p < length m then Ok (m[p := b]) else Stop Fault)"

definition put :: "'a list \<Rightarrow> nat \<Rightarrow> 'a list \<Rightarrow> 'a list" where
  "put m p bs = take p m @ bs @ drop (p + length bs) m"

definition rl :: "ram \<Rightarrow> nat \<Rightarrow> u64 res" where
  "rl m p = (if p + 8 \<le> length m then Ok (le_word (take 8 (drop p m))) else Stop Fault)"

definition wl :: "ram \<Rightarrow> nat \<Rightarrow> u64 \<Rightarrow> ram res" where
  "wl m p w = (if p + 8 \<le> length m then Ok (put m p (le_bytes 8 w)) else Stop Fault)"

definition UNALIGNED :: "nat \<Rightarrow> bool" where
  "UNALIGNED p \<longleftrightarrow> p mod 8 \<noteq> 0"

definition LBLOCKSIZE :: nat where "LBLOCKSIZE = 8"

subsection \<open>Detecting a null byte in a word\<close>

definition DETECTNULL :: "u64 \<Rightarrow> u64" where
  "DETECTNULL x = (x - 0x0101010101010101) AND NOT x AND 0x8080808080808080"

definition DETECTCHAR :: "u64 \<Rightarrow> u64 \<Rightarrow> u64" where
  "DETECTCHAR x msk = DETECTNULL (x XOR msk)"

definition byte :: "u64 \<Rightarrow> nat \<Rightarrow> u8" where
  "byte w i = ucast (drop_bit (8 * i) w)"

text \<open>The borrow of the subtraction, byte by byte, over the integers.\<close>

primrec ones :: "nat \<Rightarrow> int" where
  "ones 0 = 0"
| "ones (Suc n) = 1 + 256 * ones n"

lemma bit_byte_cons:
  fixes c z :: int
  assumes "0 \<le> c" and "c < 256"
  shows "bit (c + 256 * z) k = (if k < 8 then bit c k else bit z (k - 8))"
proof -
  have t: "take_bit 8 (c + 256 * z) = c" using assms by (simp add: take_bit_eq_mod)
  have d: "drop_bit 8 (c + 256 * z) = z" using assms by (simp add: drop_bit_eq_div)
  show ?thesis
  proof (cases "k < 8")
    case True
    then have "bit (c + 256 * z) k = bit (take_bit 8 (c + 256 * z)) k" by (simp add: bit_take_bit_iff)
    then show ?thesis using True t by simp
  next
    case False
    then have "bit (c + 256 * z) k = bit (drop_bit 8 (c + 256 * z)) (k - 8)" by (simp add: bit_drop_bit_eq)
    then show ?thesis using False d by simp
  qed
qed

lemma bit_7_byte:
  fixes c :: int
  assumes "0 \<le> c" and "c < 256"
  shows "bit c 7 \<longleftrightarrow> 128 \<le> c"
proof -
  have "bit c 7 \<longleftrightarrow> odd (c div 128)" by (simp add: bit_iff_odd)
  moreover have "c div 128 = (if 128 \<le> c then 1 else 0)" using assms by (auto intro: div_pos_geq[THEN trans])
  ultimately show ?thesis by simp
qed

definition ibyte :: "int \<Rightarrow> nat \<Rightarrow> int" where
  "ibyte x i = take_bit 8 (drop_bit (8 * i) x)"

lemma detect_int:
  "0 \<le> x \<Longrightarrow> (\<exists>i < n. bit (x - ones n) (8 * i + 7) \<and> \<not> bit x (8 * i + 7)) \<longleftrightarrow> (\<exists>i < n. ibyte x i = 0)"
proof (induction n arbitrary: x)
  case 0
  then show ?case by simp
next
  case (Suc n)
  define b y where "b = x mod 256" and "y = x div 256"
  have x: "x = b + 256 * y" "0 \<le> b" "b < 256" "0 \<le> y" using Suc.prems by (auto simp: b_def y_def)
  have ib: "ibyte x 0 = b" "ibyte x (Suc i) = ibyte y i" for i
    by (simp_all add: ibyte_def b_def y_def take_bit_eq_mod drop_bit_eq_div power_add mult.commute zdiv_zmult2_eq)
  have ex: "(\<exists>i < Suc n. P i) \<longleftrightarrow> P 0 \<or> (\<exists>i < n. P (Suc i))" for P :: "nat \<Rightarrow> bool"
    using less_Suc_eq_0_disj by auto
  have bx: "bit x (8 * Suc i + 7) = bit y (8 * i + 7)" "bit x (8 * 0 + 7) = (128 \<le> b)" for i
    using bit_byte_cons[OF x(2,3), of y] x(1) bit_7_byte[OF x(2,3)] by (simp_all add: add.commute)
  show ?case
  proof (cases "b = 0")
    case True
    have e: "x - ones (Suc n) = 255 + 256 * (y - ones n - 1)" using x(1) True by simp
    have "bit (x - ones (Suc n)) (8 * 0 + 7)"
      unfolding e using bit_byte_cons[of 255 "y - ones n - 1" 7] bit_7_byte[of 255] by simp
    then show ?thesis using True ib(1) bx(2) by (auto simp: ex)
  next
    case False
    have e: "x - ones (Suc n) = (b - 1) + 256 * (y - ones n)" using x(1) by simp
    have "bit (x - ones (Suc n)) (8 * Suc i + 7) = bit (y - ones n) (8 * i + 7)"
       "bit (x - ones (Suc n)) (8 * 0 + 7) = (128 \<le> b - 1)" for i
      unfolding e using bit_byte_cons[of "b - 1" "y - ones n"] bit_7_byte[of "b - 1"] False x(2,3) by (simp_all add: add.commute)
    then show ?thesis using Suc.IH[OF x(4)] bx ib False by (auto simp: ex simp del: mult_Suc_right)
  qed
qed

lemma bit_mask_80: "bit (0x8080808080808080 :: u64) k \<longleftrightarrow> k < 64 \<and> k mod 8 = 7"
proof -
  have "list_all (\<lambda>k. bit (0x8080808080808080 :: u64) k = (k mod 8 = 7)) [0..<64]" by code_simp
  then show ?thesis using bit_imp_le_length[of "0x8080808080808080 :: u64" k] by (auto simp: list_all_iff)
qed

lemma ibyte_uint: "i < 8 \<Longrightarrow> ibyte (uint (w :: u64)) i = 0 \<longleftrightarrow> byte w i = 0"
proof -
  have "ibyte (uint w) i = uint (byte w i)"
    by (rule bit_eqI) (auto simp: ibyte_def byte_def bit_simps)
  then show ?thesis by (simp add: uint_0_iff)
qed

lemma DETECTNULL_iff: "DETECTNULL w \<noteq> 0 \<longleftrightarrow> (\<exists>i < 8. byte w i = 0)"
proof -
  have o: "ones 8 = 0x0101010101010101" by (simp add: eval_nat_numeral)
  have "w - 0x0101010101010101 = word_of_int (uint w - ones 8)" by (simp add: o)
  then have sub: "bit (w - 0x0101010101010101) k \<longleftrightarrow> k < 64 \<and> bit (uint w - ones 8) k" for k
    by (simp only: bit_word_of_int_iff) simp
  have "DETECTNULL w \<noteq> 0 \<longleftrightarrow> (\<exists>k. bit (DETECTNULL w) k)"
    by (metis bit_0_eq bit_eqI bot_apply bot_bool_def)
  also have "\<dots> \<longleftrightarrow> (\<exists>k < 64. k mod 8 = 7 \<and> bit (uint w - ones 8) k \<and> \<not> bit (uint w) k)"
    by (auto simp: DETECTNULL_def bit_and_iff bit_not_iff sub bit_mask_80 bit_uint_iff
        simp del: bit_numeral_word_iff)
  also have "\<dots> \<longleftrightarrow> (\<exists>i < 8. bit (uint w - ones 8) (8 * i + 7) \<and> \<not> bit (uint w) (8 * i + 7))"
  proof (intro iffI; elim exE conjE)
    fix k :: nat
    assume k: "k < 64" "k mod 8 = 7" "bit (uint w - ones 8) k" "\<not> bit (uint w) k"
    then have "k = 8 * (k div 8) + 7" "k div 8 < 8" by presburger+
    with k show "\<exists>i < 8. bit (uint w - ones 8) (8 * i + 7) \<and> \<not> bit (uint w) (8 * i + 7)" by metis
  next
    fix i :: nat
    assume "i < 8" "bit (uint w - ones 8) (8 * i + 7)" "\<not> bit (uint w) (8 * i + 7)"
    then show "\<exists>k < 64. k mod 8 = 7 \<and> bit (uint w - ones 8) k \<and> \<not> bit (uint w) k"
      by (intro exI[of _ "8 * i + 7"]) auto
  qed
  also have "\<dots> \<longleftrightarrow> (\<exists>i < 8. byte w i = 0)" using detect_int[of "uint w" 8] ibyte_uint[of _ w] by auto
  finally show ?thesis .
qed

subsection \<open>A word filled with one byte\<close>

definition fill :: "u8 \<Rightarrow> u64" where
  "fill d =
     (let m = push_bit 8 (ucast d) OR ucast d;
          m = push_bit 16 m OR m
      in push_bit 32 m OR m)"

lemma bit_byte: "n < 8 \<Longrightarrow> bit (byte w i) n \<longleftrightarrow> bit w (8 * i + n)"
  by (simp add: byte_def bit_simps add.commute)

lemma byte_dup:
  assumes "i < 8" and "\<forall>j \<ge> k. byte m j = 0"
  shows "byte (push_bit (8 * k) m OR m) i = (if i < k then byte m i else byte m (i - k))"
proof (rule bit_word_eqI)
  fix n assume "n < LENGTH(8)"
  then have n: "n < 8" by simp
  have hi: "\<not> bit m (8 * i + n)" if "k \<le> i" using assms(2) that bit_byte[OF n, of m i] by auto
  show "bit (byte (push_bit (8 * k) m OR m) i) n = bit (if i < k then byte m i else byte m (i - k)) n"
  proof (cases "i < k")
    case True
    then have "8 * i + n < 8 * k" using n by linarith
    then show ?thesis using True n by (simp add: bit_byte bit_or_iff bit_push_bit_iff)
  next
    case False
    then have "8 * i + n - 8 * k = 8 * (i - k) + n" "8 * k \<le> 8 * i + n" "8 * i + n < 64"
      using n assms(1) by (simp_all add: diff_mult_distrib2)
    then show ?thesis using False n hi by (simp add: bit_byte bit_or_iff bit_push_bit_iff)
  qed
qed

lemma byte_beyond: "8 \<le> i \<Longrightarrow> byte w i = 0"
  by (rule bit_word_eqI) (auto simp: bit_byte dest: bit_imp_le_length)

lemma byte_ucast: "byte (ucast d) i = (if i = 0 then d else 0)"
  by (rule bit_word_eqI) (auto simp: byte_def bit_simps dest: bit_imp_le_length)

lemma byte_fill:
  assumes "i < 8"
  shows "byte (fill d) i = d"
proof -
  define m1 where "m1 = push_bit (8 * 1) (ucast d :: u64) OR ucast d"
  define m2 where "m2 = push_bit (8 * 2) m1 OR m1"
  have 1: "byte m1 j = (if j < 2 then d else 0)" for j
    using byte_dup[of j 1 "ucast d"] by (cases "j < 8") (auto simp: m1_def byte_ucast byte_beyond)
  have 2: "byte m2 j = (if j < 4 then d else 0)" for j
    using 1 byte_dup[of j 2 m1] by (cases "j < 8") (auto simp: m2_def byte_beyond)
  have "fill d = push_bit (8 * 4) m2 OR m2" by (simp add: fill_def m2_def m1_def Let_def)
  then show ?thesis using 2 assms byte_dup[OF assms, of 4 m2] by auto
qed

lemma byte_xor: "byte (v XOR w) i = byte v i XOR byte w i"
  by (rule bit_word_eqI) (auto simp: byte_def bit_simps)

lemma xor_eq_0_u8: "(a XOR b = (0 :: u8)) \<longleftrightarrow> a = b"
  by (metis xor.assoc xor.comm_neutral xor_self_eq)

lemma DETECTCHAR_iff: "DETECTCHAR w (fill d) \<noteq> 0 \<longleftrightarrow> (\<exists>i < 8. byte w i = d)"
  by (auto simp: DETECTCHAR_def DETECTNULL_iff byte_xor byte_fill xor_eq_0_u8)

lemma byte_le_word: "i < 8 \<Longrightarrow> length bs = 8 \<Longrightarrow> byte (le_word bs) i = bs ! i"
proof -
  have "byte (le_word bs) i = bs ! i" if "i < length bs" "length bs \<le> 8" for bs
    using that
  proof (induction bs arbitrary: i)
    case Nil
    then show ?case by simp
  next
    case (Cons b bs)
    have shift: "byte (ucast b OR push_bit 8 w) (Suc j) = byte w j" if "Suc j < 8" for w j
      using that by (intro bit_word_eqI) (auto simp: byte_def bit_simps dest: bit_imp_le_length)
    have low: "byte (ucast b OR push_bit 8 w) 0 = b" for w
      by (rule bit_word_eqI) (auto simp: byte_def bit_simps)
    show ?case
    proof (cases i)
      case 0
      then show ?thesis using low by simp
    next
      case (Suc j)
      then show ?thesis using shift[of j "le_word bs"] Cons.IH[of j] Cons.prems by simp
    qed
  qed
  then show "i < 8 \<Longrightarrow> length bs = 8 \<Longrightarrow> byte (le_word bs) i = bs ! i" by simp
qed

lemma le_bytes_le_word: "length bs = 8 \<Longrightarrow> le_bytes 8 (le_word bs) = bs"
proof -
  have "le_bytes (length bs) (le_word bs) = bs" if "length bs \<le> 8" for bs
    using that
  proof (induction bs)
    case (Cons b bs)
    have "drop_bit 8 (ucast b OR push_bit 8 (w :: u64)) = take_bit 56 w" for w
      by (rule bit_word_eqI) (auto simp: bit_simps dest: bit_imp_le_length)
    moreover have "le_bytes n (take_bit 56 w) = le_bytes n w" if "n < 8" for n and w :: u64
    proof (rule nth_equalityI)
      fix j assume "j < length (le_bytes n (take_bit 56 w))"
      then have "j < n" by simp
      have nth: "le_bytes n v ! j = byte v j" if "j < n" for n v j
        using that
        by (induction n arbitrary: v j) (auto simp: byte_def nth_Cons add.commute split: nat.splits)
      show "le_bytes n (take_bit 56 w) ! j = le_bytes n w ! j"
        using nth[OF \<open>j < n\<close>] \<open>j < n\<close> \<open>n < 8\<close>
        by (auto simp: byte_def bit_simps intro!: bit_word_eqI)
    qed simp
    moreover have "(ucast (ucast b OR push_bit 8 w :: u64) :: u8) = b" for w :: u64
      by (rule bit_word_eqI) (auto simp: bit_simps)
    ultimately show ?case using Cons by simp
  qed simp
  then show "length bs = 8 \<Longrightarrow> le_bytes 8 (le_word bs) = bs" by (metis order_refl)
qed

subsection \<open>Scanning loops\<close>

text \<open>
  The three loops that searching routines are made of: byte by byte up to a word boundary, word by
  word, and byte by byte without a bound.  \<open>Inl\<close> is an address where the scan stopped early.
\<close>

function scan_unaligned :: "(u8 \<Rightarrow> bool) \<Rightarrow> ram \<Rightarrow> nat \<Rightarrow> (nat + nat) res" where
  "scan_unaligned stop m p =
     (if \<not> UNALIGNED p then Ok (Inr p)
      else bnd (rb m p) (\<lambda>c. if stop c then Ok (Inl p) else scan_unaligned stop m (Suc p)))"
  by pat_completeness auto
termination
  by (relation "measure (\<lambda>(stop, m, p). length m - p)") (auto simp: rb_def split: if_splits)

function scan_words :: "(u64 \<Rightarrow> bool) \<Rightarrow> ram \<Rightarrow> nat \<Rightarrow> nat res" where
  "scan_words detect m p =
     bnd (rl m p) (\<lambda>w. if detect w then Ok p else scan_words detect m (p + LBLOCKSIZE))"
  by pat_completeness auto
termination
  by (relation "measure (\<lambda>(detect, m, p). length m - p)") (auto simp: rl_def LBLOCKSIZE_def split: if_splits)

function scan_bytes :: "('a \<Rightarrow> bool) \<Rightarrow> 'a list \<Rightarrow> nat \<Rightarrow> nat res" where
  "scan_bytes stop m p = bnd (rb m p) (\<lambda>c. if stop c then Ok p else scan_bytes stop m (Suc p))"
  by pat_completeness auto
termination
  by (relation "measure (\<lambda>(stop, m, p). length m - p)") (auto simp: rb_def split: if_splits)

declare scan_unaligned.simps [simp del] scan_words.simps [simp del] scan_bytes.simps [simp del]

text \<open>\<open>first_at stop m p n\<close>: the first byte from \<open>p\<close> on that stops the scan is \<open>n\<close> bytes away.\<close>

definition first_at :: "('a \<Rightarrow> bool) \<Rightarrow> 'a list \<Rightarrow> nat \<Rightarrow> nat \<Rightarrow> bool" where
  "first_at stop m p n \<longleftrightarrow> p + n < length m \<and> stop (m ! (p + n)) \<and> (\<forall>i < n. \<not> stop (m ! (p + i)))"

lemma first_at_step: "first_at stop m p n \<Longrightarrow> k \<le> n \<Longrightarrow> first_at stop m (p + k) (n - k)"
  unfolding first_at_def by (auto simp: add.assoc)

lemma scan_bytes_first: "first_at stop m p n \<Longrightarrow> scan_bytes stop m p = Ok (p + n)"
proof (induction n arbitrary: p)
  case 0
  then show ?case by (subst scan_bytes.simps) (simp add: first_at_def rb_def)
next
  case (Suc n)
  from Suc.prems have "\<not> stop (m ! p)" "p < length m" unfolding first_at_def by (force, simp)
  moreover have "scan_bytes stop m (Suc p) = Ok (Suc p + n)"
    using Suc.IH[of "Suc p"] first_at_step[OF Suc.prems, of 1] by simp
  ultimately show ?case by (subst scan_bytes.simps) (simp add: rb_def)
qed

lemma scan_unaligned_first:
  assumes "first_at stop m p n"
  shows "scan_unaligned stop m p = Ok (Inl (p + n)) \<or>
    (\<exists>k \<le> n. scan_unaligned stop m p = Ok (Inr (p + k)) \<and> (p + k) mod 8 = 0)"
  using assms
proof (induction n arbitrary: p)
  case 0
  then show ?case by (subst (1 2) scan_unaligned.simps) (auto simp: first_at_def rb_def UNALIGNED_def)
next
  case (Suc n)
  show ?case
  proof (cases "UNALIGNED p")
    case False
    then show ?thesis by (subst (1 2) scan_unaligned.simps) (auto simp: UNALIGNED_def intro: exI[of _ 0])
  next
    case True
    from Suc.prems have "\<not> stop (m ! p)" "p < length m" unfolding first_at_def by (force, simp)
    then have "scan_unaligned stop m p = scan_unaligned stop m (Suc p)"
      using True by (subst scan_unaligned.simps) (simp add: rb_def)
    moreover have "first_at stop m (Suc p) n" using first_at_step[OF Suc.prems, of 1] by simp
    note Suc.IH[OF this]
    ultimately show ?thesis by (metis Suc_le_mono add_Suc_shift)
  qed
qed

text \<open>
  The interface between a byte test and its word-sized version: what the word test promises, and
  what the searching routines draw from it.
\<close>

locale word_scan =
  fixes stop :: "u8 \<Rightarrow> bool" and detect :: "u64 \<Rightarrow> bool"
  assumes detect_iff: "detect w \<longleftrightarrow> (\<exists>i < 8. stop (byte w i))"
begin

lemma scan_words_first:
  assumes "first_at stop m p n" and "p mod 8 = 0" and "8 dvd length m"
  shows "scan_words detect m p = Ok (p + 8 * (n div 8))"
  using assms
proof (induction n arbitrary: p rule: less_induct)
  case (less n)
  let ?bs = "take 8 (drop p m)"
  have b: "p + 8 \<le> length m"
  proof -
    have "p < length m" using less.prems(1) by (simp add: first_at_def)
    then show ?thesis using less.prems(2,3) by presburger
  qed
  then have bs: "length ?bs = 8" "\<And>i. i < 8 \<Longrightarrow> byte (le_word ?bs) i = m ! (p + i)"
    using byte_le_word[of _ ?bs] by auto
  show ?case
  proof (cases "n < 8")
    case True
    then have "detect (le_word ?bs)" using less.prems(1) bs(2) unfolding detect_iff first_at_def by metis
    then show ?thesis using True b by (subst scan_words.simps) (simp add: rl_def)
  next
    case False
    then have "\<not> detect (le_word ?bs)" using less.prems(1) bs(2) unfolding detect_iff first_at_def by auto
    then have "scan_words detect m p = scan_words detect m (p + 8)"
      using b by (subst scan_words.simps) (simp add: rl_def LBLOCKSIZE_def)
    also have "\<dots> = Ok (p + 8 + 8 * ((n - 8) div 8))"
      using less.prems False first_at_step[OF less.prems(1), of 8] by (intro less.IH) auto
    finally show ?thesis using False by (simp add: le_div_geq)
  qed
qed

lemma scan_word_then_bytes:
  assumes "first_at stop m p n" and "p mod 8 = 0" and "8 dvd length m"
  shows "bnd (scan_words detect m p) (scan_bytes stop m) = Ok (p + n)"
proof -
  have "first_at stop m (p + 8 * (n div 8)) (n - 8 * (n div 8))"
    using assms(1) by (rule first_at_step) simp
  then have "scan_bytes stop m (p + 8 * (n div 8)) = Ok (p + 8 * (n div 8) + (n - 8 * (n div 8)))"
    by (rule scan_bytes_first)
  moreover have "p + 8 * (n div 8) + (n - 8 * (n div 8)) = p + n"
    using times_div_less_eq_dividend[of 8 n] by simp
  ultimately show ?thesis using scan_words_first[OF assms] by simp
qed

text \<open>The whole search: align, words, bytes.\<close>

lemma scan_all:
  assumes "first_at stop m p n" and "8 dvd length m"
  shows "bnd (scan_unaligned stop m p) (\<lambda>r. case r of Inl q \<Rightarrow> f q
      | Inr q \<Rightarrow> bnd (scan_words detect m q) (\<lambda>q. bnd (scan_bytes stop m q) f)) = f (p + n)"
proof -
  consider "scan_unaligned stop m p = Ok (Inl (p + n))"
    | k where "k \<le> n" "scan_unaligned stop m p = Ok (Inr (p + k))" "(p + k) mod 8 = 0"
    using scan_unaligned_first[OF assms(1)] by (elim disjE exE conjE)
  then show ?thesis
  proof cases
    case 1
    then show ?thesis by simp
  next
    case 2
    have e: "bnd (scan_words detect m (p + k)) (scan_bytes stop m) = Ok (p + k + (n - k))"
      by (rule scan_word_then_bytes[OF first_at_step[OF assms(1) 2(1)] 2(3) assms(2)])
    have "p + k + (n - k) = p + n" using 2(1) by simp
    then show ?thesis
      unfolding 2(2) bnd_Ok sum.case using e bnd_assoc[of "scan_words detect m (p + k)" "scan_bytes stop m" f]
      by (simp only: bnd_Ok)
  qed
qed

end

interpretation nul: word_scan "\<lambda>c. c = 0" "\<lambda>w. DETECTNULL w \<noteq> 0"
  by unfold_locales (simp add: DETECTNULL_iff)

interpretation chr: word_scan "\<lambda>c. c = d" "\<lambda>w. DETECTCHAR w (fill d) \<noteq> 0" for d
  by unfold_locales (simp add: DETECTCHAR_iff)

interpretation nulchr: word_scan "\<lambda>c. c = 0 \<or> c = d" "\<lambda>w. DETECTNULL w \<noteq> 0 \<or> DETECTCHAR w (fill d) \<noteq> 0" for d
  by unfold_locales (auto simp: DETECTNULL_iff DETECTCHAR_iff)

end
