(* ===== verification/Libc_Search.thy ===== *)
theory Libc_Search
  imports Libc_Mem
begin

text \<open>
  Searching routines of \<open>src/libc/string\<close>: \<open>strlen\<close>, \<open>strnlen\<close>, \<open>rawmemchr\<close>, \<open>strchr\<close>,
  \<open>strchrnul\<close>, \<open>strrchr\<close>, \<open>memchr\<close>, \<open>memrchr\<close>, \<open>strspn\<close>, \<open>strcspn\<close>, \<open>strpbrk\<close>, in the
  variant for speed, which looks at a word at a time.  The lemmas show that they agree with the
  plain byte-wise search and that the word accesses never leave the memory.  A null result is
  \<open>None\<close>.
\<close>

definition strlen :: "ram \<Rightarrow> nat \<Rightarrow> nat res" where
  "strlen m start =
     bnd (scan_unaligned (\<lambda>c. c = 0) m start) (\<lambda>r. case r of
       Inl p \<Rightarrow> Ok (p - start)
     | Inr p \<Rightarrow> bnd (scan_words (\<lambda>w. DETECTNULL w \<noteq> 0) m p) (\<lambda>p.
                bnd (scan_bytes (\<lambda>c. c = 0) m p) (\<lambda>p. Ok (p - start))))"

fun strnlen_loop :: "ram \<Rightarrow> nat \<Rightarrow> nat \<Rightarrow> nat res" where
  "strnlen_loop m p 0 = Ok p"
| "strnlen_loop m p (Suc n) = bnd (rb m p) (\<lambda>c. if c = 0 then Ok p else strnlen_loop m (Suc p) n)"

definition strnlen :: "ram \<Rightarrow> nat \<Rightarrow> nat \<Rightarrow> nat res" where
  "strnlen m start n = bnd (strnlen_loop m start n) (\<lambda>p. Ok (p - start))"

definition rawmemchr :: "ram \<Rightarrow> nat \<Rightarrow> u8 \<Rightarrow> nat res" where
  "rawmemchr m src d =
     bnd (scan_unaligned (\<lambda>c. c = d) m src) (\<lambda>r. case r of
       Inl p \<Rightarrow> Ok p
     | Inr p \<Rightarrow> bnd (scan_words (\<lambda>w. DETECTCHAR w (fill d) \<noteq> 0) m p) (\<lambda>p.
                bnd (scan_bytes (\<lambda>c. c = d) m p) Ok))"

definition strchr :: "ram \<Rightarrow> nat \<Rightarrow> u8 \<Rightarrow> nat option res" where
  "strchr m s c =
     (if c = 0 then
        bnd (scan_unaligned (\<lambda>x. x = 0) m s) (\<lambda>r. case r of
          Inl p \<Rightarrow> Ok (Some p)
        | Inr p \<Rightarrow> bnd (scan_words (\<lambda>w. DETECTNULL w \<noteq> 0) m p) (\<lambda>p.
                   bnd (scan_bytes (\<lambda>x. x = 0) m p) (\<lambda>p. Ok (Some p))))
      else
        bnd (scan_unaligned (\<lambda>x. x = 0 \<or> x = c) m s) (\<lambda>r. case r of
          Inl p \<Rightarrow> bnd (rb m p) (\<lambda>x. Ok (if x = 0 then None else Some p))
        | Inr p \<Rightarrow> bnd (scan_words (\<lambda>w. DETECTNULL w \<noteq> 0 \<or> DETECTCHAR w (fill c) \<noteq> 0) m p) (\<lambda>p.
                   bnd (scan_bytes (\<lambda>x. x = 0 \<or> x = c) m p) (\<lambda>p.
                   bnd (rb m p) (\<lambda>x. Ok (if x = c then Some p else None))))))"

definition strchrnul :: "ram \<Rightarrow> nat \<Rightarrow> u8 \<Rightarrow> nat res" where
  "strchrnul m s1 i = bnd (strchr m s1 i) (\<lambda>r. case r of
      Some s \<Rightarrow> Ok s
    | None \<Rightarrow> bnd (strlen m s1) (\<lambda>n. Ok (s1 + n)))"

lemma scan_bytes_result: "scan_bytes stop m p = Ok q \<Longrightarrow> p \<le> q \<and> q < length m \<and> stop (m ! q)"
proof (induction stop m p rule: scan_bytes.induct)
  case (1 stop m p)
  then show ?case
    by (subst (asm) (2) scan_bytes.simps) (auto simp: rb_def split: if_splits)
qed

lemma scan_words_result: "scan_words detect m p = Ok q \<Longrightarrow> p \<le> q"
proof (induction detect m p rule: scan_words.induct)
  case (1 detect m p)
  then show ?case
    by (subst (asm) (2) scan_words.simps) (fastforce simp: rl_def LBLOCKSIZE_def split: if_splits)
qed

lemma scan_unaligned_result:
  "scan_unaligned stop m p = Ok r \<Longrightarrow> case r of Inl q \<Rightarrow> p \<le> q \<and> q < length m \<and> stop (m ! q) | Inr q \<Rightarrow> p \<le> q"
proof (induction stop m p rule: scan_unaligned.induct)
  case (1 stop m p)
  then show ?case
    by (subst (asm) (2) scan_unaligned.simps) (auto simp: rb_def split: if_splits sum.splits)
qed

lemma strchr_result:
  assumes "strchr m s c = Ok (Some q)"
  shows "s \<le> q \<and> q < length m \<and> m ! q = c"
proof -
  obtain stop r where u: "scan_unaligned stop m s = Ok r"
    and stop: "stop = (if c = 0 then (\<lambda>x. x = 0) else (\<lambda>x. x = 0 \<or> x = c))"
    using assms by (auto simp: strchr_def bnd_eq_Ok split: if_splits)
  show ?thesis
  proof (cases r)
    case (Inl p)
    then show ?thesis
      using assms u scan_unaligned_result[OF u]
      by (auto simp: strchr_def stop rb_def split: if_splits)
  next
    case (Inr p)
    obtain detect p1 p2 where "scan_words detect m p = Ok p1" "scan_bytes stop m p1 = Ok p2" "p2 = q" "m ! q = c \<or> c = 0"
      using assms u Inr by (cases "c = 0") (auto simp: strchr_def stop bnd_eq_Ok rb_def split: if_splits)
    then show ?thesis
      using scan_unaligned_result[OF u] Inr scan_words_result scan_bytes_result[of stop m p1 p2]
      by (fastforce simp: stop split: if_splits)
  qed
qed

text \<open>\<open>strrchr\<close> repeats \<open>strchr\<close> behind the last hit.\<close>

function strrchr_loop :: "ram \<Rightarrow> nat \<Rightarrow> u8 \<Rightarrow> nat option \<Rightarrow> nat option res" where
  "strrchr_loop m s c lst = bnd (strchr m s c) (\<lambda>r. case r of
      None \<Rightarrow> Ok lst
    | Some q \<Rightarrow> strrchr_loop m (Suc q) c (Some q))"
  by pat_completeness auto
termination
  by (relation "measure (\<lambda>(m, s, c, lst). length m - s)") (auto dest: strchr_result)

definition strrchr :: "ram \<Rightarrow> nat \<Rightarrow> u8 \<Rightarrow> nat option res" where
  "strrchr m s c = (if c \<noteq> 0 then strrchr_loop m s c None else strchr m s c)"

subsection \<open>Bounded search\<close>

function memchr_align :: "u8 \<Rightarrow> ram \<Rightarrow> nat \<Rightarrow> nat \<Rightarrow> (nat option + nat \<times> nat) res" where
  "memchr_align d m src len =
     (if \<not> UNALIGNED src then Ok (Inr (src, len))
      else if len = 0 then Ok (Inl None)
      else bnd (rb m src) (\<lambda>c.
        if c = d then Ok (Inl (Some src)) else memchr_align d m (Suc src) (len - 1)))"
  by pat_completeness auto
termination
  by (relation "measure (\<lambda>(d, m, src, len). len)") auto

function memchr_words :: "u64 \<Rightarrow> ram \<Rightarrow> nat \<Rightarrow> nat \<Rightarrow> (nat \<times> nat) res" where
  "memchr_words msk m asrc len =
     (if LBLOCKSIZE \<le> len
      then bnd (rl m asrc) (\<lambda>w. if DETECTCHAR w msk \<noteq> 0 then Ok (asrc, len)
             else memchr_words msk m (asrc + LBLOCKSIZE) (len - LBLOCKSIZE))
      else Ok (asrc, len))"
  by pat_completeness auto
termination
  by (relation "measure (\<lambda>(msk, m, src, len). len)") (auto simp: LBLOCKSIZE_def)

fun memchr_bytes :: "u8 \<Rightarrow> ram \<Rightarrow> nat \<Rightarrow> nat \<Rightarrow> nat option res" where
  "memchr_bytes d m src 0 = Ok None"
| "memchr_bytes d m src (Suc n) = bnd (rb m src) (\<lambda>c.
     if c = d then Ok (Some src) else memchr_bytes d m (Suc src) n)"

definition memchr :: "ram \<Rightarrow> nat \<Rightarrow> u8 \<Rightarrow> nat \<Rightarrow> nat option res" where
  "memchr m src d len = bnd (memchr_align d m src len) (\<lambda>r. case r of
      Inl q \<Rightarrow> Ok q
    | Inr (src, len) \<Rightarrow>
        bnd (if \<not> len < LBLOCKSIZE then memchr_words (fill d) m src len else Ok (src, len))
          (\<lambda>(src, len). memchr_bytes d m src len))"

text \<open>\<open>memrchr\<close> goes backwards; its \<open>src\<close> is the byte in front of the address \<open>e\<close> used here, so
  that a search from address 0 needs no address below it.\<close>

function memrchr_align :: "u8 \<Rightarrow> ram \<Rightarrow> nat \<Rightarrow> nat \<Rightarrow> (nat option + nat \<times> nat) res" where
  "memrchr_align d m e len =
     (if \<not> UNALIGNED e then Ok (Inr (e, len))
      else if len = 0 then Ok (Inl None)
      else bnd (rb m (e - 1)) (\<lambda>c.
        if c = d then Ok (Inl (Some (e - 1))) else memrchr_align d m (e - 1) (len - 1)))"
  by pat_completeness auto
termination
  by (relation "measure (\<lambda>(d, m, e, len). len)") auto

function memrchr_words :: "u64 \<Rightarrow> ram \<Rightarrow> nat \<Rightarrow> nat \<Rightarrow> (nat \<times> nat) res" where
  "memrchr_words msk m e len =
     (if LBLOCKSIZE \<le> len
      then bnd (rl m (e - LBLOCKSIZE)) (\<lambda>w. if DETECTCHAR w msk \<noteq> 0 then Ok (e, len)
             else memrchr_words msk m (e - LBLOCKSIZE) (len - LBLOCKSIZE))
      else Ok (e, len))"
  by pat_completeness auto
termination
  by (relation "measure (\<lambda>(msk, m, e, len). len)") (auto simp: LBLOCKSIZE_def)

fun memrchr_bytes :: "u8 \<Rightarrow> ram \<Rightarrow> nat \<Rightarrow> nat \<Rightarrow> nat option res" where
  "memrchr_bytes d m e 0 = Ok None"
| "memrchr_bytes d m e (Suc n) = bnd (rb m (e - 1)) (\<lambda>c.
     if c = d then Ok (Some (e - 1)) else memrchr_bytes d m (e - 1) n)"

definition memrchr :: "ram \<Rightarrow> nat \<Rightarrow> u8 \<Rightarrow> nat \<Rightarrow> nat option res" where
  "memrchr m src_void d len = bnd (memrchr_align d m (src_void + len) len) (\<lambda>r. case r of
      Inl q \<Rightarrow> Ok q
    | Inr (e, len) \<Rightarrow>
        bnd (if \<not> len < LBLOCKSIZE then memrchr_words (fill d) m e len else Ok (e, len))
          (\<lambda>(e, len). memrchr_bytes d m e len))"

subsection \<open>Character sets\<close>

text \<open>Is \<open>x\<close> one of the characters of the string at \<open>c\<close>?  \<open>None\<close> when the end is reached.\<close>

function in_set :: "'a :: zero \<Rightarrow> 'a list \<Rightarrow> nat \<Rightarrow> bool res" where
  "in_set x m c = bnd (rb m c) (\<lambda>y. if y = 0 then Ok False else if x = y then Ok True else in_set x m (Suc c))"
  by pat_completeness auto
termination
  by (relation "measure (\<lambda>(x, m, c). length m - c)") (auto simp: rb_def split: if_splits)

function span_loop :: "bool \<Rightarrow> 'a :: zero list \<Rightarrow> nat \<Rightarrow> nat \<Rightarrow> nat res" where
  "span_loop want m s1 s2 = bnd (rb m s1) (\<lambda>x.
     if x = 0 then Ok s1
     else bnd (in_set x m s2) (\<lambda>found. if found = want then span_loop want m (Suc s1) s2 else Ok s1))"
  by pat_completeness auto
termination
  by (relation "measure (\<lambda>(w, m, s1, s2). length m - s1)") (auto simp: rb_def split: if_splits)

definition strspn :: "ram \<Rightarrow> nat \<Rightarrow> nat \<Rightarrow> nat res" where
  "strspn m s1 s2 = bnd (span_loop True m s1 s2) (\<lambda>p. Ok (p - s1))"

definition strcspn :: "ram \<Rightarrow> nat \<Rightarrow> nat \<Rightarrow> nat res" where
  "strcspn m s1 s2 = bnd (span_loop False m s1 s2) (\<lambda>p. Ok (p - s1))"

definition strpbrk :: "ram \<Rightarrow> nat \<Rightarrow> nat \<Rightarrow> nat option res" where
  "strpbrk m s1 s2 = bnd (span_loop False m s1 s2) (\<lambda>p. bnd (rb m p) (\<lambda>c.
     Ok (if c = 0 then None else Some p)))"

declare strrchr_loop.simps [simp del] memchr_align.simps [simp del] memchr_words.simps [simp del]
  memrchr_align.simps [simp del] memrchr_words.simps [simp del] in_set.simps [simp del]
  span_loop.simps [simp del]

subsection \<open>Strings\<close>

text \<open>\<open>cstr m p xs\<close>: the null-terminated string \<open>xs\<close> is at \<open>p\<close>.\<close>

definition cstr :: "'a :: zero list \<Rightarrow> nat \<Rightarrow> 'a list \<Rightarrow> bool" where
  "cstr m p xs \<longleftrightarrow> p + length xs < length m \<and> (\<forall>i < length xs. m ! (p + i) = xs ! i) \<and>
     m ! (p + length xs) = 0 \<and> 0 \<notin> set xs"

lemma cstr_first_nul: "cstr m p xs \<Longrightarrow> first_at (\<lambda>c. c = 0) m p (length xs)"
  unfolding cstr_def first_at_def by (metis nth_mem)

lemma cstr_drop: "cstr m p xs \<Longrightarrow> k \<le> length xs \<Longrightarrow> cstr m (p + k) (drop k xs)"
  by (auto simp: cstr_def add.assoc dest: in_set_dropD)

lemma cstr_Cons: "cstr m p (x # xs) \<longleftrightarrow> p < length m \<and> m ! p = x \<and> x \<noteq> 0 \<and> cstr m (Suc p) xs"
  by (auto simp: cstr_def All_less_Suc2)

lemma cstr_Nil: "cstr m p [] \<longleftrightarrow> p < length m \<and> m ! p = 0"
  by (simp add: cstr_def)

lemma cstr_at: "cstr m p xs \<Longrightarrow> i \<le> length xs \<Longrightarrow> rb m (p + i) = Ok ((xs @ [0]) ! i)"
  by (cases "i = length xs") (auto simp: cstr_def rb_def nth_append)

primrec index_of :: "'a \<Rightarrow> 'a list \<Rightarrow> nat" where
  "index_of c [] = 0"
| "index_of c (x # xs) = (if x = c then 0 else Suc (index_of c xs))"

lemma index_of_first: "i < index_of c xs \<Longrightarrow> xs ! i \<noteq> c"
  by (induction xs arbitrary: i) (auto simp: nth_Cons split: if_splits nat.splits)

lemma index_of_mem: "c \<in> set xs \<Longrightarrow> index_of c xs < length xs \<and> xs ! index_of c xs = c"
  by (induction xs) auto

lemma index_of_notin: "c \<notin> set xs \<Longrightarrow> index_of c xs = length xs"
  by (induction xs) auto

lemma index_of_le: "index_of c xs \<le> length xs"
  by (induction xs) auto

lemma cstr_first_nulchr:
  assumes "cstr m p xs"
  shows "first_at (\<lambda>x. x = 0 \<or> x = c) m p (index_of c xs)"
proof -
  have i: "m ! (p + i) = (xs @ [0]) ! i" if "i \<le> length xs" for i
    using assms that by (cases "i = length xs") (auto simp: cstr_def nth_append)
  have "(xs @ [0]) ! index_of c xs = 0 \<or> (xs @ [0]) ! index_of c xs = c"
    using index_of_mem[of c xs] index_of_le[of c xs]
    by (cases "c \<in> set xs") (auto simp: nth_append index_of_notin)
  moreover have "xs ! i \<noteq> c" "xs ! i \<noteq> 0" if "i < index_of c xs" for i
  proof -
    have "i < length xs" using that index_of_le[of c xs] by linarith
    then show "xs ! i \<noteq> 0" using assms by (metis cstr_def nth_mem)
    show "xs ! i \<noteq> c" using that by (rule index_of_first)
  qed
  ultimately show ?thesis
    using i index_of_le[of c xs] assms by (auto simp: first_at_def nth_append cstr_def)
qed

lemma strlen_cstr: "cstr m p xs \<Longrightarrow> 8 dvd length m \<Longrightarrow> strlen m p = Ok (length xs)"
  using nul.scan_all[OF cstr_first_nul, of m p xs "\<lambda>q. Ok (q - p)"] by (simp add: strlen_def)

lemma rawmemchr_first: "first_at (\<lambda>c. c = d) m p n \<Longrightarrow> 8 dvd length m \<Longrightarrow> rawmemchr m p d = Ok (p + n)"
  using chr.scan_all[of d m p n Ok] by (simp add: rawmemchr_def)

lemma strchr_cstr:
  assumes "cstr m p xs" and "8 dvd length m"
  shows "strchr m p c = Ok (if c = 0 then Some (p + length xs)
    else if c \<in> set xs then Some (p + index_of c xs) else None)"
proof (cases "c = 0")
  case True
  then show ?thesis
    using nul.scan_all[OF cstr_first_nul[OF assms(1)] assms(2), of "\<lambda>q. Ok (Some q)"]
    by (simp add: strchr_def)
next
  case False
  let ?n = "index_of c xs"
  let ?f = "\<lambda>q. bnd (rb m q) (\<lambda>x. Ok (if x = c then Some q else None))"
  have x: "rb m (p + ?n) = Ok (if c \<in> set xs then c else 0)"
    using cstr_at[OF assms(1), of ?n] index_of_le[of c xs] index_of_mem[of c xs]
    by (auto simp: nth_append index_of_notin)
  have "bnd (scan_unaligned (\<lambda>x. x = 0 \<or> x = c) m p) (\<lambda>r. case r of Inl q \<Rightarrow> ?f q
      | Inr q \<Rightarrow> bnd (scan_words (\<lambda>w. DETECTNULL w \<noteq> 0 \<or> DETECTCHAR w (fill c) \<noteq> 0) m q)
          (\<lambda>q. bnd (scan_bytes (\<lambda>x. x = 0 \<or> x = c) m q) ?f)) = ?f (p + ?n)"
    using cstr_first_nulchr[OF assms(1)] assms(2) by (rule nulchr.scan_all)
  moreover have "bnd (rb m q) (\<lambda>x. Ok (if x = 0 then None else Some q)) = ?f q"
    if "scan_unaligned (\<lambda>x. x = 0 \<or> x = c) m p = Ok (Inl q)" for q
    using scan_unaligned_result[OF that] False by (auto simp: rb_def)
  ultimately have "strchr m p c = ?f (p + ?n)"
    using False unfolding strchr_def
    by (cases "scan_unaligned (\<lambda>x. x = 0 \<or> x = c) m p") (auto split: sum.splits)
  then show ?thesis using x False by simp
qed

lemma strchrnul_cstr:
  assumes "cstr m p xs" and "8 dvd length m" and "c \<noteq> 0"
  shows "strchrnul m p c = Ok (p + index_of c xs)"
  using assms strchr_cstr[OF assms(1,2), of c] strlen_cstr[OF assms(1,2)]
  by (auto simp: strchrnul_def index_of_notin)

text \<open>The position of the last occurrence.\<close>

fun last_index :: "'a \<Rightarrow> 'a list \<Rightarrow> nat option" where
  "last_index c [] = None"
| "last_index c (x # xs) = (case last_index c xs of Some i \<Rightarrow> Some (Suc i) | None \<Rightarrow> if x = c then Some 0 else None)"

lemma last_index_None: "last_index c xs = None \<longleftrightarrow> c \<notin> set xs"
  by (induction xs) (auto split: option.splits)

lemma last_index_Some:
  "last_index c xs = Some i \<longleftrightarrow> i < length xs \<and> xs ! i = c \<and> (\<forall>j. i < j \<longrightarrow> j < length xs \<longrightarrow> xs ! j \<noteq> c)"
proof (induction xs arbitrary: i)
  case Nil
  then show ?case by simp
next
  case (Cons x xs)
  show ?case
  proof (cases "last_index c xs")
    case None
    then have "c \<notin> set xs" by (simp add: last_index_None)
    then show ?thesis using None by (cases i) (auto simp: nth_Cons split: nat.splits)
  next
    case (Some k)
    have k: "k < length xs" "xs ! k = c" using Cons.IH[of k] Some by auto
    show ?thesis
    proof (cases i)
      case 0
      then show ?thesis using Some k by (auto intro: exI[of _ "Suc k"])
    next
      case (Suc j)
      then show ?thesis using Some Cons.IH[of j] by (auto simp: nth_Cons split: nat.splits)
    qed
  qed
qed

lemma last_index_split:
  "c \<in> set xs \<Longrightarrow> last_index c xs = (case last_index c (drop (Suc (index_of c xs)) xs) of
     None \<Rightarrow> Some (index_of c xs) | Some i \<Rightarrow> Some (Suc (index_of c xs) + i))"
  by (induction xs) (auto split: option.splits)

lemma strrchr_loop_cstr:
  assumes "cstr m p xs" and "8 dvd length m" and "c \<noteq> 0"
  shows "strrchr_loop m p c lst = Ok (case last_index c xs of None \<Rightarrow> lst | Some i \<Rightarrow> Some (p + i))"
  using assms
proof (induction "length xs" arbitrary: xs p lst rule: less_induct)
  case less
  show ?case
  proof (cases "c \<in> set xs")
    case False
    then show ?thesis
      using strchr_cstr[OF less.prems(1,2), of c] less.prems(3) last_index_None[of c xs]
      by (subst strrchr_loop.simps) simp
  next
    case True
    let ?i = "index_of c xs"
    have i: "?i < length xs" using index_of_mem[OF True] by simp
    then have tl: "cstr m (Suc (p + ?i)) (drop (Suc ?i) xs)"
      using cstr_drop[OF less.prems(1), of "Suc ?i"] by simp
    have "strrchr_loop m p c lst = strrchr_loop m (Suc (p + ?i)) c (Some (p + ?i))"
      using strchr_cstr[OF less.prems(1,2), of c] less.prems(3) True by (subst strrchr_loop.simps) simp
    also have "\<dots> = Ok (case last_index c (drop (Suc ?i) xs) of None \<Rightarrow> Some (p + ?i)
        | Some j \<Rightarrow> Some (Suc (p + ?i) + j))"
      using i tl less.prems(2,3) by (intro less.hyps) auto
    finally show ?thesis using last_index_split[OF True] by (simp split: option.splits)
  qed
qed

lemma strrchr_cstr:
  assumes "cstr m p xs" and "8 dvd length m" and "c \<noteq> 0"
  shows "strrchr m p c = Ok (map_option ((+) p) (last_index c xs))"
  using strrchr_loop_cstr[OF assms, of None] assms(3) by (simp add: strrchr_def split: option.splits)

subsection \<open>Bounded search\<close>

text \<open>The reference: the first, and the last, of \<open>n\<close> bytes that equals \<open>d\<close>.\<close>

primrec find_byte :: "u8 \<Rightarrow> ram \<Rightarrow> nat \<Rightarrow> nat \<Rightarrow> nat option" where
  "find_byte d m p 0 = None"
| "find_byte d m p (Suc n) = (if find_byte d m p n \<noteq> None then find_byte d m p n
     else if m ! (p + n) = d then Some (p + n) else None)"

primrec find_last :: "u8 \<Rightarrow> ram \<Rightarrow> nat \<Rightarrow> nat \<Rightarrow> nat option" where
  "find_last d m p 0 = None"
| "find_last d m p (Suc n) = (if m ! (p + n) = d then Some (p + n) else find_last d m p n)"

lemma find_byte_None: "find_byte d m p n = None \<longleftrightarrow> (\<forall>i < n. m ! (p + i) \<noteq> d)"
  by (induction n) (auto simp: less_Suc_eq)

lemma find_byte_Some:
  "find_byte d m p n = Some q \<longleftrightarrow> (\<exists>i < n. q = p + i \<and> m ! q = d \<and> (\<forall>j < i. m ! (p + j) \<noteq> d))"
proof (induction n)
  case 0
  then show ?case by simp
next
  case (Suc n)
  show ?case
  proof (cases "find_byte d m p n")
    case None
    then show ?thesis using find_byte_None[of d m p n] by (auto simp: less_Suc_eq)
  next
    case (Some r)
    then show ?thesis using Suc find_byte_None[of d m p n] by (auto simp: less_Suc_eq)
  qed
qed

lemma find_byte_Cons:
  "find_byte d m p (Suc n) = (if m ! p = d then Some p else find_byte d m (Suc p) n)"
  by (induction n) auto

lemma find_byte_skip: "(\<forall>i < k. m ! (p + i) \<noteq> d) \<Longrightarrow> k \<le> n \<Longrightarrow> find_byte d m p n = find_byte d m (p + k) (n - k)"
proof (induction k)
  case 0
  then show ?case by simp
next
  case (Suc k)
  then have "find_byte d m p n = find_byte d m (p + k) (Suc (n - Suc k))" by (simp add: Suc_diff_Suc)
  then show ?case using Suc.prems by (simp only: find_byte_Cons) simp
qed

lemma find_last_skip: "(\<forall>i < k. m ! (p + n - 1 - i) \<noteq> d) \<Longrightarrow> k \<le> n \<Longrightarrow> find_last d m p n = find_last d m p (n - k)"
proof (induction k)
  case 0
  then show ?case by simp
next
  case (Suc k)
  then have "find_last d m p n = find_last d m p (Suc (n - Suc k))" by (simp add: Suc_diff_Suc)
  moreover have "p + n - 1 - k = p + (n - Suc k)" using Suc.prems(2) by simp
  ultimately show ?case using Suc.prems by auto
qed

lemma memchr_bytes_find: "p + n \<le> length m \<Longrightarrow> memchr_bytes d m p n = Ok (find_byte d m p n)"
  by (induction n arbitrary: p) (auto simp: rb_def simp del: find_byte.simps(2) simp add: find_byte_Cons)

lemma word_no_char:
  assumes "p + 8 \<le> length m" and "DETECTCHAR (le_word (take 8 (drop p m))) (fill d) = 0"
  shows "\<forall>i < 8. m ! (p + i) \<noteq> d"
  using assms DETECTCHAR_iff[of "le_word (take 8 (drop p m))" d] byte_le_word[of _ "take 8 (drop p m)"]
  by auto

lemma memchr_words_find:
  assumes "p + n \<le> length m"
  shows "\<exists>q k. memchr_words (fill d) m p n = Ok (q, k) \<and> q + k \<le> length m \<and> find_byte d m q k = find_byte d m p n"
  using assms
proof (induction n arbitrary: p rule: less_induct)
  case (less n)
  show ?case
  proof (cases "8 \<le> n \<and> DETECTCHAR (le_word (take 8 (drop p m))) (fill d) = 0")
    case True
    then have "memchr_words (fill d) m p n = memchr_words (fill d) m (p + 8) (n - 8)"
      using less.prems by (subst memchr_words.simps) (simp add: rl_def LBLOCKSIZE_def)
    moreover have "find_byte d m p n = find_byte d m (p + 8) (n - 8)"
      using True less.prems by (intro find_byte_skip word_no_char) auto
    ultimately show ?thesis using less.IH[of "n - 8" "p + 8"] True less.prems by auto
  next
    case False
    then have "memchr_words (fill d) m p n = Ok (p, n)"
      using less.prems by (subst memchr_words.simps) (auto simp: rl_def LBLOCKSIZE_def)
    then show ?thesis using less.prems by blast
  qed
qed

lemma memchr_align_find:
  assumes "p + n \<le> length m"
  shows "memchr_align d m p n = Ok (Inl (find_byte d m p n)) \<or>
    (\<exists>q k. memchr_align d m p n = Ok (Inr (q, k)) \<and> q + k \<le> length m \<and> find_byte d m q k = find_byte d m p n)"
  using assms
proof (induction n arbitrary: p)
  case 0
  then show ?case by (subst (1 2) memchr_align.simps) simp
next
  case (Suc n)
  have f: "find_byte d m p (Suc n) = (if m ! p = d then Some p else find_byte d m (Suc p) n)"
    by (rule find_byte_Cons)
  show ?case
  proof (cases "UNALIGNED p \<and> m ! p \<noteq> d")
    case True
    then have "memchr_align d m p (Suc n) = memchr_align d m (Suc p) n"
      using Suc.prems by (subst memchr_align.simps) (simp add: rb_def)
    then show ?thesis using Suc.IH[of "Suc p"] Suc.prems f True by simp
  next
    case False
    then have "memchr_align d m p (Suc n) = Ok (Inl (Some p)) \<and> m ! p = d \<or>
        memchr_align d m p (Suc n) = Ok (Inr (p, Suc n))"
      using Suc.prems by (subst (1 2) memchr_align.simps) (auto simp: rb_def)
    then show ?thesis using f Suc.prems by auto
  qed
qed

lemma memchr_find:
  assumes "p + n \<le> length m"
  shows "memchr m p d n = Ok (find_byte d m p n)"
proof -
  consider "memchr_align d m p n = Ok (Inl (find_byte d m p n))"
    | q k where "memchr_align d m p n = Ok (Inr (q, k))" "q + k \<le> length m" "find_byte d m q k = find_byte d m p n"
    using memchr_align_find[OF assms] by blast
  then show ?thesis
  proof cases
    case 1
    then show ?thesis by (simp add: memchr_def)
  next
    case 2
    then show ?thesis
      using memchr_words_find[OF 2(2), of d] memchr_bytes_find[of _ _ m d] by (auto simp: memchr_def)
  qed
qed

subsection \<open>Bounded search from the end\<close>

lemma memrchr_bytes_find: "p + n \<le> length m \<Longrightarrow> memrchr_bytes d m (p + n) n = Ok (find_last d m p n)"
  by (induction n) (auto simp: rb_def)

lemma memrchr_words_find:
  assumes "p + n \<le> length m"
  shows "\<exists>k \<le> n. memrchr_words (fill d) m (p + n) n = Ok (p + k, k) \<and> find_last d m p k = find_last d m p n"
  using assms
proof (induction n rule: less_induct)
  case (less n)
  show ?case
  proof (cases "8 \<le> n \<and> DETECTCHAR (le_word (take 8 (drop (p + n - 8) m))) (fill d) = 0")
    case True
    have lt: "n - 8 < n" "p + (n - 8) \<le> length m" using True less.prems by auto
    have "memrchr_words (fill d) m (p + n) n = memrchr_words (fill d) m (p + (n - 8)) (n - 8)"
      using True less.prems by (subst memrchr_words.simps) (simp add: rl_def LBLOCKSIZE_def)
    moreover have "\<forall>i < 8. m ! (p + n - 8 + i) \<noteq> d" using True less.prems by (intro word_no_char) auto
    then have "\<forall>i < 8. m ! (p + n - 1 - i) \<noteq> d"
    proof (intro allI impI)
      fix i :: nat
      assume a: "\<forall>i < 8. m ! (p + n - 8 + i) \<noteq> d" and i: "i < 8"
      have "p + n - 1 - i = p + n - 8 + (7 - i)" using i True by linarith
      then show "m ! (p + n - 1 - i) \<noteq> d" using a[rule_format, of "7 - i"] i by (simp only:) simp
    qed
    then have "find_last d m p n = find_last d m p (n - 8)" using True by (intro find_last_skip) auto
    moreover obtain k where "k \<le> n - 8" "memrchr_words (fill d) m (p + (n - 8)) (n - 8) = Ok (p + k, k)"
        "find_last d m p k = find_last d m p (n - 8)"
      using less.IH[OF lt] by blast
    ultimately show ?thesis by (intro exI[of _ k]) auto
  next
    case False
    then have "memrchr_words (fill d) m (p + n) n = Ok (p + n, n)"
      using less.prems by (subst memrchr_words.simps) (auto simp: rl_def LBLOCKSIZE_def)
    then show ?thesis by blast
  qed
qed

lemma memrchr_align_find:
  assumes "p + n \<le> length m"
  shows "memrchr_align d m (p + n) n = Ok (Inl (find_last d m p n)) \<or>
    (\<exists>k \<le> n. memrchr_align d m (p + n) n = Ok (Inr (p + k, k)) \<and> find_last d m p k = find_last d m p n)"
  using assms
proof (induction n)
  case 0
  then show ?case by (subst (1 2) memrchr_align.simps) simp
next
  case (Suc n)
  show ?case
  proof (cases "UNALIGNED (p + Suc n) \<and> m ! (p + n) \<noteq> d")
    case True
    then have "memrchr_align d m (p + Suc n) (Suc n) = memrchr_align d m (p + n) n"
      using Suc.prems by (subst memrchr_align.simps) (simp add: rb_def)
    moreover have "find_last d m p (Suc n) = find_last d m p n" using True by simp
    ultimately show ?thesis using Suc.IH Suc.prems by (metis Suc_leD le_SucI add_Suc_right)
  next
    case False
    then have "memrchr_align d m (p + Suc n) (Suc n) = Ok (Inl (Some (p + n))) \<and> m ! (p + n) = d \<or>
        memrchr_align d m (p + Suc n) (Suc n) = Ok (Inr (p + Suc n, Suc n))"
      using Suc.prems by (subst (1 2) memrchr_align.simps) (auto simp: rb_def)
    then show ?thesis by auto
  qed
qed

lemma memrchr_find:
  assumes "p + n \<le> length m"
  shows "memrchr m p d n = Ok (find_last d m p n)"
proof -
  consider "memrchr_align d m (p + n) n = Ok (Inl (find_last d m p n))"
    | k where "k \<le> n" "memrchr_align d m (p + n) n = Ok (Inr (p + k, k))" "find_last d m p k = find_last d m p n"
    using memrchr_align_find[OF assms, of d] by blast
  then show ?thesis
  proof cases
    case 1
    then show ?thesis by (simp add: memrchr_def)
  next
    case 2
    then have "p + k \<le> length m" using assms by simp
    then show ?thesis
      using 2 memrchr_words_find[of p k m d] memrchr_bytes_find[of p _ m d] by (auto simp: memrchr_def)
  qed
qed

subsection \<open>Spans\<close>

lemma in_set_cstr: "cstr m p ys \<Longrightarrow> in_set x m p = Ok (x \<in> set ys)"
proof (induction ys arbitrary: p)
  case Nil
  then show ?case by (subst in_set.simps) (simp add: cstr_Nil rb_def)
next
  case (Cons y ys)
  then show ?case by (subst in_set.simps) (auto simp: cstr_Cons rb_def)
qed

lemma span_loop_cstr:
  assumes "cstr m p xs" and "cstr m q ys"
  shows "span_loop want m p q = Ok (p + length (takeWhile (\<lambda>x. (x \<in> set ys) = want) xs))"
  using assms(1)
proof (induction xs arbitrary: p)
  case Nil
  then show ?case by (subst span_loop.simps) (simp add: cstr_Nil rb_def)
next
  case (Cons x xs)
  then show ?case
    using in_set_cstr[OF assms(2), of x] by (subst span_loop.simps) (auto simp: cstr_Cons rb_def)
qed

lemma strspn_cstr:
  "cstr m p xs \<Longrightarrow> cstr m q ys \<Longrightarrow> strspn m p q = Ok (length (takeWhile (\<lambda>x. x \<in> set ys) xs))"
  by (simp add: strspn_def span_loop_cstr)

lemma strcspn_cstr:
  "cstr m p xs \<Longrightarrow> cstr m q ys \<Longrightarrow> strcspn m p q = Ok (length (takeWhile (\<lambda>x. x \<notin> set ys) xs))"
  by (simp add: strcspn_def span_loop_cstr)

end
