(* ===== verification/Libc_Copy.thy ===== *)
theory Libc_Copy
  imports Libc_Search
begin

text \<open>
  Copying and filling routines of \<open>src/libc/string\<close>: \<open>memcpy\<close>, \<open>mempcpy\<close>, \<open>memmove\<close>, \<open>memset\<close>,
  \<open>strcpy\<close>, \<open>stpcpy\<close>, \<open>strncpy\<close>, \<open>stpncpy\<close>, \<open>strcat\<close>, \<open>strncat\<close>.  Each has a byte loop and, for aligned operands, word loops in front of it.  A call
  returns its result together with the new memory.
\<close>

definition BIGBLOCKSIZE :: nat where "BIGBLOCKSIZE = 32"

lemmas block_sizes = BIGBLOCKSIZE_def LBLOCKSIZE_def

fun copy_bytes :: "ram \<Rightarrow> nat \<Rightarrow> nat \<Rightarrow> nat \<Rightarrow> (nat \<times> ram) res" where
  "copy_bytes m dst src 0 = Ok (dst, m)"
| "copy_bytes m dst src (Suc n) =
     bnd (rb m src) (\<lambda>b. bnd (wb m dst b) (\<lambda>m. copy_bytes m (Suc dst) (Suc src) n))"

text \<open>\<open>*aligned_dst++ = *aligned_src++\<close>.\<close>

definition copy_word :: "ram \<Rightarrow> nat \<Rightarrow> nat \<Rightarrow> ram res" where
  "copy_word m dst src = bnd (rl m src) (\<lambda>w. wl m dst w)"

function copy_big :: "ram \<Rightarrow> nat \<Rightarrow> nat \<Rightarrow> nat \<Rightarrow> (ram \<times> nat \<times> nat \<times> nat) res" where
  "copy_big m dst src len =
     (if BIGBLOCKSIZE \<le> len
      then bnd (copy_word m dst src) (\<lambda>m.
           bnd (copy_word m (dst + 8) (src + 8)) (\<lambda>m.
           bnd (copy_word m (dst + 16) (src + 16)) (\<lambda>m.
           bnd (copy_word m (dst + 24) (src + 24)) (\<lambda>m.
             copy_big m (dst + 32) (src + 32) (len - BIGBLOCKSIZE)))))
      else Ok (m, dst, src, len))"
  by pat_completeness auto
termination
  by (relation "measure (\<lambda>(m, dst, src, len). len)") (auto simp: block_sizes)

function copy_little :: "ram \<Rightarrow> nat \<Rightarrow> nat \<Rightarrow> nat \<Rightarrow> (ram \<times> nat \<times> nat \<times> nat) res" where
  "copy_little m dst src len =
     (if LBLOCKSIZE \<le> len
      then bnd (copy_word m dst src) (\<lambda>m. copy_little m (dst + 8) (src + 8) (len - LBLOCKSIZE))
      else Ok (m, dst, src, len))"
  by pat_completeness auto
termination
  by (relation "measure (\<lambda>(m, dst, src, len). len)") (auto simp: block_sizes)

text \<open>The forward copy that \<open>memcpy\<close>, \<open>mempcpy\<close> and \<open>memmove\<close> share; it returns the end of the
  copied area.\<close>

definition copy_forward :: "ram \<Rightarrow> nat \<Rightarrow> nat \<Rightarrow> nat \<Rightarrow> (nat \<times> ram) res" where
  "copy_forward m dst src len =
     bnd (if \<not> len < BIGBLOCKSIZE \<and> \<not> (UNALIGNED src \<or> UNALIGNED dst)
          then bnd (copy_big m dst src len) (\<lambda>(m, dst, src, len). copy_little m dst src len)
          else Ok (m, dst, src, len))
       (\<lambda>(m, dst, src, len). copy_bytes m dst src len)"

definition memcpy :: "ram \<Rightarrow> nat \<Rightarrow> nat \<Rightarrow> nat \<Rightarrow> (nat \<times> ram) res" where
  "memcpy m dst0 src0 len0 = bnd (copy_forward m dst0 src0 len0) (\<lambda>(_, m). Ok (dst0, m))"

definition mempcpy :: "ram \<Rightarrow> nat \<Rightarrow> nat \<Rightarrow> nat \<Rightarrow> (nat \<times> ram) res" where
  "mempcpy m dst0 src0 len0 = copy_forward m dst0 src0 len0"

fun copy_back :: "ram \<Rightarrow> nat \<Rightarrow> nat \<Rightarrow> nat \<Rightarrow> ram res" where
  "copy_back m dst src 0 = Ok m"
| "copy_back m dst src (Suc n) =
     bnd (rb m (src - 1)) (\<lambda>b. bnd (wb m (dst - 1) b) (\<lambda>m. copy_back m (dst - 1) (src - 1) n))"

definition memmove :: "ram \<Rightarrow> nat \<Rightarrow> nat \<Rightarrow> nat \<Rightarrow> (nat \<times> ram) res" where
  "memmove m dst_void src_void len =
     (if src_void < dst_void \<and> dst_void < src_void + len
      then bnd (copy_back m (dst_void + len) (src_void + len) len) (\<lambda>m. Ok (dst_void, m))
      else bnd (copy_forward m dst_void src_void len) (\<lambda>(_, m). Ok (dst_void, m)))"

definition bcopy :: "ram \<Rightarrow> nat \<Rightarrow> nat \<Rightarrow> nat \<Rightarrow> ram res" where
  "bcopy m b1 b2 len = bnd (memmove m b2 b1 len) (\<lambda>(_, m). Ok m)"

subsection \<open>Filling\<close>

function set_align :: "ram \<Rightarrow> nat \<Rightarrow> u8 \<Rightarrow> nat \<Rightarrow> (ram + ram \<times> nat \<times> nat) res" where
  "set_align m s c n =
     (if \<not> UNALIGNED s then Ok (Inr (m, s, n))
      else if n \<noteq> 0 then bnd (wb m s c) (\<lambda>m. set_align m (Suc s) c (n - 1))
      else Ok (Inl m))"
  by pat_completeness auto
termination
  by (relation "measure (\<lambda>(m, s, c, n). n)") auto

function set_big :: "ram \<Rightarrow> nat \<Rightarrow> u64 \<Rightarrow> nat \<Rightarrow> (ram \<times> nat \<times> nat) res" where
  "set_big m s buffer n =
     (if LBLOCKSIZE * 4 \<le> n
      then bnd (wl m s buffer) (\<lambda>m. bnd (wl m (s + 8) buffer) (\<lambda>m.
           bnd (wl m (s + 16) buffer) (\<lambda>m. bnd (wl m (s + 24) buffer) (\<lambda>m.
             set_big m (s + 32) buffer (n - 4 * LBLOCKSIZE)))))
      else Ok (m, s, n))"
  by pat_completeness auto
termination
  by (relation "measure (\<lambda>(m, s, b, n). n)") (auto simp: block_sizes)

function set_words :: "ram \<Rightarrow> nat \<Rightarrow> u64 \<Rightarrow> nat \<Rightarrow> (ram \<times> nat \<times> nat) res" where
  "set_words m s buffer n =
     (if LBLOCKSIZE \<le> n then bnd (wl m s buffer) (\<lambda>m. set_words m (s + 8) buffer (n - LBLOCKSIZE))
      else Ok (m, s, n))"
  by pat_completeness auto
termination
  by (relation "measure (\<lambda>(m, s, b, n). n)") (auto simp: block_sizes)

fun set_bytes :: "ram \<Rightarrow> nat \<Rightarrow> u8 \<Rightarrow> nat \<Rightarrow> ram res" where
  "set_bytes m s c 0 = Ok m"
| "set_bytes m s c (Suc n) = bnd (wb m s c) (\<lambda>m. set_bytes m (Suc s) c n)"

definition memset :: "ram \<Rightarrow> nat \<Rightarrow> u8 \<Rightarrow> nat \<Rightarrow> (nat \<times> ram) res" where
  "memset m s c n = bnd (set_align m s c n) (\<lambda>r. case r of
      Inl m' \<Rightarrow> Ok (s, m')
    | Inr (m', p, k) \<Rightarrow>
        bnd (if \<not> k < LBLOCKSIZE
             then bnd (set_big m' p (fill c) k) (\<lambda>(m', p, k). set_words m' p (fill c) k)
             else Ok (m', p, k))
          (\<lambda>(m', p, k). bnd (set_bytes m' p c k) (\<lambda>m'. Ok (s, m'))))"

definition bzero :: "ram \<Rightarrow> nat \<Rightarrow> nat \<Rightarrow> ram res" where
  "bzero m b len = bnd (memset m b 0 len) (\<lambda>(_, m). Ok m)"

declare copy_big.simps [simp del] copy_little.simps [simp del] set_align.simps [simp del]
  set_big.simps [simp del] set_words.simps [simp del]

subsection \<open>Blocks of memory\<close>

definition mslice :: "'a list \<Rightarrow> nat \<Rightarrow> nat \<Rightarrow> 'a list" where
  "mslice m p n = take n (drop p m)"

lemma length_mslice [simp]: "p + n \<le> length m \<Longrightarrow> length (mslice m p n) = n"
  by (simp add: mslice_def)

lemma nth_mslice [simp]: "p + n \<le> length m \<Longrightarrow> i < n \<Longrightarrow> mslice m p n ! i = m ! (p + i)"
  by (simp add: mslice_def)

lemma length_put [simp]: "p + length bs \<le> length m \<Longrightarrow> length (put m p bs) = length m"
  by (simp add: put_def)

lemma nth_put: "p + length bs \<le> length m \<Longrightarrow> i < length m \<Longrightarrow>
   put m p bs ! i = (if p \<le> i \<and> i < p + length bs then bs ! (i - p) else m ! i)"
  by (auto simp: put_def nth_append)

lemma put_Nil [simp]: "put m p [] = m"
  by (simp add: put_def)

lemma put_put: "p + length bs + length cs \<le> length m \<Longrightarrow> put (put m p bs) (p + length bs) cs = put m p (bs @ cs)"
  by (rule nth_equalityI) (auto simp: nth_put nth_append)

lemma wb_put: "p < length m \<Longrightarrow> wb m p b = Ok (put m p [b])"
  by (simp add: wb_def put_def upd_conv_take_nth_drop)

lemma mslice_Suc: "p + Suc n \<le> length m \<Longrightarrow> mslice m p (Suc n) = m ! p # mslice m (Suc p) n"
  by (simp add: mslice_def Cons_nth_drop_Suc[symmetric])

text \<open>Copies that may go forwards: the source is not overwritten before it is read.\<close>

definition fwd :: "'a list \<Rightarrow> nat \<Rightarrow> nat \<Rightarrow> nat \<Rightarrow> bool" where
  "fwd m dst src n \<longleftrightarrow> dst + n \<le> length m \<and> src + n \<le> length m \<and> (dst \<le> src \<or> src + n \<le> dst)"

lemma put_slice_step:
  assumes "fwd m dst src (a + b)"
  shows "put (put m dst (mslice m src a)) (dst + a) (mslice (put m dst (mslice m src a)) (src + a) b) =
    put m dst (mslice m src (a + b))"
  using assms unfolding fwd_def by (intro nth_equalityI) (auto simp: nth_put)

lemma fwd_step:
  assumes "fwd m dst src (a + b)"
  shows "fwd m dst src a" and "fwd (put m dst (mslice m src a)) (dst + a) (src + a) b"
  using assms by (auto simp: fwd_def)

lemma copy_bytes_put: "fwd m dst src n \<Longrightarrow> copy_bytes m dst src n = Ok (dst + n, put m dst (mslice m src n))"
proof (induction n arbitrary: m dst src)
  case 0
  then show ?case by (simp add: mslice_def)
next
  case (Suc n)
  let ?m = "put m dst (mslice m src 1)"
  have f: "fwd m dst src (1 + n)" using Suc.prems by simp
  have b: "src < length m" "dst < length m" using Suc.prems by (auto simp: fwd_def)
  have "mslice m src 1 = [m ! src]" using b by (simp add: mslice_def take_Suc_conv_app_nth)
  then have "copy_bytes m dst src (Suc n) = copy_bytes ?m (Suc dst) (Suc src) n"
    using b by (simp add: rb_def wb_put)
  also have "\<dots> = Ok (Suc dst + n, put ?m (Suc dst) (mslice ?m (Suc src) n))"
    using fwd_step(2)[OF f] by (intro Suc.IH) simp
  finally show ?case using put_slice_step[OF f] by simp
qed

lemma copy_word_put: "fwd m dst src 8 \<Longrightarrow> copy_word m dst src = Ok (put m dst (mslice m src 8))"
proof -
  assume f: "fwd m dst src 8"
  then have "le_bytes 8 (le_word (take 8 (drop src m))) = take 8 (drop src m)"
    by (intro le_bytes_le_word) (auto simp: fwd_def)
  then show ?thesis using f by (simp add: copy_word_def rl_def wl_def fwd_def mslice_def)
qed

lemma copy_little_put:
  assumes "fwd m dst src n"
  shows "\<exists>k \<le> n. copy_little m dst src n = Ok (put m dst (mslice m src k), dst + k, src + k, n - k)"
  using assms
proof (induction n arbitrary: m dst src rule: less_induct)
  case (less n)
  show ?case
  proof (cases "8 \<le> n")
    case False
    then show ?thesis
      by (subst copy_little.simps) (auto simp: block_sizes mslice_def intro!: exI[of _ 0])
  next
    case True
    let ?m = "put m dst (mslice m src 8)"
    have f: "fwd m dst src (8 + (n - 8))" using less.prems True by simp
    have "copy_little m dst src n = copy_little ?m (dst + 8) (src + 8) (n - 8)"
      using True copy_word_put[OF fwd_step(1)[OF f]] by (subst copy_little.simps) (simp add: block_sizes)
    moreover obtain k where k: "k \<le> n - 8" "copy_little ?m (dst + 8) (src + 8) (n - 8) =
        Ok (put ?m (dst + 8) (mslice ?m (src + 8) k), dst + 8 + k, src + 8 + k, n - 8 - k)"
      using less.IH[OF _ fwd_step(2)[OF f]] True by auto
    moreover have "fwd m dst src (8 + k)" using less.prems True k(1) by (auto simp: fwd_def)
    note put_slice_step[OF this]
    ultimately show ?thesis using True by (intro exI[of _ "8 + k"]) (auto simp: add.assoc)
  qed
qed

lemma copy_word_after:
  assumes "fwd m dst src (a + 8)"
  shows "copy_word (put m dst (mslice m src a)) (dst + a) (src + a) = Ok (put m dst (mslice m src (a + 8)))"
  using copy_word_put[OF fwd_step(2)[OF assms]] put_slice_step[OF assms] by simp

lemma copy_big_put:
  assumes "fwd m dst src n"
  shows "\<exists>k \<le> n. copy_big m dst src n = Ok (put m dst (mslice m src k), dst + k, src + k, n - k)"
  using assms
proof (induction n arbitrary: m dst src rule: less_induct)
  case (less n)
  show ?case
  proof (cases "32 \<le> n")
    case False
    then show ?thesis
      by (subst copy_big.simps) (auto simp: block_sizes mslice_def intro!: exI[of _ 0])
  next
    case True
    let ?m = "put m dst (mslice m src 32)"
    have f: "fwd m dst src (32 + (n - 32))" using less.prems True by simp
    have sub: "fwd m dst src k" if "k \<le> 32" for k using less.prems True that by (auto simp: fwd_def)
    have "copy_big m dst src n = copy_big ?m (dst + 32) (src + 32) (n - 32)"
      using True copy_word_put[OF sub[of 8]] copy_word_after[OF sub, of 8] copy_word_after[OF sub, of 16]
        copy_word_after[OF sub, of 24]
      by (subst copy_big.simps) (simp add: block_sizes)
    moreover obtain k where k: "k \<le> n - 32" "copy_big ?m (dst + 32) (src + 32) (n - 32) =
        Ok (put ?m (dst + 32) (mslice ?m (src + 32) k), dst + 32 + k, src + 32 + k, n - 32 - k)"
      using less.IH[OF _ fwd_step(2)[OF f]] True by auto
    moreover have "fwd m dst src (32 + k)" using less.prems True k(1) by (auto simp: fwd_def)
    note put_slice_step[OF this]
    ultimately show ?thesis using True by (intro exI[of _ "32 + k"]) (auto simp: add.assoc)
  qed
qed

lemma copy_forward_put:
  assumes "fwd m dst src n"
  shows "copy_forward m dst src n = Ok (dst + n, put m dst (mslice m src n))"
proof -
  have rest: "copy_bytes (put m dst (mslice m src k)) (dst + k) (src + k) (n - k) =
      Ok (dst + n, put m dst (mslice m src n))" if "k \<le> n" for k
  proof -
    have f: "fwd m dst src (k + (n - k))" using assms that by simp
    show ?thesis using copy_bytes_put[OF fwd_step(2)[OF f]] put_slice_step[OF f] that by simp
  qed
  obtain k where k: "k \<le> n" "copy_big m dst src n = Ok (put m dst (mslice m src k), dst + k, src + k, n - k)"
    using copy_big_put[OF assms] by blast
  have f: "fwd m dst src (k + (n - k))" using assms k(1) by simp
  obtain j where j: "j \<le> n - k" "copy_little (put m dst (mslice m src k)) (dst + k) (src + k) (n - k) =
      Ok (put m dst (mslice m src (k + j)), dst + (k + j), src + (k + j), n - (k + j))"
  proof -
    obtain j where j: "j \<le> n - k" "copy_little (put m dst (mslice m src k)) (dst + k) (src + k) (n - k) =
      Ok (put (put m dst (mslice m src k)) (dst + k) (mslice (put m dst (mslice m src k)) (src + k) j),
        dst + k + j, src + k + j, n - k - j)"
      using copy_little_put[OF fwd_step(2)[OF f]] by blast
    have "fwd m dst src (k + j)" using assms j(1) k(1) by (auto simp: fwd_def)
    from put_slice_step[OF this] j show ?thesis by (intro that) (simp_all add: add.assoc)
  qed
  show ?thesis
    using k j rest[of "k + j"] copy_bytes_put[OF assms] by (simp add: copy_forward_def)
qed

lemma memcpy_put: "fwd m dst src n \<Longrightarrow> memcpy m dst src n = Ok (dst, put m dst (mslice m src n))"
  by (simp add: memcpy_def copy_forward_put)

lemma mempcpy_put: "fwd m dst src n \<Longrightarrow> mempcpy m dst src n = Ok (dst + n, put m dst (mslice m src n))"
  by (simp add: mempcpy_def copy_forward_put)

lemma copy_back_put:
  assumes "src < dst" and "dst + n \<le> length m"
  shows "copy_back m (dst + n) (src + n) n = Ok (put m dst (mslice m src n))"
  using assms
proof (induction n arbitrary: m)
  case 0
  then show ?case by (simp add: mslice_def)
next
  case (Suc n)
  let ?m = "put m (dst + n) [m ! (src + n)]"
  have "copy_back m (dst + Suc n) (src + Suc n) (Suc n) = copy_back ?m (dst + n) (src + n) n"
    using Suc.prems by (simp add: rb_def wb_put)
  also have "\<dots> = Ok (put ?m dst (mslice ?m src n))" using Suc.prems by (intro Suc.IH) auto
  also have "put ?m dst (mslice ?m src n) = put m dst (mslice m src (Suc n))"
  proof (rule nth_equalityI)
    have b: "src + Suc n \<le> length m" using Suc.prems by simp
    show "length (put ?m dst (mslice ?m src n)) = length (put m dst (mslice m src (Suc n)))"
      using Suc.prems b by simp
    fix i
    assume "i < length (put ?m dst (mslice ?m src n))"
    then have i: "i < length m" using Suc.prems b by simp
    show "put ?m dst (mslice ?m src n) ! i = put m dst (mslice m src (Suc n)) ! i"
    proof (cases "dst \<le> i \<and> i < dst + n")
      case True
      then have "src + (i - dst) < dst + n" using Suc.prems(1) by linarith
      moreover have "mslice ?m src n ! (i - dst) = ?m ! (src + (i - dst))"
          "mslice m src (Suc n) ! (i - dst) = m ! (src + (i - dst))"
        using True b Suc.prems by (auto intro!: nth_mslice)
      ultimately show ?thesis using True i b Suc.prems by (simp add: nth_put)
    next
      case False
      then show ?thesis using i b Suc.prems by (cases "i = dst + n") (auto simp: nth_put)
    qed
  qed
  finally show ?case .
qed

lemma memmove_put:
  assumes "dst + n \<le> length m" and "src + n \<le> length m"
  shows "memmove m dst src n = Ok (dst, put m dst (mslice m src n))"
proof (cases "src < dst \<and> dst < src + n")
  case True
  then show ?thesis using copy_back_put[of src dst n m] assms by (simp add: memmove_def)
next
  case False
  then have "fwd m dst src n" using assms by (auto simp: fwd_def)
  then show ?thesis using False by (auto simp: memmove_def copy_forward_put)
qed

subsection \<open>Filling\<close>

lemma put_replicate:
  "p + a + b \<le> length m \<Longrightarrow> put (put m p (replicate a c)) (p + a) (replicate b c) = put m p (replicate (a + b) c)"
  using put_put[of p "replicate a c" "replicate b c" m] by (simp add: replicate_add)

lemma le_bytes_fill: "le_bytes 8 (fill c) = replicate 8 c"
proof (rule nth_equalityI)
  have nth: "le_bytes n v ! j = byte v j" if "j < n" for n v j
    using that by (induction n arbitrary: v j) (auto simp: byte_def nth_Cons add.commute split: nat.splits)
  show "le_bytes 8 (fill c) ! i = replicate 8 c ! i" if "i < length (le_bytes 8 (fill c))" for i
    using that nth byte_fill by simp
qed simp

lemma wl_fill: "p + 8 \<le> length m \<Longrightarrow> wl m p (fill c) = Ok (put m p (replicate 8 c))"
  by (simp only: wl_def le_bytes_fill) simp

lemma set_bytes_put: "p + n \<le> length m \<Longrightarrow> set_bytes m p c n = Ok (put m p (replicate n c))"
proof (induction n arbitrary: m p)
  case 0
  then show ?case by simp
next
  case (Suc n)
  then show ?case using put_replicate[of p 1 n m c] by (simp add: wb_put)
qed

lemma set_words_put:
  assumes "p + n \<le> length m"
  shows "\<exists>k \<le> n. set_words m p (fill c) n = Ok (put m p (replicate k c), p + k, n - k)"
  using assms
proof (induction n arbitrary: m p rule: less_induct)
  case (less n)
  show ?case
  proof (cases "8 \<le> n")
    case False
    then show ?thesis by (subst set_words.simps) (auto simp: block_sizes intro!: exI[of _ 0])
  next
    case True
    let ?m = "put m p (replicate 8 c)"
    have "set_words m p (fill c) n = set_words ?m (p + 8) (fill c) (n - 8)"
      using True less.prems by (subst set_words.simps) (simp add: block_sizes wl_fill)
    moreover obtain k where "k \<le> n - 8" "set_words ?m (p + 8) (fill c) (n - 8) =
        Ok (put ?m (p + 8) (replicate k c), p + 8 + k, n - 8 - k)"
      using less.IH[of "n - 8" "p + 8" ?m] True less.prems by auto
    ultimately show ?thesis
      using True less.prems put_replicate[of p 8 k m c] by (intro exI[of _ "8 + k"]) (auto simp: add.assoc)
  qed
qed

lemma set_big_put:
  assumes "p + n \<le> length m"
  shows "\<exists>k \<le> n. set_big m p (fill c) n = Ok (put m p (replicate k c), p + k, n - k)"
  using assms
proof (induction n arbitrary: m p rule: less_induct)
  case (less n)
  show ?case
  proof (cases "32 \<le> n")
    case False
    then show ?thesis by (subst set_big.simps) (auto simp: block_sizes intro!: exI[of _ 0])
  next
    case True
    let ?m = "put m p (replicate 32 c)"
    have w: "wl (put m p (replicate a c)) (p + a) (fill c) = Ok (put m p (replicate (a + 8) c))"
      if "a + 8 \<le> 32" for a
      using that True less.prems put_replicate[of p a 8 m c] by (simp add: wl_fill)
    have "set_big m p (fill c) n = set_big ?m (p + 32) (fill c) (n - 32)"
      using True less.prems w[of 0] w[of 8] w[of 16] w[of 24]
      by (subst set_big.simps) (simp add: block_sizes)
    moreover obtain k where "k \<le> n - 32" "set_big ?m (p + 32) (fill c) (n - 32) =
        Ok (put ?m (p + 32) (replicate k c), p + 32 + k, n - 32 - k)"
      using less.IH[of "n - 32" "p + 32" ?m] True less.prems by auto
    ultimately show ?thesis
      using True less.prems put_replicate[of p 32 k m c] by (intro exI[of _ "32 + k"]) (auto simp: add.assoc)
  qed
qed

lemma set_align_put:
  assumes "p + n \<le> length m"
  shows "set_align m p c n = Ok (Inl (put m p (replicate n c))) \<or>
    (\<exists>k \<le> n. set_align m p c n = Ok (Inr (put m p (replicate k c), p + k, n - k)))"
  using assms
proof (induction n arbitrary: m p)
  case 0
  then show ?case by (subst (1 2) set_align.simps) auto
next
  case (Suc n)
  show ?case
  proof (cases "UNALIGNED p")
    case False
    then show ?thesis by (subst (1 2) set_align.simps) (auto intro!: exI[of _ 0])
  next
    case True
    let ?m = "put m p [c]"
    have "set_align m p c (Suc n) = set_align ?m (Suc p) c n"
      using True Suc.prems by (subst set_align.simps) (simp add: wb_put)
    moreover have "put ?m (Suc p) (replicate k c) = put m p (replicate (Suc k) c)" if "k \<le> n" for k
      using Suc.prems that put_replicate[of p 1 k m c] by simp
    ultimately show ?thesis using Suc.IH[of "Suc p" ?m] Suc.prems
      by (force intro: exI[of _ "Suc k" for k])
  qed
qed

lemma memset_put:
  assumes "p + n \<le> length m"
  shows "memset m p c n = Ok (p, put m p (replicate n c))"
proof -
  have bytes: "set_bytes (put m p (replicate k c)) (p + k) c (n - k) = Ok (put m p (replicate n c))" if "k \<le> n" for k
    using set_bytes_put[of "p + k" "n - k" "put m p (replicate k c)" c] put_replicate[of p k "n - k" m c] assms that
    by simp
  have len: "p + k + (n - k) \<le> length (put m p (replicate k c))" if "k \<le> n" for k
    using assms that by simp
  have big: "\<exists>j \<ge> k. j \<le> n \<and> set_big (put m p (replicate k c)) (p + k) (fill c) (n - k) =
      Ok (put m p (replicate j c), p + j, n - j)" if "k \<le> n" for k
  proof -
    obtain j where "j \<le> n - k" "set_big (put m p (replicate k c)) (p + k) (fill c) (n - k) =
        Ok (put (put m p (replicate k c)) (p + k) (replicate j c), p + k + j, n - k - j)"
      using set_big_put[OF len[OF \<open>k \<le> n\<close>], of c] by blast
    then show ?thesis
      using put_replicate[of p k j m c] assms that by (intro exI[of _ "k + j"]) (auto simp: add.assoc)
  qed
  have words: "\<exists>j \<ge> k. j \<le> n \<and> set_words (put m p (replicate k c)) (p + k) (fill c) (n - k) =
      Ok (put m p (replicate j c), p + j, n - j)" if "k \<le> n" for k
  proof -
    obtain j where "j \<le> n - k" "set_words (put m p (replicate k c)) (p + k) (fill c) (n - k) =
        Ok (put (put m p (replicate k c)) (p + k) (replicate j c), p + k + j, n - k - j)"
      using set_words_put[OF len[OF \<open>k \<le> n\<close>], of c] by blast
    then show ?thesis
      using put_replicate[of p k j m c] assms that by (intro exI[of _ "k + j"]) (auto simp: add.assoc)
  qed
  consider "set_align m p c n = Ok (Inl (put m p (replicate n c)))"
    | k where "k \<le> n" "set_align m p c n = Ok (Inr (put m p (replicate k c), p + k, n - k))"
    using set_align_put[OF assms] by blast
  then show ?thesis
  proof cases
    case 1
    then show ?thesis by (simp add: memset_def)
  next
    case 2
    obtain j where j: "k \<le> j" "j \<le> n" "set_big (put m p (replicate k c)) (p + k) (fill c) (n - k) =
        Ok (put m p (replicate j c), p + j, n - j)" using big[OF 2(1)] by blast
    obtain i where i: "i \<le> n" "set_words (put m p (replicate j c)) (p + j) (fill c) (n - j) =
        Ok (put m p (replicate i c), p + i, n - i)" using words[OF j(2)] by blast
    show ?thesis using 2 j i bytes[OF i(1)] bytes[OF 2(1)] by (simp add: memset_def)
  qed
qed

subsection \<open>Strings\<close>

function strcpy_words :: "ram \<Rightarrow> nat \<Rightarrow> nat \<Rightarrow> (ram \<times> nat \<times> nat) res" where
  "strcpy_words m dst src = bnd (rl m src) (\<lambda>w.
     if DETECTNULL w = 0 then bnd (wl m dst w) (\<lambda>m. strcpy_words m (dst + 8) (src + 8))
     else Ok (m, dst, src))"
  by pat_completeness auto
termination
  by (relation "measure (\<lambda>(m, dst, src). length m - src)") (auto simp: rl_def wl_def put_def split: if_splits)

text \<open>\<open>while ((*dst++ = *src++));\<close> returns the address behind the null it has copied.\<close>

function strcpy_bytes :: "ram \<Rightarrow> nat \<Rightarrow> nat \<Rightarrow> (nat \<times> ram) res" where
  "strcpy_bytes m dst src = bnd (rb m src) (\<lambda>b. bnd (wb m dst b) (\<lambda>m.
     if b \<noteq> 0 then strcpy_bytes m (Suc dst) (Suc src) else Ok (Suc dst, m)))"
  by pat_completeness auto
termination
  by (relation "measure (\<lambda>(m, dst, src). length m - src)") (auto simp: rb_def wb_def split: if_splits)

definition stpcpy :: "ram \<Rightarrow> nat \<Rightarrow> nat \<Rightarrow> (nat \<times> ram) res" where
  "stpcpy m dst src =
     bnd (if \<not> (UNALIGNED src \<or> UNALIGNED dst) then strcpy_words m dst src else Ok (m, dst, src))
       (\<lambda>(m, dst, src). bnd (strcpy_bytes m dst src) (\<lambda>(dst, m). Ok (dst - 1, m)))"

definition strcpy :: "ram \<Rightarrow> nat \<Rightarrow> nat \<Rightarrow> (nat \<times> ram) res" where
  "strcpy m dst0 src0 =
     bnd (if \<not> (UNALIGNED src0 \<or> UNALIGNED dst0) then strcpy_words m dst0 src0 else Ok (m, dst0, src0))
       (\<lambda>(m, dst, src). bnd (strcpy_bytes m dst src) (\<lambda>(dst, m). Ok (dst0, m)))"

text \<open>The end of the first string, words first when it is aligned.\<close>

definition skip_string :: "ram \<Rightarrow> nat \<Rightarrow> nat res" where
  "skip_string m s1 =
     bnd (if \<not> UNALIGNED s1 then scan_words (\<lambda>w. DETECTNULL w \<noteq> 0) m s1 else Ok s1)
       (\<lambda>s1. scan_bytes (\<lambda>c. c = 0) m s1)"

definition strcat :: "ram \<Rightarrow> nat \<Rightarrow> nat \<Rightarrow> (nat \<times> ram) res" where
  "strcat m s s2 = bnd (skip_string m s) (\<lambda>s1. bnd (strcpy m s1 s2) (\<lambda>(_, m). Ok (s, m)))"

fun strncat_loop :: "ram \<Rightarrow> nat \<Rightarrow> nat \<Rightarrow> nat \<Rightarrow> ram res" where
  "strncat_loop m s1 s2 0 = Ok m"
| "strncat_loop m s1 s2 (Suc n) = bnd (rb m s2) (\<lambda>b. bnd (wb m s1 b) (\<lambda>m.
     if b = 0 then Ok m
     else bnd (if n = 0 then wb m (Suc s1) 0 else Ok m) (\<lambda>m. strncat_loop m (Suc s1) (Suc s2) n)))"

definition strncat :: "ram \<Rightarrow> nat \<Rightarrow> nat \<Rightarrow> nat \<Rightarrow> (nat \<times> ram) res" where
  "strncat m s s2 n = bnd (skip_string m s) (\<lambda>s1. bnd (strncat_loop m s1 s2 n) (\<lambda>m. Ok (s, m)))"

function strncpy_words :: "ram \<Rightarrow> nat \<Rightarrow> nat \<Rightarrow> nat \<Rightarrow> (ram \<times> nat \<times> nat \<times> nat) res" where
  "strncpy_words m dst src count =
     (if LBLOCKSIZE \<le> count
      then bnd (rl m src) (\<lambda>w. if DETECTNULL w = 0
             then bnd (wl m dst w) (\<lambda>m. strncpy_words m (dst + 8) (src + 8) (count - LBLOCKSIZE))
             else Ok (m, dst, src, count))
      else Ok (m, dst, src, count))"
  by pat_completeness auto
termination
  by (relation "measure (\<lambda>(m, dst, src, count). count)") (auto simp: block_sizes)

text \<open>Copy up to the null; the last component is the address of the null, if it was reached.\<close>

fun strncpy_bytes :: "ram \<Rightarrow> nat \<Rightarrow> nat \<Rightarrow> nat \<Rightarrow> (ram \<times> nat \<times> nat \<times> nat option) res" where
  "strncpy_bytes m dst src 0 = Ok (m, dst, 0, None)"
| "strncpy_bytes m dst src (Suc count) = bnd (rb m src) (\<lambda>b. bnd (wb m dst b) (\<lambda>m.
     if b = 0 then Ok (m, Suc dst, count, Some dst)
     else strncpy_bytes m (Suc dst) (Suc src) count))"

definition strncpy_core :: "ram \<Rightarrow> nat \<Rightarrow> nat \<Rightarrow> nat \<Rightarrow> (nat \<times> nat option \<times> ram) res" where
  "strncpy_core m dst src count =
     bnd (if \<not> (UNALIGNED src \<or> UNALIGNED dst) \<and> \<not> count < LBLOCKSIZE
          then strncpy_words m dst src count else Ok (m, dst, src, count))
       (\<lambda>(m, dst, src, count). bnd (strncpy_bytes m dst src count) (\<lambda>(m, dst, count, ret).
          bnd (set_bytes m dst 0 count) (\<lambda>m. Ok (dst + count, ret, m))))"

definition strncpy :: "ram \<Rightarrow> nat \<Rightarrow> nat \<Rightarrow> nat \<Rightarrow> (nat \<times> ram) res" where
  "strncpy m dst0 src0 count = bnd (strncpy_core m dst0 src0 count) (\<lambda>(_, _, m). Ok (dst0, m))"

definition stpncpy :: "ram \<Rightarrow> nat \<Rightarrow> nat \<Rightarrow> nat \<Rightarrow> (nat \<times> ram) res" where
  "stpncpy m dst src count = bnd (strncpy_core m dst src count) (\<lambda>(e, ret, m).
     Ok (case ret of Some r \<Rightarrow> r | None \<Rightarrow> e, m))"

declare strcpy_words.simps [simp del] strcpy_bytes.simps [simp del] strncpy_words.simps [simp del]

lemma cstr_put:
  assumes "cstr m p xs" and "q + length bs \<le> length m" and "q + length bs \<le> p \<or> p + length xs < q"
  shows "cstr (put m q bs) p xs"
  using assms by (auto simp: cstr_def nth_put)

lemma cstr_slice: "cstr m p xs \<Longrightarrow> mslice m p (length xs) = xs"
  by (rule nth_equalityI) (auto simp: cstr_def)

lemma cstr_put_self: "p + length xs < length m \<Longrightarrow> 0 \<notin> set xs \<Longrightarrow> cstr (put m p (xs @ [0])) p xs"
  by (auto simp: cstr_def nth_put nth_append)

text \<open>Room for a string of length \<open>n\<close> and its null, clear of the source string.\<close>

abbreviation str_room :: "ram \<Rightarrow> nat \<Rightarrow> nat \<Rightarrow> nat \<Rightarrow> bool" where
  "str_room m dst src n \<equiv> fwd m dst src (Suc n)"

lemma strcpy_bytes_put:
  assumes "cstr m src xs" and "str_room m dst src (length xs)"
  shows "strcpy_bytes m dst src = Ok (Suc (dst + length xs), put m dst (xs @ [0]))"
  using assms
proof (induction xs arbitrary: m dst src)
  case Nil
  then show ?case by (subst strcpy_bytes.simps) (auto simp: cstr_Nil rb_def wb_put fwd_def)
next
  case (Cons x xs)
  let ?m = "put m dst [x]"
  have b: "src < length m" "dst < length m" "m ! src = x" "x \<noteq> 0" using Cons.prems by (auto simp: cstr_Cons fwd_def)
  have "strcpy_bytes m dst src = strcpy_bytes ?m (Suc dst) (Suc src)"
    using b by (subst strcpy_bytes.simps) (simp add: rb_def wb_put)
  also have "cstr ?m (Suc src) xs" using Cons.prems by (intro cstr_put) (auto simp: cstr_Cons fwd_def)
  then have "strcpy_bytes ?m (Suc dst) (Suc src) = Ok (Suc (Suc dst + length xs), put ?m (Suc dst) (xs @ [0]))"
    using Cons.prems b by (intro Cons.IH) (auto simp: fwd_def)
  also have "put ?m (Suc dst) (xs @ [0]) = put m dst ((x # xs) @ [0])"
    using put_put[of dst "[x]" "xs @ [0]" m] Cons.prems(2) by (simp add: fwd_def)
  finally show ?case by simp
qed

lemma word_no_nul:
  assumes "cstr m p xs" and "p + 8 \<le> length m"
  shows "DETECTNULL (le_word (take 8 (drop p m))) = 0 \<longleftrightarrow> 8 \<le> length xs"
proof -
  have "DETECTNULL (le_word (take 8 (drop p m))) = 0 \<longleftrightarrow> (\<forall>i < 8. m ! (p + i) \<noteq> 0)"
    using DETECTNULL_iff[of "le_word (take 8 (drop p m))"] byte_le_word[of _ "take 8 (drop p m)"] assms(2) by auto
  also have "\<dots> \<longleftrightarrow> 8 \<le> length xs"
  proof
    assume "\<forall>i < 8. m ! (p + i) \<noteq> 0"
    then show "8 \<le> length xs" using assms(1) by (force simp: cstr_def not_le[symmetric])
  next
    assume "8 \<le> length xs"
    then show "\<forall>i < 8. m ! (p + i) \<noteq> 0" using cstr_first_nul[OF assms(1)] by (auto simp: first_at_def)
  qed
  finally show ?thesis .
qed

lemma aligned_word:
  assumes "p < length m" and "\<not> UNALIGNED p" and "8 dvd length m"
  shows "p + 8 \<le> length m"
  using assms by (simp add: UNALIGNED_def) presburger

lemma strcpy_words_put:
  assumes "cstr m src xs" and "str_room m dst src (length xs)" and "\<not> UNALIGNED src" and "8 dvd length m"
  shows "\<exists>k \<le> length xs. strcpy_words m dst src = Ok (put m dst (take k xs), dst + k, src + k)"
  using assms
proof (induction "length xs" arbitrary: m dst src xs rule: less_induct)
  case less
  have "src < length m" using less.prems(1) by (simp add: cstr_def)
  then have b: "src + 8 \<le> length m" using less.prems(3,4) by (rule aligned_word)
  show ?case
  proof (cases "8 \<le> length xs")
    case False
    then have "strcpy_words m dst src = Ok (m, dst, src)"
      using word_no_nul[OF less.prems(1) b] b by (subst strcpy_words.simps) (simp add: rl_def)
    then show ?thesis by (intro exI[of _ 0]) simp
  next
    case True
    let ?m = "put m dst (take 8 xs)"
    have shorter: "length xs - 8 < length xs" using True by simp
    have f8: "fwd m dst src 8" using less.prems(2) True by (auto simp: fwd_def)
    have s: "mslice m src 8 = take 8 xs"
      using cstr_slice[OF less.prems(1)] True by (metis mslice_def min.absorb2 take_take min.commute)
    have "strcpy_words m dst src = bnd (copy_word m dst src) (\<lambda>m. strcpy_words m (dst + 8) (src + 8))"
      using word_no_nul[OF less.prems(1) b] True b
      by (subst strcpy_words.simps) (simp add: rl_def copy_word_def)
    then have "strcpy_words m dst src = strcpy_words ?m (dst + 8) (src + 8)"
      using copy_word_put[OF f8] s by simp
    moreover have "cstr ?m (src + 8) (drop 8 xs)"
      using cstr_drop[OF less.prems(1) True] less.prems(2) True by (intro cstr_put) (auto simp: fwd_def)
    then obtain k where "k \<le> length (drop 8 xs)" "strcpy_words ?m (dst + 8) (src + 8) =
        Ok (put ?m (dst + 8) (take k (drop 8 xs)), dst + 8 + k, src + 8 + k)"
      using less.hyps[of "drop 8 xs" ?m "src + 8" "dst + 8"] less.prems True shorter
      by (auto simp: fwd_def UNALIGNED_def)
    moreover have "put ?m (dst + 8) (take k (drop 8 xs)) = put m dst (take (8 + k) xs)" if "k \<le> length (drop 8 xs)" for k
      using put_put[of dst "take 8 xs" "take k (drop 8 xs)" m] True less.prems(2) that
      by (auto simp: take_add fwd_def min_absorb2)
    ultimately show ?thesis using True by (intro exI[of _ "8 + k"]) auto
  qed
qed

lemma stpcpy_put:
  assumes "cstr m src xs" and "str_room m dst src (length xs)" and "8 dvd length m"
  shows "stpcpy m dst src = Ok (dst + length xs, put m dst (xs @ [0]))"
    and "strcpy m dst src = Ok (dst, put m dst (xs @ [0]))"
proof -
  have k: "strcpy_bytes (put m dst (take k xs)) (dst + k) (src + k) =
      Ok (Suc (dst + length xs), put m dst (xs @ [0]))" if "k \<le> length xs" for k
  proof -
    have "cstr (put m dst (take k xs)) (src + k) (drop k xs)"
      using cstr_drop[OF assms(1) that] assms(2) that by (intro cstr_put) (auto simp: fwd_def)
    then have "strcpy_bytes (put m dst (take k xs)) (dst + k) (src + k) =
        Ok (Suc (dst + k + length (drop k xs)), put (put m dst (take k xs)) (dst + k) (drop k xs @ [0]))"
      using assms(2) that by (intro strcpy_bytes_put) (auto simp: fwd_def)
    also have "put (put m dst (take k xs)) (dst + k) (drop k xs @ [0]) = put m dst (xs @ [0])"
      using put_put[of dst "take k xs" "drop k xs @ [0]" m] assms(2) that
      by (simp add: fwd_def min_absorb2 flip: append_assoc)
    finally show ?thesis using that by simp
  qed
  obtain k0 where "k0 \<le> length xs" "(if \<not> (UNALIGNED src \<or> UNALIGNED dst) then strcpy_words m dst src
      else Ok (m, dst, src)) = Ok (put m dst (take k0 xs), dst + k0, src + k0)"
  proof (cases "\<not> (UNALIGNED src \<or> UNALIGNED dst)")
    case True
    then show ?thesis using strcpy_words_put[OF assms(1,2) _ assms(3)] that by auto
  next
    case False
    then show ?thesis using that[of 0] by simp
  qed
  then show "stpcpy m dst src = Ok (dst + length xs, put m dst (xs @ [0]))"
    "strcpy m dst src = Ok (dst, put m dst (xs @ [0]))"
    using k[of k0] by (simp_all add: stpcpy_def strcpy_def)
qed

lemma skip_string_cstr:
  assumes "cstr m p xs" and "8 dvd length m"
  shows "skip_string m p = Ok (p + length xs)"
  using nul.scan_word_then_bytes[OF cstr_first_nul[OF assms(1)] _ assms(2)]
    scan_bytes_first[OF cstr_first_nul[OF assms(1)]]
  by (simp add: skip_string_def UNALIGNED_def)

lemma strcat_put:
  assumes "cstr m s xs" and "cstr m s2 ys" and "str_room m (s + length xs) s2 (length ys)" and "8 dvd length m"
  shows "strcat m s s2 = Ok (s, put m (s + length xs) (ys @ [0]))"
    and "cstr (put m (s + length xs) (ys @ [0])) s (xs @ ys)"
proof -
  show "strcat m s s2 = Ok (s, put m (s + length xs) (ys @ [0]))"
    using skip_string_cstr[OF assms(1,4)] stpcpy_put(2)[OF assms(2,3,4)] by (simp add: strcat_def)
  show "cstr (put m (s + length xs) (ys @ [0])) s (xs @ ys)"
    using assms by (auto simp: cstr_def nth_put nth_append fwd_def)
qed

subsection \<open>Counted string copies\<close>

text \<open>What \<open>strncpy\<close> writes: the string cut to \<open>n\<close> characters and padded with nulls.\<close>

definition pad :: "nat \<Rightarrow> u8 list \<Rightarrow> u8 list" where
  "pad n xs = take n xs @ replicate (n - length xs) 0"

lemma length_pad [simp]: "length (pad n xs) = n"
  by (simp add: pad_def)

lemma pad_append: "length xs \<le> n \<Longrightarrow> pad n (xs @ ys) = xs @ pad (n - length xs) ys"
  by (simp add: pad_def)

text \<open>The string in the next \<open>n\<close> bytes, up to a null if there is one.\<close>

definition csl :: "ram \<Rightarrow> nat \<Rightarrow> nat \<Rightarrow> u8 list" where
  "csl m p n = takeWhile (\<lambda>c. c \<noteq> 0) (mslice m p n)"

lemma mslice_put_other:
  "p + n \<le> length m \<Longrightarrow> q + length bs \<le> length m \<Longrightarrow> q + length bs \<le> p \<or> p + n \<le> q \<Longrightarrow>
   mslice (put m q bs) p n = mslice m p n"
  by (rule nth_equalityI) (auto simp: nth_put)

lemma csl_Suc: "p + Suc n \<le> length m \<Longrightarrow> csl m p (Suc n) = (if m ! p = 0 then [] else m ! p # csl m (Suc p) n)"
  by (simp add: csl_def mslice_Suc)

lemma length_csl: "p + n \<le> length m \<Longrightarrow> length (csl m p n) \<le> n"
  unfolding csl_def using length_takeWhile_le[of "\<lambda>c. c \<noteq> 0" "mslice m p n"] by simp

lemma strncpy_bytes_pad:
  assumes "fwd m dst src n"
  shows "\<exists>m' dst' k. strncpy_bytes m dst src n =
      Ok (m', dst', k, if length (csl m src n) < n then Some (dst + length (csl m src n)) else None) \<and>
    dst' + k = dst + n \<and> set_bytes m' dst' 0 k = Ok (put m dst (pad n (csl m src n)))"
  using assms
proof (induction n arbitrary: m dst src)
  case 0
  then show ?case by (simp add: pad_def csl_def mslice_def)
next
  case (Suc n)
  have b: "src + Suc n \<le> length m" "dst + Suc n \<le> length m" using Suc.prems by (auto simp: fwd_def)
  let ?x = "m ! src"
  let ?m = "put m dst [?x]"
  show ?case
  proof (cases "?x = 0")
    case True
    have "set_bytes (put m dst [0]) (Suc dst) 0 n = Ok (put m dst (replicate (Suc n) 0))"
      using set_bytes_put[of "Suc dst" n "put m dst [0]" 0] put_replicate[of dst 1 n m 0] b by simp
    then show ?thesis using True b by (simp add: csl_Suc rb_def wb_put pad_def)
  next
    case False
    have step: "strncpy_bytes m dst src (Suc n) = strncpy_bytes ?m (Suc dst) (Suc src) n"
      using b False by (simp add: rb_def wb_put)
    have "csl ?m (Suc src) n = csl m (Suc src) n"
      using Suc.prems by (simp add: csl_def mslice_put_other fwd_def)
    then have c: "csl m src (Suc n) = ?x # csl ?m (Suc src) n" using b False by (simp add: csl_Suc)
    have "fwd ?m (Suc dst) (Suc src) n" using Suc.prems by (auto simp: fwd_def)
    then obtain m' dst' k where r: "strncpy_bytes ?m (Suc dst) (Suc src) n =
        Ok (m', dst', k, if length (csl ?m (Suc src) n) < n then Some (Suc dst + length (csl ?m (Suc src) n)) else None)"
      "dst' + k = Suc dst + n" "set_bytes m' dst' 0 k = Ok (put ?m (Suc dst) (pad n (csl ?m (Suc src) n)))"
      using Suc.IH by blast
    have "put ?m (Suc dst) (pad n (csl ?m (Suc src) n)) = put m dst (pad (Suc n) (csl m src (Suc n)))"
      using put_put[of dst "[?x]" "pad n (csl ?m (Suc src) n)" m] b pad_append[of "[?x]" "Suc n" "csl ?m (Suc src) n"]
      by (simp add: c)
    then show ?thesis using step r by (auto simp: c)
  qed
qed

lemma word_all_nonzero:
  assumes "p + 8 \<le> length m"
  shows "DETECTNULL (le_word (take 8 (drop p m))) = 0 \<longleftrightarrow> (\<forall>c \<in> set (mslice m p 8). c \<noteq> 0)"
  using DETECTNULL_iff[of "le_word (take 8 (drop p m))"] byte_le_word[of _ "take 8 (drop p m)"] assms
  by (auto simp: mslice_def set_conv_nth)

lemma mslice_add: "mslice m p (a + b) = mslice m p a @ mslice m (p + a) b"
  by (simp add: mslice_def take_add add.commute)

lemma strncpy_words_pad:
  assumes "fwd m dst src n"
  shows "\<exists>k \<le> n. strncpy_words m dst src n = Ok (put m dst (mslice m src k), dst + k, src + k, n - k) \<and>
     csl m src n = mslice m src k @ csl m (src + k) (n - k)"
  using assms
proof (induction n arbitrary: m dst src rule: less_induct)
  case (less n)
  show ?case
  proof (cases "8 \<le> n \<and> (\<forall>c \<in> set (mslice m src 8). c \<noteq> 0)")
    case False
    then have "strncpy_words m dst src n = Ok (m, dst, src, n)"
      using less.prems word_all_nonzero[of src m]
      by (subst strncpy_words.simps) (auto simp: rl_def block_sizes fwd_def)
    then show ?thesis by (intro exI[of _ 0]) (simp add: mslice_def)
  next
    case True
    let ?m = "put m dst (mslice m src 8)"
    have f: "fwd m dst src (8 + (n - 8))" using less.prems True by simp
    have b: "src + 8 \<le> length m" "8 \<le> n" using less.prems True by (auto simp: fwd_def)
    have "strncpy_words m dst src n = bnd (copy_word m dst src) (\<lambda>m. strncpy_words m (dst + 8) (src + 8) (n - 8))"
      using True b word_all_nonzero[OF b(1)]
      by (subst strncpy_words.simps) (simp add: rl_def copy_word_def block_sizes)
    then have "strncpy_words m dst src n = strncpy_words ?m (dst + 8) (src + 8) (n - 8)"
      using copy_word_put[OF fwd_step(1)[OF f]] by simp
    moreover obtain k where k: "k \<le> n - 8" "strncpy_words ?m (dst + 8) (src + 8) (n - 8) =
        Ok (put ?m (dst + 8) (mslice ?m (src + 8) k), dst + 8 + k, src + 8 + k, n - 8 - k)"
       "csl ?m (src + 8) (n - 8) = mslice ?m (src + 8) k @ csl ?m (src + 8 + k) (n - 8 - k)"
      using less.IH[OF _ fwd_step(2)[OF f]] b(2) by auto
    moreover have "fwd m dst src (8 + k)" using less.prems True k(1) by (auto simp: fwd_def)
    note put_slice_step[OF this]
    moreover have s: "mslice ?m (src + 8 + a) c = mslice m (src + 8 + a) c" if "a + c \<le> n - 8" for a c
      using less.prems b that by (intro mslice_put_other) (auto simp: fwd_def)
    have "csl m src n = mslice m src 8 @ csl m (src + 8) (n - 8)"
      using True mslice_add[of m src 8 "n - 8"] by (simp add: csl_def)
    then have "csl m src n = mslice m src (8 + k) @ csl m (src + (8 + k)) (n - (8 + k))"
      using k(1,3) s[of 0 "n - 8"] s[of 0 k] s[of k "n - 8 - k"] mslice_add[of m src 8 k]
      by (simp add: csl_def add.assoc)
    ultimately show ?thesis using b(2) by (intro exI[of _ "8 + k"]) (auto simp: add.assoc)
  qed
qed

lemma strncpy_core_pad:
  assumes "fwd m dst src n"
  shows "strncpy_core m dst src n =
    Ok (dst + n, if length (csl m src n) < n then Some (dst + length (csl m src n)) else None,
        put m dst (pad n (csl m src n)))"
proof -
  have k: "bnd (strncpy_bytes (put m dst (mslice m src k)) (dst + k) (src + k) (n - k)) (\<lambda>(m, dst, count, ret).
          bnd (set_bytes m dst 0 count) (\<lambda>m. Ok (dst + count, ret, m))) =
      Ok (dst + n, if length (csl m src n) < n then Some (dst + length (csl m src n)) else None,
        put m dst (pad n (csl m src n)))"
    if "k \<le> n" and c: "csl m src n = mslice m src k @ csl m (src + k) (n - k)" for k
  proof -
    let ?m = "put m dst (mslice m src k)"
    have f: "fwd m dst src (k + (n - k))" using assms that by simp
    have len: "length (mslice m src k) = k" using assms \<open>k \<le> n\<close> by (simp add: fwd_def)
    have cs: "csl ?m (src + k) (n - k) = csl m (src + k) (n - k)"
      using assms \<open>k \<le> n\<close> by (simp add: csl_def mslice_put_other fwd_def)
    have "put ?m (dst + k) (pad (n - k) (csl m (src + k) (n - k))) = put m dst (pad n (csl m src n))"
      using put_put[of dst "mslice m src k" "pad (n - k) (csl m (src + k) (n - k))" m] len assms \<open>k \<le> n\<close>
        pad_append[of "mslice m src k" n] by (simp add: c fwd_def)
    then show ?thesis
      using strncpy_bytes_pad[OF fwd_step(2)[OF f]] \<open>k \<le> n\<close> len by (auto simp: cs c)
  qed
  obtain k0 where "k0 \<le> n" "csl m src n = mslice m src k0 @ csl m (src + k0) (n - k0)"
     "(if \<not> (UNALIGNED src \<or> UNALIGNED dst) \<and> \<not> n < LBLOCKSIZE then strncpy_words m dst src n
      else Ok (m, dst, src, n)) = Ok (put m dst (mslice m src k0), dst + k0, src + k0, n - k0)"
  proof (cases "\<not> (UNALIGNED src \<or> UNALIGNED dst) \<and> \<not> n < LBLOCKSIZE")
    case True
    then show ?thesis using strncpy_words_pad[OF assms] that by auto
  next
    case False
    then show ?thesis using that[of 0] by (auto simp: mslice_def)
  qed
  then show ?thesis using k[of k0] by (simp add: strncpy_core_def)
qed

lemma strncpy_pad: "fwd m dst src n \<Longrightarrow> strncpy m dst src n = Ok (dst, put m dst (pad n (csl m src n)))"
  by (simp add: strncpy_def strncpy_core_pad)

lemma stpncpy_pad: "fwd m dst src n \<Longrightarrow>
   stpncpy m dst src n = Ok (dst + length (csl m src n), put m dst (pad n (csl m src n)))"
  using length_csl[of src n m] by (auto simp: stpncpy_def strncpy_core_pad fwd_def)

end
