(* ===== verification/Libc_Ctype.thy ===== *)
theory Libc_Ctype
  imports Libc_Search
begin

text \<open>
  Character classes (\<open>src/libc/ctype\<close>, \<open>src/libc/include/ctype.h\<close>): the table \<open>_ctype_\<close> with
  one entry for EOF and one per byte value, the class predicates that mask one entry of it, and
  the two case conversions.  The build defines neither a locale nor an extended character set, so
  \<open>__CTYPE_PTR\<close> is \<open>_ctype_\<close> itself; an argument outside \<open>-1 .. 255\<close> reads outside the table.
\<close>

definition ct_U :: u8 where "ct_U = 0x01"
definition ct_L :: u8 where "ct_L = 0x02"
definition ct_N :: u8 where "ct_N = 0x04"
definition ct_S :: u8 where "ct_S = 0x08"
definition ct_P :: u8 where "ct_P = 0x10"
definition ct_C :: u8 where "ct_C = 0x20"
definition ct_X :: u8 where "ct_X = 0x40"
definition ct_B :: u8 where "ct_B = 0x80"

lemmas ct_defs = ct_U_def ct_L_def ct_N_def ct_S_def ct_P_def ct_C_def ct_X_def ct_B_def

definition CTYPE_DATA_0_127 :: "u8 list" where
  "CTYPE_DATA_0_127 =
    [ct_C, ct_C, ct_C, ct_C, ct_C, ct_C, ct_C, ct_C,
     ct_C, ct_C OR ct_S, ct_C OR ct_S, ct_C OR ct_S, ct_C OR ct_S, ct_C OR ct_S, ct_C, ct_C,
     ct_C, ct_C, ct_C, ct_C, ct_C, ct_C, ct_C, ct_C,
     ct_C, ct_C, ct_C, ct_C, ct_C, ct_C, ct_C, ct_C,
     ct_S OR ct_B, ct_P, ct_P, ct_P, ct_P, ct_P, ct_P, ct_P,
     ct_P, ct_P, ct_P, ct_P, ct_P, ct_P, ct_P, ct_P,
     ct_N, ct_N, ct_N, ct_N, ct_N, ct_N, ct_N, ct_N,
     ct_N, ct_N, ct_P, ct_P, ct_P, ct_P, ct_P, ct_P,
     ct_P, ct_U OR ct_X, ct_U OR ct_X, ct_U OR ct_X, ct_U OR ct_X, ct_U OR ct_X, ct_U OR ct_X, ct_U,
     ct_U, ct_U, ct_U, ct_U, ct_U, ct_U, ct_U, ct_U,
     ct_U, ct_U, ct_U, ct_U, ct_U, ct_U, ct_U, ct_U,
     ct_U, ct_U, ct_U, ct_P, ct_P, ct_P, ct_P, ct_P,
     ct_P, ct_L OR ct_X, ct_L OR ct_X, ct_L OR ct_X, ct_L OR ct_X, ct_L OR ct_X, ct_L OR ct_X, ct_L,
     ct_L, ct_L, ct_L, ct_L, ct_L, ct_L, ct_L, ct_L,
     ct_L, ct_L, ct_L, ct_L, ct_L, ct_L, ct_L, ct_L,
     ct_L, ct_L, ct_L, ct_P, ct_P, ct_P, ct_P, ct_C]"

definition CTYPE_DATA_128_255 :: "u8 list" where
  "CTYPE_DATA_128_255 = replicate 128 0"

definition ctype_tab :: "u8 list" where
  "ctype_tab = 0 # CTYPE_DATA_0_127 @ CTYPE_DATA_128_255"

definition ctype_lookup :: "int \<Rightarrow> u8 res" where
  "ctype_lookup c = (if - 1 \<le> c \<and> c < 256 then Ok (ctype_tab ! nat (c + 1)) else Stop Fault)"

definition ctype_and :: "u8 \<Rightarrow> int \<Rightarrow> u8 res" where
  "ctype_and msk c = bnd (ctype_lookup c) (\<lambda>x. Ok (x AND msk))"

definition isalpha :: "int \<Rightarrow> bool res" where
  "isalpha c = bnd (ctype_and (ct_U OR ct_L) c) (\<lambda>x. Ok (x \<noteq> 0))"

definition isupper :: "int \<Rightarrow> bool res" where
  "isupper c = bnd (ctype_and (ct_U OR ct_L) c) (\<lambda>x. Ok (x = ct_U))"

definition islower :: "int \<Rightarrow> bool res" where
  "islower c = bnd (ctype_and (ct_U OR ct_L) c) (\<lambda>x. Ok (x = ct_L))"

definition isdigit :: "int \<Rightarrow> bool res" where
  "isdigit c = bnd (ctype_and ct_N c) (\<lambda>x. Ok (x \<noteq> 0))"

definition isxdigit :: "int \<Rightarrow> bool res" where
  "isxdigit c = bnd (ctype_and (ct_X OR ct_N) c) (\<lambda>x. Ok (x \<noteq> 0))"

definition isspace :: "int \<Rightarrow> bool res" where
  "isspace c = bnd (ctype_and ct_S c) (\<lambda>x. Ok (x \<noteq> 0))"

definition ispunct :: "int \<Rightarrow> bool res" where
  "ispunct c = bnd (ctype_and ct_P c) (\<lambda>x. Ok (x \<noteq> 0))"

definition isalnum :: "int \<Rightarrow> bool res" where
  "isalnum c = bnd (ctype_and (ct_U OR ct_L OR ct_N) c) (\<lambda>x. Ok (x \<noteq> 0))"

definition isprint :: "int \<Rightarrow> bool res" where
  "isprint c = bnd (ctype_and (ct_P OR ct_U OR ct_L OR ct_N OR ct_B) c) (\<lambda>x. Ok (x \<noteq> 0))"

definition isgraph :: "int \<Rightarrow> bool res" where
  "isgraph c = bnd (ctype_and (ct_P OR ct_U OR ct_L OR ct_N) c) (\<lambda>x. Ok (x \<noteq> 0))"

definition iscntrl :: "int \<Rightarrow> bool res" where
  "iscntrl c = bnd (ctype_and ct_C c) (\<lambda>x. Ok (x \<noteq> 0))"

definition isblank :: "int \<Rightarrow> bool res" where
  "isblank c = bnd (ctype_and ct_B c) (\<lambda>x. Ok (x \<noteq> 0 \<or> c = 9))"

definition isascii :: "int \<Rightarrow> bool" where
  "isascii c \<longleftrightarrow> 0 \<le> c \<and> c < 128"

definition toascii :: "int \<Rightarrow> int" where
  "toascii c = c AND 127"

definition toupper :: "int \<Rightarrow> int res" where
  "toupper c = bnd (islower c) (\<lambda>b. Ok (if b then c - 97 + 65 else c))"

definition tolower :: "int \<Rightarrow> int res" where
  "tolower c = bnd (isupper c) (\<lambda>b. Ok (if b then c - 65 + 97 else c))"

subsection \<open>What the table says\<close>

text \<open>The table as ranges of character codes.\<close>

definition class_of :: "int \<Rightarrow> u8" where
  "class_of c =
     (if c < 0 then 0 else if c < 9 then 0x20 else if c < 14 then 0x28 else if c < 32 then 0x20
      else if c = 32 then 0x88 else if c < 48 then 0x10 else if c < 58 then 0x04 else if c < 65 then 0x10
      else if c < 71 then 0x41 else if c < 91 then 0x01 else if c < 97 then 0x10 else if c < 103 then 0x42
      else if c < 123 then 0x02 else if c < 127 then 0x10 else if c = 127 then 0x20 else 0)"

lemma ctype_tab_classes: "ctype_tab = map (\<lambda>n. class_of (int n - 1)) [0..<257]"
  by code_simp

lemma ctype_lookup_class: "- 1 \<le> c \<Longrightarrow> c < 256 \<Longrightarrow> ctype_lookup c = Ok (class_of c)"
  by (simp add: ctype_lookup_def ctype_tab_classes nat_less_iff)

lemmas ctype_preds = isupper_def islower_def isdigit_def isspace_def isprint_def iscntrl_def isblank_def
  isxdigit_def isalpha_def isalnum_def isgraph_def ispunct_def

lemma ctype_ranges:
  assumes "- 1 \<le> c" and "c < 256"
  shows "isupper c = Ok (65 \<le> c \<and> c \<le> 90)" and "islower c = Ok (97 \<le> c \<and> c \<le> 122)"
    and "isdigit c = Ok (48 \<le> c \<and> c \<le> 57)" and "isspace c = Ok (c = 32 \<or> 9 \<le> c \<and> c \<le> 13)"
    and "isprint c = Ok (32 \<le> c \<and> c < 127)" and "iscntrl c = Ok (0 \<le> c \<and> c < 32 \<or> c = 127)"
    and "isblank c = Ok (c = 9 \<or> c = 32)"
    and "isxdigit c = Ok (48 \<le> c \<and> c \<le> 57 \<or> 65 \<le> c \<and> c \<le> 70 \<or> 97 \<le> c \<and> c \<le> 102)"
    and "isalpha c = Ok (65 \<le> c \<and> c \<le> 90 \<or> 97 \<le> c \<and> c \<le> 122)"
    and "isalnum c = Ok (48 \<le> c \<and> c \<le> 57 \<or> 65 \<le> c \<and> c \<le> 90 \<or> 97 \<le> c \<and> c \<le> 122)"
    and "isgraph c = Ok (32 < c \<and> c < 127)"
    and "ispunct c = Ok (32 < c \<and> c < 127 \<and>
      \<not> (48 \<le> c \<and> c \<le> 57 \<or> 65 \<le> c \<and> c \<le> 90 \<or> 97 \<le> c \<and> c \<le> 122))"
  by (auto simp: ctype_preds ctype_and_def ctype_lookup_class[OF assms] ct_defs class_of_def)

lemma tolower_range: "- 1 \<le> c \<Longrightarrow> c < 256 \<Longrightarrow> tolower c = Ok (if 65 \<le> c \<and> c \<le> 90 then c + 32 else c)"
  using ctype_ranges(1)[of c] by (simp add: tolower_def)

lemma toupper_range: "- 1 \<le> c \<Longrightarrow> c < 256 \<Longrightarrow> toupper c = Ok (if 97 \<le> c \<and> c \<le> 122 then c - 32 else c)"
  using ctype_ranges(2)[of c] by (simp add: toupper_def)

end
