(* ===== verification/Libc_Compare.thy ===== *)
theory Libc_Compare
  imports Libc_Ctype
begin

text \<open>
  The comparing routines of \<open>src/libc/string\<close>: \<open>memcmp\<close>, \<open>bcmp\<close>, \<open>strcmp\<close>, \<open>strncmp\<close>, the two
  constant-time comparisons and the two that fold case.  The first four compare a word at a time
  while both pointers are aligned.  Every one is shown equal to \<open>diff\<close>, the difference of the first
  pair of bytes that differ.
\<close>

definition UNALIGNED2 :: "nat \<Rightarrow> nat \<Rightarrow> bool" where
  "UNALIGNED2 x y \<longleftrightarrow> x mod 8 \<noteq> 0 \<or> y mod 8 \<noteq> 0"

subsection \<open>memcmp, bcmp\<close>

function memcmp_words :: "ram \<Rightarrow> nat \<Rightarrow> nat \<Rightarrow> nat \<Rightarrow> (nat \<times> nat \<times> nat) res" where
  "memcmp_words m a1 a2 n =
     (if LBLOCKSIZE \<le> n
      then bnd (rl m a1) (\<lambda>v. bnd (rl m a2) (\<lambda>w.
        if v \<noteq> w then Ok (a1, a2, n)
        else memcmp_words m (a1 + LBLOCKSIZE) (a2 + LBLOCKSIZE) (n - LBLOCKSIZE)))
      else Ok (a1, a2, n))"
  by pat_completeness auto
termination
  by (relation "measure (\<lambda>(m, a1, a2, n). n)") (auto simp: LBLOCKSIZE_def)

fun memcmp_bytes :: "ram \<Rightarrow> nat \<Rightarrow> nat \<Rightarrow> nat \<Rightarrow> int res" where
  "memcmp_bytes m s1 s2 0 = Ok 0"
| "memcmp_bytes m s1 s2 (Suc n) = bnd (rb m s1) (\<lambda>c. bnd (rb m s2) (\<lambda>d.
     if c \<noteq> d then Ok (uint c - uint d) else memcmp_bytes m (Suc s1) (Suc s2) n))"

definition memcmp :: "ram \<Rightarrow> nat \<Rightarrow> nat \<Rightarrow> nat \<Rightarrow> int res" where
  "memcmp m m1 m2 n =
     bnd (if \<not> n < LBLOCKSIZE \<and> \<not> UNALIGNED2 m1 m2 then memcmp_words m m1 m2 n else Ok (m1, m2, n))
       (\<lambda>(s1, s2, n). memcmp_bytes m s1 s2 n)"

definition bcmp :: "ram \<Rightarrow> nat \<Rightarrow> nat \<Rightarrow> nat \<Rightarrow> int res" where
  "bcmp m m1 m2 n = memcmp m m1 m2 n"

subsection \<open>strcmp, strncmp\<close>

text \<open>The word loop of \<open>strcmp\<close>: \<open>None\<close> is the early return of 0.\<close>

function strcmp_words :: "ram \<Rightarrow> nat \<Rightarrow> nat \<Rightarrow> (nat \<times> nat) option res" where
  "strcmp_words m a1 a2 =
     bnd (rl m a1) (\<lambda>v. bnd (rl m a2) (\<lambda>w.
       if v = w
       then if DETECTNULL v \<noteq> 0 then Ok None
            else strcmp_words m (a1 + LBLOCKSIZE) (a2 + LBLOCKSIZE)
       else Ok (Some (a1, a2))))"
  by pat_completeness auto
termination
  by (relation "measure (\<lambda>(m, a1, a2). length m - a1)") (auto simp: rl_def LBLOCKSIZE_def split: if_splits)

function strcmp_bytes :: "ram \<Rightarrow> nat \<Rightarrow> nat \<Rightarrow> int res" where
  "strcmp_bytes m s1 s2 =
     bnd (rb m s1) (\<lambda>c. bnd (rb m s2) (\<lambda>d.
       if c \<noteq> 0 \<and> c = d then strcmp_bytes m (Suc s1) (Suc s2) else Ok (uint c - uint d)))"
  by pat_completeness auto
termination
  by (relation "measure (\<lambda>(m, s1, s2). length m - s1)") (auto simp: rb_def split: if_splits)

definition strcmp :: "ram \<Rightarrow> nat \<Rightarrow> nat \<Rightarrow> int res" where
  "strcmp m s1 s2 =
     bnd (if \<not> UNALIGNED2 s1 s2 then strcmp_words m s1 s2 else Ok (Some (s1, s2)))
       (\<lambda>r. case r of None \<Rightarrow> Ok 0 | Some (s1, s2) \<Rightarrow> strcmp_bytes m s1 s2)"

function strncmp_words :: "ram \<Rightarrow> nat \<Rightarrow> nat \<Rightarrow> nat \<Rightarrow> (nat \<times> nat \<times> nat) option res" where
  "strncmp_words m a1 a2 n =
     (if LBLOCKSIZE \<le> n
      then bnd (rl m a1) (\<lambda>v. bnd (rl m a2) (\<lambda>w.
        if v = w
        then if n - LBLOCKSIZE = 0 \<or> DETECTNULL v \<noteq> 0 then Ok None
             else strncmp_words m (a1 + LBLOCKSIZE) (a2 + LBLOCKSIZE) (n - LBLOCKSIZE)
        else Ok (Some (a1, a2, n))))
      else Ok (Some (a1, a2, n)))"
  by pat_completeness auto
termination
  by (relation "measure (\<lambda>(m, a1, a2, n). n)") (auto simp: LBLOCKSIZE_def)

fun strncmp_bytes :: "ram \<Rightarrow> nat \<Rightarrow> nat \<Rightarrow> nat \<Rightarrow> int res" where
  "strncmp_bytes m s1 s2 0 = bnd (rb m s1) (\<lambda>c. bnd (rb m s2) (\<lambda>d. Ok (uint c - uint d)))"
| "strncmp_bytes m s1 s2 (Suc n) = bnd (rb m s1) (\<lambda>c. bnd (rb m s2) (\<lambda>d.
     if c = d then if n = 0 \<or> c = 0 then Ok 0 else strncmp_bytes m (Suc s1) (Suc s2) n
     else Ok (uint c - uint d)))"

definition strncmp :: "ram \<Rightarrow> nat \<Rightarrow> nat \<Rightarrow> nat \<Rightarrow> int res" where
  "strncmp m s1 s2 n =
     (if n = 0 then Ok 0
      else bnd (if \<not> UNALIGNED2 s1 s2 then strncmp_words m s1 s2 n else Ok (Some (s1, s2, n)))
        (\<lambda>r. case r of None \<Rightarrow> Ok 0 | Some (s1, s2, n) \<Rightarrow> strncmp_bytes m s1 s2 n))"

subsection \<open>Constant-time comparison\<close>

fun timingsafe_bcmp_loop :: "ram \<Rightarrow> nat \<Rightarrow> nat \<Rightarrow> nat \<Rightarrow> u32 \<Rightarrow> u32 res" where
  "timingsafe_bcmp_loop m p1 p2 0 ret = Ok ret"
| "timingsafe_bcmp_loop m p1 p2 (Suc n) ret = bnd (rb m p1) (\<lambda>c. bnd (rb m p2) (\<lambda>d.
     timingsafe_bcmp_loop m (Suc p1) (Suc p2) n (ret OR (ucast c XOR ucast d))))"

definition timingsafe_bcmp :: "ram \<Rightarrow> nat \<Rightarrow> nat \<Rightarrow> nat \<Rightarrow> int res" where
  "timingsafe_bcmp m b1 b2 n = bnd (timingsafe_bcmp_loop m b1 b2 n 0) (\<lambda>ret. Ok (if ret \<noteq> 0 then 1 else 0))"

text \<open>\<open>>> CHAR_BIT\<close> on a negative \<open>int\<close> is the arithmetic shift.\<close>

fun timingsafe_memcmp_loop :: "ram \<Rightarrow> nat \<Rightarrow> nat \<Rightarrow> nat \<Rightarrow> u32 \<Rightarrow> u32 \<Rightarrow> u32 res" where
  "timingsafe_memcmp_loop m p1 p2 0 ret fin = Ok ret"
| "timingsafe_memcmp_loop m p1 p2 (Suc n) ret fin = bnd (rb m p1) (\<lambda>c. bnd (rb m p2) (\<lambda>d.
     let lt = signed_drop_bit 8 (ucast c - ucast d :: u32);
         gt = signed_drop_bit 8 (ucast d - ucast c :: u32);
         cmp = lt - gt
     in timingsafe_memcmp_loop m (Suc p1) (Suc p2) n (ret OR (cmp AND NOT fin)) (fin OR (lt OR gt))))"

definition timingsafe_memcmp :: "ram \<Rightarrow> nat \<Rightarrow> nat \<Rightarrow> nat \<Rightarrow> int res" where
  "timingsafe_memcmp m b1 b2 len = bnd (timingsafe_memcmp_loop m b1 b2 len 0 0) (\<lambda>r. Ok (sint r))"

subsection \<open>Folding case\<close>

text \<open>The arguments of \<open>tolower\<close> here are plain \<open>char\<close>s, which are signed.\<close>

function strcasecmp :: "ram \<Rightarrow> nat \<Rightarrow> nat \<Rightarrow> int res" where
  "strcasecmp m s1 s2 =
     bnd (rb m s1) (\<lambda>c. bnd (tolower (sint c)) (\<lambda>c1. bnd (rb m s2) (\<lambda>d. bnd (tolower (sint d)) (\<lambda>c2.
       if c1 - c2 \<noteq> 0 \<or> c2 = 0 then Ok (c1 - c2) else strcasecmp m (Suc s1) (Suc s2)))))"
  by pat_completeness auto
termination
  by (relation "measure (\<lambda>(m, s1, s2). length m - s1)") (auto simp: rb_def split: if_splits)

fun strncasecmp_loop :: "ram \<Rightarrow> nat \<Rightarrow> nat \<Rightarrow> nat \<Rightarrow> int \<Rightarrow> int res" where
  "strncasecmp_loop m s1 s2 0 e = Ok e"
| "strncasecmp_loop m s1 s2 (Suc n) e =
     bnd (rb m s1) (\<lambda>c. bnd (tolower (sint c)) (\<lambda>c1. bnd (rb m s2) (\<lambda>d. bnd (tolower (sint d)) (\<lambda>c2.
       if c1 - c2 \<noteq> 0 \<or> c2 = 0 then Ok (c1 - c2) else strncasecmp_loop m (Suc s1) (Suc s2) n (c1 - c2)))))"

definition strncasecmp :: "ram \<Rightarrow> nat \<Rightarrow> nat \<Rightarrow> nat \<Rightarrow> int res" where
  "strncasecmp m s1 s2 n = strncasecmp_loop m s1 s2 n 0"

declare memcmp_words.simps [simp del] strcmp_words.simps [simp del] strcmp_bytes.simps [simp del]
  strncmp_words.simps [simp del] strcasecmp.simps [simp del]

subsection \<open>The reference comparison\<close>

fun diff :: "'a :: len word list \<Rightarrow> 'a word list \<Rightarrow> int" where
  "diff (x # xs) (y # ys) = (if x \<noteq> y then uint x - uint y else diff xs ys)"
| "diff xs ys = 0"

lemma diff_same [simp]: "diff xs xs = 0"
  by (induction xs) auto

lemma diff_skip:
  "take k xs = take k ys \<Longrightarrow> k \<le> length xs \<Longrightarrow> k \<le> length ys \<Longrightarrow> diff xs ys = diff (drop k xs) (drop k ys)"
proof (induction k arbitrary: xs ys)
  case (Suc k)
  then obtain x xs' y ys' where "xs = x # xs'" "ys = y # ys'" by (metis Suc_le_length_iff)
  then show ?case using Suc by simp
qed simp

lemma uint_eq_u8: "uint (x :: 'a :: len word) - uint y = 0 \<longleftrightarrow> x = y"
  by (simp add: word_uint_eq_iff)

lemma diff_zero: "length xs = length ys \<Longrightarrow> diff xs ys = 0 \<longleftrightarrow> xs = ys"
  by (induction xs ys rule: diff.induct) (auto simp: word_uint_eq_iff)

lemma diff_less: "length xs = length ys \<Longrightarrow> diff xs ys < 0 \<longleftrightarrow> ord_class.lexordp xs ys"
  by (induction xs ys rule: diff.induct) (auto simp: word_less_def word_uint_eq_iff)

text \<open>On null-terminated strings the reference is the lexicographic order of unsigned bytes.\<close>

lemma diff_string_zero:
  "0 \<notin> set xs \<Longrightarrow> 0 \<notin> set ys \<Longrightarrow> diff (xs @ [0]) (ys @ [0]) = 0 \<longleftrightarrow> xs = ys"
proof (induction xs ys rule: list_induct2')
  case (2 x xs)
  then show ?case by (simp add: uint_0_iff)
next
  case (3 y ys)
  then show ?case by (simp add: uint_0_iff)
qed (auto simp: word_uint_eq_iff)

lemma uint_pos_u8: "(x :: 'a :: len word) \<noteq> 0 \<Longrightarrow> 0 < uint x"
  using uint_0_iff[of x] uint_ge_0[of x] by linarith

lemma diff_string_less:
  "0 \<notin> set xs \<Longrightarrow> 0 \<notin> set ys \<Longrightarrow> diff (xs @ [0]) (ys @ [0]) < 0 \<longleftrightarrow> ord_class.lexordp xs ys"
proof (induction xs ys rule: list_induct2')
  case (2 x xs)
  then show ?case using uint_ge_0[of x] by (simp add: not_less)
next
  case (3 y ys)
  then show ?case using uint_pos_u8[of y] by simp
qed (auto simp: word_less_def word_uint_eq_iff)

subsection \<open>memcmp\<close>

lemma take_8_eq: "p + 8 \<le> length m \<Longrightarrow> q + 8 \<le> length m \<Longrightarrow>
    le_word (take 8 (drop p m)) = le_word (take 8 (drop q m)) \<longleftrightarrow> take 8 (drop p m) = take 8 (drop q m)"
  by (rule iffI, drule arg_cong[of _ _ "le_bytes 8"]) (simp_all add: le_bytes_le_word)

lemma diff_slice_Suc:
  assumes "p + Suc n \<le> length m" and "q + Suc n \<le> length m"
  shows "diff (take (Suc n) (drop p m)) (take (Suc n) (drop q m)) =
    (if m ! p \<noteq> m ! q then uint (m ! p) - uint (m ! q) else diff (take n (drop (Suc p) m)) (take n (drop (Suc q) m)))"
  using assms by (simp flip: Cons_nth_drop_Suc)

lemma memcmp_bytes_diff:
  "p + n \<le> length m \<Longrightarrow> q + n \<le> length m \<Longrightarrow>
    memcmp_bytes m p q n = Ok (diff (take n (drop p m)) (take n (drop q m)))"
  by (induction n arbitrary: p q) (simp_all add: rb_def diff_slice_Suc)

lemma diff_slice_word:
  assumes "take 8 (drop p m) = take 8 (drop q m)" and "8 \<le> n" and "p + n \<le> length m" and "q + n \<le> length m"
  shows "diff (take n (drop p m)) (take n (drop q m)) =
    diff (take (n - 8) (drop (p + 8) m)) (take (n - 8) (drop (q + 8) m))"
proof -
  have "8 \<le> length (take n (drop p m))" "8 \<le> length (take n (drop q m))" using assms by auto
  then show ?thesis
    using diff_skip[of 8 "take n (drop p m)" "take n (drop q m)"] assms
    by (simp add: min_absorb1 drop_take add.commute)
qed

lemma memcmp_words_diff:
  assumes "p + n \<le> length m" and "q + n \<le> length m"
  shows "\<exists>a b k. memcmp_words m p q n = Ok (a, b, k) \<and> a + k \<le> length m \<and> b + k \<le> length m \<and>
    diff (take k (drop a m)) (take k (drop b m)) = diff (take n (drop p m)) (take n (drop q m))"
  using assms
proof (induction n arbitrary: p q rule: less_induct)
  case (less n)
  show ?case
  proof (cases "8 \<le> n \<and> take 8 (drop p m) = take 8 (drop q m)")
    case False
    then have "memcmp_words m p q n = Ok (p, q, n)"
      using less.prems by (subst memcmp_words.simps) (auto simp: rl_def LBLOCKSIZE_def take_8_eq)
    then show ?thesis using less.prems by simp
  next
    case True
    then have "memcmp_words m p q n = memcmp_words m (p + 8) (q + 8) (n - 8)"
      using less.prems by (subst memcmp_words.simps) (simp add: rl_def LBLOCKSIZE_def)
    then show ?thesis
      using less.IH[of "n - 8" "p + 8" "q + 8"] less.prems True diff_slice_word[of p m q n] by simp
  qed
qed

lemma memcmp_diff:
  assumes "p + n \<le> length m" and "q + n \<le> length m"
  shows "memcmp m p q n = Ok (diff (take n (drop p m)) (take n (drop q m)))"
  using memcmp_words_diff[OF assms] memcmp_bytes_diff[OF assms] memcmp_bytes_diff
  by (auto simp: memcmp_def)

subsection \<open>strcmp and strncmp\<close>

lemma strcmp_bytes_diff:
  "cstr m p xs \<Longrightarrow> cstr m q ys \<Longrightarrow> strcmp_bytes m p q = Ok (diff (xs @ [0]) (ys @ [0]))"
proof (induction xs arbitrary: ys p q)
  case Nil
  then show ?case by (cases ys; subst strcmp_bytes.simps) (auto simp: cstr_Nil cstr_Cons rb_def)
next
  case (Cons x xs)
  show ?case
  proof (cases ys)
    case Nil
    then show ?thesis using Cons.prems by (subst strcmp_bytes.simps) (auto simp: cstr_Nil cstr_Cons rb_def)
  next
    case [simp]: (Cons y ys')
    show ?thesis using Cons.prems Cons.IH[of "Suc p" "Suc q" ys']
      by (subst strcmp_bytes.simps) (auto simp: cstr_Cons rb_def)
  qed
qed

text \<open>Two strings in step: what a pair of equal words tells.\<close>

lemma cstr_word_null:
  assumes "cstr m p xs" and "p + 8 \<le> length m"
  shows "DETECTNULL (le_word (take 8 (drop p m))) \<noteq> 0 \<longleftrightarrow> length xs < 8"
proof -
  have b: "byte (le_word (take 8 (drop p m))) i = m ! (p + i)" if "i < 8" for i
    using that assms(2) by (simp add: byte_le_word)
  have z: "m ! (p + i) = 0 \<longleftrightarrow> i = length xs" if "i \<le> length xs" for i
    using that assms(1) unfolding cstr_def by (metis le_neq_implies_less nth_mem)
  show ?thesis unfolding DETECTNULL_iff using b z by (metis leI less_or_eq_imp_le order.strict_trans2)
qed

lemma cstr_same_start:
  assumes "cstr m p xs" and "cstr m q ys" and "\<And>i. i < k \<Longrightarrow> m ! (p + i) = m ! (q + i)"
  shows "(if length xs < k then xs = ys else k \<le> length ys \<and> take k xs = take k ys)"
  using assms
proof (induction k arbitrary: xs ys p q)
  case (Suc k)
  have 0: "m ! p = m ! q" using Suc.prems(3)[of 0] by simp
  have s: "m ! (Suc p + i) = m ! (Suc q + i)" if "i < k" for i using Suc.prems(3)[of "Suc i"] that by simp
  show ?case using Suc.prems(1,2) 0 Suc.IH[of "Suc p" _ "Suc q", OF _ _ s]
    by (cases xs; cases ys) (auto simp: cstr_Cons cstr_Nil split: if_splits)
qed simp

lemma words_same_start:
  assumes "take 8 (drop p m) = take 8 (drop q m)" and "p + 8 \<le> length m" and "q + 8 \<le> length m" and "i < 8"
  shows "m ! (p + i) = m ! (q + i)"
  using arg_cong[OF assms(1), of "\<lambda>l. l ! i"] assms(2-) by simp

lemma aligned_word_fits: "p < length m \<Longrightarrow> p mod 8 = 0 \<Longrightarrow> 8 dvd length m \<Longrightarrow> p + 8 \<le> length m"
  by presburger

lemma cstr_less: "cstr m p xs \<Longrightarrow> p < length m"
  by (simp add: cstr_def)

lemma strcmp_words_diff:
  assumes "cstr m p xs" and "cstr m q ys" and "p mod 8 = 0" and "q mod 8 = 0" and "8 dvd length m"
  shows "bnd (strcmp_words m p q) (\<lambda>r. case r of None \<Rightarrow> Ok 0 | Some (s1, s2) \<Rightarrow> strcmp_bytes m s1 s2) =
    Ok (diff (xs @ [0]) (ys @ [0]))"
  using assms
proof (induction "length xs" arbitrary: xs ys p q rule: less_induct)
  case less
  have f: "p + 8 \<le> length m" "q + 8 \<le> length m"
    using less.prems by (auto intro!: aligned_word_fits cstr_less)
  show ?case
  proof (cases "take 8 (drop p m) = take 8 (drop q m)")
    case False
    then have "strcmp_words m p q = Ok (Some (p, q))"
      using f by (subst strcmp_words.simps) (simp add: rl_def take_8_eq)
    then show ?thesis using less.prems by (simp add: strcmp_bytes_diff)
  next
    case True
    have w: "strcmp_words m p q = (if length xs < 8 then Ok None else strcmp_words m (p + 8) (q + 8))"
      using f cstr_word_null[OF less.prems(1) f(1)] True
      by (subst strcmp_words.simps) (simp add: rl_def LBLOCKSIZE_def)
    note s = cstr_same_start[where k = 8, OF less.prems(1,2) words_same_start[OF True f]]
    show ?thesis
    proof (cases "length xs < 8")
      case True
      then show ?thesis using w s by simp
    next
      case False
      then have "diff (drop 8 xs @ [0]) (drop 8 ys @ [0]) = diff (xs @ [0]) (ys @ [0])"
        using s diff_skip[of 8 "xs @ [0]" "ys @ [0]"] by simp
      then show ?thesis
        using w s False less.hyps[of "drop 8 xs" "p + 8" "q + 8" "drop 8 ys"] less.prems
          cstr_drop[OF less.prems(1), of 8] cstr_drop[OF less.prems(2), of 8] by simp
    qed
  qed
qed

lemma strcmp_diff:
  assumes "cstr m p xs" and "cstr m q ys" and "8 dvd length m"
  shows "strcmp m p q = Ok (diff (xs @ [0]) (ys @ [0]))"
  using strcmp_words_diff[OF assms(1,2) _ _ assms(3)] strcmp_bytes_diff[OF assms(1,2)]
  by (auto simp: strcmp_def UNALIGNED2_def)

lemma strncmp_bytes_diff:
  "cstr m p xs \<Longrightarrow> cstr m q ys \<Longrightarrow> 0 < n \<Longrightarrow>
    strncmp_bytes m p q n = Ok (diff (take n (xs @ [0])) (take n (ys @ [0])))"
proof (induction n arbitrary: xs ys p q)
  case (Suc n)
  then show ?case by (cases xs; cases ys; cases n) (auto simp: cstr_Cons cstr_Nil rb_def)
qed simp

lemma strncmp_words_diff:
  assumes "cstr m p xs" and "cstr m q ys" and "p mod 8 = 0" and "q mod 8 = 0" and "8 dvd length m" and "0 < n"
  shows "bnd (strncmp_words m p q n) (\<lambda>r. case r of None \<Rightarrow> Ok 0 | Some (s1, s2, n) \<Rightarrow> strncmp_bytes m s1 s2 n) =
    Ok (diff (take n (xs @ [0])) (take n (ys @ [0])))"
  using assms
proof (induction n arbitrary: xs ys p q rule: less_induct)
  case (less n)
  have f: "p + 8 \<le> length m" "q + 8 \<le> length m"
    using less.prems by (auto intro!: aligned_word_fits cstr_less)
  show ?case
  proof (cases "8 \<le> n \<and> take 8 (drop p m) = take 8 (drop q m)")
    case False
    then have "strncmp_words m p q n = Ok (Some (p, q, n))"
      using f by (subst strncmp_words.simps) (auto simp: rl_def LBLOCKSIZE_def take_8_eq)
    then show ?thesis using less.prems by (simp add: strncmp_bytes_diff)
  next
    case True
    have w: "strncmp_words m p q n =
        (if n = 8 \<or> length xs < 8 then Ok None else strncmp_words m (p + 8) (q + 8) (n - 8))"
      using f cstr_word_null[OF less.prems(1) f(1)] True
      by (subst strncmp_words.simps) (simp add: rl_def LBLOCKSIZE_def)
    note s = cstr_same_start[where k = 8, OF less.prems(1,2) words_same_start[OF conjunct2[OF True] f]]
    show ?thesis
    proof (cases "n = 8 \<or> length xs < 8")
      case True
      then show ?thesis using w s by (auto split: if_splits)
    next
      case False
      then have "diff (take (n - 8) (drop 8 xs @ [0])) (take (n - 8) (drop 8 ys @ [0])) =
          diff (take n (xs @ [0])) (take n (ys @ [0]))"
        using s True diff_skip[of 8 "take n (xs @ [0])" "take n (ys @ [0])"]
        by (simp add: drop_take min_absorb1 not_less le_add1 trans_le_add1)
      then show ?thesis
        using w s False True less.IH[of "n - 8" "p + 8" "drop 8 xs" "q + 8" "drop 8 ys"] less.prems
          cstr_drop[OF less.prems(1), of 8] cstr_drop[OF less.prems(2), of 8] by simp
    qed
  qed
qed

lemma strncmp_diff:
  assumes "cstr m p xs" and "cstr m q ys" and "8 dvd length m"
  shows "strncmp m p q n = Ok (diff (take n (xs @ [0])) (take n (ys @ [0])))"
  using strncmp_words_diff[OF assms(1,2) _ _ assms(3)] strncmp_bytes_diff[OF assms(1,2)]
  by (auto simp: strncmp_def UNALIGNED2_def)

subsection \<open>Constant-time comparison\<close>

lemma xor_eq_0_u32: "(a XOR b = (0 :: u32)) \<longleftrightarrow> a = b"
  by (metis xor.assoc xor.comm_neutral xor_self_eq)

lemma timingsafe_bcmp_loop_result:
  assumes "p + n \<le> length m" and "q + n \<le> length m"
  shows "\<exists>w. timingsafe_bcmp_loop m p q n r = Ok w \<and>
    (w = 0 \<longleftrightarrow> r = 0 \<and> take n (drop p m) = take n (drop q m))"
  using assms
proof (induction n arbitrary: p q r)
  case (Suc n)
  define e where "e = (ucast (m ! p) XOR ucast (m ! q) :: u32)"
  have x: "e = 0 \<longleftrightarrow> m ! p = m ! q"
    unfolding e_def xor_eq_0_u32 by (metis unat_ucast_u8_u32 word_unat_eq_iff)
  have o: "r OR e = 0 \<longleftrightarrow> r = 0 \<and> e = 0" by (rule or_eq_0_iff)
  show ?case
    using Suc.prems Suc.IH[of "Suc p" "Suc q" "r OR e"] x o
    by (simp add: rb_def e_def[symmetric] flip: Cons_nth_drop_Suc)
qed simp

lemma timingsafe_bcmp_result:
  assumes "p + n \<le> length m" and "q + n \<le> length m"
  shows "timingsafe_bcmp m p q n = Ok (if take n (drop p m) = take n (drop q m) then 0 else 1)"
  using timingsafe_bcmp_loop_result[OF assms, of 0] by (auto simp: timingsafe_bcmp_def)

lemma byte_less_mask:
  "signed_drop_bit 8 (ucast (c :: u8) - ucast d :: u32) = (if c < d then - 1 else 0)"
proof -
  have b: "0 \<le> uint c" "uint c < 256" "0 \<le> uint d" "uint d < 256"
    using uint_lt2p[of c] uint_lt2p[of d] by simp_all
  have w: "ucast c - ucast d = (word_of_int (uint c - uint d) :: u32)" by (simp only: ucast_eq wi_hom_sub)
  have "sint (word_of_int k :: u32) = k" if "- 256 < k" "k < 256" for k
    using that by (simp only: sint_sbintrunc') (simp add: signed_take_bit_int_eq_self)
  from this[of "uint c - uint d"] have "sint (ucast c - ucast d :: u32) = uint c - uint d"
    unfolding w using b by linarith
  moreover have "x div 256 = (if x < 0 then - 1 else 0)" if "- 256 < x" "x < 256" for x :: int
    using that by (auto intro: int_div_pos_eq[where r = "x + 256"] div_pos_pos_trivial)
  note this[of "uint c - uint d"]
  ultimately have "sint (signed_drop_bit 8 (ucast c - ucast d :: u32)) = (if c < d then - 1 else 0)"
    using b by (simp add: sint_signed_drop_bit_eq drop_bit_eq_div word_less_def)
  then show ?thesis by (intro signed_word_eqI[where 'a = int]) simp
qed

lemma timingsafe_memcmp_loop_done:
  "p + n \<le> length m \<Longrightarrow> q + n \<le> length m \<Longrightarrow> timingsafe_memcmp_loop m p q n r (- 1) = Ok r"
  by (induction n arbitrary: p q) (auto simp: rb_def Let_def)

lemma timingsafe_memcmp_loop_start:
  "p + n \<le> length m \<Longrightarrow> q + n \<le> length m \<Longrightarrow>
    timingsafe_memcmp_loop m p q n 0 0 = Ok (word_of_int (sgn (diff (take n (drop p m)) (take n (drop q m)))))"
proof (induction n arbitrary: p q)
  case (Suc n)
  consider "m ! p = m ! q" | "m ! p < m ! q" | "m ! q < m ! p" by fastforce
  then show ?case
    using Suc timingsafe_memcmp_loop_done[of "Suc p" n m "Suc q"]
    by cases (auto simp: rb_def Let_def byte_less_mask diff_slice_Suc word_less_def sgn_if)
qed simp

lemma timingsafe_memcmp_diff:
  assumes "p + n \<le> length m" and "q + n \<le> length m"
  shows "timingsafe_memcmp m p q n = Ok (sgn (diff (take n (drop p m)) (take n (drop q m))))"
  using timingsafe_memcmp_loop_start[OF assms] by (auto simp: timingsafe_memcmp_def sgn_if)

subsection \<open>Folding case\<close>

definition lower :: "u8 \<Rightarrow> u8" where
  "lower c = (if 65 \<le> c \<and> c \<le> 90 then c + 32 else c)"

text \<open>For ASCII strings \<open>strcasecmp\<close> is \<open>strcmp\<close> of the folded strings.\<close>

lemma sint_ascii: "(c :: u8) < 128 \<Longrightarrow> sint c = uint c"
proof -
  assume "c < 128"
  then have "uint c < 128" "- 128 \<le> uint c" using uint_ge_0[of c] by (simp_all only: word_less_def) simp_all
  then show ?thesis by (simp add: sint_uint signed_take_bit_int_eq_self)
qed

lemma tolower_0 [simp]: "tolower 0 = Ok 0"
  by (simp add: tolower_range)

lemma tolower_ascii: "c < 128 \<Longrightarrow> tolower (sint c) = Ok (uint (lower c))"
proof -
  assume c: "c < 128"
  then have "uint c < 128" by (simp add: word_less_def)
  moreover have "uint (c + 32) = uint c + 32" if "uint c \<le> 90" using that by (simp add: uint_plus_if')
  moreover have "- 1 \<le> uint c" using uint_ge_0[of c] by linarith
  ultimately show ?thesis
    using sint_ascii[OF c] by (auto simp: tolower_range lower_def word_le_def)
qed

lemma lower_zero [simp]: "lower c = 0 \<longleftrightarrow> c = 0"
proof -
  have "c + 32 \<noteq> 0" if "c \<le> 90"
  proof
    assume "c + 32 = 0"
    then have "c = - 32" by (metis eq_neg_iff_add_eq_0)
    with that show False by simp
  qed
  then show ?thesis by (auto simp: lower_def)
qed

lemma strcasecmp_diff:
  "cstr m p xs \<Longrightarrow> cstr m q ys \<Longrightarrow> \<forall>x \<in> set xs \<union> set ys. x < 128 \<Longrightarrow>
    strcasecmp m p q = Ok (diff (map lower xs @ [0]) (map lower ys @ [0]))"
proof (induction xs arbitrary: ys p q)
  case Nil
  then show ?case
    by (cases ys; subst strcasecmp.simps) (auto simp: cstr_Nil cstr_Cons rb_def tolower_ascii uint_0_iff)
next
  case (Cons x xs)
  show ?case
  proof (cases ys)
    case Nil
    then show ?thesis using Cons.prems
      by (subst strcasecmp.simps) (auto simp: cstr_Nil cstr_Cons rb_def tolower_ascii uint_0_iff)
  next
    case [simp]: (Cons y ys')
    show ?thesis using Cons.prems Cons.IH[of "Suc p" "Suc q" ys']
      by (subst strcasecmp.simps) (auto simp: cstr_Cons rb_def tolower_ascii uint_0_iff word_uint_eq_iff[symmetric])
  qed
qed

lemma strncasecmp_diff:
  "cstr m p xs \<Longrightarrow> cstr m q ys \<Longrightarrow> \<forall>x \<in> set xs \<union> set ys. x < 128 \<Longrightarrow>
    strncasecmp_loop m p q n 0 = Ok (diff (take n (map lower xs @ [0])) (take n (map lower ys @ [0])))"
proof (induction n arbitrary: xs ys p q)
  case (Suc n)
  then show ?case
    by (cases xs; cases ys) (auto simp: cstr_Cons cstr_Nil rb_def tolower_ascii uint_0_iff word_uint_eq_iff[symmetric])
qed simp

end
