(* ===== verification/Libc_Theorems.thy ===== *)
theory Libc_Theorems
  imports Libc_Copy Libc_Compare
begin

text \<open>
  The contracts of the C library routines of \<open>src/libc/string\<close> and \<open>src/libc/ctype\<close>, each stated of
  the word-at-a-time code the build compiles, with a reference definition on byte lists.  The
  witnesses use one small memory that holds the strings "hello", "help" and "hi".
\<close>

unbundle bit_operations_syntax

definition sample_ram :: ram where
  "sample_ram = [104, 101, 108, 108, 111, 0, 0, 0, 104, 101, 108, 112, 0, 104, 105, 0,
     0, 0, 0, 0, 0, 0, 0, 0]"

lemma sample_length [simp]: "length sample_ram = 24"
  by (simp add: sample_ram_def)

lemma sample_hello [simp]: "cstr sample_ram 0 [104, 101, 108, 108, 111]"
  by (simp add: cstr_Cons cstr_Nil sample_ram_def)

lemma sample_help [simp]: "cstr sample_ram 8 [104, 101, 108, 112]"
  by (simp add: cstr_Cons cstr_Nil sample_ram_def)

lemma sample_hi [simp]: "cstr sample_ram 13 [104, 105]"
  by (simp add: cstr_Cons cstr_Nil sample_ram_def)

subsection \<open>Searching\<close>

text \<open>
  C27.  The word trick every fast string routine rests on is exact: \<open>DETECTNULL\<close> is nonzero just
  when one of the eight bytes is null, with no false alarm from the borrow between bytes, and
  \<open>DETECTCHAR\<close> against a filled mask just when one of them is the character.
\<close>

theorem detect_exact:
  "(DETECTNULL w \<noteq> 0 \<longleftrightarrow> 0 \<in> set (le_bytes 8 w)) \<and> (DETECTCHAR w (fill d) \<noteq> 0 \<longleftrightarrow> d \<in> set (le_bytes 8 w))"
proof -
  have "byte w i = le_bytes 8 w ! i" if "i < 8" for i
    using byte_le_word[of i "le_bytes 8 w"] that by simp
  then show ?thesis by (auto simp: DETECTNULL_iff DETECTCHAR_iff in_set_conv_nth)
qed

lemma first_place:
  assumes "c \<in> set xs"
  shows "q = p + index_of c xs \<longleftrightarrow> (\<exists>i < length xs. q = p + i \<and> xs ! i = c \<and> c \<notin> set (take i xs))"
proof -
  have n: "c \<notin> set (take (index_of c xs) xs)"
    using index_of_first[of _ c xs] by (auto simp: in_set_conv_nth)
  have u: "i = index_of c xs" if "i < length xs" "xs ! i = c" "c \<notin> set (take i xs)" for i
  proof (rule linorder_cases[of i "index_of c xs"])
    assume "index_of c xs < i"
    then have "take i xs ! index_of c xs = c" "index_of c xs < length (take i xs)"
      using that(1) index_of_mem[OF assms] by auto
    then show ?thesis using that(3) by (metis nth_mem)
  qed (use that index_of_first[of i c xs] in auto)
  show ?thesis
  proof
    assume "q = p + index_of c xs"
    then show "\<exists>i < length xs. q = p + i \<and> xs ! i = c \<and> c \<notin> set (take i xs)"
      using index_of_mem[OF assms] n by (intro exI[of _ "index_of c xs"]) simp
  next
    assume "\<exists>i < length xs. q = p + i \<and> xs ! i = c \<and> c \<notin> set (take i xs)"
    then obtain i where "i < length xs" "q = p + i" "xs ! i = c" "c \<notin> set (take i xs)" by blast
    then show "q = p + index_of c xs" using u[of i] by simp
  qed
qed

lemma notin_drop: "c \<notin> set (drop (Suc i) xs) \<longleftrightarrow> (\<forall>j. i < j \<longrightarrow> j < length xs \<longrightarrow> xs ! j \<noteq> c)"
proof -
  have "c \<in> set (drop (Suc i) xs) \<longleftrightarrow> (\<exists>k < length xs - Suc i. xs ! (Suc i + k) = c)"
    unfolding in_set_conv_nth length_drop by (intro ex_cong1 conj_cong refl) simp
  also have "\<dots> \<longleftrightarrow> (\<exists>j > i. j < length xs \<and> xs ! j = c)"
  proof (intro iffI; elim exE conjE)
    fix k assume "k < length xs - Suc i" "xs ! (Suc i + k) = c"
    then show "\<exists>j > i. j < length xs \<and> xs ! j = c" by (intro exI[of _ "Suc i + k"]) simp
  next
    fix j assume "i < j" "j < length xs" "xs ! j = c"
    then show "\<exists>k < length xs - Suc i. xs ! (Suc i + k) = c" by (intro exI[of _ "j - Suc i"]) simp
  qed
  finally show ?thesis by blast
qed

lemma last_place:
  "map_option ((+) p) (last_index c xs) = Some q \<longleftrightarrow>
    (\<exists>i < length xs. q = p + i \<and> xs ! i = c \<and> c \<notin> set (drop (Suc i) xs))"
  unfolding map_option_eq_Some last_index_Some notin_drop eq_commute[of q] by blast

text \<open>
  \<open>strchr\<close> finds the first and \<open>strrchr\<close> the last place of a character in a string, and both
  return no address exactly when the character does not occur.
\<close>

theorem strchr_strrchr_correct:
  assumes "cstr m p xs" and "8 dvd length m" and "c \<noteq> 0"
  shows "\<exists>r l. strchr m p c = Ok r \<and> strrchr m p c = Ok l \<and> (r = None \<longleftrightarrow> c \<notin> set xs) \<and> (l = None \<longleftrightarrow> c \<notin> set xs) \<and>
    (\<forall>q. r = Some q \<longleftrightarrow> (\<exists>i < length xs. q = p + i \<and> xs ! i = c \<and> c \<notin> set (take i xs))) \<and>
    (\<forall>q. l = Some q \<longleftrightarrow> (\<exists>i < length xs. q = p + i \<and> xs ! i = c \<and> c \<notin> set (drop (Suc i) xs)))"
proof (intro exI conjI allI)
  let ?r = "if c \<in> set xs then Some (p + index_of c xs) else None"
  show "strchr m p c = Ok ?r" using strchr_cstr[OF assms(1,2)] assms(3) by simp
  show "strrchr m p c = Ok (map_option ((+) p) (last_index c xs))" by (rule strrchr_cstr[OF assms])
  show "?r = Some q \<longleftrightarrow> (\<exists>i < length xs. q = p + i \<and> xs ! i = c \<and> c \<notin> set (take i xs))" for q
    using first_place[of c xs q p] by auto
  show "map_option ((+) p) (last_index c xs) = Some q \<longleftrightarrow>
      (\<exists>i < length xs. q = p + i \<and> xs ! i = c \<and> c \<notin> set (drop (Suc i) xs))" for q
    by (rule last_place)
qed (auto simp: last_index_None)

theorem strchr_strrchr_correct_witness:
  "strchr sample_ram 0 108 = Ok (Some 2) \<and> strrchr sample_ram 0 108 = Ok (Some 3)"
  using strchr_strrchr_correct[OF sample_hello, of 108] by (auto simp: Ex_less_Suc2)

text \<open>
  \<open>memchr\<close> and \<open>memrchr\<close> look at exactly the \<open>n\<close> bytes they are given: no read leaves the
  range, the first returns the first and the second the last place of the byte, and both return
  no address exactly when it is not there.
\<close>

theorem memchr_memrchr_correct:
  assumes "p + n \<le> length m"
  shows "\<exists>r l. memchr m p d n = Ok r \<and> memrchr m p d n = Ok l \<and>
    (r = None \<longleftrightarrow> d \<notin> set (mslice m p n)) \<and> (l = None \<longleftrightarrow> d \<notin> set (mslice m p n)) \<and>
    (\<forall>q. r = Some q \<longrightarrow> p \<le> q \<and> q < p + n \<and> m ! q = d \<and> d \<notin> set (mslice m p (q - p))) \<and>
    (\<forall>q. l = Some q \<longrightarrow> p \<le> q \<and> q < p + n \<and> m ! q = d \<and> d \<notin> set (mslice m (Suc q) (p + n - Suc q)))"
proof (intro exI conjI allI impI)
  have s: "d \<notin> set (mslice m a k) \<longleftrightarrow> (\<forall>i < k. m ! (a + i) \<noteq> d)" if "a + k \<le> length m" for a k
    using that by (auto simp: in_set_conv_nth)
  show "memchr m p d n = Ok (find_byte d m p n)" "memrchr m p d n = Ok (find_last d m p n)"
    by (fact memchr_find[OF assms] memrchr_find[OF assms])+
  show "find_byte d m p n = None \<longleftrightarrow> d \<notin> set (mslice m p n)" by (simp add: find_byte_None s[OF assms])
  show "find_last d m p n = None \<longleftrightarrow> d \<notin> set (mslice m p n)"
    unfolding s[OF assms] by (induction n) (auto simp: less_Suc_eq)
  {
    fix q assume "find_byte d m p n = Some q"
    then obtain i where i: "i < n" "q = p + i" "m ! q = d" "\<forall>j < i. m ! (p + j) \<noteq> d"
      unfolding find_byte_Some by blast
    then show "p \<le> q" "q < p + n" "m ! q = d" by auto
    show "d \<notin> set (mslice m p (q - p))" using i s[of p i] assms by simp
  }
  {
    fix q assume "find_last d m p n = Some q"
    then have i: "p \<le> q \<and> q < p + n \<and> m ! q = d \<and> (\<forall>j. q < j \<longrightarrow> j < p + n \<longrightarrow> m ! j \<noteq> d)"
      by (induction n) (auto simp: less_Suc_eq split: if_splits)
    then show "p \<le> q" "q < p + n" "m ! q = d" by auto
    show "d \<notin> set (mslice m (Suc q) (p + n - Suc q))" using i s[of "Suc q" "p + n - Suc q"] assms by simp
  }
qed

theorem memchr_memrchr_correct_witness:
  "\<exists>r l. memchr sample_ram 1 108 14 = Ok r \<and> memrchr sample_ram 1 108 14 = Ok l \<and> r \<noteq> None \<and> l \<noteq> None"
proof -
  have "108 \<in> set (mslice sample_ram 1 14)" by (simp add: mslice_def sample_ram_def)
  moreover have "1 + 14 \<le> length sample_ram" by simp
  ultimately show ?thesis using memchr_memrchr_correct[of 1 14 sample_ram 108] by metis
qed

text \<open>
  \<open>strspn\<close> and \<open>strcspn\<close> split the string: the counted prefix has only characters of the set
  (or none of them), and it is the longest one.
\<close>

theorem strspn_strcspn_correct:
  assumes "cstr m p xs" and "cstr m q ys"
  shows "\<exists>a b. strspn m p q = Ok a \<and> strcspn m p q = Ok b \<and> a \<le> length xs \<and> b \<le> length xs \<and>
    set (take a xs) \<subseteq> set ys \<and> set (take b xs) \<inter> set ys = {} \<and>
    (a = length xs \<or> xs ! a \<notin> set ys) \<and> (b = length xs \<or> xs ! b \<in> set ys)"
proof -
  have t: "take (length (takeWhile P xs)) xs = takeWhile P xs" for P :: "u8 \<Rightarrow> bool"
    by (rule takeWhile_eq_take[symmetric])
  have n: "length (takeWhile P xs) = length xs \<or> \<not> P (xs ! length (takeWhile P xs))" for P
    using nth_length_takeWhile[of P xs] length_takeWhile_le[of P xs] by linarith
  show ?thesis
    unfolding strspn_cstr[OF assms] strcspn_cstr[OF assms]
    using n[of "\<lambda>x. x \<in> set ys"] n[of "\<lambda>x. x \<notin> set ys"]
    by (auto simp: t length_takeWhile_le dest: set_takeWhileD)
qed

theorem strspn_strcspn_correct_witness: "strspn sample_ram 8 0 = Ok 3"
proof -
  obtain a where a: "strspn sample_ram 8 0 = Ok a" "a \<le> 4"
      "set (take a [104, 101, 108, 112 :: u8]) \<subseteq> {104, 101, 108, 111}"
      "a = 4 \<or> [104, 101, 108, 112 :: u8] ! a \<notin> {104, 101, 108, 111}"
    using strspn_strcspn_correct[OF sample_help sample_hello] by auto
  from a(2) consider "a = 0" | "a = 1" | "a = 2" | "a = 3" | "a = 4" by linarith
  then show ?thesis using a by cases auto
qed

subsection \<open>Copying and filling\<close>

text \<open>What a write of \<open>n\<close> bytes at \<open>dst\<close> leaves: the bytes there, everything else as it was.\<close>

lemma put_contract:
  assumes "dst + length bs \<le> length m"
  shows "length (put m dst bs) = length m \<and> mslice (put m dst bs) dst (length bs) = bs \<and>
    (\<forall>q < length m. q < dst \<or> dst + length bs \<le> q \<longrightarrow> put m dst bs ! q = m ! q)"
  using assms by (auto simp: nth_put intro: nth_equalityI)

text \<open>
  C28.  \<open>memmove\<close> copies correctly however the two ranges overlap, forwards or backwards, aligned or
  not: afterwards the destination holds the bytes the source held before, and no other byte has
  changed.
\<close>

theorem memmove_correct:
  assumes "dst + n \<le> length m" and "src + n \<le> length m"
  shows "\<exists>m'. memmove m dst src n = Ok (dst, m') \<and> length m' = length m \<and> mslice m' dst n = mslice m src n \<and>
    (\<forall>q < length m. q < dst \<or> dst + n \<le> q \<longrightarrow> m' ! q = m ! q)"
  using memmove_put[OF assms] put_contract[of dst "mslice m src n" m] assms by simp

theorem memmove_correct_witness:
  "\<exists>m'. memmove sample_ram 2 0 8 = Ok (2, m') \<and> mslice m' 2 8 = [104, 101, 108, 108, 111, 0, 0, 0]"
  using memmove_correct[of 2 8 sample_ram 0] by (auto simp: mslice_def sample_ram_def)

text \<open>
  \<open>memcpy\<close> with its unrolled word loops is interchangeable with \<open>memmove\<close> wherever the ranges
  do not overlap, and in fact whenever the destination starts at or before the source; \<open>mempcpy\<close>
  does the same and returns the end of the destination.
\<close>

theorem memcpy_equiv:
  assumes "dst + n \<le> length m" and "src + n \<le> length m" and "dst \<le> src \<or> src + n \<le> dst"
  shows "memcpy m dst src n = memmove m dst src n \<and>
    mempcpy m dst src n = bnd (memmove m dst src n) (\<lambda>(p, m'). Ok (p + n, m'))"
  using assms memmove_put[OF assms(1,2)] memcpy_put[of m dst src n] mempcpy_put[of m dst src n] by (simp add: fwd_def)

theorem memcpy_equiv_witness: "memcpy sample_ram 16 0 8 = memmove sample_ram 16 0 8"
  using memcpy_equiv[of 16 8 sample_ram 0] by simp

text \<open>
  \<open>memset\<close> fills exactly the \<open>n\<close> bytes at the address, whatever its alignment, and \<open>bzero\<close>
  clears them.
\<close>

theorem memset_correct:
  assumes "p + n \<le> length m"
  shows "\<exists>m'. memset m p c n = Ok (p, m') \<and> length m' = length m \<and> mslice m' p n = replicate n c \<and>
    (\<forall>q < length m. q < p \<or> p + n \<le> q \<longrightarrow> m' ! q = m ! q)"
  using memset_put[OF assms] put_contract[of p "replicate n c" m] assms by simp

theorem memset_correct_witness: "\<exists>m'. memset sample_ram 3 42 17 = Ok (3, m') \<and> mslice m' 3 17 = replicate 17 42"
  using memset_correct[of 3 17 sample_ram 42] by auto

text \<open>
  \<open>strcpy\<close> and \<open>strcat\<close>: when the destination has room for the result and its null and lies
  clear of the source, the destination holds the string, or the concatenation, afterwards, and
  the source string is still there.
\<close>

theorem strcpy_strcat_correct:
  assumes "cstr m s xs" and "cstr m s2 ys" and "8 dvd length m"
    and "s + length xs + Suc (length ys) \<le> length m"
    and "s + length xs + Suc (length ys) \<le> s2 \<or> s2 + Suc (length ys) \<le> s"
  shows "(\<exists>m'. strcpy m s s2 = Ok (s, m') \<and> cstr m' s ys \<and> cstr m' s2 ys) \<and>
    (\<exists>m'. strcat m s s2 = Ok (s, m') \<and> cstr m' s (xs @ ys) \<and> cstr m' s2 ys)"
proof -
  have f: "fwd m s s2 (Suc (length ys))" "fwd m (s + length xs) s2 (Suc (length ys))"
    using assms(2,4,5) by (auto simp: fwd_def cstr_def)
  have "cstr (put m s (ys @ [0])) s ys"
    using assms(2,4) by (intro cstr_put_self) (auto simp: cstr_def)
  moreover have "cstr (put m s (ys @ [0])) s2 ys" "cstr (put m (s + length xs) (ys @ [0])) s2 ys"
    using assms(4,5) by (auto intro!: cstr_put[OF assms(2)])
  ultimately show ?thesis
    using stpcpy_put(2)[OF assms(2) f(1) assms(3)] strcat_put[OF assms(1,2) f(2) assms(3)] by auto
qed

theorem strcpy_strcat_correct_witness:
  "\<exists>m'. strcat sample_ram 16 0 = Ok (16, m') \<and> cstr m' 16 [104, 101, 108, 108, 111]"
proof -
  have "cstr sample_ram 16 []" by (simp add: cstr_Nil sample_ram_def)
  from strcpy_strcat_correct[OF this sample_hello] show ?thesis by auto
qed

text \<open>
  \<open>strncpy\<close> writes exactly \<open>n\<close> bytes: the source up to its null, cut after \<open>n\<close> characters,
  and nulls for the rest; it ends without a null just when the source has \<open>n\<close> or more characters.
\<close>

theorem strncpy_correct:
  assumes "cstr m src xs" and "dst + n \<le> length m" and "src + n \<le> length m" and "dst + n \<le> src \<or> src + n \<le> dst"
  shows "\<exists>m'. strncpy m dst src n = Ok (dst, m') \<and> length m' = length m \<and>
    mslice m' dst n = take n xs @ replicate (n - length xs) 0 \<and>
    (\<forall>q < length m. q < dst \<or> dst + n \<le> q \<longrightarrow> m' ! q = m ! q)"
proof -
  have "mslice m src n = take n (xs @ 0 # drop (Suc (src + length xs)) m)"
  proof -
    have "drop src m = xs @ 0 # drop (Suc (src + length xs)) m"
      using assms(1) by (intro nth_equalityI) (auto simp: cstr_def nth_append nth_Cons' not_less le_Suc_eq)
    then show ?thesis by (simp add: mslice_def)
  qed
  moreover have "takeWhile (\<lambda>c. c \<noteq> 0) (take n (xs @ 0 # zs)) = take n xs" for zs
  proof -
    have "0 \<notin> set (take n xs)" using assms(1) by (auto simp: cstr_def dest: in_set_takeD)
    then have "takeWhile (\<lambda>c. c \<noteq> 0) (take n xs) = take n xs" by (auto simp: takeWhile_eq_all_conv)
    then show ?thesis by (cases "n - length xs") (auto simp: takeWhile_append takeWhile_eq_all_conv)
  qed
  ultimately have "csl m src n = take n xs" by (simp add: csl_def)
  then have p: "pad n (csl m src n) = take n xs @ replicate (n - length xs) 0" by (auto simp: pad_def)
  have l: "min (length xs) n + (n - length xs) = n" by simp
  have "fwd m dst src n" using assms by (auto simp: fwd_def)
  then show ?thesis using strncpy_pad[of m dst src n] put_contract[of dst "pad n (csl m src n)" m] assms(2) p by (simp add: l)
qed

theorem strncpy_correct_witness:
  "\<exists>m'. strncpy sample_ram 16 8 8 = Ok (16, m') \<and> mslice m' 16 8 = [104, 101, 108, 112, 0, 0, 0, 0]"
  using strncpy_correct[OF sample_help, of 16 8] by (auto simp: eval_nat_numeral)

subsection \<open>Comparing\<close>

text \<open>
  C29.  \<open>strcmp\<close> is the lexicographic order of unsigned bytes: 0 exactly for equal strings, negative
  exactly when the first comes first, whatever the alignment of the two, and exchanging the
  arguments changes the sign.
\<close>

theorem strcmp_correct:
  assumes "cstr m p xs" and "cstr m q ys" and "8 dvd length m"
  shows "\<exists>r. strcmp m p q = Ok r \<and> strcmp m q p = Ok (- r) \<and> (r = 0 \<longleftrightarrow> xs = ys) \<and>
    (r < 0 \<longleftrightarrow> ord_class.lexordp xs ys) \<and> (0 < r \<longleftrightarrow> ord_class.lexordp ys xs)"
proof -
  have z: "0 \<notin> set xs" "0 \<notin> set ys" using assms by (simp_all add: cstr_def)
  have s: "diff vs us = - diff us vs" for us vs by (induction us vs rule: diff.induct) auto
  show ?thesis
    using strcmp_diff[OF assms] strcmp_diff[OF assms(2,1,3)] diff_string_zero[OF z] diff_string_less[OF z]
      diff_string_less[OF z(2,1)] s[of "ys @ [0]" "xs @ [0]"] by auto
qed

theorem strcmp_correct_witness: "\<exists>r. strcmp sample_ram 0 8 = Ok r \<and> r < 0"
  using strcmp_correct[OF sample_hello sample_help] by auto

text \<open>
  \<open>strncmp\<close> is \<open>strcmp\<close> of the two strings cut to \<open>n\<close> characters.
\<close>

theorem strncmp_correct:
  assumes "cstr m p xs" and "cstr m q ys" and "8 dvd length m"
  shows "\<exists>r. strncmp m p q n = Ok r \<and> (r = 0 \<longleftrightarrow> take n xs = take n ys) \<and>
    (r < 0 \<longleftrightarrow> ord_class.lexordp (take n xs) (take n ys))"
proof -
  have z: "0 \<notin> set (take n xs)" "0 \<notin> set (take n ys)"
    using assms by (auto simp: cstr_def dest: in_set_takeD)
  have "0 \<notin> set us \<Longrightarrow> 0 \<notin> set vs \<Longrightarrow>
      diff (take n (us @ [0])) (take n (vs @ [0])) = diff (take n us @ [0]) (take n vs @ [0])" for us vs
  proof (induction us vs arbitrary: n rule: list_induct2')
    case (4 x us y vs)
    then show ?case by (cases n) auto
  qed (auto simp: take_Cons' )
  from this[of xs ys] show ?thesis
    using strncmp_diff[OF assms, of n] diff_string_zero[OF z] diff_string_less[OF z] assms by (simp add: cstr_def)
qed

theorem strncmp_correct_witness: "strncmp sample_ram 0 8 3 = Ok 0"
  using strncmp_correct[OF sample_hello sample_help, of 3] by auto

text \<open>
  \<open>memcmp\<close> gives the difference of the first pair of bytes that differ, so it is 0 exactly for
  equal ranges and its sign is the lexicographic order; the constant-time versions agree with
  it: \<open>timingsafe_bcmp\<close> tells whether the ranges differ, \<open>timingsafe_memcmp\<close> returns the sign.
\<close>

theorem memcmp_timingsafe_equiv:
  assumes "p + n \<le> length m" and "q + n \<le> length m"
  shows "\<exists>r. memcmp m p q n = Ok r \<and> (r = 0 \<longleftrightarrow> mslice m p n = mslice m q n) \<and>
    (r < 0 \<longleftrightarrow> ord_class.lexordp (mslice m p n) (mslice m q n)) \<and>
    timingsafe_bcmp m p q n = Ok (if r = 0 then 0 else 1) \<and> timingsafe_memcmp m p q n = Ok (sgn r)"
  using memcmp_diff[OF assms] timingsafe_bcmp_result[OF assms] timingsafe_memcmp_diff[OF assms]
    diff_zero[of "mslice m p n" "mslice m q n"] diff_less[of "mslice m p n" "mslice m q n"] assms
  by (simp add: mslice_def)

theorem memcmp_timingsafe_equiv_witness:
  "\<exists>r. memcmp sample_ram 0 8 4 = Ok r \<and> r \<noteq> 0 \<and> timingsafe_memcmp sample_ram 0 8 4 = Ok (sgn r)"
  using memcmp_timingsafe_equiv[of 0 4 sample_ram 8] by (auto simp: mslice_def sample_ram_def)

text \<open>
  \<open>strcasecmp\<close> of two ASCII strings is \<open>strcmp\<close> of their lower-case versions, and
  \<open>strncasecmp\<close> the same on the first \<open>n\<close> characters.
\<close>

theorem strcasecmp_correct:
  assumes "cstr m p xs" and "cstr m q ys" and "\<forall>x \<in> set xs \<union> set ys. x < 128"
  shows "(\<exists>r. strcasecmp m p q = Ok r \<and> (r = 0 \<longleftrightarrow> map lower xs = map lower ys) \<and>
      (r < 0 \<longleftrightarrow> ord_class.lexordp (map lower xs) (map lower ys))) \<and>
    strncasecmp m p q n = Ok (diff (take n (map lower xs @ [0])) (take n (map lower ys @ [0])))"
proof -
  have "0 \<notin> set (map lower xs)" "0 \<notin> set (map lower ys)"
    using assms by (auto simp: cstr_def)
  from diff_string_zero[OF this] diff_string_less[OF this] show ?thesis
    using strcasecmp_diff[OF assms] strncasecmp_diff[OF assms] by (simp add: strncasecmp_def)
qed

theorem strcasecmp_correct_witness: "\<exists>r. strcasecmp sample_ram 0 8 = Ok r \<and> r < 0"
  using strcasecmp_correct[OF sample_hello sample_help, of 0] by (auto simp: lower_def)

text \<open>
  \<open>strcasecmp\<close> hands plain \<open>char\<close>s to \<open>tolower\<close>.  A byte from 0x80 to 0xfe is a negative index
  below the class table, so the comparison of such strings leaves the array, although the
  table has an entry for the unsigned value of every byte.
\<close>

theorem strcasecmp_high_byte:
  assumes "p < length m" and "128 \<le> m ! p" and "m ! p < 255"
  shows "strcasecmp m p q = Stop Fault \<and> tolower (uint (m ! p)) = Ok (uint (m ! p))"
proof -
  have u: "128 \<le> uint (m ! p)" "uint (m ! p) < 255" using assms(2,3) by (simp_all add: word_le_def word_less_def)
  have "sint (m ! p) = uint (m ! p) - 256"
  proof -
    have "sint (word_of_int k :: u8) = k" if "- 128 \<le> k" "k < 128" for k
      using that by (simp only: sint_sbintrunc') (simp add: signed_take_bit_int_eq_self)
    from this[of "uint (m ! p) - 256"]
    have "sint (word_of_int (uint (m ! p) - 256) :: u8) = uint (m ! p) - 256" using u by linarith
    moreover have "word_of_int (uint (m ! p) - 256) = m ! p" by simp
    ultimately show ?thesis by (simp only:)
  qed
  then have "tolower (sint (m ! p)) = Stop Fault"
    using u by (simp add: tolower_def isupper_def ctype_and_def ctype_lookup_def)
  then show ?thesis using assms(1) u by (subst strcasecmp.simps) (simp add: rb_def tolower_range)
qed

theorem strcasecmp_high_byte_witness: "strcasecmp [200, 0, 200, 0, 0, 0, 0, 0] 0 2 = Stop Fault"
  using strcasecmp_high_byte[of 0 "[200, 0, 200, 0, 0, 0, 0, 0]" 2] by simp

text \<open>
  The class table says what the C locale says: each predicate is the stated range of codes for
  every argument from EOF to 255, the two case conversions move exactly the letters, and each
  undoes the other on letters of its own case.
\<close>

theorem ctype_correct:
  assumes "- 1 \<le> c" and "c < 256"
  shows "isupper c = Ok (65 \<le> c \<and> c \<le> 90) \<and> islower c = Ok (97 \<le> c \<and> c \<le> 122) \<and>
    isdigit c = Ok (48 \<le> c \<and> c \<le> 57) \<and> isspace c = Ok (c = 32 \<or> 9 \<le> c \<and> c \<le> 13) \<and>
    isprint c = Ok (32 \<le> c \<and> c < 127) \<and> iscntrl c = Ok (0 \<le> c \<and> c < 32 \<or> c = 127) \<and>
    bnd (tolower c) toupper = toupper c \<and> bnd (toupper c) tolower = tolower c"
  using ctype_ranges[OF assms] assms by (auto simp: tolower_range toupper_range)

theorem ctype_correct_witness: "isdigit 55 = Ok True \<and> bnd (tolower 81) toupper = toupper 81"
  using ctype_correct[of 55] ctype_correct[of 81] by simp

end
