(* ===== verification/Libc_Token.thy ===== *)
theory Libc_Token
  imports Libc_Copy Libc_Compare
begin

text \<open>
  Further routines of \<open>src/libc/string\<close> on null-terminated strings: bounded copy and
  concatenation (\<open>strlcpy\<close>, \<open>strlcat\<close>), copying up to a character (\<open>memccpy\<close>), splitting into
  tokens (\<open>strtok_r\<close>, \<open>strtok\<close>, \<open>strsep\<close>), case conversion in place (\<open>strlwr\<close>, \<open>strupr\<close>),
  exchange of neighbouring bytes (\<open>swab\<close>) and the comparison of version strings
  (\<open>strverscmp\<close>).
\<close>

subsection \<open>Bounded copies\<close>

text \<open>The loop of \<open>strlcpy\<close>; the counter is what is left after the decrement in its head.\<close>

fun strlcpy_loop :: "'a :: zero list \<Rightarrow> nat \<Rightarrow> nat \<Rightarrow> nat \<Rightarrow> ('a list \<times> nat \<times> nat \<times> nat) res" where
  "strlcpy_loop m dst src 0 = Ok (m, dst, src, 0)"
| "strlcpy_loop m dst src (Suc n) = bnd (rb m src) (\<lambda>c. bnd (wb m dst c) (\<lambda>m.
     if c = 0 then Ok (m, Suc dst, Suc src, Suc n) else strlcpy_loop m (Suc dst) (Suc src) n))"

definition strlcpy :: "'a :: zero list \<Rightarrow> nat \<Rightarrow> nat \<Rightarrow> nat \<Rightarrow> (nat \<times> 'a list) res" where
  "strlcpy m dst src dsize =
     bnd (if dsize \<noteq> 0 then strlcpy_loop m dst src (dsize - 1) else Ok (m, dst, src, 0)) (\<lambda>(m, d, s, nleft).
       if nleft = 0
       then bnd (if dsize \<noteq> 0 then wb m d 0 else Ok m) (\<lambda>m.
            bnd (scan_bytes (\<lambda>c. c = 0) m s) (\<lambda>e. Ok (Suc e - src - 1, m)))
       else Ok (s - src - 1, m))"

text \<open>\<open>strnlen_loop\<close> counts the characters of a string up to a bound, as the first loop of
  \<open>strlcat\<close> does.\<close>

function strlcat_loop :: "'a :: zero list \<Rightarrow> nat \<Rightarrow> nat \<Rightarrow> nat \<Rightarrow> ('a list \<times> nat \<times> nat) res" where
  "strlcat_loop m dst src n = bnd (rb m src) (\<lambda>c.
     if c = 0 then Ok (m, dst, src)
     else if n \<noteq> 0 then bnd (wb m dst c) (\<lambda>m. strlcat_loop m (Suc dst) (Suc src) (n - 1))
     else strlcat_loop m dst (Suc src) n)"
  by pat_completeness auto
termination
  by (relation "measure (\<lambda>(m, dst, src, n). length m - src)") (auto simp: rb_def wb_def split: if_splits)

fun strlcat_end :: "'a :: zero list \<Rightarrow> nat \<Rightarrow> nat \<Rightarrow> nat res" where
  "strlcat_end m dst 0 = Ok dst"
| "strlcat_end m dst (Suc n) = bnd (rb m dst) (\<lambda>c. if c \<noteq> 0 then strlcat_end m (Suc dst) n else Ok dst)"

definition strlcat :: "ram \<Rightarrow> nat \<Rightarrow> nat \<Rightarrow> nat \<Rightarrow> (nat \<times> ram) res" where
  "strlcat m dst src dsize = bnd (strlcat_end m dst dsize) (\<lambda>d.
     let dlen = d - dst; n = dsize - dlen
     in if n = 0 then bnd (strlen m src) (\<lambda>l. Ok (dlen + l, m))
        else bnd (strlcat_loop m d src (n - 1)) (\<lambda>(m, d, s).
             bnd (wb m d 0) (\<lambda>m. Ok (dlen + (s - src), m))))"

subsection \<open>Tokens\<close>

text \<open>The test of the second loop of \<open>__strtok_r\<close>: the terminating null of the delimiters counts.\<close>

function in_set_nul :: "u8 \<Rightarrow> ram \<Rightarrow> nat \<Rightarrow> bool res" where
  "in_set_nul c m spanp = bnd (rb m spanp) (\<lambda>sc.
     if sc = c then Ok True else if sc \<noteq> 0 then in_set_nul c m (Suc spanp) else Ok False)"
  by pat_completeness auto
termination
  by (relation "measure (\<lambda>(c, m, p). length m - p)") (auto simp: rb_def split: if_splits)

text \<open>Leading delimiters: \<open>Inl q\<close> is a delimiter at \<open>q\<close> that is not to be skipped, \<open>Inr (c, s)\<close> the
  first other character and the position behind it.\<close>

function strtok_skip :: "ram \<Rightarrow> nat \<Rightarrow> nat \<Rightarrow> bool \<Rightarrow> (nat + u8 \<times> nat) res" where
  "strtok_skip m s delim skip = bnd (rb m s) (\<lambda>c. bnd (in_set c m delim) (\<lambda>found.
     if found then if skip then strtok_skip m (Suc s) delim skip else Ok (Inl s)
     else Ok (Inr (c, Suc s))))"
  by pat_completeness auto
termination
  by (relation "measure (\<lambda>(m, s, d, k). length m - s)") (auto simp: rb_def split: if_splits)

function strtok_scan :: "ram \<Rightarrow> nat \<Rightarrow> nat \<Rightarrow> (u8 \<times> nat) res" where
  "strtok_scan m s delim = bnd (rb m s) (\<lambda>c. bnd (in_set_nul c m delim) (\<lambda>found.
     if found then Ok (c, Suc s) else strtok_scan m (Suc s) delim))"
  by pat_completeness auto
termination
  by (relation "measure (\<lambda>(m, s, d). length m - s)") (auto simp: rb_def split: if_splits)

text \<open>The result is the token, the new value of \<open>*lasts\<close> and the memory.\<close>

definition strtok_r_internal ::
  "ram \<Rightarrow> nat option \<Rightarrow> nat \<Rightarrow> nat option \<Rightarrow> bool \<Rightarrow> (nat option \<times> nat option \<times> ram) res" where
  "strtok_r_internal m s delim lasts skip_leading_delim =
     (case (case s of None \<Rightarrow> lasts | Some p \<Rightarrow> s) of
        None \<Rightarrow> Ok (None, lasts, m)
      | Some p \<Rightarrow> bnd (strtok_skip m p delim skip_leading_delim) (\<lambda>r. case r of
            Inl q \<Rightarrow> bnd (wb m q 0) (\<lambda>m. Ok (Some q, Some (Suc q), m))
          | Inr (c, s) \<Rightarrow>
              if c = 0 then Ok (None, None, m)
              else let tok = s - 1
                in bnd (strtok_scan m s delim) (\<lambda>(c, s).
                     if c = 0 then Ok (Some tok, None, m)
                     else bnd (wb m (s - 1) 0) (\<lambda>m. Ok (Some tok, Some s, m)))))"

definition strtok_r :: "ram \<Rightarrow> nat option \<Rightarrow> nat \<Rightarrow> nat option \<Rightarrow> (nat option \<times> nat option \<times> ram) res" where
  "strtok_r m s delim lasts = strtok_r_internal m s delim lasts True"

definition strsep :: "ram \<Rightarrow> nat option \<Rightarrow> nat \<Rightarrow> (nat option \<times> nat option \<times> ram) res" where
  "strsep m source_ptr delim = strtok_r_internal m source_ptr delim source_ptr False"

text \<open>\<open>strtok\<close> keeps its place in the re-entrancy block, here the argument \<open>strtok_last\<close>.\<close>

definition strtok :: "ram \<Rightarrow> nat option \<Rightarrow> nat \<Rightarrow> nat option \<Rightarrow> (nat option \<times> nat option \<times> ram) res" where
  "strtok m s delim strtok_last = strtok_r_internal m s delim strtok_last True"

declare strlcat_loop.simps [simp del] in_set_nul.simps [simp del] strtok_skip.simps [simp del] strtok_scan.simps [simp del]

subsection \<open>What the bounded copies do\<close>

lemma put_Cons: "dst + Suc (length xs) \<le> length m \<Longrightarrow> put (put m dst [x]) (Suc dst) xs = put m dst (x # xs)"
  using put_put[of dst "[x]" xs m] by simp

text \<open>A range of \<open>n\<close> bytes at \<open>dst\<close>, clear of the string \<open>xs\<close> at \<open>src\<close> and its null.\<close>

definition apart :: "'a list \<Rightarrow> nat \<Rightarrow> nat \<Rightarrow> nat \<Rightarrow> 'a list \<Rightarrow> bool" where
  "apart m dst n src xs \<longleftrightarrow> dst + n \<le> length m \<and> (dst + n \<le> src \<or> src + length xs < dst)"

lemma apart_put: "cstr m src xs \<Longrightarrow> apart m dst n src xs \<Longrightarrow> length bs \<le> n \<Longrightarrow> cstr (put m dst bs) src xs"
  by (intro cstr_put) (auto simp: apart_def)

lemma apart_step:
  "apart m dst (Suc n) src (x # xs) \<Longrightarrow> apart (put m dst [x]) (Suc dst) n (Suc src) xs"
  by (auto simp: apart_def)

lemma strlcpy_loop_copies:
  assumes "cstr m src xs" and "apart m dst (min n (Suc (length xs))) src xs"
  shows "strlcpy_loop m dst src n =
    (if length xs < n then Ok (put m dst (xs @ [0]), Suc (dst + length xs), Suc (src + length xs), n - length xs)
     else Ok (put m dst (take n xs), dst + n, src + n, 0))"
  using assms
proof (induction n arbitrary: m dst src xs)
  case 0
  then show ?case by simp
next
  case (Suc n)
  show ?case
  proof (cases xs)
    case Nil
    then show ?thesis using Suc.prems by (simp add: cstr_Nil rb_def wb_put apart_def)
  next
    case (Cons x ys)
    have b: "src < length m" "dst < length m" "m ! src = x" "x \<noteq> 0" using Suc.prems by (auto simp: Cons cstr_Cons apart_def)
    have c: "cstr (put m dst [x]) (Suc src) ys" using Suc.prems by (intro cstr_put) (auto simp: Cons cstr_Cons apart_def)
    have f: "apart (put m dst [x]) (Suc dst) (min n (Suc (length ys))) (Suc src) ys"
      using Suc.prems(2) by (intro apart_step) (simp add: Cons)
    show ?thesis
      using Suc.IH[OF c f] Suc.prems(2) b by (auto simp: Cons rb_def wb_put put_Cons apart_def)
  qed
qed

lemma scan_bytes_cstr: "cstr m p xs \<Longrightarrow> scan_bytes (\<lambda>c. c = 0) m p = Ok (p + length xs)"
  by (intro scan_bytes_first cstr_first_nul)

lemma strlcpy_copies:
  assumes "cstr m src xs" and "apart m dst (min dsize (Suc (length xs))) src xs"
  shows "strlcpy m dst src dsize =
    Ok (length xs, if dsize = 0 then m else put m dst (take (dsize - 1) xs @ [0]))"
proof (cases dsize)
  case 0
  then show ?thesis using scan_bytes_cstr[OF assms(1)] by (simp add: strlcpy_def)
next
  case (Suc n)
  have a: "apart m dst (min n (Suc (length xs))) src xs" using assms(2) by (auto simp: Suc apart_def)
  note l = strlcpy_loop_copies[OF assms(1) a]
  show ?thesis
  proof (cases "length xs < n")
    case True
    then show ?thesis using l by (simp add: strlcpy_def Suc)
  next
    case False
    let ?m = "put m dst (take n xs @ [0])"
    have d: "dst + Suc n \<le> length m" using assms(2) False by (simp add: Suc apart_def)
    have w: "wb (put m dst (take n xs)) (dst + n) 0 = Ok ?m"
      using d False put_put[of dst "take n xs" "[0]" m] by (simp add: wb_put min_absorb2)
    have "cstr ?m src xs" using assms False by (intro apart_put[OF assms(1,2)]) (simp add: Suc)
    then have "scan_bytes (\<lambda>c. c = 0) ?m (src + n) = Ok (src + length xs)"
      using scan_bytes_cstr[OF cstr_drop[of ?m src xs n]] False by simp
    then show ?thesis using l w False by (simp add: strlcpy_def Suc)
  qed
qed

lemma strlcat_end_cstr: "cstr m dst ys \<Longrightarrow> strlcat_end m dst n = Ok (dst + min n (length ys))"
proof (induction n arbitrary: dst ys)
  case (Suc n)
  then show ?case by (cases ys) (auto simp: cstr_Nil cstr_Cons rb_def)
qed simp

lemma strlcat_loop_copies:
  assumes "cstr m src xs" and "apart m dst (min n (length xs)) src xs"
  shows "strlcat_loop m dst src n = Ok (put m dst (take n xs), dst + min n (length xs), src + length xs)"
  using assms
proof (induction xs arbitrary: m dst src n)
  case Nil
  then show ?case by (subst strlcat_loop.simps) (simp add: cstr_Nil rb_def)
next
  case (Cons x xs)
  have b: "src < length m" "m ! src = x" "x \<noteq> 0" "cstr m (Suc src) xs" using Cons.prems by (auto simp: cstr_Cons)
  show ?case
  proof (cases n)
    case 0
    have "apart m dst (min 0 (length xs)) (Suc src) xs" using Cons.prems(2) by (auto simp: 0 apart_def)
    from Cons.IH[OF b(4) this] show ?thesis using b by (subst strlcat_loop.simps) (simp add: 0 rb_def)
  next
    case (Suc k)
    have d: "dst < length m" using Cons.prems(2) by (auto simp: Suc apart_def)
    have c: "cstr (put m dst [x]) (Suc src) xs"
      using b(4) Cons.prems(2) by (intro cstr_put) (auto simp: Suc apart_def)
    have "apart (put m dst [x]) (Suc dst) (min k (length xs)) (Suc src) xs"
      using Cons.prems(2) by (intro apart_step) (simp add: Suc)
    note IH = Cons.IH[OF c this]
    have "put (put m dst [x]) (Suc dst) (take k xs) = put m dst (x # take k xs)"
      using Cons.prems(2) by (intro put_Cons) (auto simp: Suc apart_def)
    then show ?thesis using IH b d by (subst strlcat_loop.simps) (simp add: Suc rb_def wb_put)
  qed
qed

lemma strlcat_copy_end:
  assumes "cstr m src xs" and "apart m d (Suc (min n (length xs))) src xs"
  shows "bnd (strlcat_loop m d src n) (\<lambda>(m, d, s). bnd (wb m d 0) (\<lambda>m. Ok (k + (s - src), m))) =
    Ok (k + length xs, put m d (take n xs @ [0]))"
proof -
  have "apart m d (min n (length xs)) src xs" using assms(2) by (auto simp: apart_def)
  note l = strlcat_loop_copies[OF assms(1) this]
  have "d + Suc (min n (length xs)) \<le> length m" using assms(2) by (simp add: apart_def)
  then have "wb (put m d (take n xs)) (d + min n (length xs)) 0 = Ok (put m d (take n xs @ [0]))"
    using put_put[of d "take n xs" "[0]" m] by (simp add: wb_put min.commute)
  then show ?thesis using l by simp
qed

lemma strlcat_appends:
  assumes "cstr m dst ys" and "cstr m src xs" and "8 dvd length m"
    and "apart m (dst + length ys) (min (dsize - length ys) (Suc (length xs))) src xs"
  shows "strlcat m dst src dsize = Ok (min dsize (length ys) + length xs,
    if dsize \<le> length ys then m else put m (dst + length ys) (take (dsize - length ys - 1) xs @ [0]))"
proof (cases "dsize \<le> length ys")
  case True
  then show ?thesis
    using strlcat_end_cstr[OF assms(1), of dsize] strlen_cstr[OF assms(2,3)] by (simp add: strlcat_def min_absorb1)
next
  case False
  then obtain n where n: "dsize = length ys + Suc n" by (metis add_Suc_right less_imp_Suc_add not_le)
  show ?thesis
    using strlcat_copy_end[OF assms(2), of "dst + length ys" n "length ys"] assms(4) strlcat_end_cstr[OF assms(1), of dsize]
    by (simp add: strlcat_def n Let_def min_absorb2)
qed

subsection \<open>What the tokenizer does\<close>

lemma in_set_nul_cstr: "cstr m p ys \<Longrightarrow> in_set_nul c m p = Ok (c = 0 \<or> c \<in> set ys)"
proof (induction ys arbitrary: p)
  case Nil
  then show ?case by (subst in_set_nul.simps) (auto simp: cstr_Nil rb_def)
next
  case (Cons y ys)
  then show ?case by (subst in_set_nul.simps) (auto simp: cstr_Cons rb_def)
qed

text \<open>The delimiters as a set, and the parts of a string around its first token.\<close>

lemma strtok_skip_cstr:
  assumes "cstr m p xs" and "cstr m dp ds"
  shows "strtok_skip m p dp True =
    (case dropWhile (\<lambda>c. c \<in> set ds) xs of
       [] \<Rightarrow> Ok (Inr (0, Suc (p + length xs)))
     | x # r \<Rightarrow> Ok (Inr (x, Suc (p + length (takeWhile (\<lambda>c. c \<in> set ds) xs)))))"
  using assms(1)
proof (induction xs arbitrary: p)
  case Nil
  have "0 \<notin> set ds" using assms(2) by (simp add: cstr_def)
  then show ?case using Nil in_set_cstr[OF assms(2), of 0] by (subst strtok_skip.simps) (simp add: cstr_Nil rb_def)
next
  case (Cons x xs)
  then show ?case
    using in_set_cstr[OF assms(2), of x] Cons.IH[of "Suc p"]
    by (subst strtok_skip.simps) (auto simp: cstr_Cons rb_def simp del: dropWhile_eq_Nil_conv split: list.splits)
qed

lemma strtok_scan_cstr:
  assumes "cstr m p xs" and "cstr m dp ds"
  shows "strtok_scan m p dp =
    (case dropWhile (\<lambda>c. c \<notin> set ds) xs of
       [] \<Rightarrow> Ok (0, Suc (p + length xs))
     | x # r \<Rightarrow> Ok (x, Suc (p + length (takeWhile (\<lambda>c. c \<notin> set ds) xs))))"
  using assms(1)
proof (induction xs arbitrary: p)
  case Nil
  then show ?case using in_set_nul_cstr[OF assms(2), of 0] by (subst strtok_scan.simps) (simp add: cstr_Nil rb_def)
next
  case (Cons x xs)
  then show ?case
    using in_set_nul_cstr[OF assms(2), of x] Cons.IH[of "Suc p"]
    by (subst strtok_scan.simps) (auto simp: cstr_Cons rb_def simp del: dropWhile_eq_Nil_conv split: list.splits)
qed

text \<open>One call on a string: the delimiters in front are skipped, the token is cut off with a null,
  and the rest is what stands behind the delimiter that ended it.\<close>

lemma strtok_first:
  assumes "cstr m p xs" and "cstr m dp ds" and "dp + length ds < p \<or> p + length xs < dp"
  defines "a \<equiv> length (takeWhile (\<lambda>c. c \<in> set ds) xs)" and "r \<equiv> dropWhile (\<lambda>c. c \<in> set ds) xs"
  defines "t \<equiv> takeWhile (\<lambda>c. c \<notin> set ds) r" and "u \<equiv> dropWhile (\<lambda>c. c \<notin> set ds) r"
  shows "strtok_r_internal m (Some p) dp lasts True =
    (if r = [] then Ok (None, None, m)
     else if u = [] then Ok (Some (p + a), None, m)
     else Ok (Some (p + a), Some (Suc (p + a + length t)), put m (p + a + length t) [0]))"
proof (cases r)
  case Nil
  then show ?thesis
    using strtok_skip_cstr[OF assms(1,2)] by (simp add: strtok_r_internal_def r_def del: dropWhile_eq_Nil_conv)
next
  case (Cons x r')
  have xs: "xs = takeWhile (\<lambda>c. c \<in> set ds) xs @ r" by (simp add: r_def)
  have al: "a + length r = length xs" using arg_cong[OF xs, of length] by (simp add: a_def)
  have c: "cstr m (p + a) r" using cstr_drop[OF assms(1), of a] al xs by (metis a_def append_eq_conv_conj le_add1)
  then have x0: "x \<noteq> 0" "cstr m (Suc (p + a)) r'" by (simp_all add: Cons cstr_Cons)
  have xd: "x \<notin> set ds" using Cons by (simp add: r_def dropWhile_eq_Cons_conv)
  have t: "t = x # takeWhile (\<lambda>c. c \<notin> set ds) r'" "u = dropWhile (\<lambda>c. c \<notin> set ds) r'"
    using xd by (simp_all add: t_def u_def Cons)
  have s: "strtok_skip m p dp True = Ok (Inr (x, Suc (p + a)))"
    using strtok_skip_cstr[OF assms(1,2)] Cons by (simp add: r_def a_def)
  note sc = strtok_scan_cstr[OF x0(2) assms(2)]
  show ?thesis
  proof (cases u)
    case Nil
    then show ?thesis using s sc x0 Cons t by (simp add: strtok_r_internal_def del: dropWhile_eq_Nil_conv)
  next
    case (Cons y u')
    have "y \<in> set r'" using Cons t(2) by (metis list.set_intros(1) set_dropWhileD)
    then have "y \<noteq> 0" using x0(2) by (auto simp: cstr_def)
    moreover have "length t + length u = length r" by (simp add: t_def u_def flip: length_append)
    then have "p + a + length t < length m" using c Cons by (simp add: cstr_def)
    moreover have "dropWhile (\<lambda>c. c \<notin> set ds) r' = y # u'" using Cons t(2) by simp
    then have "strtok_scan m (Suc (p + a)) dp = Ok (y, Suc (p + a + length t))" using sc by (simp add: t(1))
    ultimately show ?thesis using s x0(1) \<open>r = x # r'\<close> Cons by (simp add: strtok_r_internal_def wb_put)
  qed
qed

text \<open>The tokens of a string: its maximal parts without delimiters.\<close>

function tokens :: "u8 set \<Rightarrow> u8 list \<Rightarrow> u8 list list" where
  "tokens D xs = (let r = dropWhile (\<lambda>c. c \<in> D) xs
     in if r = [] then [] else takeWhile (\<lambda>c. c \<notin> D) r # tokens D (dropWhile (\<lambda>c. c \<notin> D) r))"
  by pat_completeness auto
termination
proof (relation "measure (\<lambda>(D, xs). length xs)", simp)
  fix D :: "u8 set" and xs r
  assume r: "r = dropWhile (\<lambda>c. c \<in> D) xs" "r \<noteq> []"
  then have "hd r \<notin> D" using hd_dropWhile[of "\<lambda>c. c \<in> D" xs] by simp
  then have "length (dropWhile (\<lambda>c. c \<notin> D) r) < length r"
    using r(2) by (cases r) (simp_all add: le_imp_less_Suc length_dropWhile_le)
  also have "length r \<le> length xs" by (simp add: r(1) length_dropWhile_le)
  finally show "((D, dropWhile (\<lambda>c. c \<notin> D) r), D, xs) \<in> measure (\<lambda>(D, xs). length xs)" by simp
qed

declare tokens.simps [simp del]

lemma tokens_Cons_delim: "y \<in> D \<Longrightarrow> tokens D (y # xs) = tokens D xs"
  by (subst (1 2) tokens.simps) (simp add: Let_def)

text \<open>A client that calls \<open>strtok_r\<close> until it returns NULL, and the positions it gets.\<close>

fun strtok_calls :: "nat \<Rightarrow> ram \<Rightarrow> nat option \<Rightarrow> nat \<Rightarrow> nat option \<Rightarrow> (nat list \<times> ram) res" where
  "strtok_calls 0 m s delim lasts = Ok ([], m)"
| "strtok_calls (Suc n) m s delim lasts = bnd (strtok_r m s delim lasts) (\<lambda>(tok, lasts, m). case tok of
      None \<Rightarrow> Ok ([], m)
    | Some q \<Rightarrow> bnd (strtok_calls n m None delim lasts) (\<lambda>(qs, m). Ok (q # qs, m)))"

lemma strtok_calls_None: "strtok_calls n m None dp None = Ok ([], m)"
  by (cases n) (simp_all add: strtok_r_def strtok_r_internal_def)

lemma strtok_calls_resume: "strtok_calls n m None dp (Some q) = strtok_calls n m (Some q) dp l"
  by (cases n) (simp_all add: strtok_r_def strtok_r_internal_def)

lemma cstr_take: "cstr m p (t @ y # u) \<Longrightarrow> cstr (put m (p + length t) [0]) p t"
  by (auto simp: cstr_def nth_put nth_append)

lemma strtok_calls_tokens:
  assumes "cstr m p xs" and "cstr m dp ds" and "dp + length ds < p \<or> p + length xs < dp" and "length xs < n"
  shows "\<exists>qs m'. strtok_calls n m (Some p) dp l = Ok (qs, m') \<and> list_all2 (cstr m') qs (tokens (set ds) xs) \<and>
    length m' = length m \<and> (\<forall>i. i < p \<or> p + length xs \<le> i \<longrightarrow> m' ! i = m ! i)"
  using assms
proof (induction xs arbitrary: m p n l rule: length_induct)
  case (1 xs)
  define a r where "a = length (takeWhile (\<lambda>c. c \<in> set ds) xs)" and "r = dropWhile (\<lambda>c. c \<in> set ds) xs"
  define t u where "t = takeWhile (\<lambda>c. c \<notin> set ds) r" and "u = dropWhile (\<lambda>c. c \<notin> set ds) r"
  obtain k where n: "n = Suc k" using "1.prems"(4) by (cases n) auto
  note f = strtok_first[OF "1.prems"(1-3), of l, folded a_def r_def, folded t_def u_def]
  have tok: "tokens (set ds) xs = (if r = [] then [] else t # tokens (set ds) u)"
    by (subst tokens.simps) (simp add: r_def t_def u_def Let_def)
  have xs: "xs = takeWhile (\<lambda>c. c \<in> set ds) xs @ r" "r = t @ u" by (simp_all add: r_def t_def u_def)
  have len: "length xs = a + length r" "length r = length t + length u"
    using arg_cong[OF xs(1), of length] arg_cong[OF xs(2), of length] by (simp_all add: a_def)
  have c: "cstr m (p + a) r" using cstr_drop[OF "1.prems"(1), of a] len(1) xs(1) by (metis a_def append_eq_conv_conj le_add1)
  show ?case
  proof (cases "r = [] \<or> u = []")
    case True
    then show ?thesis
      using f tok c xs(2) by (auto simp: n strtok_r_def strtok_calls_None tokens.simps)
  next
    case False
    then obtain y u' where u: "u = y # u'" by (cases u) auto
    have yD: "y \<in> set ds" using u by (simp add: u_def dropWhile_eq_Cons_conv)
    let ?z = "p + a + length t"
    let ?m = "put m ?z [0]"
    have z: "?z < length m" using c len u by (simp add: cstr_def)
    have c': "cstr ?m (Suc ?z) u'"
      using cstr_drop[OF c, of "Suc (length t)"] z len(2) by (intro cstr_put) (auto simp: xs(2) u)
    have d': "cstr ?m dp ds" using "1.prems"(2,3) z len u by (intro cstr_put) auto
    have ap: "dp + length ds < Suc ?z \<or> Suc ?z + length u' < dp" using "1.prems"(3) len u by auto
    obtain qs m' where IH: "strtok_calls k ?m (Some (Suc ?z)) dp l = Ok (qs, m')"
        "list_all2 (cstr m') qs (tokens (set ds) u')" "length m' = length ?m"
        "\<forall>i. i < Suc ?z \<or> Suc ?z + length u' \<le> i \<longrightarrow> m' ! i = ?m ! i"
      using "1.IH"[rule_format, OF _ c' d' ap, of k l] len u "1.prems"(4) n by auto
    have ct: "cstr ?m (p + a) t" using c by (intro cstr_take[of _ _ _ y u']) (simp add: xs(2) u)
    then have "cstr m' (p + a) t" using IH(3,4) by (auto simp: cstr_def)
    moreover have "m' ! i = m ! i" if "i < p \<or> p + length xs \<le> i" for i
    proof (cases "i < length m")
      case True
      then show ?thesis using that IH(4) z len u by (auto simp: nth_put)
    next
      case False
      then show ?thesis using IH(4) len u that z by (auto simp: put_def nth_append)
    qed
    moreover have "tokens (set ds) xs = t # tokens (set ds) u'"
      using tok False tokens_Cons_delim[OF yD] by (simp add: u)
    ultimately show ?thesis
      using f False IH z by (auto simp: n strtok_r_def strtok_calls_resume[where l = l])
  qed
qed

end
