(* ===== verification/Libc_Misc.thy ===== *)
theory Libc_Misc
  imports Libc_Token
begin

text \<open>
  The remaining small routines of \<open>src/libc/string\<close> on byte strings: \<open>memccpy\<close> with its word
  loop, case conversion in place (\<open>strlwr\<close>, \<open>strupr\<close>), \<open>swab\<close>, \<open>strverscmp\<close>, and the routines
  that only call others (\<open>index\<close>, \<open>rindex\<close>, \<open>explicit_bzero\<close>, \<open>__gnu_basename\<close>).
\<close>

unbundle bit_operations_syntax

subsection \<open>memccpy\<close>

text \<open>The mask of \<open>memccpy\<close> is built byte by byte.\<close>

primrec mask_loop :: "u8 \<Rightarrow> nat \<Rightarrow> u64" where
  "mask_loop endchar 0 = 0"
| "mask_loop endchar (Suc i) = push_bit 8 (mask_loop endchar i) + ucast endchar"

function memccpy_words :: "u64 \<Rightarrow> ram \<Rightarrow> nat \<Rightarrow> nat \<Rightarrow> nat \<Rightarrow> (ram \<times> nat \<times> nat \<times> nat) res" where
  "memccpy_words msk m dst src n =
     (if LBLOCKSIZE \<le> n
      then bnd (rl m src) (\<lambda>buffer.
        if DETECTNULL (buffer XOR msk) \<noteq> 0 then Ok (m, dst, src, n)
        else bnd (copy_word m dst src) (\<lambda>m. memccpy_words msk m (dst + 8) (src + 8) (n - LBLOCKSIZE)))
      else Ok (m, dst, src, n))"
  by pat_completeness auto
termination
  by (relation "measure (\<lambda>(k, m, dst, src, n). n)") (auto simp: block_sizes)

fun memccpy_bytes :: "u8 \<Rightarrow> ram \<Rightarrow> nat \<Rightarrow> nat \<Rightarrow> nat \<Rightarrow> (nat option \<times> ram) res" where
  "memccpy_bytes endchar m dst src 0 = Ok (None, m)"
| "memccpy_bytes endchar m dst src (Suc n) = bnd (rb m src) (\<lambda>c. bnd (wb m dst c) (\<lambda>m.
     if c = endchar then Ok (Some (Suc dst), m) else memccpy_bytes endchar m (Suc dst) (Suc src) n))"

definition memccpy :: "ram \<Rightarrow> nat \<Rightarrow> nat \<Rightarrow> u8 \<Rightarrow> nat \<Rightarrow> (nat option \<times> ram) res" where
  "memccpy m dst src endchar len =
     bnd (if \<not> len < LBLOCKSIZE \<and> \<not> (UNALIGNED src \<or> UNALIGNED dst)
          then memccpy_words (mask_loop endchar 8) m dst src len else Ok (m, dst, src, len))
       (\<lambda>(m, dst, src, len). memccpy_bytes endchar m dst src len)"

subsection \<open>Case conversion, swapping, aliases\<close>

function strlwr_loop :: "ram \<Rightarrow> nat \<Rightarrow> ram res" where
  "strlwr_loop m ucs = bnd (rb m ucs) (\<lambda>c.
     if c \<noteq> 0 then bnd (tolower (uint c)) (\<lambda>d. bnd (wb m ucs (word_of_int d)) (\<lambda>m. strlwr_loop m (Suc ucs)))
     else Ok m)"
  by pat_completeness auto
termination
  by (relation "measure (\<lambda>(m, p). length m - p)") (auto simp: rb_def wb_def split: if_splits)

definition strlwr :: "ram \<Rightarrow> nat \<Rightarrow> (nat \<times> ram) res" where
  "strlwr m s = bnd (strlwr_loop m s) (\<lambda>m. Ok (s, m))"

function strupr_loop :: "ram \<Rightarrow> nat \<Rightarrow> ram res" where
  "strupr_loop m ucs = bnd (rb m ucs) (\<lambda>c.
     if c \<noteq> 0 then bnd (toupper (uint c)) (\<lambda>d. bnd (wb m ucs (word_of_int d)) (\<lambda>m. strupr_loop m (Suc ucs)))
     else Ok m)"
  by pat_completeness auto
termination
  by (relation "measure (\<lambda>(m, p). length m - p)") (auto simp: rb_def wb_def split: if_splits)

definition strupr :: "ram \<Rightarrow> nat \<Rightarrow> (nat \<times> ram) res" where
  "strupr m s = bnd (strupr_loop m s) (\<lambda>m. Ok (s, m))"

text \<open>The length of \<open>swab\<close> is signed; \<open>ptr\<close> starts at 1, so a length below 2 swaps nothing.\<close>

function swab_loop :: "ram \<Rightarrow> nat \<Rightarrow> nat \<Rightarrow> int \<Rightarrow> int \<Rightarrow> (int \<times> ram) res" where
  "swab_loop m b1 b2 ptr len =
     (if ptr < len
      then bnd (rb m (b1 + nat ptr)) (\<lambda>p. bnd (rb m (b1 + nat (ptr - 1))) (\<lambda>q.
           bnd (wb m (b2 + nat (ptr - 1)) p) (\<lambda>m. bnd (wb m (b2 + nat ptr) q) (\<lambda>m.
             swab_loop m b1 b2 (ptr + 2) len))))
      else Ok (ptr, m))"
  by pat_completeness auto
termination
  by (relation "measure (\<lambda>(m, b1, b2, ptr, len). nat (len - ptr))") auto

definition swab :: "ram \<Rightarrow> nat \<Rightarrow> nat \<Rightarrow> int \<Rightarrow> ram res" where
  "swab m b1 b2 len = bnd (swab_loop m b1 b2 1 len) (\<lambda>(ptr, m).
     if ptr = len then wb m (b2 + nat (ptr - 1)) 0 else Ok m)"

definition index :: "ram \<Rightarrow> nat \<Rightarrow> u8 \<Rightarrow> nat option res" where
  "index m s c = strchr m s c"

definition rindex :: "ram \<Rightarrow> nat \<Rightarrow> u8 \<Rightarrow> nat option res" where
  "rindex m s c = strrchr m s c"

definition explicit_bzero :: "ram \<Rightarrow> nat \<Rightarrow> nat \<Rightarrow> ram res" where
  "explicit_bzero m p n = bzero m p n"

definition gnu_basename :: "ram \<Rightarrow> nat \<Rightarrow> nat res" where
  "gnu_basename m path = bnd (strrchr m path (ch (CHR ''/''))) (\<lambda>p.
     Ok (case p of Some p \<Rightarrow> p + 1 | None \<Rightarrow> path))"

subsection \<open>strverscmp\<close>

text \<open>The matching prefix: \<open>None\<close> when the strings are equal, else the first difference, the start
  of the digits in front of it and whether they are all zeros.\<close>

function vers_prefix :: "ram \<Rightarrow> nat \<Rightarrow> nat \<Rightarrow> nat \<Rightarrow> nat \<Rightarrow> bool \<Rightarrow> (nat \<times> nat \<times> bool) option res" where
  "vers_prefix m l r i dp z = bnd (rb m (l + i)) (\<lambda>c. bnd (rb m (r + i)) (\<lambda>d.
     if c = d
     then if c = 0 then Ok None
          else bnd (isdigit (uint c)) (\<lambda>b.
            if \<not> b then vers_prefix m l r (Suc i) (Suc i) True
            else vers_prefix m l r (Suc i) dp (if c \<noteq> ch (CHR ''0'') then False else z))
     else Ok (Some (i, dp, z))))"
  by pat_completeness auto
termination
  by (relation "measure (\<lambda>(m, l, r, i, dp, z). length m - (l + i))") (auto simp: rb_def split: if_splits)

text \<open>\<open>l[dp]-'1'<9U\<close>: an unsigned comparison of an \<open>int\<close> difference.\<close>

definition nonzero_digit :: "u8 \<Rightarrow> bool" where
  "nonzero_digit c \<longleftrightarrow> (ucast c :: u32) - 49 < 9"

function vers_digits :: "ram \<Rightarrow> nat \<Rightarrow> nat \<Rightarrow> nat \<Rightarrow> (int + nat) res" where
  "vers_digits m l r j = bnd (rb m (l + j)) (\<lambda>c. bnd (isdigit (uint c)) (\<lambda>b.
     if b then bnd (rb m (r + j)) (\<lambda>d. bnd (isdigit (uint d)) (\<lambda>b.
       if \<not> b then Ok (Inl 1) else vers_digits m l r (Suc j)))
     else Ok (Inr j)))"
  by pat_completeness auto
termination
  by (relation "measure (\<lambda>(m, l, r, j). length m - (l + j))") (auto simp: rb_def split: if_splits)

definition strverscmp :: "ram \<Rightarrow> nat \<Rightarrow> nat \<Rightarrow> int res" where
  "strverscmp m l r = bnd (vers_prefix m l r 0 0 True) (\<lambda>p. case p of
      None \<Rightarrow> Ok 0
    | Some (i, dp, z) \<Rightarrow>
        bnd (rb m (l + i)) (\<lambda>li. bnd (rb m (r + i)) (\<lambda>ri.
        bnd (rb m (l + dp)) (\<lambda>ld. bnd (rb m (r + dp)) (\<lambda>rd.
        if nonzero_digit ld \<and> nonzero_digit rd
        then bnd (vers_digits m l r i) (\<lambda>d. case d of
               Inl k \<Rightarrow> Ok k
             | Inr j \<Rightarrow> bnd (rb m (r + j)) (\<lambda>c. bnd (isdigit (uint c)) (\<lambda>b.
                 if b then Ok (- 1) else Ok (uint li - uint ri))))
        else bnd (isdigit (uint li)) (\<lambda>dl. bnd (isdigit (uint ri)) (\<lambda>dr.
          if z \<and> dp < i \<and> (dl \<or> dr) then Ok (uint (li - 48) - uint (ri - 48))
          else Ok (uint li - uint ri))))))))"

declare memccpy_words.simps [simp del] strlwr_loop.simps [simp del] strupr_loop.simps [simp del] swab_loop.simps [simp del]
  vers_prefix.simps [simp del] vers_digits.simps [simp del]

subsection \<open>What memccpy does\<close>

lemma mask_loop_word: "mask_loop d n = le_word (replicate n d)"
proof (induction n)
  case (Suc n)
  have "push_bit 8 w + ucast d = (ucast d OR push_bit 8 w :: u64)" for w
  proof -
    have "push_bit 8 w + ucast d = push_bit 8 w OR (ucast d :: u64)"
      by (rule disjunctive_add) (auto simp: bit_simps dest: bit_imp_le_length)
    then show ?thesis by (simp add: or.commute)
  qed
  then show ?case using Suc by simp
qed simp

lemma mask_detects: "DETECTNULL (w XOR mask_loop d 8) \<noteq> 0 \<longleftrightarrow> (\<exists>i < 8. byte w i = d)"
proof -
  have "byte (mask_loop d 8) i = d" if "i < 8" for i using that by (simp add: mask_loop_word byte_le_word)
  then show ?thesis by (auto simp: DETECTNULL_iff byte_xor xor_eq_0_u8)
qed

text \<open>The result: everything up to and including the first \<open>e\<close>, or the whole range.\<close>

definition ccpy :: "u8 \<Rightarrow> ram \<Rightarrow> nat \<Rightarrow> nat \<Rightarrow> nat \<Rightarrow> nat option \<times> ram" where
  "ccpy e m dst src n =
     (let xs = mslice m src n; k = Suc (index_of e xs)
      in if e \<in> set xs then (Some (dst + k), put m dst (take k xs)) else (None, put m dst xs))"

lemma index_of_append: "e \<notin> set xs \<Longrightarrow> index_of e (xs @ ys) = length xs + index_of e ys"
  by (induction xs) auto

lemma ccpy_split:
  assumes "fwd m dst src (a + b)" and "e \<notin> set (mslice m src a)"
  shows "ccpy e m dst src (a + b) = ccpy e (put m dst (mslice m src a)) (dst + a) (src + a) b"
proof -
  let ?m = "put m dst (mslice m src a)" and ?xs = "mslice m src a" and ?ys = "mslice m (src + a) b"
  have ys: "mslice ?m (src + a) b = ?ys" using assms(1) by (intro mslice_put_other) (auto simp: fwd_def)
  have len: "length ?xs = a" "length ?ys = b" "dst + a + b \<le> length m" using assms(1) by (simp_all add: fwd_def)
  have p: "put ?m (dst + a) zs = put m dst (?xs @ zs)" if "length zs \<le> b" for zs
    using put_put[of dst ?xs zs m] len that by simp
  have "put ?m (dst + a) (take k ?ys) = put m dst (?xs @ take k ?ys)" for k using len by (intro p) simp
  moreover have "put ?m (dst + a) ?ys = put m dst (?xs @ ?ys)" using len by (intro p) simp
  ultimately show ?thesis
    using assms(2) len by (simp add: ccpy_def ys mslice_add index_of_append Let_def)
qed

lemma memccpy_bytes_ccpy: "fwd m dst src n \<Longrightarrow> memccpy_bytes e m dst src n = Ok (ccpy e m dst src n)"
proof (induction n arbitrary: m dst src)
  case 0
  then show ?case by (simp add: ccpy_def mslice_def)
next
  case (Suc n)
  have b: "src < length m" "dst < length m" using Suc.prems by (auto simp: fwd_def)
  have s: "mslice m src (Suc n) = m ! src # mslice m (Suc src) n" "mslice m src (Suc 0) = [m ! src]"
    using Suc.prems mslice_Suc[of src 0 m] mslice_Suc[of src n m] by (simp_all add: fwd_def) (simp add: mslice_def)
  have f: "fwd (put m dst [m ! src]) (Suc dst) (Suc src) n" using Suc.prems by (auto simp: fwd_def)
  show ?case
  proof (cases "m ! src = e")
    case True
    then show ?thesis using b by (simp add: rb_def wb_put ccpy_def s)
  next
    case False
    then show ?thesis
      using Suc.IH[OF f] ccpy_split[of m dst src 1 n e] Suc.prems b by (simp add: rb_def wb_put s)
  qed
qed

lemma memccpy_words_ccpy:
  assumes "fwd m dst src n"
  shows "bnd (memccpy_words (mask_loop e 8) m dst src n) (\<lambda>(m, dst, src, n). memccpy_bytes e m dst src n) =
    Ok (ccpy e m dst src n)"
  using assms
proof (induction n arbitrary: m dst src rule: less_induct)
  case (less n)
  have B: "bnd (Ok (m, dst, src, n)) (\<lambda>(m, dst, src, n). memccpy_bytes e m dst src n) = Ok (ccpy e m dst src n)"
    using memccpy_bytes_ccpy[OF less.prems] by simp
  show ?case
  proof (cases "8 \<le> n")
    case False
    then show ?thesis using B by (subst memccpy_words.simps) (simp add: LBLOCKSIZE_def)
  next
    case True
    have b: "src + 8 \<le> length m" using less.prems True by (simp add: fwd_def)
    let ?w = "le_word (take 8 (drop src m))"
    have d: "DETECTNULL (?w XOR mask_loop e 8) \<noteq> 0 \<longleftrightarrow> e \<in> set (mslice m src 8)"
      unfolding mask_detects using b byte_le_word[of _ "take 8 (drop src m)"] by (auto simp: mslice_def in_set_conv_nth)
    show ?thesis
    proof (cases "e \<in> set (mslice m src 8)")
      case T: True
      then show ?thesis using B d b True by (subst memccpy_words.simps) (simp add: rl_def LBLOCKSIZE_def)
    next
      case F: False
      obtain k where n: "n = 8 + k" using True le_Suc_ex by blast
      let ?m = "put m dst (mslice m src 8)"
      have "fwd ?m (dst + 8) (src + 8) k" "fwd m dst src 8"
        using fwd_step[of m dst src 8 k] less.prems n by simp_all
      then have "bnd (memccpy_words (mask_loop e 8) ?m (dst + 8) (src + 8) k) (\<lambda>(m, dst, src, n). memccpy_bytes e m dst src n) =
          Ok (ccpy e ?m (dst + 8) (src + 8) k)" "copy_word m dst src = Ok ?m"
        using less.IH[of k ?m "dst + 8" "src + 8"] copy_word_put[of m dst src] n by auto
      then show ?thesis
        using F d b n ccpy_split[of m dst src 8 k e] less.prems
        by (subst memccpy_words.simps) (simp add: rl_def LBLOCKSIZE_def)
    qed
  qed
qed

lemma memccpy_ccpy: "fwd m dst src n \<Longrightarrow> memccpy m dst src e n = Ok (ccpy e m dst src n)"
  using memccpy_words_ccpy[of m dst src n e] memccpy_bytes_ccpy[of m dst src n e] by (simp add: memccpy_def)

subsection \<open>What the case conversions do\<close>

definition upper :: "u8 \<Rightarrow> u8" where
  "upper c = (if 97 \<le> c \<and> c \<le> 122 then c - 32 else c)"

lemma uint_u8: "- 1 \<le> uint (c :: u8)" "uint c < 256"
  using uint_ge_0[of c] uint_lt2p[of c] by (linarith, simp)

lemma tolower_u8: "bnd (tolower (uint c)) (\<lambda>d. f (word_of_int d)) = f (lower c)"
  using uint_u8[of c] by (simp add: tolower_range lower_def word_le_def)

lemma toupper_u8: "bnd (toupper (uint c)) (\<lambda>d. f (word_of_int d)) = f (upper c)"
  using uint_u8[of c] by (simp add: toupper_range upper_def word_le_def)

lemma strlwr_loop_lower: "cstr m p xs \<Longrightarrow> strlwr_loop m p = Ok (put m p (map lower xs))"
proof (induction xs arbitrary: m p)
  case Nil
  then show ?case by (subst strlwr_loop.simps) (simp add: cstr_Nil rb_def)
next
  case (Cons x xs)
  have b: "p < length m" "m ! p = x" "x \<noteq> 0" "cstr m (Suc p) xs" using Cons.prems by (simp_all add: cstr_Cons)
  let ?m = "put m p [lower x]"
  have "cstr ?m (Suc p) xs" using b by (intro cstr_put) simp_all
  note IH = Cons.IH[OF this]
  have "put ?m (Suc p) (map lower xs) = put m p (map lower (x # xs))"
    using b(4) by (simp add: put_Cons cstr_def)
  then show ?case
    using b IH tolower_u8[of x "\<lambda>d. bnd (wb m p d) (\<lambda>m. strlwr_loop m (Suc p))"]
    by (subst strlwr_loop.simps) (simp add: rb_def wb_put)
qed

lemma strupr_loop_upper: "cstr m p xs \<Longrightarrow> strupr_loop m p = Ok (put m p (map upper xs))"
proof (induction xs arbitrary: m p)
  case Nil
  then show ?case by (subst strupr_loop.simps) (simp add: cstr_Nil rb_def)
next
  case (Cons x xs)
  have b: "p < length m" "m ! p = x" "x \<noteq> 0" "cstr m (Suc p) xs" using Cons.prems by (simp_all add: cstr_Cons)
  let ?m = "put m p [upper x]"
  have "cstr ?m (Suc p) xs" using b by (intro cstr_put) simp_all
  note IH = Cons.IH[OF this]
  have "put ?m (Suc p) (map upper xs) = put m p (map upper (x # xs))"
    using b(4) by (simp add: put_Cons cstr_def)
  then show ?case
    using b IH toupper_u8[of x "\<lambda>d. bnd (wb m p d) (\<lambda>m. strupr_loop m (Suc p))"]
    by (subst strupr_loop.simps) (simp add: rb_def wb_put)
qed

lemma strlwr_lower: "cstr m p xs \<Longrightarrow> strlwr m p = Ok (p, put m p (map lower xs))"
  by (simp add: strlwr_def strlwr_loop_lower)

lemma strupr_upper: "cstr m p xs \<Longrightarrow> strupr m p = Ok (p, put m p (map upper xs))"
  by (simp add: strupr_def strupr_loop_upper)

subsection \<open>What swab does\<close>

fun swapped :: "u8 list \<Rightarrow> u8 list" where
  "swapped (a # b # xs) = b # a # swapped xs"
| "swapped xs = xs"

lemma length_swapped [simp]: "length (swapped xs) = length xs"
  by (induction xs rule: swapped.induct) auto

text \<open>The ranges are disjoint or the same.\<close>

definition swab_ranges :: "ram \<Rightarrow> nat \<Rightarrow> nat \<Rightarrow> nat \<Rightarrow> bool" where
  "swab_ranges m b1 b2 n \<longleftrightarrow> b1 + n \<le> length m \<and> b2 + n \<le> length m \<and> (b1 = b2 \<or> b1 + n \<le> b2 \<or> b2 + n \<le> b1)"

lemma swab_step:
  assumes "swab_ranges m b1 b2 (Suc (Suc n))"
  shows "rb m b1 = Ok (m ! b1)" "rb m (Suc b1) = Ok (m ! Suc b1)" "wb m b2 p = Ok (put m b2 [p])"
    "wb (put m b2 [p]) (Suc b2) q = Ok (put m b2 [p, q])" "swab_ranges (put m b2 [p, q]) (Suc (Suc b1)) (Suc (Suc b2)) n"
    "mslice (put m b2 [p, q]) (Suc (Suc b1)) n = mslice m (Suc (Suc b1)) n"
proof -
  show "rb m b1 = Ok (m ! b1)" "rb m (Suc b1) = Ok (m ! Suc b1)" "wb m b2 p = Ok (put m b2 [p])"
    using assms by (simp_all add: swab_ranges_def rb_def wb_put)
  show "wb (put m b2 [p]) (Suc b2) q = Ok (put m b2 [p, q])"
    using assms put_Cons[of b2 "[q]" m p] by (simp add: swab_ranges_def wb_put)
  show "swab_ranges (put m b2 [p, q]) (Suc (Suc b1)) (Suc (Suc b2)) n" using assms by (auto simp: swab_ranges_def)
  show "mslice (put m b2 [p, q]) (Suc (Suc b1)) n = mslice m (Suc (Suc b1)) n"
    using assms by (intro mslice_put_other) (auto simp: swab_ranges_def)
qed

lemma swab_loop_swaps:
  assumes "swab_ranges m (b1 + k) (b2 + k) (2 * j)" and e: "0 \<le> e" "e \<le> 1"
  shows "swab_loop m b1 b2 (int k + 1) (int k + 2 * int j + e) =
    swab_loop (put m (b2 + k) (swapped (mslice m (b1 + k) (2 * j)))) b1 b2 (int k + 2 * int j + 1) (int k + 2 * int j + e)"
  using assms(1)
proof (induction j arbitrary: m k)
  case 0
  then show ?case by (simp add: mslice_def)
next
  case (Suc j)
  let ?p = "m ! Suc (b1 + k)" and ?q = "m ! (b1 + k)"
  let ?m = "put m (b2 + k) [?p, ?q]"
  have r: "swab_ranges m (b1 + k) (b2 + k) (Suc (Suc (2 * j)))" using Suc.prems by simp
  note st = swab_step[OF r]
  have s: "mslice m (b1 + k) (2 * Suc j) = ?q # ?p # mslice m (Suc (Suc (b1 + k))) (2 * j)"
    using r mslice_Suc[of "b1 + k" "Suc (2 * j)" m] mslice_Suc[of "Suc (b1 + k)" "2 * j" m] by (simp add: swab_ranges_def)
  have n: "nat (int k + 1) = Suc k" "nat (1 + int k) = Suc k" "nat (int k + 1 - 1) = k" by simp_all
  have len: "int k + 2 * int (Suc j) + e = int (Suc (Suc k)) + 2 * int j + e" by simp
  have "swab_loop m b1 b2 (int k + 1) (int k + 2 * int (Suc j) + e) =
      swab_loop ?m b1 b2 (int (Suc (Suc k)) + 1) (int (Suc (Suc k)) + 2 * int j + e)"
    using st(1-4) e by (subst swab_loop.simps) (simp add: n ac_simps)
  also have "\<dots> = swab_loop (put ?m (Suc (Suc (b2 + k))) (swapped (mslice ?m (Suc (Suc (b1 + k))) (2 * j)))) b1 b2
      (int (Suc (Suc k)) + 2 * int j + 1) (int (Suc (Suc k)) + 2 * int j + e)"
    using Suc.IH[of ?m "Suc (Suc k)"] st(5) by simp
  also have "put ?m (Suc (Suc (b2 + k))) (swapped (mslice ?m (Suc (Suc (b1 + k))) (2 * j))) =
      put m (b2 + k) (swapped (mslice m (b1 + k) (2 * Suc j)))"
    using put_put[of "b2 + k" "[?p, ?q]" "swapped (mslice m (Suc (Suc (b1 + k))) (2 * j))" m] r
    by (simp only: st(6) s) (simp add: swab_ranges_def)
  finally show ?case by (simp add: ac_simps)
qed

lemma swab_swaps:
  assumes "swab_ranges m b1 b2 (2 * j)"
  shows "swab m b1 b2 (2 * int j) = Ok (put m b2 (swapped (mslice m b1 (2 * j))))"
  using swab_loop_swaps[of m b1 0 b2 j 0] assms by (simp add: swab_def swab_loop.simps)

subsection \<open>What strverscmp does\<close>

lemma isdigit_u8: "isdigit (uint (c :: u8)) = Ok (48 \<le> uint c \<and> uint c \<le> 57)"
  using uint_u8[of c] by (simp add: ctype_ranges)

lemma isdigit_nul: "48 \<le> uint ((xs @ [0 :: u8]) ! i) \<Longrightarrow> i \<le> length xs \<Longrightarrow> i < length xs"
  by (cases "i = length xs") (simp_all add: nth_append)

lemma vers_prefix_cstr:
  assumes "cstr m l xs" and "cstr m r ys" and "i \<le> length xs" and "i \<le> length ys" and "take i xs = take i ys" and "dp \<le> i"
  shows "(xs = ys \<and> vers_prefix m l r i dp z = Ok None) \<or>
    (\<exists>j dp' z'. vers_prefix m l r i dp z = Ok (Some (j, dp', z')) \<and> j \<le> length xs \<and> j \<le> length ys \<and> dp' \<le> j \<and>
       (xs @ [0]) ! j \<noteq> (ys @ [0]) ! j)"
  using assms(3-6)
proof (induction "length xs - i" arbitrary: i dp z)
  case 0
  then have i: "i = length xs" by simp
  show ?case
  proof (cases "length ys = i")
    case True
    have "xs = ys" by (metis "0.prems"(3) True i order_refl take_all)
    moreover have "rb m (l + i) = Ok 0" "rb m (r + i) = Ok 0"
      using cstr_at[OF assms(1), of i] cstr_at[OF assms(2), of i] i True by (simp_all add: nth_append)
    ultimately show ?thesis by (subst vers_prefix.simps) simp
  next
    case False
    then have y: "i < length ys" using "0.prems"(2) by simp
    then have "ys ! i \<noteq> 0" using assms(2) by (metis cstr_def nth_mem)
    moreover have "rb m (l + i) = Ok 0" "rb m (r + i) = Ok (ys ! i)"
      using cstr_at[OF assms(1), of i] cstr_at[OF assms(2), of i] i y by (simp_all add: nth_append)
    ultimately have "vers_prefix m l r i dp z = Ok (Some (i, dp, z))" by (subst vers_prefix.simps) simp
    then show ?thesis using "0.prems" i y \<open>ys ! i \<noteq> 0\<close> by (simp add: nth_append)
  qed
next
  case (Suc k)
  have i: "i < length xs" using Suc.hyps(2) by simp
  show ?case
  proof (cases "(xs @ [0]) ! i = (ys @ [0]) ! i")
    case False
    then have "vers_prefix m l r i dp z = Ok (Some (i, dp, z))"
      using Suc.prems cstr_at[OF assms(1), of i] cstr_at[OF assms(2), of i] by (subst vers_prefix.simps) simp
    then show ?thesis using Suc.prems False by simp
  next
    case True
    have x0: "xs ! i \<noteq> 0" using i assms(1) by (metis cstr_def nth_mem)
    then have y: "i < length ys" "ys ! i = xs ! i" using True i Suc.prems(2) by (auto simp: nth_append split: if_splits)
    then have t: "take (Suc i) xs = take (Suc i) ys" using Suc.prems(3) i by (simp add: take_Suc_conv_app_nth)
    have step: "\<exists>dp' z'. vers_prefix m l r i dp z = vers_prefix m l r (Suc i) dp' z' \<and> dp' \<le> Suc i"
      using i y x0 Suc.prems(4) cstr_at[OF assms(1), of i] cstr_at[OF assms(2), of i]
      by (subst vers_prefix.simps) (auto simp: nth_append isdigit_u8)
    then obtain dp' z' where s: "vers_prefix m l r i dp z = vers_prefix m l r (Suc i) dp' z'" "dp' \<le> Suc i" by blast
    show ?thesis unfolding s(1) using Suc.hyps i y t s(2) by (intro Suc.hyps(1)) simp_all
  qed
qed

lemma vers_digits_cstr:
  assumes "cstr m l xs" and "cstr m r ys" and "j \<le> length xs" and "j \<le> length ys"
  shows "vers_digits m l r j = Ok (Inl 1) \<or> (\<exists>k \<le> length ys. vers_digits m l r j = Ok (Inr k))"
  using assms(3,4)
proof (induction "length xs - j" arbitrary: j)
  case 0
  then show ?case using cstr_at[OF assms(1), of j] by (subst (1 2) vers_digits.simps) (simp add: isdigit_u8 nth_append)
next
  case (Suc n)
  note at = cstr_at[OF assms(1), of j] cstr_at[OF assms(2), of j]
  show ?case
  proof (cases "48 \<le> uint (xs ! j) \<and> uint (xs ! j) \<le> 57 \<and> 48 \<le> uint ((ys @ [0]) ! j) \<and> uint ((ys @ [0]) ! j) \<le> 57")
    case True
    then have "j < length ys" using isdigit_nul[of ys j] Suc.prems(2) by simp
    then have "vers_digits m l r (Suc j) = Ok (Inl 1) \<or> (\<exists>k \<le> length ys. vers_digits m l r (Suc j) = Ok (Inr k))"
      using Suc.hyps by (intro Suc.hyps(1)) simp_all
    then show ?thesis
      using True at Suc.hyps(2) Suc.prems by (subst (1 2) vers_digits.simps) (simp add: isdigit_u8 nth_append)
  next
    case False
    then show ?thesis
      using at Suc.hyps(2) Suc.prems by (subst (1 2) vers_digits.simps) (auto simp: isdigit_u8 nth_append)
  qed
qed

lemma strverscmp_zero:
  assumes "cstr m l xs" and "cstr m r ys"
  shows "\<exists>k. strverscmp m l r = Ok k \<and> (k = 0 \<longleftrightarrow> xs = ys)"
proof -
  consider "xs = ys" "vers_prefix m l r 0 0 True = Ok None"
    | j dp z where "vers_prefix m l r 0 0 True = Ok (Some (j, dp, z))" "j \<le> length xs" "j \<le> length ys" "dp \<le> j"
        "(xs @ [0]) ! j \<noteq> (ys @ [0]) ! j"
    using vers_prefix_cstr[OF assms, of 0 0 True] by auto
  then show ?thesis
  proof cases
    case 1
    then show ?thesis by (simp add: strverscmp_def)
  next
    case 2
    have ne: "xs \<noteq> ys" using 2(5) by auto
    have d: "uint ((xs @ [0]) ! j) - uint ((ys @ [0]) ! j) \<noteq> 0" "uint ((xs @ [0]) ! j - 48) - uint ((ys @ [0]) ! j - 48) \<noteq> 0"
      using 2(5) by (simp_all flip: word_uint_eq_iff)
    have at: "rb m (l + j) = Ok ((xs @ [0]) ! j)" "rb m (r + j) = Ok ((ys @ [0]) ! j)"
        "rb m (l + dp) = Ok ((xs @ [0]) ! dp)" "rb m (r + dp) = Ok ((ys @ [0]) ! dp)"
      using 2(2-4) cstr_at[OF assms(1)] cstr_at[OF assms(2)] by simp_all
    consider "vers_digits m l r j = Ok (Inl 1)" | k where "k \<le> length ys" "vers_digits m l r j = Ok (Inr k)"
      using vers_digits_cstr[OF assms 2(2,3)] by blast
    then show ?thesis
      by cases (use ne d 2(1) cstr_at[OF assms(2)] in \<open>auto simp: strverscmp_def at isdigit_u8\<close>)
  qed
qed

end
