(* ===== verification/Libc_Wide.thy ===== *)
theory Libc_Wide
  imports Libc_Token
begin

text \<open>
  The wide-character string routines of \<open>src/libc/string\<close>.  The build uses \<open>-fshort-wchar\<close>, so a
  \<open>wchar_t\<close> is an unsigned 16-bit integer; a memory is a finite sequence of them.  These routines
  have one loop each and no word-sized variant.  Loops that have the same shape as those of their
  byte versions are the same polymorphic function.
\<close>

type_synonym wram = "u16 list"

subsection \<open>Searching\<close>

definition wcslen :: "wram \<Rightarrow> nat \<Rightarrow> nat res" where
  "wcslen m s = bnd (scan_bytes (\<lambda>c. c = 0) m s) (\<lambda>p. Ok (p - s))"

text \<open>\<open>while (*p && maxlen-- > 0)\<close> looks at the character before the bound.\<close>

fun wcsnlen_loop :: "wram \<Rightarrow> nat \<Rightarrow> nat \<Rightarrow> nat res" where
  "wcsnlen_loop m p 0 = bnd (rb m p) (\<lambda>c. Ok p)"
| "wcsnlen_loop m p (Suc n) = bnd (rb m p) (\<lambda>c. if c \<noteq> 0 then wcsnlen_loop m (Suc p) n else Ok p)"

definition wcsnlen :: "wram \<Rightarrow> nat \<Rightarrow> nat \<Rightarrow> nat res" where
  "wcsnlen m s maxlen = bnd (wcsnlen_loop m s maxlen) (\<lambda>p. Ok (p - s))"

function wcschr :: "wram \<Rightarrow> nat \<Rightarrow> u16 \<Rightarrow> nat option res" where
  "wcschr m p c = bnd (rb m p) (\<lambda>x. if x = c then Ok (Some p) else if x \<noteq> 0 then wcschr m (Suc p) c else Ok None)"
  by pat_completeness auto
termination
  by (relation "measure (\<lambda>(m, p, c). length m - p)") (auto simp: rb_def split: if_splits)

fun wcsrchr_back :: "wram \<Rightarrow> nat \<Rightarrow> u16 \<Rightarrow> nat \<Rightarrow> nat option res" where
  "wcsrchr_back m s c 0 = bnd (rb m s) (\<lambda>x. Ok (if x = c then Some s else None))"
| "wcsrchr_back m s c (Suc k) = bnd (rb m (s + Suc k)) (\<lambda>x. if x = c then Ok (Some (s + Suc k)) else wcsrchr_back m s c k)"

definition wcsrchr :: "wram \<Rightarrow> nat \<Rightarrow> u16 \<Rightarrow> nat option res" where
  "wcsrchr m s c = bnd (scan_bytes (\<lambda>x. x = 0) m s) (\<lambda>p. wcsrchr_back m s c (p - s))"

definition wcsspn :: "wram \<Rightarrow> nat \<Rightarrow> nat \<Rightarrow> nat res" where
  "wcsspn m s st = bnd (span_loop True m s st) (\<lambda>p. Ok (p - s))"

definition wcscspn :: "wram \<Rightarrow> nat \<Rightarrow> nat \<Rightarrow> nat res" where
  "wcscspn m s st = bnd (span_loop False m s st) (\<lambda>p. Ok (p - s))"

definition wcspbrk :: "wram \<Rightarrow> nat \<Rightarrow> nat \<Rightarrow> nat option res" where
  "wcspbrk m s st = bnd (span_loop False m s st) (\<lambda>p. bnd (rb m p) (\<lambda>c. Ok (if c = 0 then None else Some p)))"

fun wmemchr :: "wram \<Rightarrow> nat \<Rightarrow> u16 \<Rightarrow> nat \<Rightarrow> nat option res" where
  "wmemchr m s c 0 = Ok None"
| "wmemchr m s c (Suc n) = bnd (rb m s) (\<lambda>x. if x = c then Ok (Some s) else wmemchr m (Suc s) c n)"

subsection \<open>Comparing\<close>

text \<open>The difference of two characters is an \<open>int\<close> difference of unsigned 16-bit values.\<close>

function wcscmp :: "wram \<Rightarrow> nat \<Rightarrow> nat \<Rightarrow> int res" where
  "wcscmp m s1 s2 = bnd (rb m s1) (\<lambda>c. bnd (rb m s2) (\<lambda>d.
     if c = d then if c = 0 then Ok 0 else wcscmp m (Suc s1) (Suc s2) else Ok (uint c - uint d)))"
  by pat_completeness auto
termination
  by (relation "measure (\<lambda>(m, s1, s2). length m - s1)") (auto simp: rb_def split: if_splits)

fun wcsncmp :: "wram \<Rightarrow> nat \<Rightarrow> nat \<Rightarrow> nat \<Rightarrow> int res" where
  "wcsncmp m s1 s2 0 = Ok 0"
| "wcsncmp m s1 s2 (Suc n) = bnd (rb m s1) (\<lambda>c. bnd (rb m s2) (\<lambda>d.
     if c \<noteq> d then Ok (uint c - uint d) else if c = 0 then Ok 0 else wcsncmp m (Suc s1) (Suc s2) n))"

fun wmemcmp :: "wram \<Rightarrow> nat \<Rightarrow> nat \<Rightarrow> nat \<Rightarrow> int res" where
  "wmemcmp m s1 s2 0 = Ok 0"
| "wmemcmp m s1 s2 (Suc n) = bnd (rb m s1) (\<lambda>c. bnd (rb m s2) (\<lambda>d.
     if c \<noteq> d then Ok (if d < c then 1 else - 1) else wmemcmp m (Suc s1) (Suc s2) n))"

subsection \<open>Copying\<close>

text \<open>\<open>while (*q) *p++ = *q++;\<close>\<close>

function wcs_copy :: "wram \<Rightarrow> nat \<Rightarrow> nat \<Rightarrow> (wram \<times> nat) res" where
  "wcs_copy m p q = bnd (rb m q) (\<lambda>c.
     if c \<noteq> 0 then bnd (wb m p c) (\<lambda>m. wcs_copy m (Suc p) (Suc q)) else Ok (m, p))"
  by pat_completeness auto
termination
  by (relation "measure (\<lambda>(m, p, q). length m - q)") (auto simp: rb_def wb_def split: if_splits)

definition wcscpy :: "wram \<Rightarrow> nat \<Rightarrow> nat \<Rightarrow> (nat \<times> wram) res" where
  "wcscpy m s1 s2 = bnd (wb m s1 0) (\<lambda>m. bnd (wcs_copy m s1 s2) (\<lambda>(m, p). bnd (wb m p 0) (\<lambda>m. Ok (s1, m))))"

function wcpcpy :: "wram \<Rightarrow> nat \<Rightarrow> nat \<Rightarrow> (nat \<times> wram) res" where
  "wcpcpy m s1 s2 = bnd (rb m s2) (\<lambda>c. bnd (wb m s1 c) (\<lambda>m.
     if c \<noteq> 0 then wcpcpy m (Suc s1) (Suc s2) else Ok (s1, m)))"
  by pat_completeness auto
termination
  by (relation "measure (\<lambda>(m, s1, s2). length m - s2)") (auto simp: rb_def wb_def split: if_splits)

definition wcscat :: "wram \<Rightarrow> nat \<Rightarrow> nat \<Rightarrow> (nat \<times> wram) res" where
  "wcscat m s1 s2 = bnd (scan_bytes (\<lambda>c. c = 0) m s1) (\<lambda>p. bnd (wcs_copy m p s2) (\<lambda>(m, q).
     bnd (wb m q 0) (\<lambda>m. Ok (s1, m))))"

fun wcs_ncopy :: "wram \<Rightarrow> nat \<Rightarrow> nat \<Rightarrow> nat \<Rightarrow> (wram \<times> nat) res" where
  "wcs_ncopy m q r 0 = bnd (rb m r) (\<lambda>c. Ok (m, q))"
| "wcs_ncopy m q r (Suc n) = bnd (rb m r) (\<lambda>c.
     if c \<noteq> 0 then bnd (wb m q c) (\<lambda>m. wcs_ncopy m (Suc q) (Suc r) n) else Ok (m, q))"

definition wcsncat :: "wram \<Rightarrow> nat \<Rightarrow> nat \<Rightarrow> nat \<Rightarrow> (nat \<times> wram) res" where
  "wcsncat m s1 s2 n = bnd (scan_bytes (\<lambda>c. c = 0) m s1) (\<lambda>p. bnd (wcs_ncopy m p s2 n) (\<lambda>(m, q).
     bnd (wb m q 0) (\<lambda>m. Ok (s1, m))))"

fun wmemset_loop :: "wram \<Rightarrow> nat \<Rightarrow> u16 \<Rightarrow> nat \<Rightarrow> wram res" where
  "wmemset_loop m p c 0 = Ok m"
| "wmemset_loop m p c (Suc n) = bnd (wb m p c) (\<lambda>m. wmemset_loop m (Suc p) c n)"

definition wmemset :: "wram \<Rightarrow> nat \<Rightarrow> u16 \<Rightarrow> nat \<Rightarrow> (nat \<times> wram) res" where
  "wmemset m s c n = bnd (wmemset_loop m s c n) (\<lambda>m. Ok (s, m))"

text \<open>The first loop of \<open>wcsncpy\<close> and \<open>wcpncpy\<close>: memory, destination, what is left, and where the
  null was stored.\<close>

fun wcsncpy_loop :: "wram \<Rightarrow> nat \<Rightarrow> nat \<Rightarrow> nat \<Rightarrow> (wram \<times> nat \<times> nat \<times> nat option) res" where
  "wcsncpy_loop m d s 0 = Ok (m, d, 0, None)"
| "wcsncpy_loop m d s (Suc n) = bnd (rb m s) (\<lambda>c. bnd (wb m d c) (\<lambda>m.
     if c = 0 then Ok (m, Suc d, n, Some d) else wcsncpy_loop m (Suc d) (Suc s) n))"

definition wcsncpy :: "wram \<Rightarrow> nat \<Rightarrow> nat \<Rightarrow> nat \<Rightarrow> (nat \<times> wram) res" where
  "wcsncpy m s1 s2 n = bnd (wcsncpy_loop m s1 s2 n) (\<lambda>(m, d, n, _). bnd (wmemset_loop m d 0 n) (\<lambda>m. Ok (s1, m)))"

definition wcpncpy :: "wram \<Rightarrow> nat \<Rightarrow> nat \<Rightarrow> nat \<Rightarrow> (nat \<times> wram) res" where
  "wcpncpy m dst src count = bnd (wcsncpy_loop m dst src count) (\<lambda>(m, d, n, ret).
     bnd (wmemset_loop m d 0 n) (\<lambda>m. Ok (case ret of Some r \<Rightarrow> r | None \<Rightarrow> d + n, m)))"

definition wcslcpy :: "wram \<Rightarrow> nat \<Rightarrow> nat \<Rightarrow> nat \<Rightarrow> (nat \<times> wram) res" where
  "wcslcpy m dst src dsize =
     bnd (if dsize \<noteq> 0 then strlcpy_loop m dst src (dsize - 1) else Ok (m, dst, src, 0)) (\<lambda>(m, d, s, nleft).
       if nleft = 0
       then bnd (if dsize \<noteq> 0 then wb m d 0 else Ok m) (\<lambda>m.
            bnd (scan_bytes (\<lambda>c. c = 0) m s) (\<lambda>e. Ok (Suc e - src - 1, m)))
       else Ok (s - src - 1, m))"

definition wcslcat :: "wram \<Rightarrow> nat \<Rightarrow> nat \<Rightarrow> nat \<Rightarrow> (nat \<times> wram) res" where
  "wcslcat m dst src dsize = bnd (strlcat_end m dst dsize) (\<lambda>d.
     let dlen = d - dst; n = dsize - dlen
     in if n = 0 then bnd (wcslen m src) (\<lambda>l. Ok (dlen + l, m))
        else bnd (strlcat_loop m d src (n - 1)) (\<lambda>(m, d, s).
             bnd (wb m d 0) (\<lambda>m. Ok (dlen + (s - src), m))))"

declare wcschr.simps [simp del] wcscmp.simps [simp del] wcs_copy.simps [simp del] wcpcpy.simps [simp del]

subsection \<open>What the searches do\<close>

lemma wcslen_cstr: "cstr m p xs \<Longrightarrow> wcslen m p = Ok (length xs)"
  by (simp add: wcslen_def scan_bytes_cstr)

lemma wcsnlen_loop_cstr: "cstr m p xs \<Longrightarrow> wcsnlen_loop m p n = Ok (p + min n (length xs))"
proof (induction n arbitrary: p xs)
  case 0
  then show ?case by (simp add: cstr_def rb_def)
next
  case (Suc n)
  then show ?case by (cases xs) (auto simp: cstr_Nil cstr_Cons rb_def)
qed

lemma wcsnlen_cstr: "cstr m p xs \<Longrightarrow> wcsnlen m p n = Ok (min n (length xs))"
  by (simp add: wcsnlen_def wcsnlen_loop_cstr)

text \<open>An array of \<open>n\<close> characters without a null at the end of the memory: \<open>wcsnlen\<close> reads behind it.\<close>

lemma wcsnlen_loop_overread: "p + n = length m \<Longrightarrow> 0 \<notin> set (drop p m) \<Longrightarrow> wcsnlen_loop m p n = Stop Fault"
proof (induction n arbitrary: p)
  case 0
  then show ?case by (simp add: rb_def)
next
  case (Suc n)
  have p: "p < length m" "drop p m = m ! p # drop (Suc p) m" using Suc.prems(1) by (simp_all add: Cons_nth_drop_Suc)
  then show ?case using Suc.IH[of "Suc p"] Suc.prems by (simp add: rb_def)
qed

lemma wcschr_cstr:
  "cstr m p xs \<Longrightarrow> wcschr m p c =
    Ok (if c = 0 then Some (p + length xs) else if c \<in> set xs then Some (p + index_of c xs) else None)"
proof (induction xs arbitrary: p)
  case Nil
  then show ?case by (subst wcschr.simps) (auto simp: cstr_Nil rb_def)
next
  case (Cons x xs)
  then show ?case by (subst wcschr.simps) (auto simp: cstr_Cons rb_def)
qed

lemma wcsrchr_back_at:
  assumes "\<And>i. i \<le> k \<Longrightarrow> rb m (s + i) = Ok (zs ! i)" and "k < length zs"
  shows "wcsrchr_back m s c k = Ok (map_option ((+) s) (last_index c (take (Suc k) zs)))"
  using assms
proof (induction k)
  case 0
  then show ?case by (cases zs) auto
next
  case (Suc k)
  have l: "last_index c (ys @ [y]) = (if y = c then Some (length ys) else last_index c ys)" for ys y
    by (induction ys) (auto split: option.splits)
  have "take (Suc (Suc k)) zs = take (Suc k) zs @ [zs ! Suc k]" using Suc.prems(2) by (rule take_Suc_conv_app_nth)
  then show ?case using Suc.prems Suc.prems(1)[of "Suc k"] Suc.IH l[of "take (Suc k) zs" "zs ! Suc k"] by (simp add: min_def)
qed

lemma wcsrchr_cstr:
  "cstr m p xs \<Longrightarrow> wcsrchr m p c = Ok (map_option ((+) p) (last_index c (xs @ [0])))"
  using wcsrchr_back_at[of "length xs" m p "xs @ [0]" c] cstr_at[of m p xs]
  by (simp add: wcsrchr_def scan_bytes_cstr)

lemma wcsspn_cstr: "cstr m p xs \<Longrightarrow> cstr m q ys \<Longrightarrow> wcsspn m p q = Ok (length (takeWhile (\<lambda>x. x \<in> set ys) xs))"
  by (simp add: wcsspn_def span_loop_cstr)

lemma wcscspn_cstr: "cstr m p xs \<Longrightarrow> cstr m q ys \<Longrightarrow> wcscspn m p q = Ok (length (takeWhile (\<lambda>x. x \<notin> set ys) xs))"
  by (simp add: wcscspn_def span_loop_cstr)

subsection \<open>What the comparisons do\<close>

lemma wcscmp_diff: "cstr m p xs \<Longrightarrow> cstr m q ys \<Longrightarrow> wcscmp m p q = Ok (diff (xs @ [0]) (ys @ [0]))"
proof (induction xs arbitrary: p q ys)
  case Nil
  then show ?case by (cases ys; subst wcscmp.simps) (auto simp: cstr_Nil cstr_Cons rb_def)
next
  case (Cons x xs)
  then show ?case by (cases ys; subst wcscmp.simps) (auto simp: cstr_Nil cstr_Cons rb_def)
qed

lemma wcsncmp_diff:
  "cstr m p xs \<Longrightarrow> cstr m q ys \<Longrightarrow> wcsncmp m p q n = Ok (diff (take n (xs @ [0])) (take n (ys @ [0])))"
proof (induction n arbitrary: p q xs ys)
  case (Suc n)
  then show ?case by (cases xs; cases ys) (auto simp: cstr_Nil cstr_Cons rb_def)
qed simp

lemma wmemcmp_sgn:
  "p + n \<le> length m \<Longrightarrow> q + n \<le> length m \<Longrightarrow> wmemcmp m p q n = Ok (sgn (diff (mslice m p n) (mslice m q n)))"
proof (induction n arbitrary: p q)
  case 0
  then show ?case by (simp add: mslice_def)
next
  case (Suc n)
  then show ?case using uint_eq_u8[of "m ! p" "m ! q"]
    by (auto simp: rb_def mslice_Suc word_less_def sgn_if)
qed

subsection \<open>What the copies do\<close>

lemma put_over: "length as \<le> length bs \<Longrightarrow> p + length bs \<le> length m \<Longrightarrow> put (put m p as) p bs = put m p bs"
  by (rule nth_equalityI) (auto simp: nth_put)

lemma put_end: "p + Suc (length xs) \<le> length m \<Longrightarrow> wb (put m p xs) (p + length xs) x = Ok (put m p (xs @ [x]))"
  using put_put[of p xs "[x]" m] by (simp add: wb_put)

lemma wcs_copy_put:
  "cstr m q xs \<Longrightarrow> apart m p (length xs) q xs \<Longrightarrow> wcs_copy m p q = Ok (put m p xs, p + length xs)"
proof (induction xs arbitrary: m p q)
  case Nil
  then show ?case by (subst wcs_copy.simps) (simp add: cstr_Nil rb_def)
next
  case (Cons x xs)
  have b: "q < length m" "m ! q = x" "x \<noteq> 0" "p < length m" using Cons.prems by (auto simp: cstr_Cons apart_def)
  have c: "cstr (put m p [x]) (Suc q) xs" using Cons.prems by (intro cstr_put) (auto simp: cstr_Cons apart_def)
  have "apart (put m p [x]) (Suc p) (length xs) (Suc q) xs" using Cons.prems(2) by (intro apart_step) simp
  from Cons.IH[OF c this] show ?case
    using b Cons.prems(2) by (subst wcs_copy.simps) (simp add: rb_def wb_put put_Cons apart_def)
qed

lemma wcs_copy_end:
  assumes "cstr m q xs" and "apart m p (Suc (length xs)) q xs"
  shows "bnd (wcs_copy m p q) (\<lambda>(m, p). bnd (wb m p 0) (\<lambda>m. Ok (r, m))) = Ok (r, put m p (xs @ [0]))"
proof -
  have "apart m p (length xs) q xs" using assms(2) by (auto simp: apart_def)
  then show ?thesis using wcs_copy_put[OF assms(1)] put_end[of p xs m 0] assms(2) by (simp add: apart_def)
qed

lemma wcscpy_put:
  assumes "cstr m s2 xs" and "apart m s1 (Suc (length xs)) s2 xs"
  shows "wcscpy m s1 s2 = Ok (s1, put m s1 (xs @ [0]))"
proof -
  let ?m = "put m s1 [0]"
  have b: "s1 < length m" "s1 + Suc (length xs) \<le> length m" using assms(2) by (simp_all add: apart_def)
  have "cstr ?m s2 xs" using assms by (intro apart_put[of m s2 xs s1 "Suc (length xs)"]) simp_all
  moreover have "apart ?m s1 (Suc (length xs)) s2 xs" using assms(2) b by (simp add: apart_def)
  ultimately show ?thesis
    using wcs_copy_end[of ?m s2 xs s1 s1] b by (simp add: wcscpy_def wb_put put_over)
qed

lemma wcpcpy_put:
  "cstr m s2 xs \<Longrightarrow> apart m s1 (Suc (length xs)) s2 xs \<Longrightarrow> wcpcpy m s1 s2 = Ok (s1 + length xs, put m s1 (xs @ [0]))"
proof (induction xs arbitrary: m s1 s2)
  case Nil
  then show ?case by (subst wcpcpy.simps) (simp add: cstr_Nil rb_def wb_put apart_def)
next
  case (Cons x xs)
  have b: "s2 < length m" "m ! s2 = x" "x \<noteq> 0" "s1 < length m" using Cons.prems by (auto simp: cstr_Cons apart_def)
  have c: "cstr (put m s1 [x]) (Suc s2) xs" using Cons.prems by (intro cstr_put) (auto simp: cstr_Cons apart_def)
  have "apart (put m s1 [x]) (Suc s1) (Suc (length xs)) (Suc s2) xs" using Cons.prems(2) by (intro apart_step) simp
  from Cons.IH[OF c this] show ?case
    using b Cons.prems(2) by (subst wcpcpy.simps) (simp add: rb_def wb_put put_Cons apart_def)
qed

lemma wcscat_put:
  assumes "cstr m s1 ys" and "cstr m s2 xs" and "apart m (s1 + length ys) (Suc (length xs)) s2 xs"
  shows "wcscat m s1 s2 = Ok (s1, put m (s1 + length ys) (xs @ [0]))"
  using wcs_copy_end[OF assms(2,3), of s1] scan_bytes_cstr[OF assms(1)] by (simp add: wcscat_def)

lemma wcs_ncopy_put:
  "cstr m r xs \<Longrightarrow> apart m q (min n (length xs)) r xs \<Longrightarrow> wcs_ncopy m q r n = Ok (put m q (take n xs), q + min n (length xs))"
proof (induction n arbitrary: m q r xs)
  case 0
  then show ?case by (simp add: cstr_def rb_def)
next
  case (Suc n)
  show ?case
  proof (cases xs)
    case Nil
    then show ?thesis using Suc.prems by (simp add: cstr_Nil rb_def)
  next
    case (Cons x ys)
    have b: "r < length m" "m ! r = x" "x \<noteq> 0" "q < length m" using Suc.prems by (auto simp: Cons cstr_Cons apart_def)
    have c: "cstr (put m q [x]) (Suc r) ys" using Suc.prems by (intro cstr_put) (auto simp: Cons cstr_Cons apart_def)
    have "apart (put m q [x]) (Suc q) (min n (length ys)) (Suc r) ys" using Suc.prems(2) by (intro apart_step) (simp add: Cons)
    note IH = Suc.IH[OF c this]
    have "put (put m q [x]) (Suc q) (take n ys) = put m q (x # take n ys)"
      using Suc.prems(2) by (intro put_Cons) (auto simp: Cons apart_def)
    then show ?thesis using IH b by (simp add: Cons rb_def wb_put)
  qed
qed

lemma wcsncat_put:
  assumes "cstr m s1 ys" and "cstr m s2 xs" and "apart m (s1 + length ys) (Suc (min n (length xs))) s2 xs"
  shows "wcsncat m s1 s2 n = Ok (s1, put m (s1 + length ys) (take n xs @ [0]))"
proof -
  let ?d = "s1 + length ys"
  have "apart m ?d (min n (length xs)) s2 xs" "?d + Suc (length (take n xs)) \<le> length m"
    using assms(3) by (auto simp: apart_def min.commute)
  then show ?thesis
    using wcs_ncopy_put[OF assms(2)] scan_bytes_cstr[OF assms(1)] put_end[of ?d "take n xs" m 0]
    by (simp add: wcsncat_def min.commute)
qed

lemma wmemset_loop_put: "p + n \<le> length m \<Longrightarrow> wmemset_loop m p c n = Ok (put m p (replicate n c))"
proof (induction n arbitrary: m p)
  case (Suc n)
  then show ?case by (simp add: wb_put put_Cons)
qed simp

lemma wcsncpy_loop_put:
  assumes "cstr m s xs" and "apart m d (min n (Suc (length xs))) s xs"
  shows "wcsncpy_loop m d s n =
    (if length xs < n then Ok (put m d (xs @ [0]), Suc (d + length xs), n - Suc (length xs), Some (d + length xs))
     else Ok (put m d (take n xs), d + n, 0, None))"
  using assms
proof (induction n arbitrary: m d s xs)
  case 0
  then show ?case by simp
next
  case (Suc n)
  show ?case
  proof (cases xs)
    case Nil
    then show ?thesis using Suc.prems by (simp add: cstr_Nil rb_def wb_put apart_def)
  next
    case (Cons x ys)
    have b: "s < length m" "d < length m" "m ! s = x" "x \<noteq> 0" using Suc.prems by (auto simp: Cons cstr_Cons apart_def)
    have c: "cstr (put m d [x]) (Suc s) ys" using Suc.prems by (intro cstr_put) (auto simp: Cons cstr_Cons apart_def)
    have f: "apart (put m d [x]) (Suc d) (min n (Suc (length ys))) (Suc s) ys"
      using Suc.prems(2) by (intro apart_step) (simp add: Cons)
    show ?thesis
      using Suc.IH[OF c f] Suc.prems(2) b by (auto simp: Cons rb_def wb_put put_Cons apart_def)
  qed
qed

lemma wcsncpy_put:
  assumes "cstr m s2 xs" and "apart m s1 (min n (Suc (length xs))) s2 xs" and "s1 + n \<le> length m"
  shows "wcsncpy m s1 s2 n = Ok (s1, put m s1 (take n xs @ replicate (n - length xs) 0))"
proof (cases "length xs < n")
  case True
  have "replicate (n - length xs) (0 :: u16) = 0 # replicate (n - Suc (length xs)) 0"
    using True by (metis Suc_diff_Suc replicate_Suc)
  then have "put (put m s1 (xs @ [0])) (s1 + length (xs @ [0])) (replicate (n - Suc (length xs)) 0) =
      put m s1 (take n xs @ replicate (n - length xs) 0)"
    using put_put[of s1 "xs @ [0]" "replicate (n - Suc (length xs)) 0" m] True assms(3) by simp
  then show ?thesis
    using wcsncpy_loop_put[OF assms(1,2)] True assms(3) by (simp add: wcsncpy_def wmemset_loop_put)
next
  case False
  then show ?thesis using wcsncpy_loop_put[OF assms(1,2)] by (simp add: wcsncpy_def)
qed

lemma wcslcpy_strlcpy: "wcslcpy m dst src n = strlcpy m dst src n"
  by (simp add: wcslcpy_def strlcpy_def)

lemma wcslcpy_copies:
  "cstr m src xs \<Longrightarrow> apart m dst (min dsize (Suc (length xs))) src xs \<Longrightarrow>
   wcslcpy m dst src dsize = Ok (length xs, if dsize = 0 then m else put m dst (take (dsize - 1) xs @ [0]))"
  by (simp add: wcslcpy_strlcpy strlcpy_copies)

lemma wcslcat_appends:
  assumes "cstr m dst ys" and "cstr m src xs"
    and "apart m (dst + length ys) (min (dsize - length ys) (Suc (length xs))) src xs"
  shows "wcslcat m dst src dsize = Ok (min dsize (length ys) + length xs,
    if dsize \<le> length ys then m else put m (dst + length ys) (take (dsize - length ys - 1) xs @ [0]))"
proof (cases "dsize \<le> length ys")
  case True
  then show ?thesis
    using strlcat_end_cstr[OF assms(1), of dsize] wcslen_cstr[OF assms(2)] by (simp add: wcslcat_def min_absorb1)
next
  case False
  then obtain n where n: "dsize = length ys + Suc n" by (metis add_Suc_right less_imp_Suc_add not_le)
  show ?thesis
    using strlcat_copy_end[OF assms(2), of "dst + length ys" n "length ys"] assms(3) strlcat_end_cstr[OF assms(1), of dsize]
    by (simp add: wcslcat_def n Let_def min_absorb2)
qed

end
