(* ===== verification/Libc_Theorems_More.thy ===== *)
theory Libc_Theorems_More
  imports Libc_Theorems Libc_Misc Libc_Wide
begin

text \<open>
  The properties of the tokenizer, of the bounded copies in both character widths, and of the
  bounded length of wide strings.
\<close>

text \<open>
  C30.  Calling \<open>strtok_r\<close> until it returns NULL yields exactly the tokens of the string: its maximal
  parts without delimiters, in order, each null-terminated where it stood in the string.  The calls
  end within one more than the length of the string, and change nothing outside the string.
\<close>

theorem strtok_tokens:
  assumes "cstr m p xs" and "cstr m dp ds" and "dp + length ds < p \<or> p + length xs < dp"
  shows "\<exists>qs m'. strtok_calls (Suc (length xs)) m (Some p) dp lasts = Ok (qs, m') \<and>
    list_all2 (cstr m') qs (tokens (set ds) xs) \<and> concat (tokens (set ds) xs) = filter (\<lambda>c. c \<notin> set ds) xs \<and>
    length m' = length m \<and> (\<forall>i. i < p \<or> p + length xs \<le> i \<longrightarrow> m' ! i = m ! i)"
proof -
  have "concat (tokens D ys) = filter (\<lambda>c. c \<notin> D) ys" for D ys
  proof (induction D ys rule: tokens.induct)
    case (1 D ys)
    define r where "r = dropWhile (\<lambda>c. c \<in> D) ys"
    have "filter (\<lambda>c. c \<notin> D) ys = filter (\<lambda>c. c \<notin> D) r"
      unfolding r_def by (induction ys) auto
    also have "\<dots> = takeWhile (\<lambda>c. c \<notin> D) r @ filter (\<lambda>c. c \<notin> D) (dropWhile (\<lambda>c. c \<notin> D) r)"
      by (induction r) auto
    finally show ?case
      using 1[OF r_def] by (subst tokens.simps) (auto simp: Let_def simp flip: r_def)
  qed
  then show ?thesis using strtok_calls_tokens[OF assms, of "Suc (length xs)" lasts] by auto
qed

text \<open>A memory with the string "ab,,cd" and the delimiter ",".\<close>

definition sample_list :: ram where
  "sample_list = [97, 98, 44, 44, 99, 100, 0, 0, 44, 0, 0, 0, 0, 0, 0, 0]"

lemma sample_list_strings [simp]: "cstr sample_list 0 [97, 98, 44, 44, 99, 100]" "cstr sample_list 8 [44]"
  by (simp_all add: cstr_Cons cstr_Nil sample_list_def)

theorem strtok_tokens_witness:
  "\<exists>p q m'. strtok_calls 7 sample_list (Some 0) 8 None = Ok ([p, q], m') \<and> cstr m' p [97, 98] \<and> cstr m' q [99, 100]"
proof -
  have "tokens (set [44]) [97, 98, 44, 44, 99, 100] = [[97, 98], [99, 100 :: u8]]"
    by (simp add: tokens.simps)
  then show ?thesis
    using strtok_tokens[OF sample_list_strings, of None] by (auto simp: list_all2_Cons2 eval_nat_numeral)
qed

text \<open>
  \<open>strlcpy\<close>, \<open>strlcat\<close> and their wide versions never write behind the size they are given: they
  store as much of the source as fits in front of a null (nothing for size 0 or a destination that
  is already full) and return the length the whole result would have had.
\<close>

theorem bounded_copies:
  assumes "cstr m src xs" and "apart m dst (min n (Suc (length xs))) src xs"
    and "cstr m d ys" and "apart m (d + length ys) (min (n - length ys) (Suc (length xs))) src xs" and "8 dvd length m"
    and "cstr w wsrc us" and "apart w wdst (min n (Suc (length us))) wsrc us"
    and "cstr w wd vs" and "apart w (wd + length vs) (min (n - length vs) (Suc (length us))) wsrc us"
  shows "strlcpy m dst src n = Ok (length xs, if n = 0 then m else put m dst (take (n - 1) xs @ [0])) \<and>
    strlcat m d src n = Ok (min n (length ys) + length xs,
      if n \<le> length ys then m else put m (d + length ys) (take (n - length ys - 1) xs @ [0])) \<and>
    wcslcpy w wdst wsrc n = Ok (length us, if n = 0 then w else put w wdst (take (n - 1) us @ [0])) \<and>
    wcslcat w wd wsrc n = Ok (min n (length vs) + length us,
      if n \<le> length vs then w else put w (wd + length vs) (take (n - length vs - 1) us @ [0]))"
  by (intro conjI strlcpy_copies strlcat_appends wcslcpy_copies wcslcat_appends assms)

definition sample_wide :: wram where
  "sample_wide = [97, 98, 0, 99, 0, 0, 0, 0]"

lemma sample_wide_strings [simp]: "cstr sample_wide 0 [97, 98]" "cstr sample_wide 3 [99]"
  by (simp_all add: cstr_Cons cstr_Nil sample_wide_def)

theorem bounded_copies_witness:
  "strlcpy sample_ram 16 0 4 = Ok (5, put sample_ram 16 [104, 101, 108, 0]) \<and>
   strlcat sample_ram 13 0 4 = Ok (7, put sample_ram 15 [104, 0]) \<and>
   wcslcpy sample_wide 5 0 4 = Ok (2, put sample_wide 5 [97, 98, 0]) \<and>
   wcslcat sample_wide 3 0 4 = Ok (3, put sample_wide 4 [97, 98, 0])"
proof -
  have "length sample_wide = 8" by (simp add: sample_wide_def)
  then show ?thesis
    using bounded_copies[OF sample_hello _ sample_hi _ _ sample_wide_strings(1) _ sample_wide_strings(2), of 16 4 5]
    by (simp add: apart_def)
qed

text \<open>
  \<open>wcsnlen\<close> breaks the promise its byte version keeps: given an array of \<open>n\<close> characters without
  a null and the bound \<open>n\<close>, \<open>strnlen\<close> looks at the array only and returns \<open>n\<close>, while \<open>wcsnlen\<close>
  tests the character before the bound and so reads one behind the array; when there is no such
  character the read leaves the memory, and when there is one the result is right.
\<close>

theorem wcsnlen_overread:
  assumes "p + n = length m" and "0 \<notin> set (drop p m)" and "q + n \<le> length b" and "0 \<notin> set (mslice b q n)"
  shows "wcsnlen m p n = Stop Fault \<and> wcsnlen (m @ [c]) p n = Ok n \<and> strnlen b q n = Ok n"
proof -
  have "wcsnlen_loop (m @ [c]) p n = Ok (p + n)" using assms(1,2)
  proof (induction n arbitrary: p)
    case 0
    then show ?case by (simp add: rb_def)
  next
    case (Suc n)
    have "p < length m" "drop p m = m ! p # drop (Suc p) m" using Suc.prems(1) by (simp_all add: Cons_nth_drop_Suc)
    then show ?case using Suc.IH[of "Suc p"] Suc.prems by (simp add: rb_def nth_append)
  qed
  moreover have "strnlen_loop b q n = Ok (q + n)" using assms(3,4)
  proof (induction n arbitrary: q)
    case (Suc n)
    then show ?case by (auto simp: mslice_Suc rb_def)
  qed simp
  ultimately show ?thesis
    using wcsnlen_loop_overread[OF assms(1,2)] by (simp add: wcsnlen_def strnlen_def)
qed

theorem wcsnlen_overread_witness:
  "wcsnlen [97, 98] 0 2 = Stop Fault \<and> strnlen sample_ram 0 2 = Ok 2"
proof -
  have "0 \<notin> set (mslice sample_ram 0 2)" by (simp add: mslice_def sample_ram_def)
  then show ?thesis using wcsnlen_overread[of 0 2 "[97, 98]" 0 sample_ram] by simp
qed

end
