(* ===== verification/Libc_Sort.thy ===== *)
theory Libc_Sort
  imports Libc_Copy
begin

text \<open>
  \<open>qsort\<close> and its variants, and \<open>bsearch\<close>, of \<open>src/libc/search\<close>, over the bytes of a memory.  The
  comparison function is a parameter: it sees the two objects, as \<open>es\<close> bytes each, and returns an
  \<open>int\<close>.  Pointers are addresses; a pointer below the memory is a \<open>Fault\<close>, and with elements of
  size 0 the loops that would repeat their state are \<open>Diverge\<close>.
\<close>

type_synonym compar = "u8 list \<Rightarrow> u8 list \<Rightarrow> int"

definition CMP :: "compar \<Rightarrow> nat \<Rightarrow> ram \<Rightarrow> nat \<Rightarrow> nat \<Rightarrow> int res" where
  "CMP cmp es m x y = (if x + es \<le> length m \<and> y + es \<le> length m then Ok (cmp (mslice m x es) (mslice m y es)) else Stop Fault)"

subsection \<open>Swapping\<close>

text \<open>\<open>swapcode\<close> at its two types; both loops run at least once.\<close>

function swapcode_long :: "int \<Rightarrow> ram \<Rightarrow> nat \<Rightarrow> nat \<Rightarrow> ram res" where
  "swapcode_long i m pi pj = bnd (rl m pi) (\<lambda>t. bnd (rl m pj) (\<lambda>u. bnd (wl m pi u) (\<lambda>m. bnd (wl m pj t) (\<lambda>m.
     if 0 < i - 1 then swapcode_long (i - 1) m (pi + 8) (pj + 8) else Ok m))))"
  by pat_completeness auto
termination
  by (relation "measure (\<lambda>(i, m, pi, pj). nat i)") auto

function swapcode_char :: "int \<Rightarrow> ram \<Rightarrow> nat \<Rightarrow> nat \<Rightarrow> ram res" where
  "swapcode_char i m pi pj = bnd (rb m pi) (\<lambda>t. bnd (rb m pj) (\<lambda>u. bnd (wb m pi u) (\<lambda>m. bnd (wb m pj t) (\<lambda>m.
     if 0 < i - 1 then swapcode_char (i - 1) m (pi + 1) (pj + 1) else Ok m))))"
  by pat_completeness auto
termination
  by (relation "measure (\<lambda>(i, m, pi, pj). nat i)") auto

declare swapcode_long.simps [simp del] swapcode_char.simps [simp del]

text \<open>\<open>n / sizeof (TYPE)\<close> is computed in \<open>size_t\<close> and kept in a \<open>long\<close>; a size given to the \<open>int\<close>
  parameter of \<open>swapfunc\<close> is cut to 32 bits.\<close>

definition swap_count :: "int \<Rightarrow> nat \<Rightarrow> int" where
  "swap_count n sz = sint ((word_of_int n :: u64) div of_nat sz)"

definition int_arg :: "nat \<Rightarrow> int" where
  "int_arg n = sint (of_nat n :: u32)"

definition swapfunc :: "ram \<Rightarrow> nat \<Rightarrow> nat \<Rightarrow> int \<Rightarrow> nat \<Rightarrow> ram res" where
  "swapfunc m a b n swaptype =
     (if swaptype \<le> 1 then swapcode_long (swap_count n 8) m a b else swapcode_char (swap_count n 1) m a b)"

definition SWAPINIT :: "nat \<Rightarrow> nat \<Rightarrow> nat" where
  "SWAPINIT a es = (if a mod 8 \<noteq> 0 \<or> es mod 8 \<noteq> 0 then 2 else if es = 8 then 0 else 1)"

definition swap :: "nat \<Rightarrow> nat \<Rightarrow> ram \<Rightarrow> nat \<Rightarrow> nat \<Rightarrow> ram res" where
  "swap es swaptype m a b =
     (if swaptype = 0
      then bnd (rl m a) (\<lambda>t. bnd (rl m b) (\<lambda>u. bnd (wl m a u) (\<lambda>m. wl m b t)))
      else swapfunc m a b (int_arg es) swaptype)"

definition vecswap :: "nat \<Rightarrow> ram \<Rightarrow> nat \<Rightarrow> nat \<Rightarrow> nat \<Rightarrow> ram res" where
  "vecswap swaptype m a b n = (if 0 < n then swapfunc m a b (int_arg n) swaptype else Ok m)"

subsection \<open>Insertion sort\<close>

function ins_inner :: "compar \<Rightarrow> nat \<Rightarrow> nat \<Rightarrow> nat \<Rightarrow> nat \<Rightarrow> ram \<Rightarrow> ram res" where
  "ins_inner cmp es swaptype a pl m =
     (if a < pl
      then if pl < es then Stop Fault
           else bnd (CMP cmp es m (pl - es) pl) (\<lambda>c.
             if 0 < c
             then bnd (swap es swaptype m pl (pl - es)) (\<lambda>m.
                    if es = 0 then Stop Diverge else ins_inner cmp es swaptype a (pl - es) m)
             else Ok m)
      else Ok m)"
  by pat_completeness auto
termination
  by (relation "measure (\<lambda>(cmp, es, swaptype, a, pl, m). pl)") auto

function ins_outer :: "compar \<Rightarrow> nat \<Rightarrow> nat \<Rightarrow> nat \<Rightarrow> nat \<Rightarrow> nat \<Rightarrow> ram \<Rightarrow> ram res" where
  "ins_outer cmp es swaptype a lim pm m =
     (if pm < lim
      then bnd (ins_inner cmp es swaptype a pm m) (\<lambda>m.
             if es = 0 then Stop Diverge else ins_outer cmp es swaptype a lim (pm + es) m)
      else Ok m)"
  by pat_completeness auto
termination
  by (relation "measure (\<lambda>(cmp, es, swaptype, a, lim, pm, m). lim - pm)") auto

definition insertion_sort :: "compar \<Rightarrow> nat \<Rightarrow> nat \<Rightarrow> nat \<Rightarrow> nat \<Rightarrow> ram \<Rightarrow> ram res" where
  "insertion_sort cmp es swaptype a n m = ins_outer cmp es swaptype a (a + n * es) (a + es) m"

subsection \<open>The pivot\<close>

definition med3 :: "compar \<Rightarrow> nat \<Rightarrow> ram \<Rightarrow> nat \<Rightarrow> nat \<Rightarrow> nat \<Rightarrow> nat res" where
  "med3 cmp es m a b c =
     bnd (CMP cmp es m a b) (\<lambda>ab. bnd (CMP cmp es m b c) (\<lambda>bc.
       if ab < 0
       then if bc < 0 then Ok b else bnd (CMP cmp es m a c) (\<lambda>ac. Ok (if ac < 0 then c else a))
       else if 0 < bc then Ok b else bnd (CMP cmp es m a c) (\<lambda>ac. Ok (if ac < 0 then a else c))))"

definition select_pivot :: "compar \<Rightarrow> nat \<Rightarrow> nat \<Rightarrow> nat \<Rightarrow> ram \<Rightarrow> nat res" where
  "select_pivot cmp es a n m =
     (let pm = a + (n div 2) * es
      in if 7 < n
         then let pl = a; pn = a + (n - 1) * es
           in if 40 < n
              then let d = (n div 8) * es
                in bnd (med3 cmp es m pl (pl + d) (pl + 2 * d)) (\<lambda>pl.
                   bnd (med3 cmp es m (pm - d) pm (pm + d)) (\<lambda>pm.
                   bnd (med3 cmp es m (pn - 2 * d) (pn - d) pn) (\<lambda>pn.
                   med3 cmp es m pl pm pn)))
              else med3 cmp es m pl pm pn
         else Ok pm)"

subsection \<open>The partition\<close>

function scan_left :: "compar \<Rightarrow> nat \<Rightarrow> nat \<Rightarrow> nat \<Rightarrow> nat \<Rightarrow> nat \<Rightarrow> nat \<Rightarrow> bool \<Rightarrow> ram \<Rightarrow> (nat \<times> nat \<times> bool \<times> ram) res" where
  "scan_left cmp es swaptype a pc pa pb swap_cnt m =
     (if pb \<le> pc
      then bnd (CMP cmp es m pb a) (\<lambda>cmp_result.
        if cmp_result \<le> 0
        then if es = 0 then Stop Diverge
             else if cmp_result = 0
             then bnd (swap es swaptype m pa pb) (\<lambda>m.
                    scan_left cmp es swaptype a pc (pa + es) (pb + es) True m)
             else scan_left cmp es swaptype a pc pa (pb + es) swap_cnt m
        else Ok (pa, pb, swap_cnt, m))
      else Ok (pa, pb, swap_cnt, m))"
  by pat_completeness auto
termination
  by (relation "measure (\<lambda>(cmp, es, swaptype, a, pc, pa, pb, swap_cnt, m). Suc pc - pb)") auto

function scan_right :: "compar \<Rightarrow> nat \<Rightarrow> nat \<Rightarrow> nat \<Rightarrow> nat \<Rightarrow> nat \<Rightarrow> nat \<Rightarrow> bool \<Rightarrow> ram \<Rightarrow> (nat \<times> nat \<times> bool \<times> ram) res" where
  "scan_right cmp es swaptype a pb pc pd swap_cnt m =
     (if pb \<le> pc
      then bnd (CMP cmp es m pc a) (\<lambda>cmp_result.
        if 0 \<le> cmp_result
        then if es = 0 then Stop Diverge
             else if pc < es then Stop Fault
             else if cmp_result = 0
             then bnd (swap es swaptype m pc pd) (\<lambda>m.
                    scan_right cmp es swaptype a pb (pc - es) (pd - es) True m)
             else scan_right cmp es swaptype a pb (pc - es) pd swap_cnt m
        else Ok (pc, pd, swap_cnt, m))
      else Ok (pc, pd, swap_cnt, m))"
  by pat_completeness auto
termination
  by (relation "measure (\<lambda>(cmp, es, swaptype, a, pb, pc, pd, swap_cnt, m). pc)") auto

declare ins_inner.simps [simp del] ins_outer.simps [simp del] scan_left.simps [simp del] scan_right.simps [simp del]

lemma scan_left_mono: "scan_left cmp es swaptype a pc pa pb cnt m = Ok (pa', pb', r) \<Longrightarrow> pb \<le> pb'"
proof (induction cmp es swaptype a pc pa pb cnt m rule: scan_left.induct)
  case (1 cmp es swaptype a pc pa pb cnt m)
  show ?case
    using 1(3) by (subst (asm) scan_left.simps) (auto simp: bnd_eq_Ok split: if_splits dest: 1(1) 1(2))
qed

lemma scan_right_mono: "scan_right cmp es swaptype a pb pc pd cnt m = Ok (pc', r) \<Longrightarrow> pc' \<le> pc"
proof (induction cmp es swaptype a pb pc pd cnt m rule: scan_right.induct)
  case (1 cmp es swaptype a pb pc pd cnt m)
  show ?case
    using 1(3) by (subst (asm) scan_right.simps) (auto simp: bnd_eq_Ok split: if_splits dest: 1(1) 1(2))
qed

function partition_loop :: "compar \<Rightarrow> nat \<Rightarrow> nat \<Rightarrow> nat \<Rightarrow> nat \<times> nat \<times> nat \<times> nat \<times> bool \<times> ram \<Rightarrow>
    (nat \<times> nat \<times> nat \<times> nat \<times> bool \<times> ram) res" where
  "partition_loop cmp es swaptype a (pa, pb, pc, pd, swap_cnt, m) =
     bnd (scan_left cmp es swaptype a pc pa pb swap_cnt m) (\<lambda>(pa, pb, swap_cnt, m).
     bnd (scan_right cmp es swaptype a pb pc pd swap_cnt m) (\<lambda>(pc, pd, swap_cnt, m).
       if pc < pb then Ok (pa, pb, pc, pd, swap_cnt, m)
       else if es = 0 then Stop Diverge
       else bnd (swap es swaptype m pb pc) (\<lambda>m.
              partition_loop cmp es swaptype a (pa, pb + es, pc - es, pd, True, m))))"
  by pat_completeness auto
termination
  by (relation "measure (\<lambda>(cmp, es, swaptype, a, pa, pb, pc, pd, swap_cnt, m). Suc pc - pb)")
    (auto dest!: scan_left_mono scan_right_mono)

declare partition_loop.simps [simp del]

subsection \<open>The loop\<close>

definition PARAMETER_STACK_LEVELS :: nat where "PARAMETER_STACK_LEVELS = 8"

text \<open>From the selection of the pivot to the sizes of the two parts; without a swap the range is
  handed to insertion sort.\<close>

definition divide :: "compar \<Rightarrow> nat \<Rightarrow> nat \<Rightarrow> nat \<Rightarrow> nat \<Rightarrow> ram \<Rightarrow> (bool \<times> (nat \<times> nat) \<times> (nat \<times> nat) \<times> ram) res" where
  "divide cmp es swaptype a n m =
     bnd (select_pivot cmp es a n m) (\<lambda>pm. bnd (swap es swaptype m a pm) (\<lambda>m.
     bnd (partition_loop cmp es swaptype a (a + es, a + es, a + (n - 1) * es, a + (n - 1) * es, False, m))
       (\<lambda>(pa, pb, pc, pd, swap_cnt, m).
         if \<not> swap_cnt then Ok (False, (0, 0), (0, 0), m)
         else let pn = a + n * es; r = min (pa - a) (pb - pa)
           in bnd (vecswap swaptype m a (pb - r) r) (\<lambda>m.
              let r = min (pd - pc) (pn - pd - es)
              in bnd (vecswap swaptype m pb (pn - r) r) (\<lambda>m.
                   Ok (True, (a, pb - pa), (pn - (pd - pc), pd - pc), m))))))"

text \<open>\<open>parameter_stack\<close> is a list of at most \<open>PARAMETER_STACK_LEVELS\<close> ranges, its top first; the first
  argument \<open>k\<close> bounds the number of ranges looked at.\<close>

fun qsort_loop :: "compar \<Rightarrow> nat \<Rightarrow> nat \<Rightarrow> nat \<Rightarrow> (nat \<times> nat) list \<Rightarrow> nat \<Rightarrow> nat \<Rightarrow> ram \<Rightarrow> ram res"
  and qsort_pop :: "compar \<Rightarrow> nat \<Rightarrow> nat \<Rightarrow> nat \<Rightarrow> (nat \<times> nat) list \<Rightarrow> ram \<Rightarrow> ram res" where
  "qsort_loop cmp es swaptype 0 st a n m = Stop NoFuel"
| "qsort_loop cmp es swaptype (Suc k) st a n m =
     (if n < 7 then bnd (insertion_sort cmp es swaptype a n m) (qsort_pop cmp es swaptype k st)
      else bnd (divide cmp es swaptype a n m) (\<lambda>(parted, left, right, m).
        if \<not> parted then bnd (insertion_sort cmp es swaptype a n m) (qsort_pop cmp es swaptype k st)
        else let (small, large) = (if snd left < snd right then (left, right) else (right, left))
          in if es < snd small
             then if length st < PARAMETER_STACK_LEVELS
                  then qsort_loop cmp es swaptype k ((fst large, snd large div es) # st) (fst small) (snd small div es) m
                  else bnd (qsort_loop cmp es (SWAPINIT (fst small) es) k [] (fst small) (snd small div es) m) (\<lambda>m.
                    if es < snd large then qsort_loop cmp es swaptype k st (fst large) (snd large div es) m
                    else qsort_pop cmp es swaptype k st m)
             else if es < snd large then qsort_loop cmp es swaptype k st (fst large) (snd large div es) m
             else qsort_pop cmp es swaptype k st m))"
| "qsort_pop cmp es swaptype k [] m = Ok m"
| "qsort_pop cmp es swaptype 0 (r # st) m = Stop NoFuel"
| "qsort_pop cmp es swaptype (Suc k) (r # st) m = qsort_loop cmp es swaptype k st (fst r) (snd r) m"

definition qsort :: "compar \<Rightarrow> ram \<Rightarrow> nat \<Rightarrow> nat \<Rightarrow> nat \<Rightarrow> ram res" where
  "qsort cmp m a n es = qsort_loop cmp es (SWAPINIT a es) (3 * n + 1) [] a n m"

text \<open>The variants with an argument that is passed on to the comparison, in its two positions.\<close>

definition qsort_r :: "(u8 list \<Rightarrow> u8 list \<Rightarrow> 't \<Rightarrow> int) \<Rightarrow> 't \<Rightarrow> ram \<Rightarrow> nat \<Rightarrow> nat \<Rightarrow> nat \<Rightarrow> ram res" where
  "qsort_r cmp thunk m a n es = qsort (\<lambda>x y. cmp x y thunk) m a n es"

definition bsd_qsort_r :: "('t \<Rightarrow> u8 list \<Rightarrow> u8 list \<Rightarrow> int) \<Rightarrow> 't \<Rightarrow> ram \<Rightarrow> nat \<Rightarrow> nat \<Rightarrow> nat \<Rightarrow> ram res" where
  "bsd_qsort_r cmp thunk m a n es = qsort (cmp thunk) m a n es"

subsection \<open>Binary search\<close>

text \<open>The key is an object of the caller's, given by its bytes; the result is an address or null.\<close>

function bsearch_loop :: "compar \<Rightarrow> u8 list \<Rightarrow> ram \<Rightarrow> nat \<Rightarrow> nat \<Rightarrow> nat \<Rightarrow> nat \<Rightarrow> nat option res" where
  "bsearch_loop compar key m base sz lower upper =
     (if lower < upper
      then let index = (lower + upper) div 2; current = base + index * sz
        in if length m < current + sz then Stop Fault
           else let result = compar key (mslice m current sz)
             in if result < 0 then bsearch_loop compar key m base sz lower index
                else if 0 < result then bsearch_loop compar key m base sz (index + 1) upper
                else Ok (Some current)
      else Ok None)"
  by pat_completeness auto
termination
  by (relation "measure (\<lambda>(compar, key, m, base, sz, lower, upper). upper - lower)") auto

declare bsearch_loop.simps [simp del]

definition bsearch :: "compar \<Rightarrow> u8 list \<Rightarrow> ram \<Rightarrow> nat \<Rightarrow> nat \<Rightarrow> nat \<Rightarrow> nat option res" where
  "bsearch compar key m base nmemb sz =
     (if nmemb = 0 \<or> sz = 0 then Ok None else bsearch_loop compar key m base sz 0 nmemb)"

end
