(* ===== verification/Sort_Array.thy ===== *)
theory Sort_Array
  imports Libc_Sort "HOL-Library.Multiset"
begin

text \<open>
  Sorting on an array of elements, as a list with indices: the algorithm of \<open>qsort\<close> (a three-way
  partition with the pivot's equals collected at both ends, insertion sort for short or already
  partitioned ranges, the smaller part first and the larger one on a stack) without bytes,
  addresses and element sizes.  \<open>Libc_Sort\<close> has the C code, \<open>Sort_Refine\<close> shows that it does to the
  bytes of an array what these functions do to its elements.
\<close>

type_synonym 'a cmp = "'a \<Rightarrow> 'a \<Rightarrow> int"

definition swp :: "nat \<Rightarrow> nat \<Rightarrow> 'a list \<Rightarrow> 'a list" where
  "swp i j xs = xs[i := xs ! j, j := xs ! i]"

fun vswap :: "nat \<Rightarrow> nat \<Rightarrow> nat \<Rightarrow> 'a list \<Rightarrow> 'a list" where
  "vswap i j 0 xs = xs"
| "vswap i j (Suc k) xs = vswap (Suc i) (Suc j) k (swp i j xs)"

subsection \<open>Insertion sort\<close>

fun ins_in :: "'a cmp \<Rightarrow> nat \<Rightarrow> nat \<Rightarrow> 'a list \<Rightarrow> 'a list" where
  "ins_in cmp a 0 xs = xs"
| "ins_in cmp a (Suc p) xs =
     (if a \<le> p \<and> 0 < cmp (xs ! p) (xs ! Suc p) then ins_in cmp a p (swp (Suc p) p xs) else xs)"

function ins_out :: "'a cmp \<Rightarrow> nat \<Rightarrow> nat \<Rightarrow> nat \<Rightarrow> 'a list \<Rightarrow> 'a list" where
  "ins_out cmp a lim pm xs = (if pm < lim then ins_out cmp a lim (Suc pm) (ins_in cmp a pm xs) else xs)"
  by pat_completeness auto
termination
  by (relation "measure (\<lambda>(cmp, a, lim, pm, xs). lim - pm)") auto

definition ins_sort :: "'a cmp \<Rightarrow> nat \<Rightarrow> nat \<Rightarrow> 'a list \<Rightarrow> 'a list" where
  "ins_sort cmp a n xs = ins_out cmp a (a + n) (Suc a) xs"

subsection \<open>Pivot\<close>

definition med :: "'a cmp \<Rightarrow> 'a list \<Rightarrow> nat \<Rightarrow> nat \<Rightarrow> nat \<Rightarrow> nat" where
  "med cmp xs i j k =
     (if cmp (xs ! i) (xs ! j) < 0
      then if cmp (xs ! j) (xs ! k) < 0 then j else if cmp (xs ! i) (xs ! k) < 0 then k else i
      else if 0 < cmp (xs ! j) (xs ! k) then j else if cmp (xs ! i) (xs ! k) < 0 then i else k)"

definition pivot :: "'a cmp \<Rightarrow> nat \<Rightarrow> nat \<Rightarrow> 'a list \<Rightarrow> nat" where
  "pivot cmp a n xs =
     (let pm = a + n div 2
      in if n \<le> 7 then pm
         else let pl = a; pn = a + (n - 1); d = n div 8
           in if 40 < n
              then med cmp xs (med cmp xs pl (pl + d) (pl + 2 * d)) (med cmp xs (pm - d) pm (pm + d))
                     (med cmp xs (pn - 2 * d) (pn - d) pn)
              else med cmp xs pl pm pn)"

subsection \<open>Partition\<close>

function scan_l :: "'a cmp \<Rightarrow> nat \<Rightarrow> nat \<Rightarrow> nat \<Rightarrow> nat \<Rightarrow> bool \<Rightarrow> 'a list \<Rightarrow> nat \<times> nat \<times> bool \<times> 'a list" where
  "scan_l cmp a pc pa pb cnt xs =
     (if pb \<le> pc \<and> cmp (xs ! pb) (xs ! a) \<le> 0
      then if cmp (xs ! pb) (xs ! a) = 0 then scan_l cmp a pc (Suc pa) (Suc pb) True (swp pa pb xs)
           else scan_l cmp a pc pa (Suc pb) cnt xs
      else (pa, pb, cnt, xs))"
  by pat_completeness auto
termination
  by (relation "measure (\<lambda>(cmp, a, pc, pa, pb, cnt, xs). Suc pc - pb)") auto

fun scan_r :: "'a cmp \<Rightarrow> nat \<Rightarrow> nat \<Rightarrow> nat \<Rightarrow> nat \<Rightarrow> bool \<Rightarrow> 'a list \<Rightarrow> nat \<times> nat \<times> bool \<times> 'a list" where
  "scan_r cmp a pb 0 pd cnt xs = (0, pd, cnt, xs)"
| "scan_r cmp a pb (Suc p) pd cnt xs =
     (if pb \<le> Suc p \<and> 0 \<le> cmp (xs ! Suc p) (xs ! a)
      then if cmp (xs ! Suc p) (xs ! a) = 0 then scan_r cmp a pb p (pd - 1) True (swp (Suc p) pd xs)
           else scan_r cmp a pb p pd cnt xs
      else (Suc p, pd, cnt, xs))"

declare ins_out.simps [simp del] scan_l.simps [simp del]

lemma scan_l_mono: "pb \<le> fst (snd (scan_l cmp a pc pa pb cnt xs))"
proof (induction cmp a pc pa pb cnt xs rule: scan_l.induct)
  case (1 cmp a pc pa pb cnt xs)
  then show ?case by (subst scan_l.simps) auto
qed

lemma scan_r_mono: "fst (scan_r cmp a pb pc pd cnt xs) \<le> pc"
  by (induction cmp a pb pc pd cnt xs rule: scan_r.induct) auto

lemma scan_l_monoD: "scan_l cmp a pc pa pb cnt xs = (pa', pb', r) \<Longrightarrow> pb \<le> pb'"
  using scan_l_mono[of pb cmp a pc pa cnt xs] by simp

lemma scan_r_monoD: "scan_r cmp a pb pc pd cnt xs = (pc', r) \<Longrightarrow> pc' \<le> pc"
  using scan_r_mono[of cmp a pb pc pd cnt xs] by simp

function part :: "'a cmp \<Rightarrow> nat \<Rightarrow> nat \<times> nat \<times> nat \<times> nat \<times> bool \<times> 'a list \<Rightarrow> nat \<times> nat \<times> nat \<times> nat \<times> bool \<times> 'a list" where
  "part cmp a (pa, pb, pc, pd, cnt, xs) =
     (case scan_l cmp a pc pa pb cnt xs of (pa, pb, cnt, xs) \<Rightarrow>
      case scan_r cmp a pb pc pd cnt xs of (pc, pd, cnt, xs) \<Rightarrow>
        if pc < pb then (pa, pb, pc, pd, cnt, xs)
        else part cmp a (pa, Suc pb, pc - 1, pd, True, swp pb pc xs))"
  by pat_completeness auto
termination
  by (relation "measure (\<lambda>(cmp, a, pa, pb, pc, pd, cnt, xs). Suc pc - pb)")
    (auto dest!: scan_l_monoD[OF sym] scan_r_monoD[OF sym])

declare part.simps [simp del]

subsection \<open>The loop\<close>

text \<open>The parts that a partition leaves: the ranges of the smaller and of the larger elements.\<close>

definition split_range :: "'a cmp \<Rightarrow> nat \<Rightarrow> nat \<Rightarrow> 'a list \<Rightarrow> bool \<times> (nat \<times> nat) \<times> (nat \<times> nat) \<times> 'a list" where
  "split_range cmp a n xs =
     (let xs = swp a (pivot cmp a n xs) xs
      in case part cmp a (Suc a, Suc a, a + (n - 1), a + (n - 1), False, xs) of (pa, pb, pc, pd, cnt, xs) \<Rightarrow>
           if \<not> cnt then (False, (0, 0), (0, 0), xs)
           else let pn = a + n;
                    r = min (pa - a) (pb - pa); xs = vswap a (pb - r) r xs;
                    r = min (pd - pc) (pn - pd - 1); xs = vswap pb (pn - r) r xs
             in (True, (a, pb - pa), (pn - (pd - pc), pd - pc), xs))"

fun qs :: "'a cmp \<Rightarrow> nat \<Rightarrow> (nat \<times> nat) list \<Rightarrow> nat \<Rightarrow> nat \<Rightarrow> 'a list \<Rightarrow> 'a list option"
  and qs_pop :: "'a cmp \<Rightarrow> nat \<Rightarrow> (nat \<times> nat) list \<Rightarrow> 'a list \<Rightarrow> 'a list option" where
  "qs cmp 0 st a n xs = None"
| "qs cmp (Suc k) st a n xs =
     (if n < 7 then qs_pop cmp k st (ins_sort cmp a n xs)
      else case split_range cmp a n xs of (parted, left, right, xs) \<Rightarrow>
        if \<not> parted then qs_pop cmp k st (ins_sort cmp a n xs)
        else let (small, large) = (if snd left < snd right then (left, right) else (right, left))
          in if 1 < snd small
             then if length st < PARAMETER_STACK_LEVELS then qs cmp k (large # st) (fst small) (snd small) xs
                  else Option.bind (qs cmp k [] (fst small) (snd small) xs) (\<lambda>xs.
                    if 1 < snd large then qs cmp k st (fst large) (snd large) xs else qs_pop cmp k st xs)
             else if 1 < snd large then qs cmp k st (fst large) (snd large) xs
             else qs_pop cmp k st xs)"
| "qs_pop cmp k [] xs = Some xs"
| "qs_pop cmp 0 (r # st) xs = None"
| "qs_pop cmp (Suc k) (r # st) xs = qs cmp k st (fst r) (snd r) xs"

end
