(* ===== verification/Sort_Order.thy ===== *)
theory Sort_Order
  imports Sort_Array
begin

text \<open>
  The algorithm of \<open>Sort_Array\<close> permutes every range it is given, for any comparison function, and
  sorts it when the comparison is a total preorder.
\<close>

definition orders :: "'a cmp \<Rightarrow> bool" where
  "orders cmp \<longleftrightarrow> (\<forall>x y. cmp x y < 0 \<longleftrightarrow> 0 < cmp y x) \<and> (\<forall>x y z. cmp x y \<le> 0 \<longrightarrow> cmp y z \<le> 0 \<longrightarrow> cmp x z \<le> 0)"

lemma orders_trans: "orders cmp \<Longrightarrow> cmp x y \<le> 0 \<Longrightarrow> cmp y z \<le> 0 \<Longrightarrow> cmp x z \<le> 0"
  by (auto simp: orders_def)

lemma orders_flip: "orders cmp \<Longrightarrow> cmp x y < 0 \<longleftrightarrow> 0 < cmp y x"
  by (auto simp: orders_def)

lemma orders_flip_le: "orders cmp \<Longrightarrow> cmp x y \<le> 0 \<longleftrightarrow> 0 \<le> cmp y x"
  using orders_flip[of cmp y x] by linarith

definition sorted_in :: "'a cmp \<Rightarrow> nat \<Rightarrow> nat \<Rightarrow> 'a list \<Rightarrow> bool" where
  "sorted_in cmp lo hi xs \<longleftrightarrow> (\<forall>i j. lo \<le> i \<and> i < j \<and> j < hi \<longrightarrow> cmp (xs ! i) (xs ! j) \<le> 0)"

subsection \<open>Rearrangements of a range\<close>

definition rearr :: "nat \<Rightarrow> nat \<Rightarrow> 'a list \<Rightarrow> 'a list \<Rightarrow> bool" where
  "rearr lo hi xs ys \<longleftrightarrow> length ys = length xs \<and> mset ys = mset xs \<and> (\<forall>i. i < lo \<or> hi \<le> i \<longrightarrow> ys ! i = xs ! i)"

lemma rearr_refl [simp]: "rearr lo hi xs xs"
  by (simp add: rearr_def)

lemma rearr_trans: "rearr lo hi xs ys \<Longrightarrow> rearr lo hi ys zs \<Longrightarrow> rearr lo hi xs zs"
  by (simp add: rearr_def)

lemma rearr_wider: "rearr lo hi xs ys \<Longrightarrow> lo' \<le> lo \<Longrightarrow> hi \<le> hi' \<Longrightarrow> rearr lo' hi' xs ys"
  by (simp add: rearr_def)

lemma rearr_length [dest]: "rearr lo hi xs ys \<Longrightarrow> length ys = length xs"
  by (simp add: rearr_def)

lemma length_swp [simp]: "length (swp i j xs) = length xs"
  by (simp add: swp_def)

lemma nth_swp:
  "i < length xs \<Longrightarrow> j < length xs \<Longrightarrow> swp i j xs ! k = (if k = i then xs ! j else if k = j then xs ! i else xs ! k)"
  by (auto simp: swp_def nth_list_update)

lemma rearr_swp:
  assumes "lo \<le> i" "i < hi" "lo \<le> j" "j < hi" "hi \<le> length xs"
  shows "rearr lo hi xs (swp i j xs)"
proof -
  have "mset (swp i j xs) = mset xs" using assms mset_swap[of j xs i] by (simp add: swp_def)
  then show ?thesis using assms by (auto simp: rearr_def nth_swp)
qed

lemma mset_slices: "mset xs = mset (take a xs) + mset (mslice xs a n) + mset (drop (a + n) xs)"
proof -
  have "xs = take a xs @ take n (drop a xs) @ drop n (drop a xs)" by (simp only: append_take_drop_id)
  then have "mset xs = mset (take a xs) + (mset (take n (drop a xs)) + mset (drop n (drop a xs)))" by (metis mset_append)
  then show ?thesis by (simp add: mslice_def add.assoc add.commute[of a n])
qed

lemma rearr_slice:
  assumes "rearr a (a + n) xs ys" and "a + n \<le> length xs"
  shows "mset (mslice ys a n) = mset (mslice xs a n)"
proof -
  have "take a ys = take a xs" "drop (a + n) ys = drop (a + n) xs"
    using assms by (auto intro!: nth_equalityI simp: rearr_def)
  then show ?thesis
    using assms(1) mset_slices[of xs a n] mset_slices[of ys a n] by (simp add: rearr_def)
qed

lemma in_slice: "a + n \<le> length xs \<Longrightarrow> a \<le> i \<Longrightarrow> i < a + n \<Longrightarrow> xs ! i \<in> set (mslice xs a n)"
  by (auto simp: mslice_def in_set_conv_nth intro: exI[of _ "i - a"])

lemma in_sliceE:
  assumes "x \<in> set (mslice xs a n)" and "a + n \<le> length xs"
  obtains i where "a \<le> i" "i < a + n" "x = xs ! i"
proof -
  obtain k where "k < n" "x = mslice xs a n ! k" using assms by (auto simp: in_set_conv_nth)
  then show ?thesis using assms(2) by (intro that[of "a + k"]) simp_all
qed

subsection \<open>Insertion sort\<close>

lemma ins_in_rearr: "a \<le> p \<Longrightarrow> p < hi \<Longrightarrow> hi \<le> length xs \<Longrightarrow> rearr a hi xs (ins_in cmp a p xs)"
proof (induction p arbitrary: xs)
  case (Suc p)
  show ?case
  proof (cases "a \<le> p \<and> 0 < cmp (xs ! p) (xs ! Suc p)")
    case True
    then have "rearr a hi xs (swp (Suc p) p xs)" using Suc.prems by (intro rearr_swp) simp_all
    then show ?thesis using Suc True by (auto intro: rearr_trans)
  qed (subst ins_in.simps, simp only: if_False rearr_refl)
qed simp

text \<open>The element at \<open>p\<close> is out of place to the left only.\<close>

lemma ins_in_sorted:
  assumes "orders cmp" and "a \<le> p" and "p < q" and "q \<le> length xs"
    and "\<And>i j. a \<le> i \<Longrightarrow> i < j \<Longrightarrow> j < q \<Longrightarrow> i \<noteq> p \<Longrightarrow> j \<noteq> p \<Longrightarrow> cmp (xs ! i) (xs ! j) \<le> 0"
    and "\<And>j. p < j \<Longrightarrow> j < q \<Longrightarrow> cmp (xs ! p) (xs ! j) \<le> 0"
  shows "sorted_in cmp a q (ins_in cmp a p xs)"
  using assms(2-)
proof (induction p arbitrary: xs)
  case 0
  then show ?case by (auto simp: sorted_in_def)
next
  case (Suc p)
  show ?case
  proof (cases "a \<le> p \<and> 0 < cmp (xs ! p) (xs ! Suc p)")
    case True
    let ?ys = "swp (Suc p) p xs"
    have nth: "?ys ! k = (if k = Suc p then xs ! p else if k = p then xs ! Suc p else xs ! k)" for k
      using Suc.prems by (simp add: nth_swp)
    have lt: "cmp (xs ! Suc p) (xs ! p) \<le> 0" using True orders_flip[OF assms(1)] less_imp_le by blast
    have "sorted_in cmp a q (ins_in cmp a p ?ys)"
    proof (rule Suc.IH)
      show "a \<le> p" "p < q" "q \<le> length ?ys" using Suc.prems True by simp_all
      show "cmp (?ys ! i) (?ys ! j) \<le> 0" if "a \<le> i" "i < j" "j < q" "i \<noteq> p" "j \<noteq> p" for i j
        using that Suc.prems True by (auto simp: nth)
      show "cmp (?ys ! p) (?ys ! j) \<le> 0" if "p < j" "j < q" for j
        using that Suc.prems(5)[of j] lt by (auto simp: nth)
    qed
    then show ?thesis using True by simp
  next
    case False
    then have low: "cmp (xs ! p) (xs ! Suc p) \<le> 0" if "a \<le> p" using that by auto
    have "cmp (xs ! i) (xs ! j) \<le> 0" if ij: "a \<le> i" "i < j" "j < q" for i j
    proof -
      consider "i = Suc p" | "j = Suc p" "i = p" | "j = Suc p" "i < p" | "i \<noteq> Suc p" "j \<noteq> Suc p" using ij by linarith
      then show ?thesis
      proof cases
        case 1
        then show ?thesis using Suc.prems(5) ij by blast
      next
        case 2
        then show ?thesis using low ij by simp
      next
        case 3
        then have "cmp (xs ! i) (xs ! p) \<le> 0" "cmp (xs ! p) (xs ! Suc p) \<le> 0"
          using Suc.prems(4)[of i p] low ij by simp_all
        then show ?thesis using 3 by (auto intro: orders_trans[OF assms(1)])
      next
        case 4
        then show ?thesis using Suc.prems(4) ij by blast
      qed
    qed
    then show ?thesis using False by (auto simp: sorted_in_def)
  qed
qed

lemma ins_out_rearr: "a \<le> pm \<Longrightarrow> lim \<le> length xs \<Longrightarrow> rearr a lim xs (ins_out cmp a lim pm xs)"
proof (induction cmp a lim pm xs rule: ins_out.induct)
  case (1 cmp a lim pm xs)
  show ?case
  proof (cases "pm < lim")
    case True
    then have r: "rearr a lim xs (ins_in cmp a pm xs)" using "1.prems" by (intro ins_in_rearr) auto
    have e: "ins_out cmp a lim pm xs = ins_out cmp a lim (Suc pm) (ins_in cmp a pm xs)"
      using True by (subst ins_out.simps) simp
    have "rearr a lim (ins_in cmp a pm xs) (ins_out cmp a lim (Suc pm) (ins_in cmp a pm xs))"
      using 1 True rearr_length[OF r] by (intro "1.IH") simp_all
    then show ?thesis unfolding e using r by (blast intro: rearr_trans)
  qed (subst ins_out.simps, simp)
qed

lemma ins_out_sorted:
  "orders cmp \<Longrightarrow> a < pm \<Longrightarrow> pm \<le> max lim (Suc a) \<Longrightarrow> lim \<le> length xs \<Longrightarrow> sorted_in cmp a pm xs \<Longrightarrow>
   sorted_in cmp a lim (ins_out cmp a lim pm xs)"
proof (induction cmp a lim pm xs rule: ins_out.induct)
  case (1 cmp a lim pm xs)
  show ?case
  proof (cases "pm < lim")
    case True
    then have r: "rearr a lim xs (ins_in cmp a pm xs)" using "1.prems" by (intro ins_in_rearr) auto
    have "sorted_in cmp a (Suc pm) (ins_in cmp a pm xs)"
      using 1 True by (intro ins_in_sorted) (auto simp: sorted_in_def)
    then show ?thesis using 1 True rearr_length[OF r] by (subst ins_out.simps) auto
  next
    case False
    then show ?thesis using 1 by (subst ins_out.simps) (auto simp: sorted_in_def)
  qed
qed

lemma ins_sort_rearr: "a + n \<le> length xs \<Longrightarrow> rearr a (a + n) xs (ins_sort cmp a n xs)"
  unfolding ins_sort_def by (rule ins_out_rearr) simp_all

lemma ins_sort_sorted: "orders cmp \<Longrightarrow> a + n \<le> length xs \<Longrightarrow> sorted_in cmp a (a + n) (ins_sort cmp a n xs)"
  unfolding ins_sort_def by (rule ins_out_sorted) (auto simp: sorted_in_def)

subsection \<open>Partition\<close>

text \<open>The four zones of a partition of \<open>[Suc a, hi]\<close> around the element at \<open>a\<close>.\<close>

definition zones :: "'a cmp \<Rightarrow> nat \<Rightarrow> nat \<Rightarrow> nat \<Rightarrow> nat \<Rightarrow> nat \<Rightarrow> nat \<Rightarrow> 'a list \<Rightarrow> bool" where
  "zones cmp a hi pa pb pc pd xs \<longleftrightarrow> a < pa \<and> pa \<le> pb \<and> pb \<le> Suc pc \<and> pc \<le> pd \<and> pd \<le> hi \<and> hi < length xs \<and>
     (\<forall>i. a < i \<and> i < pa \<longrightarrow> cmp (xs ! i) (xs ! a) = 0) \<and> (\<forall>i. pa \<le> i \<and> i < pb \<longrightarrow> cmp (xs ! i) (xs ! a) < 0) \<and>
     (\<forall>i. pc < i \<and> i \<le> pd \<longrightarrow> 0 < cmp (xs ! i) (xs ! a)) \<and> (\<forall>i. pd < i \<and> i \<le> hi \<longrightarrow> cmp (xs ! i) (xs ! a) = 0)"

lemma scan_l_zones:
  assumes "scan_l cmp a pc pa pb cnt xs = (pa', pb', cnt', xs')" and "zones cmp a hi pa pb pc pd xs"
  shows "zones cmp a hi pa' pb' pc pd xs' \<and> rearr (Suc a) (Suc hi) xs xs' \<and> (pb' \<le> pc \<longrightarrow> 0 < cmp (xs' ! pb') (xs' ! a))"
  using assms
proof (induction cmp a pc pa pb cnt xs rule: scan_l.induct)
  case (1 cmp a pc pa pb cnt xs)
  let ?c = "cmp (xs ! pb) (xs ! a)"
  consider "pb \<le> pc" "?c < 0" | "pb \<le> pc" "?c = 0" | "\<not> (pb \<le> pc \<and> ?c \<le> 0)" by linarith
  then show ?case
  proof cases
    case 1
    then have "zones cmp a hi pa (Suc pb) pc pd xs" using "1.prems"(2) by (auto simp: zones_def less_Suc_eq)
    then show ?thesis using 1 "1.IH"(2) "1.prems"(1) by (subst (asm) scan_l.simps) simp
  next
    case 2
    let ?ys = "swp pa pb xs"
    have b: "a < pa" "pa \<le> pb" "pb < Suc hi" "Suc hi \<le> length xs" using 2 "1.prems"(2) by (auto simp: zones_def)
    then have r: "rearr (Suc a) (Suc hi) xs ?ys" by (intro rearr_swp) simp_all
    have nth: "?ys ! k = (if k = pa then xs ! pb else if k = pb then xs ! pa else xs ! k)" for k
      using b by (intro nth_swp) simp_all
    have "zones cmp a hi (Suc pa) (Suc pb) pc pd ?ys"
      using "1.prems"(2) 2 unfolding zones_def nth by (auto simp: less_Suc_eq)
    then show ?thesis using 2 "1.IH"(1) "1.prems"(1) r by (subst (asm) scan_l.simps) (auto intro: rearr_trans)
  next
    case 3
    then show ?thesis using "1.prems" by (subst (asm) scan_l.simps) auto
  qed
qed

lemma scan_r_zones:
  assumes "scan_r cmp a pb pc pd cnt xs = (pc', pd', cnt', xs')" and "zones cmp a hi pa pb pc pd xs"
  shows "zones cmp a hi pa pb pc' pd' xs' \<and> rearr (Suc a) (Suc hi) xs xs' \<and> (pb \<le> pc' \<longrightarrow> cmp (xs' ! pc') (xs' ! a) < 0) \<and>
    (pb \<le> pc' \<longrightarrow> xs' ! pb = xs ! pb)"
  using assms
proof (induction cmp a pb pc pd cnt xs rule: scan_r.induct)
  case (1 cmp a pb pd cnt xs)
  then show ?case by (auto simp: zones_def)
next
  case (2 cmp a pb p pd cnt xs)
  let ?c = "cmp (xs ! Suc p) (xs ! a)"
  consider "pb \<le> Suc p" "0 < ?c" | "pb \<le> Suc p" "?c = 0" | "\<not> (pb \<le> Suc p \<and> 0 \<le> ?c)" by linarith
  then show ?case
  proof cases
    case 1
    then have "zones cmp a hi pa pb p pd xs" using "2.prems"(2) unfolding zones_def by (auto dest: Suc_lessI)
    then show ?thesis using 1 "2.IH"(2) "2.prems"(1) by simp
  next
    case 2
    let ?ys = "swp (Suc p) pd xs"
    have b: "a < Suc p" "Suc p \<le> pd" "pd < Suc hi" "Suc hi \<le> length xs" using 2 "2.prems"(2) by (auto simp: zones_def)
    then have r: "rearr (Suc a) (Suc hi) xs ?ys" by (intro rearr_swp) simp_all
    have nth: "?ys ! k = (if k = Suc p then xs ! pd else if k = pd then xs ! Suc p else xs ! k)" for k
      using b by (intro nth_swp) simp_all
    have "zones cmp a hi pa pb p (pd - 1) ?ys"
      using "2.prems"(2) 2 b unfolding zones_def nth by (auto simp: less_Suc_eq)
    moreover have "scan_r cmp a pb p (pd - 1) True ?ys = (pc', pd', cnt', xs')" using 2 "2.prems"(1) by simp
    moreover from this have "pc' \<le> p" by (rule scan_r_monoD)
    ultimately show ?thesis using 2 "2.IH"(1) r nth b by (auto intro: rearr_trans)
  next
    case 3
    then show ?thesis using "2.prems" by auto
  qed
qed

text \<open>Both scans have stopped inside: their two elements are exchanged.\<close>

lemma scans_cross:
  assumes l: "scan_l cmp a pc pa pb cnt xs = (pa1, pb1, c1, xs1)" and r: "scan_r cmp a pb1 pc pd c1 xs1 = (pc1, pd1, c2, xs2)"
    and "zones cmp a hi pa pb pc pd xs"
  shows "zones cmp a hi pa1 pb1 pc1 pd1 xs2" and "rearr (Suc a) (Suc hi) xs1 xs2" and "rearr (Suc a) (Suc hi) xs xs1"
    and "pb1 \<le> pc1 \<Longrightarrow> zones cmp a hi pa1 (Suc pb1) (pc1 - 1) pd1 (swp pb1 pc1 xs2)"
    and "pb1 \<le> pc1 \<Longrightarrow> rearr (Suc a) (Suc hi) xs2 (swp pb1 pc1 xs2)"
proof -
  note zl = scan_l_zones[OF l assms(3)]
  then show zr: "zones cmp a hi pa1 pb1 pc1 pd1 xs2" "rearr (Suc a) (Suc hi) xs1 xs2" "rearr (Suc a) (Suc hi) xs xs1"
    using scan_r_zones[OF r] by auto
  have sc: "pb1 \<le> pc1 \<Longrightarrow> cmp (xs2 ! pc1) (xs2 ! a) < 0 \<and> xs2 ! pb1 = xs1 ! pb1" using scan_r_zones[OF r] zl by auto
  assume le1: "pb1 \<le> pc1"
  let ?ys = "swp pb1 pc1 xs2"
  have le: "pb1 \<le> pc1" "pb1 \<le> pc" using le1 scan_r_monoD[OF r] by simp_all
  have z: "a < pa1" "pa1 \<le> pb1" "pc1 \<le> pd1" "pd1 < Suc hi" "Suc hi \<le> length xs2" using zr(1) by (auto simp: zones_def)
  have "xs2 ! a = xs1 ! a" using zr(2) by (simp add: rearr_def)
  then have c: "0 < cmp (xs2 ! pb1) (xs2 ! a)" "cmp (xs2 ! pc1) (xs2 ! a) < 0" using zl sc le by auto
  have lt: "pb1 < pc1" using le c by (cases "pb1 = pc1") simp_all
  have nth: "?ys ! k = (if k = pb1 then xs2 ! pc1 else if k = pc1 then xs2 ! pb1 else xs2 ! k)" for k
    using z lt by (intro nth_swp) simp_all
  show "zones cmp a hi pa1 (Suc pb1) (pc1 - 1) pd1 ?ys"
    using zr(1) z lt c unfolding zones_def nth by (auto simp: less_Suc_eq)
  show "rearr (Suc a) (Suc hi) xs2 ?ys" using z lt by (intro rearr_swp) simp_all
qed

lemma part_zones:
  assumes "part cmp a (pa, pb, pc, pd, cnt, xs) = (pa', pb', pc', pd', cnt', xs')" and "zones cmp a hi pa pb pc pd xs"
  shows "zones cmp a hi pa' pb' pc' pd' xs' \<and> rearr (Suc a) (Suc hi) xs xs' \<and> pb' = Suc pc'"
  using assms
proof (induction cmp a "(pa, pb, pc, pd, cnt, xs)" arbitrary: pa pb pc pd cnt xs rule: part.induct)
  case (1 cmp a pa pb pc pd cnt xs)
  obtain pa1 pb1 c1 xs1 where l: "scan_l cmp a pc pa pb cnt xs = (pa1, pb1, c1, xs1)" by (metis prod_cases4)
  obtain pc1 pd1 c2 xs2 where r: "scan_r cmp a pb1 pc pd c1 xs1 = (pc1, pd1, c2, xs2)" by (metis prod_cases4)
  note x = scans_cross[OF l r "1.prems"(2)]
  have rr: "rearr (Suc a) (Suc hi) xs xs2" using x(2,3) by (blast intro: rearr_trans)
  have unf: "part cmp a (pa, pb, pc, pd, cnt, xs) = (if pc1 < pb1 then (pa1, pb1, pc1, pd1, c2, xs2)
      else part cmp a (pa1, Suc pb1, pc1 - 1, pd1, True, swp pb1 pc1 xs2))"
    by (subst part.simps) (simp add: l r)
  show ?case
  proof (cases "pc1 < pb1")
    case True
    then show ?thesis using unf "1.prems"(1) x(1) rr by (auto simp: zones_def)
  next
    case False
    then have "zones cmp a hi pa' pb' pc' pd' xs' \<and> rearr (Suc a) (Suc hi) (swp pb1 pc1 xs2) xs' \<and> pb' = Suc pc'"
      using "1.hyps"[OF l[symmetric] refl refl r[symmetric] refl refl False] unf "1.prems"(1) x(4) by auto
    then show ?thesis using rr x(5) False by (auto intro: rearr_trans)
  qed
qed

subsection \<open>Moving the pivot's equals to the middle\<close>

lemma length_vswap [simp]: "length (vswap i j k xs) = length xs"
  by (induction i j k xs rule: vswap.induct) simp_all

lemma nth_vswap:
  "i + k \<le> j \<Longrightarrow> j + k \<le> length xs \<Longrightarrow> vswap i j k xs ! t =
    (if i \<le> t \<and> t < i + k then xs ! (j + (t - i)) else if j \<le> t \<and> t < j + k then xs ! (i + (t - j)) else xs ! t)"
proof (induction i j k xs rule: vswap.induct)
  case (2 i j k xs)
  have nth: "swp i j xs ! m = (if m = i then xs ! j else if m = j then xs ! i else xs ! m)" for m
    using "2.prems" by (intro nth_swp) simp_all
  consider "t = i" | "i < t" "t < i + Suc k" | "t = j" | "j < t" "t < j + Suc k" | "\<not> (i \<le> t \<and> t < i + Suc k)" "\<not> (j \<le> t \<and> t < j + Suc k)"
    by linarith
  then show ?case
    by cases (use "2.prems" "2.IH" in \<open>auto simp: nth Suc_diff_Suc simp flip: add_Suc_right\<close>)
qed auto

lemma rearr_vswap:
  "lo \<le> i \<Longrightarrow> i + k \<le> j \<Longrightarrow> j + k \<le> hi \<Longrightarrow> hi \<le> length xs \<Longrightarrow> rearr lo hi xs (vswap i j k xs)"
proof (induction i j k xs rule: vswap.induct)
  case (2 i j k xs)
  have "rearr lo hi xs (swp i j xs)" using "2.prems" by (intro rearr_swp) simp_all
  moreover have "rearr lo hi (swp i j xs) (vswap (Suc i) (Suc j) k (swp i j xs))" using "2.prems" by (intro "2.IH") simp_all
  ultimately show ?case by (auto intro: rearr_trans)
qed simp

definition three :: "'a cmp \<Rightarrow> 'a \<Rightarrow> nat \<Rightarrow> nat \<Rightarrow> nat \<Rightarrow> nat \<Rightarrow> 'a list \<Rightarrow> bool" where
  "three cmp p lo m1 m2 hi xs \<longleftrightarrow> (\<forall>i. lo \<le> i \<and> i < m1 \<longrightarrow> cmp (xs ! i) p < 0) \<and> (\<forall>i. m1 \<le> i \<and> i < m2 \<longrightarrow> xs ! i = p \<or> cmp (xs ! i) p = 0) \<and>
     (\<forall>i. m2 \<le> i \<and> i < hi \<longrightarrow> 0 < cmp (xs ! i) p)"

lemma med_cases: "med cmp xs i j k \<in> {i, j, k}"
  by (simp add: med_def)

lemma pivot_bounds:
  assumes "7 \<le> n"
  shows "a \<le> pivot cmp a n xs \<and> pivot cmp a n xs < a + n"
proof -
  have m: "lo \<le> med cmp xs i j k \<and> med cmp xs i j k < hi"
    if "lo \<le> i" "i < hi" "lo \<le> j" "j < hi" "lo \<le> k" "k < hi" for lo hi i j k
    using med_cases[of cmp xs i j k] that by auto
  define d where "d = n div 8"
  have d: "8 * d \<le> n" "n < 2 * (n div 2) + 2" "2 * (n div 2) \<le> n" "0 < n div 2" "d \<le> n div 2" "n div 2 + d < n"
    using assms by (auto simp: d_def)
  have "a \<le> pivot cmp a n xs \<and> pivot cmp a n xs < a + n" if "40 < n"
  proof -
    let ?in = "\<lambda>i. a \<le> i \<and> i < a + n"
    have in3: "?in (med cmp xs i j k)" if "?in i" "?in j" "?in k" for i j k using m that by blast
    have "?in (med cmp xs a (a + d) (a + 2 * d))" using that d by (intro in3) auto
    moreover have "?in (med cmp xs (a + n div 2 - d) (a + n div 2) (a + n div 2 + d))" using that d by (intro in3) auto
    moreover have "?in (med cmp xs (a + (n - 1) - 2 * d) (a + (n - 1) - d) (a + (n - 1)))" using that d by (intro in3) auto
    ultimately show ?thesis using that unfolding pivot_def Let_def d_def[symmetric] by (simp only: in3 split: if_split) auto
  qed
  moreover have "a \<le> pivot cmp a n xs \<and> pivot cmp a n xs < a + n" if "n \<le> 40"
    using that assms m[of a a "a + n" "a + n div 2" "a + (n - 1)"] by (auto simp: pivot_def Let_def)
  ultimately show ?thesis by linarith
qed

lemma split_range_parts:
  assumes "split_range cmp a n xs = (c, (l, d), (b, r), ys)" and "7 \<le> n" and "a + n \<le> length xs"
  shows "rearr a (a + n) xs ys \<and>
    (c \<longrightarrow> l = a \<and> d + r < n \<and> b + r = a + n \<and> a + d \<le> b \<and> (\<exists>p. three cmp p a (a + d) b (a + n) ys))"
proof -
  let ?xs = "swp a (pivot cmp a n xs) xs" and ?hi = "a + (n - 1)"
  have r0: "rearr a (a + n) xs ?xs" using pivot_bounds[OF assms(2), of a cmp xs] assms(2,3) by (intro rearr_swp) simp_all
  obtain pa pb pc pd cnt ys1 where p: "part cmp a (Suc a, Suc a, ?hi, ?hi, False, ?xs) = (pa, pb, pc, pd, cnt, ys1)"
    by (metis prod_cases6)
  have "zones cmp a ?hi (Suc a) (Suc a) ?hi ?hi ?xs" using assms(2,3) by (simp add: zones_def)
  note z = part_zones[OF p this]
  have z1: "a < pa" "pa \<le> pb" "pb = Suc pc" "pc \<le> pd" "pd < a + n" "a + n \<le> length ys1"
    using z assms(2,3) by (auto simp: zones_def dest: rearr_length)
  have r1: "rearr a (a + n) xs ys1"
    using r0 z rearr_wider[of "Suc a" "Suc ?hi" ?xs ys1 a "a + n"] assms(2) by (auto intro: rearr_trans)
  show ?thesis
  proof (cases cnt)
    case False
    then show ?thesis using assms(1) p r1 by (simp add: split_range_def Let_def)
  next
    case True
    define r1 where "r1 = min (pa - a) (pb - pa)"
    define r2 where "r2 = min (pd - pc) (a + n - pd - 1)"
    define ys2 where "ys2 = vswap a (pb - r1) r1 ys1"
    have e: "c" "l = a" "d = pb - pa" "b = a + n - (pd - pc)" "r = pd - pc" "ys = vswap pb (a + n - r2) r2 ys2"
      using assms(1) p True by (auto simp: split_range_def Let_def ys2_def r1_def r2_def)
    have b1: "a + r1 \<le> pb - r1" "pb - r1 + r1 \<le> a + n" "r1 \<le> pb" using z1 by (auto simp: r1_def)
    have b2: "pb + r2 \<le> a + n - r2" "a + n - r2 + r2 = a + n" using z1 by (auto simp: r2_def)
    have len: "a + n \<le> length ys2" using z1 by (simp add: ys2_def)
    have "rearr a (a + n) ys1 ys2" unfolding ys2_def using b1 z1 by (intro rearr_vswap) simp_all
    moreover have "rearr a (a + n) ys2 ys" unfolding e(6) using b2 z1 len by (intro rearr_vswap) simp_all
    ultimately have "rearr a (a + n) xs ys" using \<open>rearr a (a + n) xs ys1\<close> by (blast intro: rearr_trans)
    let ?p = "ys1 ! a"
    have le: "cmp (ys1 ! i) ?p < 0" if "pa \<le> i" "i < pb" for i using z that by (simp add: zones_def)
    have eq: "ys1 ! i = ?p \<or> cmp (ys1 ! i) ?p = 0" if "a \<le> i \<and> i < pa \<or> pd < i \<and> i < a + n" for i
      using z that by (cases "i = a") (auto simp: zones_def)
    have gt: "0 < cmp (ys1 ! i) ?p" if "pc < i" "i \<le> pd" for i using z that by (simp add: zones_def)
    have n2: "ys2 ! t = (if a \<le> t \<and> t < a + r1 then ys1 ! (pb - r1 + (t - a))
        else if pb - r1 \<le> t \<and> t < pb then ys1 ! (a + (t - (pb - r1))) else ys1 ! t)" for t
      unfolding ys2_def using b1 z1 by (subst nth_vswap) auto
    have n3: "ys ! t = (if pb \<le> t \<and> t < pb + r2 then ys2 ! (a + n - r2 + (t - pb))
        else if a + n - r2 \<le> t \<and> t < a + n then ys2 ! (pb + (t - (a + n - r2))) else ys2 ! t)" for t
      unfolding e(6) using b2 len by (subst nth_vswap) auto
    have A: "cmp (ys2 ! t) ?p < 0" if "a \<le> t" "t < a + d" for t
      using that b1 z1 unfolding n2 e(3) by (auto simp: r1_def min_def intro!: le split: if_splits)
    have B: "ys2 ! t = ?p \<or> cmp (ys2 ! t) ?p = 0" if "a + d \<le> t" "t < pb" for t
    proof (cases "pb - r1 \<le> t")
      case True
      then have "ys2 ! t = ys1 ! (a + (t - (pb - r1)))" using that b1 by (simp add: n2)
      moreover have "r1 \<le> pa - a" by (simp add: r1_def)
      then have "a + (t - (pb - r1)) < pa" using that True b1 z1(1) by linarith
      ultimately show ?thesis using eq[of "a + (t - (pb - r1))"] by simp
    next
      case False
      have "a + r1 \<le> a + d" by (simp add: e(3) r1_def)
      then have "ys2 ! t = ys1 ! t" using that False by (simp add: n2)
      moreover have "t < pa" using that False z1 by (auto simp: r1_def e(3) min_def split: if_splits)
      ultimately show ?thesis using eq[of t] that by simp
    qed
    have y2: "ys2 ! t = ys1 ! t" if "pb \<le> t" for t using that b1 z1 unfolding n2 by auto
    have y3: "ys ! t = ys2 ! t" if "t < pb" for t using that b2 z1 unfolding n3 by auto
    have C: "ys ! t = ?p \<or> cmp (ys ! t) ?p = 0" if "pb \<le> t" "t < b" for t
    proof (cases "t < pb + r2")
      case True
      let ?k = "a + n - r2 + (t - pb)"
      have "r2 \<le> a + n - pd - 1" by (simp add: r2_def)
      then have k: "pd < ?k" "?k < a + n" "pb \<le> ?k" using that True b2 z1(5) by linarith+
      then have "ys ! t = ys1 ! ?k" using that True by (simp add: n3 y2)
      then show ?thesis using eq[of ?k] k by simp
    next
      case False
      have "b \<le> a + n - r2" using z1 by (simp add: e(4) r2_def)
      then have "ys ! t = ys1 ! t" using that False by (simp add: n3 y2)
      moreover have "pd < t" "t < a + n" using that False z1 by (auto simp: r2_def e(4) min_def split: if_splits)
      ultimately show ?thesis using eq[of t] by simp
    qed
    have D: "0 < cmp (ys ! t) ?p" if "b \<le> t" "t < a + n" for t
    proof (cases "a + n - r2 \<le> t")
      case True
      let ?k = "pb + (t - (a + n - r2))"
      have "r2 \<le> pd - pc" by (simp add: r2_def)
      then have k: "pc < ?k" "?k \<le> pd" "pb \<le> ?k" using that True b2 z1(3,4) by linarith+
      moreover have "pb + r2 \<le> t" using True b2 by linarith
      ultimately have "ys ! t = ys1 ! ?k" using that True by (simp add: n3 y2)
      then show ?thesis using gt k by simp
    next
      case False
      then have "r2 = a + n - pd - 1" using that z1 by (auto simp: r2_def e(4) min_def split: if_splits)
      then have "pb + r2 \<le> t" "t \<le> pd" "pc < t" "pb \<le> t" using that False z1 e(4) by linarith+
      then show ?thesis using gt False by (simp add: n3 y2)
    qed
    have "a + d \<le> pb" "pb \<le> b" using z1 e(3,4) by auto
    moreover have "ys ! t = ?p \<or> cmp (ys ! t) ?p = 0" if "a + d \<le> t" "t < b" for t
      using that B[of t] C[of t] y3[of t] by (cases "t < pb") simp_all
    ultimately have "three cmp ?p a (a + d) b (a + n) ys" using A D y3 by (simp add: three_def)
    then show ?thesis using \<open>rearr a (a + n) xs ys\<close> z1 e by auto
  qed
qed

subsection \<open>Sorting ranges\<close>

definition apart :: "nat \<times> nat \<Rightarrow> nat \<times> nat \<Rightarrow> bool" where
  "apart p q \<longleftrightarrow> fst p + snd p \<le> fst q \<or> fst q + snd q \<le> fst p"

fun ranges :: "nat \<Rightarrow> (nat \<times> nat) list \<Rightarrow> bool" where
  "ranges N [] \<longleftrightarrow> True"
| "ranges N (r # R) \<longleftrightarrow> fst r + snd r \<le> N \<and> (\<forall>q \<in> set R. apart r q) \<and> ranges N R"

definition sorts :: "'a cmp \<Rightarrow> (nat \<times> nat) list \<Rightarrow> 'a list \<Rightarrow> 'a list \<Rightarrow> bool" where
  "sorts cmp R xs ys \<longleftrightarrow> length ys = length xs \<and>
     (\<forall>i. (\<forall>r \<in> set R. i < fst r \<or> fst r + snd r \<le> i) \<longrightarrow> ys ! i = xs ! i) \<and>
     (\<forall>r \<in> set R. mset (mslice ys (fst r) (snd r)) = mset (mslice xs (fst r) (snd r)) \<and>
        (orders cmp \<longrightarrow> sorted_in cmp (fst r) (fst r + snd r) ys))"

lemma ranges_bound: "ranges N R \<Longrightarrow> r \<in> set R \<Longrightarrow> fst r + snd r \<le> N"
  by (induction R) auto

lemma ranges_append: "ranges N (R @ S) \<longleftrightarrow> ranges N R \<and> ranges N S \<and> (\<forall>r \<in> set R. \<forall>q \<in> set S. apart r q)"
  by (induction R) auto

lemma sorts_length: "sorts cmp R xs ys \<Longrightarrow> length ys = length xs"
  by (simp add: sorts_def)

lemma sorts_nth: "sorts cmp R xs ys \<Longrightarrow> (\<And>r. r \<in> set R \<Longrightarrow> i < fst r \<or> fst r + snd r \<le> i) \<Longrightarrow> ys ! i = xs ! i"
  by (simp add: sorts_def)

lemma sorts_Nil [simp]: "sorts cmp [] xs xs"
  by (simp add: sorts_def)

lemma slice_cong:
  assumes "length ys = length xs" and "a + n \<le> length xs" and "\<And>i. a \<le> i \<Longrightarrow> i < a + n \<Longrightarrow> ys ! i = xs ! i"
  shows "mslice ys a n = mslice xs a n"
  using assms by (intro nth_equalityI) simp_all

lemma sorts_apart_nth:
  assumes "sorts cmp R xs ys" and "\<forall>q \<in> set R. apart r q" and "fst r \<le> i" and "i < fst r + snd r"
  shows "ys ! i = xs ! i"
proof -
  have "i < fst q \<or> fst q + snd q \<le> i" if "q \<in> set R" for q
    using that assms(2-4) unfolding apart_def by fastforce
  then show ?thesis using assms(1) by (simp add: sorts_def)
qed

lemma apart_sym: "apart p q \<longleftrightarrow> apart q p"
  by (auto simp: apart_def)

lemma sorts_comp:
  assumes "sorts cmp R xs ys" and "sorts cmp S ys zs" and "ranges (length xs) (R @ S)"
  shows "sorts cmp (R @ S) xs zs"
proof -
  have len: "length ys = length xs" "length zs = length xs" using assms(1,2) by (simp_all add: sorts_def)
  have ap: "\<forall>q \<in> set S. apart r q" if "r \<in> set R" for r using that assms(3) by (simp add: ranges_append)
  have ap': "\<forall>q \<in> set R. apart r q" if "r \<in> set S" for r
    using that assms(3) apart_sym by (simp add: ranges_append)
  have b: "fst r + snd r \<le> length xs" if "r \<in> set (R @ S)" for r using ranges_bound[OF assms(3) that] .
  have "mset (mslice zs (fst r) (snd r)) = mset (mslice xs (fst r) (snd r)) \<and>
      (orders cmp \<longrightarrow> sorted_in cmp (fst r) (fst r + snd r) zs)" if r: "r \<in> set (R @ S)" for r
  proof (cases "r \<in> set R")
    case True
    have same: "zs ! i = ys ! i" if "fst r \<le> i" "i < fst r + snd r" for i
      using sorts_apart_nth[OF assms(2) ap[OF True] that] .
    then have "mslice zs (fst r) (snd r) = mslice ys (fst r) (snd r)" using b[OF r] len by (intro slice_cong) simp_all
    then show ?thesis using True assms(1) same by (simp add: sorts_def sorted_in_def)
  next
    case False
    then have S: "r \<in> set S" using r by simp
    have "mslice ys (fst r) (snd r) = mslice xs (fst r) (snd r)"
      using sorts_apart_nth[OF assms(1) ap'[OF S]] b[OF r] len by (intro slice_cong) simp_all
    then show ?thesis using S assms(2) by (simp add: sorts_def)
  qed
  then show ?thesis using assms(1,2) len by (simp add: sorts_def)
qed

lemma sorts_rearr:
  assumes "rearr a (a + n) xs ys" and "a + n \<le> length xs" and "orders cmp \<Longrightarrow> sorted_in cmp a (a + n) ys"
  shows "sorts cmp [(a, n)] xs ys"
  using assms rearr_slice[OF assms(1,2)] by (auto simp: sorts_def rearr_def)

lemma sorts_small: "sorts cmp R xs ys \<Longrightarrow> ranges (length xs) ((a, n) # R) \<Longrightarrow> n \<le> 1 \<Longrightarrow> sorts cmp ((a, n) # R) xs ys"
  using sorts_comp[of cmp "[(a, n)]" xs xs R ys] sorts_rearr[of a n xs xs cmp] by (auto simp: sorted_in_def)

lemma sorts_swap2: "sorts cmp (p # q # R) xs ys \<longleftrightarrow> sorts cmp (q # p # R) xs ys"
  by (auto simp: sorts_def)

lemma three_perm:
  assumes "three cmp p a m1 m2 (a + n) xs" and "sorts cmp ([(a, d), (b, r)] @ R) xs ys"
    and "a + d = m1" and "b = m2" and "m1 \<le> m2" and "b + r = a + n" and "a + n \<le> length xs" and "\<forall>q \<in> set R. apart (a, n) q"
  shows "three cmp p a m1 m2 (a + n) ys"
proof -
  have s: "set (mslice ys a d) = set (mslice xs a d)" "set (mslice ys b r) = set (mslice xs b r)" "length ys = length xs"
    using assms(2) by (auto simp: sorts_def dest: mset_eq_setD)
  have "cmp (ys ! i) p < 0" if "a \<le> i" "i < m1" for i
  proof -
    have "ys ! i \<in> set (mslice xs a d)" using in_slice[of a d ys i] that assms(3-) s by simp
    then show ?thesis using assms(1,3-) by (auto simp: three_def elim!: in_sliceE)
  qed
  moreover have "0 < cmp (ys ! i) p" if "m2 \<le> i" "i < a + n" for i
  proof -
    have "ys ! i \<in> set (mslice xs b r)" using in_slice[of b r ys i] that assms(3-) s by simp
    then show ?thesis using assms(1,3-) by (auto simp: three_def elim!: in_sliceE)
  qed
  moreover have "ys ! i = xs ! i" if "m1 \<le> i" "i < m2" for i
  proof -
    have "i < fst q \<or> fst q + snd q \<le> i" if "q \<in> set R" for q
      using that assms(3-6,8) \<open>m1 \<le> i\<close> \<open>i < m2\<close> unfolding apart_def by fastforce
    then show ?thesis using that assms(2-4) by (simp add: sorts_def)
  qed
  ultimately show ?thesis using assms(1) by (simp add: three_def)
qed

lemma three_sorted:
  assumes "orders cmp" and "three cmp p a m1 m2 hi xs" and "sorted_in cmp a m1 xs" and "sorted_in cmp m2 hi xs" and "m1 \<le> m2"
  shows "sorted_in cmp a hi xs"
proof -
  have pp: "cmp p p = 0" using orders_flip[OF assms(1), of p p] by linarith
  have T: "a \<le> i \<Longrightarrow> i < m1 \<Longrightarrow> cmp (xs ! i) p < 0" "m1 \<le> i \<Longrightarrow> i < m2 \<Longrightarrow> xs ! i = p \<or> cmp (xs ! i) p = 0"
      "m2 \<le> i \<Longrightarrow> i < hi \<Longrightarrow> 0 < cmp (xs ! i) p" for i
    using assms(2) by (simp_all add: three_def)
  have le: "cmp (xs ! i) p \<le> 0" if "a \<le> i" "i < m2" for i
    using that T(1)[of i] T(2)[of i] pp by (cases "i < m1") auto
  have ge: "cmp p (xs ! i) \<le> 0" if "m1 \<le> i" "i < hi" for i
    using that T(2)[of i] T(3)[of i] pp orders_flip_le[OF assms(1), of p "xs ! i"] by (cases "i < m2") auto
  have "cmp (xs ! i) (xs ! j) \<le> 0" if "a \<le> i" "i < j" "j < hi" for i j
  proof -
    consider "j < m1" | "m2 \<le> i" | "m1 \<le> j" "i < m2" using that by linarith
    then show ?thesis
      by cases (use that assms(3,4) le[of i] ge[of j] orders_trans[OF assms(1), of "xs ! i" p "xs ! j"] in \<open>auto simp: sorted_in_def\<close>)
  qed
  then show ?thesis by (simp add: sorted_in_def)
qed

subsection \<open>The whole loop\<close>

text \<open>Sorting the two parts of a partition sorts the range.\<close>

lemma sorts_split:
  assumes "rearr a (a + n) xs xs1" and "three cmp p a (a + d) b (a + n) xs1" and "sorts cmp ([(a, d), (b, r)] @ R) xs1 ys"
    and "a + d \<le> b" and "b + r = a + n" and "ranges (length xs) ((a, n) # R)"
  shows "sorts cmp ((a, n) # R) xs ys"
proof -
  have len: "length xs1 = length xs" "length ys = length xs" "a + n \<le> length xs"
    using rearr_length[OF assms(1)] sorts_length[OF assms(3)] assms(6) by simp_all
  have ap: "\<forall>q \<in> set R. apart (a, n) q" using assms(6) by simp
  have same: "ys ! i = xs ! i" if "i < a \<or> a + n \<le> i" "\<forall>q \<in> set R. i < fst q \<or> fst q + snd q \<le> i" for i
  proof -
    have "ys ! i = xs1 ! i" using that assms(3-5) by (auto simp: sorts_def)
    then show ?thesis using that(1) assms(1) unfolding rearr_def by metis
  qed
  have rest: "mset (mslice ys (fst q) (snd q)) = mset (mslice xs (fst q) (snd q))" if q: "q \<in> set R" for q
  proof -
    have "xs1 ! i = xs ! i" if "fst q \<le> i" "i < fst q + snd q" for i
      using that ap q assms(1) unfolding apart_def rearr_def by fastforce
    then have "mslice xs1 (fst q) (snd q) = mslice xs (fst q) (snd q)"
      using ranges_bound[OF assms(6), of q] q len by (intro slice_cong) simp_all
    then show ?thesis using q assms(3) by (simp add: sorts_def)
  qed
  have th: "three cmp p a (a + d) b (a + n) ys"
    using three_perm[OF assms(2,3) refl refl] assms(4,5) len ap by simp
  have mid: "mslice ys (a + d) (b - (a + d)) = mslice xs1 (a + d) (b - (a + d))"
  proof (rule slice_cong)
    show "ys ! i = xs1 ! i" if "a + d \<le> i" "i < a + d + (b - (a + d))" for i
    proof -
      have "i < fst q \<or> fst q + snd q \<le> i" if "q \<in> set R" for q
        using that ap \<open>a + d \<le> i\<close> \<open>i < a + d + (b - (a + d))\<close> assms(4,5) unfolding apart_def by fastforce
      then show ?thesis using that assms(5) by (intro sorts_nth[OF assms(3)]) auto
    qed
  qed (use len assms(4,5) in simp_all)
  have cut: "mslice zs a n = mslice zs a d @ mslice zs (a + d) (b - (a + d)) @ mslice zs b r" for zs :: "'a list"
  proof -
    have "n = d + ((b - (a + d)) + r)" "b = a + d + (b - (a + d))" using assms(4,5) by simp_all
    then show ?thesis unfolding mslice_def by (metis add.commute drop_drop take_add)
  qed
  have "mset (mslice ys a n) = mset (mslice xs1 a n)"
    using assms(3) mid by (simp add: cut sorts_def)
  also have "\<dots> = mset (mslice xs a n)" using rearr_slice[OF assms(1)] len by simp
  finally have m: "mset (mslice ys a n) = mset (mslice xs a n)" .
  have "sorted_in cmp a (a + n) ys" if "orders cmp"
    using three_sorted[OF that th] that assms(3,4,5) by (simp add: sorts_def)
  then show ?thesis using m rest same len assms(3) by (simp add: sorts_def)
qed

definition budget :: "(nat \<times> nat) list \<Rightarrow> nat" where
  "budget st = (\<Sum>r\<leftarrow>st. 3 * snd r + 2)"

lemma ranges_split:
  "ranges N ((a, n) # st) \<Longrightarrow> a + d \<le> b \<Longrightarrow> b + r = a + n \<Longrightarrow> ranges N ((a, d) # (b, r) # st)"
  by (auto simp: apart_def)

lemma ranges_swap: "ranges N (p # q # R) \<longleftrightarrow> ranges N (q # p # R)"
  using apart_sym[of p q] by auto

definition qs_ok :: "'a cmp \<Rightarrow> nat \<Rightarrow> bool" where
  "qs_ok cmp k \<longleftrightarrow> (\<forall>a n st xs. ranges (length xs) ((a, n) # st) \<longrightarrow> 3 * n + 1 + budget st \<le> k \<longrightarrow>
     (\<exists>ys. qs cmp k st a n xs = Some ys \<and> sorts cmp ((a, n) # st) xs ys)) \<and>
     (\<forall>st xs. ranges (length xs) st \<longrightarrow> budget st \<le> k \<longrightarrow> (\<exists>ys. qs_pop cmp k st xs = Some ys \<and> sorts cmp st xs ys))"

lemma qs_okD:
  assumes "qs_ok cmp k"
  shows "ranges (length xs) (r # st) \<Longrightarrow> 3 * snd r + 1 + budget st \<le> k \<Longrightarrow>
      \<exists>ys. qs cmp k st (fst r) (snd r) xs = Some ys \<and> sorts cmp (r # st) xs ys"
    and "ranges (length xs) st \<Longrightarrow> budget st \<le> k \<Longrightarrow> \<exists>ys. qs_pop cmp k st xs = Some ys \<and> sorts cmp st xs ys"
  using assms unfolding qs_ok_def by (cases r, auto)

text \<open>What is left to do behind a partition.\<close>

lemma qs_parts:
  assumes "qs_ok cmp k" and rs: "ranges (length xs) (small # large # st)" and b: "3 * (snd small + snd large) + 3 + budget st \<le> k"
  shows "\<exists>ys. (if 1 < snd small
       then if length st < PARAMETER_STACK_LEVELS then qs cmp k (large # st) (fst small) (snd small) xs
            else Option.bind (qs cmp k [] (fst small) (snd small) xs) (\<lambda>xs.
              if 1 < snd large then qs cmp k st (fst large) (snd large) xs else qs_pop cmp k st xs)
       else if 1 < snd large then qs cmp k st (fst large) (snd large) xs
       else qs_pop cmp k st xs) = Some ys \<and> sorts cmp (small # large # st) xs ys"
proof -
  note run = qs_okD(1)[OF assms(1)] and pop = qs_okD(2)[OF assms(1)]
  have large: "\<exists>ys. (if 1 < snd large then qs cmp k st (fst large) (snd large) zs else qs_pop cmp k st zs) = Some ys \<and>
      sorts cmp (large # st) zs ys" if "length zs = length xs" for zs
    using run[of zs large st] pop[of zs st] sorts_small[of cmp st zs _ "fst large" "snd large"] rs b that
    by (cases "1 < snd large") auto
  show ?thesis
  proof (cases "1 < snd small")
    case False
    then show ?thesis using large[of xs] sorts_small[of cmp "large # st" xs _ "fst small" "snd small"] rs by auto
  next
    case True
    show ?thesis
    proof (cases "length st < PARAMETER_STACK_LEVELS")
      case True
      have "3 * snd small + 1 + budget (large # st) \<le> k" using b by (simp add: budget_def)
      then show ?thesis using run[OF rs] True \<open>1 < snd small\<close> by simp
    next
      case False
      obtain zs where zs: "qs cmp k [] (fst small) (snd small) xs = Some zs" "sorts cmp [small] xs zs"
        using run[of xs small "[]"] rs b by (auto simp: budget_def)
      then show ?thesis
        using large[of zs] sorts_length[OF zs(2)] sorts_comp[OF zs(2), of "large # st"] rs False True by auto
    qed
  qed
qed

lemma qs_ok: "qs_ok cmp k"
proof (induction k)
  case 0
  have "\<exists>ys. qs_pop cmp 0 st xs = Some ys \<and> sorts cmp st xs ys" if "budget st \<le> 0" for st xs
    using that by (cases st) (simp_all add: budget_def)
  then show ?case by (simp add: qs_ok_def)
next
  case (Suc k)
  have pop: "\<exists>ys. qs_pop cmp k st ys0 = Some ys \<and> sorts cmp ((a, n) # st) xs ys"
    if "sorts cmp [(a, n)] xs ys0" "ranges (length xs) ((a, n) # st)" "budget st \<le> k" for a n st xs ys0
    using qs_okD(2)[OF Suc, of ys0 st] sorts_comp[OF that(1), of st] sorts_length[OF that(1)] that(2,3) by auto
  have "\<exists>ys. qs cmp (Suc k) st a n xs = Some ys \<and> sorts cmp ((a, n) # st) xs ys"
    if rs: "ranges (length xs) ((a, n) # st)" and b: "3 * n + 1 + budget st \<le> Suc k" for a n st xs
  proof -
    have ins: "sorts cmp [(a, n)] zs (ins_sort cmp a n zs)" if "length zs = length xs" for zs
      using ins_sort_rearr[of a n zs cmp] ins_sort_sorted[of cmp a n zs] rs that by (intro sorts_rearr) simp_all
    show ?thesis
    proof (cases "n < 7")
      case True
      then show ?thesis using pop[OF ins[OF refl] rs] b by simp
    next
      case False
      obtain c l d e r xs1 where sp: "split_range cmp a n xs = (c, (l, d), (e, r), xs1)" by (metis prod.exhaust)
      have bound: "a + n \<le> length xs" using rs by simp
      have r1: "rearr a (a + n) xs xs1"
          and parts: "c \<Longrightarrow> l = a \<and> d + r < n \<and> e + r = a + n \<and> a + d \<le> e \<and> (\<exists>p. three cmp p a (a + d) e (a + n) xs1)"
        using split_range_parts[OF sp _ bound] False by simp_all
      have len: "length xs1 = length xs" using r1 by (rule rearr_length)
      show ?thesis
      proof (cases c)
        case nc: False
        have "sorts cmp [(a, n)] xs (ins_sort cmp a n xs1)"
          using ins_sort_rearr[of a n xs1 cmp] ins_sort_sorted[of cmp a n xs1] bound len r1
          by (intro sorts_rearr) (auto intro: rearr_trans)
        then show ?thesis using pop[OF _ rs] b False sp nc by simp
      next
        case True
        define small where "small = (if d < r then (a, d) else (e, r))"
        define large where "large = (if d < r then (e, r) else (a, d))"
        note q = parts[OF True]
        have "ranges (length xs1) ((a, d) # (e, r) # st)" using ranges_split[OF rs, of d e r] q len by simp
        then have "ranges (length xs1) (small # large # st)"
          using ranges_swap[of "length xs1" "(a, d)" "(e, r)" st] by (simp only: small_def large_def split: if_split) blast
        moreover have "3 * (snd small + snd large) + 3 + budget st \<le> k" using q b by (auto simp: small_def large_def)
        ultimately obtain ys where ys: "(if 1 < snd small
             then if length st < PARAMETER_STACK_LEVELS then qs cmp k (large # st) (fst small) (snd small) xs1
                  else Option.bind (qs cmp k [] (fst small) (snd small) xs1) (\<lambda>xs.
                    if 1 < snd large then qs cmp k st (fst large) (snd large) xs else qs_pop cmp k st xs)
             else if 1 < snd large then qs cmp k st (fst large) (snd large) xs1
             else qs_pop cmp k st xs1) = Some ys" "sorts cmp (small # large # st) xs1 ys"
          using qs_parts[OF Suc] by blast
        have "sorts cmp ([(a, d), (e, r)] @ st) xs1 ys"
          using ys(2) sorts_swap2[of cmp "(a, d)" "(e, r)" st] by (auto simp: small_def large_def split: if_splits)
        then have "sorts cmp ((a, n) # st) xs ys" using sorts_split[OF r1 _ _ _ _ rs] q by blast
        moreover have "qs cmp (Suc k) st a n xs = Some ys"
          using ys(1) False sp True q by (simp add: small_def large_def Let_def split: if_splits)
        ultimately show ?thesis by blast
      qed
    qed
  qed
  moreover have "\<exists>ys. qs_pop cmp (Suc k) st xs = Some ys \<and> sorts cmp st xs ys"
    if "ranges (length xs) st" "budget st \<le> Suc k" for st xs
    using that qs_okD(1)[OF Suc, of xs "hd st" "tl st"] by (cases st) (simp_all add: budget_def)
  ultimately show ?case unfolding qs_ok_def by blast
qed

definition sort_elems :: "'a cmp \<Rightarrow> 'a list \<Rightarrow> 'a list option" where
  "sort_elems cmp xs = qs cmp (3 * length xs + 1) [] 0 (length xs) xs"

lemma sort_elems_sorts:
  "\<exists>ys. sort_elems cmp xs = Some ys \<and> mset ys = mset xs \<and> (orders cmp \<longrightarrow> sorted_in cmp 0 (length xs) ys)"
proof -
  have "ranges (length xs) [(0, length xs)]" by simp
  then obtain ys where "sort_elems cmp xs = Some ys" "sorts cmp [(0, length xs)] xs ys"
    using qs_okD(1)[OF qs_ok, of xs "(0, length xs)" "[]" "3 * length xs + 1" cmp] by (auto simp: sort_elems_def budget_def)
  moreover from this have "mslice ys 0 (length xs) = ys" by (simp add: mslice_def sorts_length)
  ultimately show ?thesis by (auto simp: sorts_def mslice_def)
qed

end
