(* ===== verification/Sort_Refine.thy ===== *)
theory Sort_Refine
  imports Sort_Order
begin

text \<open>
  The bytes of an array and its elements: \<open>lay m a xs\<close> is the memory \<open>m\<close> with the elements \<open>xs\<close> laid
  out from the address \<open>a\<close> on.  Every loop of \<open>qsort\<close> in \<open>Libc_Sort\<close>, run on such a memory, is the
  loop of \<open>Sort_Array\<close> on the elements: addresses are indices times the element size, and the word or
  byte loops of \<open>swapfunc\<close> exchange elements.
\<close>

definition lay :: "ram \<Rightarrow> nat \<Rightarrow> u8 list list \<Rightarrow> ram" where
  "lay m a xs = put m a (concat xs)"

definition arr_ok :: "ram \<Rightarrow> nat \<Rightarrow> nat \<Rightarrow> u8 list list \<Rightarrow> bool" where
  "arr_ok m a es xs \<longleftrightarrow> 0 < es \<and> (\<forall>x \<in> set xs. length x = es) \<and> a + length xs * es \<le> length m \<and> length xs * es < 2 ^ 31"

definition objects :: "ram \<Rightarrow> nat \<Rightarrow> nat \<Rightarrow> nat \<Rightarrow> u8 list list" where
  "objects m a n es = map (\<lambda>i. mslice m (a + i * es) es) [0..<n]"

subsection \<open>Elements in memory\<close>

lemma length_concat_same: "(\<forall>x \<in> set xs. length x = k) \<Longrightarrow> length (concat xs) = length xs * k"
  by (induction xs) auto

lemma nth_concat_same:
  "(\<forall>x \<in> set xs. length x = k) \<Longrightarrow> i < length xs \<Longrightarrow> t < k \<Longrightarrow> concat xs ! (i * k + t) = xs ! i ! t"
  by (induction xs arbitrary: i) (auto simp: nth_append nth_Cons split: nat.splits)

lemma slot_less: "t < k \<Longrightarrow> i < n \<Longrightarrow> i * k + t < n * (k :: nat)"
proof -
  assume "t < k" "i < n"
  then have "i * k + t < Suc i * k" "Suc i * k \<le> n * k" by (simp, intro mult_le_mono1, simp)
  then show ?thesis by linarith
qed

lemma slot_iff: "t < k \<Longrightarrow> i * k \<le> j * k + t \<and> j * k + t < i * k + k \<longleftrightarrow> i = (j :: nat)"
proof -
  assume t: "t < k"
  consider "i < j" | "j < i" | "i = j" by linarith
  then show ?thesis
  proof cases
    case 1
    then have "i * k + k \<le> j * k" using mult_le_mono1[of "Suc i" j k] by simp
    then show ?thesis using 1 by simp
  next
    case 2
    then show ?thesis using slot_less[OF t, of j i] by simp
  qed (use t in simp)
qed

lemma slot_le: "(0 :: nat) < k \<Longrightarrow> i * k \<le> j * k \<longleftrightarrow> i \<le> j" "(0 :: nat) < k \<Longrightarrow> i * k < j * k \<longleftrightarrow> i < j"
  by simp_all

lemma arr_okD:
  assumes "arr_ok m a es xs"
  shows "0 < es" and "\<forall>x \<in> set xs. length x = es" and "a + length (concat xs) \<le> length m" and "length xs * es < 2 ^ 31"
    and "length (lay m a xs) = length m"
  using assms length_concat_same[of xs es] by (simp_all add: arr_ok_def lay_def)

lemma arr_ok_slot: "arr_ok m a es xs \<Longrightarrow> i < length xs \<Longrightarrow> a + i * es + es \<le> length m"
  using mult_le_mono1[of "Suc i" "length xs" es] by (simp add: arr_ok_def)

lemma arr_ok_cong: "arr_ok m a es xs \<Longrightarrow> length ys = length xs \<Longrightarrow> set ys \<subseteq> set xs \<Longrightarrow> arr_ok m a es ys"
  by (auto simp: arr_ok_def)

lemma nth_lay:
  assumes "arr_ok m a es xs" and "i < length xs" and "t < es"
  shows "lay m a xs ! (a + i * es + t) = xs ! i ! t"
proof -
  have "i * es + t < length (concat xs)"
    using slot_less[OF assms(3,2)] length_concat_same[of xs es] assms(1) by (simp add: arr_ok_def)
  then show ?thesis
    using arr_okD(2,3)[OF assms(1)] nth_concat_same[of xs es i t] assms(2,3) by (simp add: lay_def nth_put add.assoc)
qed

lemma nth_lay_out:
  "arr_ok m a es xs \<Longrightarrow> q < length m \<Longrightarrow> q < a \<or> a + length xs * es \<le> q \<Longrightarrow> lay m a xs ! q = m ! q"
  using length_concat_same[of xs es] by (auto simp: arr_ok_def lay_def nth_put)

lemma lay_eqI:
  assumes ok: "arr_ok m a es xs" and len: "length m' = length m"
    and out: "\<And>q. q < length m \<Longrightarrow> q < a \<or> a + length xs * es \<le> q \<Longrightarrow> m' ! q = m ! q"
    and inn: "\<And>i t. i < length xs \<Longrightarrow> t < es \<Longrightarrow> m' ! (a + i * es + t) = xs ! i ! t"
  shows "m' = lay m a xs"
proof (rule nth_equalityI)
  show "length m' = length (lay m a xs)" using len arr_okD(5)[OF ok] by simp
  fix q
  assume q: "q < length m'"
  show "m' ! q = lay m a xs ! q"
  proof (cases "q < a \<or> a + length xs * es \<le> q")
    case True
    then show ?thesis using out nth_lay_out[OF ok] q len by simp
  next
    case False
    define i t where "i = (q - a) div es" and "t = (q - a) mod es"
    have "q - a < length xs * es" using False by linarith
    then have "i < length xs" "t < es" using arr_okD(1)[OF ok] by (simp_all add: i_def t_def less_mult_imp_div_less)
    moreover have "q = a + i * es + t" using False by (simp add: i_def t_def)
    ultimately show ?thesis using inn nth_lay[OF ok] by simp
  qed
qed

lemma mslice_lay:
  assumes "arr_ok m a es xs" and "i < length xs"
  shows "mslice (lay m a xs) (a + i * es) es = xs ! i"
proof (rule nth_equalityI)
  have "length (xs ! i) = es" using arr_okD(2)[OF assms(1)] assms(2) by simp
  then show "length (mslice (lay m a xs) (a + i * es) es) = length (xs ! i)"
    using arr_ok_slot[OF assms] arr_okD(5)[OF assms(1)] by simp
  then show "mslice (lay m a xs) (a + i * es) es ! t = xs ! i ! t" if "t < length (mslice (lay m a xs) (a + i * es) es)" for t
    using that nth_lay[OF assms] arr_ok_slot[OF assms] arr_okD(5)[OF assms(1)] \<open>length (xs ! i) = es\<close> by simp
qed

lemma lay_objects:
  assumes "0 < es" and "a + n * es \<le> length m"
  shows "lay m a (objects m a n es) = m"
proof -
  have len: "\<forall>x \<in> set (objects m a n es). length x = es"
  proof
    fix x assume "x \<in> set (objects m a n es)"
    then obtain i where "i < n" "x = mslice m (a + i * es) es" by (auto simp: objects_def)
    then show "length x = es" using assms(2) mult_le_mono1[of "Suc i" n es] by simp
  qed
  have "concat (objects m a n es) = mslice m a (n * es)"
  proof (rule nth_equalityI)
    show l: "length (concat (objects m a n es)) = length (mslice m a (n * es))"
      using length_concat_same[OF len] assms(2) by (simp add: objects_def)
    fix k assume "k < length (concat (objects m a n es))"
    then have k: "k < n * es" using l assms(2) by simp
    define i t where "i = k div es" and "t = k mod es"
    have it: "i < n" "t < es" "k = i * es + t" using k assms(1) by (simp_all add: i_def t_def less_mult_imp_div_less)
    then have "concat (objects m a n es) ! k = mslice m (a + i * es) es ! t"
      using nth_concat_same[OF len, of i t] by (simp add: objects_def)
    then show "concat (objects m a n es) ! k = mslice m a (n * es) ! k"
      using it k assms(2) mult_le_mono1[of "Suc i" n es] by (simp add: add.assoc)
  qed
  then show ?thesis using assms(2) by (intro nth_equalityI) (auto simp: lay_def nth_put)
qed

lemma CMP_lay:
  assumes "arr_ok m a es xs" and "i < length xs" and "j < length xs"
  shows "CMP cmp es (lay m a xs) (a + i * es) (a + j * es) = Ok (cmp (xs ! i) (xs ! j))"
  using arr_ok_slot[OF assms(1,2)] arr_ok_slot[OF assms(1,3)] mslice_lay[OF assms(1,2)] mslice_lay[OF assms(1,3)]
    arr_okD(5)[OF assms(1)] by (simp add: CMP_def)

subsection \<open>Exchanging blocks of bytes\<close>

lemma swp_sym: "swp i j xs = swp j i xs"
  by (cases "i = j") (auto simp: swp_def list_update_swap)

lemma swp_same [simp]: "swp i i xs = xs"
  by (simp add: swp_def)

lemma set_swp: "i < length xs \<Longrightarrow> j < length xs \<Longrightarrow> set (swp i j xs) = set xs"
  using rearr_swp[of 0 i "length xs" j xs] by (auto simp: rearr_def dest: mset_eq_setD)

lemma vswap_sym: "vswap i j k xs = vswap j i k xs"
  by (induction i j k xs rule: vswap.induct) (simp_all add: swp_sym)

lemma vswap_same [simp]: "vswap i i k xs = xs"
  by (induction k arbitrary: i) simp_all

lemma vswap_add: "vswap i j (k + l) xs = vswap (i + k) (j + k) l (vswap i j k xs)"
  by (induction i j k xs rule: vswap.induct) simp_all

lemma nth_vswap_apart:
  "i + k \<le> j \<or> j + k \<le> i \<Longrightarrow> i + k \<le> length xs \<Longrightarrow> j + k \<le> length xs \<Longrightarrow> vswap i j k xs ! t =
    (if i \<le> t \<and> t < i + k then xs ! (j + (t - i)) else if j \<le> t \<and> t < j + k then xs ! (i + (t - j)) else xs ! t)"
  using nth_vswap[of i k j xs t] nth_vswap[of j k i xs t] vswap_sym[of i j k xs] by auto

lemma swapcode_char_vswap:
  "p + k \<le> length m \<Longrightarrow> q + k \<le> length m \<Longrightarrow> 0 < k \<Longrightarrow> swapcode_char (int k) m p q = Ok (vswap p q k m)"
proof (induction k arbitrary: m p q)
  case (Suc k)
  have s: "swapcode_char (int (Suc k)) m p q =
      (if 0 < k then swapcode_char (int k) (swp p q m) (p + 1) (q + 1) else Ok (swp p q m))"
    using Suc.prems by (subst swapcode_char.simps) (simp add: rb_def wb_def swp_def)
  show ?case
  proof (cases "k = 0")
    case True
    then show ?thesis using s by simp
  next
    case False
    then show ?thesis using s Suc by simp
  qed
qed simp

text \<open>One word: two blocks of eight bytes that do not overlap, or the same block.\<close>

definition blocks_ok :: "nat \<Rightarrow> nat \<Rightarrow> nat \<Rightarrow> 'a list \<Rightarrow> bool" where
  "blocks_ok p q k m \<longleftrightarrow> p + k \<le> length m \<and> q + k \<le> length m \<and> (p + k \<le> q \<or> q + k \<le> p \<or> p = q)"

lemma swap_word:
  assumes "blocks_ok p q 8 m"
  shows "bnd (rl m p) (\<lambda>t. bnd (rl m q) (\<lambda>u. bnd (wl m p u) (\<lambda>m. bnd (wl m q t) f))) = f (vswap p q 8 m)"
proof -
  have b: "p + 8 \<le> length m" "q + 8 \<le> length m" and ap: "p + 8 \<le> q \<or> q + 8 \<le> p \<or> p = q"
    using assms by (simp_all add: blocks_ok_def)
  have w: "le_bytes 8 (le_word (take 8 (drop p m))) = mslice m p 8" "le_bytes 8 (le_word (take 8 (drop q m))) = mslice m q 8"
    using b by (simp_all add: le_bytes_le_word mslice_def)
  have "put (put m p (mslice m q 8)) q (mslice m p 8) = vswap p q 8 m"
  proof (cases "p = q")
    case True
    then show ?thesis using b by (intro nth_equalityI) (auto simp: nth_put)
  next
    case False
    then have "p + 8 \<le> q \<or> q + 8 \<le> p" using ap by simp
    then show ?thesis using b by (intro nth_equalityI) (auto simp: nth_put nth_vswap_apart)
  qed
  then show ?thesis using b by (simp add: rl_def wl_def w)
qed

lemma swapcode_long_vswap:
  "blocks_ok p q (8 * k) m \<Longrightarrow> 0 < k \<Longrightarrow> swapcode_long (int k) m p q = Ok (vswap p q (8 * k) m)"
proof (induction k arbitrary: m p q)
  case (Suc k)
  have "blocks_ok p q 8 m" using Suc.prems by (auto simp: blocks_ok_def)
  then have s: "swapcode_long (int (Suc k)) m p q =
      (if 0 < k then swapcode_long (int k) (vswap p q 8 m) (p + 8) (q + 8) else Ok (vswap p q 8 m))"
    by (subst swapcode_long.simps) (simp add: swap_word)
  have "swapcode_long (int k) (vswap p q 8 m) (p + 8) (q + 8) = Ok (vswap (p + 8) (q + 8) (8 * k) (vswap p q 8 m))" if "0 < k"
    using Suc that by (intro Suc.IH) (auto simp: blocks_ok_def)
  then show ?case using s vswap_add[of p q 8 "8 * k" m] by (cases "k = 0") simp_all
qed simp

lemma sint_of_nat_id: "n < 2 ^ 63 \<Longrightarrow> sint (of_nat n :: u64) = int n"
  using sint_word_of_int_id[of "int n"] by simp

lemma swap_count_exact:
  assumes "n < 2 ^ 31" and "0 < sz" and "sz < 2 ^ 31"
  shows "swap_count (int n) sz = int (n div sz)"
proof -
  have u: "unat (of_nat k :: u64) = k" if "k < 2 ^ 31" for k
    using that by (simp add: unat_of_nat take_bit_nat_eq_self)
  have d: "n div sz < 2 ^ 31" using assms(1) div_le_dividend[of n sz] by linarith
  have "(of_nat n div of_nat sz :: u64) = of_nat (n div sz)"
    using u[OF assms(1)] u[OF assms(3)] u[OF d] by (simp add: word_unat_eq_iff unat_div)
  moreover have "sint (of_nat (n div sz) :: u64) = int (n div sz)" using d by (intro sint_of_nat_id) simp
  ultimately show ?thesis by (simp add: swap_count_def)
qed

lemma int_arg_exact: "n < 2 ^ 31 \<Longrightarrow> int_arg n = int n"
  using sint_sbintrunc'[of "int n", where 'a = 32] by (simp add: int_arg_def signed_take_bit_int_eq_self)

lemma swapfunc_vswap:
  assumes "blocks_ok p q n m" and "0 < n" and "n < 2 ^ 31" and "st \<le> 1 \<Longrightarrow> 8 dvd n"
  shows "swapfunc m p q (int n) st = Ok (vswap p q n m)"
proof (cases "st \<le> 1")
  case True
  define k where "k = n div 8"
  have k: "8 * k = n" "0 < k" using assms(2,4) True by (auto simp: k_def)
  have "swap_count (int n) 8 = int k" using assms(3) by (simp add: swap_count_exact k_def del: of_nat_div)
  then show ?thesis using True assms(1) k swapcode_long_vswap[of p q k m] by (simp add: swapfunc_def)
next
  case False
  then show ?thesis
    using assms swapcode_char_vswap[of p n m q] by (simp add: swapfunc_def swap_count_exact blocks_ok_def)
qed

text \<open>Blocks that are elements.\<close>

lemma vswap_elem:
  assumes "arr_ok m a es xs" and "i < length xs" and "j < length xs"
  shows "vswap (a + i * es) (a + j * es) es (lay m a xs) = lay m a (swp i j xs)"
proof (cases "i = j")
  case False
  note es = arr_okD(1)[OF assms(1)] and len = arr_okD(5)[OF assms(1)]
  have b: "a + i * es + es \<le> length m" "a + j * es + es \<le> length m"
    using arr_ok_slot[OF assms(1)] assms(2,3) by simp_all
  have ap: "a + i * es + es \<le> a + j * es \<or> a + j * es + es \<le> a + i * es"
    using False mult_le_mono1[of "Suc i" j es] mult_le_mono1[of "Suc j" i es] by (cases "i < j") simp_all
  have "set (swp i j xs) \<subseteq> set xs" using assms(2,3) by (simp add: set_swp)
  then have ok: "arr_ok m a es (swp i j xs)" using arr_ok_cong[OF assms(1)] by simp
  show ?thesis
  proof (rule lay_eqI[OF ok])
    show "length (vswap (a + i * es) (a + j * es) es (lay m a xs)) = length m" using len by simp
    fix q assume q: "q < length m" "q < a \<or> a + length (swp i j xs) * es \<le> q"
    have "a + i * es + es \<le> a + length xs * es" "a + j * es + es \<le> a + length xs * es"
      using assms(2,3) mult_le_mono1[of "Suc i" "length xs" es] mult_le_mono1[of "Suc j" "length xs" es] by simp_all
    then show "vswap (a + i * es) (a + j * es) es (lay m a xs) ! q = m ! q"
      using q b ap len nth_lay_out[OF assms(1)] by (subst nth_vswap_apart) auto
  next
    fix k t assume k: "k < length (swp i j xs)" "t < es"
    let ?q = "a + k * es + t"
    have si: "(a + l * es \<le> ?q \<and> ?q < a + l * es + es) = (l = k)" for l using slot_iff[OF k(2), of l k] by auto
    have "vswap (a + i * es) (a + j * es) es (lay m a xs) ! ?q =
        (if i = k then lay m a xs ! (a + j * es + t) else if j = k then lay m a xs ! (a + i * es + t) else lay m a xs ! ?q)"
      using b ap len by (subst nth_vswap_apart) (auto simp only: si, auto)
    also have "\<dots> = swp i j xs ! k ! t"
      using nth_lay[OF assms(1) _ k(2)] assms(2,3) k(1) by (simp add: nth_swp)
    finally show "vswap (a + i * es) (a + j * es) es (lay m a xs) ! ?q = swp i j xs ! k ! t" .
  qed
qed simp

lemma arr_ok_rearr: "arr_ok m a es xs \<Longrightarrow> rearr lo hi xs ys \<Longrightarrow> arr_ok m a es ys"
  using arr_ok_cong[of m a es xs ys] by (auto simp: rearr_def dest: mset_eq_setD)

lemma arr_ok_swp: "arr_ok m a es xs \<Longrightarrow> i < length xs \<Longrightarrow> j < length xs \<Longrightarrow> arr_ok m a es (swp i j xs)"
  using arr_ok_cong[of m a es xs "swp i j xs"] by (simp add: set_swp)

lemma vswap_elems:
  "arr_ok m a es xs \<Longrightarrow> i + k \<le> length xs \<Longrightarrow> j + k \<le> length xs \<Longrightarrow>
   vswap (a + i * es) (a + j * es) (k * es) (lay m a xs) = lay m a (vswap i j k xs)"
proof (induction i j k xs rule: vswap.induct)
  case (2 i j k xs)
  have "vswap (a + i * es) (a + j * es) (Suc k * es) (lay m a xs) =
      vswap (a + Suc i * es) (a + Suc j * es) (k * es) (lay m a (swp i j xs))"
    using vswap_add[of "a + i * es" "a + j * es" es "k * es" "lay m a xs"] vswap_elem[OF "2.prems"(1), of i j] "2.prems"
    by (simp add: add.assoc add.commute[of es])
  then show ?case using "2.IH" "2.prems" arr_ok_swp by simp
qed simp

lemma SWAPINIT_dvd: "SWAPINIT a es \<le> 1 \<Longrightarrow> 8 dvd es"
  by (auto simp: SWAPINIT_def split: if_splits)

lemma SWAPINIT_elem: "SWAPINIT (a + i * es) es = SWAPINIT a es"
proof (cases "es mod 8 = 0")
  case True
  then have "(i * es) mod 8 = 0" by auto
  then have "(a + i * es) mod 8 = a mod 8" by (metis add.right_neutral mod_add_right_eq)
  then show ?thesis by (simp add: SWAPINIT_def)
qed (simp add: SWAPINIT_def)

lemma blocks_elem:
  assumes "arr_ok m a es xs" and "i < length xs" and "j < length xs"
  shows "blocks_ok (a + i * es) (a + j * es) es (lay m a xs)"
  using arr_ok_slot[OF assms(1,2)] arr_ok_slot[OF assms(1,3)] arr_okD(5)[OF assms(1)]
    mult_le_mono1[of "Suc i" j es] mult_le_mono1[of "Suc j" i es]
  by (cases i j rule: linorder_cases) (simp_all add: blocks_ok_def)

lemma swap_lay:
  assumes "arr_ok m a es xs" and "i < length xs" and "j < length xs"
  shows "swap es (SWAPINIT a es) (lay m a xs) (a + i * es) (a + j * es) = Ok (lay m a (swp i j xs))"
proof -
  note b = blocks_elem[OF assms] and e = vswap_elem[OF assms]
  have es: "0 < es" "es < 2 ^ 31"
    using arr_okD(1,4)[OF assms(1)] mult_le_mono1[of "Suc 0" "length xs" es] assms(2) by linarith+
  show ?thesis
  proof (cases "SWAPINIT a es = 0")
    case True
    then have 8: "es = 8" by (auto simp: SWAPINIT_def split: if_splits)
    have "bnd (wl n q t) Ok = wl n q t" for n q t by (cases "wl n q t") simp_all
    then show ?thesis using swap_word[of "a + i * es" "a + j * es" "lay m a xs" Ok] b e True by (simp add: swap_def 8)
  next
    case False
    then show ?thesis
      using swapfunc_vswap[OF b es SWAPINIT_dvd] e es by (simp add: swap_def int_arg_exact)
  qed
qed

lemma vecswap_lay:
  assumes "arr_ok m a es xs" and "i + k \<le> j" and "j + k \<le> length xs"
  shows "vecswap (SWAPINIT a es) (lay m a xs) (a + i * es) (a + j * es) (k * es) = Ok (lay m a (vswap i j k xs))"
proof (cases "k = 0")
  case False
  have le: "i * es + k * es \<le> j * es" "j * es + k * es \<le> length xs * es"
    using mult_le_mono1[OF assms(2), of es] mult_le_mono1[OF assms(3), of es] by (simp_all add: add_mult_distrib)
  then have "blocks_ok (a + i * es) (a + j * es) (k * es) (lay m a xs)"
    using assms(1) arr_okD(5)[OF assms(1)] by (auto simp: blocks_ok_def arr_ok_def)
  moreover have "0 < k * es" "k * es < 2 ^ 31" using le arr_okD(1,4)[OF assms(1)] False by simp_all
  moreover have "8 dvd k * es" if "SWAPINIT a es \<le> 1" using SWAPINIT_dvd[OF that] by simp
  ultimately show ?thesis
    using swapfunc_vswap vswap_elems[OF assms(1), of i k j] assms(2,3) by (simp add: vecswap_def int_arg_exact del: of_nat_mult)
qed (simp add: vecswap_def)

subsection \<open>Insertion sort\<close>

lemma ins_inner_lay:
  "arr_ok m a es xs \<Longrightarrow> b \<le> p \<Longrightarrow> p < length xs \<Longrightarrow>
   ins_inner cmp es (SWAPINIT a es) (a + b * es) (a + p * es) (lay m a xs) = Ok (lay m a (ins_in cmp b p xs))"
proof (induction p arbitrary: xs)
  case 0
  then show ?case by (subst ins_inner.simps) simp
next
  case (Suc p)
  note es = arr_okD(1)[OF Suc.prems(1)]
  have e: "a + Suc p * es - es = a + p * es" "\<not> a + Suc p * es < es" by simp_all
  have lt: "a + b * es < a + Suc p * es \<longleftrightarrow> b \<le> p" using slot_le(2)[OF es, of b "Suc p"] by (simp add: less_Suc_eq_le)
  show ?case
  proof (cases "b \<le> p")
    case True
    then show ?thesis
      using CMP_lay[OF Suc.prems(1), of p "Suc p" cmp] swap_lay[OF Suc.prems(1), of "Suc p" p] Suc es e lt arr_ok_swp[OF Suc.prems(1)]
      by (subst ins_inner.simps) (simp del: mult_Suc)
  next
    case False
    then show ?thesis using lt by (subst ins_inner.simps) (simp del: mult_Suc)
  qed
qed

lemma ins_outer_lay:
  "arr_ok m a es xs \<Longrightarrow> b \<le> pm \<Longrightarrow> lim \<le> length xs \<Longrightarrow>
   ins_outer cmp es (SWAPINIT a es) (a + b * es) (a + lim * es) (a + pm * es) (lay m a xs) = Ok (lay m a (ins_out cmp b lim pm xs))"
proof (induction cmp b lim pm xs rule: ins_out.induct)
  case (1 cmp b lim pm xs)
  note es = arr_okD(1)[OF "1.prems"(1)]
  show ?case
  proof (cases "pm < lim")
    case True
    have r: "rearr b lim xs (ins_in cmp b pm xs)" using "1.prems" True by (intro ins_in_rearr) simp_all
    have "ins_outer cmp es (SWAPINIT a es) (a + b * es) (a + lim * es) (a + Suc pm * es) (lay m a (ins_in cmp b pm xs)) =
        Ok (lay m a (ins_out cmp b lim (Suc pm) (ins_in cmp b pm xs)))"
      using "1.prems" True rearr_length[OF r] arr_ok_rearr[OF "1.prems"(1) r] by (intro "1.IH") simp_all
    then show ?thesis
      using ins_inner_lay[OF "1.prems"(1,2), of cmp] "1.prems" True es
      by (subst ins_outer.simps, subst ins_out.simps) (simp add: add.assoc add.commute[of es])
  next
    case False
    then show ?thesis using es by (subst ins_outer.simps, subst ins_out.simps) simp
  qed
qed

lemma insertion_sort_lay:
  "arr_ok m a es xs \<Longrightarrow> b + n \<le> length xs \<Longrightarrow>
   insertion_sort cmp es (SWAPINIT a es) (a + b * es) n (lay m a xs) = Ok (lay m a (ins_sort cmp b n xs))"
  using ins_outer_lay[of m a es xs b "Suc b" "b + n" cmp]
  by (simp add: insertion_sort_def ins_sort_def add_mult_distrib add.assoc add.commute[of es])

subsection \<open>Pivot and partition\<close>

lemma med3_lay:
  "arr_ok m a es xs \<Longrightarrow> i < length xs \<Longrightarrow> j < length xs \<Longrightarrow> k < length xs \<Longrightarrow>
   med3 cmp es (lay m a xs) (a + i * es) (a + j * es) (a + k * es) = Ok (a + med cmp xs i j k * es)"
  by (simp add: med3_def med_def CMP_lay)

lemma med_less: "i < n \<Longrightarrow> j < n \<Longrightarrow> k < n \<Longrightarrow> med cmp xs i j k < n"
  using med_cases[of cmp xs i j k] by auto

lemma select_pivot_lay:
  assumes "arr_ok m a es xs" and "b + n \<le> length xs" and "7 \<le> n"
  shows "select_pivot cmp es (a + b * es) n (lay m a xs) = Ok (a + pivot cmp b n xs * es)"
proof -
  define d where "d = n div 8"
  let ?pm = "b + n div 2" and ?pn = "b + (n - 1)"
  have e: "a + b * es + k * es = a + (b + k) * es" for k by (simp add: add_mult_distrib)
  note m3 = med3_lay[OF assms(1), of _ _ _ cmp]
  show ?thesis
  proof (cases "40 < n")
    case True
    then have d: "8 * d \<le> n" "0 < d" "d \<le> n div 2" "n div 2 + d < n" by (auto simp: d_def)
    let ?l = "med cmp xs b (b + d) (b + 2 * d)" and ?m = "med cmp xs (?pm - d) ?pm (?pm + d)"
    let ?r = "med cmp xs (?pn - 2 * d) (?pn - d) ?pn" and ?D = "d * es" and ?M = "lay m a xs"
    have p: "a + b * es + (n div 2) * es = a + ?pm * es" "a + b * es + (n - 1) * es = a + ?pn * es" by (rule e)+
    have up: "a + k * es + ?D = a + (k + d) * es" "a + k * es + 2 * ?D = a + (k + 2 * d) * es" for k
      by (simp_all add: add_mult_distrib)
    have dn: "a + k * es - ?D = a + (k - d) * es" "a + k * es - 2 * ?D = a + (k - 2 * d) * es" if "2 * d \<le> k" for k
      using that mult_le_mono1[of d k es] mult_le_mono1[of "2 * d" k es] by (simp_all add: diff_mult_distrib)
    have k: "2 * d \<le> ?pm" "2 * d \<le> ?pn" using d True by simp_all
    have "med3 cmp es ?M (a + b * es) (a + b * es + ?D) (a + b * es + 2 * ?D) = Ok (a + ?l * es)"
      unfolding up using d assms(2) True by (intro m3) simp_all
    moreover have "med3 cmp es ?M (a + ?pm * es - ?D) (a + ?pm * es) (a + ?pm * es + ?D) = Ok (a + ?m * es)"
      unfolding up dn[OF k(1)] using d assms(2) True by (intro m3) simp_all
    moreover have "med3 cmp es ?M (a + ?pn * es - 2 * ?D) (a + ?pn * es - ?D) (a + ?pn * es) = Ok (a + ?r * es)"
      unfolding dn[OF k(2)] using d assms(2) True by (intro m3) simp_all
    moreover have "med3 cmp es ?M (a + ?l * es) (a + ?m * es) (a + ?r * es) = Ok (a + med cmp xs ?l ?m ?r * es)"
      using d assms(2) True by (intro m3 med_less) simp_all
    ultimately show ?thesis
      using True by (simp only: select_pivot_def pivot_def Let_def p flip: d_def) simp
  next
    case False
    then show ?thesis using assms(2,3) m3 by (simp add: select_pivot_def pivot_def Let_def e)
  qed
qed

lemma scan_left_lay:
  "b < length xs \<Longrightarrow> pa \<le> pb \<Longrightarrow> pc < length xs \<Longrightarrow> arr_ok m a es xs \<Longrightarrow>
   scan_left cmp es (SWAPINIT a es) (a + b * es) (a + pc * es) (a + pa * es) (a + pb * es) cnt (lay m a xs) =
    (case scan_l cmp b pc pa pb cnt xs of (pa', pb', cnt', xs') \<Rightarrow> Ok (a + pa' * es, a + pb' * es, cnt', lay m a xs'))"
proof (induction cmp b pc pa pb cnt xs rule: scan_l.induct)
  case (1 cmp b pc pa pb cnt xs)
  let ?c = "cmp (xs ! pb) (xs ! b)"
  note es = arr_okD(1)[OF "1.prems"(4)]
  have le: "a + pb * es \<le> a + pc * es \<longleftrightarrow> pb \<le> pc" using es by simp
  have s: "a + k * es + es = a + Suc k * es" for k by simp
  consider "pb \<le> pc" "?c < 0" | "pb \<le> pc" "?c = 0" | "pb \<le> pc" "0 < ?c" | "pc < pb" by linarith
  then show ?case
  proof cases
    case 1
    then show ?thesis
      using CMP_lay[OF "1.prems"(4), of pb b cmp] "1.IH"(2) "1.prems" es le
      by (subst scan_left.simps, subst scan_l.simps) (simp add: s del: mult_Suc)
  next
    case 2
    then show ?thesis
      using CMP_lay[OF "1.prems"(4), of pb b cmp] swap_lay[OF "1.prems"(4), of pa pb] "1.IH"(1) "1.prems" es le
        arr_ok_swp[OF "1.prems"(4), of pa pb]
      by (subst scan_left.simps, subst scan_l.simps) (simp add: s del: mult_Suc)
  next
    case 3
    then show ?thesis
      using CMP_lay[OF "1.prems"(4), of pb b cmp] "1.prems" le by (subst scan_left.simps, subst scan_l.simps) simp
  next
    case 4
    then show ?thesis using le by (subst scan_left.simps, subst scan_l.simps) simp
  qed
qed

lemma scan_right_lay:
  "b < length xs \<Longrightarrow> 0 < pb \<Longrightarrow> pc \<le> pd \<Longrightarrow> pd < length xs \<Longrightarrow> arr_ok m a es xs \<Longrightarrow>
   scan_right cmp es (SWAPINIT a es) (a + b * es) (a + pb * es) (a + pc * es) (a + pd * es) cnt (lay m a xs) =
    (case scan_r cmp b pb pc pd cnt xs of (pc', pd', cnt', xs') \<Rightarrow> Ok (a + pc' * es, a + pd' * es, cnt', lay m a xs'))"
proof (induction cmp b pb pc pd cnt xs rule: scan_r.induct)
  case (1 cmp b pb pd cnt xs)
  then show ?case using arr_okD(1)[OF "1.prems"(5)] by (subst scan_right.simps) simp
next
  case (2 cmp b pb p pd cnt xs)
  let ?c = "cmp (xs ! Suc p) (xs ! b)"
  note es = arr_okD(1)[OF "2.prems"(5)]
  have le: "a + pb * es \<le> a + Suc p * es \<longleftrightarrow> pb \<le> Suc p" using slot_le(1)[OF es, of pb "Suc p"] by simp
  have s: "a + Suc k * es - es = a + k * es" "\<not> a + Suc k * es < es" for k by simp_all
  obtain pd1 where pd: "pd = Suc pd1" using "2.prems"(3) by (cases pd) simp_all
  consider "pb \<le> Suc p" "0 < ?c" | "pb \<le> Suc p" "?c = 0" | "pb \<le> Suc p" "?c < 0" | "Suc p < pb" by linarith
  then show ?case
  proof cases
    case 1
    then show ?thesis
      using CMP_lay[OF "2.prems"(5), of "Suc p" b cmp] "2.IH"(2) "2.prems" es le s
      by (subst scan_right.simps) (simp del: mult_Suc)
  next
    case 2
    then show ?thesis
      using CMP_lay[OF "2.prems"(5), of "Suc p" b cmp] swap_lay[OF "2.prems"(5), of "Suc p" pd] "2.IH"(1) "2.prems" es le s
        arr_ok_swp[OF "2.prems"(5), of "Suc p" pd]
      by (subst scan_right.simps) (simp add: pd del: mult_Suc)
  next
    case 3
    then show ?thesis
      using CMP_lay[OF "2.prems"(5), of "Suc p" b cmp] "2.prems" le by (subst scan_right.simps) (simp del: mult_Suc)
  next
    case 4
    then show ?thesis using le by (subst scan_right.simps) (simp del: mult_Suc)
  qed
qed

lemma partition_lay:
  assumes "zones cmp b hi pa pb pc pd xs" and "arr_ok m a es xs"
  shows "partition_loop cmp es (SWAPINIT a es) (a + b * es) (a + pa * es, a + pb * es, a + pc * es, a + pd * es, cnt, lay m a xs) =
    (case part cmp b (pa, pb, pc, pd, cnt, xs) of (pa', pb', pc', pd', cnt', xs') \<Rightarrow>
       Ok (a + pa' * es, a + pb' * es, a + pc' * es, a + pd' * es, cnt', lay m a xs'))"
  using assms
proof (induction cmp b "(pa, pb, pc, pd, cnt, xs)" arbitrary: pa pb pc pd cnt xs rule: part.induct)
  case (1 cmp b pa pb pc pd cnt xs)
  note es = arr_okD(1)[OF "1.prems"(2)]
  obtain pa1 pb1 c1 xs1 where l: "scan_l cmp b pc pa pb cnt xs = (pa1, pb1, c1, xs1)" by (metis prod_cases4)
  obtain pc1 pd1 c2 xs2 where r: "scan_r cmp b pb1 pc pd c1 xs1 = (pc1, pd1, c2, xs2)" by (metis prod_cases4)
  note x = scans_cross[OF l r "1.prems"(1)]
  have z1: "zones cmp b hi pa1 pb1 pc pd xs1" using scan_l_zones[OF l "1.prems"(1)] by simp
  have ok: "arr_ok m a es xs1" "arr_ok m a es xs2"
    using arr_ok_rearr[OF "1.prems"(2) x(3)] arr_ok_rearr[OF _ x(2)] by blast+
  have sl: "scan_left cmp es (SWAPINIT a es) (a + b * es) (a + pc * es) (a + pa * es) (a + pb * es) cnt (lay m a xs) =
      Ok (a + pa1 * es, a + pb1 * es, c1, lay m a xs1)"
    using "1.prems" l by (subst scan_left_lay) (auto simp: zones_def)
  have sr: "scan_right cmp es (SWAPINIT a es) (a + b * es) (a + pb1 * es) (a + pc * es) (a + pd * es) c1 (lay m a xs1) =
      Ok (a + pc1 * es, a + pd1 * es, c2, lay m a xs2)"
    using z1 ok(1) r by (subst scan_right_lay) (auto simp: zones_def)
  have lt: "a + pc1 * es < a + pb1 * es \<longleftrightarrow> pc1 < pb1" using es by simp
  show ?case
  proof (cases "pc1 < pb1")
    case True
    then show ?thesis using sl sr lt by (subst partition_loop.simps, subst part.simps) (simp add: l r)
  next
    case False
    then have lt1: "pb1 < length xs2" "pc1 < length xs2" "0 < pc1" using x(1) by (auto simp: zones_def)
    then obtain pc2 where pc2: "pc1 = Suc pc2" by (cases pc1) simp_all
    have "partition_loop cmp es (SWAPINIT a es) (a + b * es) (a + pa1 * es, a + Suc pb1 * es, a + pc2 * es, a + pd1 * es, True,
        lay m a (swp pb1 pc1 xs2)) = (case part cmp b (pa1, Suc pb1, pc2, pd1, True, swp pb1 pc1 xs2) of
        (pa', pb', pc', pd', cnt', xs') \<Rightarrow> Ok (a + pa' * es, a + pb' * es, a + pc' * es, a + pd' * es, cnt', lay m a xs'))"
      using "1.hyps"[OF l[symmetric] refl refl r[symmetric] refl refl False] x(4) arr_ok_swp[OF ok(2) lt1(1,2)] False
      by (simp add: pc2)
    moreover have up: "a + pb1 * es + es = a + Suc pb1 * es" and "a + pc1 * es - es = a + pc2 * es" by (simp_all add: pc2)
    ultimately show ?thesis
      using sl sr lt False es swap_lay[OF ok(2) lt1(1,2)]
      by (subst partition_loop.simps, subst part.simps) (simp add: l r pc2 up del: mult_Suc)
  qed
qed

subsection \<open>The whole of qsort\<close>

definition scaled :: "nat \<Rightarrow> nat \<Rightarrow> nat \<times> nat \<Rightarrow> nat \<times> nat" where
  "scaled a es r = (a + fst r * es, snd r)"

lemma divide_lay:
  assumes "arr_ok m a es xs" and "b + n \<le> length xs" and "7 \<le> n" and "split_range cmp b n xs = (c, l, r, ys)"
  shows "divide cmp es (SWAPINIT a es) (a + b * es) n (lay m a xs) =
    Ok (c, if c then (a + fst l * es, snd l * es) else (0, 0), if c then (a + fst r * es, snd r * es) else (0, 0), lay m a ys)"
proof -
  let ?xs = "swp b (pivot cmp b n xs) xs" and ?hi = "b + (n - 1)"
  have pv: "pivot cmp b n xs < length xs" "b < length xs" using pivot_bounds[OF assms(3), of b cmp xs] assms(2,3) by simp_all
  have ok1: "arr_ok m a es ?xs" using arr_ok_swp[OF assms(1) pv(2,1)] .
  obtain pa pb pc pd cnt zs where p: "part cmp b (Suc b, Suc b, ?hi, ?hi, False, ?xs) = (pa, pb, pc, pd, cnt, zs)"
    by (metis prod_cases6)
  have z0: "zones cmp b ?hi (Suc b) (Suc b) ?hi ?hi ?xs" using assms(2,3) by (simp add: zones_def)
  note z = part_zones[OF p z0]
  have ok2: "arr_ok m a es zs" using arr_ok_rearr[OF ok1] z by blast
  have zb: "b < pa" "pa \<le> pb" "pb = Suc pc" "pc \<le> pd" "pd < b + n" "b + n \<le> length zs"
    using z assms(2,3) by (auto simp: zones_def dest: rearr_length)
  have pl: "partition_loop cmp es (SWAPINIT a es) (a + b * es)
      (a + b * es + es, a + b * es + es, a + b * es + (n - 1) * es, a + b * es + (n - 1) * es, False, lay m a ?xs) =
      Ok (a + pa * es, a + pb * es, a + pc * es, a + pd * es, cnt, lay m a zs)"
    using partition_lay[OF z0 ok1, of False] p by (simp add: add_mult_distrib add.assoc add.commute[of es])
  have start: "divide cmp es (SWAPINIT a es) (a + b * es) n (lay m a xs) =
      bnd (Ok (a + pa * es, a + pb * es, a + pc * es, a + pd * es, cnt, lay m a zs)) (\<lambda>(pa, pb, pc, pd, swap_cnt, m').
         if \<not> swap_cnt then Ok (False, (0, 0), (0, 0), m')
         else let pn = a + b * es + n * es; r = min (pa - (a + b * es)) (pb - pa)
           in bnd (vecswap (SWAPINIT a es) m' (a + b * es) (pb - r) r) (\<lambda>m'.
              let r = min (pd - pc) (pn - pd - es)
              in bnd (vecswap (SWAPINIT a es) m' pb (pn - r) r) (\<lambda>m'.
                   Ok (True, (a + b * es, pb - pa), (pn - (pd - pc), pd - pc), m'))))"
    unfolding divide_def using select_pivot_lay[OF assms(1-3), of cmp] swap_lay[OF assms(1) pv(2,1)] pl by simp
  show ?thesis
  proof (cases cnt)
    case False
    then show ?thesis using start assms(4) p by (simp add: split_range_def Let_def)
  next
    case True
    define r1 where "r1 = min (pa - b) (pb - pa)"
    define r2 where "r2 = min (pd - pc) (b + n - pd - 1)"
    define ws where "ws = vswap b (pb - r1) r1 zs"
    have sub: "a + i * es - (a + j * es) = (i - j) * es" "a + i * es - k * es = a + (i - k) * es" if "k \<le> i" for i j k
      using that mult_le_mono1[of k i es] by (simp_all add: diff_mult_distrib)
    have sub': "a + i * es - (a + j * es) = (i - j) * es" for i j by (simp add: diff_mult_distrib)
    have mn: "min (i * es) (j * es) = min i j * es" for i j by (simp add: min_def)
    have e: "c" "l = (b, pb - pa)" "r = (b + n - (pd - pc), pd - pc)" "ys = vswap pb (b + n - r2) r2 ws"
      using assms(4) p True by (auto simp: split_range_def Let_def ws_def r1_def r2_def)
    have pn: "a + b * es + n * es = a + (b + n) * es" by (simp add: add_mult_distrib)
    have b1: "r1 \<le> pb" "b + r1 \<le> pb - r1" "pb - r1 + r1 \<le> length zs" using zb by (auto simp: r1_def)
    have b2: "r2 \<le> b + n" "pb + r2 \<le> b + n - r2" "b + n - r2 + r2 \<le> length ws" using zb by (auto simp: r2_def ws_def)
    have ok3: "arr_ok m a es ws"
      unfolding ws_def using b1 by (intro arr_ok_rearr[OF ok2 rearr_vswap[of b _ _ _ "length zs"]]) simp_all
    have v1: "vecswap (SWAPINIT a es) (lay m a zs) (a + b * es) (a + pb * es - r1 * es) (r1 * es) = Ok (lay m a ws)"
      using vecswap_lay[OF ok2 b1(2,3)] by (simp add: sub(2)[OF b1(1)] ws_def)
    have v2: "vecswap (SWAPINIT a es) (lay m a ws) (a + pb * es) (a + (b + n) * es - r2 * es) (r2 * es) = Ok (lay m a ys)"
      using vecswap_lay[OF ok3 b2(2,3)] by (simp add: sub(2)[OF b2(1)] e(4))
    have s1: "min (a + pa * es - (a + b * es)) (a + pb * es - (a + pa * es)) = r1 * es"
      by (simp only: sub' mn r1_def)
    have "(b + n - pd) * es - es = (b + n - pd - 1) * es" by (simp add: diff_mult_distrib)
    then have s2: "min (a + pd * es - (a + pc * es)) (a + (b + n) * es - (a + pd * es) - es) = r2 * es"
      by (simp only: sub' mn r2_def)
    have s3: "a + (b + n) * es - (a + pd * es - (a + pc * es)) = a + (b + n - (pd - pc)) * es"
    proof -
      have "pd - pc \<le> b + n" using zb by linarith
      then show ?thesis unfolding sub' by (rule sub(2))
    qed
    show ?thesis
      unfolding start bnd_Ok prod.case pn Let_def s1 s2 v1 v2 s3 using True e(1-3) by (simp add: diff_mult_distrib)
  qed
qed

lemma sorts_set:
  assumes "sorts cmp R xs ys" and "ranges (length xs) R"
  shows "set ys \<subseteq> set xs"
proof
  fix y assume "y \<in> set ys"
  then obtain i where i: "i < length ys" "y = ys ! i" by (auto simp: in_set_conv_nth)
  have len: "length ys = length xs" using sorts_length[OF assms(1)] .
  show "y \<in> set xs"
  proof (cases "\<exists>r \<in> set R. fst r \<le> i \<and> i < fst r + snd r")
    case True
    then obtain r where r: "r \<in> set R" "fst r \<le> i" "i < fst r + snd r" by blast
    then have "y \<in> set (mslice ys (fst r) (snd r))" using ranges_bound[OF assms(2) r(1)] i len by (auto intro: in_slice)
    then have "y \<in> set (mslice xs (fst r) (snd r))"
      using assms(1) r(1) by (metis (no_types, lifting) mset_eq_setD sorts_def)
    then show ?thesis by (auto simp: mslice_def dest: in_set_takeD in_set_dropD)
  next
    case False
    then have "ys ! i = xs ! i" by (intro sorts_nth[OF assms(1)]) (meson not_less)
    then show ?thesis using i len by simp
  qed
qed

definition sim_ok :: "compar \<Rightarrow> nat \<Rightarrow> bool" where
  "sim_ok cmp k \<longleftrightarrow> (\<forall>m a es b n st xs. arr_ok m a es xs \<longrightarrow> ranges (length xs) ((b, n) # st) \<longrightarrow> 3 * n + 1 + budget st \<le> k \<longrightarrow>
       qsort_loop cmp es (SWAPINIT a es) k (map (scaled a es) st) (a + b * es) n (lay m a xs) = Ok (lay m a (the (qs cmp k st b n xs)))) \<and>
     (\<forall>m a es st xs. arr_ok m a es xs \<longrightarrow> ranges (length xs) st \<longrightarrow> budget st \<le> k \<longrightarrow>
       qsort_pop cmp es (SWAPINIT a es) k (map (scaled a es) st) (lay m a xs) = Ok (lay m a (the (qs_pop cmp k st xs))))"

lemma sim_okD:
  assumes "sim_ok cmp k" and "arr_ok m a es xs"
  shows "ranges (length xs) (r # st) \<Longrightarrow> 3 * snd r + 1 + budget st \<le> k \<Longrightarrow>
      qsort_loop cmp es (SWAPINIT a es) k (map (scaled a es) st) (a + fst r * es) (snd r) (lay m a xs) =
        Ok (lay m a (the (qs cmp k st (fst r) (snd r) xs)))"
    and "ranges (length xs) st \<Longrightarrow> budget st \<le> k \<Longrightarrow>
      qsort_pop cmp es (SWAPINIT a es) k (map (scaled a es) st) (lay m a xs) = Ok (lay m a (the (qs_pop cmp k st xs)))"
  using assms unfolding sim_ok_def by (cases r, auto)

text \<open>What is left to do behind a partition, on both sides.\<close>

lemma sim_parts:
  assumes "sim_ok cmp k" and ok: "arr_ok m a es xs" and rs: "ranges (length xs) (small # large # st)"
    and b: "3 * (snd small + snd large) + 3 + budget st \<le> k"
  defines "sw \<equiv> SWAPINIT a es" and "SM \<equiv> a + fst small * es" and "LG \<equiv> a + fst large * es"
  shows "(if es < snd small * es
      then if length (map (scaled a es) st) < PARAMETER_STACK_LEVELS
           then qsort_loop cmp es sw k ((LG, snd large * es div es) # map (scaled a es) st) SM (snd small * es div es) (lay m a xs)
           else bnd (qsort_loop cmp es (SWAPINIT SM es) k [] SM (snd small * es div es) (lay m a xs)) (\<lambda>m.
             if es < snd large * es then qsort_loop cmp es sw k (map (scaled a es) st) LG (snd large * es div es) m
             else qsort_pop cmp es sw k (map (scaled a es) st) m)
      else if es < snd large * es then qsort_loop cmp es sw k (map (scaled a es) st) LG (snd large * es div es) (lay m a xs)
      else qsort_pop cmp es sw k (map (scaled a es) st) (lay m a xs)) =
    Ok (lay m a (the (if 1 < snd small
       then if length st < PARAMETER_STACK_LEVELS then qs cmp k (large # st) (fst small) (snd small) xs
            else Option.bind (qs cmp k [] (fst small) (snd small) xs) (\<lambda>xs.
              if 1 < snd large then qs cmp k st (fst large) (snd large) xs else qs_pop cmp k st xs)
       else if 1 < snd large then qs cmp k st (fst large) (snd large) xs
       else qs_pop cmp k st xs)))"
proof -
  note es = arr_okD(1)[OF ok]
  have one: "es < n * es \<longleftrightarrow> 1 < n" for n using slot_le(2)[OF es, of 1 n] by simp
  have dv: "n * es div es = n" for n using es by simp
  have large: "(if 1 < snd large then qsort_loop cmp es sw k (map (scaled a es) st) LG (snd large) (lay m a zs)
        else qsort_pop cmp es sw k (map (scaled a es) st) (lay m a zs)) =
      Ok (lay m a (the (if 1 < snd large then qs cmp k st (fst large) (snd large) zs else qs_pop cmp k st zs)))"
    if z: "arr_ok m a es zs" "length zs = length xs" for zs
    using sim_okD(1)[OF assms(1) z(1), of large st] sim_okD(2)[OF assms(1) z(1), of st] rs b z(2) by (simp add: sw_def LG_def)
  show ?thesis
  proof (cases "1 < snd small")
    case False
    then show ?thesis using large[OF ok refl] by (simp only: one dv if_False)
  next
    case True
    show ?thesis
    proof (cases "length st < PARAMETER_STACK_LEVELS")
      case st: True
      have "3 * snd small + 1 + budget (large # st) \<le> k" using b by (simp add: budget_def)
      then show ?thesis
        using sim_okD(1)[OF assms(1) ok rs] True st by (simp add: one dv scaled_def sw_def LG_def SM_def)
    next
      case st: False
      obtain zs where zs: "qs cmp k [] (fst small) (snd small) xs = Some zs" "sorts cmp [small] xs zs"
        using qs_okD(1)[OF qs_ok, of xs small "[]" k cmp] rs b by (auto simp: budget_def)
      have r1: "ranges (length xs) [small]" using rs by simp
      have z: "arr_ok m a es zs" "length zs = length xs"
        using arr_ok_cong[OF ok] sorts_set[OF zs(2) r1] sorts_length[OF zs(2)] by blast+
      have "qsort_loop cmp es (SWAPINIT SM es) k [] SM (snd small) (lay m a xs) = Ok (lay m a zs)"
        using sim_okD(1)[OF assms(1) ok, of small "[]"] r1 b zs(1) by (simp add: SM_def SWAPINIT_elem budget_def)
      then show ?thesis using large[OF z] True st zs(1) by (simp only: one dv if_True if_False bnd_Ok length_map Option.bind.simps)
    qed
  qed
qed

lemma sim_ok: "sim_ok cmp k"
proof (induction k)
  case 0
  have "qsort_pop cmp es sw 0 (map (scaled a es) st) M = Ok (lay m a (the (qs_pop cmp 0 st xs)))"
    if "budget st \<le> 0" "M = lay m a xs" for es sw a st m xs M
    using that by (cases st) (simp_all add: budget_def)
  then show ?case by (simp add: sim_ok_def)
next
  case (Suc k)
  have "qsort_loop cmp es (SWAPINIT a es) (Suc k) (map (scaled a es) st) (a + b * es) n (lay m a xs) =
      Ok (lay m a (the (qs cmp (Suc k) st b n xs)))"
    if ok: "arr_ok m a es xs" and rs: "ranges (length xs) ((b, n) # st)" and bd: "3 * n + 1 + budget st \<le> Suc k" for m a es b n st xs
  proof -
    have bound: "b + n \<le> length xs" and rst: "ranges (length xs) st" using rs by simp_all
    have ins: "bnd (insertion_sort cmp es (SWAPINIT a es) (a + b * es) n (lay m a zs)) (qsort_pop cmp es (SWAPINIT a es) k (map (scaled a es) st)) =
        Ok (lay m a (the (qs_pop cmp k st (ins_sort cmp b n zs))))" if z: "arr_ok m a es zs" "length zs = length xs" for zs
    proof -
      have r: "rearr b (b + n) zs (ins_sort cmp b n zs)" using bound z(2) by (intro ins_sort_rearr) simp
      show ?thesis
        using insertion_sort_lay[OF z(1), of b n cmp] sim_okD(2)[OF Suc arr_ok_rearr[OF z(1) r], of st] rearr_length[OF r] z(2) bound rst bd
        by simp
    qed
    show ?thesis
    proof (cases "n < 7")
      case True
      then show ?thesis using ins[OF ok refl] by simp
    next
      case False
      obtain c l d e r xs1 where sp: "split_range cmp b n xs = (c, (l, d), (e, r), xs1)" by (metis prod.exhaust)
      note dv = divide_lay[OF ok bound _ sp]
      have r1: "rearr b (b + n) xs xs1" and parts: "c \<Longrightarrow> l = b \<and> d + r < n \<and> e + r = b + n \<and> b + d \<le> e"
        using split_range_parts[OF sp _ bound] False by auto
      have ok1: "arr_ok m a es xs1" using arr_ok_rearr[OF ok r1] .
      have len: "length xs1 = length xs" using r1 by (rule rearr_length)
      show ?thesis
      proof (cases c)
        case nc: False
        then show ?thesis using ins[OF ok1 len] dv False sp by simp
      next
        case True
        note q = parts[OF True]
        define small where "small = (if d < r then (b, d) else (e, r))"
        define large where "large = (if d < r then (e, r) else (b, d))"
        have "ranges (length xs1) ((b, d) # (e, r) # st)" using ranges_split[OF rs, of d e r] q len by simp
        then have rs1: "ranges (length xs1) (small # large # st)"
          using ranges_swap[of "length xs1" "(b, d)" "(e, r)" st] by (simp only: small_def large_def split: if_split) blast
        have bd1: "3 * (snd small + snd large) + 3 + budget st \<le> k" using q bd by (auto simp: small_def large_def)
        have lt: "d * es < r * es \<longleftrightarrow> d < r" using arr_okD(1)[OF ok] by simp
        show ?thesis
          using sim_parts[OF Suc ok1 rs1 bd1] dv False True sp q lt
          by (auto simp: small_def large_def Let_def split: if_splits)
      qed
    qed
  qed
  moreover have "qsort_pop cmp es (SWAPINIT a es) (Suc k) (map (scaled a es) st) (lay m a xs) = Ok (lay m a (the (qs_pop cmp (Suc k) st xs)))"
    if "arr_ok m a es xs" "ranges (length xs) st" "budget st \<le> Suc k" for m a es st xs
    using that sim_okD(1)[OF Suc that(1), of "hd st" "tl st"] by (cases st) (simp_all add: budget_def scaled_def)
  ultimately show ?case unfolding sim_ok_def by blast
qed

lemma qsort_lay:
  assumes "arr_ok m a es xs"
  shows "qsort cmp (lay m a xs) a (length xs) es = Ok (lay m a (the (sort_elems cmp xs)))"
  using sim_okD(1)[OF sim_ok assms, of "(0, length xs)" "[]" "3 * length xs + 1" cmp]
  by (simp add: qsort_def sort_elems_def budget_def)

end
