(* ===== verification/Sort_Theorems.thy ===== *)
theory Sort_Theorems
  imports Sort_Refine
begin

text \<open>The properties of \<open>qsort\<close> and \<open>bsearch\<close> on the bytes of an array.\<close>

lemma arr_ok_objects:
  assumes "0 < es" and "a + n * es \<le> length m" and "n * es < 2 ^ 31"
  shows "arr_ok m a es (objects m a n es)"
proof -
  have "length (mslice m (a + i * es) es) = es" if "i < n" for i
    using that assms(2) mult_le_mono1[of "Suc i" n es] by simp
  then show ?thesis using assms by (auto simp: arr_ok_def objects_def)
qed

lemma objects_lay: "arr_ok m a es xs \<Longrightarrow> objects (lay m a xs) a (length xs) es = xs"
  by (intro nth_equalityI) (simp_all add: objects_def mslice_lay)

lemma qsort_objects:
  assumes "0 < es" and "a + n * es \<le> length m" and "n * es < 2 ^ 31"
  shows "\<exists>m'. qsort cmp m a n es = Ok m' \<and> length m' = length m \<and>
    (\<forall>q < length m. q < a \<or> a + n * es \<le> q \<longrightarrow> m' ! q = m ! q) \<and>
    mset (objects m' a n es) = mset (objects m a n es) \<and> (orders cmp \<longrightarrow> sorted_in cmp 0 n (objects m' a n es))"
proof -
  let ?xs = "objects m a n es"
  have n: "length ?xs = n" by (simp add: objects_def)
  note ok = arr_ok_objects[OF assms]
  obtain ys where ys: "sort_elems cmp ?xs = Some ys" "mset ys = mset ?xs" "orders cmp \<longrightarrow> sorted_in cmp 0 n ys"
    using sort_elems_sorts[of cmp ?xs] n by auto
  have len: "length ys = n" using ys(2) n by (metis size_mset)
  have ok': "arr_ok m a es ys" using arr_ok_cong[OF ok] ys(2) len n by (metis mset_eq_setD order_refl)
  have "qsort cmp m a n es = Ok (lay m a ys)"
    using qsort_lay[OF ok, of cmp] ys(1) by (simp add: n lay_objects[OF assms(1,2)])
  then show ?thesis
    using nth_lay_out[OF ok'] objects_lay[OF ok'] arr_okD(5)[OF ok'] ys(2,3) len by auto
qed

text \<open>
  C25.  \<open>qsort\<close> sorts in place, for every element size and alignment: on an array inside the memory
  (of less than 2 GiB) it returns, leaves every byte outside the array alone and permutes the
  objects, whatever the comparison function answers; when the comparison is a total preorder the
  objects are in order afterwards.
\<close>

theorem qsort_correct:
  assumes "0 < es" and "a + n * es \<le> length m" and "n * es < 2 ^ 31"
  shows "\<exists>m'. qsort cmp m a n es = Ok m' \<and> length m' = length m \<and>
    (\<forall>q < length m. q < a \<or> a + n * es \<le> q \<longrightarrow> m' ! q = m ! q) \<and>
    mset (objects m' a n es) = mset (objects m a n es) \<and> (orders cmp \<longrightarrow> sorted_in cmp 0 n (objects m' a n es))"
  using qsort_objects[OF assms] .

definition by_first_byte :: compar where
  "by_first_byte x y = int (unat (hd x)) - int (unat (hd y))"

lemma orders_by_first_byte: "orders by_first_byte"
  by (auto simp: orders_def by_first_byte_def)

theorem qsort_correct_witness:
  "\<exists>m'. qsort by_first_byte [7, 3, 0, 1, 1, 2, 2, 9] 1 3 2 = Ok m' \<and> m' ! 0 = 7 \<and> m' ! 7 = 9 \<and>
     sorted_in by_first_byte 0 3 (objects m' 1 3 2)"
  using qsort_correct[of 2 1 3 "[7, 3, 0, 1, 1, 2, 2, 9]" by_first_byte] orders_by_first_byte by auto

text \<open>The block sizes of \<open>vecswap\<close> are cut to 32 bits.\<close>

lemma vecswap_cut: "0 < n \<Longrightarrow> vecswap st m a b (n + 2 ^ 32) = vecswap st m a b n"
proof -
  have "(of_nat (n + 2 ^ 32) :: u32) = of_nat n" by (simp only: word_unat_eq_iff unat_of_nat) (simp add: take_bit_eq_mod)
  then show "0 < n \<Longrightarrow> vecswap st m a b (n + 2 ^ 32) = vecswap st m a b n"
    by (simp add: vecswap_def int_arg_def del: of_nat_add)
qed

subsection \<open>Binary search\<close>

text \<open>The key divides the objects: those before it, those equal to it, those behind it.\<close>

definition divides :: "compar \<Rightarrow> u8 list \<Rightarrow> u8 list list \<Rightarrow> bool" where
  "divides cmp key xs \<longleftrightarrow> (\<forall>i j. i < j \<and> j < length xs \<longrightarrow>
     (cmp key (xs ! i) < 0 \<longrightarrow> cmp key (xs ! j) < 0) \<and> (0 < cmp key (xs ! j) \<longrightarrow> 0 < cmp key (xs ! i)))"

lemma sorted_divides:
  assumes "orders cmp" and "sorted_in cmp 0 (length xs) xs"
  shows "divides cmp key xs"
proof -
  have "cmp key y < 0" if "cmp key x < 0" "cmp x y \<le> 0" for x y
    using that orders_trans[OF assms(1), of x y key] orders_flip[OF assms(1), of key x] orders_flip_le[OF assms(1), of y key]
    by linarith
  moreover have "0 < cmp key x" if "0 < cmp key y" "cmp x y \<le> 0" for x y
    using that orders_trans[OF assms(1), of key x y] by fastforce
  ultimately show ?thesis using assms(2) unfolding divides_def sorted_in_def by blast
qed

lemma bsearch_loop_finds:
  assumes "divides cmp key (objects m b n sz)" and "b + n * sz \<le> length m"
    and "\<And>i. i < lo \<Longrightarrow> i < n \<Longrightarrow> 0 < cmp key (objects m b n sz ! i)" and "\<And>i. hi \<le> i \<Longrightarrow> i < n \<Longrightarrow> cmp key (objects m b n sz ! i) < 0"
    and "hi \<le> n"
  shows "\<exists>r. bsearch_loop cmp key m b sz lo hi = Ok r \<and> (case r of
      None \<Rightarrow> \<forall>i < n. cmp key (objects m b n sz ! i) \<noteq> 0
    | Some p \<Rightarrow> \<exists>i < n. p = b + i * sz \<and> cmp key (objects m b n sz ! i) = 0)"
  using assms
proof (induction cmp key m b sz lo hi rule: bsearch_loop.induct)
  case (1 cmp key m b sz lo hi)
  let ?xs = "objects m b n sz" and ?i = "(lo + hi) div 2"
  show ?case
  proof (cases "lo < hi")
    case False
    have "cmp key (?xs ! i) \<noteq> 0" if "i < n" for i
      using that "1.prems"(3)[of i] "1.prems"(4)[of i] False by (cases "i < lo") auto
    then show ?thesis using False by (subst bsearch_loop.simps) simp
  next
    case True
    then have i: "?i < hi" "?i < n" "lo \<le> ?i" using "1.prems"(5) by auto
    have len: "length ?xs = n" by (simp add: objects_def)
    have b: "\<not> length m < b + ?i * sz + sz"
      using mult_le_mono1[of "Suc ?i" n sz] i "1.prems"(2) by simp
    have x: "mslice m (b + ?i * sz) sz = ?xs ! ?i" using i(2) by (simp add: objects_def)
    let ?r = "cmp key (?xs ! ?i)"
    have dv: "?r < 0 \<Longrightarrow> ?i < j \<Longrightarrow> j < n \<Longrightarrow> cmp key (?xs ! j) < 0" "0 < ?r \<Longrightarrow> j < ?i \<Longrightarrow> 0 < cmp key (?xs ! j)" for j
      using "1.prems"(1)[unfolded divides_def, rule_format, of ?i j] "1.prems"(1)[unfolded divides_def, rule_format, of j ?i] i(2) len
      by simp_all
    consider "?r < 0" | "0 < ?r" | "?r = 0" by linarith
    then show ?thesis
    proof cases
      case 1
      have "cmp key (?xs ! j) < 0" if "?i \<le> j" "j < n" for j using 1 dv(1)[of j] that by (cases "j = ?i") simp_all
      then have "\<exists>r. bsearch_loop cmp key m b sz lo ?i = Ok r \<and> (case r of
          None \<Rightarrow> \<forall>i < n. cmp key (?xs ! i) \<noteq> 0 | Some p \<Rightarrow> \<exists>i < n. p = b + i * sz \<and> cmp key (?xs ! i) = 0)"
        using 1 i x "1.prems"(3,5) by (intro "1.IH"(1)[OF True refl refl b refl _ "1.prems"(1,2)]) simp_all
      then show ?thesis using True b x 1 by (subst bsearch_loop.simps) (simp add: Let_def)
    next
      case 2
      have "0 < cmp key (?xs ! j)" if "j < ?i + 1" "j < n" for j using 2 dv(2)[of j] that by (cases "j = ?i") simp_all
      then have "\<exists>r. bsearch_loop cmp key m b sz (?i + 1) hi = Ok r \<and> (case r of
          None \<Rightarrow> \<forall>i < n. cmp key (?xs ! i) \<noteq> 0 | Some p \<Rightarrow> \<exists>i < n. p = b + i * sz \<and> cmp key (?xs ! i) = 0)"
        using 2 x "1.prems"(4,5) by (intro "1.IH"(2)[OF True refl refl b refl _ _ "1.prems"(1,2)]) simp_all
      then show ?thesis using True b x 2 by (subst bsearch_loop.simps) (simp add: Let_def)
    next
      case 3
      then show ?thesis using True b x i(2) by (subst bsearch_loop.simps) (auto simp: Let_def)
    qed
  qed
qed

text \<open>
  C26.  Searching what has been sorted: after \<open>qsort\<close> with a total preorder, \<open>bsearch\<close> with the same
  comparison returns the address of an object equal to the key, or null when the array held none.
\<close>

theorem qsort_bsearch:
  assumes "orders cmp" and "0 < es" and "a + n * es \<le> length m" and "n * es < 2 ^ 31"
  shows "\<exists>m' r. qsort cmp m a n es = Ok m' \<and> bsearch cmp key m' a n es = Ok r \<and>
    (r = None \<longleftrightarrow> (\<forall>x \<in> set (objects m a n es). cmp key x \<noteq> 0)) \<and>
    (\<forall>p. r = Some p \<longrightarrow> (\<exists>i < n. p = a + i * es) \<and> mslice m' p es \<in> set (objects m a n es) \<and> cmp key (mslice m' p es) = 0)"
proof -
  obtain m' where m': "qsort cmp m a n es = Ok m'" "length m' = length m" "mset (objects m' a n es) = mset (objects m a n es)"
      "sorted_in cmp 0 n (objects m' a n es)"
    using qsort_objects[OF assms(2-4), of cmp] assms(1) by auto
  let ?xs = "objects m' a n es"
  have len: "length ?xs = n" by (simp add: objects_def)
  have s: "set (objects m a n es) = set ?xs" using m'(3) by (metis mset_eq_setD)
  have nth: "?xs ! i = mslice m' (a + i * es) es" if "i < n" for i using that by (simp add: objects_def)
  obtain r where r: "bsearch_loop cmp key m' a es 0 n = Ok r" "case r of
      None \<Rightarrow> \<forall>i < n. cmp key (?xs ! i) \<noteq> 0 | Some p \<Rightarrow> \<exists>i < n. p = a + i * es \<and> cmp key (?xs ! i) = 0"
    using bsearch_loop_finds[of cmp key m' a n es 0 n] sorted_divides[OF assms(1)] m' assms(3) len by auto
  have "bsearch cmp key m' a n es = Ok r"
    using r assms(2) by (cases "n = 0") (auto simp: bsearch_def split: option.splits)
  moreover have "(r = None \<longleftrightarrow> (\<forall>x \<in> set ?xs. cmp key x \<noteq> 0)) \<and>
      (\<forall>p. r = Some p \<longrightarrow> (\<exists>i < n. p = a + i * es) \<and> mslice m' p es \<in> set ?xs \<and> cmp key (mslice m' p es) = 0)"
  proof (cases r)
    case None
    then show ?thesis using r(2) len by (auto simp: in_set_conv_nth)
  next
    case (Some p)
    then obtain i where i: "i < n" "p = a + i * es" "cmp key (?xs ! i) = 0" using r(2) by auto
    then have "?xs ! i \<in> set ?xs" using len by (intro nth_mem) simp
    then show ?thesis using Some i nth[OF i(1)] by auto
  qed
  ultimately show ?thesis using m'(1) s by blast
qed

theorem qsort_bsearch_witness:
  "\<exists>m' p. qsort by_first_byte [7, 3, 0, 1, 1, 2, 2, 9] 1 3 2 = Ok m' \<and> bsearch by_first_byte [2] m' 1 3 2 = Ok (Some p) \<and>
     hd (mslice m' p 2) = 2"
proof -
  have "objects [7, 3, 0, 1, 1, 2, 2, 9] 1 3 2 = [[3, 0], [1, 1], [2, 2 :: u8]]"
    by (simp add: objects_def mslice_def numeral_3_eq_3)
  then show ?thesis
    using qsort_bsearch[OF orders_by_first_byte, of 2 1 3 "[7, 3, 0, 1, 1, 2, 2, 9]" "[2]"]
    by (auto simp: by_first_byte_def word_unat_eq_iff)
qed

end
