(* ===== verification/Spec2Isabelle.thy ===== *)
theory Spec2Isabelle
  imports Basic_Session Basic_Errors Malloc_Theorems Reent Libc_Theorems_More Sort_Theorems
begin

text \<open>
  A verification development for UEFI TinyBASIC: a BASIC interpreter that runs as a UEFI
  application (\<open>src/basic.c\<close>), the port layer between it and the firmware (\<open>src/ub_util.c\<close>,
  \<open>src/ub_sbrk.c\<close>, \<open>src/libc/sys/x64uefi/syscalls.c\<close>) and the C library it is linked with
  (newlib, \<open>src/libc\<close>).

  \<^bold>\<open>The program and its parts.\<close>  \<open>basic_main\<close> is one C function of labels and \<open>goto\<close>s over static
  variables.  Program text, line buffer, variables and the stack of FOR and GOSUB frames share the
  array \<open>program\<close> of 64 KiB: text grows up from \<open>program_start\<close>, the line being typed stands
  behind it, the variables start at \<open>variables_begin\<close>, and the stack grows down from the end.
  The interpreter reads keys and writes characters through \<open>ub_util.c\<close>.  The C library asks the
  port for memory (\<open>ub_sbrk\<close>) and for files (the stubs in \<open>syscalls.c\<close>).

  \<^bold>\<open>Shape of the model.\<close>  A C operation is a function from a state to a result: \<open>Ok\<close> a value, or
  \<open>Stop\<close> for an access outside the array (\<open>Fault\<close>), a wait for a key that never comes
  (\<open>Blocked\<close>), a loop that repeats its state (\<open>Diverge\<close>) or an exhausted budget (\<open>NoFuel\<close>).
  Machine integers are words of their C width, pointers into \<open>program\<close> are offsets, and pointers
  stored in stack frames are bytes in that array, so that overwritten frames are read back as the
  program would read them.

  \<^bold>\<open>Theories and sources.\<close>
  \<^item> \<open>Prelude\<close>: results, little-endian loads and stores, C division, shared lemmas.
  \<^item> \<open>Console\<close> (\<open>ub_util.c\<close>): character input and output, \<open>cmd_Files\<close>; the firmware's answers
    are parameters.
  \<^item> \<open>Basic_State\<close> (\<open>basic.c\<close>): the static variables as a record, the keyword tables, access to
    \<open>program\<close>.
  \<^item> \<open>Basic_Lex\<close>: \<open>ignore_blanks\<close>, \<open>scantable\<close>, \<open>testnum\<close>.  \<open>Basic_Print\<close>: \<open>printnum\<close>,
    \<open>printline\<close>, messages, quoted strings.  \<open>Basic_Edit\<close>: \<open>getln\<close>, \<open>toUppercaseBuffer\<close>,
    \<open>findline\<close> and the part of the prompt that stores a line.  \<open>Basic_Expr\<close>: \<open>expr4\<close>, \<open>expr3\<close>,
    \<open>expr2\<close>, \<open>expression\<close>.
  \<^item> \<open>Basic_Exec\<close>: every label of \<open>basic_main\<close> as a definition \<open>l_<label>\<close>, \<open>step\<close> that
    dispatches on the label, \<open>run\<close> for a number of steps, and the step relation's closure \<open>exec\<close>.
  \<^item> \<open>Sbrk\<close> (\<open>ub_sbrk.c\<close>) with the firmware's page allocator as a parameter, \<open>Syscalls\<close>
    (\<open>syscalls.c\<close>): every stub over the table of open files, \<open>Reent\<close> (\<open>libc/reent\<close>): the re-entrant
    wrappers around those stubs, with the two objects called \<open>errno\<close>.
  \<^item> \<open>Libc_Mem\<close>, \<open>Libc_Search\<close>, \<open>Libc_Copy\<close>, \<open>Libc_Compare\<close>, \<open>Libc_Token\<close>, \<open>Libc_Misc\<close>,
    \<open>Libc_Wide\<close> (16-bit characters, as the build's \<open>-fshort-wchar\<close> makes them), \<open>Libc_Ctype\<close>:
    routines of \<open>libc/string\<close> and \<open>libc/ctype\<close> over a finite memory, in the word-at-a-time form the build
    compiles (\<open>PREFER_SIZE_OVER_SPEED\<close> is not defined), every access checked against the memory.
  \<^item> \<open>Libc_Sort\<close>: \<open>qsort\<close>, its two variants with an argument for the comparison, and \<open>bsearch\<close>
    (\<open>libc/search\<close>) over the bytes of the array; the comparison is a parameter that sees the bytes
    of two objects.
  \<^item> \<open>Malloc\<close>, \<open>Malloc_Ops\<close> (\<open>libc/stdlib/_mallocr.c\<close> and the functions on top of it): the allocator,
    over the long at each address, with the macros as operations and the array \<open>av_\<close> of bins inside
    that memory.  \<open>MORECORE\<close> is a parameter; on this port it is \<open>sbrk_r\<close> over \<open>ub_sbrk\<close>.

  \<^bold>\<open>What the lemmas show.\<close>
  \<^item> \<open>Basic_Grammar\<close>: a grammar of expressions with text and value; the recursive-descent
    evaluator computes the value of every expression whose text it is given.
  \<^item> \<open>Basic_Store\<close>, \<open>Basic_Line\<close>: the bytes of a program are a list of numbered lines, the line
    editor refines the abstract editor on such lists (locales \<open>line_store\<close> and
    \<open>ordered_line_store\<close> and their interpretation), for whole sessions of typed keys.
  \<^item> \<open>Basic_List\<close>: what LIST shows, and that the listing is an exact copy of the program.
  \<^item> \<open>Basic_Frame\<close>: which fields each operation leaves alone (locales \<open>scan_view\<close> and
    \<open>layout_view\<close>, interpreted by \<open>still\<close> and \<open>layout\<close>).
  \<^item> \<open>Basic_Control\<close>: the stack as a list of frames; FOR and GOSUB push, NEXT and RETURN find.
  \<^item> \<open>Libc_Mem\<close> has the locale \<open>word_scan\<close>, the contract between a test on bytes and its
    word-sized version, interpreted for each test the routines use; \<open>Reent\<close> has \<open>port_call\<close>, what a
    wrapper may rely on of the call below it.
  \<^item> \<open>Control_Steps\<close>: what each statement does with the stored program, the variables and the stack
    when its text is well formed.
  \<^item> \<open>Basic_Machine\<close> is an abstract machine for BASIC: statements over the grammar of expressions,
    a program as a list of numbered statements, a state of variables, open frames, shown text and
    the index of the next line.  \<open>Basic_Refine\<close> relates its states to those of \<open>basic_main\<close> (\<open>sim\<close>:
    the stored bytes are the program's text, each letter's eight bytes hold its value, the bytes
    above \<open>sp\<close> are the frames with line and text pointers for line indices) and shows that every
    statement's steps implement the machine's.  \<open>Basic_Session\<close> composes this with the line editor
    and the start of the application.  The machine has one statement for each line, no blanks
    inside it, no INPUT and POKE and no value for PEEK, and it has no step where the interpreter
    reports an error or a frame would not fit the stack.
  \<^item> \<open>Basic_Errors\<close>: inputs that the interpreter does not treat as it means to.
  \<^item> \<open>Control_Loop\<close>: the machine goes round a FOR loop of the program and comes out of it.
  \<^item> \<open>Sort_Array\<close> is the algorithm of \<open>qsort\<close> over a list of elements, \<open>Sort_Order\<close> shows that it
    permutes and sorts, \<open>Sort_Refine\<close> that the code over bytes computes what it computes while the
    array is smaller than 2 GiB (beyond, \<open>swapfunc\<close> cuts its size to an \<open>int\<close>).
  \<^item> The allocator.  \<open>Malloc_Ring\<close>: circular lists of links.  \<open>Malloc_Layout\<close>: the chunks between the
    base and the top as a map \<open>cm\<close> from addresses to sizes and use; they tile the arena.
    \<open>Malloc_Fields\<close>, \<open>Malloc_Inv\<close>: the invariant \<open>malloc_ok\<close> (heads and feet agree with the layout, a free
    chunk is followed by one in use, every free chunk is in exactly the bin of its size or is the
    last remainder, \<open>binblocks\<close> has marks only for blocks of bins there are) and the addresses the
    allocator owns.  \<open>Malloc_Prims\<close>, \<open>Malloc_Alloc\<close>,
    \<open>Malloc_Search\<close>: linking, unlinking, splitting and the searches keep it.  \<open>Malloc_Top\<close> has the
    locale \<open>morecore\<close>, the laws of a memory that grows at its end, and the extension of the top;
    \<open>Malloc_Request\<close> and \<open>Malloc_Free\<close> are \<open>malloc\<close> and \<open>free\<close> as a whole.  \<open>Malloc_Port\<close> interprets
    the locale on \<open>ub_sbrk\<close>.  \<open>Malloc_Client\<close> is the state at the start and what the invariant says of
    the blocks in use, \<open>Malloc_Resize\<close> is \<open>calloc\<close>, \<open>Malloc_Theorems\<close> has runs of a client and the
    properties.  The blocks in use are a map \<open>B\<close>; \<open>kept B\<close> says that the longs of all blocks of \<open>B\<close>
    stay as they were.
  \<^item> \<open>Basic_Theorems\<close>, \<open>Control_Theorems\<close>, \<open>Control_Loop\<close>, \<open>Basic_Session\<close>, \<open>Basic_Errors\<close>,
    \<open>Sort_Theorems\<close>, \<open>Libc_Theorems\<close>, \<open>Libc_Theorems_More\<close>, \<open>Malloc_Theorems\<close>: the properties, each
    with a witness on a concrete memory.  Theorems that state a defect of the code say so in their text:
    overflow of the stack by GOSUB, RETURN out of an open loop, heap growth into foreign pages and
    after a refused allocation, a console write that reports failure, a table of open files that
    starts full, blanks behind a product and behind the variable of NEXT, bounds of loops cut to 32
    bits, lines too long to be stored, error numbers that never reach the caller, a bounded length that reads too far,
    a case-insensitive comparison that leaves its table, and a \<open>realloc\<close> that keeps the lock.

  \<^bold>\<open>Bounds.\<close>  The loops of the interpreter end because a position only grows inside the array;
  where the C loop would repeat its state the result is \<open>Diverge\<close>.  The evaluator's recursion is
  cut at \<open>expr_fuel\<close>, six calls for each byte of memory: each level of the grammar is entered at
  most once between two bytes that are read, and \<open>expression_total\<close> shows that the budget is
  never used up.  \<open>qsort\<close> looks at no more than \<open>3 * n + 1\<close> ranges: each
  part leaves the pivot out, so that a range of \<open>n\<close> elements has at most \<open>n\<close> ranges below it, and
  \<open>qsort_correct\<close> shows that the budget suffices.  \<open>run\<close> takes its number of steps as an argument, because a BASIC program may run
  for ever.  The walks of the allocator have the budget \<open>k\<close>: a chunk has at least 32 bytes, so
  memory below \<open>lim\<close> has at most \<open>lim div 32\<close> of them, there are 127 bins, and \<open>lim div 32 + 130\<close> steps
  are enough for every walk; \<open>heap_run_returns\<close> states that every call returns with it.

  \<^bold>\<open>The firmware.\<close>  The properties of the heap rest on the documented contract of \<open>AllocatePages\<close>
  only (\<open>honours_address\<close>, \<open>allocates_pages\<close>): any request may be refused and then writes no address, a
  granted \<open>AllocateAddress\<close> has the pages it names, a granted \<open>AllocateAnyPages\<close> has pages anywhere,
  and every grant uses up pages of the machine.  The last bounds the heap by \<open>lim\<close>, the base plus all
  pages there are, wherever the firmware grants them.  Two conditions are on the machine (\<open>boots\<close>,
  \<open>arena\<close>): it has the four pages at \<open>INITIAL_BASE\<close> when the program first asks for them (what
  happens otherwise is \<open>ub_sbrk_after_refusal\<close>), and the program's array \<open>av_\<close> lies outside the range
  from the base to \<open>lim\<close>.  Memory is flat in this model: the allocator keeps its blocks apart from each
  other in the addresses it gets from \<open>ub_sbrk\<close>, and \<open>ub_sbrk_foreign_pages\<close> shows that these
  need not be pages the firmware has granted.

  \<^bold>\<open>Not modelled.\<close>  The firmware itself, which the repository does not contain; the allocation
  stress test and the log output of \<open>ub_test.c\<close>, which only chain calls of \<open>malloc\<close> and
  \<open>vsprintf\<close> (the text that the USER command prints is a parameter); the linker stubs of
  \<open>undef.c\<close>; the unused debugging aids of \<open>basic.c\<close>; of the allocator its statistics and
  the parts that are not compiled (\<open>mmap\<close>, debugging checks); and of newlib streams and formatted I/O, substring search, wide character classes, locales and conversion tables, which the interpreter
  does not call.
\<close>

end
